(* ===== verification/Prelude.thy ===== *)
theory Prelude
  imports Main "HOL-Library.Word" "HOL-Library.Monad_Syntax" "HOL-Library.List_Lexorder"
    "HOL-Library.Char_ord"
begin

text \<open>
  The vocabulary every component shares.  Rust's \<open>u64\<close> and \<open>u32\<close> are machine words, a Rust
  \<open>String\<close> (UTF-8 bytes) is a HOL \<open>string\<close> (a list of 8-bit characters), a \<open>Vec\<close> is a list, an
  \<open>Option\<close> an \<open>option\<close>, a \<open>Result\<close> a sum with the error on the left, and a \<open>BTreeMap\<close> an
  association list kept in strictly increasing key order by \<open>ains\<close>.  The decimal printer and
  parsers are the ones of Rust's standard library that the program calls (\<open>to_string\<close>,
  \<open>str::parse\<close>).  Generic lemmas about them carry the codec and ledger proofs.
\<close>

type_synonym u64 = "64 word"
type_synonym u32 = "32 word"

named_theorems result_simps \<open>inversion of chained results\<close>
named_theorems codec_defs \<open>definitions unfolded when a codec is proved\<close>

section \<open>Results\<close>

text \<open>The question mark operator: stop at the first error.\<close>

fun rbind :: "'e + 'a \<Rightarrow> ('a \<Rightarrow> 'e + 'b) \<Rightarrow> 'e + 'b" where
  "rbind (Inl e) f = Inl e"
| "rbind (Inr x) f = f x"

definition ok_or :: "'e \<Rightarrow> 'a option \<Rightarrow> 'e + 'a" where
  "ok_or e x = (case x of None \<Rightarrow> Inl e | Some y \<Rightarrow> Inr y)"

fun map_err :: "('e \<Rightarrow> 'f) \<Rightarrow> 'e + 'a \<Rightarrow> 'f + 'a" where
  "map_err f (Inl e) = Inl (f e)"
| "map_err f (Inr x) = Inr x"

fun is_ok :: "'e + 'a \<Rightarrow> bool" where
  "is_ok (Inl e) = False"
| "is_ok (Inr x) = True"

lemma rbind_Inr_iff [result_simps]: "rbind r f = Inr y \<longleftrightarrow> (\<exists>x. r = Inr x \<and> f x = Inr y)"
  by (cases r) auto

lemma rbind_Inl_iff [result_simps]:
  "rbind r f = Inl e \<longleftrightarrow> r = Inl e \<or> (\<exists>x. r = Inr x \<and> f x = Inl e)"
  by (cases r) auto

lemma ok_or_Inr_iff [result_simps, simp]: "ok_or e x = Inr y \<longleftrightarrow> x = Some y"
  by (auto simp: ok_or_def split: option.splits)

lemma ok_or_Inl_iff [result_simps, simp]: "ok_or e x = Inl e' \<longleftrightarrow> x = None \<and> e' = e"
  by (auto simp: ok_or_def split: option.splits)

lemma ok_or_simps [simp]: "ok_or e None = Inl e" "ok_or e (Some x) = Inr x"
  by (simp_all add: ok_or_def)

lemma map_err_Inr_iff [result_simps, simp]: "map_err f r = Inr y \<longleftrightarrow> r = Inr y"
  by (cases r) auto

lemma map_err_Inl_iff [result_simps]: "map_err f r = Inl y \<longleftrightarrow> (\<exists>e. r = Inl e \<and> y = f e)"
  by (cases r) auto

lemma rbindE: "rbind r f = Inr x \<Longrightarrow> (\<And>y. r = Inr y \<Longrightarrow> f y = Inr x \<Longrightarrow> P) \<Longrightarrow> P"
  by (cases r) auto

lemma is_ok_iff: "is_ok r \<longleftrightarrow> (\<exists>x. r = Inr x)"
  by (cases r) auto

text \<open>Collecting an iterator of results stops at the first error.\<close>

fun collect_results :: "('a \<Rightarrow> 'e + 'b) \<Rightarrow> 'a list \<Rightarrow> 'e + 'b list" where
  "collect_results f [] = Inr []"
| "collect_results f (x # xs) =
     rbind (f x) (\<lambda>y. rbind (collect_results f xs) (\<lambda>ys. Inr (y # ys)))"

lemma collect_results_Inr_iff:
  "collect_results f xs = Inr ys \<longleftrightarrow> list_all2 (\<lambda>x y. f x = Inr y) xs ys"
  by (induction xs arbitrary: ys) (auto simp: result_simps list_all2_Cons1)

lemma collect_results_ok: "(\<And>x. x \<in> set xs \<Longrightarrow> f x = Inr (g x)) \<Longrightarrow> collect_results f xs = Inr (map g xs)"
  by (induction xs) auto

text \<open>Collecting an iterator of options is \<open>those\<close> of the mapped list.\<close>

lemma those_map_Some_iff:
  "those (map f xs) = Some ys \<longleftrightarrow> list_all2 (\<lambda>x y. f x = Some y) xs ys"
  by (induction xs arbitrary: ys) (auto split: option.splits simp: list_all2_Cons1)

lemma those_map_some: "(\<And>x. x \<in> set xs \<Longrightarrow> f x = Some (g x)) \<Longrightarrow> those (map f xs) = Some (map g xs)"
  by (induction xs) auto

lemma those_map_encode [simp]:
  "(\<And>x. x \<in> set xs \<Longrightarrow> f (g x) = Some x) \<Longrightarrow> those (map (f \<circ> g) xs) = Some xs"
  by (induction xs) auto

lemma list_all2_functional:
  "list_all2 P xs ys \<Longrightarrow> list_all2 P xs zs \<Longrightarrow> (\<And>x y z. P x y \<Longrightarrow> P x z \<Longrightarrow> y = z) \<Longrightarrow> ys = zs"
proof (induction xs arbitrary: ys zs)
  case Nil
  then show ?case by simp
next
  case (Cons x xs)
  then show ?case by (auto simp: list_all2_Cons1)
qed

section \<open>Checked arithmetic\<close>

definition checked_succ :: "u64 \<Rightarrow> u64 option" where
  "checked_succ x = (if x = - 1 then None else Some (x + 1))"

definition saturating_succ32 :: "u32 \<Rightarrow> u32" where
  "saturating_succ32 x = (if x = - 1 then x else x + 1)"

lemma unat_succ_word: "x \<noteq> - 1 \<Longrightarrow> unat (x + 1 :: 'a::len word) = unat x + 1"
  using unatSuc [of x] by (metis Suc_eq_plus1 add.commute add_eq_0_iff2)

lemma checked_succ_Some: "checked_succ x = Some y \<Longrightarrow> unat y = unat x + 1"
  by (auto simp: checked_succ_def unat_succ_word split: if_splits)

lemma saturating_succ32_mono: "x \<le> saturating_succ32 x"
  by (simp add: saturating_succ32_def word_le_nat_alt unat_succ_word)

section \<open>Ordered association lists\<close>

text \<open>The insertion of \<open>BTreeMap\<close>: replace in place or insert in key order.\<close>

fun ains :: "'k::linorder \<Rightarrow> 'v \<Rightarrow> ('k \<times> 'v) list \<Rightarrow> ('k \<times> 'v) list" where
  "ains k v [] = [(k, v)]"
| "ains k v ((k', v') # m) =
     (if k < k' then (k, v) # (k', v') # m
      else if k = k' then (k, v) # m
      else (k', v') # ains k v m)"

definition akeys_sorted :: "('k::linorder \<times> 'v) list \<Rightarrow> bool" where
  "akeys_sorted m \<longleftrightarrow> sorted_wrt (<) (map fst m)"

lemma map_of_ains [simp]: "map_of (ains k v m) = (map_of m)(k \<mapsto> v)"
  by (induction m) (auto simp: fun_eq_iff)

lemma set_keys_ains: "fst ` set (ains k v m) = insert k (fst ` set m)"
proof (induction k v m rule: ains.induct)
  case (2 k v k' v' m)
  then show ?case
    by (cases "k < k'"; cases "k = k'") (simp_all add: insert_commute)
qed simp

lemma akeys_sorted_Nil [simp]: "akeys_sorted []"
  by (simp add: akeys_sorted_def)

lemma akeys_sorted_Cons:
  "akeys_sorted ((k, v) # m) \<longleftrightarrow> (\<forall>k' \<in> fst ` set m. k < k') \<and> akeys_sorted m"
  by (auto simp: akeys_sorted_def)

lemma akeys_sorted_ains: "akeys_sorted m \<Longrightarrow> akeys_sorted (ains k v m)"
proof (induction k v m rule: ains.induct)
  case (2 k v k' v' m)
  then show ?case
    by (cases "k < k'"; cases "k = k'")
      (force simp: akeys_sorted_Cons set_keys_ains simp del: image_insert)+
qed (simp add: akeys_sorted_Cons)

lemma akeys_sorted_distinct: "akeys_sorted m \<Longrightarrow> distinct (map fst m)"
  by (simp add: akeys_sorted_def strict_sorted_iff)

lemma akeys_sorted_sorted: "akeys_sorted m \<Longrightarrow> sorted (map fst m)"
  by (simp add: akeys_sorted_def strict_sorted_iff)

text \<open>Two ordered maps with the same entries are the same list.\<close>

lemma akeys_sorted_set_unique:
  assumes "akeys_sorted m" "akeys_sorted n" "set m = set n"
  shows "m = n"
  using assms
proof (induction m arbitrary: n)
  case Nil
  then show ?case by simp
next
  case (Cons p m)
  obtain k v where p: "p = (k, v)" by fastforce
  from Cons.prems obtain q n' where n: "n = q # n'" by (cases n) auto
  obtain k' v' where q: "q = (k', v')" by fastforce
  have lt: "\<forall>x \<in> set m. k < fst x" "\<forall>x \<in> set n'. k' < fst x"
    using Cons.prems by (auto simp: p q n akeys_sorted_Cons)
  have "p = q"
  proof (rule ccontr)
    assume "p \<noteq> q"
    then have "p \<in> set n'" "q \<in> set m" using Cons.prems(3) by (auto simp: n)
    with lt have "k' < k" "k < k'" by (auto simp: p q)
    then show False by simp
  qed
  moreover have "set m = set n'"
  proof -
    have "p \<notin> set m" "q \<notin> set n'" using lt by (auto simp: p q)
    with Cons.prems(3) \<open>p = q\<close> show ?thesis by (auto simp: n)
  qed
  ultimately show ?case using Cons by (auto simp: p q n akeys_sorted_Cons)
qed

lemma map_of_ains_len: "map_of m k = None \<Longrightarrow> length (ains k v m) = Suc (length m)"
  by (induction m) (auto split: if_splits)

section \<open>Decimal numbers\<close>

definition is_digit :: "char \<Rightarrow> bool" where
  "is_digit c \<longleftrightarrow> 48 \<le> (of_char c :: nat) \<and> (of_char c :: nat) \<le> 57"

definition digit_char :: "nat \<Rightarrow> char" where
  "digit_char d = char_of (48 + d)"

definition digit_val :: "char \<Rightarrow> nat" where
  "digit_val c = of_char c - 48"

fun dec :: "nat \<Rightarrow> string" where
  "dec n = (if n < 10 then [digit_char n] else dec (n div 10) @ [digit_char (n mod 10)])"

declare dec.simps [simp del]

definition undec :: "string \<Rightarrow> nat" where
  "undec s = foldl (\<lambda>n c. n * 10 + digit_val c) 0 s"

lemma is_digit_digit_char [simp]: "d < 10 \<Longrightarrow> is_digit (digit_char d)"
  by (simp add: is_digit_def digit_char_def)

lemma digit_val_digit_char [simp]: "d < 10 \<Longrightarrow> digit_val (digit_char d) = d"
  by (simp add: digit_val_def digit_char_def)

lemma digit_char_digit_val: "is_digit c \<Longrightarrow> digit_char (digit_val c) = c"
  by (simp add: is_digit_def digit_char_def digit_val_def)

lemma digit_val_bound: "is_digit c \<Longrightarrow> digit_val c < 10"
  unfolding is_digit_def digit_val_def by linarith

lemma undec_append_digit: "undec (s @ [c]) = undec s * 10 + digit_val c"
  by (simp add: undec_def)

lemma undec_dec [simp]: "undec (dec n) = n"
proof (induction n rule: dec.induct)
  case (1 n)
  then show ?case
    by (cases "n < 10") (simp_all add: dec.simps [of n] undec_append_digit undec_def)
qed

lemma dec_digits: "list_all is_digit (dec n)"
proof (induction n rule: dec.induct)
  case (1 n)
  then show ?case by (cases "n < 10") (simp_all add: dec.simps [of n])
qed

lemma dec_not_Nil [simp]: "dec n \<noteq> []"
  by (subst dec.simps) simp

lemma dec_inject [simp]: "dec m = dec n \<longleftrightarrow> m = n"
  by (metis undec_dec)

lemma dec_hd_digit: "is_digit (hd (dec n))"
  using dec_digits [of n] by (cases "dec n") auto

lemma dec_digit_mem: "c \<in> set (dec n) \<Longrightarrow> is_digit c"
  using dec_digits [of n] by (simp add: list_all_iff)

text \<open>The integer parsers of the standard library: an optional sign (\<open>-\<close> for signed types
  only), at least one digit, and no overflow.\<close>

definition all_digits :: "string \<Rightarrow> bool" where
  "all_digits s \<longleftrightarrow> s \<noteq> [] \<and> list_all is_digit s"

definition parse_u64 :: "string \<Rightarrow> u64 option" where
  "parse_u64 s =
     (let t = (case s of c # t \<Rightarrow> if c = CHR ''+'' then t else s | [] \<Rightarrow> s)
      in if all_digits t \<and> undec t < 2 ^ 64 then Some (of_nat (undec t)) else None)"

definition parse_i64 :: "string \<Rightarrow> int option" where
  "parse_i64 s =
     (let (neg, t) = (case s of c # t \<Rightarrow> if c = CHR ''-'' then (True, t)
                        else if c = CHR ''+'' then (False, t) else (False, s) | [] \<Rightarrow> (False, s));
          n = (if neg then - int (undec t) else int (undec t))
      in if all_digits t \<and> - (2 ^ 63) \<le> n \<and> n < 2 ^ 63 then Some n else None)"

definition dec_int :: "int \<Rightarrow> string" where
  "dec_int i = (if i < 0 then CHR ''-'' # dec (nat (- i)) else dec (nat i))"

definition dec_u64 :: "u64 \<Rightarrow> string" where
  "dec_u64 x = dec (unat x)"

lemma all_digits_dec [simp]: "all_digits (dec n)"
  by (simp add: all_digits_def dec_digits)

lemma dec_not_sign: "dec n = c # t \<Longrightarrow> c \<noteq> CHR ''+'' \<and> c \<noteq> CHR ''-''"
  using dec_digits [of n] by (auto simp: is_digit_def)

lemma parse_u64_dec: "n < 2 ^ 64 \<Longrightarrow> parse_u64 (dec n) = Some (of_nat n)"
  using dec_not_sign [of n] by (auto simp: parse_u64_def Let_def split: list.splits)
    (metis all_digits_dec undec_dec)+

lemma parse_u64_dec_u64 [simp]: "parse_u64 (dec_u64 x) = Some x"
  using parse_u64_dec [of "unat x"] unsigned_less [of x, where ?'a = nat] by (simp add: dec_u64_def)

lemma dec_u64_inject [simp]: "dec_u64 x = dec_u64 y \<longleftrightarrow> x = y"
  by (metis option.inject parse_u64_dec_u64)

lemma parse_i64_dec_int:
  assumes "- (2 ^ 63) \<le> i" "i < 2 ^ 63"
  shows "parse_i64 (dec_int i) = Some i"
proof (cases "i < 0")
  case True
  with assms show ?thesis by (simp add: parse_i64_def dec_int_def)
next
  case False
  obtain c t where ct: "dec (nat i) = c # t" by (cases "dec (nat i)") auto
  have "undec (c # t) = nat i" using ct by (metis undec_dec)
  moreover have "all_digits (c # t)" using ct by (metis all_digits_dec)
  ultimately show ?thesis
    using False assms dec_not_sign [OF ct] by (simp add: parse_i64_def dec_int_def ct)
qed

lemma parse_i64_range: "parse_i64 s = Some i \<Longrightarrow> - (2 ^ 63) \<le> i \<and> i < 2 ^ 63"
  unfolding parse_i64_def Let_def by (auto split: prod.splits if_split_asm)

lemma parse_i64_dec_int_self: "parse_i64 s = Some i \<Longrightarrow> parse_i64 (dec_int i) = Some i"
  using parse_i64_range by (auto intro: parse_i64_dec_int)

lemma dec_int_of_nat: "dec_int (int k) = dec k"
  by (simp add: dec_int_def)

lemma parse_i64_dec: "k < 2 ^ 63 \<Longrightarrow> parse_i64 (dec k) = Some (int k)"
  using parse_i64_dec_int [of "int k"] by (simp add: dec_int_of_nat)

lemma dec_int_inject [simp]: "dec_int i = dec_int j \<longleftrightarrow> i = j"
proof
  assume eq: "dec_int i = dec_int j"
  have no: "dec m \<noteq> CHR ''-'' # dec n" for m n using dec_not_sign [of m] by auto
  show "i = j"
    using eq no [of "nat i" "nat (- j)"] no [of "nat j" "nat (- i)"]
    by (auto simp: dec_int_def eq_nat_nat_iff split: if_splits)
qed simp

lemma sorted_maps_eq:
  assumes "akeys_sorted m" "akeys_sorted n" "\<And>k. map_of m k = map_of n k"
  shows "m = n"
proof (rule akeys_sorted_set_unique [OF assms(1,2)])
  have "p \<in> set m \<longleftrightarrow> p \<in> set n" for p
    using map_of_eq_Some_iff [OF akeys_sorted_distinct [OF assms(1)], of "fst p" "snd p"]
      map_of_eq_Some_iff [OF akeys_sorted_distinct [OF assms(2)], of "fst p" "snd p"] assms(3) by simp
  then show "set m = set n" by blast
qed

text \<open>A fold that changes a function at each point by that point's own step.\<close>

lemma fold_pointwise: "foldl (\<lambda>m e d. f d (m d) e) m es d = foldl (f d) (m d) es"
  by (induction es arbitrary: m) simp_all

end
