(* ===== verification/Cycles.thy ===== *)
theory Cycles
  imports Prelude
begin

text \<open>
  The cycle search of a question set (\<open>on_cycles\<close> in \<open>baley-core/src/questions/set.rs\<close>): Tarjan's
  algorithm with an explicit call stack.  A \<open>Vec\<close> used as a stack is a list with its top first, a
  \<open>Vec\<close> indexed by position is a list updated in place, and an index of \<open>usize::MAX\<close> is \<open>None\<close>.
  The loop is a partial function, so that ending is a theorem: the invariant below is kept by
  every step, a measure falls, and the search returns exactly the positions that share a strongly
  connected component with another.
\<close>

type_synonym edges = "nat list list"

record tarjan =
  t_index :: "nat option list"
  t_low :: "nat list"
  t_on_stack :: "bool list"
  t_stack :: "nat list"
  t_next :: nat
  t_calls :: "(nat \<times> nat) list"
  t_on_cycle :: "nat list"

definition tarjan_new :: "nat \<Rightarrow> tarjan" where
  "tarjan_new n =
     \<lparr>t_index = replicate n None, t_low = replicate n 0, t_on_stack = replicate n False, t_stack = [],
      t_next = 0, t_calls = [], t_on_cycle = []\<rparr>"

definition open_node :: "nat \<Rightarrow> tarjan \<Rightarrow> tarjan" where
  "open_node v t =
     t\<lparr>t_index := (t_index t)[v := Some (t_next t)], t_low := (t_low t)[v := t_next t],
       t_on_stack := (t_on_stack t)[v := True], t_stack := v # t_stack t, t_next := t_next t + 1,
       t_calls := (v, 0) # t_calls t\<rparr>"

definition lower :: "nat \<Rightarrow> nat \<Rightarrow> tarjan \<Rightarrow> tarjan" where
  "lower v x t = t\<lparr>t_low := (t_low t)[v := min (t_low t ! v) x]\<rparr>"

definition follow_edge :: "edges \<Rightarrow> nat \<Rightarrow> nat \<Rightarrow> tarjan \<Rightarrow> tarjan" where
  "follow_edge E node to t =
     (case t_index t ! to of
        None \<Rightarrow> open_node to t
      | Some i \<Rightarrow> if t_on_stack t ! to then lower node i t else t)"

fun pop_until :: "nat \<Rightarrow> nat list \<Rightarrow> nat list \<times> nat list" where
  "pop_until node [] = ([], [])"
| "pop_until node (m # s) =
     (if m = node then ([m], s) else (let (c, r) = pop_until node s in (m # c, r)))"

definition close_component :: "nat \<Rightarrow> tarjan \<Rightarrow> tarjan" where
  "close_component node t =
     (let (component, rest) = pop_until node (t_stack t)
      in t\<lparr>t_on_stack := foldl (\<lambda>os m. os[m := False]) (t_on_stack t) component, t_stack := rest,
           t_on_cycle := (if 1 < length component then t_on_cycle t @ component else t_on_cycle t)\<rparr>)"

definition return_node :: "nat \<Rightarrow> (nat \<times> nat) list \<Rightarrow> tarjan \<Rightarrow> tarjan" where
  "return_node node calls t =
     (let t1 = t\<lparr>t_calls := calls\<rparr>;
          t2 = (case calls of [] \<Rightarrow> t1 | (parent, _) # _ \<Rightarrow> lower parent (t_low t1 ! node) t1)
      in if Some (t_low t2 ! node) = t_index t2 ! node then close_component node t2 else t2)"

definition tarjan_step :: "edges \<Rightarrow> tarjan \<Rightarrow> tarjan" where
  "tarjan_step E t =
     (case t_calls t of
        [] \<Rightarrow> t
      | (node, e) # calls \<Rightarrow>
          if e < length (E ! node)
          then follow_edge E node (E ! node ! e) (t\<lparr>t_calls := (node, e + 1) # calls\<rparr>)
          else return_node node calls t)"

partial_function (option) tarjan_loop :: "edges \<Rightarrow> tarjan \<Rightarrow> tarjan option" where
  "tarjan_loop E t = (if t_calls t = [] then Some t else tarjan_loop E (tarjan_step E t))"

fun tarjan_roots :: "edges \<Rightarrow> nat list \<Rightarrow> tarjan \<Rightarrow> tarjan option" where
  "tarjan_roots E [] t = Some t"
| "tarjan_roots E (r # rs) t =
     (if t_index t ! r \<noteq> None then tarjan_roots E rs t
      else Option.bind (tarjan_loop E (open_node r t)) (tarjan_roots E rs))"

definition on_cycles :: "edges \<Rightarrow> nat list option" where
  "on_cycles E =
     Option.bind (tarjan_roots E [0..<length E] (tarjan_new (length E))) (\<lambda>t. Some (sort (t_on_cycle t)))"

section \<open>The invariant\<close>

abbreviation reach :: "edges \<Rightarrow> (nat \<times> nat) set" where
  "reach E \<equiv> {(u, v). u < length E \<and> v \<in> set (E ! u)}\<^sup>*"

definition edges_wf :: "edges \<Rightarrow> bool" where
  "edges_wf E \<longleftrightarrow> (\<forall>es \<in> set E. \<forall>v \<in> set es. v < length E)"

definition followed :: "edges \<Rightarrow> (nat \<times> nat) list \<Rightarrow> nat \<Rightarrow> nat" where
  "followed E C u = (case map_of C u of Some e \<Rightarrow> e | None \<Rightarrow> length (E ! u))"

definition numbered :: "edges \<Rightarrow> (nat \<Rightarrow> nat option) \<Rightarrow> nat \<Rightarrow> bool" where
  "numbered E I m \<longleftrightarrow>
     (\<forall>u. I u \<noteq> None \<longrightarrow> u < length E \<and> the (I u) < m) \<and> (\<forall>u v. I u \<noteq> None \<longrightarrow> I u = I v \<longrightarrow> u = v)"

definition stacked :: "edges \<Rightarrow> (nat \<Rightarrow> nat option) \<Rightarrow> nat list \<Rightarrow> (nat \<times> nat) list \<Rightarrow> bool" where
  "stacked E I S C \<longleftrightarrow>
     sorted_wrt (\<lambda>a b. the (I b) < the (I a)) S \<and> (\<forall>u \<in> set S. I u \<noteq> None)
     \<and> sorted_wrt (\<lambda>a b. the (I b) < the (I a)) (map fst C) \<and> fst ` set C \<subseteq> set S
     \<and> (\<forall>p \<in> set C. snd p \<le> length (E ! fst p))
     \<and> (\<forall>u \<in> set S. \<exists>v \<in> fst ` set C. the (I v) \<le> the (I u))"

definition explored :: "edges \<Rightarrow> (nat \<Rightarrow> nat option) \<Rightarrow> nat list \<Rightarrow> (nat \<times> nat) list \<Rightarrow> bool" where
  "explored E I S C \<longleftrightarrow>
     (\<forall>u. I u \<noteq> None \<longrightarrow> (\<forall>i < followed E C u. I (E ! u ! i) \<noteq> None))
     \<and> (\<forall>u w. I u \<noteq> None \<longrightarrow> u \<notin> set S \<longrightarrow> w \<in> set (E ! u) \<longrightarrow> I w \<noteq> None \<and> w \<notin> set S)
     \<and> (\<forall>v \<in> fst ` set C. \<forall>u \<in> set S. the (I v) \<le> the (I u) \<longrightarrow> (v, u) \<in> reach E)"

definition lowered :: "edges \<Rightarrow> (nat \<Rightarrow> nat option) \<Rightarrow> (nat \<Rightarrow> nat) \<Rightarrow> nat list \<Rightarrow> (nat \<times> nat) list \<Rightarrow> bool" where
  "lowered E I L S C \<longleftrightarrow>
     (\<forall>u \<in> set S. L u \<le> the (I u) \<and> (\<exists>w \<in> set S. the (I w) = L u \<and> (u, w) \<in> reach E))
     \<and> (\<forall>u \<in> set S. u \<notin> fst ` set C \<longrightarrow> L u < the (I u))
     \<and> (\<forall>u \<in> set S. \<forall>i < followed E C u. E ! u ! i \<in> set S \<longrightarrow> L u \<le> the (I (E ! u ! i)))
     \<and> (\<forall>v \<in> fst ` set C. \<forall>u \<in> set S - fst ` set C. the (I v) < the (I u) \<longrightarrow>
          (\<forall>v' \<in> fst ` set C. \<not> (the (I v) < the (I v') \<and> the (I v') < the (I u))) \<longrightarrow> L v \<le> L u)"

definition mutual :: "edges \<Rightarrow> nat \<Rightarrow> nat \<Rightarrow> bool" where
  "mutual E u v \<longleftrightarrow> (u, v) \<in> reach E \<and> (v, u) \<in> reach E"

definition collected :: "edges \<Rightarrow> (nat \<Rightarrow> nat option) \<Rightarrow> nat list \<Rightarrow> nat list \<Rightarrow> bool" where
  "collected E I S cs \<longleftrightarrow>
     distinct cs \<and> set cs = {u. I u \<noteq> None \<and> u \<notin> set S \<and> (\<exists>w. w \<noteq> u \<and> mutual E u w)}"

lemma mutual_refl [simp]: "mutual E u u"
  by (simp add: mutual_def)

lemma mutual_sym: "mutual E u v \<Longrightarrow> mutual E v u"
  by (simp add: mutual_def)

lemma mutual_trans: "mutual E u v \<Longrightarrow> mutual E v w \<Longrightarrow> mutual E u w"
  by (auto simp: mutual_def)

lemma numberedD:
  assumes "numbered E I m" "I u = Some i"
  shows "u < length E" "i < m" "I v = Some i \<Longrightarrow> v = u"
  using assms by (auto simp: numbered_def)

lemma numbered_less: "numbered E I m \<Longrightarrow> I u \<noteq> None \<Longrightarrow> the (I u) < m"
  by (auto simp: numbered_def)

lemma numbered_eq: "numbered E I m \<Longrightarrow> I u \<noteq> None \<Longrightarrow> I v \<noteq> None \<Longrightarrow> the (I u) = the (I v) \<Longrightarrow> u = v"
  by (auto simp: numbered_def)

lemma followed_Cons: "followed E ((v, e) # C) u = (if u = v then e else followed E C u)"
  by (simp add: followed_def)

lemma stackedD:
  assumes "stacked E I S C"
  shows "sorted_wrt (\<lambda>a b. the (I b) < the (I a)) S" "\<forall>u \<in> set S. I u \<noteq> None"
    "sorted_wrt (\<lambda>a b. the (I b) < the (I a)) (map fst C)" "fst ` set C \<subseteq> set S"
    "\<forall>p \<in> set C. snd p \<le> length (E ! fst p)" "\<forall>u \<in> set S. \<exists>g \<in> fst ` set C. the (I g) \<le> the (I u)"
  using assms unfolding stacked_def by - (elim conjE, assumption)+

lemma exploredD:
  assumes "explored E I S C"
  shows "I u \<noteq> None \<Longrightarrow> i < followed E C u \<Longrightarrow> I (E ! u ! i) \<noteq> None"
    "I u \<noteq> None \<Longrightarrow> u \<notin> set S \<Longrightarrow> w \<in> set (E ! u) \<Longrightarrow> I w \<noteq> None \<and> w \<notin> set S"
    "g \<in> fst ` set C \<Longrightarrow> u \<in> set S \<Longrightarrow> the (I g) \<le> the (I u) \<Longrightarrow> (g, u) \<in> reach E"
  using assms unfolding explored_def by blast+

lemma loweredD:
  assumes "lowered E I L S C" "u \<in> set S"
  shows "L u \<le> the (I u)" "\<exists>w \<in> set S. the (I w) = L u \<and> (u, w) \<in> reach E"
    "u \<notin> fst ` set C \<Longrightarrow> L u < the (I u)"
    "i < followed E C u \<Longrightarrow> E ! u ! i \<in> set S \<Longrightarrow> L u \<le> the (I (E ! u ! i))"
    "v \<in> fst ` set C \<Longrightarrow> u \<notin> fst ` set C \<Longrightarrow> the (I v) < the (I u) \<Longrightarrow>
       \<forall>v' \<in> fst ` set C. \<not> (the (I v) < the (I v') \<and> the (I v') < the (I u)) \<Longrightarrow> L v \<le> L u"
  using assms unfolding lowered_def by blast+

lemma stacked_below: "stacked E I S C \<Longrightarrow> u \<in> set S \<Longrightarrow> \<exists>g \<in> fst ` set C. the (I g) \<le> the (I u)"
  unfolding stacked_def by blast

lemma followed_le: "stacked E I S C \<Longrightarrow> followed E C u \<le> length (E ! u)"
  by (auto simp: followed_def stacked_def dest!: map_of_SomeD split: option.split)

lemma followed_black: "u \<notin> fst ` set C \<Longrightarrow> followed E C u = length (E ! u)"
proof -
  assume "u \<notin> fst ` set C"
  then have "map_of C u = None" by (simp add: map_of_eq_None_iff)
  then show ?thesis by (simp add: followed_def)
qed

section \<open>Opening a node\<close>

lemma open_keeps:
  assumes num: "numbered E I m" and st: "stacked E I S C" and ex: "explored E I S C" and lo: "lowered E I L S C"
    and new: "I v = None" "v < length E"
    and top: "\<And>u. u \<in> fst ` set C \<Longrightarrow> (u, v) \<in> reach E"
  shows "numbered E (I(v \<mapsto> m)) (m + 1)" "stacked E (I(v \<mapsto> m)) (v # S) ((v, 0) # C)"
    "explored E (I(v \<mapsto> m)) (v # S) ((v, 0) # C)" "lowered E (I(v \<mapsto> m)) (L(v := m)) (v # S) ((v, 0) # C)"
proof -
  have Ssome: "I u \<noteq> None" if "u \<in> set S" for u using st that by (simp add: stacked_def)
  have less: "the (I u) < m" if "u \<in> set S" for u using numbered_less [OF num Ssome [OF that]] .
  have neq: "u \<noteq> v" if "u \<in> set S" for u using Ssome [OF that] new(1) by auto
  have sub: "fst ` set C \<subseteq> set S" using st by (simp add: stacked_def)
  have Csub: "u \<in> set S" if "u \<in> fst ` set C" for u using sub that by blast
  have vS: "v \<notin> set S" using neq by blast
  have vC: "v \<notin> fst ` set C" using vS Csub by blast
  let ?I = "I(v \<mapsto> m)"
  have ix [simp]: "the (?I u) = the (I u)" if "u \<in> set S" for u using neq [OF that] by simp
  have cong: "sorted_wrt (\<lambda>a b. the (?I b) < the (?I a)) xs"
    if "sorted_wrt (\<lambda>a b. the (I b) < the (I a)) xs" "set xs \<subseteq> set S" for xs
    using that(1) by (rule sorted_wrt_mono_rel [rotated]) (use that(2) in \<open>simp add: subset_eq ix del: fun_upd_apply\<close>)
  show "numbered E ?I (m + 1)"
    unfolding numbered_def
  proof (intro conjI allI impI)
    fix u assume "?I u \<noteq> None"
    then show "u < length E" "the (?I u) < m + 1" using new(2) numbered_less [OF num, of u] num
      by (auto simp: numbered_def split: if_splits)
  next
    fix u w assume "?I u \<noteq> None" "?I u = ?I w"
    moreover have "?I x = ?I y \<Longrightarrow> x = v \<Longrightarrow> y \<noteq> v \<Longrightarrow> False" for x y
      using numbered_less [OF num, of y] by (metis fun_upd_other fun_upd_same less_irrefl option.sel option.simps(3))
    moreover have "u = w" if "u \<noteq> v" "w \<noteq> v" using that calculation(1,2) num by (simp add: numbered_def)
    ultimately show "u = w" by metis
  qed
  show "stacked E ?I (v # S) ((v, 0) # C)"
    unfolding stacked_def
  proof (intro conjI ballI)
    show "sorted_wrt (\<lambda>a b. the (?I b) < the (?I a)) (v # S)"
      using cong [of S] st less by (auto simp: stacked_def simp del: fun_upd_apply) (simp add: neq)
    show "sorted_wrt (\<lambda>a b. the (?I b) < the (?I a)) (map fst ((v, 0) # C))"
      using cong [of "map fst C"] st less Csub neq by (auto simp: stacked_def)
    show "fst ` set ((v, 0) # C) \<subseteq> set (v # S)" using sub by auto
    show "snd p \<le> length (E ! fst p)" if "p \<in> set ((v, 0) # C)" for p using that st by (auto simp: stacked_def)
    show "?I u \<noteq> None" if "u \<in> set (v # S)" for u using that Ssome by auto
    show "\<exists>w \<in> fst ` set ((v, 0) # C). the (?I w) \<le> the (?I u)" if "u \<in> set (v # S)" for u
    proof (cases "u = v")
      case False
      then have "u \<in> set S" using that by simp
      from stacked_below [OF st this] obtain w where "w \<in> fst ` set C" "the (I w) \<le> the (I u)" by blast
      then show ?thesis using False neq [OF Csub] by (intro bexI [of _ w]) auto
    qed auto
  qed
  have edge: "w \<noteq> v" if "u \<in> set S" "i < followed E C u" "w = E ! u ! i" for u i w
    using exploredD(1) [OF ex Ssome [OF that(1)] that(2)] that(3) new(1) by auto
  show "explored E ?I (v # S) ((v, 0) # C)"
    unfolding explored_def
  proof (intro conjI allI ballI impI)
    fix u i assume "?I u \<noteq> None" "i < followed E ((v, 0) # C) u"
    then show "?I (E ! u ! i) \<noteq> None" using exploredD(1) [OF ex, of u i] by (auto simp: followed_Cons split: if_splits)
  next
    fix u w assume "?I u \<noteq> None" "u \<notin> set (v # S)" "w \<in> set (E ! u)"
    then show "?I w \<noteq> None" "w \<notin> set (v # S)" using exploredD(2) [OF ex, of u w] new(1) by (auto split: if_splits)
  next
    fix w u assume w: "w \<in> fst ` set ((v, 0) # C)" and u: "u \<in> set (v # S)" and le: "the (?I w) \<le> the (?I u)"
    show "(w, u) \<in> reach E"
    proof (cases "u = v")
      case True
      with w top show ?thesis by auto
    next
      case False
      with u have uS: "u \<in> set S" by simp
      have "w \<noteq> v" using le less [OF uS] False by auto
      with w le uS False show ?thesis by (intro exploredD(3) [OF ex]) auto
    qed
  qed
  show "lowered E ?I (L(v := m)) (v # S) ((v, 0) # C)"
    unfolding lowered_def
  proof (intro conjI allI ballI impI)
    fix u assume u: "u \<in> set (v # S)"
    show "(L(v := m)) u \<le> the (?I u)" using u lo by (auto simp: lowered_def)
    show "\<exists>w \<in> set (v # S). the (?I w) = (L(v := m)) u \<and> (u, w) \<in> reach E"
    proof (cases "u = v")
      case False
      then obtain w where "w \<in> set S" "the (I w) = L u" "(u, w) \<in> reach E" using u lo by (auto simp: lowered_def)
      then show ?thesis using False neq by (intro bexI [of _ w]) auto
    qed auto
    show "(L(v := m)) u < the (?I u)" if "u \<notin> fst ` set ((v, 0) # C)" using that u lo by (auto simp: lowered_def)
    fix i assume i: "i < followed E ((v, 0) # C) u" "E ! u ! i \<in> set (v # S)"
    then have "u \<noteq> v" by (auto simp: followed_Cons)
    then have "u \<in> set S" "i < followed E C u" using u i by (auto simp: followed_Cons)
    with i lo edge [of u i] \<open>u \<noteq> v\<close> show "(L(v := m)) u \<le> the (?I (E ! u ! i))" by (auto simp: lowered_def)
  next
    fix w u assume w: "w \<in> fst ` set ((v, 0) # C)" and u: "u \<in> set (v # S) - fst ` set ((v, 0) # C)"
      and lt: "the (?I w) < the (?I u)"
      and no: "\<forall>v' \<in> fst ` set ((v, 0) # C). \<not> (the (?I w) < the (?I v') \<and> the (?I v') < the (?I u))"
    from u have uS: "u \<in> set S" "u \<notin> fst ` set C" "u \<noteq> v" by auto
    have wv: "w \<noteq> v" using lt less [OF uS(1)] uS(3) by auto
    with w have wC: "w \<in> fst ` set C" by auto
    have "\<forall>v' \<in> fst ` set C. \<not> (the (I w) < the (I v') \<and> the (I v') < the (I u))"
      using no wv uS(3) neq [OF Csub] by auto
    then have "L w \<le> L u" using lo wC uS lt wv by (auto simp: lowered_def)
    then show "(L(v := m)) w \<le> (L(v := m)) u" using wv uS(3) by simp
  qed
qed

section \<open>Following an edge\<close>

lemma advance_keys:
  "map fst (B @ (v, e') # C) = map fst (B @ (v, e) # C)"
  "fst ` set (B @ (v, e') # C) = fst ` set (B @ (v, e) # C)"
  by simp_all

lemma advance_followed:
  "v \<notin> fst ` set B \<Longrightarrow> followed E (B @ (v, e') # C) u = (if u = v then e' else followed E (B @ (v, e) # C) u)"
proof -
  assume "v \<notin> fst ` set B"
  then have "map_of B v = None" by (simp add: map_of_eq_None_iff)
  then show ?thesis by (simp add: followed_def map_add_def split: option.splits)
qed

lemma advance_followed_less:
  assumes v: "v \<notin> fst ` set B" and i: "i < followed E (B @ (v, e + 1) # C) u" and ne: "\<not> (u = v \<and> i = e)"
  shows "i < followed E (B @ (v, e) # C) u"
proof (cases "u = v")
  case True
  have "followed E (B @ (v, e + 1) # C) v = e + 1" "followed E (B @ (v, e) # C) v = e"
    using advance_followed [OF v, of E "e + 1" C v e] advance_followed [OF v, of E e C v e] by simp_all
  with True i ne show ?thesis by simp
next
  case False
  with advance_followed [OF v, of E "e + 1" C u e] i show ?thesis by simp
qed

lemma advance_stacked:
  assumes st: "stacked E I S (B @ (v, e) # C)" and e': "e' \<le> length (E ! v)"
  shows "stacked E I S (B @ (v, e') # C)"
proof -
  have "\<forall>p \<in> set (B @ (v, e') # C). snd p \<le> length (E ! fst p)" using stackedD(5) [OF st] e' by simp
  then show ?thesis
    unfolding stacked_def advance_keys [where e' = e' and e = e] using stackedD [OF st] by blast
qed

lemma advance_explored:
  assumes ex: "explored E I S (B @ (v, e) # C)" and v: "v \<notin> fst ` set B" and new: "I (E ! v ! e) \<noteq> None"
  shows "explored E I S (B @ (v, e + 1) # C)"
  unfolding explored_def advance_keys [where e' = "e + 1" and e = e]
proof (intro conjI allI ballI impI)
  fix u i assume u: "I u \<noteq> None" "i < followed E (B @ (v, e + 1) # C) u"
  show "I (E ! u ! i) \<noteq> None" using exploredD(1) [OF ex u(1) advance_followed_less [OF v u(2)]] new by auto
next
  fix u w assume "I u \<noteq> None" "u \<notin> set S" "w \<in> set (E ! u)"
  from exploredD(2) [OF ex this] show "I w \<noteq> None" "w \<notin> set S" by simp_all
next
  fix g u assume "g \<in> fst ` set (B @ (v, e) # C)" "u \<in> set S" "the (I g) \<le> the (I u)"
  then show "(g, u) \<in> reach E" by (rule exploredD(3) [OF ex])
qed

lemma advance_lowered:
  assumes lo: "lowered E I L S (B @ (v, e) # C)" and v: "v \<notin> fst ` set B" and new: "E ! v ! e \<in> set S \<Longrightarrow> L v \<le> the (I (E ! v ! e))"
  shows "lowered E I L S (B @ (v, e + 1) # C)"
  unfolding lowered_def advance_keys [where e' = "e + 1" and e = e]
proof (intro conjI allI ballI impI)
  fix u i assume u: "u \<in> set S" "i < followed E (B @ (v, e + 1) # C) u" "E ! u ! i \<in> set S"
  show "L u \<le> the (I (E ! u ! i))" using loweredD(4) [OF lo u(1) advance_followed_less [OF v u(2)] u(3)] new u(3) by auto
next
  fix g u assume "g \<in> fst ` set (B @ (v, e) # C)" "u \<in> set S - fst ` set (B @ (v, e) # C)" "the (I g) < the (I u)"
    "\<forall>v' \<in> fst ` set (B @ (v, e) # C). \<not> (the (I g) < the (I v') \<and> the (I v') < the (I u))"
  then show "L g \<le> L u" using loweredD(5) [OF lo, of u g] by (metis DiffE)
qed (use loweredD(1-3) [OF lo] in \<open>simp\<close>)+

lemma lower_lowered:
  assumes lo: "lowered E I L S C" and sub: "fst ` set C \<subseteq> set S" and v: "v \<in> fst ` set C"
    and x: "x \<le> L v" and w: "w \<in> set S" "the (I w) = x" "(v, w) \<in> reach E"
  shows "lowered E I (L(v := x)) S C"
proof -
  let ?L = "L(v := x)"
  have le: "?L u \<le> L u" for u using x by simp
  have vS: "v \<in> set S" using v sub by blast
  show ?thesis
    unfolding lowered_def
  proof (intro conjI allI ballI impI)
    fix u assume u: "u \<in> set S"
    then have lu: "L u \<le> the (I u)" "u \<notin> fst ` set C \<longrightarrow> L u < the (I u)" using lo by (simp_all add: lowered_def)
    show "?L u \<le> the (I u)" using le [of u] lu(1) by linarith
    show "\<exists>w \<in> set S. the (I w) = ?L u \<and> (u, w) \<in> reach E"
      using u lo w by (cases "u = v") (auto simp: lowered_def)
    show "?L u < the (I u)" if "u \<notin> fst ` set C" using le [of u] lu(2) that by linarith
    fix i assume "i < followed E C u" "E ! u ! i \<in> set S"
    then have "L u \<le> the (I (E ! u ! i))" using u lo by (simp add: lowered_def)
    with le [of u] show "?L u \<le> the (I (E ! u ! i))" by linarith
  next
    fix g u assume "g \<in> fst ` set C" "u \<in> set S - fst ` set C" "the (I g) < the (I u)"
      "\<forall>v' \<in> fst ` set C. \<not> (the (I g) < the (I v') \<and> the (I v') < the (I u))"
    then have "L g \<le> L u" "u \<noteq> v" using lo v by (auto simp: lowered_def)
    with le [of g] show "?L g \<le> ?L u" by simp
  qed
qed

section \<open>Returning from a node\<close>

text \<open>The top call becomes black without closing its component.\<close>

lemma return_keeps:
  assumes num: "numbered E I m" and st: "stacked E I S ((v, e) # C)" and ex: "explored E I S ((v, e) # C)"
    and lo: "lowered E I L S ((v, e) # C)"
    and full: "e = length (E ! v)" and less: "L v < the (I v)"
    and parent: "C = (p, e') # C'" "L p \<le> L v"
  shows "stacked E I S C" "explored E I S C" "lowered E I L S C"
proof -
  have sorted: "\<forall>g \<in> fst ` set C. the (I g) < the (I v)" using st by (force simp: stacked_def)
  have vC: "v \<notin> fst ` set C" using sorted by blast
  have vS: "v \<in> set S" using st by (simp add: stacked_def)
  have fol: "followed E C u = followed E ((v, e) # C) u" for u
    using followed_black [OF vC] full by (auto simp: followed_Cons)
  have top: "the (I g) \<le> the (I p)" if "g \<in> fst ` set C" for g using st that by (force simp: stacked_def parent(1))
  show "stacked E I S C"
    unfolding stacked_def
  proof (intro conjI ballI)
    fix u assume "u \<in> set S"
    from stacked_below [OF st this] obtain g where g: "g \<in> insert v (fst ` set C)" "the (I g) \<le> the (I u)" by auto
    show "\<exists>g \<in> fst ` set C. the (I g) \<le> the (I u)"
    proof (cases "g = v")
      case True
      have "p \<in> fst ` set C" by (simp add: parent(1))
      with True g sorted show ?thesis by (intro bexI [of _ p]) auto
    qed (use g in blast)
  qed (use st in \<open>auto simp: stacked_def\<close>)
  show "explored E I S C"
    unfolding explored_def
  proof (intro conjI allI ballI impI)
    fix u i assume "I u \<noteq> None" "i < followed E C u"
    then show "I (E ! u ! i) \<noteq> None" using exploredD(1) [OF ex, of u i] fol by metis
  next
    fix u w assume "I u \<noteq> None" "u \<notin> set S" "w \<in> set (E ! u)"
    from exploredD(2) [OF ex this] show "I w \<noteq> None" "w \<notin> set S" by simp_all
  next
    fix g u assume "g \<in> fst ` set C" "u \<in> set S" "the (I g) \<le> the (I u)"
    then show "(g, u) \<in> reach E" by (intro exploredD(3) [OF ex]) simp_all
  qed
  show "lowered E I L S C"
    unfolding lowered_def
  proof (intro conjI allI ballI impI)
    fix u assume u: "u \<in> set S"
    show "L u \<le> the (I u)" "\<exists>w \<in> set S. the (I w) = L u \<and> (u, w) \<in> reach E" using u lo by (auto simp: lowered_def)
    show "L u < the (I u)" if "u \<notin> fst ` set C" using u lo that less by (cases "u = v") (auto simp: lowered_def)
    fix i assume "i < followed E C u" "E ! u ! i \<in> set S"
    then show "L u \<le> the (I (E ! u ! i))" using u lo by (simp add: lowered_def fol)
  next
    fix g u assume g: "g \<in> fst ` set C" and u: "u \<in> set S - fst ` set C" and lt: "the (I g) < the (I u)"
      and no: "\<forall>v' \<in> fst ` set C. \<not> (the (I g) < the (I v') \<and> the (I v') < the (I u))"
    have key: "L g' \<le> L u'" if "g' \<in> fst ` set ((v, e) # C)" "u' \<in> set S - fst ` set ((v, e) # C)" "the (I g') < the (I u')"
      "\<forall>v' \<in> fst ` set ((v, e) # C). \<not> (the (I g') < the (I v') \<and> the (I v') < the (I u'))" for g' u'
      using loweredD(5) [OF lo _ that(1) _ that(3,4)] that(2) by simp
    show "L g \<le> L u"
    proof (cases "the (I v) \<le> the (I u)")
      case False
      then show ?thesis using key [of g u] g u lt no by auto
    next
      case True
      have gp: "g = p"
      proof -
        have pC: "p \<in> fst ` set C" by (simp add: parent(1))
        then have "the (I p) < the (I v)" using sorted by blast
        then have "the (I p) < the (I u)" using True by linarith
        then have "\<not> the (I g) < the (I p)" using no pC by blast
        moreover have "the (I g) \<le> the (I p)" using top [OF g] .
        ultimately have "the (I g) = the (I p)" by linarith
        moreover have "I g \<noteq> None" "I p \<noteq> None"
          using st g by (auto simp: stacked_def parent(1))
        ultimately show ?thesis using numbered_eq [OF num, of g p] by blast
      qed
      show ?thesis
      proof (cases "u = v")
        case False
        have "the (I v) \<noteq> the (I u)" using False numbered_eq [OF num, of v u] st u vS by (auto simp: stacked_def)
        then have "the (I v) < the (I u)" using True by linarith
        moreover have "\<not> the (I v) < the (I v')" if "v' \<in> fst ` set ((v, e) # C)" for v'
          using that sorted by auto
        ultimately have "L v \<le> L u" using key [of v u] u False by auto
        with parent gp show ?thesis by simp
      qed (use parent gp in simp)
    qed
  qed
qed

section \<open>Closing a component\<close>

lemma pop_until_split:
  assumes "v \<in> set s"
  obtains c r where "pop_until v s = (c @ [v], r)" "s = c @ v # r" "v \<notin> set c"
proof -
  have "\<exists>c r. pop_until v s = (c @ [v], r) \<and> s = c @ v # r \<and> v \<notin> set c"
    using assms
  proof (induction s)
    case (Cons m s)
    show ?case
    proof (cases "m = v")
      case False
      with Cons obtain c r where "pop_until v s = (c @ [v], r)" "s = c @ v # r" "v \<notin> set c" by auto
      with False show ?thesis by (intro exI [of _ "m # c"] exI [of _ r]) simp
    qed simp
  qed simp
  with that show ?thesis by blast
qed

lemma reach_step: "(u, w) \<in> reach E \<Longrightarrow> w < length E \<Longrightarrow> x \<in> set (E ! w) \<Longrightarrow> (u, x) \<in> reach E"
  by (auto intro: rtrancl_into_rtrancl)

lemma reach_closed:
  assumes "(u, w) \<in> reach E" "u \<in> A" "\<And>x y. x \<in> A \<Longrightarrow> y \<in> set (E ! x) \<Longrightarrow> y \<in> A"
  shows "w \<in> A"
  using assms(1,2) by (induction rule: rtrancl_induct) (auto intro: assms(3))

text \<open>When the top call's low is its own index, the nodes from it up are one whole component.\<close>

lemma component:
  assumes num: "numbered E I m" and st: "stacked E I S ((v, e) # C)" and ex: "explored E I S ((v, e) # C)"
    and lo: "lowered E I L S ((v, e) # C)"
    and full: "e = length (E ! v)" and root: "L v = the (I v)"
  shows "u \<in> set S \<Longrightarrow> the (I v) \<le> the (I u) \<Longrightarrow>
      mutual E u w \<longleftrightarrow> w \<in> set S \<and> the (I v) \<le> the (I w)"
    and "u \<in> set S \<Longrightarrow> the (I v) \<le> the (I u) \<Longrightarrow> x \<in> set (E ! u) \<Longrightarrow>
      I x \<noteq> None \<and> (x \<in> set S \<longrightarrow> the (I v) \<le> the (I x))"
proof -
  have sorted: "\<forall>g \<in> fst ` set C. the (I g) < the (I v)" using stackedD(3) [OF st] by (force simp: sorted_wrt.simps)
  have vS: "v \<in> set S" using stackedD(4) [OF st] by simp
  have some: "I u \<noteq> None" if "u \<in> set S" for u using stackedD(2) [OF st] that by blast
  have black: "u \<notin> fst ` set ((v, e) # C)" "the (I v) < the (I u)"
    if "u \<in> set S" "the (I v) \<le> the (I u)" "u \<noteq> v" for u
  proof -
    have "the (I v) \<noteq> the (I u)" using numbered_eq [OF num some [OF vS] some [OF that(1)]] that(3) by metis
    with that(2) show lt: "the (I v) < the (I u)" by linarith
    show "u \<notin> fst ` set ((v, e) # C)" using sorted lt that(3) by auto
  qed
  have high: "the (I v) \<le> L u" if "u \<in> set S" "the (I v) \<le> the (I u)" for u
  proof (cases "u = v")
    case False
    have "L v \<le> L u"
    proof (rule loweredD(5) [OF lo that(1) _ black(1) [OF that False] black(2) [OF that False]])
      show "\<forall>v' \<in> fst ` set ((v, e) # C). \<not> (the (I v) < the (I v') \<and> the (I v') < the (I u))"
        using sorted by auto
    qed simp
    with root show ?thesis by simp
  qed (use root in simp)
  have inward: "(u, v) \<in> reach E" if "u \<in> set S" "the (I v) \<le> the (I u)" for u
    using that
  proof (induction "the (I u)" arbitrary: u rule: less_induct)
    case less
    show ?case
    proof (cases "u = v")
      case False
      from loweredD(2) [OF lo less.prems(1)] obtain w where w: "w \<in> set S" "the (I w) = L u" "(u, w) \<in> reach E" by blast
      have "L u < the (I u)" using loweredD(3) [OF lo less.prems(1) black(1) [OF less.prems False]] .
      with less.hyps [of w] w high [OF less.prems] have "(w, v) \<in> reach E" by simp
      with w(3) show ?thesis by (rule rtrancl_trans)
    qed simp
  qed
  have onward: "(v, u) \<in> reach E" if "u \<in> set S" "the (I v) \<le> the (I u)" for u
    by (rule exploredD(3) [OF ex _ that]) simp
  have succ: "I x \<noteq> None \<and> (x \<in> set S \<longrightarrow> the (I v) \<le> the (I x))"
    if that: "u \<in> set S" "the (I v) \<le> the (I u)" and x: "x \<in> set (E ! u)" for u x
  proof -
    from x obtain i where i: "i < length (E ! u)" "x = E ! u ! i" by (auto simp: in_set_conv_nth)
    have "followed E ((v, e) # C) u = length (E ! u)"
    proof (cases "u = v")
      case False
      from followed_black [OF black(1) [OF that False]] show ?thesis .
    qed (simp add: followed_def full)
    with i have "i < followed E ((v, e) # C) u" by simp
    with exploredD(1) [OF ex some [OF that(1)]] loweredD(4) [OF lo that(1)] high [OF that] i(2)
    show ?thesis by force
  qed
  show "I x \<noteq> None \<and> (x \<in> set S \<longrightarrow> the (I v) \<le> the (I x))"
    if "u \<in> set S" "the (I v) \<le> the (I u)" "x \<in> set (E ! u)"
    using succ [OF that] .
  show "mutual E u w \<longleftrightarrow> w \<in> set S \<and> the (I v) \<le> the (I w)"
    if u: "u \<in> set S" "the (I v) \<le> the (I u)"
  proof
    assume "w \<in> set S \<and> the (I v) \<le> the (I w)"
    with u inward onward have "mutual E u v" "mutual E v w" by (auto simp: mutual_def)
    then show "mutual E u w" by (rule mutual_trans)
  next
    assume mut: "mutual E u w"
    let ?F = "{x. I x \<noteq> None \<and> x \<notin> set S}"
    have F: "y \<in> ?F" if "x \<in> ?F" "y \<in> set (E ! x)" for x y
      using exploredD(2) [OF ex, of x y] that by blast
    have "w \<in> {x \<in> set S. the (I v) \<le> the (I x)} \<union> ?F"
    proof (rule reach_closed)
      show "(u, w) \<in> reach E" using mut by (simp add: mutual_def)
      show "u \<in> {x \<in> set S. the (I v) \<le> the (I x)} \<union> ?F" using u by simp
      fix x y assume "x \<in> {x \<in> set S. the (I v) \<le> the (I x)} \<union> ?F" "y \<in> set (E ! x)"
      with succ F show "y \<in> {x \<in> set S. the (I v) \<le> the (I x)} \<union> ?F" by blast
    qed
    moreover have "w \<notin> ?F"
    proof
      assume "w \<in> ?F"
      moreover have "(w, u) \<in> reach E" using mut by (simp add: mutual_def)
      ultimately have "u \<in> ?F" using F by (intro reach_closed [of w u E ?F])
      with u show False by simp
    qed
    ultimately show "w \<in> set S \<and> the (I v) \<le> the (I w)" by blast
  qed
qed

lemma close_keeps:
  assumes num: "numbered E I m" and st: "stacked E I S ((v, e) # C)" and ex: "explored E I S ((v, e) # C)"
    and lo: "lowered E I L S ((v, e) # C)" and co: "collected E I S cs"
    and full: "e = length (E ! v)" and root: "L v = the (I v)" and split: "S = c @ v # r" "v \<notin> set c"
  shows "stacked E I r C" "explored E I r C" "lowered E I L r C"
    "collected E I r (if 1 < length (c @ [v]) then cs @ c @ [v] else cs)"
proof -
  have sorted: "\<forall>g \<in> fst ` set C. the (I g) < the (I v)" using stackedD(3) [OF st] by (force simp: sorted_wrt.simps)
  have above: "the (I v) < the (I u)" if "u \<in> set c" for u
    using stackedD(1) [OF st] that by (auto simp: split sorted_wrt_append)
  have below: "the (I u) < the (I v)" if "u \<in> set r" for u
    using stackedD(1) [OF st] that by (auto simp: split sorted_wrt_append)
  have mem: "u \<in> set (c @ [v]) \<longleftrightarrow> u \<in> set S \<and> the (I v) \<le> the (I u)" for u
    using above [of u] below [of u] by (auto simp: split)
  have rest: "u \<in> set r \<longleftrightarrow> u \<in> set S \<and> \<not> the (I v) \<le> the (I u)" for u
    using above [of u] below [of u] by (auto simp: split)
  have vC: "v \<notin> fst ` set C" using sorted by blast
  have fol: "followed E C u = followed E ((v, e) # C) u" for u
    using followed_black [OF vC] full by (auto simp: followed_Cons)
  note comp = component [OF num st ex lo full root]
  have Cr: "g \<in> set r" if "g \<in> fst ` set C" for g
  proof -
    have "g \<in> set S" using stackedD(4) [OF st] that by auto
    moreover have "the (I g) < the (I v)" using sorted that by blast
    ultimately show ?thesis by (simp add: rest)
  qed
  show "stacked E I r C"
    unfolding stacked_def
  proof (intro conjI ballI)
    show "sorted_wrt (\<lambda>a b. the (I b) < the (I a)) r"
      using stackedD(1) [OF st] by (simp add: split sorted_wrt_append)
    show "I u \<noteq> None" if "u \<in> set r" for u using stackedD(2) [OF st] that by (simp add: split)
    show "sorted_wrt (\<lambda>a b. the (I b) < the (I a)) (map fst C)" using stackedD(3) [OF st] by simp
    show "fst ` set C \<subseteq> set r" using Cr by blast
    show "snd p \<le> length (E ! fst p)" if "p \<in> set C" for p using stackedD(5) [OF st] that by simp
    show "\<exists>g \<in> fst ` set C. the (I g) \<le> the (I u)" if "u \<in> set r" for u
    proof -
      have "u \<in> set S" using that rest by blast
      from stacked_below [OF st this] below [OF that] show ?thesis by auto
    qed
  qed
  show "explored E I r C"
    unfolding explored_def
  proof (intro conjI allI ballI impI)
    fix u i assume "I u \<noteq> None" "i < followed E C u"
    then show "I (E ! u ! i) \<noteq> None" using exploredD(1) [OF ex, of u i] fol by metis
  next
    fix u w assume u: "I u \<noteq> None" "u \<notin> set r" and w: "w \<in> set (E ! u)"
    have "I w \<noteq> None \<and> w \<notin> set r"
    proof (cases "u \<in> set S")
      case True
      with u rest have "the (I v) \<le> the (I u)" by blast
      from comp(2) [OF True this w] show ?thesis using rest by blast
    next
      case False
      from exploredD(2) [OF ex u(1) False w] show ?thesis using rest by blast
    qed
    then show "I w \<noteq> None" "w \<notin> set r" by simp_all
  next
    fix g u assume "g \<in> fst ` set C" "u \<in> set r" "the (I g) \<le> the (I u)"
    then show "(g, u) \<in> reach E" using rest by (intro exploredD(3) [OF ex]) simp_all
  qed
  show "lowered E I L r C"
    unfolding lowered_def
  proof (intro conjI allI ballI impI)
    fix u assume u: "u \<in> set r"
    then have uS: "u \<in> set S" "u \<noteq> v" "the (I u) < the (I v)" using rest below by auto
    show le: "L u \<le> the (I u)" using loweredD(1) [OF lo uS(1)] .
    from loweredD(2) [OF lo uS(1)] obtain w where w: "w \<in> set S" "the (I w) = L u" "(u, w) \<in> reach E" by blast
    then have "w \<in> set r" using le uS(3) by (simp add: rest)
    with w show "\<exists>w \<in> set r. the (I w) = L u \<and> (u, w) \<in> reach E" by blast
    show "L u < the (I u)" if "u \<notin> fst ` set C" using loweredD(3) [OF lo uS(1)] that uS(2) by simp
    fix i assume "i < followed E C u" "E ! u ! i \<in> set r"
    then show "L u \<le> the (I (E ! u ! i))" using loweredD(4) [OF lo uS(1), of i] rest fol by auto
  next
    fix g u assume g: "g \<in> fst ` set C" and u: "u \<in> set r - fst ` set C" and lt: "the (I g) < the (I u)"
      and no: "\<forall>v' \<in> fst ` set C. \<not> (the (I g) < the (I v') \<and> the (I v') < the (I u))"
    have uS: "u \<in> set S" "u \<noteq> v" "the (I u) < the (I v)" using u rest below by auto
    have "\<forall>v' \<in> fst ` set ((v, e) # C). \<not> (the (I g) < the (I v') \<and> the (I v') < the (I u))"
      using no uS(3) by auto
    then show "L g \<le> L u" using loweredD(5) [OF lo uS(1) _ _ lt] g u uS(2) by simp
  qed
  have dist: "distinct S"
    using stackedD(1) [OF st] by (auto simp: sorted_wrt_iff_nth_less distinct_conv_nth) (metis less_irrefl linorder_neqE_nat)
  have cs: "distinct cs" "set cs = {u. I u \<noteq> None \<and> u \<notin> set S \<and> (\<exists>w. w \<noteq> u \<and> mutual E u w)}"
    using co by (simp_all add: collected_def)
  have some: "I u \<noteq> None" if "u \<in> set S" for u using stackedD(2) [OF st] that by blast
  have more: "(\<exists>w. w \<noteq> u \<and> mutual E u w) \<longleftrightarrow> c \<noteq> []" if u: "u \<in> set (c @ [v])" for u
  proof -
    have "mutual E u w \<longleftrightarrow> w \<in> set (c @ [v])" for w using comp(1) [of u w] u mem by blast
    moreover have "(\<exists>w. w \<noteq> u \<and> w \<in> set (c @ [v])) \<longleftrightarrow> c \<noteq> []" using u split(2) by (cases c) auto
    ultimately show ?thesis by blast
  qed
  show "collected E I r (if 1 < length (c @ [v]) then cs @ c @ [v] else cs)"
  proof (cases "c = []")
    case True
    then have "{u. I u \<noteq> None \<and> u \<notin> set r \<and> (\<exists>w. w \<noteq> u \<and> mutual E u w)} = set cs"
      unfolding cs(2) using more split(1) by auto
    with True cs(1) show ?thesis by (simp add: collected_def)
  next
    case False
    have "set (cs @ c @ [v]) = {u. I u \<noteq> None \<and> u \<notin> set r \<and> (\<exists>w. w \<noteq> u \<and> mutual E u w)}"
    proof (rule set_eqI)
      fix u
      show "u \<in> set (cs @ c @ [v]) \<longleftrightarrow> u \<in> {u. I u \<noteq> None \<and> u \<notin> set r \<and> (\<exists>w. w \<noteq> u \<and> mutual E u w)}"
      proof (cases "u \<in> set (c @ [v])")
        case True
        then have "u \<notin> set r" "I u \<noteq> None" using mem rest some by blast+
        with True more [OF True] False show ?thesis by auto
      next
        case u: False
        then have "u \<in> set S \<longleftrightarrow> u \<in> set r" using mem rest by blast
        with u cs(2) show ?thesis by auto
      qed
    qed
    moreover have "distinct (cs @ c @ [v])" using cs dist by (auto simp: split)
    ultimately show ?thesis using False by (simp add: collected_def)
  qed
qed

section \<open>The state keeps the invariant\<close>

definition index_of :: "tarjan \<Rightarrow> nat \<Rightarrow> nat option" where
  "index_of t u = (if u < length (t_index t) then t_index t ! u else None)"

definition low_of :: "tarjan \<Rightarrow> nat \<Rightarrow> nat" where
  "low_of t u = t_low t ! u"

definition tarjan_inv :: "edges \<Rightarrow> tarjan \<Rightarrow> bool" where
  "tarjan_inv E t \<longleftrightarrow>
     length (t_index t) = length E \<and> length (t_low t) = length E \<and> length (t_on_stack t) = length E
     \<and> (\<forall>u < length E. t_on_stack t ! u \<longleftrightarrow> u \<in> set (t_stack t))
     \<and> numbered E (index_of t) (t_next t) \<and> stacked E (index_of t) (t_stack t) (t_calls t)
     \<and> explored E (index_of t) (t_stack t) (t_calls t)
     \<and> lowered E (index_of t) (low_of t) (t_stack t) (t_calls t)
     \<and> collected E (index_of t) (t_stack t) (t_on_cycle t)"

lemma tarjan_invD:
  assumes "tarjan_inv E t"
  shows "length (t_index t) = length E" "length (t_low t) = length E" "length (t_on_stack t) = length E"
    "\<forall>u < length E. t_on_stack t ! u \<longleftrightarrow> u \<in> set (t_stack t)"
    "numbered E (index_of t) (t_next t)" "stacked E (index_of t) (t_stack t) (t_calls t)"
    "explored E (index_of t) (t_stack t) (t_calls t)"
    "lowered E (index_of t) (low_of t) (t_stack t) (t_calls t)"
    "collected E (index_of t) (t_stack t) (t_on_cycle t)"
  using assms unfolding tarjan_inv_def by - (elim conjE, assumption)+

lemma stacked_lt: "tarjan_inv E t \<Longrightarrow> u \<in> set (t_stack t) \<Longrightarrow> u < length E"
  using numberedD(1) [OF tarjan_invD(5)] stackedD(2) [OF tarjan_invD(6)] by blast

lemma call_lt: "tarjan_inv E t \<Longrightarrow> (u, e) \<in> set (t_calls t) \<Longrightarrow> u < length E"
  using stacked_lt stackedD(4) [OF tarjan_invD(6)] by force

lemma index_of_open:
  assumes "length (t_index t) = length E" "v < length E"
  shows "index_of (open_node v t) = (index_of t)(v \<mapsto> t_next t)"
  using assms by (auto simp: index_of_def open_node_def fun_eq_iff nth_list_update)

lemma open_inv:
  assumes inv: "tarjan_inv E t" and v: "v < length E" "t_index t ! v = None"
    and top: "\<And>u. u \<in> fst ` set (t_calls t) \<Longrightarrow> (u, v) \<in> reach E"
  shows "tarjan_inv E (open_node v t)"
proof -
  note D = tarjan_invD [OF inv]
  have none: "index_of t v = None" using v D(1) by (simp add: index_of_def)
  have ix: "index_of (open_node v t) = (index_of t)(v \<mapsto> t_next t)" by (rule index_of_open [OF D(1) v(1)])
  have low: "lowered E I (low_of (open_node v t)) S C = lowered E I ((low_of t)(v := t_next t)) S C" if "\<forall>u \<in> set S. u < length E" "fst ` set C \<subseteq> set S" for I S C
  proof -
    have "low_of (open_node v t) u = ((low_of t)(v := t_next t)) u" for u
      using D(2) v(1) by (cases "u < length E") (auto simp: low_of_def open_node_def nth_list_update)
    then have "low_of (open_node v t) = (low_of t)(v := t_next t)" by (rule ext)
    then show ?thesis by simp
  qed
  have bound: "\<forall>u \<in> set (v # t_stack t). u < length E" using v(1) stacked_lt [OF inv] by simp
  have sub: "fst ` set ((v, 0) # t_calls t) \<subseteq> set (v # t_stack t)" using stackedD(4) [OF D(6)] by auto
  note K = open_keeps [OF D(5-8) none v(1) top]
  have "collected E ((index_of t)(v \<mapsto> t_next t)) (v # t_stack t) (t_on_cycle t)"
    using D(9) none stackedD(2) [OF D(6)] by (auto simp: collected_def)
  with K D(1-4) v(1) ix low [OF bound sub] show ?thesis
    unfolding tarjan_inv_def
    by (simp add: open_node_def nth_list_update del: fun_upd_apply)
qed

lemma index_of_calls [simp]: "index_of (t\<lparr>t_calls := c\<rparr>) = index_of t" "low_of (t\<lparr>t_calls := c\<rparr>) = low_of t"
  by (simp_all add: index_of_def low_of_def fun_eq_iff)

lemma lower_fields:
  "t_index (lower v x t) = t_index t" "t_on_stack (lower v x t) = t_on_stack t" "t_stack (lower v x t) = t_stack t"
  "t_next (lower v x t) = t_next t" "t_calls (lower v x t) = t_calls t" "t_on_cycle (lower v x t) = t_on_cycle t"
  "length (t_low (lower v x t)) = length (t_low t)" "index_of (lower v x t) = index_of t"
  by (simp_all add: lower_def index_of_def fun_eq_iff)

lemma low_of_lower: "v < length (t_low t) \<Longrightarrow> low_of (lower v x t) = (low_of t)(v := min (low_of t v) x)"
  by (auto simp: low_of_def lower_def fun_eq_iff nth_list_update)

lemma lower_inv:
  assumes inv: "tarjan_inv E t" and v: "v \<in> fst ` set (t_calls t)"
    and w: "w \<in> set (t_stack t)" "the (index_of t w) = x" "(v, w) \<in> reach E"
  shows "tarjan_inv E (lower v x t)"
proof -
  note D = tarjan_invD [OF inv]
  have vS: "v \<in> set (t_stack t)" using v stackedD(4) [OF D(6)] by blast
  then have vl: "v < length (t_low t)" using stacked_lt [OF inv] D(2) by simp
  have "\<exists>w \<in> set (t_stack t). the (index_of t w) = min (low_of t v) x \<and> (v, w) \<in> reach E"
    using w loweredD(2) [OF D(8) vS] by (auto simp: min_def)
  then obtain w' where "w' \<in> set (t_stack t)" "the (index_of t w') = min (low_of t v) x" "(v, w') \<in> reach E" by blast
  then have "lowered E (index_of t) ((low_of t)(v := min (low_of t v) x)) (t_stack t) (t_calls t)"
    by (intro lower_lowered [OF D(8) stackedD(4) [OF D(6)] v]) simp_all
  with D show ?thesis unfolding tarjan_inv_def low_of_lower [OF vl] by (simp only: lower_fields)
qed

lemma calls_fields:
  "t_index (t\<lparr>t_calls := c\<rparr>) = t_index t" "t_on_stack (t\<lparr>t_calls := c\<rparr>) = t_on_stack t" "t_stack (t\<lparr>t_calls := c\<rparr>) = t_stack t"
  "t_next (t\<lparr>t_calls := c\<rparr>) = t_next t" "t_calls (t\<lparr>t_calls := c\<rparr>) = c" "t_on_cycle (t\<lparr>t_calls := c\<rparr>) = t_on_cycle t"
  "t_low (t\<lparr>t_calls := c\<rparr>) = t_low t" "index_of (t\<lparr>t_calls := c\<rparr>) = index_of t" "low_of (t\<lparr>t_calls := c\<rparr>) = low_of t"
  by simp_all

lemma advance_inv:
  assumes inv: "tarjan_inv E t" and calls: "t_calls t = B @ (v, e) # C" and e: "e < length (E ! v)" and v: "v \<notin> fst ` set B"
    and new: "index_of t (E ! v ! e) \<noteq> None" "E ! v ! e \<in> set (t_stack t) \<Longrightarrow> low_of t v \<le> the (index_of t (E ! v ! e))"
  shows "tarjan_inv E (t\<lparr>t_calls := B @ (v, e + 1) # C\<rparr>)"
proof -
  note D = tarjan_invD [OF inv]
  have e1: "e + 1 \<le> length (E ! v)" using e by simp
  have "stacked E (index_of t) (t_stack t) (B @ (v, e + 1) # C)"
    using advance_stacked [OF D(6) [unfolded calls] e1] .
  moreover have "explored E (index_of t) (t_stack t) (B @ (v, e + 1) # C)"
    using advance_explored [OF D(7) [unfolded calls] v new(1)] .
  moreover have "lowered E (index_of t) (low_of t) (t_stack t) (B @ (v, e + 1) # C)"
    using D(8) [unfolded calls] v new(2) by (rule advance_lowered)
  ultimately show ?thesis
    unfolding tarjan_inv_def calls_fields using D(1-5,9) by (intro conjI)
qed

lemma lower_calls: "lower v x (t\<lparr>t_calls := c\<rparr>) = (lower v x t)\<lparr>t_calls := c\<rparr>"
  by (simp add: lower_def)

lemma edge_reach: "u < length E \<Longrightarrow> i < length (E ! u) \<Longrightarrow> (u, E ! u ! i) \<in> reach E"
  by (auto intro: r_into_rtrancl)

lemma edge_lt: "edges_wf E \<Longrightarrow> u < length E \<Longrightarrow> i < length (E ! u) \<Longrightarrow> E ! u ! i < length E"
  unfolding edges_wf_def by (meson nth_mem)

lemma open_advance:
  "open_node to (t\<lparr>t_calls := c\<rparr>) = (open_node to t)\<lparr>t_calls := (to, 0) # c\<rparr>"
  by (simp add: open_node_def)

text \<open>Every call is a node on the stack at or below the top one, which it reaches.\<close>

lemma call_top:
  assumes inv: "tarjan_inv E t" and calls: "t_calls t = (v, e) # C"
  shows "v \<in> set (t_stack t)" "v < length E" "e \<le> length (E ! v)" "index_of t v \<noteq> None"
    "u \<in> fst ` set (t_calls t) \<Longrightarrow> (u, v) \<in> reach E"
    "u \<in> fst ` set C \<Longrightarrow> the (index_of t u) < the (index_of t v)"
proof -
  note D = tarjan_invD [OF inv]
  show vS: "v \<in> set (t_stack t)" using stackedD(4) [OF D(6)] calls by auto
  then show "v < length E" by (rule stacked_lt [OF inv])
  show "e \<le> length (E ! v)" using stackedD(5) [OF D(6)] calls by simp
  show "index_of t v \<noteq> None" using stackedD(2) [OF D(6)] vS by blast
  have below: "the (index_of t u) < the (index_of t v)" if "u \<in> fst ` set C" for u
    using stackedD(3) [OF D(6)] calls that by auto
  show "the (index_of t u) < the (index_of t v)" if "u \<in> fst ` set C" using below [OF that] .
  show "(u, v) \<in> reach E" if u: "u \<in> fst ` set (t_calls t)"
  proof (rule exploredD(3) [OF D(7) u vS])
    show "the (index_of t u) \<le> the (index_of t v)" using u below [of u] unfolding calls by (cases "u \<in> fst ` set C") auto
  qed
qed

lemma follow_inv:
  assumes inv: "tarjan_inv E t" and calls: "t_calls t = (v, e) # C" and e: "e < length (E ! v)" and wf: "edges_wf E"
  shows "tarjan_inv E (follow_edge E v (E ! v ! e) (t\<lparr>t_calls := (v, e + 1) # C\<rparr>))"
proof -
  note D = tarjan_invD [OF inv]
  note T = call_top [OF inv calls]
  let ?to = "E ! v ! e"
  have to_lt: "?to < length E" using edge_lt [OF wf T(2) e] .
  have to_ix: "t_index t ! ?to = index_of t ?to" using to_lt D(1) by (simp add: index_of_def)
  have edge: "(v, ?to) \<in> reach E" using edge_reach [OF T(2) e] .
  show ?thesis
  proof (cases "t_index t ! ?to")
    case None
    have "tarjan_inv E (open_node ?to t)"
    proof (rule open_inv [OF inv to_lt None])
      fix u assume "u \<in> fst ` set (t_calls t)"
      from rtrancl_trans [OF T(5) [OF this] edge] show "(u, ?to) \<in> reach E" .
    qed
    moreover have "t_calls (open_node ?to t) = [(?to, 0)] @ (v, e) # C" by (simp add: open_node_def calls)
    moreover have vto: "v \<noteq> ?to" using None to_ix T(4) by metis
    moreover have "index_of (open_node ?to t) ?to = Some (t_next t)"
      using index_of_open [of t E ?to] D(1) to_lt by simp
    moreover have "low_of (open_node ?to t) v \<le> t_next t"
    proof -
      have "low_of (open_node ?to t) v = low_of t v" using vto by (simp add: low_of_def open_node_def)
      also have "\<dots> \<le> the (index_of t v)" using loweredD(1) [OF D(8) T(1)] .
      also have "\<dots> < t_next t" using numbered_less [OF D(5) T(4)] .
      finally show ?thesis by simp
    qed
    ultimately have "tarjan_inv E ((open_node ?to t)\<lparr>t_calls := [(?to, 0)] @ (v, e + 1) # C\<rparr>)"
      using e by (intro advance_inv) auto
    then show ?thesis using None by (simp add: follow_edge_def open_advance)
  next
    case (Some i)
    show ?thesis
    proof (cases "?to \<in> set (t_stack t)")
      case True
      have inv': "tarjan_inv E (lower v i t)"
        by (rule lower_inv [OF inv _ True _ edge]) (use Some to_ix in \<open>simp_all add: calls\<close>)
      have "tarjan_inv E ((lower v i t)\<lparr>t_calls := [] @ (v, e + 1) # C\<rparr>)"
      proof (rule advance_inv [OF inv' _ e])
        show "t_calls (lower v i t) = [] @ (v, e) # C" by (simp add: lower_fields calls)
        show "index_of (lower v i t) ?to \<noteq> None" using Some to_ix by (simp add: lower_fields)
        have "v < length (t_low t)" using D(2) T(2) by simp
        then show "low_of (lower v i t) v \<le> the (index_of (lower v i t) ?to)"
          using Some to_ix by (simp add: lower_fields low_of_lower)
      qed simp
      then show ?thesis using Some True D(4) to_lt by (simp add: follow_edge_def lower_calls)
    next
      case False
      have "tarjan_inv E (t\<lparr>t_calls := [] @ (v, e + 1) # C\<rparr>)"
        by (rule advance_inv [OF inv _ e]) (use Some to_ix False calls in simp_all)
      then show ?thesis using Some False D(4) to_lt by (simp add: follow_edge_def)
    qed
  qed
qed

lemma foldl_clear:
  "length (foldl (\<lambda>os m. os[m := False]) os c) = length os"
  "u < length os \<Longrightarrow> foldl (\<lambda>os m. os[m := False]) os c ! u \<longleftrightarrow> os ! u \<and> u \<notin> set c"
proof (induction c arbitrary: os)
  case (Cons a c)
  { case 1 show ?case by (simp add: Cons(1)) }
  { case 2 with Cons(2) [of "os[a := False]"] show ?case by (cases "u = a") auto }
qed simp_all

lemma close_fields:
  "t_index (close_component v t) = t_index t" "t_calls (close_component v t) = t_calls t"
  "t_next (close_component v t) = t_next t" "index_of (close_component v t) = index_of t"
  "t_low (close_component v t) = t_low t" "low_of (close_component v t) = low_of t"
  by (simp_all add: close_component_def index_of_def low_of_def fun_eq_iff split: prod.split)

lemma close_inv:
  assumes inv: "tarjan_inv E t" and calls: "t_calls t = (v, e) # C" and full: "e = length (E ! v)"
    and root: "low_of t v = the (index_of t v)"
  shows "tarjan_inv E (close_component v (t\<lparr>t_calls := C\<rparr>))"
proof -
  note D = tarjan_invD [OF inv]
  note T = call_top [OF inv calls]
  obtain c r where cr: "pop_until v (t_stack t) = (c @ [v], r)" "t_stack t = c @ v # r" "v \<notin> set c"
    using pop_until_split [OF T(1)] by blast
  note K = close_keeps [OF D(5) D(6) [unfolded calls] D(7) [unfolded calls] D(8) [unfolded calls] D(9) full root cr(2,3)]
  let ?t = "close_component v (t\<lparr>t_calls := C\<rparr>)"
  have S: "t_stack ?t = r" "t_calls ?t = C"
    "t_on_cycle ?t = (if 1 < length (c @ [v]) then t_on_cycle t @ c @ [v] else t_on_cycle t)"
    "t_on_stack ?t = foldl (\<lambda>os m. os[m := False]) (t_on_stack t) (c @ [v])"
    by (simp_all add: close_component_def cr(1))
  have dist: "distinct (t_stack t)"
    using stackedD(1) [OF D(6)] by (auto simp: sorted_wrt_iff_nth_less distinct_conv_nth) (metis less_irrefl linorder_neqE_nat)
  have on: "\<forall>u < length E. t_on_stack ?t ! u \<longleftrightarrow> u \<in> set (t_stack ?t)"
  proof (intro allI impI)
    fix u assume u: "u < length E"
    have "t_on_stack ?t ! u \<longleftrightarrow> t_on_stack t ! u \<and> u \<notin> set (c @ [v])"
      unfolding S(4) by (rule foldl_clear(2)) (simp add: D(3) u)
    also have "\<dots> \<longleftrightarrow> u \<in> set r" using D(4) u dist by (auto simp: cr(2))
    finally show "t_on_stack ?t ! u \<longleftrightarrow> u \<in> set (t_stack ?t)" by (simp add: S(1))
  qed
  have len: "length (t_on_stack ?t) = length E" unfolding S(4) foldl_clear(1) by (rule D(3))
  show ?thesis
    unfolding tarjan_inv_def
  proof (intro conjI)
    show "length (t_index ?t) = length E" "length (t_low ?t) = length E" by (simp_all add: close_fields D(1,2))
    show "numbered E (index_of ?t) (t_next ?t)" using D(5) by (simp add: close_fields)
    show "stacked E (index_of ?t) (t_stack ?t) (t_calls ?t)" using K(1) by (simp only: S close_fields calls_fields)
    show "explored E (index_of ?t) (t_stack ?t) (t_calls ?t)" using K(2) by (simp only: S close_fields calls_fields)
    show "lowered E (index_of ?t) (low_of ?t) (t_stack ?t) (t_calls ?t)" using K(3) by (simp only: S close_fields calls_fields)
    show "collected E (index_of ?t) (t_stack ?t) (t_on_cycle ?t)" using K(4) by (simp only: S close_fields calls_fields)
  qed (fact on len)+
qed

lemma return_inv:
  assumes inv: "tarjan_inv E t" and calls: "t_calls t = (v, e) # C" and full: "e = length (E ! v)"
  shows "tarjan_inv E (return_node v C t)"
proof -
  note D = tarjan_invD [OF inv]
  note T = call_top [OF inv calls]
  obtain i where i: "index_of t v = Some i" using T(4) by blast
  have iv: "t_index t ! v = Some i" using i T(2) D(1) by (simp add: index_of_def)
  show ?thesis
  proof (cases "low_of t v = i")
    case True
    have same: "lower p (t_low t ! v) (t\<lparr>t_calls := C\<rparr>) = t\<lparr>t_calls := C\<rparr>" if "p \<in> fst ` set C" for p
    proof -
      have "p \<in> set (t_stack t)" using that stackedD(4) [OF D(6)] calls by auto
      then have "low_of t p \<le> the (index_of t p)" by (rule loweredD(1) [OF D(8)])
      then have "t_low t ! p \<le> t_low t ! v" using T(6) [OF that] True i by (simp add: low_of_def)
      then show ?thesis by (simp add: lower_def min_absorb1)
    qed
    have "return_node v C t = close_component v (t\<lparr>t_calls := C\<rparr>)"
      using True iv same by (cases C) (auto simp: return_node_def low_of_def Let_def)
    with close_inv [OF inv calls full] True i show ?thesis by simp
  next
    case False
    have less: "low_of t v < i" using loweredD(1) [OF D(8) T(1)] False i by simp
    obtain w where w: "w \<in> set (t_stack t)" "the (index_of t w) = low_of t v" "(v, w) \<in> reach E"
      using loweredD(2) [OF D(8) T(1)] by blast
    obtain p e' C' where C: "C = (p, e') # C'"
    proof (cases C)
      case Nil
      from stacked_below [OF D(6) w(1)] have "i \<le> the (index_of t w)" by (simp add: calls Nil i)
      with w(2) less show ?thesis by simp
    qed auto
    have pv: "(p, v) \<in> reach E" using T(5) [of p] by (simp add: calls C)
    let ?t = "lower p (low_of t v) t"
    have inv': "tarjan_inv E ?t"
      by (rule lower_inv [OF inv _ w(1,2) rtrancl_trans [OF pv w(3)]]) (simp add: calls C)
    note D' = tarjan_invD [OF inv']
    have calls': "t_calls ?t = (v, e) # C" by (simp add: lower_fields calls)
    have ne: "p \<noteq> v" using T(6) [of p] by (auto simp: C)
    have "p < length E" by (rule call_lt [OF inv, of p e']) (simp add: calls C)
    then have low: "low_of ?t = (low_of t)(p := min (low_of t p) (low_of t v))" using D(2) by (intro low_of_lower) simp
    have "stacked E (index_of ?t) (t_stack ?t) C \<and> explored E (index_of ?t) (t_stack ?t) C
        \<and> lowered E (index_of ?t) (low_of ?t) (t_stack ?t) C"
    proof -
      have a: "low_of ?t v < the (index_of ?t v)" using less ne by (simp add: low lower_fields i)
      have b: "low_of ?t p \<le> low_of ?t v" using ne by (simp add: low)
      from return_keeps [OF D'(5) D'(6) [unfolded calls'] D'(7) [unfolded calls'] D'(8) [unfolded calls'] full a C b]
      show ?thesis by (intro conjI)
    qed
    then have "tarjan_inv E (?t\<lparr>t_calls := C\<rparr>)"
      unfolding tarjan_inv_def calls_fields using D'(1-5,9) by (elim conjE, intro conjI)
    moreover have "return_node v C t = ?t\<lparr>t_calls := C\<rparr>"
      using False iv ne C by (simp add: return_node_def low_of_def lower_def)
    ultimately show ?thesis by simp
  qed
qed

lemma step_inv:
  assumes "tarjan_inv E t" "edges_wf E"
  shows "tarjan_inv E (tarjan_step E t)"
proof (cases "t_calls t")
  case (Cons p C)
  obtain v e where p: "p = (v, e)" by fastforce
  have "e \<le> length (E ! v)" using call_top(3) [OF assms(1)] Cons p by blast
  with follow_inv [OF assms(1) _ _ assms(2)] return_inv [OF assms(1)] Cons p show ?thesis
    by (cases "e < length (E ! v)") (auto simp: tarjan_step_def)
qed (use assms in \<open>simp add: tarjan_step_def\<close>)

section \<open>The search ends\<close>

definition node_cost :: "edges \<Rightarrow> tarjan \<Rightarrow> nat \<Rightarrow> nat" where
  "node_cost E t u = (if index_of t u = None then length (E ! u) + 2 else 0)"

definition call_cost :: "edges \<Rightarrow> nat \<times> nat \<Rightarrow> nat" where
  "call_cost E p = length (E ! fst p) - snd p + 1"

definition search_cost :: "edges \<Rightarrow> tarjan \<Rightarrow> nat" where
  "search_cost E t = (\<Sum>u < length E. node_cost E t u) + sum_list (map (call_cost E) (t_calls t))"

lemma node_cost_open:
  assumes "length (t_index t) = length E" "v < length E" "index_of t v = None"
  shows "(\<Sum>u < length E. node_cost E t u) = (\<Sum>u < length E. node_cost E (open_node v t) u) + (length (E ! v) + 2)"
proof -
  have ix: "index_of (open_node v t) = (index_of t)(v \<mapsto> t_next t)" by (rule index_of_open [OF assms(1,2)])
  have "(\<Sum>u < length E. node_cost E t u) = node_cost E t v + (\<Sum>u \<in> {..<length E} - {v}. node_cost E t u)"
    using assms(2) by (intro sum.remove) auto
  moreover have "(\<Sum>u < length E. node_cost E (open_node v t) u)
      = node_cost E (open_node v t) v + (\<Sum>u \<in> {..<length E} - {v}. node_cost E (open_node v t) u)"
    using assms(2) by (intro sum.remove) auto
  moreover have "(\<Sum>u \<in> {..<length E} - {v}. node_cost E (open_node v t) u) = (\<Sum>u \<in> {..<length E} - {v}. node_cost E t u)"
    by (rule sum.cong) (auto simp: node_cost_def ix)
  ultimately show ?thesis using assms(3) by (simp add: node_cost_def ix)
qed

lemma node_cost_index: "index_of t = index_of t' \<Longrightarrow> node_cost E t = node_cost E t'"
  by (simp add: node_cost_def fun_eq_iff)

lemma return_fields: "index_of (return_node v C t) = index_of t" "t_calls (return_node v C t) = C"
  by (auto simp: return_node_def Let_def close_fields lower_fields calls_fields split: list.split)

lemma step_falls:
  assumes inv: "tarjan_inv E t" and wf: "edges_wf E" and busy: "t_calls t \<noteq> []"
  shows "search_cost E (tarjan_step E t) < search_cost E t"
    and "index_of t u \<noteq> None \<Longrightarrow> index_of (tarjan_step E t) u \<noteq> None"
proof -
  note D = tarjan_invD [OF inv]
  obtain v e C where calls: "t_calls t = (v, e) # C" using busy by (cases "t_calls t") auto
  note T = call_top [OF inv calls]
  have both: "search_cost E (tarjan_step E t) < search_cost E t
      \<and> (index_of t u \<noteq> None \<longrightarrow> index_of (tarjan_step E t) u \<noteq> None)"
  proof (cases "e < length (E ! v)")
    case False
    then have "tarjan_step E t = return_node v C t" by (simp add: tarjan_step_def calls)
    then show ?thesis
      using node_cost_index [of "return_node v C t" t E]
      by (simp add: search_cost_def return_fields calls call_cost_def)
  next
    case True
    let ?to = "E ! v ! e" and ?t = "t\<lparr>t_calls := (v, e + 1) # C\<rparr>"
    have step: "tarjan_step E t = follow_edge E v ?to ?t" using True by (simp add: tarjan_step_def calls)
    have to_lt: "?to < length E" using edge_lt [OF wf T(2) True] .
    have cost: "call_cost E (v, e) = call_cost E (v, e + 1) + 1" using True by (simp add: call_cost_def)
    show ?thesis
    proof (cases "t_index t ! ?to")
      case None
      then have none: "index_of t ?to = None" by (simp add: index_of_def)
      have s: "tarjan_step E t = open_node ?to ?t" using None by (simp add: step follow_edge_def)
      have "index_of (open_node ?to ?t) = (index_of t)(?to \<mapsto> t_next t)"
        using index_of_open [of ?t E ?to] D(1) to_lt by simp
      moreover have "(\<Sum>u < length E. node_cost E t u) = (\<Sum>u < length E. node_cost E (open_node ?to ?t) u) + (length (E ! ?to) + 2)"
        using node_cost_open [of ?t E ?to] D(1) to_lt none node_cost_index [of ?t t E] by simp
      moreover have "t_calls (open_node ?to ?t) = (?to, 0) # (v, e + 1) # C" by (simp add: open_node_def)
      moreover have "call_cost E (?to, 0) = length (E ! ?to) + 1" by (simp add: call_cost_def)
      ultimately show ?thesis using cost by (simp add: s search_cost_def calls)
    next
      case (Some i)
      then have s: "tarjan_step E t = (if t_on_stack t ! ?to then lower v i ?t else ?t)" by (simp add: step follow_edge_def)
      have "index_of (tarjan_step E t) = index_of t" "t_calls (tarjan_step E t) = (v, e + 1) # C"
        by (simp_all add: s lower_fields)
      then show ?thesis using cost node_cost_index [of "tarjan_step E t" t E] by (simp add: search_cost_def calls)
    qed
  qed
  show "search_cost E (tarjan_step E t) < search_cost E t" using both by blast
  show "index_of t u \<noteq> None \<Longrightarrow> index_of (tarjan_step E t) u \<noteq> None" using both by blast
qed

lemma loop_ends:
  assumes "tarjan_inv E t" "edges_wf E"
  shows "\<exists>t'. tarjan_loop E t = Some t' \<and> tarjan_inv E t' \<and> t_calls t' = []
    \<and> (\<forall>u. index_of t u \<noteq> None \<longrightarrow> index_of t' u \<noteq> None)"
  using assms(1)
proof (induction "search_cost E t" arbitrary: t rule: less_induct)
  case less
  show ?case
  proof (cases "t_calls t = []")
    case True
    with less.prems show ?thesis by (simp add: tarjan_loop.simps)
  next
    case False
    note F = step_falls [OF less.prems assms(2) False]
    from less.hyps [OF F(1) step_inv [OF less.prems assms(2)]] obtain t' where
      t': "tarjan_loop E (tarjan_step E t) = Some t'" "tarjan_inv E t'" "t_calls t' = []"
        "\<forall>u. index_of (tarjan_step E t) u \<noteq> None \<longrightarrow> index_of t' u \<noteq> None" by blast
    have "tarjan_loop E t = Some t'" using False t'(1) by (subst tarjan_loop.simps) simp
    with t' F(2) show ?thesis by blast
  qed
qed

lemma roots_end:
  assumes "tarjan_inv E t" "edges_wf E" "t_calls t = []" "\<forall>r \<in> set rs. r < length E"
  shows "\<exists>t'. tarjan_roots E rs t = Some t' \<and> tarjan_inv E t' \<and> t_calls t' = []
    \<and> (\<forall>u. index_of t u \<noteq> None \<or> u \<in> set rs \<longrightarrow> index_of t' u \<noteq> None)"
  using assms(1,3,4)
proof (induction rs arbitrary: t)
  case (Cons r rs)
  note D = tarjan_invD [OF Cons.prems(1)]
  have r: "r < length E" using Cons.prems(3) by simp
  have ixr: "index_of t r = t_index t ! r" using r D(1) by (simp add: index_of_def)
  show ?case
  proof (cases "t_index t ! r")
    case (Some i)
    from Cons.IH [OF Cons.prems(1,2)] Cons.prems(3) obtain t' where
      "tarjan_roots E rs t = Some t'" "tarjan_inv E t'" "t_calls t' = []"
      "\<forall>u. index_of t u \<noteq> None \<or> u \<in> set rs \<longrightarrow> index_of t' u \<noteq> None" by auto
    with Some ixr show ?thesis by auto
  next
    case None
    have "tarjan_inv E (open_node r t)" by (rule open_inv [OF Cons.prems(1) r None]) (simp add: Cons.prems(2))
    from loop_ends [OF this assms(2)] obtain t1 where t1: "tarjan_loop E (open_node r t) = Some t1" "tarjan_inv E t1"
      "t_calls t1 = []" "\<forall>u. index_of (open_node r t) u \<noteq> None \<longrightarrow> index_of t1 u \<noteq> None" by blast
    from Cons.IH [OF t1(2,3)] Cons.prems(3) obtain t' where t': "tarjan_roots E rs t1 = Some t'" "tarjan_inv E t'" "t_calls t' = []"
      "\<forall>u. index_of t1 u \<noteq> None \<or> u \<in> set rs \<longrightarrow> index_of t' u \<noteq> None" by auto
    have "index_of (open_node r t) = (index_of t)(r \<mapsto> t_next t)" by (rule index_of_open [OF D(1) r])
    then have "index_of t1 u \<noteq> None" if "index_of t u \<noteq> None \<or> u = r" for u using t1(4) that by auto
    with t' have "\<forall>u. index_of t u \<noteq> None \<or> u \<in> set (r # rs) \<longrightarrow> index_of t' u \<noteq> None" by auto
    with t'(1-3) t1(1) None show ?thesis by auto
  qed
qed simp

lemma new_inv: "tarjan_inv E (tarjan_new (length E))"
  by (simp add: tarjan_inv_def tarjan_new_def index_of_def numbered_def stacked_def explored_def lowered_def collected_def)

text \<open>The search returns the positions that share a component with another, in ascending order.\<close>

lemma on_cycles_correct:
  assumes "edges_wf E"
  shows "\<exists>ps. on_cycles E = Some ps \<and> sorted ps \<and> distinct ps
    \<and> set ps = {u. u < length E \<and> (\<exists>w. w \<noteq> u \<and> mutual E u w)}"
proof -
  from roots_end [OF new_inv assms, of "[0..<length E]"] obtain t where
    t: "tarjan_roots E [0..<length E] (tarjan_new (length E)) = Some t" "tarjan_inv E t" "t_calls t = []"
      "\<forall>u < length E. index_of t u \<noteq> None" by (auto simp: tarjan_new_def)
  note D = tarjan_invD [OF t(2)]
  have "t_stack t = []" using stackedD(6) [OF D(6)] by (cases "t_stack t") (auto simp: t(3))
  with D(9) have c: "distinct (t_on_cycle t)"
    "set (t_on_cycle t) = {u. index_of t u \<noteq> None \<and> (\<exists>w. w \<noteq> u \<and> mutual E u w)}"
    by (simp_all add: collected_def)
  moreover have "index_of t u \<noteq> None \<longleftrightarrow> u < length E" for u
    using t(4) D(1) by (auto simp: index_of_def)
  ultimately show ?thesis using t(1) by (simp add: on_cycles_def)
qed

end
