(* ===== verification/Text.thy ===== *)
theory Text
  imports Prelude
begin

text \<open>
  Unicode text.  A Rust \<open>String\<close> holds UTF-8 bytes and is a HOL \<open>string\<close> of the same bytes;
  \<open>chars\<close> reads its code points, \<open>encode_utf16\<close> its UTF-16 code units, and \<open>blank\<close> is
  \<open>trim().is_empty()\<close>: every code point has the Unicode property White\_Space.
  These are functions of Rust's standard library as the program uses them.
\<close>

type_synonym codepoint = nat

definition cont_bits :: "char \<Rightarrow> nat" where
  "cont_bits c = of_char c mod 64"

fun chars :: "string \<Rightarrow> codepoint list" where
  "chars [] = []"
| "chars (c # s) =
     (let b = (of_char c :: nat)
      in if b < 128 then b # chars s
         else if b < 224 then
           (case s of d # t \<Rightarrow> ((b mod 32) * 64 + cont_bits d) # chars t | _ \<Rightarrow> [])
         else if b < 240 then
           (case s of d # e # t \<Rightarrow> ((b mod 16) * 4096 + cont_bits d * 64 + cont_bits e) # chars t
            | _ \<Rightarrow> [])
         else
           (case s of d # e # f # t \<Rightarrow>
              ((b mod 8) * 262144 + cont_bits d * 4096 + cont_bits e * 64 + cont_bits f) # chars t
            | _ \<Rightarrow> []))"

definition encode_utf8 :: "codepoint \<Rightarrow> string" where
  "encode_utf8 n =
     (if n < 128 then [char_of n]
      else if n < 2048 then [char_of (192 + n div 64), char_of (128 + n mod 64)]
      else if n < 65536 then
        [char_of (224 + n div 4096), char_of (128 + n div 64 mod 64), char_of (128 + n mod 64)]
      else
        [char_of (240 + n div 262144), char_of (128 + n div 4096 mod 64),
         char_of (128 + n div 64 mod 64), char_of (128 + n mod 64)])"

definition scalar_value :: "codepoint \<Rightarrow> bool" where
  "scalar_value n \<longleftrightarrow> n < 55296 \<or> (57344 \<le> n \<and> n < 1114112)"

definition utf8 :: "codepoint list \<Rightarrow> string" where
  "utf8 ns = concat (map encode_utf8 ns)"

text \<open>What the type \<open>String\<close> guarantees of its bytes.\<close>

definition utf8_valid :: "string \<Rightarrow> bool" where
  "utf8_valid s \<longleftrightarrow> utf8 (chars s) = s \<and> list_all scalar_value (chars s)"

definition utf16_units :: "codepoint \<Rightarrow> nat list" where
  "utf16_units n =
     (if n < 65536 then [n]
      else [55296 + (n - 65536) div 1024, 56320 + (n - 65536) mod 1024])"

definition encode_utf16 :: "string \<Rightarrow> nat list" where
  "encode_utf16 s = concat (map utf16_units (chars s))"

definition white_space :: "codepoint \<Rightarrow> bool" where
  "white_space n \<longleftrightarrow>
     (9 \<le> n \<and> n \<le> 13) \<or> n = 32 \<or> n = 133 \<or> n = 160 \<or> n = 5760
     \<or> (8192 \<le> n \<and> n \<le> 8202) \<or> n = 8232 \<or> n = 8233 \<or> n = 8239 \<or> n = 8287 \<or> n = 12288"

definition blank :: "string \<Rightarrow> bool" where
  "blank s \<longleftrightarrow> list_all white_space (chars s)"

lemma blank_Nil [simp]: "blank []"
  by (simp add: blank_def)

lemma cont_bits_char [simp]: "cont_bits (char_of (128 + q mod 64)) = q mod 64"
proof -
  have "128 + q mod 64 < 256" by (simp add: less_trans [OF mod_less_divisor])
  moreover have "(128 + q mod 64) mod 64 = q mod 64"
    using mod_mult_self3 [of 2 64 "q mod 64"] by simp
  ultimately show ?thesis by (simp add: cont_bits_def)
qed

lemma chars_encode_utf8:
  assumes "scalar_value n"
  shows "chars (encode_utf8 n @ s) = n # chars s"
proof -
  have n: "n < 1114112" using assms by (auto simp: scalar_value_def)
  consider "n < 128" | "128 \<le> n" "n < 2048" | "2048 \<le> n" "n < 65536" | "65536 \<le> n" by linarith
  then show ?thesis
  proof cases
    case 1
    then show ?thesis by (simp add: encode_utf8_def)
  next
    case 2
    have lead: "(192 + q) mod 32 = q" if "q < 32" for q :: nat
      using that mod_mult_self3 [of 6 32 q] by simp
    from 2 have "n div 64 < 32" by auto
    moreover from lead [OF this] have "(192 + n div 64) mod 32 = n div 64" .
    ultimately show ?thesis using 2
      by (simp add: encode_utf8_def Let_def)
  next
    case 3
    then have *: "n div 4096 < 16" by auto
    have lead: "(224 + q) mod 16 = q" if "q < 16" for q :: nat
      using that mod_mult_self3 [of 14 16 q] by simp
    have "n div 4096 = n div 64 div 64" by (simp add: div_mult2_eq [symmetric])
    then have "(n div 4096) * 4096 + (n div 64 mod 64) * 64 + n mod 64 = n"
      using div_mult_mod_eq [of n 64] div_mult_mod_eq [of "n div 64" 64] by linarith
    then show ?thesis using 3 * lead [OF *]
      by (simp add: encode_utf8_def Let_def)
  next
    case 4
    then have *: "n div 262144 < 8" using n by auto
    have lead: "(240 + q) mod 8 = q" if "q < 8" for q :: nat
      using that mod_mult_self3 [of 30 8 q] by simp
    have "n div 262144 = n div 4096 div 64" "n div 4096 = n div 64 div 64"
      by (simp_all add: div_mult2_eq [symmetric])
    then have "(n div 262144) * 262144 + (n div 4096 mod 64) * 4096 + (n div 64 mod 64) * 64 + n mod 64 = n"
      using div_mult_mod_eq [of n 64] div_mult_mod_eq [of "n div 64" 64]
        div_mult_mod_eq [of "n div 4096" 64] by linarith
    then show ?thesis using 4 * lead [OF *]
      by (simp add: encode_utf8_def Let_def)
  qed
qed

text \<open>Decoding an encoding gives the code points back, so the encoder's output is valid.\<close>

lemma chars_utf8: "list_all scalar_value ns \<Longrightarrow> chars (utf8 ns) = ns"
proof (induction ns)
  case Nil
  then show ?case by (simp add: utf8_def)
next
  case (Cons n ns)
  have "utf8 (n # ns) = encode_utf8 n @ utf8 ns" by (simp add: utf8_def)
  with Cons show ?case by (simp add: chars_encode_utf8)
qed

lemma utf8_valid_utf8: "list_all scalar_value ns \<Longrightarrow> utf8_valid (utf8 ns)"
  by (simp add: utf8_valid_def chars_utf8)

end
