(* ===== verification/Json.thy ===== *)
theory Json
  imports Text
begin

text \<open>
  The JSON values the ledger records: serde\_json's \<open>Value\<close> as its documentation describes it.
  With \<open>arbitrary_precision\<close> a number keeps its source text and is read as an integer by the
  standard library's parsers; without \<open>preserve_order\<close> an object is a map ordered by its keys'
  bytes.  \<open>members\<close> and \<open>jobj\<close> build an object the way the \<open>json!\<close> macro and
  \<open>Map::insert\<close> do, one insertion after another.
\<close>

datatype json =
    JNull
  | JBool bool
  | JNumber string
  | JString string
  | JArray "json list"
  | JObject "(string \<times> json) list"

fun as_str :: "json \<Rightarrow> string option" where
  "as_str (JString s) = Some s"
| "as_str _ = None"

fun as_bool :: "json \<Rightarrow> bool option" where
  "as_bool (JBool b) = Some b"
| "as_bool _ = None"

fun as_array :: "json \<Rightarrow> json list option" where
  "as_array (JArray xs) = Some xs"
| "as_array _ = None"

fun as_object :: "json \<Rightarrow> (string \<times> json) list option" where
  "as_object (JObject m) = Some m"
| "as_object _ = None"

fun as_u64 :: "json \<Rightarrow> u64 option" where
  "as_u64 (JNumber t) = parse_u64 t"
| "as_u64 _ = None"

fun as_i64 :: "json \<Rightarrow> int option" where
  "as_i64 (JNumber t) = parse_i64 t"
| "as_i64 _ = None"

fun jget :: "string \<Rightarrow> json \<Rightarrow> json option" where
  "jget k (JObject m) = map_of m k"
| "jget k _ = None"

definition jnum :: "u64 \<Rightarrow> json" where
  "jnum n = JNumber (dec_u64 n)"

definition jnum32 :: "u32 \<Rightarrow> json" where
  "jnum32 n = JNumber (dec (unat n))"

definition as_u32 :: "json \<Rightarrow> u32 option" where
  "as_u32 v =
     (case as_u64 v of None \<Rightarrow> None
      | Some n \<Rightarrow> if unat n < 2 ^ 32 then Some (of_nat (unat n)) else None)"

definition members :: "(string \<times> json) list \<Rightarrow> (string \<times> json) list" where
  "members kvs = foldl (\<lambda>m (k, v). ains k v m) [] kvs"

definition jobj :: "(string \<times> json) list \<Rightarrow> json" where
  "jobj kvs = JObject (members kvs)"

text \<open>Writing one member of an object, as \<open>value["k"] = v\<close> does.\<close>

fun jset :: "string \<Rightarrow> json \<Rightarrow> json \<Rightarrow> json" where
  "jset k v (JObject m) = JObject (ains k v m)"
| "jset k v other = other"

definition jopt :: "('a \<Rightarrow> json) \<Rightarrow> 'a option \<Rightarrow> json" where
  "jopt f x = (case x of None \<Rightarrow> JNull | Some y \<Rightarrow> f y)"

definition jstrs :: "string list \<Rightarrow> json" where
  "jstrs ss = JArray (map JString ss)"

fun json_wf :: "json \<Rightarrow> bool" where
  "json_wf (JArray xs) = (\<forall>x \<in> set xs. json_wf x)"
| "json_wf (JObject m) = (akeys_sorted m \<and> (\<forall>p \<in> set m. json_wf (snd p)))"
| "json_wf _ = True"

lemma as_u64_jnum [simp]: "as_u64 (jnum n) = Some n"
  by (simp add: jnum_def)

lemma jnum_inject [simp]: "jnum m = jnum n \<longleftrightarrow> m = n"
  by (simp add: jnum_def)

lemma as_str_jnum [simp]: "as_str (jnum n) = None"
  by (simp add: jnum_def)

lemma as_u32_jnum32 [simp]: "as_u32 (jnum32 n) = Some n"
proof -
  have n: "unat n < 2 ^ 32" using unsigned_less [of n, where ?'a = nat] by simp
  then have "unat n < 2 ^ 64" by simp
  then have "parse_u64 (dec (unat n)) = Some (of_nat (unat n))" by (rule parse_u64_dec)
  moreover have "unat (of_nat (unat n) :: u64) = unat n"
    using \<open>unat n < 2 ^ 64\<close> by (simp only: unat_of_nat) simp
  ultimately show ?thesis using n by (simp add: as_u32_def jnum32_def)
qed

lemma map_of_rev_distinct: "distinct (map fst kvs) \<Longrightarrow> map_of (rev kvs) = map_of kvs"
  by (rule map_of_eqI) (auto simp: rev_map [symmetric] map_of_eq_Some_iff)

lemma foldl_ains_map_of:
  "map_of (foldl (\<lambda>m (k, v). ains k v m) m kvs) k =
     (case map_of (rev kvs) k of None \<Rightarrow> map_of m k | Some v \<Rightarrow> Some v)"
proof (induction kvs arbitrary: m)
  case (Cons p kvs)
  then show ?case by (cases p) (auto simp: map_add_def split: option.splits)
qed simp

lemma foldl_ains_sorted:
  "akeys_sorted m \<Longrightarrow> akeys_sorted (foldl (\<lambda>m (k, v). ains k v m) m kvs)"
  by (induction kvs arbitrary: m) (auto simp: akeys_sorted_ains)

lemma foldl_ains_length:
  "distinct (map fst kvs) \<Longrightarrow> \<forall>k \<in> fst ` set kvs. map_of m k = None \<Longrightarrow>
     length (foldl (\<lambda>m (k, v). ains k v m) m kvs) = length m + length kvs"
proof (induction kvs arbitrary: m)
  case (Cons p kvs)
  obtain k v where p: "p = (k, v)" by fastforce
  with Cons.prems have "\<forall>k' \<in> fst ` set kvs. map_of (ains k v m) k' = None" by auto
  with Cons.IH [of "ains k v m"] Cons.prems show ?case by (simp add: p map_of_ains_len)
qed simp

lemma members_sorted [simp]: "akeys_sorted (members kvs)"
  by (simp add: members_def foldl_ains_sorted)

lemma members_map_of: "distinct (map fst kvs) \<Longrightarrow> map_of (members kvs) k = map_of kvs k"
  by (simp add: members_def foldl_ains_map_of map_of_rev_distinct split: option.split)

lemma members_length: "distinct (map fst kvs) \<Longrightarrow> length (members kvs) = length kvs"
  by (simp add: members_def foldl_ains_length)

lemma as_object_jobj [simp]: "as_object (jobj kvs) = Some (members kvs)"
  by (simp add: jobj_def)

lemma jget_jobj [simp]: "distinct (map fst kvs) \<Longrightarrow> jget k (jobj kvs) = map_of kvs k"
  by (simp add: jobj_def members_map_of)

lemma jget_jset [simp]: "jget k (jset k' v (JObject m)) = (if k = k' then Some v else map_of m k)"
  by simp

lemma jobj_not_other [simp]: "jobj kvs \<noteq> JNull" "as_str (jobj kvs) = None" "as_array (jobj kvs) = None"
  by (simp_all add: jobj_def)

lemma those_as_str_jstrs [simp]: "those (map as_str (map JString ss)) = Some ss"
  by (induction ss) auto

lemma set_members:
  assumes "distinct (map fst kvs)"
  shows "set (members kvs) = set kvs"
proof (rule set_eqI)
  fix p :: "string \<times> json"
  obtain k v where p: "p = (k, v)" by fastforce
  have "distinct (map fst (members kvs))" by (simp add: akeys_sorted_distinct)
  from map_of_eq_Some_iff [OF this, of k v] map_of_eq_Some_iff [OF assms, of k v]
  show "p \<in> set (members kvs) \<longleftrightarrow> p \<in> set kvs" by (simp add: p members_map_of [OF assms])
qed

lemma json_wf_jobj: "distinct (map fst kvs) \<Longrightarrow> json_wf (jobj kvs) \<longleftrightarrow> (\<forall>p \<in> set kvs. json_wf (snd p))"
  by (simp add: jobj_def set_members)

end
