(* ===== verification/Question_Set.thy ===== *)
theory Question_Set
  imports Cycles Json
begin

text \<open>
  The judgement of one question set (\<open>baley-core/src/questions/set.rs\<close>).  \<open>judge_set\<close> reads a list
  of questions in its grammar, checks each in order and refuses dependency cycles.  Its result is
  an option, \<open>None\<close> standing for a panic or an endless loop: that it is never \<open>None\<close> is proved.
  An accepted set is characterised exactly: distinct ids that are not blank, dependencies inside
  the set, and an acyclic dependency relation.
\<close>

definition inline_text_limit :: nat where "inline_text_limit = 4096"

datatype set_refusal =
    SetTypedContent "nat option"
  | QuestionId nat string
  | QuestionBlank nat string
  | QuestionDependency nat string
  | QuestionCycle "(nat \<times> string) list"

fun set_refusal_code :: "set_refusal \<Rightarrow> string" where
  "set_refusal_code (SetTypedContent _) = ''typed-content''"
| "set_refusal_code (QuestionId _ _) = ''question-id''"
| "set_refusal_code (QuestionBlank _ _) = ''question-blank''"
| "set_refusal_code (QuestionDependency _ _) = ''question-dependency''"
| "set_refusal_code (QuestionCycle _) = ''question-cycle''"

record question =
  q_id :: string
  q_question :: string
  q_recommended :: string
  q_depends_on :: "string list"

definition question_members :: "string list" where
  "question_members = [''id'', ''question'', ''recommended'', ''depends_on'']"

definition bounded_text :: "(string \<times> json) list \<Rightarrow> string \<Rightarrow> string option" where
  "bounded_text m name =
     (case map_of m name of
        Some (JString t) \<Rightarrow> if length t \<le> inline_text_limit then Some t else None
      | _ \<Rightarrow> None)"

fun distinct_texts :: "string list \<Rightarrow> json list \<Rightarrow> string list option" where
  "distinct_texts seen [] = Some []"
| "distinct_texts seen (x # xs) =
     (case as_str x of
        None \<Rightarrow> None
      | Some s \<Rightarrow> if s \<in> set seen then None else map_option ((#) s) (distinct_texts (s # seen) xs))"

definition grammar :: "json \<Rightarrow> question option" where
  "grammar entry = do {
     m \<leftarrow> as_object entry;
     if \<exists>name \<in> fst ` set m. name \<notin> set question_members then None else do {
       i \<leftarrow> bounded_text m ''id'';
       q \<leftarrow> bounded_text m ''question'';
       r \<leftarrow> bounded_text m ''recommended'';
       entries \<leftarrow> Option.bind (map_of m ''depends_on'') as_array;
       ds \<leftarrow> distinct_texts [] entries;
       Some \<lparr>q_id = i, q_question = q, q_recommended = r, q_depends_on = ds\<rparr> } }"

fun grammar_all :: "nat \<Rightarrow> json list \<Rightarrow> set_refusal + question list" where
  "grammar_all position [] = Inr []"
| "grammar_all position (entry # entries) =
     rbind (ok_or (SetTypedContent (Some position)) (grammar entry)) (\<lambda>q.
     rbind (grammar_all (position + 1) entries) (\<lambda>qs. Inr (q # qs)))"

fun judge_questions :: "string set \<Rightarrow> string list \<Rightarrow> nat \<Rightarrow> question list \<Rightarrow> set_refusal option" where
  "judge_questions ids seen position [] = None"
| "judge_questions ids seen position (q # qs) =
     (if blank (q_id q) \<or> q_id q \<in> set seen then Some (QuestionId position (q_id q))
      else if blank (q_question q) \<or> blank (q_recommended q) then Some (QuestionBlank position (q_id q))
      else if \<exists>d \<in> set (q_depends_on q). d = q_id q \<or> d \<notin> ids then Some (QuestionDependency position (q_id q))
      else judge_questions ids (q_id q # seen) (position + 1) qs)"

text \<open>The positions by id; a later question with the same id would win.\<close>

definition by_id :: "question list \<Rightarrow> string \<Rightarrow> nat option" where
  "by_id qs = map_of (rev (zip (map q_id qs) [0..<length qs]))"

definition question_edges :: "question list \<Rightarrow> edges option" where
  "question_edges qs = those (map (\<lambda>q. those (map (by_id qs) (q_depends_on q))) qs)"

definition judge_set :: "json \<Rightarrow> (set_refusal + question list) option" where
  "judge_set value =
     (case as_array value of
        None \<Rightarrow> Some (Inl (SetTypedContent None))
      | Some entries \<Rightarrow>
          (case grammar_all 0 entries of
             Inl refusal \<Rightarrow> Some (Inl refusal)
           | Inr qs \<Rightarrow>
               (case judge_questions (set (map q_id qs)) [] 0 qs of
                  Some refusal \<Rightarrow> Some (Inl refusal)
                | None \<Rightarrow> do {
                    edges \<leftarrow> question_edges qs;
                    on_cycle \<leftarrow> on_cycles edges;
                    Some (if on_cycle \<noteq> []
                          then Inl (QuestionCycle (map (\<lambda>p. (p, q_id (qs ! p))) on_cycle))
                          else Inr qs) })))"

section \<open>The checks in order\<close>

lemma grammar_all_iff: "grammar_all n entries = Inr qs \<longleftrightarrow> map grammar entries = map Some qs"
  by (induction entries arbitrary: n qs) (auto simp: result_simps)

definition question_fine :: "string set \<Rightarrow> question \<Rightarrow> bool" where
  "question_fine ids q \<longleftrightarrow> \<not> blank (q_id q) \<and> \<not> blank (q_question q) \<and> \<not> blank (q_recommended q)
     \<and> (\<forall>d \<in> set (q_depends_on q). d \<noteq> q_id q \<and> d \<in> ids)"

lemma judge_questions_None:
  "judge_questions ids seen n qs = None \<longleftrightarrow>
     (\<forall>q \<in> set qs. question_fine ids q) \<and> distinct (map q_id qs) \<and> set (map q_id qs) \<inter> set seen = {}"
  by (induction ids seen n qs rule: judge_questions.induct) (auto simp: question_fine_def)

definition depends :: "question list \<Rightarrow> (string \<times> string) set" where
  "depends qs = {(q_id q, d) | q d. q \<in> set qs \<and> d \<in> set (q_depends_on q)}"

definition well_posed :: "question list \<Rightarrow> bool" where
  "well_posed qs \<longleftrightarrow> (\<forall>q \<in> set qs. question_fine (set (map q_id qs)) q) \<and> distinct (map q_id qs) \<and> acyclic (depends qs)"

section \<open>Positions and ids\<close>

lemma map_of_rev_distinct_any: "distinct (map fst kvs) \<Longrightarrow> map_of (rev kvs) = map_of kvs"
  by (rule map_of_eqI) (auto simp: rev_map [symmetric] map_of_eq_Some_iff)

lemma by_id_iff:
  assumes "distinct (map q_id qs)"
  shows "by_id qs d = Some p \<longleftrightarrow> p < length qs \<and> q_id (qs ! p) = d"
proof -
  have "map fst (zip (map q_id qs) [0..<length qs]) = map q_id qs" by simp
  then have dist: "distinct (map fst (zip (map q_id qs) [0..<length qs]))" using assms by simp
  then have "by_id qs d = map_of (zip (map q_id qs) [0..<length qs]) d"
    by (simp add: by_id_def map_of_rev_distinct_any)
  also have "\<dots> = Some p \<longleftrightarrow> (d, p) \<in> set (zip (map q_id qs) [0..<length qs])"
    using dist by simp
  also have "\<dots> \<longleftrightarrow> p < length qs \<and> q_id (qs ! p) = d" by (force simp: set_zip)
  finally show ?thesis .
qed

lemma question_edges_ok:
  assumes dist: "distinct (map q_id qs)" and fine: "\<And>q. q \<in> set qs \<Longrightarrow> question_fine (set (map q_id qs)) q"
  obtains E where "question_edges qs = Some E" "length E = length qs"
    "\<And>u w. u < length qs \<Longrightarrow> w \<in> set (E ! u) \<longleftrightarrow> w < length qs \<and> q_id (qs ! w) \<in> set (q_depends_on (qs ! u))"
proof -
  let ?pos = "\<lambda>d. the (by_id qs d)"
  have pos: "by_id qs d = Some (?pos d)" if d: "d \<in> set (map q_id qs)" for d
  proof -
    obtain p where "p < length qs" "q_id (qs ! p) = d" using d by (auto simp: in_set_conv_nth)
    then have "by_id qs d = Some p" by (simp add: by_id_iff [OF dist])
    then show ?thesis by simp
  qed
  let ?E = "map (\<lambda>q. map ?pos (q_depends_on q)) qs"
  have row: "those (map (by_id qs) (q_depends_on q)) = Some (map ?pos (q_depends_on q))" if "q \<in> set qs" for q
  proof (rule those_map_some)
    fix d assume "d \<in> set (q_depends_on q)"
    then have "d \<in> set (map q_id qs)" using fine [OF that] by (simp add: question_fine_def)
    then show "by_id qs d = Some (?pos d)" by (rule pos)
  qed
  have "question_edges qs = Some ?E"
    unfolding question_edges_def by (rule those_map_some [OF row])
  moreover have "length ?E = length qs" by simp
  moreover have "w \<in> set (?E ! u) \<longleftrightarrow> w < length qs \<and> q_id (qs ! w) \<in> set (q_depends_on (qs ! u))" if u: "u < length qs" for u w
  proof -
    have "w \<in> set (?E ! u) \<longleftrightarrow> (\<exists>d \<in> set (q_depends_on (qs ! u)). w = ?pos d)" using u by auto
    also have "\<dots> \<longleftrightarrow> (\<exists>d \<in> set (q_depends_on (qs ! u)). by_id qs d = Some w)"
    proof (rule bex_cong [OF refl])
      fix d assume "d \<in> set (q_depends_on (qs ! u))"
      then have "d \<in> set (map q_id qs)" using fine [of "qs ! u"] u by (simp add: question_fine_def)
      from pos [OF this] show "w = ?pos d \<longleftrightarrow> by_id qs d = Some w" by (metis option.inject)
    qed
    also have "\<dots> \<longleftrightarrow> w < length qs \<and> q_id (qs ! w) \<in> set (q_depends_on (qs ! u))"
      by (auto simp: by_id_iff [OF dist])
    finally show ?thesis .
  qed
  ultimately show ?thesis by (rule that)
qed

lemma depends_trancl:
  assumes dist: "distinct (map q_id qs)" and fine: "\<And>q. q \<in> set qs \<Longrightarrow> question_fine (set (map q_id qs)) q"
    and len: "length E = length qs"
    and E: "\<And>u w. u < length qs \<Longrightarrow> w \<in> set (E ! u) \<longleftrightarrow> w < length qs \<and> q_id (qs ! w) \<in> set (q_depends_on (qs ! u))"
  shows "(a, b) \<in> (depends qs)\<^sup>+ \<longleftrightarrow> (\<exists>i j. i < length qs \<and> j < length qs \<and> a = q_id (qs ! i) \<and> b = q_id (qs ! j)
     \<and> (i, j) \<in> {(u, v). u < length E \<and> v \<in> set (E ! u)}\<^sup>+)" (is "_ \<longleftrightarrow> (\<exists>i j. ?P a b i j)")
proof
  let ?R = "{(u, v). u < length E \<and> v \<in> set (E ! u)}"
  have edge: "\<exists>i j. i < length qs \<and> j < length qs \<and> a = q_id (qs ! i) \<and> b = q_id (qs ! j) \<and> (i, j) \<in> ?R"
    if ab: "(a, b) \<in> depends qs" for a b
  proof -
    from ab obtain i where i: "i < length qs" "a = q_id (qs ! i)" "b \<in> set (q_depends_on (qs ! i))"
      by (auto simp: depends_def in_set_conv_nth)
    then have "b \<in> set (map q_id qs)" using fine [of "qs ! i"] by (simp add: question_fine_def)
    then obtain j where "j < length qs" "b = q_id (qs ! j)" by (auto simp: in_set_conv_nth)
    with i E [of i j] len show ?thesis by auto
  qed
  { assume "(a, b) \<in> (depends qs)\<^sup>+"
    then show "\<exists>i j. ?P a b i j"
    proof (induction rule: trancl_induct)
      case (base y)
      from edge [OF base] show ?case by blast
    next
      case (step y z)
      from edge [OF step(2)] obtain k l where kl: "k < length qs" "l < length qs" "y = q_id (qs ! k)" "z = q_id (qs ! l)" "(k, l) \<in> ?R"
        by blast
      from step(3) obtain i j where ij: "?P a y i j" by blast
      have "j = k" using ij kl dist by (auto simp: distinct_conv_nth)
      with ij kl(5) have "(i, l) \<in> ?R\<^sup>+" by (meson trancl.trancl_into_trancl)
      with ij kl show ?case by blast
    qed }
  have dep: "(q_id (qs ! i), q_id (qs ! j)) \<in> depends qs" if "(i, j) \<in> ?R" for i j
  proof -
    have i: "i < length qs" using that len by simp
    with that E [OF i, of j] have "q_id (qs ! j) \<in> set (q_depends_on (qs ! i))" by simp
    then show ?thesis unfolding depends_def using nth_mem [OF i] by (intro CollectI exI conjI) simp_all
  qed
  have "(q_id (qs ! i), q_id (qs ! j)) \<in> (depends qs)\<^sup>+" if "(i, j) \<in> ?R\<^sup>+" for i j
    using that
  proof (induction rule: trancl_induct)
    case (base y)
    from dep [OF base] show ?case by (rule r_into_trancl)
  next
    case (step y z)
    from step(3) dep [OF step(2)] show ?case by (rule trancl.trancl_into_trancl)
  qed
  then show "\<exists>i j. ?P a b i j \<Longrightarrow> (a, b) \<in> (depends qs)\<^sup>+" by blast
qed

lemma irrefl_cycle:
  assumes "\<And>x. (x, x) \<notin> r"
  shows "(u, u) \<in> r\<^sup>+ \<longleftrightarrow> (\<exists>w. w \<noteq> u \<and> (u, w) \<in> r\<^sup>* \<and> (w, u) \<in> r\<^sup>*)"
proof
  assume "(u, u) \<in> r\<^sup>+"
  then obtain w where "(u, w) \<in> r" "(w, u) \<in> r\<^sup>*" by (blast dest: tranclD)
  moreover from this have "w \<noteq> u" using assms by blast
  ultimately show "\<exists>w. w \<noteq> u \<and> (u, w) \<in> r\<^sup>* \<and> (w, u) \<in> r\<^sup>*" by blast
next
  assume "\<exists>w. w \<noteq> u \<and> (u, w) \<in> r\<^sup>* \<and> (w, u) \<in> r\<^sup>*"
  then show "(u, u) \<in> r\<^sup>+" by (metis rtranclD trancl_rtrancl_trancl)
qed

text \<open>A question is on a cycle when its dependencies lead back to it.\<close>

definition on_a_cycle :: "question list \<Rightarrow> nat \<Rightarrow> bool" where
  "on_a_cycle qs p \<longleftrightarrow> p < length qs \<and> (q_id (qs ! p), q_id (qs ! p)) \<in> (depends qs)\<^sup>+"

lemma search_finds_cycles:
  assumes dist: "distinct (map q_id qs)" and fine: "\<And>q. q \<in> set qs \<Longrightarrow> question_fine (set (map q_id qs)) q"
  shows "\<exists>E ps. question_edges qs = Some E \<and> on_cycles E = Some ps \<and> sorted ps \<and> distinct ps
    \<and> set ps = {p. on_a_cycle qs p}"
proof -
  obtain E where E: "question_edges qs = Some E" "length E = length qs"
    "\<And>u w. u < length qs \<Longrightarrow> w \<in> set (E ! u) \<longleftrightarrow> w < length qs \<and> q_id (qs ! w) \<in> set (q_depends_on (qs ! u))"
    using question_edges_ok [OF dist fine] by blast
  let ?R = "{(u, v). u < length E \<and> v \<in> set (E ! u)}"
  have wf: "edges_wf E"
    unfolding edges_wf_def using E(2,3) by (auto simp: in_set_conv_nth [of _ E])
  have irrefl: "(u, u) \<notin> ?R" for u
    using E(2,3) fine [of "qs ! u"] by (auto simp: question_fine_def)
  have cyc: "on_a_cycle qs u \<longleftrightarrow> (u < length E \<and> (\<exists>w. w \<noteq> u \<and> mutual E u w))" for u
  proof -
    have iff: "(q_id (qs ! u), q_id (qs ! u)) \<in> (depends qs)\<^sup>+ \<longleftrightarrow> (\<exists>i j. i < length qs \<and> j < length qs
        \<and> q_id (qs ! u) = q_id (qs ! i) \<and> q_id (qs ! u) = q_id (qs ! j) \<and> (i, j) \<in> ?R\<^sup>+)"
      using dist fine E(2,3) by (rule depends_trancl)
    have same: "u = i" if "u < length qs" "i < length qs" "q_id (qs ! u) = q_id (qs ! i)" for i
      using nth_eq_iff_index_eq [OF dist, of u i] that by simp
    have "on_a_cycle qs u \<longleftrightarrow> u < length qs \<and> (u, u) \<in> ?R\<^sup>+"
    proof
      assume a: "on_a_cycle qs u"
      then have u: "u < length qs" by (simp add: on_a_cycle_def)
      from a have "(q_id (qs ! u), q_id (qs ! u)) \<in> (depends qs)\<^sup>+" by (simp add: on_a_cycle_def)
      then have "\<exists>i j. i < length qs \<and> j < length qs
        \<and> q_id (qs ! u) = q_id (qs ! i) \<and> q_id (qs ! u) = q_id (qs ! j) \<and> (i, j) \<in> ?R\<^sup>+" by (rule iff [THEN iffD1])
      then obtain i j where ij: "i < length qs" "j < length qs" "q_id (qs ! u) = q_id (qs ! i)"
        "q_id (qs ! u) = q_id (qs ! j)" "(i, j) \<in> ?R\<^sup>+" by (elim conjE exE)
      from same [OF u ij(1,3)] same [OF u ij(2,4)] ij(5) u show "u < length qs \<and> (u, u) \<in> ?R\<^sup>+" by simp
    next
      assume a: "u < length qs \<and> (u, u) \<in> ?R\<^sup>+"
      then show "on_a_cycle qs u" unfolding on_a_cycle_def iff by (intro conjI exI [of _ u]) simp_all
    qed
    also have "\<dots> \<longleftrightarrow> u < length qs \<and> (\<exists>w. w \<noteq> u \<and> mutual E u w)"
      unfolding mutual_def using irrefl_cycle [OF irrefl] by (rule conj_cong [OF refl])
    finally show ?thesis using E(2) by simp
  qed
  from on_cycles_correct [OF wf] obtain ps where "on_cycles E = Some ps" "sorted ps" "distinct ps"
    "set ps = {u. u < length E \<and> (\<exists>w. w \<noteq> u \<and> mutual E u w)}" by blast
  with E(1) cyc show ?thesis by auto
qed

lemma no_cycle_acyclic:
  assumes "\<And>q. q \<in> set qs \<Longrightarrow> question_fine (set (map q_id qs)) q"
  shows "{p. on_a_cycle qs p} = {} \<longleftrightarrow> acyclic (depends qs)"
proof
  assume none: "{p. on_a_cycle qs p} = {}"
  show "acyclic (depends qs)"
  proof (rule acyclicI, intro allI notI)
    fix a assume a: "(a, a) \<in> (depends qs)\<^sup>+"
    then obtain b where "(a, b) \<in> depends qs" by (meson tranclD)
    then obtain p where "p < length qs" "a = q_id (qs ! p)" by (auto simp: depends_def in_set_conv_nth)
    with a none show False by (auto simp: on_a_cycle_def)
  qed
qed (auto simp: on_a_cycle_def acyclic_def)

section \<open>What the judge accepts\<close>

lemma judge_set_list:
  assumes "as_array v = Some entries" "map grammar entries = map Some qs"
    and "judge_questions (set (map q_id qs)) [] 0 qs = None"
  shows "\<exists>ps. sorted ps \<and> distinct ps \<and> set ps = {p. on_a_cycle qs p}
    \<and> judge_set v = Some (if ps \<noteq> [] then Inl (QuestionCycle (map (\<lambda>p. (p, q_id (qs ! p))) ps)) else Inr qs)"
proof -
  have fine: "\<And>q. q \<in> set qs \<Longrightarrow> question_fine (set (map q_id qs)) q" and dist: "distinct (map q_id qs)"
    using assms(3) by (simp_all add: judge_questions_None)
  from search_finds_cycles [OF dist fine] obtain E ps where E: "question_edges qs = Some E" "on_cycles E = Some ps"
    "sorted ps" "distinct ps" "set ps = {p. on_a_cycle qs p}" by blast
  have "grammar_all 0 entries = Inr qs" using assms(2) by (simp add: grammar_all_iff)
  with E(1,2) assms(1,3) have "judge_set v =
      Some (if ps \<noteq> [] then Inl (QuestionCycle (map (\<lambda>p. (p, q_id (qs ! p))) ps)) else Inr qs)"
    by (simp add: judge_set_def)
  with E(3-5) show ?thesis by blast
qed

text \<open>C30: the judge always answers.  On every JSON value it returns a refusal or a set: no lookup of
  a dependency panics and the cycle search ends.\<close>

theorem judge_set_total: "\<exists>r. judge_set v = Some r"
proof (cases "as_array v")
  case None
  then show ?thesis by (simp add: judge_set_def)
next
  case (Some entries)
  show ?thesis
  proof (cases "grammar_all 0 entries")
    case (Inl e)
    with Some show ?thesis by (simp add: judge_set_def)
  next
    case (Inr qs)
    show ?thesis
    proof (cases "judge_questions (set (map q_id qs)) [] 0 qs")
      case None
      from Inr have "map grammar entries = map Some qs" by (simp add: grammar_all_iff)
      from judge_set_list [OF Some this None] show ?thesis by blast
    next
      case (Some r)
      with Inr \<open>as_array v = Some entries\<close> show ?thesis by (simp add: judge_set_def)
    qed
  qed
qed

lemma judge_set_ok:
  "judge_set v = Some (Inr qs) \<longleftrightarrow> (\<exists>entries. v = JArray entries \<and> map grammar entries = map Some qs) \<and> well_posed qs"
  (is "?L \<longleftrightarrow> ?R")
proof -
  have inj: "map Some qs = map Some qs' \<longleftrightarrow> qs = qs'" for qs qs' :: "question list"
    by (simp add: inj_map_eq_map)
  have arr: "as_array v = Some entries \<longleftrightarrow> v = JArray entries" for entries by (cases v) auto
  show ?thesis
  proof
    assume L: ?L
    then obtain entries where e: "as_array v = Some entries" by (auto simp: judge_set_def split: option.splits)
    with L obtain qs' where qs': "grammar_all 0 entries = Inr qs'" by (auto simp: judge_set_def split: sum.splits)
    with L e have none: "judge_questions (set (map q_id qs')) [] 0 qs' = None"
      by (auto simp: judge_set_def split: option.splits)
    from qs' have m: "map grammar entries = map Some qs'" by (simp add: grammar_all_iff)
    from judge_set_list [OF e m none] obtain ps where ps0: "set ps = {p. on_a_cycle qs' p}"
      "judge_set v = Some (if ps \<noteq> [] then Inl (QuestionCycle (map (\<lambda>p. (p, q_id (qs' ! p))) ps)) else Inr qs')" by blast
    with L have ps: "set ps = {p. on_a_cycle qs' p}" "ps = []" "qs' = qs" by (simp_all split: if_splits)
    from none have fine: "\<And>q. q \<in> set qs' \<Longrightarrow> question_fine (set (map q_id qs')) q" and dist: "distinct (map q_id qs')"
      by (simp_all add: judge_questions_None)
    have "acyclic (depends qs')" using no_cycle_acyclic [OF fine] ps(1,2) by simp
    with fine dist have "well_posed qs'" unfolding well_posed_def by blast
    with m e ps(3) show ?R by (simp add: arr)
  next
    assume R: ?R
    then obtain entries where e: "as_array v = Some entries" "map grammar entries = map Some qs" by (auto simp: arr)
    have fine: "\<And>q. q \<in> set qs \<Longrightarrow> question_fine (set (map q_id qs)) q" and dist: "distinct (map q_id qs)"
      and ac: "acyclic (depends qs)" using R by (simp_all add: well_posed_def)
    have none: "judge_questions (set (map q_id qs)) [] 0 qs = None"
      using fine dist by (simp add: judge_questions_None)
    from judge_set_list [OF e none] obtain ps where "set ps = {p. on_a_cycle qs p}"
      "judge_set v = Some (if ps \<noteq> [] then Inl (QuestionCycle (map (\<lambda>p. (p, q_id (qs ! p))) ps)) else Inr qs)" by blast
    moreover have "{p. on_a_cycle qs p} = {}" using no_cycle_acyclic [OF fine] ac by simp
    ultimately show ?L by simp
  qed
qed

text \<open>C29: what the judge accepts.  A value is accepted as a set exactly when it is a list whose
  entries are all questions in the grammar, their ids are distinct, no id, question or
  recommended answer is blank, every dependency is another question of the set, and no question
  depends on itself through others.\<close>

theorem judge_set_accepts:
  "judge_set v = Some (Inr qs) \<longleftrightarrow> (\<exists>entries. v = JArray entries \<and> map grammar entries = map Some qs) \<and> well_posed qs"
  by (rule judge_set_ok)

text \<open>What a cycle refusal names.  It lists exactly the questions whose dependencies lead back to
  them, each with its position, in submitted order and without repetition.\<close>

theorem judge_set_cycle:
  assumes "judge_set v = Some (Inl (QuestionCycle cs))"
  shows "\<exists>entries qs. v = JArray entries \<and> map grammar entries = map Some qs \<and> cs \<noteq> []
    \<and> cs = map (\<lambda>p. (p, q_id (qs ! p))) (filter (on_a_cycle qs) [0..<length qs])"
proof -
  from assms obtain entries where e: "as_array v = Some entries" by (auto simp: judge_set_def split: option.splits)
  have not_cycle: "grammar_all n xs \<noteq> Inl (QuestionCycle cs)" for n xs
    by (induction xs arbitrary: n) (auto simp: result_simps)
  have not_cycle': "judge_questions ids seen n xs \<noteq> Some (QuestionCycle cs)" for ids seen n xs
    by (induction ids seen n xs rule: judge_questions.induct) auto
  from assms e not_cycle obtain qs where qs: "grammar_all 0 entries = Inr qs" by (auto simp: judge_set_def split: sum.splits)
  with assms e not_cycle' have none: "judge_questions (set (map q_id qs)) [] 0 qs = None"
    by (auto simp: judge_set_def split: option.splits)
  from qs have m: "map grammar entries = map Some qs" by (simp add: grammar_all_iff)
  from judge_set_list [OF e m none] obtain ps where ps: "sorted ps" "distinct ps" "set ps = {p. on_a_cycle qs p}"
    and j: "judge_set v = Some (if ps \<noteq> [] then Inl (QuestionCycle (map (\<lambda>p. (p, q_id (qs ! p))) ps)) else Inr qs)" by blast
  from j assms have cs: "ps \<noteq> []" "cs = map (\<lambda>p. (p, q_id (qs ! p))) ps" by (auto split: if_splits)
  have "ps = filter (on_a_cycle qs) [0..<length qs]"
  proof (rule sorted_distinct_set_unique [OF ps(1,2)])
    show "sorted (filter (on_a_cycle qs) [0..<length qs])" "distinct (filter (on_a_cycle qs) [0..<length qs])"
      by (simp_all add: sorted_wrt_filter)
    show "set ps = set (filter (on_a_cycle qs) [0..<length qs])" using ps(3) by (auto simp: on_a_cycle_def)
  qed
  with cs m e show ?thesis by (cases v) auto
qed

section \<open>Witness\<close>

definition question_value :: "string \<Rightarrow> string list \<Rightarrow> json" where
  "question_value i ds = jobj [(''id'', JString i), (''question'', JString ''q''), (''recommended'', JString ''r''),
     (''depends_on'', jstrs ds)]"

lemma blank_x: "\<not> blank ''a''" "\<not> blank ''b''" "\<not> blank ''q''" "\<not> blank ''r''"
  by (simp_all add: blank_def white_space_def)

lemma example_cycle:
  "judge_set (JArray [question_value ''a'' [''b''], question_value ''b'' [''a'']]) =
     Some (Inl (QuestionCycle [(0, ''a''), (1, ''b'')]))"
proof -
  have g: "grammar (question_value i [d]) = Some \<lparr>q_id = i, q_question = ''q'', q_recommended = ''r'', q_depends_on = [d]\<rparr>"
    if "length i \<le> 4096" for i d
    using that by (simp add: grammar_def question_value_def set_members question_members_def bounded_text_def members_map_of
        inline_text_limit_def jstrs_def)
  have c: "on_cycles [[Suc 0], [0]] = Some [0, Suc 0]"
    by (simp add: on_cycles_def tarjan_new_def open_node_def tarjan_loop.simps tarjan_step_def follow_edge_def lower_def
        return_node_def close_component_def numeral_2_eq_2 Let_def)
  let ?q = "\<lambda>i d. \<lparr>q_id = i, q_question = ''q'', q_recommended = ''r'', q_depends_on = [d]\<rparr>"
  have e: "question_edges [?q ''a'' ''b'', ?q ''b'' ''a''] = Some [[Suc 0], [0]]"
    by (simp add: question_edges_def by_id_def)
  show ?thesis
    by (simp add: judge_set_def g blank_x e c)
qed

theorem judge_set_cycle_witness:
  "\<exists>entries qs. JArray [question_value ''a'' [''b''], question_value ''b'' [''a'']] = JArray entries
    \<and> map grammar entries = map Some qs \<and> [(0 :: nat, ''a''), (1, ''b'')] \<noteq> []
    \<and> [(0, ''a''), (1, ''b'')] = map (\<lambda>p. (p, q_id (qs ! p))) (filter (on_a_cycle qs) [0..<length qs])"
  by (rule judge_set_cycle [OF example_cycle])

end
