(* ===== verification/Canonical.thy ===== *)
theory Canonical
  imports Json "HOL-Library.Multiset"
begin

text \<open>
  Canonical JSON, the bytes every ledger hash is taken over
  (\<open>baley-store/src/canonical.rs\<close>).  \<open>canonical_json\<close> follows \<open>write_value\<close>: integers
  within plus or minus \<open>2^53 - 1\<close> as plain decimal digits, strings with the escapes of RFC 8785,
  object members sorted by the UTF-16 code units of their keys, and the first number with no
  canonical form reported with its path.  The lemmas show that the bytes determine the value:
  the encoding is uniquely decodable, also when more bytes follow it, so the concatenation of an
  envelope and a payload that the chain formula hashes is unambiguous.
\<close>

section \<open>The encoder\<close>

definition max_safe_integer :: int where
  "max_safe_integer = 2 ^ 53 - 1"

datatype canonical_error =
    NotAnInteger string string   \<comment> \<open>path and source text\<close>
  | OutOfRange string string

definition hex_digit :: "nat \<Rightarrow> char" where
  "hex_digit n = (if n < 10 then char_of (48 + n) else char_of (87 + n))"

definition hex4 :: "nat \<Rightarrow> string" where
  "hex4 n = [hex_digit (n div 4096 mod 16), hex_digit (n div 256 mod 16),
             hex_digit (n div 16 mod 16), hex_digit (n mod 16)]"

definition escape_char :: "char \<Rightarrow> string" where
  "escape_char c =
     (if c = CHR 0x22 then [CHR 0x5C, CHR 0x22]
      else if c = CHR 0x5C then [CHR 0x5C, CHR 0x5C]
      else if c = CHR 0x08 then [CHR 0x5C, CHR ''b'']
      else if c = CHR 0x09 then [CHR 0x5C, CHR ''t'']
      else if c = CHR 0x0A then [CHR 0x5C, CHR ''n'']
      else if c = CHR 0x0C then [CHR 0x5C, CHR ''f'']
      else if c = CHR 0x0D then [CHR 0x5C, CHR ''r'']
      else if (of_char c :: nat) < 32 then [CHR 0x5C, CHR ''u''] @ hex4 (of_char c)
      else [c])"

definition write_string :: "string \<Rightarrow> string" where
  "write_string s = CHR 0x22 # concat (map escape_char s) @ [CHR 0x22]"

definition integer_token :: "string \<Rightarrow> bool" where
  "integer_token t \<longleftrightarrow>
     all_digits (case t of c # r \<Rightarrow> if c = CHR ''-'' then r else t | [] \<Rightarrow> t)"

definition write_number :: "string \<Rightarrow> string \<Rightarrow> canonical_error + string" where
  "write_number path t =
     (case parse_i64 t of
        Some i \<Rightarrow>
          if - max_safe_integer \<le> i \<and> i \<le> max_safe_integer then Inr (dec_int i)
          else Inl (if integer_token t then OutOfRange path t else NotAnInteger path t)
      | None \<Rightarrow> Inl (if integer_token t then OutOfRange path t else NotAnInteger path t))"

definition comma :: "nat \<Rightarrow> string" where
  "comma i = (if 0 < i then '','' else [])"

definition member_key :: "string \<times> json \<Rightarrow> nat list" where
  "member_key p = encode_utf16 (fst p)"

lemma size_list_sort_key [simp]: "size_list f (sort_key g xs) = size_list f xs"
proof -
  have "size_list f xs = sum_mset (image_mset f (mset xs)) + size (mset xs)" for xs :: "'a list"
    by (induction xs) auto
  then show ?thesis by (simp add: mset_sort)
qed

function write_value :: "string \<Rightarrow> json \<Rightarrow> canonical_error + string"
  and write_items :: "string \<Rightarrow> nat \<Rightarrow> json list \<Rightarrow> canonical_error + string"
  and write_members :: "string \<Rightarrow> nat \<Rightarrow> (string \<times> json) list \<Rightarrow> canonical_error + string"
where
  "write_value path JNull = Inr ''null''"
| "write_value path (JBool True) = Inr ''true''"
| "write_value path (JBool False) = Inr ''false''"
| "write_value path (JNumber t) = write_number path t"
| "write_value path (JString s) = Inr (write_string s)"
| "write_value path (JArray xs) =
     rbind (write_items path 0 xs) (\<lambda>b. Inr (''['' @ b @ '']''))"
| "write_value path (JObject m) =
     rbind (write_members path 0 (sort_key member_key m)) (\<lambda>b. Inr (''{'' @ b @ ''}''))"
| "write_items path i [] = Inr []"
| "write_items path i (x # xs) =
     rbind (write_value (path @ ''['' @ dec i @ '']'') x) (\<lambda>b.
       rbind (write_items path (Suc i) xs) (\<lambda>bs. Inr (comma i @ b @ bs)))"
| "write_members path i [] = Inr []"
| "write_members path i ((k, x) # m) =
     rbind (write_value (path @ ''.'' @ k) x) (\<lambda>b.
       rbind (write_members path (Suc i) m) (\<lambda>bs. Inr (comma i @ write_string k @ '':'' @ b @ bs)))"
  by pat_completeness auto
termination
  by (relation "measure (\<lambda>x. case x of
         Inl (path, v) \<Rightarrow> size v
       | Inr (Inl (path, i, xs)) \<Rightarrow> size_list size xs
       | Inr (Inr (path, i, m)) \<Rightarrow> size_list (size_prod (\<lambda>_. 0) size) m)") auto

definition canonical_json :: "json \<Rightarrow> canonical_error + string" where
  "canonical_json v = write_value ''$'' v"

section \<open>Unique decodability of the tokens\<close>

definition no_digit_ahead :: "string \<Rightarrow> bool" where
  "no_digit_ahead x \<longleftrightarrow> (case x of [] \<Rightarrow> True | c # _ \<Rightarrow> \<not> is_digit c)"

lemma no_digit_ahead_simps [simp]:
  "no_digit_ahead []"
  "no_digit_ahead (c # x) \<longleftrightarrow> \<not> is_digit c"
  by (simp_all add: no_digit_ahead_def)

lemma takeWhile_dec: "no_digit_ahead x \<Longrightarrow> takeWhile is_digit (dec n @ x) = dec n"
  using dec_digits [of n]
  by (cases x) (simp_all add: list_all_iff takeWhile_append)

lemma dec_append_unique:
  assumes "dec m @ x = dec n @ y" "no_digit_ahead x" "no_digit_ahead y"
  shows "m = n \<and> x = y"
proof -
  have "dec m = dec n" using assms takeWhile_dec [of x m] takeWhile_dec [of y n] by simp
  with assms(1) show ?thesis by simp
qed

lemma dec_int_append_unique:
  assumes "dec_int i @ x = dec_int j @ y" "no_digit_ahead x" "no_digit_ahead y"
  shows "i = j \<and> x = y"
proof -
  have no: "dec m @ u \<noteq> CHR ''-'' # v" for m u v
    using dec_not_sign [of m] by (cases "dec m") auto
  show ?thesis
  proof (cases "i < 0"; cases "j < 0")
    assume s: "i < 0" "j < 0"
    with assms have "nat (- i) = nat (- j) \<and> x = y"
      by (intro dec_append_unique) (simp_all add: dec_int_def)
    with s show ?thesis by (simp add: eq_nat_nat_iff)
  next
    assume s: "i < 0" "\<not> j < 0"
    with assms(1) no [of "nat j" y] show ?thesis by (simp add: dec_int_def) metis
  next
    assume s: "\<not> i < 0" "j < 0"
    with assms(1) no [of "nat i" x] show ?thesis by (simp add: dec_int_def)
  next
    assume s: "\<not> i < 0" "\<not> j < 0"
    with assms have "nat i = nat j \<and> x = y"
      by (intro dec_append_unique) (simp_all add: dec_int_def)
    with s show ?thesis by (simp add: eq_nat_nat_iff)
  qed
qed

lemma hex_digit_inject:
  assumes "m < 16" "n < 16" "hex_digit m = hex_digit n"
  shows "m = n"
proof -
  have val: "of_char (hex_digit k) = (if k < 10 then 48 + k else 87 + k)" if "k < 16" for k :: nat
  proof -
    have "48 + k < 256" "87 + k < 256" using that by auto
    then show ?thesis by (simp only: hex_digit_def of_char_of mod_less split: if_split) simp
  qed
  have "(if m < 10 then 48 + m else 87 + m) = (if n < 10 then 48 + n else 87 + n)"
    using val [OF assms(1)] val [OF assms(2)] assms(3) by argo
  with assms show ?thesis by (simp split: if_splits)
qed

lemma hex4_inject: "m < 65536 \<Longrightarrow> n < 65536 \<Longrightarrow> hex4 m = hex4 n \<Longrightarrow> m = n"
proof -
  assume "m < 65536" "n < 65536" "hex4 m = hex4 n"
  then have "m div 4096 mod 16 = n div 4096 mod 16" "m div 256 mod 16 = n div 256 mod 16"
    "m div 16 mod 16 = n div 16 mod 16" "m mod 16 = n mod 16"
    by (auto simp: hex4_def intro: hex_digit_inject)
  moreover have "k = k div 4096 mod 16 * 4096 + k div 256 mod 16 * 256 + k div 16 mod 16 * 16 + k mod 16"
    if "k < 65536" for k :: nat
  proof -
    have "k div 4096 < 16" using that by auto
    then have "k div 4096 mod 16 = k div 4096" by (rule mod_less)
    moreover have "k div 4096 = k div 256 div 16" "k div 256 = k div 16 div 16"
      by (simp_all add: div_mult2_eq [symmetric])
    ultimately show ?thesis
      using div_mult_mod_eq [of k 16] div_mult_mod_eq [of "k div 16" 16] div_mult_mod_eq [of "k div 256" 16]
      by linarith
  qed
  ultimately show "m = n" using \<open>m < 65536\<close> \<open>n < 65536\<close> by metis
qed

lemma escape_char_not_quote: "escape_char c = d # r \<Longrightarrow> d \<noteq> CHR 0x22"
  by (auto simp: escape_char_def split: if_splits)

lemma escape_char_not_Nil [simp]: "escape_char c \<noteq> []"
  by (simp add: escape_char_def)

definition short_escape :: "char \<Rightarrow> char option" where
  "short_escape c =
     map_of [(CHR 0x22, CHR 0x22), (CHR 0x5C, CHR 0x5C), (CHR 0x08, CHR ''b''), (CHR 0x09, CHR ''t''),
             (CHR 0x0A, CHR ''n''), (CHR 0x0C, CHR ''f''), (CHR 0x0D, CHR ''r'')] c"

lemma escape_char_cases:
  "escape_char c =
     (case short_escape c of
        Some e \<Rightarrow> [CHR 0x5C, e]
      | None \<Rightarrow> if (of_char c :: nat) < 32 then CHR 0x5C # CHR ''u'' # hex4 (of_char c) else [c])"
  by (simp add: escape_char_def short_escape_def)

lemma short_escape_inject: "short_escape c = Some e \<Longrightarrow> short_escape d = Some e \<Longrightarrow> c = d"
  by (auto simp: short_escape_def split: if_splits)

lemma short_escape_not_u: "short_escape c \<noteq> Some CHR ''u''"
  by (auto simp: short_escape_def)

lemma short_escape_backslash: "short_escape c = None \<Longrightarrow> c \<noteq> CHR 0x5C"
  by (auto simp: short_escape_def)

lemma escape_char_unique:
  assumes "escape_char c @ x = escape_char d @ y"
  shows "c = d \<and> x = y"
proof -
  have h: "length (hex4 n) = 4" for n by (simp add: hex4_def)
  show ?thesis
  proof (cases "short_escape c"; cases "short_escape d")
    fix e f assume "short_escape c = Some e" "short_escape d = Some f"
    then show ?thesis using assms short_escape_inject by (auto simp: escape_char_cases)
  next
    fix e assume "short_escape c = Some e" "short_escape d = None"
    then show ?thesis using assms short_escape_not_u [of c] short_escape_backslash [of d]
      by (auto simp: escape_char_cases split: if_splits)
  next
    fix e assume "short_escape c = None" "short_escape d = Some e"
    then show ?thesis using assms short_escape_not_u [of d] short_escape_backslash [of c]
      by (auto simp: escape_char_cases split: if_splits)
  next
    assume n: "short_escape c = None" "short_escape d = None"
    show ?thesis
    proof (cases "(of_char c :: nat) < 32 \<and> (of_char d :: nat) < 32")
      case True
      with n assms have "hex4 (of_char c) @ x = hex4 (of_char d) @ y" by (simp add: escape_char_cases)
      then have "hex4 (of_char c) = hex4 (of_char d)" "x = y" by (auto simp: h append_eq_append_conv)
      with True show ?thesis using hex4_inject [of "of_char c" "of_char d"] by auto
    next
      case False
      with n assms short_escape_backslash show ?thesis
        by (auto simp: escape_char_cases split: if_splits)
    qed
  qed
qed

lemma escaped_unique:
  "concat (map escape_char s) @ CHR 0x22 # x = concat (map escape_char t) @ CHR 0x22 # y \<Longrightarrow> s = t \<and> x = y"
proof (induction s arbitrary: t)
  case Nil
  show ?case
  proof (cases t)
    case (Cons d t')
    with Nil escape_char_not_quote [of d] show ?thesis by (cases "escape_char d") auto
  qed (use Nil in simp)
next
  case (Cons c s)
  show ?case
  proof (cases t)
    case Nil
    with Cons.prems escape_char_not_quote [of c] show ?thesis by (cases "escape_char c") auto
  next
    case t: (Cons d t')
    with Cons.prems have "escape_char c @ (concat (map escape_char s) @ CHR 0x22 # x)
        = escape_char d @ (concat (map escape_char t') @ CHR 0x22 # y)" by simp
    then have "c = d" "concat (map escape_char s) @ CHR 0x22 # x = concat (map escape_char t') @ CHR 0x22 # y"
      by (auto dest: escape_char_unique)
    with Cons.IH t show ?thesis by blast
  qed
qed

lemma write_string_unique: "write_string s @ x = write_string t @ y \<Longrightarrow> s = t \<and> x = y"
  using escaped_unique [of s x t y] by (simp add: write_string_def)


section \<open>Unique decodability of values\<close>

text \<open>Values are compared up to the spelling of their integers: \<open>-0\<close> is the integer 0.\<close>

fun norm_json :: "json \<Rightarrow> json" where
  "norm_json (JNumber t) = JNumber (case parse_i64 t of Some i \<Rightarrow> dec_int i | None \<Rightarrow> t)"
| "norm_json (JArray xs) = JArray (map norm_json xs)"
| "norm_json (JObject m) = JObject (map (\<lambda>(k, v). (k, norm_json v)) m)"
| "norm_json v = v"

definition norm_member :: "string \<times> json \<Rightarrow> string \<times> json" where
  "norm_member p = (fst p, norm_json (snd p))"

lemma norm_member_pair [simp]: "norm_member (k, v) = (k, norm_json v)"
  by (simp add: norm_member_def)

lemma norm_json_JObject [simp]: "norm_json (JObject m) = JObject (map norm_member m)"
  by (simp add: norm_member_def case_prod_beta)

declare norm_json.simps(3) [simp del]

text \<open>The first byte of a value tells its kind, and none closes or separates a list.\<close>

definition kind_byte :: "json \<Rightarrow> char \<Rightarrow> bool" where
  "kind_byte v c = (case v of
       JNull \<Rightarrow> c = CHR ''n''
     | JBool b \<Rightarrow> c = (if b then CHR ''t'' else CHR ''f'')
     | JNumber _ \<Rightarrow> is_digit c \<or> c = CHR ''-''
     | JString _ \<Rightarrow> c = CHR 0x22
     | JArray _ \<Rightarrow> c = CHR ''[''
     | JObject _ \<Rightarrow> c = CHR ''{'')"

lemma write_number_Inr: "write_number p t = Inr a \<longleftrightarrow>
    (\<exists>i. parse_i64 t = Some i \<and> - max_safe_integer \<le> i \<and> i \<le> max_safe_integer \<and> a = dec_int i)"
  by (auto simp: write_number_def split: option.splits)

lemma write_value_kind: "write_value p v = Inr a \<Longrightarrow> \<exists>c r. a = c # r \<and> kind_byte v c"
proof (cases v)
  case (JNumber t)
  assume "write_value p v = Inr a"
  then obtain i where a: "a = dec_int i" by (auto simp: JNumber write_number_Inr)
  show ?thesis
  proof (cases "i < 0")
    case False
    obtain c r where "dec (nat i) = c # r" by (cases "dec (nat i)") auto
    with False dec_hd_digit [of "nat i"] show ?thesis by (simp add: a JNumber kind_byte_def dec_int_def)
  qed (simp add: a JNumber kind_byte_def dec_int_def)
next
  case (JBool b)
  assume "write_value p v = Inr a"
  then show ?thesis by (cases b) (auto simp: JBool kind_byte_def)
qed (auto simp: kind_byte_def write_string_def result_simps)

lemma kind_byte_not_punct: "kind_byte v c \<Longrightarrow> c \<noteq> CHR '']'' \<and> c \<noteq> CHR ''}'' \<and> c \<noteq> CHR '',''"
  by (auto simp: kind_byte_def is_digit_def split: json.splits if_splits)

lemma write_items_tail: "write_items p (Suc i) xs = Inr a \<Longrightarrow> no_digit_ahead (a @ CHR '']'' # x)"
  by (cases xs) (auto simp: result_simps comma_def is_digit_def)

lemma write_members_tail: "write_members p (Suc i) m = Inr a \<Longrightarrow> no_digit_ahead (a @ CHR ''}'' # x)"
proof (cases m)
  case (Cons q m')
  assume "write_members p (Suc i) m = Inr a"
  with Cons show ?thesis by (cases q) (auto simp: result_simps comma_def is_digit_def)
qed (simp add: is_digit_def)

lemma write_items_Nil_iff:
  assumes "write_items p i xs = Inr a"
  shows "(\<exists>r. a @ CHR '']'' # x = CHR '']'' # r) \<longleftrightarrow> xs = []"
proof (cases xs)
  case (Cons y ys)
  with assms obtain b bs where "write_value (p @ ''['' @ dec i @ '']'') y = Inr b" "a = comma i @ b @ bs"
    by (auto simp: result_simps)
  with write_value_kind [OF this(1)] kind_byte_not_punct show ?thesis
    by (auto simp: Cons comma_def)
qed (use assms in auto)

lemma write_members_Nil_iff:
  assumes "write_members p i m = Inr a"
  shows "(\<exists>r. a @ CHR ''}'' # x = CHR ''}'' # r) \<longleftrightarrow> m = []"
proof (cases m)
  case (Cons q m')
  with assms show ?thesis
    by (cases q) (auto simp: result_simps comma_def write_string_def split: if_splits)
qed (use assms in auto)

lemma sorted_members_norm_unique:
  assumes "akeys_sorted m" "akeys_sorted n"
    and "map norm_member (sort_key f m) = map norm_member (sort_key f n)"
  shows "map norm_member m = map norm_member n"
proof (rule akeys_sorted_set_unique)
  have keys: "map fst (map norm_member q) = map fst q" for q by (simp add: norm_member_def)
  show "akeys_sorted (map norm_member m)" "akeys_sorted (map norm_member n)"
    using assms(1,2) unfolding akeys_sorted_def keys .
  from assms(3) have "set (map norm_member (sort_key f m)) = set (map norm_member (sort_key f n))" by simp
  then show "set (map norm_member m) = set (map norm_member n)" by simp
qed

lemma write_value_unique:
  "write_value p v = Inr a \<Longrightarrow> json_wf v \<Longrightarrow> write_value q w = Inr b \<Longrightarrow> json_wf w \<Longrightarrow>
     a @ x = b @ y \<Longrightarrow> no_digit_ahead x \<Longrightarrow> no_digit_ahead y \<Longrightarrow>
     norm_json v = norm_json w \<and> x = y"
  and write_items_unique:
  "write_items p i xs = Inr a \<Longrightarrow> \<forall>v \<in> set xs. json_wf v \<Longrightarrow>
     write_items q i ys = Inr b \<Longrightarrow> \<forall>v \<in> set ys. json_wf v \<Longrightarrow>
     a @ CHR '']'' # x = b @ CHR '']'' # y \<Longrightarrow> map norm_json xs = map norm_json ys \<and> x = y"
  and write_members_unique:
  "write_members p i m = Inr a \<Longrightarrow> \<forall>r \<in> set m. json_wf (snd r) \<Longrightarrow>
     write_members q i n = Inr b \<Longrightarrow> \<forall>r \<in> set n. json_wf (snd r) \<Longrightarrow>
     a @ CHR ''}'' # x = b @ CHR ''}'' # y \<Longrightarrow> map norm_member m = map norm_member n \<and> x = y"
proof (induction p v and p i xs and p i m arbitrary: q w a b x y and q ys a b x y and q n a b x y
    rule: write_value_write_items_write_members.induct)
  case (4 path t)
  from "4.prems"(1) obtain i where i: "parse_i64 t = Some i" "a = dec_int i" by (auto simp: write_number_Inr)
  obtain c r where c: "a = c # r" "is_digit c \<or> c = CHR ''-''"
    using write_value_kind [OF "4.prems"(1)] by (auto simp: kind_byte_def)
  obtain d s where d: "b = d # s" "kind_byte w d" using write_value_kind [OF "4.prems"(3)] by auto
  with c "4.prems"(5) obtain u where w: "w = JNumber u"
    by (cases w) (auto simp: kind_byte_def is_digit_def split: if_splits)
  then obtain j where "parse_i64 u = Some j" "b = dec_int j"
    using "4.prems"(3) by (auto simp: write_number_Inr)
  with i w dec_int_append_unique [of i x j y] "4.prems" show ?case by simp
next
  case (6 path xs)
  from "6.prems"(1) obtain e where e: "write_items path 0 xs = Inr e" "a = ''['' @ e @ '']''"
    by (auto simp: result_simps)
  obtain d s where d: "b = d # s" "kind_byte w d" using write_value_kind [OF "6.prems"(3)] by auto
  with e "6.prems"(5) obtain ys where w: "w = JArray ys"
    by (cases w) (auto simp: kind_byte_def is_digit_def split: if_splits)
  with "6.prems"(3) obtain f where f: "write_items q 0 ys = Inr f" "b = ''['' @ f @ '']''"
    by (auto simp: result_simps)
  from "6.prems" e f w have "map norm_json xs = map norm_json ys \<and> x = y"
    by (intro "6.IH" [OF e(1) _ f(1)]) auto
  with w show ?case by simp
next
  case (7 path m)
  from "7.prems"(1) obtain e where e: "write_members path 0 (sort_key member_key m) = Inr e" "a = ''{'' @ e @ ''}''"
    by (auto simp: result_simps)
  obtain d s where d: "b = d # s" "kind_byte w d" using write_value_kind [OF "7.prems"(3)] by auto
  with e "7.prems"(5) obtain n where w: "w = JObject n"
    by (cases w) (auto simp: kind_byte_def is_digit_def split: if_splits)
  with "7.prems"(3) obtain f where f: "write_members q 0 (sort_key member_key n) = Inr f" "b = ''{'' @ f @ ''}''"
    by (auto simp: result_simps)
  from "7.prems" e f w
  have "map norm_member (sort_key member_key m) = map norm_member (sort_key member_key n) \<and> x = y"
    by (intro "7.IH" [OF e(1) _ f(1)]) auto
  with w "7.prems"(2,4) sorted_members_norm_unique show ?case by auto
next
  case (8 path i)
  from "8.prems"(1) have "a = []" by simp
  with "8.prems"(5) write_items_Nil_iff [OF "8.prems"(3), of y] have "ys = []" by (metis append_Nil)
  with "8.prems" show ?case by simp
next
  case (9 path i z zs)
  from "9.prems"(1) obtain e es where e: "write_value (path @ ''['' @ dec i @ '']'') z = Inr e"
      "write_items path (Suc i) zs = Inr es" "a = comma i @ e @ es" by (auto simp: result_simps)
  from write_items_Nil_iff [OF "9.prems"(1), of x] write_items_Nil_iff [OF "9.prems"(3), of y] "9.prems"(5)
  obtain v vs where ys: "ys = v # vs" by (cases ys) auto
  with "9.prems"(3) obtain f fs where f: "write_value (q @ ''['' @ dec i @ '']'') v = Inr f"
      "write_items q (Suc i) vs = Inr fs" "b = comma i @ f @ fs" by (auto simp: result_simps)
  have "e @ (es @ CHR '']'' # x) = f @ (fs @ CHR '']'' # y)" using "9.prems"(5) e f by simp
  then have *: "norm_json z = norm_json v \<and> es @ CHR '']'' # x = fs @ CHR '']'' # y"
    using "9.prems" ys
    by (intro "9.IH"(1) [OF e(1) _ f(1)] write_items_tail [OF e(2)] write_items_tail [OF f(2)]) auto
  then have "map norm_json zs = map norm_json vs \<and> x = y"
    using "9.prems" ys by (intro "9.IH"(2) [OF e(2) _ f(2)]) auto
  with * ys show ?case by simp
next
  case (10 path i)
  from "10.prems"(1) have "a = []" by simp
  with "10.prems"(5) write_members_Nil_iff [OF "10.prems"(3), of y] have "n = []" by (metis append_Nil)
  with "10.prems" show ?case by simp
next
  case (11 path i k z zs)
  from "11.prems"(1) obtain e es where e: "write_value (path @ ''.'' @ k) z = Inr e"
      "write_members path (Suc i) zs = Inr es" "a = comma i @ write_string k @ '':'' @ e @ es"
    by (auto simp: result_simps)
  from write_members_Nil_iff [OF "11.prems"(1), of x] write_members_Nil_iff [OF "11.prems"(3), of y] "11.prems"(5)
  obtain l v vs where ys: "n = (l, v) # vs" by (cases n) auto
  with "11.prems"(3) obtain f fs where f: "write_value (q @ ''.'' @ l) v = Inr f"
      "write_members q (Suc i) vs = Inr fs" "b = comma i @ write_string l @ '':'' @ f @ fs"
    by (auto simp: result_simps)
  have "write_string k @ ('':'' @ e @ es @ CHR ''}'' # x) = write_string l @ ('':'' @ f @ fs @ CHR ''}'' # y)"
    using "11.prems"(5) e f by simp
  then have kl: "k = l" and eq: "e @ (es @ CHR ''}'' # x) = f @ (fs @ CHR ''}'' # y)"
    by (auto dest: write_string_unique)
  from eq have *: "norm_json z = norm_json v \<and> es @ CHR ''}'' # x = fs @ CHR ''}'' # y"
    using "11.prems" ys
    by (intro "11.IH"(1) [OF e(1) _ f(1)] write_members_tail [OF e(2)] write_members_tail [OF f(2)]) auto
  then have "map norm_member zs = map norm_member vs \<and> x = y"
    using "11.prems" ys by (intro "11.IH"(2) [OF e(2) _ f(2)]) auto
  with * ys kl show ?case by simp
next
  case (5 path s)
  obtain d r where d: "b = d # r" "kind_byte w d" using write_value_kind [OF "5.prems"(3)] by auto
  with "5.prems"(1,5) obtain t where "w = JString t"
    by (cases w) (auto simp: kind_byte_def is_digit_def write_string_def split: if_splits)
  with "5.prems" write_string_unique [of s x t y] show ?case by auto
next
  case (1 path)
  obtain d r where d: "b = d # r" "kind_byte w d" using write_value_kind [OF "1.prems"(3)] by auto
  with "1.prems" show ?case by (cases w) (auto simp: kind_byte_def is_digit_def split: if_splits)
next
  case (2 path)
  obtain d r where d: "b = d # r" "kind_byte w d" using write_value_kind [OF "2.prems"(3)] by auto
  with "2.prems" show ?case by (cases w) (auto simp: kind_byte_def is_digit_def split: if_splits)
next
  case (3 path)
  obtain d r where d: "b = d # r" "kind_byte w d" using write_value_kind [OF "3.prems"(3)] by auto
  with "3.prems" show ?case by (cases w) (auto simp: kind_byte_def is_digit_def split: if_splits)
qed


section \<open>Which values have a canonical form\<close>

fun numbers_safe :: "json \<Rightarrow> bool" where
  "numbers_safe (JNumber t) =
     (case parse_i64 t of Some i \<Rightarrow> - max_safe_integer \<le> i \<and> i \<le> max_safe_integer | None \<Rightarrow> False)"
| "numbers_safe (JArray xs) = (\<forall>x \<in> set xs. numbers_safe x)"
| "numbers_safe (JObject m) = (\<forall>p \<in> set m. numbers_safe (snd p))"
| "numbers_safe _ = True"

lemma write_number_ok: "is_ok (write_number p t) \<longleftrightarrow> numbers_safe (JNumber t)"
  by (auto simp: write_number_def split: option.splits)

lemma write_value_ok:
  "is_ok (write_value p v) \<longleftrightarrow> numbers_safe v"
  and "is_ok (write_items p i xs) \<longleftrightarrow> (\<forall>x \<in> set xs. numbers_safe x)"
  and "is_ok (write_members p i m) \<longleftrightarrow> (\<forall>q \<in> set m. numbers_safe (snd q))"
proof (induction p v and p i xs and p i m rule: write_value_write_items_write_members.induct)
  case (4 path t)
  show ?case by (simp only: write_value.simps write_number_ok)
next
  case (6 path xs)
  then show ?case by (cases "write_items path 0 xs") auto
next
  case (7 path m)
  then show ?case by (cases "write_members path 0 (sort_key member_key m)") auto
next
  case (9 path i x xs)
  then show ?case
    by (cases "write_value (path @ ''['' @ dec i @ '']'') x"; cases "write_items path (Suc i) xs") auto
next
  case (11 path i k x m)
  then show ?case
    by (cases "write_value (path @ ''.'' @ k) x"; cases "write_members path (Suc i) m") auto
qed auto

lemma sort_key_map_commute: "(\<And>x. f (g x) = f x) \<Longrightarrow> sort_key f (map g xs) = map g (sort_key f xs)"
proof (induction xs)
  case (Cons x xs)
  have "insort_key f (g x) (map g ys) = map g (insort_key f x ys)" for ys
    using Cons.prems by (induction ys) auto
  with Cons show ?case by simp
qed simp

lemma parse_i64_dec_int_safe:
  "- max_safe_integer \<le> i \<Longrightarrow> i \<le> max_safe_integer \<Longrightarrow> parse_i64 (dec_int i) = Some i"
  by (rule parse_i64_dec_int) (simp_all add: max_safe_integer_def)

lemma write_value_norm:
  "write_value p v = Inr a \<Longrightarrow> write_value p (norm_json v) = Inr a"
  and "write_items p i xs = Inr a \<Longrightarrow> write_items p i (map norm_json xs) = Inr a"
  and "write_members p i m = Inr a \<Longrightarrow> write_members p i (map norm_member m) = Inr a"
proof (induction p v and p i xs and p i m arbitrary: a and a and a
    rule: write_value_write_items_write_members.induct)
  case (4 path t)
  then show ?case by (auto simp: write_number_Inr parse_i64_dec_int_safe)
next
  case (7 path m)
  have "sort_key member_key (map norm_member m) = map norm_member (sort_key member_key m)"
    by (rule sort_key_map_commute) (simp add: member_key_def norm_member_def)
  with 7 show ?case by (auto simp: result_simps)
qed (auto simp: result_simps)

text \<open>Equal bytes exactly for equal values, integers compared by value.\<close>

lemma canonical_json_unique_append:
  assumes "canonical_json (JObject m) = Inr a" "json_wf (JObject m)"
    and "canonical_json (JObject n) = Inr b" "json_wf (JObject n)"
    and "a @ x = b @ y"
  shows "norm_json (JObject m) = norm_json (JObject n) \<and> x = y"
proof -
  from assms(1,3) obtain c d where ab: "a = ''{'' @ c @ ''}''" "b = ''{'' @ d @ ''}''"
    and "write_members ''$'' 0 (sort_key member_key m) = Inr c"
    and "write_members ''$'' 0 (sort_key member_key n) = Inr d"
    by (auto simp: canonical_json_def result_simps)
  then have "map norm_member (sort_key member_key m) = map norm_member (sort_key member_key n) \<and> x = y"
    using assms by (intro write_members_unique) auto
  with assms(2,4) sorted_members_norm_unique show ?thesis by auto
qed

lemma canonical_json_unique:
  assumes "canonical_json v = Inr b" "json_wf v" "canonical_json w = Inr b" "json_wf w"
  shows "norm_json v = norm_json w"
  using write_value_unique [of "''$''" v b "''$''" w b "[]" "[]"] assms
  by (simp add: canonical_json_def)

lemma canonical_json_norm: "canonical_json v = Inr b \<Longrightarrow> canonical_json (norm_json v) = Inr b"
  unfolding canonical_json_def by (rule write_value_norm)

lemma canonical_json_object: "canonical_json (JObject m) = Inr a \<Longrightarrow> \<exists>r. a = CHR ''{'' # r"
  by (auto simp: canonical_json_def result_simps)

lemma numbers_safe_norm [simp]: "numbers_safe (norm_json v) = numbers_safe v"
proof (induction v)
  case (JNumber t)
  then show ?case by (auto simp: parse_i64_dec_int_self split: option.splits)
next
  case (JObject m)
  then show ?case by (fastforce simp: norm_member_def)
qed auto

lemma canonical_json_ok: "(\<exists>b. canonical_json v = Inr b) \<longleftrightarrow> numbers_safe v"
  by (simp only: canonical_json_def is_ok_iff [symmetric] write_value_ok)

section \<open>The properties of the encoding\<close>

text \<open>C21: canonical JSON identifies a value.  When a value has canonical bytes, another value has
  the same bytes exactly when it is the same value, member by member, with integers compared by
  their value instead of their source text (\<open>-0\<close> is \<open>0\<close>).  So no two different envelopes or
  payloads share the bytes the ledger hashes.\<close>

theorem canonical_json_identity:
  assumes "json_wf v" "json_wf w" "canonical_json v = Inr b"
  shows "canonical_json w = Inr b \<longleftrightarrow> norm_json w = norm_json v"
proof
  assume "canonical_json w = Inr b"
  with assms show "norm_json w = norm_json v" using canonical_json_unique by blast
next
  assume eq: "norm_json w = norm_json v"
  have "numbers_safe w" using assms(3) canonical_json_ok [of v] numbers_safe_norm [of w] by (auto simp: eq)
  then obtain c where c: "canonical_json w = Inr c" using canonical_json_ok by blast
  with canonical_json_norm [OF c] canonical_json_norm [OF assms(3)] show "canonical_json w = Inr b"
    by (simp add: eq)
qed

theorem canonical_json_identity_witness:
  "canonical_json (JArray [JNumber ''0'', JBool True]) = Inr ''[0,true]''"
  using canonical_json_identity [of "JArray [JNumber ''-0'', JBool True]" "JArray [JNumber ''0'', JBool True]" "''[0,true]''"]
  by code_simp

text \<open>The encoder's domain.  A value has canonical bytes exactly when every number in it is an
  integer within plus or minus \<open>2^53 - 1\<close>, and for every value outside it the encoder returns an
  error instead of bytes.\<close>

theorem canonical_json_domain:
  "(\<exists>b. canonical_json v = Inr b) = numbers_safe v
   \<and> (\<exists>e. canonical_json v = Inl e) = (\<not> numbers_safe v)"
  using canonical_json_ok [of v] by (cases "canonical_json v") auto

end
