(* ===== verification/Codec.thy ===== *)
theory Codec
  imports Canonical
begin

text \<open>
  The contract of the ledger's recorded values.  \<open>to_value\<close> and \<open>from_value\<close> of a recorded type
  form a \<open>codec\<close>: every value the program can build is read back.  A \<open>strict_codec\<close> also reads
  nothing else: whatever it accepts among the values that have canonical bytes is what the
  encoder writes, up to the spelling of integers, so a decoded value determines the recorded
  bytes.  The lemmas on objects carry the proof of every exact-field decoder.
\<close>

section \<open>Objects with exact members\<close>

lemma akeys_sorted_norm [simp]: "akeys_sorted (map norm_member m) = akeys_sorted m"
  by (simp add: akeys_sorted_def norm_member_def comp_def)

lemma map_of_norm: "map_of (map norm_member m) k = map_option norm_json (map_of m k)"
  by (induction m) (auto simp: norm_member_def)

lemma json_wf_norm [simp]: "json_wf (norm_json v) = json_wf v"
  by (induction v) (auto simp: norm_member_def)

lemma norm_json_idem [simp]: "norm_json (norm_json v) = norm_json v"
proof (induction v)
  case (JNumber t)
  then show ?case by (auto simp: parse_i64_dec_int_self split: option.splits)
next
  case (JObject m)
  then show ?case by (fastforce simp: norm_member_def)
qed auto

text \<open>An object of as many members as expected that holds every expected one is the expected
  object.\<close>

lemma jobj_exact:
  assumes "akeys_sorted m" "distinct (map fst kvs)" "length m = length kvs"
    and "\<forall>p \<in> set kvs. map_of m (fst p) = Some (snd p)"
  shows "JObject m = jobj kvs"
proof -
  have "set kvs \<subseteq> set m" using assms(4) by (metis map_of_SomeD prod.collapse subsetI)
  moreover have "card (set kvs) = length kvs"
    using assms(2) distinct_card [of kvs] by (simp add: distinct_map)
  moreover have "card (set m) = length m"
    using akeys_sorted_distinct [OF assms(1)] distinct_card [of m] by (simp add: distinct_map)
  ultimately have "set m = set kvs" using assms(3) by (metis List.finite_set card_subset_eq)
  then have "m = members kvs"
    using assms(1,2) by (intro akeys_sorted_set_unique) (auto simp: set_members)
  then show ?thesis by (simp add: jobj_def)
qed

lemma jobj_exact_norm:
  assumes "json_wf (JObject m)" "distinct (map fst kvs)" "length m = length kvs"
    and "\<forall>p \<in> set kvs. map_option norm_json (map_of m (fst p)) = Some (snd p)"
  shows "jobj kvs = norm_json (JObject m)"
  using assms jobj_exact [of "map norm_member m" kvs] by (simp add: map_of_norm)

text \<open>An object is the encoder's when it holds the same member or none under every key.\<close>

lemma jobj_lookup:
  assumes "akeys_sorted m" "distinct (map fst kvs)" "\<And>k. map_of m k = map_of kvs k"
  shows "JObject m = jobj kvs"
proof -
  have "set m = set kvs"
  proof (rule set_eqI)
    fix p :: "string \<times> json"
    obtain k v where "p = (k, v)" by fastforce
    then show "p \<in> set m \<longleftrightarrow> p \<in> set kvs"
      using map_of_eq_Some_iff [OF akeys_sorted_distinct [OF assms(1)], of k v]
        map_of_eq_Some_iff [OF assms(2), of k v] assms(3) by simp
  qed
  then have "m = members kvs"
    using assms(1,2) by (intro akeys_sorted_set_unique) (auto simp: set_members)
  then show ?thesis by (simp add: jobj_def)
qed

lemma norm_jobj:
  assumes "distinct (map fst kvs)"
  shows "norm_json (jobj kvs) = jobj (map norm_member kvs)"
proof -
  have "distinct (map fst (map norm_member kvs))" using assms by (simp add: comp_def norm_member_def)
  then have "JObject (map norm_member (members kvs)) = jobj (map norm_member kvs)"
    using assms by (intro jobj_lookup) (auto simp: map_of_norm members_map_of)
  then show ?thesis by (simp add: jobj_def)
qed

lemma jobj_inject:
  assumes "jobj kvs = jobj kvs'" "distinct (map fst kvs)" "distinct (map fst kvs')"
  shows "map_of kvs k = map_of kvs' k"
  using assms by (metis jget_jobj)

lemma norm_json_str_iff [simp]: "norm_json v = JString s \<longleftrightarrow> v = JString s"
  by (cases v) auto

lemma norm_json_null_iff [simp]: "norm_json v = JNull \<longleftrightarrow> v = JNull"
  by (cases v) auto

lemma norm_json_bool_iff [simp]: "norm_json v = JBool b \<longleftrightarrow> v = JBool b"
  by (cases v) auto

lemma as_str_Some_iff [simp]: "as_str v = Some s \<longleftrightarrow> v = JString s"
  by (cases v) auto

lemma as_object_Some_iff [simp]: "as_object v = Some m \<longleftrightarrow> v = JObject m"
  by (cases v) auto

lemma as_array_Some_iff [simp]: "as_array v = Some xs \<longleftrightarrow> v = JArray xs"
  by (cases v) auto

lemma as_bool_Some_iff [simp]: "as_bool v = Some b \<longleftrightarrow> v = JBool b"
  by (cases v) auto

lemma norm_json_strs [simp]: "norm_json (jstrs ss) = jstrs ss"
  by (simp add: jstrs_def)

lemma norm_json_strs_array: "those (map as_str xs) = Some ss \<Longrightarrow> xs = map JString ss"
  by (induction xs arbitrary: ss) (auto split: option.splits)

section \<open>Integers\<close>

lemma parse_u64_i64:
  assumes "parse_u64 t = Some n" "parse_i64 t = Some i"
  shows "i = int (unat n)"
proof -
  have nodash: "\<not> is_digit (CHR ''-'')" by (simp add: is_digit_def)
  show ?thesis
  proof (cases t)
    case Nil
    with assms show ?thesis by (simp add: parse_u64_def all_digits_def)
  next
    case (Cons c r)
    define u where "u = (if c = CHR ''+'' then r else t)"
    have n: "all_digits u" "undec u < 2 ^ 64" "n = of_nat (undec u)"
      using assms(1) Cons by (auto simp: parse_u64_def Let_def u_def split: if_splits)
    have "c \<noteq> CHR ''-''" using n(1) Cons nodash by (auto simp: u_def all_digits_def split: if_splits)
    then have "i = int (undec u)"
      using assms(2) Cons by (auto simp: parse_i64_def Let_def u_def split: if_splits)
    moreover have "unat n = undec u" using n(2,3) by (simp only: n(3) unat_of_nat) simp
    ultimately show ?thesis by simp
  qed
qed

lemma as_u64_norm:
  assumes "as_u64 v = Some n" "numbers_safe v"
  shows "norm_json v = jnum n"
proof -
  from assms(1) obtain t where v: "v = JNumber t" "parse_u64 t = Some n" by (cases v) auto
  with assms(2) obtain i where i: "parse_i64 t = Some i" by (auto split: option.splits)
  with v parse_u64_i64 have "i = int (unat n)" by blast
  then have "dec_int i = dec_u64 n" by (simp add: dec_int_def dec_u64_def)
  with v i show ?thesis by (simp add: jnum_def)
qed

lemma norm_jnum:
  assumes "numbers_safe (jnum n)"
  shows "norm_json (jnum n) = jnum n"
  using as_u64_norm [OF as_u64_jnum assms] .

lemma norm_jnum32 [simp]: "norm_json (jnum32 n) = jnum32 n"
proof -
  have "unat n < 2 ^ 32" using unsigned_less [of n, where ?'a = nat] by simp
  then have "parse_i64 (dec (unat n)) = Some (int (unat n))" by (intro parse_i64_dec) simp
  then show ?thesis by (simp only: jnum32_def norm_json.simps option.case dec_int_of_nat)
qed

lemma jnum32_inject [simp]: "jnum32 m = jnum32 n \<longleftrightarrow> m = n"
  by (metis as_u32_jnum32 option.inject)

section \<open>The contracts\<close>

locale codec =
  fixes enc :: "'a \<Rightarrow> json" and decode :: "json \<Rightarrow> 'a option" and wf :: "'a \<Rightarrow> bool"
  assumes decode_encode: "wf x \<Longrightarrow> decode (enc x) = Some x"
begin

lemma encode_inject: "wf x \<Longrightarrow> wf y \<Longrightarrow> enc x = enc y \<longleftrightarrow> x = y"
  by (metis decode_encode option.inject)

lemma decode_encode_iff: "wf x \<Longrightarrow> decode (enc x) = Some y \<longleftrightarrow> y = x"
  using decode_encode by auto

end

locale strict_codec = codec +
  assumes encode_decode: "json_wf v \<Longrightarrow> numbers_safe v \<Longrightarrow> decode v = Some x \<Longrightarrow> enc x = norm_json v"
    and decode_wf: "decode v = Some x \<Longrightarrow> wf x"
begin

text \<open>What the decoder accepts among recorded values is exactly what the encoder writes.\<close>

lemma decoded_bytes:
  assumes "json_wf v" "canonical_json v = Inr b" "decode v = Some x"
  shows "canonical_json (enc x) = Inr b"
proof -
  have "numbers_safe v" using assms(2) canonical_json_ok by blast
  with assms(1,3) have "enc x = norm_json v" by (intro encode_decode)
  with canonical_json_norm [OF assms(2)] show ?thesis by simp
qed

text \<open>One decoded value has one recorded byte string.\<close>

lemma decoded_bytes_unique:
  assumes "json_wf v" "canonical_json v = Inr a" "decode v = Some x"
    and "json_wf w" "canonical_json w = Inr b" "decode w = Some x"
  shows "a = b"
  using decoded_bytes [OF assms(1-3)] decoded_bytes [OF assms(4-6)] by simp

end

end
