(* ===== verification/Caller.thy ===== *)
theory Caller
  imports Codec
begin

text \<open>
  The caller of a ledger event (\<open>baley-store/src/caller.rs\<close>): the server and hook forms, their
  checked constructors, the one JSON object each is encoded as and the strict decoder.  Field
  names of the source's structs carry a prefix (\<open>c_\<close> for \<open>Common\<close>, \<open>s_\<close> for \<open>ServerCaller\<close>,
  \<open>h_\<close> for \<open>HookCaller\<close>).  The decoder reads a string id with \<open>serde_json::from_str\<close>, which is
  the parameter \<open>from_json_str\<close>; all that is assumed of it is that it reads back the string
  literals \<open>canonical_json\<close> writes.  A directory is absolute when it starts with a slash (the
  platforms the program supports).
\<close>

section \<open>Data\<close>

definition max_directory_bytes :: nat where "max_directory_bytes = 4096"
definition max_host_bytes :: nat where "max_host_bytes = 64"
definition max_client_version_bytes :: nat where "max_client_version_bytes = 128"
definition baley_session_bytes :: nat where "baley_session_bytes = 36"
definition max_host_session_bytes :: nat where "max_host_session_bytes = 128"
definition max_call_identity_bytes :: nat where "max_call_identity_bytes = 256"
definition max_work_order_bytes :: nat where "max_work_order_bytes = 256"
definition max_instructions :: nat where "max_instructions = 32"
definition max_instruction_identity_bytes :: nat where "max_instruction_identity_bytes = 256"
definition max_instruction_version_bytes :: nat where "max_instruction_version_bytes = 64"
definition max_instruction_hash_bytes :: nat where "max_instruction_hash_bytes = 128"

datatype caller_error =
    EmptyField string
  | TooLong string nat nat
  | NotAbsolute string
  | NotSessionId
  | NotHostName
  | TooManyInstructions nat
  | NotJsonRpcId
  | NotAnObject string
  | BadForm
  | UnknownKey string string
  | MissingField string
  | NotText string
  | NotAList
  | EmptyInstructionList
  | HookHoldsSession
  | UnknownSource string
  | SourceMismatch
  | NotCanonicalJsonRpcId

datatype call_source = JsonRpcId | ToolUseId

fun call_source_str :: "call_source \<Rightarrow> string" where
  "call_source_str JsonRpcId = ''jsonrpc_id''"
| "call_source_str ToolUseId = ''tool_use_id''"

definition call_source_parse :: "string \<Rightarrow> call_source option" where
  "call_source_parse t =
     (if t = ''jsonrpc_id'' then Some JsonRpcId
      else if t = ''tool_use_id'' then Some ToolUseId
      else None)"

record call_identity =
  call_text :: string
  call_origin :: call_source

record instruction_evidence =
  i_identity :: string
  i_version :: string
  i_hash :: string

record caller_common =
  c_working_directory :: string
  c_host :: string
  c_call :: call_identity
  c_host_session :: "string option"
  c_work_order :: "string option"
  c_instructions :: "instruction_evidence list"

record server_caller =
  s_project_directory :: string
  s_baley_session :: string
  s_client_version :: "string option"
  s_common :: caller_common

record hook_caller =
  h_project_directory :: "string option"
  h_common :: caller_common

datatype caller = Server server_caller | Hook hook_caller

section \<open>Checked fields\<close>

definition text_field :: "string \<Rightarrow> string \<Rightarrow> nat \<Rightarrow> caller_error + string" where
  "text_field field text limit =
     (if text = [] then Inl (EmptyField field)
      else if length text > limit then Inl (TooLong field limit (length text))
      else Inr text)"

definition directory_field :: "string \<Rightarrow> string \<Rightarrow> caller_error + string" where
  "directory_field field text =
     rbind (text_field field text max_directory_bytes) (\<lambda>t.
       if hd t \<noteq> CHR ''/'' then Inl (NotAbsolute field) else Inr t)"

definition ascii_lowercase :: "char \<Rightarrow> bool" where
  "ascii_lowercase c \<longleftrightarrow> 97 \<le> (of_char c :: nat) \<and> (of_char c :: nat) \<le> 122"

definition host_name :: "string \<Rightarrow> caller_error + string" where
  "host_name text =
     rbind (text_field ''host'' text max_host_bytes) (\<lambda>t.
       if (case t of [] \<Rightarrow> False
           | c # r \<Rightarrow> ascii_lowercase c
               \<and> list_all (\<lambda>b. ascii_lowercase b \<or> is_digit b \<or> b = CHR ''-'') r)
       then Inr t else Inl NotHostName)"

definition lower_hex :: "char \<Rightarrow> bool" where
  "lower_hex c \<longleftrightarrow> is_digit c \<or> 97 \<le> (of_char c :: nat) \<and> (of_char c :: nat) \<le> 102"

definition session_id :: "string \<Rightarrow> caller_error + string" where
  "session_id text =
     rbind (text_field ''baley_session'' text baley_session_bytes) (\<lambda>t.
       if length t = baley_session_bytes
          \<and> list_all (\<lambda>(i, b). if i \<in> {8, 13, 18, 23} then b = CHR ''-'' else lower_hex b)
              (enumerate 0 t)
          \<and> t ! 14 = CHR ''4'' \<and> t ! 19 \<in> {CHR ''8'', CHR ''9'', CHR ''a'', CHR ''b''}
       then Inr t else Inl NotSessionId)"

definition host_session :: "string \<Rightarrow> caller_error + string" where
  "host_session text = text_field ''host_session'' text max_host_session_bytes"

definition work_order_field :: "string \<Rightarrow> caller_error + string" where
  "work_order_field text = text_field ''work_order'' text max_work_order_bytes"

section \<open>Construction\<close>

fun json_rpc_text :: "json \<Rightarrow> caller_error + string" where
  "json_rpc_text (JNumber t) =
     (case parse_i64 t of Some i \<Rightarrow> Inr (dec_int i) | None \<Rightarrow> Inl NotJsonRpcId)"
| "json_rpc_text (JString s) =
     (case canonical_json (JString s) of Inr b \<Rightarrow> Inr b | Inl _ \<Rightarrow> Inl NotJsonRpcId)"
| "json_rpc_text _ = Inl NotJsonRpcId"

definition json_rpc_id :: "(string \<Rightarrow> string option) \<Rightarrow> string \<Rightarrow> caller_error + json" where
  "json_rpc_id from_json_str text =
     rbind (if (case text of c # _ \<Rightarrow> c = CHR 0x22 | [] \<Rightarrow> False)
            then (case from_json_str text of Some s \<Rightarrow> Inr (JString s) | None \<Rightarrow> Inl NotCanonicalJsonRpcId)
            else (case parse_i64 text of Some i \<Rightarrow> Inr (JNumber (dec_int i)) | None \<Rightarrow> Inl NotCanonicalJsonRpcId))
       (\<lambda>i. if json_rpc_text i = Inr text then Inr i else Inl NotCanonicalJsonRpcId)"

definition call_json_rpc :: "json \<Rightarrow> caller_error + call_identity" where
  "call_json_rpc i =
     rbind (json_rpc_text i) (\<lambda>text.
     rbind (text_field ''call_identity'' text max_call_identity_bytes) (\<lambda>t.
       Inr \<lparr>call_text = t, call_origin = JsonRpcId\<rparr>))"

definition call_tool_use :: "string \<Rightarrow> caller_error + call_identity" where
  "call_tool_use text =
     rbind (text_field ''call_identity'' text max_call_identity_bytes) (\<lambda>t.
       Inr \<lparr>call_text = t, call_origin = ToolUseId\<rparr>)"

definition instruction_new :: "string \<Rightarrow> string \<Rightarrow> string \<Rightarrow> caller_error + instruction_evidence" where
  "instruction_new ident version h =
     rbind (text_field ''instruction_identity'' ident max_instruction_identity_bytes) (\<lambda>i.
     rbind (text_field ''instruction_version'' version max_instruction_version_bytes) (\<lambda>v.
     rbind (text_field ''instruction_hash'' h max_instruction_hash_bytes) (\<lambda>x.
       Inr \<lparr>i_identity = i, i_version = v, i_hash = x\<rparr>)))"

definition common_new :: "string \<Rightarrow> string \<Rightarrow> call_identity \<Rightarrow> caller_error + caller_common" where
  "common_new working_directory host call =
     rbind (directory_field ''working_directory'' working_directory) (\<lambda>w.
     rbind (host_name host) (\<lambda>h.
       Inr \<lparr>c_working_directory = w, c_host = h, c_call = call, c_host_session = None,
            c_work_order = None, c_instructions = []\<rparr>))"

definition set_instructions :: "instruction_evidence list \<Rightarrow> caller_common \<Rightarrow> caller_error + caller_common" where
  "set_instructions entries c =
     (if length entries > max_instructions then Inl (TooManyInstructions (length entries))
      else Inr (c\<lparr>c_instructions := entries\<rparr>))"

definition set_host_session :: "string \<Rightarrow> caller_common \<Rightarrow> caller_error + caller_common" where
  "set_host_session text c = rbind (host_session text) (\<lambda>s. Inr (c\<lparr>c_host_session := Some s\<rparr>))"

definition set_work_order :: "string \<Rightarrow> caller_common \<Rightarrow> caller_error + caller_common" where
  "set_work_order text c = rbind (work_order_field text) (\<lambda>s. Inr (c\<lparr>c_work_order := Some s\<rparr>))"

definition server_new :: "string \<Rightarrow> string \<Rightarrow> string \<Rightarrow> string \<Rightarrow> json \<Rightarrow> caller_error + server_caller" where
  "server_new project_directory working_directory host baley_session request =
     rbind (rbind (call_json_rpc request) (common_new working_directory host)) (\<lambda>c.
     rbind (directory_field ''project_directory'' project_directory) (\<lambda>p.
     rbind (session_id baley_session) (\<lambda>s.
       Inr \<lparr>s_project_directory = p, s_baley_session = s, s_client_version = None, s_common = c\<rparr>)))"

definition server_with_client_version :: "string \<Rightarrow> server_caller \<Rightarrow> caller_error + server_caller" where
  "server_with_client_version version s =
     rbind (text_field ''client_version'' version max_client_version_bytes) (\<lambda>v.
       Inr (s\<lparr>s_client_version := Some v\<rparr>))"

definition server_with :: "(caller_common \<Rightarrow> caller_error + caller_common) \<Rightarrow> server_caller \<Rightarrow> caller_error + server_caller" where
  "server_with f s = rbind (f (s_common s)) (\<lambda>c. Inr (s\<lparr>s_common := c\<rparr>))"

definition hook_new :: "string \<Rightarrow> string \<Rightarrow> string \<Rightarrow> caller_error + hook_caller" where
  "hook_new host working_directory tool_use_id =
     rbind (rbind (call_tool_use tool_use_id) (common_new working_directory host)) (\<lambda>c.
       Inr \<lparr>h_project_directory = None, h_common = c\<rparr>)"

definition hook_with_project_directory :: "string \<Rightarrow> hook_caller \<Rightarrow> caller_error + hook_caller" where
  "hook_with_project_directory text h =
     rbind (directory_field ''project_directory'' text) (\<lambda>d. Inr (h\<lparr>h_project_directory := Some d\<rparr>))"

definition hook_with :: "(caller_common \<Rightarrow> caller_error + caller_common) \<Rightarrow> hook_caller \<Rightarrow> caller_error + hook_caller" where
  "hook_with f h = rbind (f (h_common h)) (\<lambda>c. Inr (h\<lparr>h_common := c\<rparr>))"

section \<open>The encoding\<close>

definition opt_member :: "string \<Rightarrow> ('a \<Rightarrow> json) \<Rightarrow> 'a option \<Rightarrow> (string \<times> json) list" where
  "opt_member k f x = (case x of None \<Rightarrow> [] | Some y \<Rightarrow> [(k, f y)])"

definition instruction_to_value :: "instruction_evidence \<Rightarrow> json" where
  "instruction_to_value e =
     jobj [(''identity'', JString (i_identity e)), (''version'', JString (i_version e)),
           (''hash'', JString (i_hash e))]"

definition call_to_value :: "call_identity \<Rightarrow> json" where
  "call_to_value c =
     jobj [(''text'', JString (call_text c)), (''source'', JString (call_source_str (call_origin c)))]"

definition common_members :: "caller_common \<Rightarrow> (string \<times> json) list" where
  "common_members c =
     [(''working_directory'', JString (c_working_directory c)), (''host'', JString (c_host c)),
      (''call'', call_to_value (c_call c))]
     @ opt_member ''host_session'' JString (c_host_session c)
     @ opt_member ''work_order'' JString (c_work_order c)
     @ (if c_instructions c = [] then []
        else [(''instructions'', JArray (map instruction_to_value (c_instructions c)))])"

fun caller_members :: "caller \<Rightarrow> (string \<times> json) list" where
  "caller_members (Server s) =
     [(''form'', JString ''server''), (''project_directory'', JString (s_project_directory s)),
      (''baley_session'', JString (s_baley_session s))]
     @ opt_member ''client_version'' JString (s_client_version s)
     @ common_members (s_common s)"
| "caller_members (Hook h) =
     [(''form'', JString ''hook'')]
     @ opt_member ''project_directory'' JString (h_project_directory h)
     @ common_members (h_common h)"

definition caller_to_value :: "caller \<Rightarrow> json" where
  "caller_to_value c = jobj (caller_members c)"

section \<open>The decoder\<close>

type_synonym members = "(string \<times> json) list"

definition server_keys :: "string list" where
  "server_keys = [''form'', ''project_directory'', ''working_directory'', ''host'', ''baley_session'',
     ''call'', ''client_version'', ''host_session'', ''work_order'', ''instructions'']"

definition hook_keys :: "string list" where
  "hook_keys = [''form'', ''project_directory'', ''working_directory'', ''host'', ''call'',
     ''host_session'', ''work_order'', ''instructions'']"

definition call_keys :: "string list" where
  "call_keys = [''text'', ''source'']"

definition instruction_keys :: "string list" where
  "instruction_keys = [''identity'', ''version'', ''hash'']"

definition only_keys :: "string \<Rightarrow> members \<Rightarrow> string list \<Rightarrow> caller_error + unit" where
  "only_keys at m allowed =
     (case find (\<lambda>k. k \<notin> set allowed) (map fst m) of
        Some k \<Rightarrow> Inl (UnknownKey at k)
      | None \<Rightarrow> Inr ())"

definition optional :: "members \<Rightarrow> string \<Rightarrow> caller_error + string option" where
  "optional m field =
     (case map_of m field of
        None \<Rightarrow> Inr None
      | Some v \<Rightarrow> (case as_str v of Some t \<Rightarrow> Inr (Some t) | None \<Rightarrow> Inl (NotText field)))"

definition required :: "members \<Rightarrow> string \<Rightarrow> caller_error + string" where
  "required m field = rbind (optional m field) (ok_or (MissingField field))"

definition decode_call :: "members \<Rightarrow> call_source \<Rightarrow> caller_error + string" where
  "decode_call m expected =
     rbind (ok_or (MissingField ''call'') (map_of m ''call'')) (\<lambda>v.
     rbind (ok_or (NotAnObject ''call'') (as_object v)) (\<lambda>call.
     rbind (only_keys ''call'' call call_keys) (\<lambda>_.
     rbind (required call ''source'') (\<lambda>source.
       case call_source_parse source of
         None \<Rightarrow> Inl (UnknownSource source)
       | Some found \<Rightarrow>
           if found \<noteq> expected then Inl SourceMismatch else required call ''text''))))"

definition decode_instruction :: "json \<Rightarrow> caller_error + instruction_evidence" where
  "decode_instruction item =
     rbind (ok_or (NotAnObject ''instruction'') (as_object item)) (\<lambda>e.
     rbind (only_keys ''instruction'' e instruction_keys) (\<lambda>_.
     rbind (required e ''identity'') (\<lambda>i.
     rbind (required e ''version'') (\<lambda>v.
     rbind (required e ''hash'') (\<lambda>h. instruction_new i v h)))))"

definition decode_instructions :: "members \<Rightarrow> caller_error + instruction_evidence list option" where
  "decode_instructions m =
     (case map_of m ''instructions'' of
        None \<Rightarrow> Inr None
      | Some list \<Rightarrow>
          rbind (ok_or NotAList (as_array list)) (\<lambda>items.
            if items = [] then Inl EmptyInstructionList
            else if length items > max_instructions then Inl (TooManyInstructions (length items))
            else rbind (collect_results decode_instruction items) (\<lambda>es. Inr (Some es))))"

text \<open>\<open>if let Some(x) = read? { caller = with(x)? }\<close>\<close>

definition with_field :: "caller_error + 'x option \<Rightarrow> ('x \<Rightarrow> 'c \<Rightarrow> caller_error + 'c) \<Rightarrow> 'c \<Rightarrow> caller_error + 'c" where
  "with_field r f c = rbind r (\<lambda>x. case x of None \<Rightarrow> Inr c | Some y \<Rightarrow> f y c)"

definition decode_server :: "(string \<Rightarrow> string option) \<Rightarrow> members \<Rightarrow> caller_error + server_caller" where
  "decode_server from_json_str m =
     rbind (only_keys ''caller'' m server_keys) (\<lambda>_.
     rbind (decode_call m JsonRpcId) (\<lambda>text.
     rbind (required m ''project_directory'') (\<lambda>p.
     rbind (required m ''working_directory'') (\<lambda>w.
     rbind (required m ''host'') (\<lambda>h.
     rbind (required m ''baley_session'') (\<lambda>b.
     rbind (json_rpc_id from_json_str text) (\<lambda>i.
     rbind (server_new p w h b i) (\<lambda>c.
     rbind (with_field (optional m ''client_version'') server_with_client_version c) (\<lambda>c.
     rbind (with_field (optional m ''host_session'') (server_with \<circ> set_host_session) c) (\<lambda>c.
     rbind (with_field (optional m ''work_order'') (server_with \<circ> set_work_order) c) (\<lambda>c.
       with_field (decode_instructions m) (server_with \<circ> set_instructions) c)))))))))))"

definition decode_hook :: "members \<Rightarrow> caller_error + hook_caller" where
  "decode_hook m =
     (if map_of m ''baley_session'' \<noteq> None then Inl HookHoldsSession
      else
     rbind (only_keys ''caller'' m hook_keys) (\<lambda>_.
     rbind (decode_call m ToolUseId) (\<lambda>text.
     rbind (required m ''host'') (\<lambda>h.
     rbind (required m ''working_directory'') (\<lambda>w.
     rbind (hook_new h w text) (\<lambda>c.
     rbind (with_field (optional m ''project_directory'') hook_with_project_directory c) (\<lambda>c.
     rbind (with_field (optional m ''host_session'') (hook_with \<circ> set_host_session) c) (\<lambda>c.
     rbind (with_field (optional m ''work_order'') (hook_with \<circ> set_work_order) c) (\<lambda>c.
       with_field (decode_instructions m) (hook_with \<circ> set_instructions) c)))))))))"

definition caller_from_value :: "(string \<Rightarrow> string option) \<Rightarrow> json \<Rightarrow> caller_error + caller" where
  "caller_from_value from_json_str v =
     rbind (ok_or (NotAnObject ''caller'') (as_object v)) (\<lambda>m.
       case Option.bind (map_of m ''form'') as_str of
         Some form \<Rightarrow>
           if form = ''server'' then rbind (decode_server from_json_str m) (\<lambda>s. Inr (Server s))
           else if form = ''hook'' then rbind (decode_hook m) (\<lambda>h. Inr (Hook h))
           else Inl BadForm
       | None \<Rightarrow> Inl BadForm)"

section \<open>What construction guarantees\<close>

definition field_ok :: "nat \<Rightarrow> string \<Rightarrow> bool" where
  "field_ok limit t \<longleftrightarrow> t \<noteq> [] \<and> length t \<le> limit"

definition opt_ok :: "('a \<Rightarrow> bool) \<Rightarrow> 'a option \<Rightarrow> bool" where
  "opt_ok P x \<longleftrightarrow> (case x of None \<Rightarrow> True | Some y \<Rightarrow> P y)"

definition directory_ok :: "string \<Rightarrow> bool" where
  "directory_ok t \<longleftrightarrow> field_ok max_directory_bytes t \<and> hd t = CHR ''/''"

definition instruction_wf :: "instruction_evidence \<Rightarrow> bool" where
  "instruction_wf e \<longleftrightarrow> field_ok max_instruction_identity_bytes (i_identity e)
     \<and> field_ok max_instruction_version_bytes (i_version e)
     \<and> field_ok max_instruction_hash_bytes (i_hash e)"

definition common_wf :: "caller_common \<Rightarrow> bool" where
  "common_wf c \<longleftrightarrow> directory_ok (c_working_directory c) \<and> is_ok (host_name (c_host c))
     \<and> field_ok max_call_identity_bytes (call_text (c_call c))
     \<and> opt_ok (field_ok max_host_session_bytes) (c_host_session c)
     \<and> opt_ok (field_ok max_work_order_bytes) (c_work_order c)
     \<and> length (c_instructions c) \<le> max_instructions \<and> list_all instruction_wf (c_instructions c)"

definition json_rpc_call :: "string \<Rightarrow> bool" where
  "json_rpc_call t \<longleftrightarrow>
     (\<exists>s. t = write_string s) \<or> (\<exists>i. t = dec_int i \<and> - (2 ^ 63) \<le> i \<and> i < 2 ^ 63)"

definition server_wf :: "server_caller \<Rightarrow> bool" where
  "server_wf s \<longleftrightarrow> common_wf (s_common s) \<and> directory_ok (s_project_directory s)
     \<and> is_ok (session_id (s_baley_session s))
     \<and> opt_ok (field_ok max_client_version_bytes) (s_client_version s)
     \<and> call_origin (c_call (s_common s)) = JsonRpcId \<and> json_rpc_call (call_text (c_call (s_common s)))"

definition hook_wf :: "hook_caller \<Rightarrow> bool" where
  "hook_wf h \<longleftrightarrow> common_wf (h_common h) \<and> opt_ok directory_ok (h_project_directory h)
     \<and> call_origin (c_call (h_common h)) = ToolUseId"

fun caller_wf :: "caller \<Rightarrow> bool" where
  "caller_wf (Server s) = server_wf s"
| "caller_wf (Hook h) = hook_wf h"

lemma opt_ok_simps [simp]: "opt_ok P None" "opt_ok P (Some y) = P y"
  by (simp_all add: opt_ok_def)

lemma text_field_Inr [simp]: "text_field f t l = Inr u \<longleftrightarrow> u = t \<and> field_ok l t"
  by (auto simp: text_field_def field_ok_def)

lemma directory_field_Inr [simp]: "directory_field f t = Inr u \<longleftrightarrow> u = t \<and> directory_ok t"
  by (auto simp: directory_field_def directory_ok_def result_simps split: if_splits)

lemma is_ok_checked: "(\<And>u. f t = Inr u \<Longrightarrow> u = t) \<Longrightarrow> f t = Inr u \<longleftrightarrow> u = t \<and> is_ok (f t)"
  by (auto simp: is_ok_iff)

lemma host_name_Inr [simp]: "host_name t = Inr u \<longleftrightarrow> u = t \<and> is_ok (host_name t)"
  by (rule is_ok_checked) (auto simp: host_name_def result_simps split: if_splits)

lemma session_id_Inr [simp]: "session_id t = Inr u \<longleftrightarrow> u = t \<and> is_ok (session_id t)"
  by (rule is_ok_checked) (auto simp: session_id_def result_simps split: if_splits)

lemma canonical_json_string [simp]: "canonical_json (JString s) = Inr (write_string s)"
  by (simp add: canonical_json_def)

lemma json_rpc_text_call: "json_rpc_text i = Inr t \<Longrightarrow> json_rpc_call t"
  by (cases i) (auto simp: json_rpc_call_def dest: parse_i64_range split: option.splits)

lemma dec_int_no_quote: "dec_int i = c # r \<Longrightarrow> c \<noteq> CHR 0x22"
  using dec_hd_digit [of "nat i"] by (auto simp: dec_int_def is_digit_def split: if_splits)

lemma json_rpc_id_call:
  assumes "\<And>s. from_json_str (write_string s) = Some s" "json_rpc_call t"
  obtains i where "json_rpc_id from_json_str t = Inr i" "json_rpc_text i = Inr t"
  using assms(2) unfolding json_rpc_call_def
proof (elim disjE exE conjE)
  fix s assume t: "t = write_string s"
  then have "json_rpc_id from_json_str t = Inr (JString s)"
    using assms(1) by (simp add: json_rpc_id_def write_string_def)
  with t that show ?thesis by simp
next
  fix i assume t: "t = dec_int i" and r: "- (2 ^ 63) \<le> i" "i < 2 ^ 63"
  have p: "parse_i64 (dec_int i) = Some i" using r by (rule parse_i64_dec_int)
  then have "json_rpc_id from_json_str t = Inr (JNumber (dec_int i))"
    using dec_int_no_quote by (auto simp: json_rpc_id_def t split: list.split)
  with t p that show ?thesis by simp
qed

lemma json_rpc_id_Inr: "json_rpc_id p t = Inr i \<Longrightarrow> json_rpc_text i = Inr t"
  by (auto simp: json_rpc_id_def result_simps split: if_splits)

section \<open>Reading objects\<close>

lemma optional_Inr [simp]: "optional m k = Inr x \<longleftrightarrow> map_of m k = map_option JString x"
  by (cases x) (auto simp: optional_def split: option.splits)

lemma required_Inr [simp]: "required m k = Inr t \<longleftrightarrow> map_of m k = Some (JString t)"
  by (auto simp: required_def result_simps)

lemma only_keys_Inr [simp]:
  "only_keys at m ks = Inr u \<longleftrightarrow> (\<forall>k. k \<notin> set ks \<longrightarrow> map_of m k = None)"
  by (auto simp: only_keys_def find_None_iff map_of_eq_None_iff find_Some_iff image_iff
      split: option.splits) (metis nth_mem fst_conv image_eqI length_map nth_map)+

lemma with_field_Inr:
  "with_field r f c = Inr d \<longleftrightarrow> (\<exists>x. r = Inr x \<and> (case x of None \<Rightarrow> d = c | Some y \<Rightarrow> f y c = Inr d))"
  by (cases r) (auto simp: with_field_def split: option.splits)

lemma object_eqI:
  assumes "akeys_sorted m" "distinct (map fst kvs)" "\<forall>k. k \<notin> set ks \<longrightarrow> map_of m k = None"
    "fst ` set kvs \<subseteq> set ks" "\<forall>k \<in> set ks. map_of m k = map_of kvs k"
  shows "JObject m = jobj kvs"
proof (rule jobj_lookup [OF assms(1,2)])
  fix k
  show "map_of m k = map_of kvs k"
  proof (cases "k \<in> set ks")
    case True
    with assms(5) show ?thesis by blast
  next
    case False
    then have "k \<notin> fst ` set kvs" using assms(4) by blast
    then have "map_of kvs k = None" by (simp add: map_of_eq_None_iff)
    with False assms(3) show ?thesis by simp
  qed
qed

lemma instruction_to_value_get [simp]:
  "instruction_to_value e = JObject m \<Longrightarrow> map_of m k = map_of [(''identity'', JString (i_identity e)),
     (''version'', JString (i_version e)), (''hash'', JString (i_hash e))] k"
  by (auto simp: instruction_to_value_def jobj_def members_map_of)

lemma decode_instruction_iff:
  assumes "json_wf item"
  shows "decode_instruction item = Inr e \<longleftrightarrow> instruction_wf e \<and> item = instruction_to_value e"
proof
  assume "decode_instruction item = Inr e"
  then obtain m where m: "item = JObject m" "\<forall>k. k \<notin> set instruction_keys \<longrightarrow> map_of m k = None"
    "map_of m ''identity'' = Some (JString (i_identity e))" "map_of m ''version'' = Some (JString (i_version e))"
    "map_of m ''hash'' = Some (JString (i_hash e))" "instruction_wf e"
    by (auto simp: decode_instruction_def instruction_new_def instruction_wf_def result_simps)
  moreover have "JObject m = instruction_to_value e" unfolding instruction_to_value_def
    using assms m by (intro object_eqI [of m _ instruction_keys]) (auto simp: instruction_keys_def)
  ultimately show "instruction_wf e \<and> item = instruction_to_value e" by simp
next
  assume e: "instruction_wf e \<and> item = instruction_to_value e"
  then obtain m where m: "item = JObject m" by (auto simp: instruction_to_value_def jobj_def)
  with e have g: "map_of m k = map_of [(''identity'', JString (i_identity e)),
     (''version'', JString (i_version e)), (''hash'', JString (i_hash e))] k" for k
    using instruction_to_value_get by blast
  then have o: "only_keys a m instruction_keys = Inr ()" for a by (auto simp: instruction_keys_def)
  show "decode_instruction item = Inr e"
    using conjunct1 [OF e] unfolding decode_instruction_def m instruction_wf_def
    by (simp add: o g instruction_new_def result_simps)
qed

lemma decode_instructions_iff:
  assumes "json_wf (JObject m)"
  shows "decode_instructions m = Inr x \<longleftrightarrow>
      map_of m ''instructions'' = map_option (\<lambda>es. JArray (map instruction_to_value es)) x
    \<and> opt_ok (\<lambda>es. es \<noteq> [] \<and> length es \<le> max_instructions \<and> list_all instruction_wf es) x"
proof (cases "map_of m ''instructions''")
  case None
  then show ?thesis by (auto simp: decode_instructions_def opt_ok_def split: option.splits)
next
  case (Some v)
  then have v: "json_wf v" using assms by (auto dest!: map_of_SomeD)
  have c: "collect_results decode_instruction items = Inr es \<longleftrightarrow>
      items = map instruction_to_value es \<and> list_all instruction_wf es"
    if "\<forall>i \<in> set items. json_wf i" for items es
  proof -
    have "collect_results decode_instruction items = Inr es \<longleftrightarrow>
        list_all2 (\<lambda>i e. instruction_wf e \<and> i = instruction_to_value e) items es"
      unfolding collect_results_Inr_iff using that
      by (induction items arbitrary: es) (auto simp: list_all2_Cons1 decode_instruction_iff)
    also have "\<dots> \<longleftrightarrow> items = map instruction_to_value es \<and> list_all instruction_wf es"
      by (induction es arbitrary: items) (auto simp: list_all2_Cons2)
    finally show ?thesis .
  qed
  show ?thesis
  proof (cases x)
    case None
    with Some show ?thesis by (auto simp: decode_instructions_def result_simps split: if_splits)
  next
    case x: (Some es)
    show ?thesis
    proof
      assume "decode_instructions m = Inr x"
      then obtain items where "v = JArray items" "items \<noteq> []" "length items \<le> max_instructions"
        "collect_results decode_instruction items = Inr es"
        using Some x by (auto simp: decode_instructions_def result_simps split: if_splits)
      with c [of items es] v Some x show "map_of m ''instructions'' = map_option (\<lambda>es. JArray (map instruction_to_value es)) x
          \<and> opt_ok (\<lambda>es. es \<noteq> [] \<and> length es \<le> max_instructions \<and> list_all instruction_wf es) x"
        by auto
    next
      assume "map_of m ''instructions'' = map_option (\<lambda>es. JArray (map instruction_to_value es)) x
          \<and> opt_ok (\<lambda>es. es \<noteq> [] \<and> length es \<le> max_instructions \<and> list_all instruction_wf es) x"
      with Some x v c [of "map instruction_to_value es" es] show "decode_instructions m = Inr x"
        by (auto simp: decode_instructions_def)
    qed
  qed
qed

lemma call_source_parse_iff [simp]: "call_source_parse t = Some s \<longleftrightarrow> t = call_source_str s"
  by (cases s) (auto simp: call_source_parse_def)

lemma call_to_value_get:
  "call_to_value c = JObject m \<Longrightarrow> map_of m k =
     map_of [(''text'', JString (call_text c)), (''source'', JString (call_source_str (call_origin c)))] k"
  by (auto simp: call_to_value_def jobj_def members_map_of)

lemma decode_call_iff:
  assumes "json_wf (JObject m)"
  shows "decode_call m s = Inr t \<longleftrightarrow> map_of m ''call'' = Some (call_to_value \<lparr>call_text = t, call_origin = s\<rparr>)"
proof
  assume "decode_call m s = Inr t"
  then obtain c source where c: "map_of m ''call'' = Some (JObject c)"
    "\<forall>k. k \<notin> set call_keys \<longrightarrow> map_of c k = None"
    "map_of c ''source'' = Some (JString source)" "call_source_parse source = Some s"
    "map_of c ''text'' = Some (JString t)"
    by (auto simp: decode_call_def result_simps split: option.splits if_splits)
  moreover have "akeys_sorted c" using assms c(1) by (auto dest!: map_of_SomeD)
  ultimately have "JObject c = call_to_value \<lparr>call_text = t, call_origin = s\<rparr>" unfolding call_to_value_def
    by (intro object_eqI [of c _ call_keys]) (auto simp: call_keys_def)
  with c show "map_of m ''call'' = Some (call_to_value \<lparr>call_text = t, call_origin = s\<rparr>)" by simp
next
  assume c: "map_of m ''call'' = Some (call_to_value \<lparr>call_text = t, call_origin = s\<rparr>)"
  obtain n where n: "call_to_value \<lparr>call_text = t, call_origin = s\<rparr> = JObject n"
    by (auto simp: call_to_value_def jobj_def)
  from call_to_value_get [OF this] have g: "map_of n k =
     map_of [(''text'', JString t), (''source'', JString (call_source_str s))] k" for k by simp
  then have o: "only_keys a n call_keys = Inr ()" for a by (auto simp: call_keys_def)
  have src: "call_source_parse (call_source_str s) = Some s" by simp
  have "required n ''source'' = Inr (call_source_str s)" "required n ''text'' = Inr t"
    using g by auto
  then show "decode_call m s = Inr t"
    unfolding decode_call_def c n using src by (simp add: o del: call_source_parse_iff required_Inr)
qed

section \<open>The codec\<close>

lemma with_server_client_version:
  "with_field r server_with_client_version \<lparr>s_project_directory = p, s_baley_session = b, s_client_version = None, s_common = c\<rparr> = Inr d
   \<longleftrightarrow> (\<exists>x. r = Inr x \<and> opt_ok (field_ok max_client_version_bytes) x
         \<and> d = \<lparr>s_project_directory = p, s_baley_session = b, s_client_version = x, s_common = c\<rparr>)"
  by (auto simp: with_field_Inr server_with_client_version_def result_simps opt_ok_def split: option.splits)

lemma with_common:
  "with_field r (server_with \<circ> f) s = Inr d \<longleftrightarrow>
     (\<exists>c. with_field r f (s_common s) = Inr c \<and> d = s\<lparr>s_common := c\<rparr>)"
  "with_field r (hook_with \<circ> f) h = Inr e \<longleftrightarrow>
     (\<exists>c. with_field r f (h_common h) = Inr c \<and> e = h\<lparr>h_common := c\<rparr>)"
  by (cases r; auto simp: with_field_def server_with_def hook_with_def result_simps split: option.splits)+

lemma with_host_session:
  "with_field r set_host_session \<lparr>c_working_directory = w, c_host = h, c_call = i, c_host_session = None,
      c_work_order = o', c_instructions = n\<rparr> = Inr d
   \<longleftrightarrow> (\<exists>x. r = Inr x \<and> opt_ok (field_ok max_host_session_bytes) x
         \<and> d = \<lparr>c_working_directory = w, c_host = h, c_call = i, c_host_session = x,
             c_work_order = o', c_instructions = n\<rparr>)"
  by (auto simp: with_field_Inr set_host_session_def host_session_def result_simps opt_ok_def split: option.splits)

lemma with_work_order:
  "with_field r set_work_order \<lparr>c_working_directory = w, c_host = h, c_call = i, c_host_session = s,
      c_work_order = None, c_instructions = n\<rparr> = Inr d
   \<longleftrightarrow> (\<exists>x. r = Inr x \<and> opt_ok (field_ok max_work_order_bytes) x
         \<and> d = \<lparr>c_working_directory = w, c_host = h, c_call = i, c_host_session = s,
             c_work_order = x, c_instructions = n\<rparr>)"
  by (auto simp: with_field_Inr set_work_order_def work_order_field_def result_simps opt_ok_def split: option.splits)

definition instructions_field :: "instruction_evidence list \<Rightarrow> instruction_evidence list option" where
  "instructions_field es = (if es = [] then None else Some es)"

lemma with_instructions:
  assumes "json_wf (JObject m)"
  shows "with_field (decode_instructions m) set_instructions \<lparr>c_working_directory = w, c_host = h, c_call = i,
      c_host_session = s, c_work_order = o', c_instructions = []\<rparr> = Inr d
   \<longleftrightarrow> (\<exists>es. map_of m ''instructions'' = map_option (\<lambda>es. JArray (map instruction_to_value es)) (instructions_field es)
         \<and> length es \<le> max_instructions \<and> list_all instruction_wf es
         \<and> d = \<lparr>c_working_directory = w, c_host = h, c_call = i, c_host_session = s,
             c_work_order = o', c_instructions = es\<rparr>)"
proof -
  have "with_field (decode_instructions m) set_instructions c = Inr d \<longleftrightarrow>
      (\<exists>es. decode_instructions m = Inr (instructions_field es) \<and> length es \<le> max_instructions \<and> d = c\<lparr>c_instructions := es\<rparr>)"
    if "c_instructions c = []" for c
  proof
    assume "with_field (decode_instructions m) set_instructions c = Inr d"
    then obtain x where x: "decode_instructions m = Inr x"
      "case x of None \<Rightarrow> d = c | Some y \<Rightarrow> set_instructions y c = Inr d" by (auto simp: with_field_Inr)
    show "\<exists>es. decode_instructions m = Inr (instructions_field es) \<and> length es \<le> max_instructions \<and> d = c\<lparr>c_instructions := es\<rparr>"
    proof (cases x)
      case None
      with x that show ?thesis by (intro exI [of _ "[]"]) (simp add: instructions_field_def)
    next
      case (Some es)
      with x decode_instructions_iff [OF assms, of x] show ?thesis
        by (intro exI [of _ es]) (auto simp: instructions_field_def set_instructions_def split: if_splits)
    qed
  next
    assume "\<exists>es. decode_instructions m = Inr (instructions_field es) \<and> length es \<le> max_instructions \<and> d = c\<lparr>c_instructions := es\<rparr>"
    with that show "with_field (decode_instructions m) set_instructions c = Inr d"
      by (auto simp: with_field_Inr instructions_field_def set_instructions_def split: if_splits)
  qed
  moreover have "length es \<le> max_instructions \<Longrightarrow>
      decode_instructions m = Inr (instructions_field es) \<longleftrightarrow>
      map_of m ''instructions'' = map_option (\<lambda>es. JArray (map instruction_to_value es)) (instructions_field es)
      \<and> list_all instruction_wf es" for es
    by (auto simp: decode_instructions_iff [OF assms] instructions_field_def)
  ultimately show ?thesis by auto
qed

lemma common_members_instructions:
  "common_members c =
     [(''working_directory'', JString (c_working_directory c)), (''host'', JString (c_host c)),
      (''call'', call_to_value (c_call c))]
     @ opt_member ''host_session'' JString (c_host_session c)
     @ opt_member ''work_order'' JString (c_work_order c)
     @ opt_member ''instructions'' (\<lambda>es. JArray (map instruction_to_value es)) (instructions_field (c_instructions c))"
  by (simp add: common_members_def opt_member_def instructions_field_def)

lemma map_of_opt_member [simp]:
  "k' \<noteq> k \<Longrightarrow> (n ++ map_of (opt_member k f x)) k' = n k'"
  "n k = None \<Longrightarrow> (n ++ map_of (opt_member k f x)) k = map_option f x"
  "k' \<noteq> k \<Longrightarrow> map_of (opt_member k f x) k' = None"
  "map_of (opt_member k f x) k = map_option f x"
  by (auto simp: opt_member_def map_add_def split: option.splits)

lemma keys_opt_member [simp]: "map fst (opt_member k f x) = (if x = None then [] else [k])"
  by (auto simp: opt_member_def split: option.splits)

lemma caller_members_distinct [simp]: "distinct (map fst (caller_members c))"
  by (cases c) (auto simp: common_members_instructions)

lemma caller_members_keys:
  "fst ` set (caller_members (Server s)) \<subseteq> set server_keys"
  "fst ` set (caller_members (Hook h)) \<subseteq> set hook_keys"
  unfolding set_map [symmetric]
  by (auto simp: common_members_instructions server_keys_def hook_keys_def)

lemma caller_value_lookup: "JObject m = caller_to_value c \<Longrightarrow> map_of m k = map_of (caller_members c) k"
  by (auto simp: caller_to_value_def jobj_def members_map_of)

lemma decode_server_sound:
  assumes wf: "json_wf (JObject m)" and form: "map_of m ''form'' = Some (JString ''server'')"
    and d: "decode_server p m = Inr c"
  shows "server_wf c \<and> JObject m = caller_to_value (Server c)"
proof -
  obtain tx pd w h b i where
    keys: "\<forall>k. k \<notin> set server_keys \<longrightarrow> map_of m k = None"
    and call: "map_of m ''call'' = Some (call_to_value \<lparr>call_text = tx, call_origin = JsonRpcId\<rparr>)"
    and req: "map_of m ''project_directory'' = Some (JString pd)" "map_of m ''working_directory'' = Some (JString w)"
      "map_of m ''host'' = Some (JString h)" "map_of m ''baley_session'' = Some (JString b)"
    and i: "json_rpc_text i = Inr tx"
    and rest: "rbind (server_new pd w h b i) (\<lambda>c.
     rbind (with_field (optional m ''client_version'') server_with_client_version c) (\<lambda>c.
     rbind (with_field (optional m ''host_session'') (server_with \<circ> set_host_session) c) (\<lambda>c.
     rbind (with_field (optional m ''work_order'') (server_with \<circ> set_work_order) c) (\<lambda>c.
       with_field (decode_instructions m) (server_with \<circ> set_instructions) c)))) = Inr c"
    using d unfolding decode_server_def rbind_Inr_iff only_keys_Inr required_Inr decode_call_iff [OF wf]
    using json_rpc_id_Inr by blast
  have new: "server_new pd w h b i = Inr c0 \<Longrightarrow> field_ok max_call_identity_bytes tx \<and> directory_ok w \<and> is_ok (host_name h)
       \<and> directory_ok pd \<and> is_ok (session_id b)
       \<and> c0 = \<lparr>s_project_directory = pd, s_baley_session = b, s_client_version = None,
            s_common = \<lparr>c_working_directory = w, c_host = h, c_call = \<lparr>call_text = tx, call_origin = JsonRpcId\<rparr>,
              c_host_session = None, c_work_order = None, c_instructions = []\<rparr>\<rparr>" for c0
    using i
    by (auto simp: server_new_def call_json_rpc_def common_new_def result_simps)
  from rest obtain c0 c1 c2 c3 where c0: "server_new pd w h b i = Inr c0"
    and c1: "with_field (optional m ''client_version'') server_with_client_version c0 = Inr c1"
    and c2: "with_field (optional m ''host_session'') (server_with \<circ> set_host_session) c1 = Inr c2"
    and c3: "with_field (optional m ''work_order'') (server_with \<circ> set_work_order) c2 = Inr c3"
    and c4: "with_field (decode_instructions m) (server_with \<circ> set_instructions) c3 = Inr c"
    unfolding rbind_Inr_iff by blast
  note base = new [OF c0]
  obtain cv where cv: "map_of m ''client_version'' = map_option JString cv"
      "opt_ok (field_ok max_client_version_bytes) cv" "c1 = c0\<lparr>s_client_version := cv\<rparr>"
    using c1 base by (auto simp: with_server_client_version)
  obtain hs where hs: "map_of m ''host_session'' = map_option JString hs"
      "opt_ok (field_ok max_host_session_bytes) hs" "c2 = c1\<lparr>s_common := (s_common c1)\<lparr>c_host_session := hs\<rparr>\<rparr>"
    using c2 base cv(3) by (auto simp: with_common with_host_session)
  obtain wo where wo: "map_of m ''work_order'' = map_option JString wo"
      "opt_ok (field_ok max_work_order_bytes) wo" "c3 = c2\<lparr>s_common := (s_common c2)\<lparr>c_work_order := wo\<rparr>\<rparr>"
    using c3 base cv(3) hs(3) by (auto simp: with_common with_work_order)
  obtain es where es: "map_of m ''instructions'' = map_option (\<lambda>es. JArray (map instruction_to_value es)) (instructions_field es)"
      "length es \<le> max_instructions" "list_all instruction_wf es"
      "c = c3\<lparr>s_common := (s_common c3)\<lparr>c_instructions := es\<rparr>\<rparr>"
    using c4 base cv(3) hs(3) wo(3) by (auto simp: with_common with_instructions [OF wf])
  have c: "c = \<lparr>s_project_directory = pd, s_baley_session = b, s_client_version = cv,
            s_common = \<lparr>c_working_directory = w, c_host = h, c_call = \<lparr>call_text = tx, call_origin = JsonRpcId\<rparr>,
              c_host_session = hs, c_work_order = wo, c_instructions = es\<rparr>\<rparr>"
    using base cv(3) hs(3) wo(3) es(4) by simp
  note opts = cv(1) hs(1) wo(1) es(1) and oks = cv(2) hs(2) wo(2) es(2,3)
  have "server_wf c" using base oks json_rpc_text_call [OF i]
    by (simp add: server_wf_def common_wf_def c)
  moreover have "JObject m = jobj (caller_members (Server c))"
  proof (rule object_eqI [of m _ server_keys])
    show "akeys_sorted m" using wf by simp
    show "\<forall>k \<in> set server_keys. map_of m k = map_of (caller_members (Server c)) k"
      by (simp add: server_keys_def c common_members_instructions form call req opts)
  qed (rule caller_members_distinct keys caller_members_keys)+
  ultimately show ?thesis by (simp add: caller_to_value_def)
qed

lemma decode_server_complete:
  assumes p: "\<And>s. p (write_string s) = Some s"
    and wf: "json_wf (JObject m)" and v: "JObject m = caller_to_value (Server c)" and c: "server_wf c"
  shows "decode_server p m = Inr c"
proof -
  let ?e = "s_common c"
  have g: "map_of m k = map_of (caller_members (Server c)) k" for k
    using v by (rule caller_value_lookup)
  obtain i where i: "json_rpc_id p (call_text (c_call ?e)) = Inr i" "json_rpc_text i = Inr (call_text (c_call ?e))"
    using json_rpc_id_call [of p] p c by (auto simp: server_wf_def)
  have keys: "only_keys a m server_keys = Inr ()" for a
    using caller_members_keys(1) [of c] by (auto simp: g map_of_eq_None_iff simp del: caller_members.simps)
  have call: "decode_call m JsonRpcId = Inr (call_text (c_call ?e))"
    unfolding decode_call_iff [OF wf] g using c
    by (cases "c_call ?e") (simp add: common_members_instructions server_wf_def)
  have req: "required m ''project_directory'' = Inr (s_project_directory c)"
    "required m ''working_directory'' = Inr (c_working_directory ?e)"
    "required m ''host'' = Inr (c_host ?e)" "required m ''baley_session'' = Inr (s_baley_session c)"
    by (simp_all add: g common_members_instructions)
  have new: "server_new (s_project_directory c) (c_working_directory ?e) (c_host ?e) (s_baley_session c) i =
    Inr \<lparr>s_project_directory = s_project_directory c, s_baley_session = s_baley_session c, s_client_version = None,
      s_common = \<lparr>c_working_directory = c_working_directory ?e, c_host = c_host ?e, c_call = c_call ?e,
        c_host_session = None, c_work_order = None, c_instructions = []\<rparr>\<rparr>"
    using c i(2) by (cases "c_call ?e")
      (auto simp: server_new_def call_json_rpc_def common_new_def result_simps server_wf_def common_wf_def)
  have opts: "optional m ''client_version'' = Inr (s_client_version c)"
    "optional m ''host_session'' = Inr (c_host_session ?e)" "optional m ''work_order'' = Inr (c_work_order ?e)"
    by (simp_all add: g common_members_instructions)
  have ins: "map_of m ''instructions'' =
      map_option (\<lambda>es. JArray (map instruction_to_value es)) (instructions_field (c_instructions ?e))"
    by (simp add: g common_members_instructions)
  show ?thesis
    unfolding decode_server_def keys call req rbind.simps i new opts rbind_Inr_iff
    using c ins by (auto simp: with_common with_server_client_version with_host_session with_work_order
        with_instructions [OF wf] server_wf_def common_wf_def
        intro!: exI [of _ "s_common c"] exI [of _ "c_instructions (s_common c)"])
qed

lemma with_hook_project_directory:
  "with_field r hook_with_project_directory \<lparr>h_project_directory = None, h_common = c\<rparr> = Inr d
   \<longleftrightarrow> (\<exists>x. r = Inr x \<and> opt_ok directory_ok x \<and> d = \<lparr>h_project_directory = x, h_common = c\<rparr>)"
  by (auto simp: with_field_Inr hook_with_project_directory_def result_simps opt_ok_def split: option.splits)

lemma decode_hook_sound:
  assumes wf: "json_wf (JObject m)" and form: "map_of m ''form'' = Some (JString ''hook'')"
    and d: "decode_hook m = Inr c"
  shows "hook_wf c \<and> JObject m = caller_to_value (Hook c)"
proof -
  have none: "map_of m ''baley_session'' = None" using d by (auto simp: decode_hook_def split: if_splits)
  obtain tx w h where
    keys: "\<forall>k. k \<notin> set hook_keys \<longrightarrow> map_of m k = None"
    and call: "map_of m ''call'' = Some (call_to_value \<lparr>call_text = tx, call_origin = ToolUseId\<rparr>)"
    and req: "map_of m ''working_directory'' = Some (JString w)" "map_of m ''host'' = Some (JString h)"
    and rest: "rbind (hook_new h w tx) (\<lambda>c.
     rbind (with_field (optional m ''project_directory'') hook_with_project_directory c) (\<lambda>c.
     rbind (with_field (optional m ''host_session'') (hook_with \<circ> set_host_session) c) (\<lambda>c.
     rbind (with_field (optional m ''work_order'') (hook_with \<circ> set_work_order) c) (\<lambda>c.
       with_field (decode_instructions m) (hook_with \<circ> set_instructions) c)))) = Inr c"
    using d none unfolding decode_hook_def if_not_P [OF not_not [THEN iffD2, OF none]]
      rbind_Inr_iff only_keys_Inr required_Inr decode_call_iff [OF wf] by blast
  have new: "hook_new h w tx = Inr c0 \<Longrightarrow> field_ok max_call_identity_bytes tx \<and> directory_ok w \<and> is_ok (host_name h)
       \<and> c0 = \<lparr>h_project_directory = None,
            h_common = \<lparr>c_working_directory = w, c_host = h, c_call = \<lparr>call_text = tx, call_origin = ToolUseId\<rparr>,
              c_host_session = None, c_work_order = None, c_instructions = []\<rparr>\<rparr>" for c0
    by (auto simp: hook_new_def call_tool_use_def common_new_def result_simps)
  from rest obtain c0 c1 c2 c3 where c0: "hook_new h w tx = Inr c0"
    and c1: "with_field (optional m ''project_directory'') hook_with_project_directory c0 = Inr c1"
    and c2: "with_field (optional m ''host_session'') (hook_with \<circ> set_host_session) c1 = Inr c2"
    and c3: "with_field (optional m ''work_order'') (hook_with \<circ> set_work_order) c2 = Inr c3"
    and c4: "with_field (decode_instructions m) (hook_with \<circ> set_instructions) c3 = Inr c"
    unfolding rbind_Inr_iff by blast
  note base = new [OF c0]
  obtain pd where pd: "map_of m ''project_directory'' = map_option JString pd"
      "opt_ok directory_ok pd" "c1 = c0\<lparr>h_project_directory := pd\<rparr>"
    using c1 base by (auto simp: with_hook_project_directory)
  obtain hs where hs: "map_of m ''host_session'' = map_option JString hs"
      "opt_ok (field_ok max_host_session_bytes) hs" "c2 = c1\<lparr>h_common := (h_common c1)\<lparr>c_host_session := hs\<rparr>\<rparr>"
    using c2 base pd(3) by (auto simp: with_common with_host_session)
  obtain wo where wo: "map_of m ''work_order'' = map_option JString wo"
      "opt_ok (field_ok max_work_order_bytes) wo" "c3 = c2\<lparr>h_common := (h_common c2)\<lparr>c_work_order := wo\<rparr>\<rparr>"
    using c3 base pd(3) hs(3) by (auto simp: with_common with_work_order)
  obtain es where es: "map_of m ''instructions'' = map_option (\<lambda>es. JArray (map instruction_to_value es)) (instructions_field es)"
      "length es \<le> max_instructions" "list_all instruction_wf es"
      "c = c3\<lparr>h_common := (h_common c3)\<lparr>c_instructions := es\<rparr>\<rparr>"
    using c4 base pd(3) hs(3) wo(3) by (auto simp: with_common with_instructions [OF wf])
  have c: "c = \<lparr>h_project_directory = pd,
            h_common = \<lparr>c_working_directory = w, c_host = h, c_call = \<lparr>call_text = tx, call_origin = ToolUseId\<rparr>,
              c_host_session = hs, c_work_order = wo, c_instructions = es\<rparr>\<rparr>"
    using base pd(3) hs(3) wo(3) es(4) by simp
  note opts = pd(1) hs(1) wo(1) es(1) and oks = pd(2) hs(2) wo(2) es(2,3)
  have "hook_wf c" using base oks by (simp add: hook_wf_def common_wf_def c)
  moreover have "JObject m = jobj (caller_members (Hook c))"
  proof (rule object_eqI [of m _ hook_keys])
    show "akeys_sorted m" using wf by simp
    show "\<forall>k \<in> set hook_keys. map_of m k = map_of (caller_members (Hook c)) k"
      by (simp add: hook_keys_def c common_members_instructions form call req opts)
  qed (rule caller_members_distinct keys caller_members_keys)+
  ultimately show ?thesis by (simp add: caller_to_value_def)
qed

lemma decode_hook_complete:
  assumes wf: "json_wf (JObject m)" and v: "JObject m = caller_to_value (Hook c)" and c: "hook_wf c"
  shows "decode_hook m = Inr c"
proof -
  let ?e = "h_common c"
  have g: "map_of m k = map_of (caller_members (Hook c)) k" for k
    using v by (rule caller_value_lookup)
  have keys: "only_keys a m hook_keys = Inr ()" for a
    using caller_members_keys(2) [of c] by (auto simp: g map_of_eq_None_iff simp del: caller_members.simps)
  have none: "map_of m ''baley_session'' = None" by (simp add: g common_members_instructions)
  have call: "decode_call m ToolUseId = Inr (call_text (c_call ?e))"
    unfolding decode_call_iff [OF wf] g using c
    by (cases "c_call ?e") (simp add: common_members_instructions hook_wf_def)
  have req: "required m ''working_directory'' = Inr (c_working_directory ?e)" "required m ''host'' = Inr (c_host ?e)"
    by (simp_all add: g common_members_instructions)
  have new: "hook_new (c_host ?e) (c_working_directory ?e) (call_text (c_call ?e)) =
    Inr \<lparr>h_project_directory = None,
      h_common = \<lparr>c_working_directory = c_working_directory ?e, c_host = c_host ?e, c_call = c_call ?e,
        c_host_session = None, c_work_order = None, c_instructions = []\<rparr>\<rparr>"
    using c by (cases "c_call ?e")
      (auto simp: hook_new_def call_tool_use_def common_new_def result_simps hook_wf_def common_wf_def)
  have opts: "optional m ''project_directory'' = Inr (h_project_directory c)"
    "optional m ''host_session'' = Inr (c_host_session ?e)" "optional m ''work_order'' = Inr (c_work_order ?e)"
    by (simp_all add: g common_members_instructions)
  have ins: "map_of m ''instructions'' =
      map_option (\<lambda>es. JArray (map instruction_to_value es)) (instructions_field (c_instructions ?e))"
    by (simp add: g common_members_instructions)
  show ?thesis
    unfolding decode_hook_def if_not_P [OF not_not [THEN iffD2, OF none]] keys call req rbind.simps new opts rbind_Inr_iff
    using c ins by (auto simp: with_common with_hook_project_directory with_host_session with_work_order
        with_instructions [OF wf] hook_wf_def common_wf_def
        intro!: exI [of _ "h_common c"] exI [of _ "c_instructions (h_common c)"])
qed

lemma instruction_to_value_wf [simp]: "json_wf (instruction_to_value e)"
  by (simp add: instruction_to_value_def json_wf_jobj)

lemma call_to_value_wf [simp]: "json_wf (call_to_value c)"
  by (simp add: call_to_value_def json_wf_jobj)

lemma json_wf_opt_member [simp]:
  "(\<forall>p \<in> set (opt_member k f x). json_wf (snd p)) \<longleftrightarrow> opt_ok (\<lambda>y. json_wf (f y)) x"
  by (cases x) (auto simp: opt_member_def)

lemma caller_to_value_wf [simp]: "json_wf (caller_to_value c)"
proof -
  have "\<forall>p \<in> set (caller_members c). json_wf (snd p)"
    by (cases c) (auto simp: common_members_def opt_member_def split: option.splits)
  then show ?thesis by (simp add: caller_to_value_def json_wf_jobj)
qed

text \<open>The decoder accepts exactly the encodings of callers that construction admits.\<close>

lemma caller_from_value_iff:
  assumes p: "\<And>s. p (write_string s) = Some s" and wf: "json_wf v"
  shows "caller_from_value p v = Inr c \<longleftrightarrow> caller_wf c \<and> v = caller_to_value c"
proof
  assume "caller_from_value p v = Inr c"
  then obtain m form where m: "v = JObject m" and form: "map_of m ''form'' = Some (JString form)"
    and d: "(if form = ''server'' then rbind (decode_server p m) (\<lambda>s. Inr (Server s))
       else if form = ''hook'' then rbind (decode_hook m) (\<lambda>h. Inr (Hook h)) else Inl BadForm) = Inr c"
    unfolding caller_from_value_def by (auto simp: rbind_Inr_iff bind_eq_Some_conv split: option.splits)
  consider (server) s where "form = ''server''" "decode_server p m = Inr s" "c = Server s"
    | (hook) h where "form = ''hook''" "decode_hook m = Inr h" "c = Hook h"
    using d by (auto simp: rbind_Inr_iff split: if_splits)
  then show "caller_wf c \<and> v = caller_to_value c"
  proof cases
    case server
    with m form wf show ?thesis using decode_server_sound [of m p s] by simp
  next
    case hook
    with m form wf show ?thesis using decode_hook_sound [of m h] by simp
  qed
next
  assume c: "caller_wf c \<and> v = caller_to_value c"
  then obtain m where m: "v = JObject m" by (auto simp: caller_to_value_def jobj_def)
  have g: "map_of m k = map_of (caller_members c) k" for k
    using c m by (intro caller_value_lookup) simp
  show "caller_from_value p v = Inr c"
  proof (cases c)
    case (Server s)
    then have "decode_server p m = Inr s" using c m wf p by (intro decode_server_complete) auto
    then show ?thesis using Server m by (simp add: caller_from_value_def g)
  next
    case (Hook h)
    then have "decode_hook m = Inr h" using c m wf by (intro decode_hook_complete) auto
    then show ?thesis using Hook m by (simp add: caller_from_value_def g)
  qed
qed

lemma call_source_str_inject [simp]: "call_source_str a = call_source_str b \<longleftrightarrow> a = b"
  by (cases a; cases b) auto

lemma jobj_lookup_eq: "jobj kvs = jobj kvs' \<Longrightarrow> distinct (map fst kvs) \<Longrightarrow> distinct (map fst kvs') \<Longrightarrow>
    map_of kvs = map_of kvs'"
  by (rule ext) (rule jobj_inject)

lemma call_to_value_inject [simp]: "call_to_value a = call_to_value b \<longleftrightarrow> a = b"
proof
  assume "call_to_value a = call_to_value b"
  then have "map_of [(''text'', JString (call_text a)), (''source'', JString (call_source_str (call_origin a)))]
      = map_of [(''text'', JString (call_text b)), (''source'', JString (call_source_str (call_origin b)))]"
    unfolding call_to_value_def by (rule jobj_lookup_eq) simp_all
  from fun_cong [OF this, of "''text''"] fun_cong [OF this, of "''source''"] show "a = b" by simp
qed simp

lemma instruction_to_value_inject [simp]: "instruction_to_value a = instruction_to_value b \<longleftrightarrow> a = b"
proof
  assume "instruction_to_value a = instruction_to_value b"
  then have "map_of [(''identity'', JString (i_identity a)), (''version'', JString (i_version a)), (''hash'', JString (i_hash a))]
      = map_of [(''identity'', JString (i_identity b)), (''version'', JString (i_version b)), (''hash'', JString (i_hash b))]"
    unfolding instruction_to_value_def by (rule jobj_lookup_eq) simp_all
  from fun_cong [OF this, of "''identity''"] fun_cong [OF this, of "''version''"] fun_cong [OF this, of "''hash''"]
  show "a = b" by simp
qed simp

lemma map_option_JString_inject [simp]: "map_option JString x = map_option JString y \<longleftrightarrow> x = y"
  by (cases x; cases y) auto

lemma instructions_field_inject:
  "map_option (\<lambda>es. JArray (map instruction_to_value es)) (instructions_field es)
     = map_option (\<lambda>es. JArray (map instruction_to_value es)) (instructions_field es') \<longleftrightarrow> es = es'"
  by (auto simp: instructions_field_def inj_on_def dest: map_injective split: if_splits)

lemma caller_to_value_inject [simp]: "caller_to_value c = caller_to_value d \<longleftrightarrow> c = d"
proof
  assume "caller_to_value c = caller_to_value d"
  then have eq: "map_of (caller_members c) k = map_of (caller_members d) k" for k
    unfolding caller_to_value_def by (rule jobj_inject) simp_all
  note k = eq [of "''form''"] eq [of "''project_directory''"] eq [of "''working_directory''"] eq [of "''host''"]
    eq [of "''baley_session''"] eq [of "''call''"] eq [of "''client_version''"] eq [of "''host_session''"]
    eq [of "''work_order''"] eq [of "''instructions''"]
  show "c = d"
    using k by (cases c; cases d) (simp_all add: common_members_instructions instructions_field_inject)
qed simp

section \<open>What the constructors build\<close>

lemma server_new_wf: "server_new pd w h b i = Inr s \<Longrightarrow> server_wf s"
  by (auto simp: server_new_def call_json_rpc_def common_new_def result_simps server_wf_def common_wf_def
      dest: json_rpc_text_call)

lemma hook_new_wf: "hook_new h w t = Inr k \<Longrightarrow> hook_wf k"
  by (auto simp: hook_new_def call_tool_use_def common_new_def result_simps hook_wf_def common_wf_def)

lemma common_setters_wf:
  "common_wf c \<Longrightarrow> set_host_session t c = Inr d \<Longrightarrow> common_wf d \<and> c_call d = c_call c"
  "common_wf c \<Longrightarrow> set_work_order t c = Inr d \<Longrightarrow> common_wf d \<and> c_call d = c_call c"
  "common_wf c \<Longrightarrow> list_all instruction_wf es \<Longrightarrow> set_instructions es c = Inr d \<Longrightarrow> common_wf d \<and> c_call d = c_call c"
  by (auto simp: set_host_session_def set_work_order_def host_session_def work_order_field_def
      set_instructions_def result_simps common_wf_def split: if_splits)

lemma instruction_new_wf: "instruction_new i v h = Inr e \<Longrightarrow> instruction_wf e"
  by (auto simp: instruction_new_def instruction_wf_def result_simps)

lemma with_setters_wf:
  "server_wf s \<Longrightarrow> server_with_client_version t s = Inr s' \<Longrightarrow> server_wf s'"
  "hook_wf h \<Longrightarrow> hook_with_project_directory t h = Inr h' \<Longrightarrow> hook_wf h'"
  "server_wf s \<Longrightarrow> (\<And>d. f (s_common s) = Inr d \<Longrightarrow> common_wf d \<and> c_call d = c_call (s_common s)) \<Longrightarrow>
     server_with f s = Inr s' \<Longrightarrow> server_wf s'"
  "hook_wf h \<Longrightarrow> (\<And>d. f (h_common h) = Inr d \<Longrightarrow> common_wf d \<and> c_call d = c_call (h_common h)) \<Longrightarrow>
     hook_with f h = Inr h' \<Longrightarrow> hook_wf h'"
  by (fastforce simp: server_with_client_version_def hook_with_project_directory_def server_with_def hook_with_def
      result_simps server_wf_def hook_wf_def)+

text \<open>A reader of canonical string literals, one function the parameter \<open>from_json_str\<close> can be.\<close>

definition unhex :: "char \<Rightarrow> nat" where
  "unhex c = (if is_digit c then digit_val c else of_char c - 87)"

definition short_unescape :: "char \<Rightarrow> char" where
  "short_unescape c =
     (if c = CHR ''b'' then CHR 0x08 else if c = CHR ''t'' then CHR 0x09 else if c = CHR ''n'' then CHR 0x0A
      else if c = CHR ''f'' then CHR 0x0C else if c = CHR ''r'' then CHR 0x0D else c)"

fun read_body :: "string \<Rightarrow> string option" where
  "read_body [] = None"
| "read_body (c # s) =
     (if c = CHR 0x22 then (if s = [] then Some [] else None)
      else if c = CHR 0x5C then
        (case s of
           e # r \<Rightarrow>
             if e = CHR ''u'' then
               (case r of a # b # x # y # r' \<Rightarrow> map_option ((#) (char_of (unhex x * 16 + unhex y))) (read_body r')
                | _ \<Rightarrow> None)
             else map_option ((#) (short_unescape e)) (read_body r)
         | [] \<Rightarrow> None)
      else map_option ((#) c) (read_body s))"

definition read_literal :: "string \<Rightarrow> string option" where
  "read_literal s = (case s of c # r \<Rightarrow> if c = CHR 0x22 then read_body r else None | [] \<Rightarrow> None)"

lemma unhex_hex_digit [simp]: "k < 16 \<Longrightarrow> unhex (hex_digit k) = k"
  by (simp add: unhex_def hex_digit_def is_digit_def digit_val_def)

lemma unhex_control: "n < 256 \<Longrightarrow> unhex (hex_digit (n div 16 mod 16)) * 16 + unhex (hex_digit (n mod 16)) = n"
proof -
  assume "n < 256"
  then have "n div 16 mod 16 = n div 16" by simp
  then show ?thesis by simp
qed

lemma read_body_escape: "read_body (escape_char c @ s) = map_option ((#) c) (read_body s)"
proof (cases "escape_char c = [CHR 0x5C, CHR ''u''] @ hex4 (of_char c)")
  case True
  then have "(of_char c :: nat) < 32" by (auto simp: escape_char_def hex4_def split: if_splits)
  then have "unhex (hex_digit (of_char c div 16 mod 16)) * 16 + unhex (hex_digit (of_char c mod 16)) = of_char c"
    by (intro unhex_control) simp
  with True show ?thesis by (simp add: hex4_def)
next
  case False
  then show ?thesis by (auto simp: escape_char_def short_unescape_def)
qed

lemma read_literal_write [simp]: "read_literal (write_string s) = Some s"
proof -
  have "read_body (concat (map escape_char s) @ [CHR 0x22]) = Some s"
    by (induction s) (simp_all add: read_body_escape)
  then show ?thesis by (simp add: read_literal_def write_string_def)
qed

section \<open>The property of the caller's encoding\<close>

text \<open>C24: a caller has one strict encoding.  When \<open>serde_json\<close> reads back the string literals the
  canonical encoder writes, the decoder accepts a JSON value exactly when it is the encoding of a
  caller that the constructors admit, and yields that caller: every built caller is read back to
  an equal value, and no object with a missing, extra, misplaced or badly formed member is read
  as a caller.\<close>

theorem caller_codec_exact:
  assumes "\<forall>s. from_json_str (write_string s) = Some s" "json_wf v"
  shows "caller_from_value from_json_str v = Inr c \<longleftrightarrow> caller_wf c \<and> v = caller_to_value c"
  using caller_from_value_iff [of from_json_str v c] assms by blast

theorem caller_codec_exact_witness:
  "caller_from_value read_literal
     (caller_to_value (Hook \<lparr>h_project_directory = None, h_common = \<lparr>c_working_directory = ''/w'', c_host = ''claude-code'',
        c_call = \<lparr>call_text = ''toolu_1'', call_origin = ToolUseId\<rparr>, c_host_session = None,
        c_work_order = Some ''wo-1'', c_instructions = []\<rparr>\<rparr>))
   = Inr (Hook \<lparr>h_project_directory = None, h_common = \<lparr>c_working_directory = ''/w'', c_host = ''claude-code'',
        c_call = \<lparr>call_text = ''toolu_1'', call_origin = ToolUseId\<rparr>, c_host_session = None,
        c_work_order = Some ''wo-1'', c_instructions = []\<rparr>\<rparr>)" (is "_ (caller_to_value ?c) = Inr ?c")
proof -
  have "caller_wf ?c"
    by (simp add: hook_wf_def common_wf_def directory_ok_def field_ok_def max_directory_bytes_def host_name_def
        text_field_def max_host_bytes_def max_call_identity_bytes_def max_work_order_bytes_def max_instructions_def
        ascii_lowercase_def is_digit_def)
  then show ?thesis
    using caller_codec_exact [of read_literal "caller_to_value ?c" ?c] by simp
qed

end
