(* ===== verification/Event.thy ===== *)
theory Event
  imports Caller
begin

text \<open>
  Events (\<open>baley-store/src/event.rs\<close>) and the chain formula (\<open>chain_hash\<close> of
  \<open>baley-store/src/chain.rs\<close>).  SHA-256 is code outside the repository and is the parameter
  \<open>sha\<close>, a function from bytes to bytes; what is used of it is that a digest has 32 bytes.  The
  lemmas show that hex text and digests, actors and their text, and events and their hashed
  bytes determine each other: two events with the same preimage are the same event up to the
  spelling of integers in the payload.
\<close>

section \<open>Digests and actors\<close>

datatype hash = Hash (raw: string)

definition hash_wf :: "hash \<Rightarrow> bool" where
  "hash_wf h \<longleftrightarrow> length (raw h) = 32"

definition to_digit16 :: "char \<Rightarrow> nat option" where
  "to_digit16 c =
     (let n = (of_char c :: nat)
      in if 48 \<le> n \<and> n \<le> 57 then Some (n - 48)
         else if 97 \<le> n \<and> n \<le> 102 then Some (n - 87)
         else if 65 \<le> n \<and> n \<le> 70 then Some (n - 55)
         else None)"

fun hex_bytes :: "string \<Rightarrow> string option" where
  "hex_bytes (a # b # s) =
     (case to_digit16 a of
        None \<Rightarrow> None
      | Some high \<Rightarrow>
          (case to_digit16 b of
             None \<Rightarrow> None
           | Some low \<Rightarrow> map_option ((#) (char_of (high * 16 + low))) (hex_bytes s)))"
| "hex_bytes _ = Some []"

definition from_hex :: "string \<Rightarrow> hash option" where
  "from_hex text = (if length text \<noteq> 64 then None else map_option Hash (hex_bytes text))"

definition hex_byte :: "char \<Rightarrow> string" where
  "hex_byte c = [hex_digit (of_char c div 16), hex_digit (of_char c mod 16)]"

definition to_hex :: "hash \<Rightarrow> string" where
  "to_hex h = concat (map hex_byte (raw h))"

datatype actor_error = EmptyActor | Reserved string

definition agent_role_new :: "string \<Rightarrow> actor_error + string" where
  "agent_role_new role =
     (if role = [] then Inl EmptyActor
      else if role = ''owner'' \<or> role = ''baley'' then Inl (Reserved role)
      else Inr role)"

datatype actor = Owner | Baley | Agent string

fun actor_str :: "actor \<Rightarrow> string" where
  "actor_str Owner = ''owner''"
| "actor_str Baley = ''baley''"
| "actor_str (Agent role) = role"

definition actor_parse :: "string \<Rightarrow> actor_error + actor" where
  "actor_parse text =
     (if text = ''owner'' then Inr Owner
      else if text = ''baley'' then Inr Baley
      else rbind (agent_role_new text) (\<lambda>r. Inr (Agent r)))"

text \<open>An \<open>AgentRole\<close> is only built by its constructor.\<close>

fun actor_wf :: "actor \<Rightarrow> bool" where
  "actor_wf (Agent role) = (agent_role_new role = Inr role)"
| "actor_wf _ = True"

section \<open>Events\<close>

type_synonym project_id = string
type_synonym request_id = string

record git_facts =
  g_commit :: string
  g_tree :: string
  g_checkout :: string

record event_draft =
  d_stream :: string
  d_stream_version :: u64
  d_type_name :: string
  d_type_version :: u32
  d_actor :: actor
  d_caller :: "caller option"
  d_recorded_at :: string
  d_request_id :: request_id
  d_git :: "git_facts option"
  d_policy_version :: u64
  d_payload :: json

record event =
  project_id :: project_id
  seq :: u64
  stream :: string
  stream_version :: u64
  type_name :: string
  type_version :: u32
  actor :: actor
  event_caller :: "caller option"
  recorded_at :: string
  request_id :: request_id
  git :: "git_facts option"
  policy_version :: u64
  payload :: json
  prev_hash :: "hash option"
  event_hash :: hash

datatype seal_error =
    ZeroSequence
  | Link u64 bool
  | SealCanonical canonical_error

definition git_to_value :: "git_facts \<Rightarrow> json" where
  "git_to_value g =
     jobj [(''commit'', JString (g_commit g)), (''tree'', JString (g_tree g)),
           (''checkout'', JString (g_checkout g))]"

definition hash_or_null :: "hash option \<Rightarrow> json" where
  "hash_or_null h = (case h of Some h \<Rightarrow> JString (to_hex h) | None \<Rightarrow> JNull)"

definition envelope_members :: "event \<Rightarrow> members" where
  "envelope_members e =
     [(''project_id'', JString (project_id e)), (''seq'', jnum (seq e)),
      (''stream'', JString (stream e)), (''stream_version'', jnum (stream_version e)),
      (''type'', JString (type_name e)), (''type_version'', jnum32 (type_version e)),
      (''actor'', JString (actor_str (actor e)))]
     @ opt_member ''caller'' caller_to_value (event_caller e)
     @ [(''recorded_at'', JString (recorded_at e)), (''request_id'', JString (request_id e))]
     @ opt_member ''git'' git_to_value (git e)
     @ [(''policy_version'', jnum (policy_version e)), (''prev_hash'', hash_or_null (prev_hash e))]"

definition envelope :: "event \<Rightarrow> json" where
  "envelope e = jobj (envelope_members e)"

definition canonical_envelope :: "event \<Rightarrow> canonical_error + string" where
  "canonical_envelope e = canonical_json (envelope e)"

definition domain_prefix :: string where
  "domain_prefix = ''baley-ledger/1''"

definition chain_preimage :: "hash option \<Rightarrow> project_id \<Rightarrow> string \<Rightarrow> string \<Rightarrow> string" where
  "chain_preimage prev project env body =
     (case prev of None \<Rightarrow> domain_prefix @ project | Some h \<Rightarrow> raw h) @ env @ body"

definition chain_hash :: "(string \<Rightarrow> string) \<Rightarrow> hash option \<Rightarrow> project_id \<Rightarrow> string \<Rightarrow> string \<Rightarrow> hash" where
  "chain_hash sha prev project env body = Hash (sha (chain_preimage prev project env body))"

definition compute_hash :: "(string \<Rightarrow> string) \<Rightarrow> event \<Rightarrow> canonical_error + hash" where
  "compute_hash sha e =
     rbind (canonical_envelope e) (\<lambda>env.
     rbind (canonical_json (payload e)) (\<lambda>body.
       Inr (chain_hash sha (prev_hash e) (project_id e) env body)))"

definition place :: "project_id \<Rightarrow> u64 \<Rightarrow> hash option \<Rightarrow> event_draft \<Rightarrow> event" where
  "place project n prev d =
     \<lparr>project_id = project, seq = n, stream = d_stream d, stream_version = d_stream_version d,
      type_name = d_type_name d, type_version = d_type_version d, actor = d_actor d,
      event_caller = d_caller d, recorded_at = d_recorded_at d, request_id = d_request_id d,
      git = d_git d, policy_version = d_policy_version d, payload = d_payload d,
      prev_hash = prev, event_hash = Hash (replicate 32 (CHR 0x00))\<rparr>"

definition seal :: "(string \<Rightarrow> string) \<Rightarrow> project_id \<Rightarrow> u64 \<Rightarrow> hash option \<Rightarrow> event_draft \<Rightarrow> seal_error + event" where
  "seal sha project n prev d =
     (if n = 0 then Inl ZeroSequence
      else if (n = 1) = (prev \<noteq> None) then Inl (Link n (prev \<noteq> None))
      else rbind (map_err SealCanonical (compute_hash sha (place project n prev d))) (\<lambda>h.
             Inr ((place project n prev d)\<lparr>event_hash := h\<rparr>)))"

section \<open>Hexadecimal text\<close>

lemma to_digit16_hex_digit [simp]: "k < 16 \<Longrightarrow> to_digit16 (hex_digit k) = Some k"
  by (auto simp: to_digit16_def hex_digit_def Let_def)

lemma of_char_div16: "(of_char c :: nat) div 16 < 16"
  using nat_of_char_less_256 [of c] by (simp add: less_mult_imp_div_less)

lemma hex_bytes_hex_byte: "hex_bytes (hex_byte c @ s) = map_option ((#) c) (hex_bytes s)"
  by (simp add: hex_byte_def of_char_div16)

lemma hex_bytes_concat [simp]: "hex_bytes (concat (map hex_byte s)) = Some s"
  by (induction s) (simp_all add: hex_bytes_hex_byte)

lemma length_hex [simp]: "length (concat (map hex_byte s)) = 2 * length s"
  by (induction s) (simp_all add: hex_byte_def)

lemma length_to_hex: "hash_wf h \<Longrightarrow> length (to_hex h) = 64"
  by (simp add: to_hex_def hash_wf_def)

lemma from_hex_to_hex [simp]: "hash_wf h \<Longrightarrow> from_hex (to_hex h) = Some h"
  by (cases h) (simp add: from_hex_def to_hex_def hash_wf_def)

lemma hex_bytes_length: "hex_bytes s = Some b \<Longrightarrow> length b = length s div 2"
  by (induction s arbitrary: b rule: hex_bytes.induct) (auto split: option.splits)

lemma from_hex_wf: "from_hex s = Some h \<Longrightarrow> hash_wf h"
  by (auto simp: from_hex_def hash_wf_def dest: hex_bytes_length split: if_splits)

lemma to_hex_inject [simp]: "to_hex a = to_hex b \<longleftrightarrow> a = b"
  by (metis hash.exhaust_sel hex_bytes_concat option.inject to_hex_def)

section \<open>Actors\<close>

lemma agent_role_new_Inr [simp]:
  "agent_role_new t = Inr r \<longleftrightarrow> r = t \<and> t \<noteq> [] \<and> t \<noteq> ''owner'' \<and> t \<noteq> ''baley''"
  by (auto simp: agent_role_new_def)

lemma actor_parse_str [simp]: "actor_wf a \<Longrightarrow> actor_parse (actor_str a) = Inr a"
  by (cases a) (simp_all add: actor_parse_def result_simps)

lemma actor_parse_wf: "actor_parse t = Inr a \<Longrightarrow> actor_wf a \<and> t = actor_str a"
  by (auto simp: actor_parse_def result_simps split: if_splits)

lemma actor_parse_Inr: "actor_parse t = Inr a \<longleftrightarrow> actor_wf a \<and> t = actor_str a"
  using actor_parse_wf by auto

lemma actor_str_inject: "actor_wf a \<Longrightarrow> actor_wf b \<Longrightarrow> actor_str a = actor_str b \<longleftrightarrow> a = b"
  by (metis actor_parse_str sum.inject(2))

section \<open>What an envelope determines\<close>

lemma numbers_safe_jobj: "distinct (map fst kvs) \<Longrightarrow> numbers_safe (jobj kvs) \<longleftrightarrow> (\<forall>p \<in> set kvs. numbers_safe (snd p))"
  by (simp add: jobj_def set_members)

lemma norm_jobj_strings:
  assumes "distinct (map fst kvs)" "\<forall>p \<in> set kvs. norm_json (snd p) = snd p"
  shows "norm_json (jobj kvs) = jobj kvs"
proof -
  have "map norm_member kvs = kvs" using assms(2) by (intro map_idI) (auto simp: norm_member_def)
  with norm_jobj [OF assms(1)] show ?thesis by simp
qed

lemma set_opt_member: "p \<in> set (opt_member k f x) \<longleftrightarrow> (\<exists>y. x = Some y \<and> p = (k, f y))"
  by (auto simp: opt_member_def split: option.splits)

lemma norm_instruction [simp]: "norm_json (instruction_to_value e) = instruction_to_value e"
  unfolding instruction_to_value_def by (rule norm_jobj_strings) auto

lemma norm_call [simp]: "norm_json (call_to_value c) = call_to_value c"
  unfolding call_to_value_def by (rule norm_jobj_strings) auto

lemma norm_caller [simp]: "norm_json (caller_to_value c) = caller_to_value c"
  unfolding caller_to_value_def
  by (rule norm_jobj_strings [OF caller_members_distinct])
    (cases c; auto simp: common_members_def set_opt_member)

lemma norm_git [simp]: "norm_json (git_to_value g) = git_to_value g"
  unfolding git_to_value_def by (rule norm_jobj_strings) auto

lemma git_to_value_wf [simp]: "json_wf (git_to_value g)"
  by (simp add: git_to_value_def json_wf_jobj)

lemma norm_hash_or_null [simp]: "norm_json (hash_or_null h) = hash_or_null h"
  by (cases h) (simp_all add: hash_or_null_def)

lemma hash_or_null_wf [simp]: "json_wf (hash_or_null h)"
  by (cases h) (simp_all add: hash_or_null_def)

lemma hash_or_null_inject [simp]: "hash_or_null a = hash_or_null b \<longleftrightarrow> a = b"
  by (cases a; cases b) (simp_all add: hash_or_null_def)

lemma git_to_value_inject [simp]: "git_to_value a = git_to_value b \<longleftrightarrow> a = b"
proof
  assume "git_to_value a = git_to_value b"
  then have "map_of [(''commit'', JString (g_commit a)), (''tree'', JString (g_tree a)), (''checkout'', JString (g_checkout a))]
      = map_of [(''commit'', JString (g_commit b)), (''tree'', JString (g_tree b)), (''checkout'', JString (g_checkout b))]"
    unfolding git_to_value_def by (rule jobj_lookup_eq) simp_all
  from fun_cong [OF this, of "''commit''"] fun_cong [OF this, of "''tree''"] fun_cong [OF this, of "''checkout''"]
  show "a = b" by simp
qed simp

lemma envelope_members_distinct [simp]: "distinct (map fst (envelope_members e))"
  by (simp add: envelope_members_def)

lemma jnum_wf [simp]: "json_wf (jnum n)" "json_wf (jnum32 k)"
  by (simp_all add: jnum_def jnum32_def)

lemma envelope_wf [simp]: "json_wf (envelope e)"
  unfolding envelope_def json_wf_jobj [OF envelope_members_distinct]
  by (auto simp: envelope_members_def set_opt_member)

lemma norm_envelope:
  assumes "numbers_safe (envelope e)"
  shows "norm_json (envelope e) = envelope e"
proof -
  have "\<forall>p \<in> set (envelope_members e). numbers_safe (snd p)"
    using assms by (simp add: envelope_def numbers_safe_jobj)
  then have "\<forall>p \<in> set (envelope_members e). norm_json (snd p) = snd p"
    by (auto simp: envelope_members_def set_opt_member norm_jnum)
  then show ?thesis unfolding envelope_def by (intro norm_jobj_strings) simp_all
qed

text \<open>The part of an event its envelope carries.\<close>

definition header :: "event \<Rightarrow> event" where
  "header e = e\<lparr>payload := JNull, event_hash := Hash []\<rparr>"

lemma envelope_header: "envelope (header e) = envelope e"
  by (simp add: envelope_def envelope_members_def header_def)

lemma map_option_inj_iff: "inj f \<Longrightarrow> map_option f x = map_option f y \<longleftrightarrow> x = y"
  by (cases x; cases y) (auto simp: inj_eq)

lemma envelope_inject:
  assumes "actor_wf (actor e)" "actor_wf (actor f)"
  shows "envelope e = envelope f \<longleftrightarrow> header e = header f"
proof
  assume "envelope e = envelope f"
  then have eq: "map_of (envelope_members e) k = map_of (envelope_members f) k" for k
    unfolding envelope_def by (rule jobj_inject) simp_all
  note k = eq [of "''project_id''"] eq [of "''seq''"] eq [of "''stream''"] eq [of "''stream_version''"]
    eq [of "''type''"] eq [of "''type_version''"] eq [of "''actor''"] eq [of "''caller''"]
    eq [of "''recorded_at''"] eq [of "''request_id''"] eq [of "''git''"] eq [of "''policy_version''"]
    eq [of "''prev_hash''"]
  have "inj caller_to_value" "inj git_to_value" by (simp_all add: inj_def)
  then show "header e = header f"
    using k assms unfolding envelope_members_def header_def
    by (cases e; cases f) (simp add: actor_str_inject map_option_inj_iff)
next
  assume "header e = header f"
  then show "envelope e = envelope f" by (metis envelope_header)
qed

section \<open>What a preimage determines\<close>

definition event_wf :: "event \<Rightarrow> bool" where
  "event_wf e \<longleftrightarrow> actor_wf (actor e) \<and> json_wf (payload e) \<and> opt_ok hash_wf (prev_hash e)"

definition norm_event :: "event \<Rightarrow> event" where
  "norm_event e = e\<lparr>payload := norm_json (payload e)\<rparr>"

definition event_preimage :: "event \<Rightarrow> canonical_error + string" where
  "event_preimage e =
     rbind (canonical_envelope e) (\<lambda>env. rbind (canonical_json (payload e)) (\<lambda>body.
       Inr (chain_preimage (prev_hash e) (project_id e) env body)))"

lemma compute_hash_preimage: "compute_hash sha e = Inr h \<longleftrightarrow> (\<exists>x. event_preimage e = Inr x \<and> h = Hash (sha x))"
  by (auto simp: compute_hash_def event_preimage_def chain_hash_def result_simps)

text \<open>Equal preimages of two events, both with a predecessor or both the first of one project,
  are of equal events.\<close>

lemma event_preimage_unique:
  assumes wf: "event_wf e" "event_wf f"
    and pre: "event_preimage e = Inr x" "event_preimage f = Inr x"
    and kind: "(prev_hash e = None) = (prev_hash f = None)"
    and project: "prev_hash e = None \<Longrightarrow> project_id e = project_id f"
  shows "header e = header f \<and> norm_json (payload e) = norm_json (payload f)"
proof -
  obtain m n where mn: "envelope e = JObject m" "envelope f = JObject n"
    by (simp add: envelope_def jobj_def)
  obtain a b c d where a: "canonical_json (JObject m) = Inr a" "canonical_json (payload e) = Inr b"
    and c: "canonical_json (JObject n) = Inr c" "canonical_json (payload f) = Inr d"
    and x: "x = chain_preimage (prev_hash e) (project_id e) a b" "x = chain_preimage (prev_hash f) (project_id f) c d"
    using pre by (auto simp: event_preimage_def canonical_envelope_def mn result_simps)
  have "a @ b = c @ d"
    using x kind project wf
    by (cases "prev_hash e"; cases "prev_hash f") (auto simp: chain_preimage_def event_wf_def hash_wf_def)
  moreover have "json_wf (JObject m)" "json_wf (JObject n)" using envelope_wf [of e] envelope_wf [of f] by (simp_all only: mn)
  ultimately have eq: "norm_json (JObject m) = norm_json (JObject n)" "b = d"
    using canonical_json_unique_append a(1) c(1) by blast+
  have "numbers_safe (JObject m)" "numbers_safe (JObject n)" using a(1) c(1) canonical_json_ok by blast+
  with eq(1) have "envelope e = envelope f" using norm_envelope [of e] norm_envelope [of f] by (simp only: mn)
  then have "header e = header f" using envelope_inject wf by (simp add: event_wf_def)
  moreover have "norm_json (payload e) = norm_json (payload f)"
    using canonical_json_unique [OF a(2) _ c(2) [folded eq(2)]] wf by (simp add: event_wf_def)
  ultimately show ?thesis by simp
qed

lemma header_fields:
  "header e = header f \<Longrightarrow> seq e = seq f \<and> prev_hash e = prev_hash f \<and> project_id e = project_id f
     \<and> type_name e = type_name f \<and> stream e = stream f"
  by (cases e; cases f) (simp add: header_def)

lemma norm_event_eqI:
  "header e = header f \<Longrightarrow> norm_json (payload e) = norm_json (payload f) \<Longrightarrow> event_hash e = event_hash f \<Longrightarrow>
     norm_event e = norm_event f"
  by (cases e; cases f) (simp add: header_def norm_event_def)

text \<open>A sealed event carries the hash of its own fields.\<close>

lemma seal_Inr:
  "seal sha p n prev d = Inr e \<longleftrightarrow>
     n \<noteq> 0 \<and> (n = 1) = (prev = None)
     \<and> (\<exists>h. compute_hash sha (place p n prev d) = Inr h \<and> e = (place p n prev d)\<lparr>event_hash := h\<rparr>)"
  by (auto simp: seal_def result_simps)

lemma compute_hash_ignores_hash [simp]: "compute_hash sha (e\<lparr>event_hash := h\<rparr>) = compute_hash sha e"
  by (simp add: compute_hash_def canonical_envelope_def envelope_def envelope_members_def)

lemma seal_hash: "seal sha p n prev d = Inr e \<Longrightarrow> compute_hash sha e = Inr (event_hash e)"
  by (auto simp: seal_Inr)

lemma place_fields [simp]:
  "project_id (place p n prev d) = p" "seq (place p n prev d) = n" "prev_hash (place p n prev d) = prev"
  "payload (place p n prev d) = d_payload d" "actor (place p n prev d) = d_actor d"
  "type_name (place p n prev d) = d_type_name d" "stream (place p n prev d) = d_stream d"
  by (simp_all add: place_def)

end
