(* ===== verification/Anchor_Event.thy ===== *)
theory Anchor_Event
  imports Event
begin

text \<open>
  The anchor commands' identities and recorded payloads (\<open>baley-store/src/anchor.rs\<close>), with the
  command event names they refer to (\<open>claim.rs\<close>, \<open>request.rs\<close>).  Both payloads are interpreted
  as strict codecs: the decoder reads exactly what the encoder writes.
\<close>

definition anchor_push :: string where "anchor_push = ''anchor.push''"
definition anchor_reconcile :: string where "anchor_reconcile = ''anchor.reconcile''"
definition anchor_acknowledge_restore :: string where
  "anchor_acknowledge_restore = ''anchor.acknowledge_restore''"
definition anchor_scope :: string where "anchor_scope = ''anchor''"
definition anchor_stream :: string where "anchor_stream = ''project''"
definition anchor_pushed :: string where "anchor_pushed = ''anchor.pushed''"
definition anchor_pushed_version :: u32 where "anchor_pushed_version = 1"
definition anchor_failed :: string where "anchor_failed = ''anchor.failed''"
definition anchor_failed_version :: u32 where "anchor_failed_version = 1"
definition anchor_restore_acknowledged :: string where
  "anchor_restore_acknowledged = ''anchor.restore_acknowledged''"
definition anchor_restore_acknowledged_version :: u32 where "anchor_restore_acknowledged_version = 1"
definition anchor_tag_prefix :: string where "anchor_tag_prefix = ''baley-anchor/''"
definition command_claimed :: string where "command_claimed = ''command.claimed''"
definition command_reconciled :: string where "command_reconciled = ''command.reconciled''"
definition command_completed :: string where "command_completed = ''command.completed''"

definition anchor_tag :: "project_id \<Rightarrow> u64 \<Rightarrow> string" where
  "anchor_tag project n = anchor_tag_prefix @ project @ ''/'' @ dec_u64 n"

record anchor =
  a_seq :: u64
  a_hash :: hash

record anchor_pushed_payload =
  ap_tag :: string
  ap_seq :: u64
  ap_head :: hash
  ap_remote :: string
  ap_observed_at :: string

definition anchor_pushed_to_value :: "anchor_pushed_payload \<Rightarrow> json" where
  "anchor_pushed_to_value p =
     jobj [(''tag'', JString (ap_tag p)), (''seq'', jnum (ap_seq p)), (''head'', JString (to_hex (ap_head p))),
           (''remote'', JString (ap_remote p)), (''observed_at'', JString (ap_observed_at p))]"

text \<open>A hash member must be the lower case text of its digest.\<close>

definition exact_hash :: "string \<Rightarrow> hash option" where
  "exact_hash text = do { h \<leftarrow> from_hex text; if to_hex h \<noteq> text then None else Some h }"

definition anchor_pushed_from_value :: "json \<Rightarrow> anchor_pushed_payload option" where
  "anchor_pushed_from_value v = do {
     m \<leftarrow> as_object v;
     if length m \<noteq> 5 then None else do {
       head \<leftarrow> Option.bind (map_of m ''head'') as_str;
       h \<leftarrow> exact_hash head;
       tag \<leftarrow> Option.bind (map_of m ''tag'') as_str;
       n \<leftarrow> Option.bind (map_of m ''seq'') as_u64;
       remote \<leftarrow> Option.bind (map_of m ''remote'') as_str;
       at \<leftarrow> Option.bind (map_of m ''observed_at'') as_str;
       Some \<lparr>ap_tag = tag, ap_seq = n, ap_head = h, ap_remote = remote, ap_observed_at = at\<rparr> } }"

definition pushed_anchor :: "anchor_pushed_payload \<Rightarrow> anchor" where
  "pushed_anchor p = \<lparr>a_seq = ap_seq p, a_hash = ap_head p\<rparr>"

record restore_acknowledged_payload =
  ra_remote :: string
  ra_tag :: string
  ra_seq :: u64
  ra_head :: hash
  ra_restored_seq :: u64
  ra_restored_head :: "hash option"
  ra_checked_at :: string

definition restore_acknowledged_to_value :: "restore_acknowledged_payload \<Rightarrow> json" where
  "restore_acknowledged_to_value p =
     jobj [(''remote'', JString (ra_remote p)), (''tag'', JString (ra_tag p)), (''seq'', jnum (ra_seq p)),
           (''head'', JString (to_hex (ra_head p))), (''restored_seq'', jnum (ra_restored_seq p)),
           (''restored_head'', hash_or_null (ra_restored_head p)), (''checked_at'', JString (ra_checked_at p))]"

definition restored_head_from :: "json \<Rightarrow> hash option option" where
  "restored_head_from v =
     (case v of JNull \<Rightarrow> Some None
      | JString text \<Rightarrow> map_option Some (exact_hash text)
      | _ \<Rightarrow> None)"

definition restore_acknowledged_from_value :: "json \<Rightarrow> restore_acknowledged_payload option" where
  "restore_acknowledged_from_value v = do {
     m \<leftarrow> as_object v;
     if length m \<noteq> 7 then None else do {
       head_text \<leftarrow> Option.bind (map_of m ''head'') as_str;
       head \<leftarrow> exact_hash head_text;
       restored_head \<leftarrow> Option.bind (map_of m ''restored_head'') restored_head_from;
       remote \<leftarrow> Option.bind (map_of m ''remote'') as_str;
       tag \<leftarrow> Option.bind (map_of m ''tag'') as_str;
       n \<leftarrow> Option.bind (map_of m ''seq'') as_u64;
       restored_seq \<leftarrow> Option.bind (map_of m ''restored_seq'') as_u64;
       at \<leftarrow> Option.bind (map_of m ''checked_at'') as_str;
       Some \<lparr>ra_remote = remote, ra_tag = tag, ra_seq = n, ra_head = head,
             ra_restored_seq = restored_seq, ra_restored_head = restored_head, ra_checked_at = at\<rparr> } }"

definition acknowledged_anchor :: "restore_acknowledged_payload \<Rightarrow> anchor" where
  "acknowledged_anchor p = \<lparr>a_seq = ra_seq p, a_hash = ra_head p\<rparr>"

definition anchor_command_event :: "string \<Rightarrow> json \<Rightarrow> bool" where
  "anchor_command_event type body =
     (let kind = Option.bind (jget ''kind'' body) as_str
      in if type = anchor_pushed \<or> type = anchor_failed \<or> type = anchor_restore_acknowledged then True
         else if type = command_claimed \<or> type = command_reconciled then kind = Some anchor_push
         else if type = command_completed
         then kind \<in> {Some anchor_push, Some anchor_reconcile, Some anchor_acknowledge_restore}
         else False)"

section \<open>The codecs\<close>

lemma exact_hash_iff [simp]: "exact_hash t = Some h \<longleftrightarrow> hash_wf h \<and> t = to_hex h"
  by (auto simp: exact_hash_def bind_eq_Some_conv dest: from_hex_wf split: if_splits)

lemma restored_head_from_iff [simp]:
  "restored_head_from v = Some h \<longleftrightarrow> v = hash_or_null h \<and> opt_ok hash_wf h"
  by (cases h; cases v) (auto simp: restored_head_from_def hash_or_null_def)

definition anchor_pushed_wf :: "anchor_pushed_payload \<Rightarrow> bool" where
  "anchor_pushed_wf p \<longleftrightarrow> hash_wf (ap_head p)"

definition restore_acknowledged_wf :: "restore_acknowledged_payload \<Rightarrow> bool" where
  "restore_acknowledged_wf p \<longleftrightarrow> hash_wf (ra_head p) \<and> opt_ok hash_wf (ra_restored_head p)"

lemma numbers_safe_member: "numbers_safe (JObject m) \<Longrightarrow> map_of m k = Some v \<Longrightarrow> numbers_safe v"
  by (auto dest!: map_of_SomeD)

lemma as_u64_member:
  "numbers_safe (JObject m) \<Longrightarrow> map_of m k = Some v \<Longrightarrow> as_u64 v = Some n \<Longrightarrow> norm_json v = jnum n"
  using as_u64_norm numbers_safe_member by blast

interpretation pushed: strict_codec anchor_pushed_to_value anchor_pushed_from_value anchor_pushed_wf
proof unfold_locales
  fix x assume "anchor_pushed_wf x"
  then show "anchor_pushed_from_value (anchor_pushed_to_value x) = Some x"
    by (simp add: anchor_pushed_from_value_def anchor_pushed_to_value_def members_map_of members_length
        anchor_pushed_wf_def bind_eq_Some_conv)
next
  fix v x assume "json_wf v" "numbers_safe v" "anchor_pushed_from_value v = Some x"
  then show "anchor_pushed_to_value x = norm_json v"
    unfolding anchor_pushed_to_value_def
    by (auto simp: anchor_pushed_from_value_def bind_eq_Some_conv simp del: json_wf.simps numbers_safe.simps norm_json_JObject
        split: if_splits intro!: jobj_exact_norm) (rule as_u64_member, assumption+)+
next
  fix v x assume "anchor_pushed_from_value v = Some x"
  then show "anchor_pushed_wf x"
    by (auto simp: anchor_pushed_from_value_def bind_eq_Some_conv anchor_pushed_wf_def split: if_splits)
qed

interpretation restore_acknowledged: strict_codec restore_acknowledged_to_value restore_acknowledged_from_value
    restore_acknowledged_wf
proof unfold_locales
  fix x assume "restore_acknowledged_wf x"
  then show "restore_acknowledged_from_value (restore_acknowledged_to_value x) = Some x"
    by (simp add: restore_acknowledged_from_value_def restore_acknowledged_to_value_def members_map_of members_length
        restore_acknowledged_wf_def bind_eq_Some_conv)
next
  fix v x assume "json_wf v" "numbers_safe v" "restore_acknowledged_from_value v = Some x"
  then show "restore_acknowledged_to_value x = norm_json v"
    unfolding restore_acknowledged_to_value_def
    by (auto simp: restore_acknowledged_from_value_def bind_eq_Some_conv simp del: json_wf.simps numbers_safe.simps norm_json_JObject
        split: if_splits intro!: jobj_exact_norm) (rule as_u64_member, assumption+)+
next
  fix v x assume "restore_acknowledged_from_value v = Some x"
  then show "restore_acknowledged_wf x"
    by (auto simp: restore_acknowledged_from_value_def bind_eq_Some_conv restore_acknowledged_wf_def split: if_splits)
qed

lemma anchor_tag_inject: "anchor_tag p m = anchor_tag p n \<longleftrightarrow> m = n"
  by (simp add: anchor_tag_def)

end
