(* ===== verification/Utc_Time.thy ===== *)
theory Utc_Time
  imports Prelude
begin

text \<open>
  UTC instants (\<open>baley-store/src/time.rs\<close>): a count of seconds from the proleptic Gregorian
  day 0 used by \<open>civil_days\<close> and a nanosecond fraction.  \<open>from_unix\<close>, \<open>parse\<close>, \<open>plus_seconds\<close> and
  the \<open>Display\<close> form are translated with their checked 64-bit arithmetic written out on \<open>int\<close>.
  The lemmas show that the two calendar algorithms are inverse to each other on every day and
  every date, that the parser and the printer agree, and that every instant the code builds lies
  in the years 0000 to 9999.
\<close>

section \<open>Time\<close>

datatype time_error = TimeError

record utc_instant =
  seconds :: int
  nanos :: nat

definition i64_range :: "int \<Rightarrow> bool" where
  "i64_range x \<longleftrightarrow> - (2 ^ 63) \<le> x \<and> x < 2 ^ 63"

definition checked_add_i64 :: "int \<Rightarrow> int \<Rightarrow> int option" where
  "checked_add_i64 x y = (if i64_range (x + y) then Some (x + y) else None)"

definition civil_days :: "int \<Rightarrow> int \<Rightarrow> int \<Rightarrow> int" where
  "civil_days year month day =
     (let y = year - (if month \<le> 2 then 1 else 0);
          era = y div 400;
          yoe = y - era * 400;
          m = month + (if month > 2 then - 3 else 9);
          doy = (153 * m + 2) div 5 + day - 1;
          doe = yoe * 365 + yoe div 4 - yoe div 100 + doy
      in era * 146097 + doe)"

definition from_unix :: "int \<Rightarrow> nat \<Rightarrow> time_error + utc_instant" where
  "from_unix s n =
     rbind (ok_or TimeError (checked_add_i64 s (civil_days 1970 1 1 * 86400))) (\<lambda>t.
       if n \<ge> 1000000000 \<or> t < civil_days 0 1 1 * 86400 \<or> t \<ge> civil_days 10000 1 1 * 86400
       then Inl TimeError
       else Inr \<lparr>seconds = t, nanos = n\<rparr>)"

fun digits_from :: "nat \<Rightarrow> string \<Rightarrow> time_error + nat" where
  "digits_from n [] = Inr n"
| "digits_from n (c # s) =
     (if is_digit c then digits_from (n * 10 + digit_val c) s else Inl TimeError)"

definition digits :: "string \<Rightarrow> time_error + nat" where
  "digits s = digits_from 0 s"

definition slice :: "nat \<Rightarrow> nat \<Rightarrow> 'a list \<Rightarrow> 'a list" where
  "slice i j xs = take (j - i) (drop i xs)"

definition leap_year :: "nat \<Rightarrow> bool" where
  "leap_year y \<longleftrightarrow> y mod 4 = 0 \<and> (y mod 100 \<noteq> 0 \<or> y mod 400 = 0)"

definition month_days :: "nat \<Rightarrow> nat list" where
  "month_days year =
     [31, if leap_year year then 29 else 28, 31, 30, 31, 30, 31, 31, 30, 31, 30, 31]"

definition parse_fraction :: "string \<Rightarrow> time_error + nat" where
  "parse_fraction s =
     (case s of
        [] \<Rightarrow> Inr 0
      | c # fraction \<Rightarrow>
          if c = CHR ''.'' \<and> 1 \<le> length fraction \<and> length fraction \<le> 9
          then rbind (digits fraction) (\<lambda>f. Inr (f * 10 ^ (9 - length fraction)))
          else Inl TimeError)"

definition parse_instant :: "string \<Rightarrow> time_error + utc_instant" where
  "parse_instant b =
     (if length b < 20 \<or> b ! 4 \<noteq> CHR ''-'' \<or> b ! 7 \<noteq> CHR ''-'' \<or> b ! 10 \<noteq> CHR ''T''
         \<or> b ! 13 \<noteq> CHR '':'' \<or> b ! 16 \<noteq> CHR '':'' \<or> last b \<noteq> CHR ''Z''
      then Inl TimeError
      else rbind (digits (slice 0 4 b)) (\<lambda>year.
        rbind (digits (slice 5 7 b)) (\<lambda>month.
        rbind (digits (slice 8 10 b)) (\<lambda>day.
        rbind (digits (slice 11 13 b)) (\<lambda>hour.
        rbind (digits (slice 14 16 b)) (\<lambda>minute.
        rbind (digits (slice 17 19 b)) (\<lambda>second.
          if \<not> (1 \<le> month \<and> month \<le> 12) \<or> hour > 23 \<or> minute > 59 \<or> second > 59
          then Inl TimeError
          else if day = 0 \<or> day > month_days year ! (month - 1) then Inl TimeError
          else rbind (parse_fraction (slice 19 (length b - 1) b)) (\<lambda>n.
            Inr \<lparr>seconds = civil_days (int year) (int month) (int day) * 86400
                            + int (hour * 3600 + minute * 60 + second),
                 nanos = n\<rparr>))))))))"

definition plus_seconds :: "utc_instant \<Rightarrow> u64 \<Rightarrow> time_error + utc_instant" where
  "plus_seconds t s =
     rbind (if int (unat s) < 2 ^ 63 then Inr (int (unat s)) else Inl TimeError) (\<lambda>d.
       rbind (ok_or TimeError (checked_add_i64 (seconds t) d)) (\<lambda>r.
         if r > civil_days 9999 12 31 * 86400 + 86399 then Inl TimeError
         else Inr \<lparr>seconds = r, nanos = nanos t\<rparr>))"

definition instant_less_eq :: "utc_instant \<Rightarrow> utc_instant \<Rightarrow> bool" where
  "instant_less_eq s t \<longleftrightarrow> seconds s < seconds t \<or> (seconds s = seconds t \<and> nanos s \<le> nanos t)"

definition pad :: "nat \<Rightarrow> nat \<Rightarrow> string" where
  "pad w n = replicate (w - length (dec n)) (CHR ''0'') @ dec n"

definition civil_of_days :: "int \<Rightarrow> int \<times> int \<times> int" where
  "civil_of_days days =
     (let era = days div 146097;
          doe = days - era * 146097;
          yoe = (doe - doe div 1460 + doe div 36524 - doe div 146096) div 365;
          year = yoe + era * 400;
          doy = doe - (365 * yoe + yoe div 4 - yoe div 100);
          mp = (5 * doy + 2) div 153;
          day = doy - (153 * mp + 2) div 5 + 1;
          month = mp + (if mp < 10 then 3 else - 9)
      in (year + (if month \<le> 2 then 1 else 0), month, day))"

definition display_instant :: "utc_instant \<Rightarrow> string" where
  "display_instant t =
     (let (year, month, day) = civil_of_days (seconds t div 86400);
          time = nat (seconds t mod 86400)
      in pad 4 (nat year) @ ''-'' @ pad 2 (nat month) @ ''-'' @ pad 2 (nat day) @ ''T''
         @ pad 2 (time div 3600) @ '':'' @ pad 2 (time div 60 mod 60) @ '':'' @ pad 2 (time mod 60)
         @ ''.'' @ pad 9 (nanos t) @ ''Z'')"


section \<open>The calendar\<close>

definition year_start :: "int \<Rightarrow> int" where
  "year_start y = 365 * y + y div 4 - y div 100"

definition year_last :: "int \<Rightarrow> int" where
  "year_last y = (if y = 399 then 146096 else year_start (y + 1) - 1)"

definition days_scaled :: "int \<Rightarrow> int" where
  "days_scaled d = d - d div 1460 + d div 36524 - d div 146096"

lemma div_succ_ge: "0 < k \<Longrightarrow> d div k \<le> (d + 1) div (k::int)"
  by (simp add: zdiv_mono1)

lemma div_succ_le:
  assumes "0 < (k::int)"
  shows "(d + 1) div k \<le> d div k + 1"
proof -
  have "(d + 1) div k \<le> (d + k) div k" using assms by (intro zdiv_mono1) auto
  also have "\<dots> = d div k + 1" using assms by (intro div_add_self2) simp
  finally show ?thesis .
qed

lemma days_scaled_step:
  assumes "0 \<le> d" "d < 146096"
  shows "days_scaled d \<le> days_scaled (d + 1)"
proof (cases "d = 146095")
  case True
  then show ?thesis by (simp add: days_scaled_def)
next
  case False
  with assms have "d div 146096 = 0" "(d + 1) div 146096 = 0" by (simp_all add: div_pos_pos_trivial)
  with div_succ_le [of 1460 d] div_succ_ge [of 36524 d] show ?thesis
    unfolding days_scaled_def by linarith
qed

lemma days_scaled_mono:
  assumes "d \<le> e" "0 \<le> d" "e \<le> 146096"
  shows "days_scaled d \<le> days_scaled e"
  using assms
proof (induction e rule: int_ge_induct)
  case (step i)
  then have "days_scaled d \<le> days_scaled i" by simp
  also have "\<dots> \<le> days_scaled (i + 1)" using step by (intro days_scaled_step) auto
  finally show ?case .
qed simp

definition leap_int :: "int \<Rightarrow> bool" where
  "leap_int y \<longleftrightarrow> y mod 4 = 0 \<and> (y mod 100 \<noteq> 0 \<or> y mod 400 = 0)"

definition year_check :: "int \<Rightarrow> bool" where
  "year_check y \<longleftrightarrow>
     0 \<le> year_start y \<and> year_last y \<le> 146096
     \<and> 365 * y \<le> days_scaled (year_start y) \<and> days_scaled (year_last y) \<le> 365 * y + 364
     \<and> year_last y - year_start y = (if leap_int (y + 1) then 365 else 364)"

lemma year_check_all: "\<forall>y \<in> {0..399}. year_check y"
  by code_simp

lemma year_of_scaled:
  assumes "0 \<le> y" "y \<le> 399" "year_start y \<le> d" "d \<le> year_last y"
  shows "days_scaled d div 365 = y"
proof -
  have c: "year_check y" using year_check_all assms by auto
  then have "365 * y \<le> days_scaled d" "days_scaled d \<le> 365 * y + 364"
    using days_scaled_mono [of "year_start y" d] days_scaled_mono [of d "year_last y"] assms
    by (auto simp: year_check_def)
  then show ?thesis by (intro int_div_pos_eq [of _ 365 y "days_scaled d - 365 * y"]) auto
qed

text \<open>Every day of the 400-year era lies in exactly one of its years.\<close>

lemma year_of_day:
  assumes "0 \<le> d" "d \<le> 146096"
  obtains y where "0 \<le> y" "y \<le> 399" "year_start y \<le> d" "d \<le> year_last y"
proof -
  have "d < year_start (int n) \<Longrightarrow> n \<le> 399 \<Longrightarrow>
      \<exists>y. 0 \<le> y \<and> y < int n \<and> year_start y \<le> d \<and> d \<le> year_last y" for n
  proof (induction n)
    case 0
    with assms show ?case by (simp add: year_start_def)
  next
    case (Suc n)
    show ?case
    proof (cases "d < year_start (int n)")
      case True
      with Suc show ?thesis by force
    next
      case False
      with Suc.prems show ?thesis
        by (intro exI [of _ "int n"]) (auto simp: year_last_def add.commute)
    qed
  qed
  from this [of 399] that assms show ?thesis
  proof (cases "d < year_start 399")
    case True
    with \<open>d < year_start (int 399) \<Longrightarrow> 399 \<le> 399 \<Longrightarrow> _\<close> that show ?thesis by force
  next
    case False
    with assms that [of 399] show ?thesis by (simp add: year_last_def)
  qed
qed

definition month_of_doy :: "int \<Rightarrow> int" where
  "month_of_doy doy = (5 * doy + 2) div 153"

definition month_start :: "int \<Rightarrow> int" where
  "month_start mp = (153 * mp + 2) div 5"

definition month_len :: "int \<Rightarrow> int" where
  "month_len mp = (if mp = 11 then 29 else if mp \<in> {1, 3, 6, 8} then 30 else 31)"

definition doy_check :: "int \<Rightarrow> bool" where
  "doy_check doy \<longleftrightarrow>
     0 \<le> month_of_doy doy \<and> month_of_doy doy \<le> 11
     \<and> month_start (month_of_doy doy) \<le> doy
     \<and> doy - month_start (month_of_doy doy) < month_len (month_of_doy doy)
     \<and> (doy < 365 \<longrightarrow> month_of_doy doy = 11 \<longrightarrow> doy - month_start 11 < 28)"

lemma doy_check_all: "\<forall>doy \<in> {0..365}. doy_check doy"
  by code_simp

definition month_check :: "int \<Rightarrow> bool" where
  "month_check mp \<longleftrightarrow> (\<forall>k \<in> {0..<month_len mp}.
     month_of_doy (month_start mp + k) = mp \<and> 0 \<le> month_start mp + k \<and> month_start mp + k \<le> 365
     \<and> (mp = 11 \<and> k = 28 \<or> month_start mp + k \<le> 364))"

lemma month_check_all: "\<forall>mp \<in> {0..11}. month_check mp"
  by code_simp


text \<open>A day of an era as the code's date, and the date as the code's day.\<close>

definition civil_parts :: "int \<Rightarrow> int \<Rightarrow> int \<Rightarrow> int \<times> int \<times> int" where
  "civil_parts era y doy =
     (let mp = month_of_doy doy;
          month = mp + (if mp < 10 then 3 else - 9)
      in (y + era * 400 + (if month \<le> 2 then 1 else 0), month, doy - month_start mp + 1))"

definition doy_in_year :: "int \<Rightarrow> int \<Rightarrow> bool" where
  "doy_in_year y doy \<longleftrightarrow> 0 \<le> doy \<and> doy \<le> (if leap_int (y + 1) then 365 else 364)"

lemma doy_in_year_interval:
  assumes "0 \<le> y" "y \<le> 399"
  shows "doy_in_year y doy \<longleftrightarrow> year_start y \<le> year_start y + doy \<and> year_start y + doy \<le> year_last y"
proof -
  have "year_check y" using year_check_all assms by auto
  then show ?thesis by (auto simp: doy_in_year_def year_check_def split: if_splits)
qed

lemma civil_of_days_eq:
  "civil_of_days days =
     (let era = days div 146097;
          doe = days - era * 146097;
          y = days_scaled doe div 365
      in civil_parts era y (doe - year_start y))"
  unfolding civil_of_days_def civil_parts_def days_scaled_def year_start_def month_of_doy_def
    month_start_def Let_def by (rule refl)

lemma civil_of_days_parts:
  assumes "0 \<le> y" "y \<le> 399" "doy_in_year y doy"
  shows "civil_of_days (era * 146097 + year_start y + doy) = civil_parts era y doy"
proof -
  have iv: "year_start y \<le> year_start y + doy" "year_start y + doy \<le> year_last y"
    using assms doy_in_year_interval by auto
  have bounds: "0 \<le> year_start y" "year_last y \<le> 146096"
    using year_check_all assms(1,2) by (auto simp: year_check_def)
  define days where "days = era * 146097 + year_start y + doy"
  have "0 \<le> year_start y + doy" "year_start y + doy < 146097" using iv bounds by auto
  moreover have "days = 146097 * era + (year_start y + doy)" by (simp add: days_def)
  ultimately have era: "days div 146097 = era" by (intro int_div_pos_eq) auto
  have doe: "days - era * 146097 = year_start y + doy" by (simp add: days_def)
  have y: "days_scaled (year_start y + doy) div 365 = y" by (rule year_of_scaled [OF assms(1,2) iv])
  have "civil_of_days days = civil_parts era y (year_start y + doy - year_start y)"
    unfolding civil_of_days_eq Let_def era doe y ..
  then show ?thesis by (simp add: days_def)
qed

lemma civil_days_parts:
  assumes "0 \<le> y" "y \<le> 399" "doy_in_year y doy"
  shows "(\<lambda>(a, m, d). civil_days a m d) (civil_parts era y doy) = era * 146097 + year_start y + doy"
proof -
  have "doy_check doy" using doy_check_all assms by (auto simp: doy_in_year_def split: if_splits)
  then have mp: "0 \<le> month_of_doy doy" "month_of_doy doy \<le> 11" by (auto simp: doy_check_def)
  have "(y + era * 400) div 400 = era" using assms by (intro int_div_pos_eq [of _ 400 era y]) auto
  then show ?thesis using mp
    by (simp add: civil_parts_def civil_days_def Let_def year_start_def month_start_def algebra_simps)
qed

lemma days_decompose:
  obtains era y doy where "0 \<le> y" "y \<le> 399" "doy_in_year y doy"
    "days = era * 146097 + year_start y + doy"
proof -
  have r: "0 \<le> days mod 146097" "days mod 146097 \<le> 146096"
    using pos_mod_sign [of 146097 days] pos_mod_bound [of 146097 days] by linarith+
  then obtain y where y: "0 \<le> y" "y \<le> 399" "year_start y \<le> days mod 146097" "days mod 146097 \<le> year_last y"
    by (rule year_of_day)
  have "days = days div 146097 * 146097 + year_start y + (days mod 146097 - year_start y)" by simp
  moreover have "doy_in_year y (days mod 146097 - year_start y)"
    using y by (simp add: doy_in_year_interval)
  ultimately show ?thesis using that y(1,2) by blast
qed

theorem civil_days_of_days: "(\<lambda>(y, m, d). civil_days y m d) (civil_of_days days) = days"
proof -
  obtain era y doy where "0 \<le> y" "y \<le> 399" "doy_in_year y doy" "days = era * 146097 + year_start y + doy"
    by (rule days_decompose)
  then show ?thesis by (metis civil_days_parts civil_of_days_parts)
qed

text \<open>The dates the parser admits.\<close>

definition valid_date :: "nat \<Rightarrow> nat \<Rightarrow> nat \<Rightarrow> bool" where
  "valid_date y m d \<longleftrightarrow> 1 \<le> m \<and> m \<le> 12 \<and> 1 \<le> d \<and> d \<le> month_days y ! (m - 1)"

definition march_month :: "nat \<Rightarrow> int" where
  "march_month m = int m + (if m > 2 then - 3 else 9)"

definition march_year :: "nat \<Rightarrow> nat \<Rightarrow> int" where
  "march_year y m = int y - (if m \<le> 2 then 1 else 0)"

lemma int_mod_zero: "int y mod numeral k = 0 \<longleftrightarrow> y mod numeral k = 0"
proof -
  have "int y mod numeral k = int (y mod numeral k)" by (simp only: of_nat_mod of_nat_numeral)
  then show ?thesis by (simp only: of_nat_eq_0_iff)
qed

lemma leap_int_nat: "leap_int (int y) \<longleftrightarrow> leap_year y"
  by (simp only: leap_int_def leap_year_def int_mod_zero)

lemma leap_int_era: "leap_int (era * 400 + y) \<longleftrightarrow> leap_int y"
proof -
  have "(era * 400 + y) mod 4 = y mod 4" using mod_mult_self3 [of "era * 100" 4 y] by (simp add: mult.commute)
  moreover have "(era * 400 + y) mod 100 = y mod 100"
    using mod_mult_self3 [of "era * 4" 100 y] by (simp add: mult.commute)
  moreover have "(era * 400 + y) mod 400 = y mod 400" by (rule mod_mult_self3)
  ultimately show ?thesis by (simp only: leap_int_def)
qed

lemma month_days_cases:
  "m \<in> {1..12} \<Longrightarrow> int (month_days y ! (m - 1)) =
     (if m = 2 then (if leap_year y then 29 else 28) else month_len (march_month m))"
proof -
  assume "m \<in> {1..12}"
  then have "m = 1 \<or> m = 2 \<or> m = 3 \<or> m = 4 \<or> m = 5 \<or> m = 6 \<or> m = 7 \<or> m = 8 \<or> m = 9
      \<or> m = 10 \<or> m = 11 \<or> m = 12"
    unfolding atLeastAtMost_iff by arith
  then show ?thesis
    by (elim disjE) (simp_all add: month_days_def month_len_def march_month_def numeral_eq_Suc)
qed


lemma civil_parts_valid:
  assumes "0 \<le> y" "y \<le> 399" "doy_in_year y doy" "civil_parts era y doy = (a, m, d)" "0 \<le> a"
  shows "1 \<le> m \<and> 1 \<le> d \<and> valid_date (nat a) (nat m) (nat d)"
proof -
  have c: "doy_check doy" using doy_check_all assms(3) by (auto simp: doy_in_year_def split: if_splits)
  define mp where "mp = month_of_doy doy"
  have mp: "0 \<le> mp" "mp \<le> 11" "0 \<le> doy - month_start mp" "doy - month_start mp < month_len mp"
    "doy < 365 \<longrightarrow> mp = 11 \<longrightarrow> doy - month_start 11 < 28"
    using c by (auto simp: doy_check_def mp_def)
  have m: "m = mp + (if mp < 10 then 3 else - 9)" and d: "d = doy - month_start mp + 1"
    and a: "a = y + era * 400 + (if m \<le> 2 then 1 else 0)"
    using assms(4) by (auto simp: civil_parts_def Let_def mp_def)
  have m1: "1 \<le> m" "m \<le> 12" using mp(1,2) by (auto simp: m)
  then have mn: "nat m \<in> {1..12}" by auto
  have march: "march_month (nat m) = mp" using mp(1,2) by (auto simp: march_month_def m)
  have "d \<le> int (month_days (nat a) ! (nat m - 1))"
  proof (cases "m = 2")
    case True
    then have "mp = 11" using mp by (auto simp: m split: if_splits)
    have "leap_year (nat a)" if "d = 29"
    proof -
      have "doy = 365" using that mp assms(3) \<open>mp = 11\<close> d by (auto simp: doy_in_year_def split: if_splits)
      then have "leap_int (y + 1)" using assms(3) by (auto simp: doy_in_year_def split: if_splits)
      moreover have "a = era * 400 + (y + 1)" using True by (simp add: a)
      ultimately have "leap_int a" by (simp add: leap_int_era)
      with assms(5) show ?thesis by (metis int_nat_eq leap_int_nat)
    qed
    moreover have "d \<le> 29" using mp \<open>mp = 11\<close> by (simp add: d month_len_def)
    ultimately have "d \<le> (if leap_year (nat a) then 29 else 28)" by (cases "d = 29") auto
    then show ?thesis using month_days_cases [OF mn, of "nat a"] True by simp
  next
    case False
    with month_days_cases [OF mn, of "nat a"] march mp d show ?thesis by auto
  qed
  with mp m1 d show ?thesis by (auto simp: valid_date_def nat_le_iff)
qed

lemma valid_date_parts:
  assumes "valid_date a m d"
  obtains era y doy where "0 \<le> y" "y \<le> 399" "doy_in_year y doy"
    "civil_days (int a) (int m) (int d) = era * 146097 + year_start y + doy"
    "civil_parts era y doy = (int a, int m, int d)"
proof -
  have m: "m \<in> {1..12}" and d: "1 \<le> d" "int d \<le> int (month_days a ! (m - 1))"
    using assms by (auto simp: valid_date_def)
  define mp where "mp = march_month m"
  define k where "k = int d - 1"
  define era where "era = march_year a m div 400"
  define y where "y = march_year a m mod 400"
  have mp: "0 \<le> mp" "mp \<le> 11" using m by (auto simp: mp_def march_month_def)
  have y: "0 \<le> y" "y \<le> 399" using pos_mod_bound [of 400 "march_year a m"] by (simp_all add: y_def)
  have year: "march_year a m = era * 400 + y" by (simp add: era_def y_def)
  have two: "m = 2 \<longleftrightarrow> mp = 11" using m by (auto simp: mp_def march_month_def)
  have k: "0 \<le> k" "k < month_len mp" "mp = 11 \<Longrightarrow> \<not> leap_year a \<Longrightarrow> k < 28"
    using d month_days_cases [OF m, of a] two
    by (auto simp: k_def mp_def month_len_def split: if_splits)
  have mc: "month_of_doy (month_start mp + k) = mp" "0 \<le> month_start mp + k" "month_start mp + k \<le> 365"
      "mp = 11 \<and> k = 28 \<or> month_start mp + k \<le> 364"
    using month_check_all mp k(1,2) by (auto simp: month_check_def)
  have leap: "leap_int (y + 1)" if "mp = 11" "k = 28"
  proof -
    have "leap_year a" using k that by auto
    moreover have "int a = era * 400 + (y + 1)"
      using that(1) two year by (simp add: march_year_def)
    ultimately show ?thesis by (metis leap_int_era leap_int_nat)
  qed
  have doy: "doy_in_year y (month_start mp + k)" using mc leap by (auto simp: doy_in_year_def)
  have parts: "civil_parts era y (month_start mp + k) = (int a, int m, int d)"
    using mc(1) m year
    by (auto simp: civil_parts_def Let_def k_def mp_def march_month_def march_year_def split: if_splits)
  from civil_days_parts [OF y doy, of era] parts
  have "civil_days (int a) (int m) (int d) = era * 146097 + year_start y + (month_start mp + k)" by simp
  with y doy parts that show ?thesis by blast
qed

text \<open>The printer's calendar inverts the parser's on every date the parser admits.\<close>

lemma civil_of_civil_days:
  assumes "valid_date a m d"
  shows "civil_of_days (civil_days (int a) (int m) (int d)) = (int a, int m, int d)"
  using valid_date_parts [OF assms] by (metis civil_of_days_parts)

lemma month_of_doy_bounds: "doy_in_year y doy \<Longrightarrow> 0 \<le> month_of_doy doy \<and> month_of_doy doy \<le> 11"
proof -
  assume "doy_in_year y doy"
  then have "doy_check doy" using doy_check_all by (auto simp: doy_in_year_def split: if_splits)
  then show ?thesis by (simp add: doy_check_def)
qed

lemma year_last_below: "\<forall>y \<in> {0..398}. year_last y < year_start 399"
  by code_simp

definition first_day :: int where "first_day = civil_days 0 1 1"
definition end_day :: int where "end_day = civil_days 10000 1 1"

lemma first_day_value [simp]: "first_day = - 60"
  by (simp add: first_day_def civil_days_def Let_def)

lemma end_day_value [simp]: "end_day = 3652365"
  by (simp add: end_day_def civil_days_def Let_def)

lemma doy_before_january:
  assumes "month_of_doy doy < 10"
  shows "doy \<le> 305"
proof (rule ccontr)
  assume "\<not> doy \<le> 305"
  then have "1530 div 153 \<le> (5 * doy + 2) div 153" by (intro zdiv_mono1) auto
  with assms show False by (simp add: month_of_doy_def)
qed

lemma doy_from_january:
  assumes "10 \<le> month_of_doy doy"
  shows "306 \<le> doy"
proof (rule ccontr)
  assume "\<not> 306 \<le> doy"
  then have "(5 * doy + 2) div 153 \<le> 1527 div 153" by (intro zdiv_mono1) auto
  with assms show False by (simp add: month_of_doy_def)
qed

lemma civil_year_bounds:
  assumes "first_day \<le> days" "days < end_day" "civil_of_days days = (a, m, d)"
  shows "0 \<le> a \<and> a \<le> 9999"
proof -
  obtain era y doy where y: "0 \<le> y" "y \<le> 399" and doy: "doy_in_year y doy"
    and days: "days = era * 146097 + year_start y + doy" by (rule days_decompose)
  have parts: "civil_parts era y doy = (a, m, d)"
    using assms(3) civil_of_days_parts [OF y doy] by (simp add: days)
  have iv: "0 \<le> year_start y" "year_start y + doy \<le> year_last y" "year_last y \<le> 146096" "0 \<le> doy"
    using year_check_all y doy doy_in_year_interval [OF y] by (auto simp: year_check_def doy_in_year_def)
  have last: "y = 399 \<or> year_last y < year_start 399" using year_last_below y by force
  have start: "year_start 399 = 145731" by (simp add: year_start_def)
  show ?thesis
  proof (cases "month_of_doy doy < 10")
    case True
    then have a: "a = y + era * 400" using parts month_of_doy_bounds [OF doy]
      by (auto simp: civil_parts_def Let_def)
    have "year_start y + doy \<le> 145731 + 305"
      using last iv start doy_before_january [OF True] by force
    then have "0 \<le> era" "era \<le> 24" using assms(1,2) iv by (auto simp: days)
    with a y show ?thesis by auto
  next
    case False
    moreover have "month_of_doy doy \<le> 11" using month_of_doy_bounds [OF doy] by simp
    ultimately have a: "a = y + era * 400 + 1" using parts
      by (auto simp: civil_parts_def Let_def)
    have "306 \<le> doy" using False doy_from_january [of doy] by auto
    then have "- 1 \<le> era" "era \<le> 24" using assms(1,2) iv by (auto simp: days)
    moreover have "era = 24 \<Longrightarrow> y \<noteq> 399" using assms(2) \<open>306 \<le> doy\<close> start by (auto simp: days)
    moreover have "era = - 1 \<Longrightarrow> y = 399" using assms(1) last iv start by (auto simp: days)
    moreover have "era = - 1 \<or> era = 24 \<or> 0 \<le> era \<and> era \<le> 23"
      using \<open>- 1 \<le> era\<close> \<open>era \<le> 24\<close> by linarith
    ultimately show ?thesis using a y by (elim disjE) auto
  qed
qed


lemma civil_days_bounds:
  assumes "valid_date a m d" "a \<le> 9999"
  shows "first_day \<le> civil_days (int a) (int m) (int d) \<and> civil_days (int a) (int m) (int d) < end_day"
proof -
  obtain era y doy where y: "0 \<le> y" "y \<le> 399" and doy: "doy_in_year y doy"
    and days: "civil_days (int a) (int m) (int d) = era * 146097 + year_start y + doy"
    and parts: "civil_parts era y doy = (int a, int m, int d)"
    by (rule valid_date_parts [OF assms(1)])
  have iv: "0 \<le> year_start y" "year_start y + doy \<le> year_last y" "year_last y \<le> 146096" "0 \<le> doy"
    using year_check_all y doy doy_in_year_interval [OF y] by (auto simp: year_check_def doy_in_year_def)
  have last: "y = 399 \<or> year_last y < year_start 399" using year_last_below y by force
  have start: "year_start 399 = 145731" by (simp add: year_start_def)
  show ?thesis
  proof (cases "month_of_doy doy < 10")
    case True
    then have a: "int a = y + era * 400" using parts month_of_doy_bounds [OF doy]
      by (auto simp: civil_parts_def Let_def)
    have "year_start y + doy \<le> 145731 + 305"
      using last iv start doy_before_january [OF True] by force
    moreover have "0 \<le> era" "era \<le> 24" using a y assms(2) by auto
    ultimately show ?thesis using iv by (simp add: days)
  next
    case False
    then have a: "int a = y + era * 400 + 1" using parts month_of_doy_bounds [OF doy]
      by (auto simp: civil_parts_def Let_def)
    have jan: "306 \<le> doy" using False doy_from_january [of doy] by auto
    have "- 1 \<le> era" "era \<le> 24" using a y assms(2) by auto
    then have "era = - 1 \<or> era = 24 \<or> 0 \<le> era \<and> era \<le> 23" by linarith
    then show ?thesis
    proof (elim disjE)
      assume e: "era = - 1"
      then have "y = 399" using a y by linarith
      with e show ?thesis unfolding days using iv jan start by auto
    next
      assume e: "era = 24"
      then have "y \<noteq> 399" using a y assms(2) by linarith
      with e show ?thesis unfolding days using iv last start by auto
    next
      assume "0 \<le> era \<and> era \<le> 23"
      then show ?thesis using iv by (auto simp: days)
    qed
  qed
qed

section \<open>Digits\<close>

lemma digits_from_eq:
  "digits_from n s = (if list_all is_digit s then Inr (foldl (\<lambda>n c. n * 10 + digit_val c) n s) else Inl TimeError)"
  by (induction s arbitrary: n) auto

lemma digits_eq: "digits s = (if list_all is_digit s then Inr (undec s) else Inl TimeError)"
  by (simp add: digits_def digits_from_eq undec_def)

lemma undec_bound: "list_all is_digit s \<Longrightarrow> undec s < 10 ^ length s"
proof (induction s rule: rev_induct)
  case Nil
  then show ?case by (simp add: undec_def)
next
  case (snoc c s)
  then have "undec s * 10 + digit_val c < 10 ^ length s * 10" using digit_val_bound [of c] by simp
  then show ?case by (simp add: undec_append_digit mult.commute)
qed

lemma digits_bound: "digits s = Inr n \<Longrightarrow> n < 10 ^ length s"
  by (auto simp: digits_eq undec_bound split: if_splits)

lemma dec_length_le: "n < 10 ^ w \<Longrightarrow> 0 < w \<Longrightarrow> length (dec n) \<le> w"
proof (induction w arbitrary: n)
  case (Suc w)
  show ?case
  proof (cases "n < 10")
    case False
    then have "0 < w" using Suc.prems(1) by (cases w) auto
    moreover have "n div 10 < 10 ^ w" using Suc.prems(1) by (simp add: less_mult_imp_div_less mult.commute)
    ultimately show ?thesis using Suc.IH False by (simp add: dec.simps [of n])
  qed (simp add: dec.simps [of n])
qed simp

lemma length_pad [simp]: "n < 10 ^ w \<Longrightarrow> 0 < w \<Longrightarrow> length (pad w n) = w"
  using dec_length_le [of n w] by (simp add: pad_def)

lemma undec_zeros: "undec (replicate k (CHR ''0'') @ s) = undec s"
  by (induction k) (simp_all add: undec_def digit_val_def)

lemma digits_pad [simp]: "digits (pad w n) = Inr n"
proof -
  have "list_all is_digit (pad w n)"
    using dec_digits [of n] by (auto simp: pad_def list_all_iff is_digit_def)
  then show ?thesis by (simp add: digits_eq) (simp add: pad_def undec_zeros)
qed

section \<open>The parser and the printer\<close>

definition valid_instant :: "utc_instant \<Rightarrow> bool" where
  "valid_instant t \<longleftrightarrow>
     first_day * 86400 \<le> seconds t \<and> seconds t < end_day * 86400 \<and> nanos t < 1000000000"

lemma parse_instant_shape:
  assumes "length y = 4" "length m = 2" "length d = 2" "length h = 2" "length n = 2" "length s = 2"
  shows "parse_instant (y @ ''-'' @ m @ ''-'' @ d @ ''T'' @ h @ '':'' @ n @ '':'' @ s @ f @ ''Z'') =
     rbind (digits y) (\<lambda>year. rbind (digits m) (\<lambda>month. rbind (digits d) (\<lambda>day.
     rbind (digits h) (\<lambda>hour. rbind (digits n) (\<lambda>minute. rbind (digits s) (\<lambda>second.
       if \<not> (1 \<le> month \<and> month \<le> 12) \<or> hour > 23 \<or> minute > 59 \<or> second > 59
       then Inl TimeError
       else if day = 0 \<or> day > month_days year ! (month - 1) then Inl TimeError
       else rbind (parse_fraction f) (\<lambda>k.
         Inr \<lparr>seconds = civil_days (int year) (int month) (int day) * 86400
                         + int (hour * 3600 + minute * 60 + second), nanos = k\<rparr>)))))))"
    (is "parse_instant ?b = ?r")
proof -
  have *: "length b = 4 \<Longrightarrow> \<exists>c1 c2 c3 c4. b = [c1, c2, c3, c4]" "length b = 2 \<Longrightarrow> \<exists>c1 c2. b = [c1, c2]"
    for b :: string by (auto simp: length_Suc_conv numeral_eq_Suc)
  obtain y1 y2 y3 y4 where y: "y = [y1, y2, y3, y4]" using * assms by blast
  obtain m1 m2 where m: "m = [m1, m2]" using * assms by blast
  obtain d1 d2 where d: "d = [d1, d2]" using * assms by blast
  obtain h1 h2 where h: "h = [h1, h2]" using * assms by blast
  obtain n1 n2 where n: "n = [n1, n2]" using * assms by blast
  obtain s1 s2 where s: "s = [s1, s2]" using * assms by blast
  have "slice 19 (length ?b - 1) ?b = f" by (simp add: slice_def y m d h n s)
  moreover have "slice 0 4 ?b = y" "slice 5 7 ?b = m" "slice 8 10 ?b = d" "slice 11 13 ?b = h"
    "slice 14 16 ?b = n" "slice 17 19 ?b = s" by (simp_all add: slice_def y m d h n s)
  moreover have "\<not> (length ?b < 20 \<or> ?b ! 4 \<noteq> CHR ''-'' \<or> ?b ! 7 \<noteq> CHR ''-'' \<or> ?b ! 10 \<noteq> CHR ''T''
         \<or> ?b ! 13 \<noteq> CHR '':'' \<or> ?b ! 16 \<noteq> CHR '':'' \<or> last ?b \<noteq> CHR ''Z'')"
    by (simp add: y m d h n s)
  ultimately show ?thesis by (simp only: parse_instant_def if_False)
qed

lemma parse_padded:
  assumes "valid_date y m d" "y < 10 ^ 4" "m < 10 ^ 2" "d < 10 ^ 2" "h \<le> 23" "n \<le> 59" "s \<le> 59" "k < 10 ^ 9"
  shows "parse_instant (pad 4 y @ ''-'' @ pad 2 m @ ''-'' @ pad 2 d @ ''T'' @ pad 2 h @ '':'' @ pad 2 n
      @ '':'' @ pad 2 s @ (''.'' @ pad 9 k) @ ''Z'')
    = Inr \<lparr>seconds = civil_days (int y) (int m) (int d) * 86400 + int (h * 3600 + n * 60 + s), nanos = k\<rparr>"
proof -
  have frac: "parse_fraction (''.'' @ pad 9 k) = Inr k"
    using assms by (simp add: parse_fraction_def)
  have len: "length (pad 4 y) = 4" "length (pad 2 m) = 2" "length (pad 2 d) = 2" "length (pad 2 h) = 2"
      "length (pad 2 n) = 2" "length (pad 2 s) = 2"
    using assms by simp_all
  have "1 \<le> m" "m \<le> 12" "0 < d" "d \<le> month_days y ! (m - 1)"
    using assms(1) by (auto simp: valid_date_def)
  with assms show ?thesis
    unfolding parse_instant_shape [OF len] digits_pad rbind.simps frac by auto
qed

lemma display_instant_parse:
  assumes "valid_instant t"
  shows "parse_instant (display_instant t) = Inr t"
proof -
  define days where "days = seconds t div 86400"
  define rest where "rest = seconds t mod 86400"
  define time where "time = nat rest"
  have secs: "seconds t = days * 86400 + rest" by (simp add: days_def rest_def)
  have rest: "0 \<le> rest" "rest < 86400"
    using pos_mod_sign [of 86400 "seconds t"] pos_mod_bound [of 86400 "seconds t"] by (simp_all add: rest_def)
  then have time: "time < 86400" "int time = rest" by (simp_all add: time_def)
  have "- 60 * 86400 \<le> seconds t" "seconds t < 3652365 * 86400"
    using assms by (simp_all add: valid_instant_def)
  then have "- 60 \<le> days" "days < 3652365" using rest secs by linarith+
  then have range: "first_day \<le> days" "days < end_day" by simp_all
  obtain a m d where civil: "civil_of_days days = (a, m, d)" by (metis prod_cases3)
  have a: "0 \<le> a" "a \<le> 9999" using civil_year_bounds [OF range civil] by auto
  obtain era y doy where y: "0 \<le> y" "y \<le> 399" "doy_in_year y doy"
    "days = era * 146097 + year_start y + doy" by (rule days_decompose)
  with civil have "civil_parts era y doy = (a, m, d)" using civil_of_days_parts [of y doy era] by simp
  with y a have v: "1 \<le> m" "1 \<le> d" "valid_date (nat a) (nat m) (nat d)" using civil_parts_valid by auto
  then have bounds: "nat a < 10 ^ 4" "nat m < 10 ^ 2" "nat d < 10 ^ 2"
    "time div 3600 < 10 ^ 2" "time div 60 mod 60 < 10 ^ 2" "time mod 60 < 10 ^ 2" "nanos t < 10 ^ 9"
    using a time assms month_days_cases [of "nat m" "nat a"]
    by (auto simp: valid_date_def valid_instant_def month_len_def less_trans [OF mod_less_divisor] split: if_splits)
  have hms: "time div 3600 * 3600 + time div 60 mod 60 * 60 + time mod 60 = time"
  proof -
    have "time div 3600 = time div 60 div 60" by (simp add: div_mult2_eq [symmetric])
    then show ?thesis using div_mult_mod_eq [of time 60] div_mult_mod_eq [of "time div 60" 60] by linarith
  qed
  have days': "civil_days (int (nat a)) (int (nat m)) (int (nat d)) = days"
    using civil_days_of_days [of days] civil a v(1,2) by simp
  have le: "time div 3600 \<le> 23" "time div 60 mod 60 \<le> 59" "time mod 60 \<le> 59"
    using time(1) by (auto simp: less_Suc_eq_le [symmetric] less_mult_imp_div_less)
  have "display_instant t = pad 4 (nat a) @ ''-'' @ pad 2 (nat m) @ ''-'' @ pad 2 (nat d) @ ''T''
      @ pad 2 (time div 3600) @ '':'' @ pad 2 (time div 60 mod 60) @ '':'' @ pad 2 (time mod 60)
      @ (''.'' @ pad 9 (nanos t)) @ ''Z''"
    by (simp add: display_instant_def days_def [symmetric] rest_def [symmetric] time_def [symmetric] civil)
  also have "parse_instant \<dots> = Inr \<lparr>seconds = civil_days (int (nat a)) (int (nat m)) (int (nat d)) * 86400
      + int (time div 3600 * 3600 + time div 60 mod 60 * 60 + time mod 60), nanos = nanos t\<rparr>"
    by (rule parse_padded [OF v(3) bounds(1-3) le bounds(7)])
  also have "\<dots> = Inr t" unfolding days' hms time(2) using secs by (cases t) auto
  finally show ?thesis .
qed

lemma parse_instant_elim:
  assumes "parse_instant b = Inr t"
  obtains y m d h n s k where "digits (slice 0 4 b) = Inr y" "1 \<le> m" "m \<le> 12" "h \<le> 23" "n \<le> 59" "s \<le> 59"
    "0 < d" "d \<le> month_days y ! (m - 1)" "parse_fraction (slice 19 (length b - 1) b) = Inr k"
    "t = \<lparr>seconds = civil_days (int y) (int m) (int d) * 86400 + int (h * 3600 + n * 60 + s), nanos = k\<rparr>"
proof -
  have ite: "(if c then Inl TimeError else r) = Inr t \<longleftrightarrow> \<not> c \<and> r = Inr t" for c and r :: "time_error + utc_instant"
    by auto
  from assms obtain y m d h n s k where *: "digits (slice 0 4 b) = Inr y"
    "\<not> (\<not> (1 \<le> m \<and> m \<le> 12) \<or> h > 23 \<or> n > 59 \<or> s > 59)"
    "\<not> (d = 0 \<or> d > month_days y ! (m - 1))" "parse_fraction (slice 19 (length b - 1) b) = Inr k"
    "t = \<lparr>seconds = civil_days (int y) (int m) (int d) * 86400 + int (h * 3600 + n * 60 + s), nanos = k\<rparr>"
    unfolding parse_instant_def ite rbind_Inr_iff sum.inject by blast
  show ?thesis
    using *(2,3) by (intro that [OF *(1) _ _ _ _ _ _ _ *(4,5)]) simp_all
qed

lemma parse_instant_valid:
  assumes "parse_instant b = Inr t"
  shows "valid_instant t"
proof -
  obtain y m d h n s k where *: "digits (slice 0 4 b) = Inr y" "1 \<le> m" "m \<le> 12" "h \<le> 23" "n \<le> 59" "s \<le> 59"
    "0 < d" "d \<le> month_days y ! (m - 1)" "parse_fraction (slice 19 (length b - 1) b) = Inr k"
    "t = \<lparr>seconds = civil_days (int y) (int m) (int d) * 86400 + int (h * 3600 + n * 60 + s), nanos = k\<rparr>"
    by (rule parse_instant_elim [OF assms])
  have "length (slice 0 4 b) \<le> 4" by (simp add: slice_def)
  then have "y < 10 ^ 4"
    using digits_bound [OF *(1)] power_increasing [of "length (slice 0 4 b)" 4 "10::nat"] by simp
  moreover have "valid_date y m d" using * by (simp add: valid_date_def)
  ultimately have days: "first_day \<le> civil_days (int y) (int m) (int d)" "civil_days (int y) (int m) (int d) < end_day"
    using civil_days_bounds by auto
  have "k < 1000000000"
  proof -
    have "k < 10 ^ 9" if c: "c = CHR ''.''" "slice 19 (length b - 1) b = c # f" "1 \<le> length f" "length f \<le> 9"
      "digits f = Inr e" "k = e * 10 ^ (9 - length f)" for c f e
    proof -
      have "e * 10 ^ (9 - length f) < 10 ^ length f * 10 ^ (9 - length f)" using digits_bound [OF c(5)] by simp
      also have "\<dots> = 10 ^ 9" using c(4) by (simp add: power_add [symmetric])
      finally show ?thesis using c(6) by simp
    qed
    with *(9) show ?thesis by (auto simp: parse_fraction_def result_simps split: list.splits if_splits)
  qed
  moreover have "h * 3600 + n * 60 + s < 86400" using * by linarith
  ultimately show ?thesis using days *(10) by (auto simp: valid_instant_def)
qed

section \<open>Unix clocks and deadlines\<close>

lemma from_unix_eq:
  "from_unix s n =
     (if n < 1000000000 \<and> first_day * 86400 \<le> s + 719468 * 86400 \<and> s + 719468 * 86400 < end_day * 86400
      then Inr \<lparr>seconds = s + 719468 * 86400, nanos = n\<rparr> else Inl TimeError)"
proof -
  have c: "civil_days 1970 1 1 = 719468" "civil_days 0 1 1 = - 60" "civil_days 10000 1 1 = 3652365"
    by (simp_all add: civil_days_def Let_def)
  show ?thesis
    by (auto simp: from_unix_def c checked_add_i64_def ok_or_def i64_range_def)
qed

lemma from_unix_valid: "from_unix s n = Inr t \<Longrightarrow> valid_instant t"
  by (auto simp: from_unix_eq valid_instant_def split: if_splits)

lemma add_uint_le: "a \<le> b \<Longrightarrow> a \<le> b + uint (s :: u64)"
  by (rule add_increasing2) simp_all

lemma uint_pos_or_zero: "0 < uint (s :: u64) \<or> uint s = 0"
  using unsigned_greater_eq [of s] unfolding le_less by (metis)

lemma plus_seconds_eq:
  assumes "valid_instant t"
  shows "plus_seconds t s =
     (if seconds t + int (unat s) < end_day * 86400
      then Inr \<lparr>seconds = seconds t + int (unat s), nanos = nanos t\<rparr> else Inl TimeError)"
proof -
  have c: "civil_days 9999 12 31 = 3652364" by (simp add: civil_days_def Let_def)
  show ?thesis
    using assms
    by (auto simp: plus_seconds_def c checked_add_i64_def ok_or_def i64_range_def valid_instant_def
        intro!: add_uint_le)
qed

lemma plus_seconds_valid: "valid_instant t \<Longrightarrow> plus_seconds t s = Inr u \<Longrightarrow> valid_instant u"
  by (auto simp: plus_seconds_eq valid_instant_def intro!: add_uint_le split: if_splits)

lemma plus_seconds_later: "valid_instant t \<Longrightarrow> plus_seconds t s = Inr u \<Longrightarrow> instant_less_eq t u"
  using uint_pos_or_zero [of s] by (auto simp: plus_seconds_eq instant_less_eq_def split: if_splits)

lemma instant_less_eq_refl [simp]: "instant_less_eq t t"
  by (simp add: instant_less_eq_def)

lemma instant_less_eq_trans: "instant_less_eq r s \<Longrightarrow> instant_less_eq s t \<Longrightarrow> instant_less_eq r t"
  by (auto simp: instant_less_eq_def)

lemma instant_less_eq_total: "instant_less_eq s t \<or> instant_less_eq t s"
  by (auto simp: instant_less_eq_def)

lemma instant_less_eq_antisym: "instant_less_eq s t \<Longrightarrow> instant_less_eq t s \<Longrightarrow> s = t"
  by (cases s; cases t) (auto simp: instant_less_eq_def)

text \<open>The printed form is the instant's identity.\<close>

lemma display_instant_inject:
  "valid_instant s \<Longrightarrow> valid_instant t \<Longrightarrow> display_instant s = display_instant t \<longleftrightarrow> s = t"
  by (metis display_instant_parse sum.inject(2))

section \<open>The properties of instants\<close>

text \<open>C22: printing and parsing are inverse.  Every instant of the years 0000 to 9999 is printed in a
  form the parser reads back to the same instant, and every text the parser accepts denotes such
  an instant, so a recorded time survives any number of prints and parses.\<close>

theorem instant_roundtrip:
  "(valid_instant t \<longrightarrow> parse_instant (display_instant t) = Inr t)
   \<and> (parse_instant b = Inr u \<longrightarrow> valid_instant u \<and> parse_instant (display_instant u) = Inr u)"
  using display_instant_parse parse_instant_valid by blast

theorem instant_roundtrip_witness:
  "parse_instant (display_instant \<lparr>seconds = 63000000000, nanos = 5\<rparr>) = Inr \<lparr>seconds = 63000000000, nanos = 5\<rparr>
   \<and> parse_instant ''2024-02-29T23:59:59.5Z'' = Inr \<lparr>seconds = 63871286399, nanos = 500000000\<rparr>
   \<and> parse_instant (display_instant \<lparr>seconds = 63871286399, nanos = 500000000\<rparr>)
       = Inr \<lparr>seconds = 63871286399, nanos = 500000000\<rparr>"
proof -
  have p: "parse_instant ''2024-02-29T23:59:59.5Z'' = Inr \<lparr>seconds = 63871286399, nanos = 500000000\<rparr>"
    by (simp add: parse_instant_def slice_def digits_def is_digit_def digit_val_def parse_fraction_def
        month_days_def leap_year_def civil_days_def)
  show ?thesis
    using instant_roundtrip [of "\<lparr>seconds = 63000000000, nanos = 5\<rparr>" "''2024-02-29T23:59:59.5Z''"
        "\<lparr>seconds = 63871286399, nanos = 500000000\<rparr>"] p
    by (simp add: valid_instant_def)
qed

text \<open>C23: a retention deadline is the claim's instant moved forward by whole seconds, kept in the
  calendar the parser reads: the sum is exact, no earlier than its start, printable and readable
  back, and every sum after the year 9999 (or past 64-bit arithmetic) is refused.\<close>

theorem plus_seconds_deadline:
  assumes "valid_instant t"
  shows "case plus_seconds t s of
      Inr u \<Rightarrow> seconds u = seconds t + int (unat s) \<and> nanos u = nanos t
              \<and> instant_less_eq t u \<and> parse_instant (display_instant u) = Inr u
    | Inl e \<Rightarrow> seconds t + int (unat s) \<ge> civil_days 10000 1 1 * 86400"
proof (cases "plus_seconds t s")
  case (Inl e)
  with assms show ?thesis by (auto simp: plus_seconds_eq civil_days_def Let_def split: if_splits)
next
  case (Inr u)
  with assms plus_seconds_valid [OF assms Inr] plus_seconds_later [OF assms Inr] display_instant_parse
  show ?thesis by (auto simp: plus_seconds_eq split: if_splits)
qed

theorem plus_seconds_deadline_witness:
  "plus_seconds \<lparr>seconds = 63871286399, nanos = 0\<rparr> 2592000 = Inr \<lparr>seconds = 63873878399, nanos = 0\<rparr>
   \<and> seconds \<lparr>seconds = 63873878399, nanos = 0\<rparr> = 63871286399 + int (unat (2592000 :: u64))"
proof -
  have p: "plus_seconds \<lparr>seconds = 63871286399, nanos = 0\<rparr> 2592000 = Inr \<lparr>seconds = 63873878399, nanos = 0\<rparr>"
    by (simp add: plus_seconds_def checked_add_i64_def i64_range_def civil_days_def)
  show ?thesis
    using plus_seconds_deadline [of "\<lparr>seconds = 63871286399, nanos = 0\<rparr>" 2592000]
    unfolding p by (simp add: valid_instant_def)
qed

end
