(* ===== verification/Chain.thy ===== *)
theory Chain
  imports Anchor_Event Utc_Time
begin

text \<open>
  The hash chain and its verifier (\<open>baley-store/src/chain.rs\<close>).  \<open>push\<close> checks one event against
  the running state, \<open>walk\<close> is the loop of \<open>verify_chain\<close> and \<open>finish\<close> builds the report.  The
  specification is \<open>chain_ok\<close>: sequences from 1 without gaps, one project, every event linked to
  its predecessor's hash and carrying the hash of its own fields.  The lemmas show that the
  verifier accepts exactly the longest prefix that is \<open>chain_ok\<close>, what its verdict on an anchor
  means, that an anchored hash fixes every event before it (or exhibits a SHA-256 collision),
  and that sealing extends a verified chain.  The addition \<open>head.seq + 1\<close> is the machine's: it
  cannot overflow below \<open>2^64\<close> events, which the statements that need it assume.
\<close>

section \<open>The verifier\<close>

record head =
  h_seq :: u64
  h_hash :: hash

datatype break_kind =
    Sequence u64
  | Project project_id
  | PrevHash "hash option" "hash option"
  | HashMismatch hash hash
  | Canonical canonical_error

record chain_break =
  b_seq :: u64
  b_kind :: break_kind

datatype anchor_verdict =
    NoAnchor
  | Matches
  | Truncated u64 u64
  | Rewritten u64 hash hash
  | Acknowledged u64 "head option" u64
  | Unchecked u64

record acknowledged_restore =
  ar_seq :: u64
  ar_anchor :: anchor
  ar_restored :: "head option"

record chain_report =
  cr_head :: "head option"
  cr_first_break :: "chain_break option"
  cr_anchor :: anchor_verdict
  cr_unanchored :: "(u64 \<times> u64) option"
  cr_acknowledged_restores :: "acknowledged_restore list"
  cr_age_unanchored_since :: "string option"

definition unanchored_warning :: "string \<Rightarrow> string \<Rightarrow> time_error + bool" where
  "unanchored_warning since at =
     rbind (parse_instant at) (\<lambda>a.
     rbind (parse_instant since) (\<lambda>s.
     rbind (plus_seconds s 86400) (\<lambda>limit.
       Inr (\<not> instant_less_eq a limit))))"

definition is_intact :: "chain_report \<Rightarrow> bool" where
  "is_intact r \<longleftrightarrow> cr_first_break r = None
     \<and> (case cr_anchor r of NoAnchor \<Rightarrow> True | Matches \<Rightarrow> True | Acknowledged _ _ _ \<Rightarrow> True | _ \<Rightarrow> False)"

record chain_verifier =
  v_anchor :: "anchor option"
  v_head :: "head option"
  v_project :: "project_id option"
  v_first_break :: "chain_break option"
  v_reached :: "anchor_verdict option"
  v_acknowledged :: "(acknowledged_restore \<times> string option) list"
  v_first_work :: "string option"

definition verifier_new :: "anchor option \<Rightarrow> chain_verifier" where
  "verifier_new a =
     \<lparr>v_anchor = a, v_head = None, v_project = None, v_first_break = None, v_reached = None,
      v_acknowledged = [], v_first_work = None\<rparr>"

definition expected_seq :: "head option \<Rightarrow> u64" where
  "expected_seq h = (case h of None \<Rightarrow> 1 | Some h \<Rightarrow> h_seq h + 1)"

definition restored_seq_of :: "head option \<Rightarrow> u64" where
  "restored_seq_of h = (case h of None \<Rightarrow> 0 | Some h \<Rightarrow> h_seq h)"

definition check_event :: "(string \<Rightarrow> string) \<Rightarrow> chain_verifier \<Rightarrow> event \<Rightarrow> break_kind + hash" where
  "check_event sha v e =
     (let expected_prev = map_option h_hash (v_head v)
      in if seq e \<noteq> expected_seq (v_head v) then Inl (Sequence (seq e))
         else if (case v_project v of Some p \<Rightarrow> p \<noteq> project_id e | None \<Rightarrow> False)
         then Inl (Project (the (v_project v)))
         else if prev_hash e \<noteq> expected_prev then Inl (PrevHash expected_prev (prev_hash e))
         else (case compute_hash sha e of
             Inl err \<Rightarrow> Inl (Canonical err)
           | Inr h \<Rightarrow> if h \<noteq> event_hash e then Inl (HashMismatch h (event_hash e)) else Inr h))"

definition compare_anchor :: "anchor option \<Rightarrow> u64 \<Rightarrow> hash \<Rightarrow> anchor_verdict option \<Rightarrow> anchor_verdict option" where
  "compare_anchor a n h reached =
     (case a of
        Some a \<Rightarrow>
          if a_seq a = n
          then Some (if a_hash a = h then Matches else Rewritten (a_seq a) (a_hash a) h)
          else reached
      | None \<Rightarrow> reached)"

definition acknowledgement :: "event \<Rightarrow> head option \<Rightarrow> acknowledged_restore option" where
  "acknowledgement e restored =
     (if type_name e = anchor_restore_acknowledged
         \<and> type_version e = anchor_restore_acknowledged_version \<and> actor e = Owner
      then (case restore_acknowledged_from_value (payload e) of
          Some p \<Rightarrow>
            if ra_tag p = anchor_tag (project_id e) (ra_seq p)
               \<and> ra_restored_seq p = restored_seq_of restored
               \<and> ra_restored_head p = map_option h_hash restored
            then Some \<lparr>ar_seq = seq e, ar_anchor = acknowledged_anchor p, ar_restored = restored\<rparr>
            else None
        | None \<Rightarrow> None)
      else None)"

definition note_work :: "event \<Rightarrow> chain_verifier \<Rightarrow> chain_verifier" where
  "note_work e v =
     (if anchor_command_event (type_name e) (payload e) then v
      else v\<lparr>v_first_work :=
               (if v_first_work v = None
                   \<and> (case v_anchor v of None \<Rightarrow> True | Some a \<Rightarrow> seq e > a_seq a)
                then Some (recorded_at e) else v_first_work v),
             v_acknowledged :=
               map (\<lambda>(ack, first). (ack,
                 if seq e > ar_seq ack \<and> first = None then Some (recorded_at e) else first))
                 (v_acknowledged v)\<rparr>)"

definition accept_event :: "chain_verifier \<Rightarrow> event \<Rightarrow> hash \<Rightarrow> chain_verifier" where
  "accept_event v e h =
     (let restored = v_head v
      in note_work e
        (v\<lparr>v_project := Some (case v_project v of Some p \<Rightarrow> p | None \<Rightarrow> project_id e),
           v_head := Some \<lparr>h_seq = seq e, h_hash = h\<rparr>,
           v_reached := compare_anchor (v_anchor v) (seq e) h (v_reached v),
           v_acknowledged := v_acknowledged v @
             (case acknowledgement e restored of Some ack \<Rightarrow> [(ack, None)] | None \<Rightarrow> [])\<rparr>))"

definition push :: "(string \<Rightarrow> string) \<Rightarrow> chain_verifier \<Rightarrow> event \<Rightarrow> bool \<times> chain_verifier" where
  "push sha v e =
     (if v_first_break v \<noteq> None then (False, v)
      else case check_event sha v e of
          Inl kind \<Rightarrow> (False, v\<lparr>v_first_break := Some \<lparr>b_seq = expected_seq (v_head v), b_kind = kind\<rparr>\<rparr>)
        | Inr h \<Rightarrow> (True, accept_event v e h))"

definition unanchored_from :: "chain_verifier \<Rightarrow> u64 option" where
  "unanchored_from v = (case v_anchor v of None \<Rightarrow> Some 1 | Some a \<Rightarrow> checked_succ (a_seq a))"

definition base_verdict :: "chain_verifier \<Rightarrow> anchor_verdict" where
  "base_verdict v =
     (case v_anchor v of
        None \<Rightarrow> NoAnchor
      | Some a \<Rightarrow> (case v_reached v of
          Some verdict \<Rightarrow> verdict
        | None \<Rightarrow> if v_first_break v \<noteq> None then Unchecked (a_seq a)
                 else Truncated (a_seq a) (restored_seq_of (v_head v))))"

definition accepted_restore :: "chain_verifier \<Rightarrow> (acknowledged_restore \<times> string option) option" where
  "accepted_restore v =
     (case base_verdict v of
        Truncated _ _ \<Rightarrow> find (\<lambda>(ack, _). v_anchor v = Some (ar_anchor ack)) (rev (v_acknowledged v))
      | Rewritten _ _ _ \<Rightarrow> find (\<lambda>(ack, _). v_anchor v = Some (ar_anchor ack)) (rev (v_acknowledged v))
      | _ \<Rightarrow> None)"

definition finish :: "chain_verifier \<Rightarrow> chain_report" where
  "finish v =
     (let head_seq = restored_seq_of (v_head v);
          (verdict, from, age) =
            (case accepted_restore v of
               Some (ack, first) \<Rightarrow>
                 (Acknowledged (a_seq (ar_anchor ack)) (ar_restored ack) (ar_seq ack), checked_succ (ar_seq ack), first)
             | None \<Rightarrow> (base_verdict v, unanchored_from v, v_first_work v))
      in \<lparr>cr_head = v_head v, cr_first_break = v_first_break v, cr_anchor = verdict,
          cr_unanchored = (case from of Some n \<Rightarrow> if head_seq \<ge> n then Some (n, head_seq) else None
                           | None \<Rightarrow> None),
          cr_acknowledged_restores = map fst (v_acknowledged v),
          cr_age_unanchored_since = age\<rparr>)"

fun walk :: "(string \<Rightarrow> string) \<Rightarrow> chain_verifier \<Rightarrow> event list \<Rightarrow> chain_verifier" where
  "walk sha v [] = v"
| "walk sha v (e # es) = (let (ok, v') = push sha v e in if ok then walk sha v' es else v')"

definition verify_chain :: "(string \<Rightarrow> string) \<Rightarrow> event list \<Rightarrow> anchor option \<Rightarrow> chain_report" where
  "verify_chain sha es a = finish (walk sha (verifier_new a) es)"

section \<open>What a good chain is\<close>

definition link_ok :: "(string \<Rightarrow> string) \<Rightarrow> event list \<Rightarrow> event \<Rightarrow> bool" where
  "link_ok sha es e \<longleftrightarrow>
     seq e = of_nat (length es + 1)
     \<and> (es \<noteq> [] \<longrightarrow> project_id e = project_id (hd es))
     \<and> prev_hash e = (if es = [] then None else Some (event_hash (last es)))
     \<and> compute_hash sha e = Inr (event_hash e)"

definition chain_ok :: "(string \<Rightarrow> string) \<Rightarrow> event list \<Rightarrow> bool" where
  "chain_ok sha es \<longleftrightarrow> (\<forall>i < length es. link_ok sha (take i es) (es ! i))"

lemma chain_ok_Nil [simp]: "chain_ok sha []"
  by (simp add: chain_ok_def)

lemma chain_ok_snoc: "chain_ok sha (es @ [e]) \<longleftrightarrow> chain_ok sha es \<and> link_ok sha es e"
  by (auto simp: chain_ok_def less_Suc_eq nth_append)

lemma chain_ok_take: "chain_ok sha es \<Longrightarrow> chain_ok sha (take n es)"
  by (auto simp: chain_ok_def min_def)

lemma chain_ok_nth:
  "chain_ok sha es \<Longrightarrow> i < length es \<Longrightarrow>
     seq (es ! i) = of_nat (i + 1) \<and> project_id (es ! i) = project_id (hd es)
     \<and> prev_hash (es ! i) = (if i = 0 then None else Some (event_hash (es ! (i - 1))))
     \<and> compute_hash sha (es ! i) = Inr (event_hash (es ! i))"
  unfolding chain_ok_def link_ok_def
  by (drule spec [of _ i]) (auto simp: min_def last_conv_nth hd_conv_nth split: if_splits; cases i; auto simp: hd_conv_nth last_conv_nth min_def)

section \<open>The verifier implements the specification\<close>

definition head_of :: "event list \<Rightarrow> head option" where
  "head_of es = (if es = [] then None else Some \<lparr>h_seq = of_nat (length es), h_hash = event_hash (last es)\<rparr>)"

definition reached_of :: "anchor option \<Rightarrow> event list \<Rightarrow> anchor_verdict option" where
  "reached_of a es =
     (case a of None \<Rightarrow> None
      | Some a \<Rightarrow>
          if a_seq a \<noteq> 0 \<and> unat (a_seq a) \<le> length es
          then Some (let h = event_hash (es ! (unat (a_seq a) - 1))
                     in if a_hash a = h then Matches else Rewritten (a_seq a) (a_hash a) h)
          else None)"

fun acks_of :: "event list \<Rightarrow> event list \<Rightarrow> acknowledged_restore list" where
  "acks_of done [] = []"
| "acks_of done (e # es) =
     (case acknowledgement e (head_of done) of Some ack \<Rightarrow> [ack] | None \<Rightarrow> []) @ acks_of (done @ [e]) es"

definition first_work_of :: "(event \<Rightarrow> bool) \<Rightarrow> event list \<Rightarrow> string option" where
  "first_work_of after es =
     map_option recorded_at (find (\<lambda>e. \<not> anchor_command_event (type_name e) (payload e) \<and> after e) es)"

definition verified :: "(string \<Rightarrow> string) \<Rightarrow> anchor option \<Rightarrow> event list \<Rightarrow> chain_verifier \<Rightarrow> bool" where
  "verified sha a es v \<longleftrightarrow>
     chain_ok sha es \<and> v_anchor v = a \<and> v_first_break v = None \<and> v_head v = head_of es
     \<and> v_project v = (if es = [] then None else Some (project_id (hd es)))
     \<and> v_reached v = reached_of a es
     \<and> v_acknowledged v = map (\<lambda>ack. (ack, first_work_of (\<lambda>e. seq e > ar_seq ack) es)) (acks_of [] es)
     \<and> v_first_work v = first_work_of (\<lambda>e. case a of None \<Rightarrow> True | Some a \<Rightarrow> seq e > a_seq a) es"

lemma verified_new: "verified sha a [] (verifier_new a)"
  by (auto simp: verified_def verifier_new_def head_of_def reached_of_def first_work_of_def unat_eq_zero
      split: option.splits)

lemma expected_seq_head_of [simp]: "expected_seq (head_of es) = of_nat (length es + 1)"
  by (simp add: expected_seq_def head_of_def)

lemma restored_seq_of_head_of [simp]: "restored_seq_of (head_of es) = of_nat (length es)"
  by (simp add: restored_seq_of_def head_of_def)

lemma h_hash_head_of [simp]: "map_option h_hash (head_of es) = (if es = [] then None else Some (event_hash (last es)))"
  by (simp add: head_of_def)

lemma check_event_verified:
  assumes "verified sha a es v"
  shows "(\<exists>h. check_event sha v e = Inr h) \<longleftrightarrow> link_ok sha es e"
    and "check_event sha v e = Inr h \<Longrightarrow> h = event_hash e"
  using assms by (auto simp: check_event_def verified_def link_ok_def Let_def split: if_splits sum.splits)

lemma acks_of_snoc:
  "acks_of done (es @ [e]) = acks_of done es @
     (case acknowledgement e (head_of (done @ es)) of Some ack \<Rightarrow> [ack] | None \<Rightarrow> [])"
  by (induction es arbitrary: "done") (auto split: option.splits)

lemma first_work_of_snoc:
  "first_work_of P (es @ [e]) =
     (case first_work_of P es of Some t \<Rightarrow> Some t
      | None \<Rightarrow> if \<not> anchor_command_event (type_name e) (payload e) \<and> P e then Some (recorded_at e) else None)"
proof -
  have "find Q (es @ [e]) = (case find Q es of Some x \<Rightarrow> Some x | None \<Rightarrow> if Q e then Some e else None)" for Q
    by (induction es) auto
  then show ?thesis by (auto simp: first_work_of_def split: option.splits)
qed

lemma unat_of_nat_u64: "n < 2 ^ 64 \<Longrightarrow> unat (of_nat n :: u64) = n"
  by (simp only: unat_of_nat) simp

lemma reached_of_snoc:
  assumes "length es + 1 < 2 ^ 64" "seq e = of_nat (length es + 1)"
  shows "reached_of a (es @ [e]) = compare_anchor a (seq e) (event_hash e) (reached_of a es)"
proof (cases a)
  case None
  then show ?thesis by (simp add: reached_of_def compare_anchor_def)
next
  case (Some b)
  have s: "unat (seq e) = length es + 1" using assms by (simp only: unat_of_nat_u64)
  have z: "a_seq b \<noteq> 0 \<longleftrightarrow> 0 < unat (a_seq b)" by (simp add: unat_gt_0)
  have eq: "a_seq b = seq e \<longleftrightarrow> unat (a_seq b) = length es + 1"
    unfolding s [symmetric] by (simp add: word_unat_eq_iff)
  show ?thesis
    by (auto simp: reached_of_def compare_anchor_def Some z eq nth_append Let_def)
qed

lemma acknowledgement_seq: "acknowledgement e h = Some ack \<Longrightarrow> ar_seq ack = seq e"
  by (auto simp: acknowledgement_def split: if_splits option.splits)

lemma acks_of_seq:
  assumes "ack \<in> set (acks_of done es)"
  shows "\<exists>i < length es. acknowledgement (es ! i) (head_of (done @ take i es)) = Some ack"
  using assms
proof (induction "done" es rule: acks_of.induct)
  case (2 d e es)
  show ?case
  proof (cases "acknowledgement e (head_of d) = Some ack")
    case True
    then show ?thesis by (intro exI [of _ 0]) simp
  next
    case False
    with 2 obtain i where "i < length es" "acknowledgement (es ! i) (head_of ((d @ [e]) @ take i es)) = Some ack"
      by (auto split: option.splits)
    then show ?thesis by (intro exI [of _ "Suc i"]) simp
  qed
qed simp

lemma verified_accept:
  assumes v: "verified sha a es v" and link: "link_ok sha es e" and len: "length es + 1 < 2 ^ 64"
  shows "verified sha a (es @ [e]) (accept_event v e (event_hash e))"
proof -
  have seq: "seq e = of_nat (length es + 1)" using link by (simp add: link_ok_def)
  have ok: "chain_ok sha (es @ [e])" using v link by (simp add: chain_ok_snoc verified_def)
  have head: "head_of (es @ [e]) = Some \<lparr>h_seq = seq e, h_hash = event_hash e\<rparr>"
    by (simp add: head_of_def seq)
  have new: "first_work_of (\<lambda>x. seq x > seq e) es = None"
  proof -
    have "\<not> seq e < seq x" if x: "x \<in> set es" for x
    proof -
      from x obtain i where i: "i < length es" "x = es ! i" by (auto simp: in_set_conv_nth)
      then have "seq x = of_nat (i + 1)" using v chain_ok_nth [of sha es i] by (simp add: verified_def)
      then have "unat (seq x) = i + 1" using i len by (simp only: unat_of_nat_u64)
      moreover have "unat (seq e) = length es + 1" using seq len by (simp only: unat_of_nat_u64)
      ultimately show ?thesis using i by (simp add: word_less_nat_alt)
    qed
    then have "find (\<lambda>x. \<not> anchor_command_event (type_name x) (payload x) \<and> seq e < seq x) es = None"
      by (auto simp: find_None_iff)
    then show ?thesis by (simp add: first_work_of_def)
  qed
  have acks: "acks_of [] (es @ [e]) = acks_of [] es @
      (case acknowledgement e (head_of es) of Some ack \<Rightarrow> [ack] | None \<Rightarrow> [])"
    by (simp add: acks_of_snoc)
  have "v_acknowledged (accept_event v e (event_hash e)) =
      map (\<lambda>ack. (ack, first_work_of (\<lambda>x. seq x > ar_seq ack) (es @ [e]))) (acks_of [] (es @ [e]))"
    using v new by (auto simp: accept_event_def note_work_def Let_def verified_def acks first_work_of_snoc
        dest: acknowledgement_seq split: option.splits)
  moreover have "v_first_work (accept_event v e (event_hash e)) =
      first_work_of (\<lambda>e. case a of None \<Rightarrow> True | Some a \<Rightarrow> seq e > a_seq a) (es @ [e])"
    using v by (auto simp: accept_event_def note_work_def Let_def verified_def first_work_of_snoc split: option.splits)
  moreover have "v_reached (accept_event v e (event_hash e)) = reached_of a (es @ [e])"
    using v reached_of_snoc [OF len seq, of a] by (simp add: accept_event_def note_work_def Let_def verified_def)
  moreover have "v_anchor (accept_event v e (event_hash e)) = a" "v_first_break (accept_event v e (event_hash e)) = None"
    "v_head (accept_event v e (event_hash e)) = head_of (es @ [e])"
    "v_project (accept_event v e (event_hash e)) = Some (project_id (hd (es @ [e])))"
    using v link by (auto simp: accept_event_def note_work_def Let_def verified_def head link_ok_def)
  ultimately show ?thesis using ok by (simp add: verified_def)
qed

text \<open>What a walk from a verified prefix leaves.\<close>

definition stopped :: "(string \<Rightarrow> string) \<Rightarrow> anchor option \<Rightarrow> event list \<Rightarrow> nat \<Rightarrow> chain_verifier \<Rightarrow> bool" where
  "stopped sha a es k v \<longleftrightarrow>
     k \<le> length es \<and> chain_ok sha (take k es)
     \<and> (if k = length es then verified sha a es v
        else \<not> link_ok sha (take k es) (es ! k)
          \<and> (\<exists>kind v'. verified sha a (take k es) v'
               \<and> check_event sha v' (es ! k) = Inl kind
               \<and> v = v'\<lparr>v_first_break := Some \<lparr>b_seq = of_nat (k + 1), b_kind = kind\<rparr>\<rparr>))"

lemma walk_stopped:
  assumes "verified sha a xs v" "length xs + length es < 2 ^ 64"
  shows "\<exists>k. length xs \<le> k \<and> stopped sha a (xs @ es) k (walk sha v es)"
  using assms
proof (induction es arbitrary: xs v)
  case Nil
  then show ?case by (auto simp: stopped_def verified_def)
next
  case (Cons e es)
  have nb: "v_first_break v = None" and head: "v_head v = head_of xs" using Cons.prems by (simp_all add: verified_def)
  show ?case
  proof (cases "link_ok sha xs e")
    case True
    then have "check_event sha v e = Inr (event_hash e)" using check_event_verified [OF Cons.prems(1)] by metis
    then have w: "walk sha v (e # es) = walk sha (accept_event v e (event_hash e)) es" by (simp add: push_def nb)
    have "verified sha a (xs @ [e]) (accept_event v e (event_hash e))"
      using Cons.prems True by (intro verified_accept) auto
    from Cons.IH [OF this] Cons.prems(2) obtain k where "length (xs @ [e]) \<le> k"
      "stopped sha a ((xs @ [e]) @ es) k (walk sha (accept_event v e (event_hash e)) es)" by auto
    then show ?thesis unfolding w by (intro exI [of _ k]) simp
  next
    case False
    then obtain kind where kind: "check_event sha v e = Inl kind"
      using check_event_verified [OF Cons.prems(1), of e] by (cases "check_event sha v e") auto
    then have w: "walk sha v (e # es) = v\<lparr>v_first_break := Some \<lparr>b_seq = of_nat (length xs + 1), b_kind = kind\<rparr>\<rparr>"
      by (simp add: push_def nb head)
    have "stopped sha a (xs @ e # es) (length xs) (walk sha v (e # es))"
      using Cons.prems(1) False kind unfolding w stopped_def
      by (simp add: exI [of _ kind] exI [of _ v] del: of_nat_add)
        (auto simp: verified_def)
    then show ?thesis by blast
  qed
qed

section \<open>The report\<close>

text \<open>The longest prefix of the stored events that is a good chain.\<close>

definition good_prefix :: "(string \<Rightarrow> string) \<Rightarrow> event list \<Rightarrow> nat \<Rightarrow> bool" where
  "good_prefix sha es k \<longleftrightarrow>
     k \<le> length es \<and> chain_ok sha (take k es) \<and> (k < length es \<longrightarrow> \<not> chain_ok sha (take (Suc k) es))"

lemma good_prefix_unique:
  assumes "good_prefix sha es j" "good_prefix sha es k"
  shows "j = k"
proof -
  have "\<not> j < k" if "good_prefix sha es j" "good_prefix sha es k" for j k
    using that chain_ok_take [of sha "take k es" "Suc j"] by (auto simp: good_prefix_def min_def split: if_splits)
  with assms show ?thesis by (meson nat_neq_iff)
qed

lemma stopped_good: "stopped sha a es k v \<Longrightarrow> good_prefix sha es k"
  by (auto simp: stopped_def good_prefix_def take_Suc_conv_app_nth chain_ok_snoc)

lemma walk_good:
  assumes "length es < 2 ^ 64"
  obtains k where "stopped sha a es k (walk sha (verifier_new a) es)" "good_prefix sha es k"
proof -
  from walk_stopped [OF verified_new, of es sha a] assms obtain k
    where "stopped sha a es k (walk sha (verifier_new a) es)" by auto
  with stopped_good that show ?thesis by blast
qed

lemma verify_stopped:
  assumes "good_prefix sha es k" "length es < 2 ^ 64"
  shows "stopped sha a es k (walk sha (verifier_new a) es)"
  using walk_good [OF assms(2)] good_prefix_unique [OF assms(1)] by metis

lemma good_prefix_exists: "length es < 2 ^ 64 \<Longrightarrow> \<exists>k. good_prefix sha es k"
  using walk_good by metis

text \<open>The state a report is built from, in terms of the good prefix.\<close>

lemma stopped_fields:
  assumes "stopped sha a es k v"
  shows "v_anchor v = a" "v_head v = head_of (take k es)" "v_reached v = reached_of a (take k es)"
    "v_first_break v = None \<longleftrightarrow> k = length es"
    "\<forall>b. v_first_break v = Some b \<longrightarrow> b_seq b = of_nat (k + 1)"
    "v_acknowledged v = map (\<lambda>ack. (ack, first_work_of (\<lambda>e. seq e > ar_seq ack) (take k es))) (acks_of [] (take k es))"
    "v_first_work v = first_work_of (\<lambda>e. case a of None \<Rightarrow> True | Some a \<Rightarrow> seq e > a_seq a) (take k es)"
  using assms by (auto simp: stopped_def verified_def split: if_splits)

definition reaches :: "anchor \<Rightarrow> nat \<Rightarrow> bool" where
  "reaches x k \<longleftrightarrow> a_seq x \<noteq> 0 \<and> unat (a_seq x) \<le> k"

definition hash_at :: "event list \<Rightarrow> u64 \<Rightarrow> hash" where
  "hash_at es n = event_hash (es ! (unat n - 1))"

definition latest_ack :: "anchor \<Rightarrow> event list \<Rightarrow> acknowledged_restore option" where
  "latest_ack x es = find (\<lambda>ack. ar_anchor ack = x) (rev (acks_of [] es))"

definition verdict_of :: "anchor option \<Rightarrow> event list \<Rightarrow> nat \<Rightarrow> anchor_verdict" where
  "verdict_of a es k =
     (case a of None \<Rightarrow> NoAnchor
      | Some x \<Rightarrow>
          let acked = (\<lambda>otherwise. case latest_ack x (take k es) of
                 Some ack \<Rightarrow> Acknowledged (a_seq x) (ar_restored ack) (ar_seq ack)
               | None \<Rightarrow> otherwise)
          in if reaches x k
             then (if hash_at es (a_seq x) = a_hash x then Matches
                   else acked (Rewritten (a_seq x) (a_hash x) (hash_at es (a_seq x))))
             else if k < length es then Unchecked (a_seq x)
             else acked (Truncated (a_seq x) (of_nat k)))"

lemma find_map_pair: "find (\<lambda>(x, y). P x) (map (\<lambda>x. (x, f x)) xs) = map_option (\<lambda>x. (x, f x)) (find P xs)"
  by (induction xs) auto

lemma finish_verdict:
  assumes "stopped sha a es k v"
  shows "cr_anchor (finish v) = verdict_of a es k"
proof (cases a)
  case None
  with stopped_fields [OF assms] show ?thesis
    by (simp add: finish_def accepted_restore_def base_verdict_def verdict_of_def Let_def)
next
  case (Some x)
  note f = stopped_fields [OF assms]
  have k: "k \<le> length es" using assms by (simp add: stopped_def)
  have acc: "find (\<lambda>(ack, _). v_anchor v = Some (ar_anchor ack)) (rev (v_acknowledged v)) =
      map_option (\<lambda>ack. (ack, first_work_of (\<lambda>e. seq e > ar_seq ack) (take k es))) (latest_ack x (take k es))"
    unfolding f latest_ack_def rev_map by (simp add: find_map_pair Some eq_commute)
  have anchor: "latest_ack x (take k es) = Some ack \<Longrightarrow> ar_anchor ack = x" for ack
    by (auto simp: latest_ack_def find_Some_iff)
  show ?thesis
  proof (cases "reaches x k")
    case True
    then have r: "v_reached v = Some (if a_hash x = hash_at es (a_seq x) then Matches
        else Rewritten (a_seq x) (a_hash x) (hash_at es (a_seq x)))"
      using k by (auto simp: f reached_of_def Some reaches_def hash_at_def Let_def unat_gt_0 [symmetric])
    have b: "base_verdict v = (if a_hash x = hash_at es (a_seq x) then Matches
        else Rewritten (a_seq x) (a_hash x) (hash_at es (a_seq x)))"
      by (simp add: base_verdict_def f(1) Some r)
    show ?thesis using True b acc anchor
      by (auto simp: finish_def accepted_restore_def verdict_of_def Some Let_def split: option.splits)
  next
    case False
    then have r: "v_reached v = None" by (auto simp: f reached_of_def Some reaches_def min_def k)
    have b: "base_verdict v = (if k < length es then Unchecked (a_seq x) else Truncated (a_seq x) (of_nat k))"
      using k by (auto simp: base_verdict_def f(1,2,4) Some r min_def)
    show ?thesis using False b acc anchor
      by (auto simp: finish_def accepted_restore_def verdict_of_def Some Let_def split: option.splits)
  qed
qed

text \<open>The sequence the unanchored range starts after.\<close>

definition covered :: "anchor option \<Rightarrow> anchor_verdict \<Rightarrow> u64" where
  "covered a verdict =
     (case verdict of Acknowledged _ _ n \<Rightarrow> n
      | _ \<Rightarrow> (case a of None \<Rightarrow> 0 | Some x \<Rightarrow> a_seq x))"

lemma checked_succ_range:
  assumes "j < 2 ^ 64"
  shows "(case checked_succ n of Some m \<Rightarrow> if (of_nat j :: u64) \<ge> m then Some (m, of_nat j) else None | None \<Rightarrow> None)
     = (if unat n < j then Some (n + 1, of_nat j :: u64) else None)"
proof (cases "n = - 1")
  case True
  have "unat (of_nat j :: u64) \<le> unat (- 1 :: u64)" using word_order.extremum [of "of_nat j :: u64"]
    by (simp only: word_le_nat_alt)
  then have "\<not> unat n < j" using True assms by (simp only: unat_of_nat_u64 not_less)
  with True show ?thesis by (simp add: checked_succ_def)
next
  case False
  have "unat (of_nat j :: u64) = j" using assms by (rule unat_of_nat_u64)
  with False show ?thesis by (simp add: checked_succ_def word_le_nat_alt unat_succ_word Suc_le_eq)
qed

lemma first_work_of_cong:
  "(\<And>e. e \<in> set es \<Longrightarrow> P e = Q e) \<Longrightarrow> first_work_of P es = first_work_of Q es"
  unfolding first_work_of_def by (intro arg_cong [where f = "map_option recorded_at"] find_cong) auto

lemma finish_unanchored:
  assumes s: "stopped sha a es k v" and len: "length es < 2 ^ 64"
  shows "cr_unanchored (finish v) =
     (let n = covered a (cr_anchor (finish v)) in if unat n < k then Some (n + 1, of_nat k) else None)"
    and "cr_age_unanchored_since (finish v) =
     first_work_of (\<lambda>e. seq e > covered a (cr_anchor (finish v))) (take k es)"
proof -
  note f = stopped_fields [OF s]
  have k: "k \<le> length es" "k < 2 ^ 64" using s len by (auto simp: stopped_def)
  have none: "covered a (base_verdict v) = (case a of None \<Rightarrow> 0 | Some x \<Rightarrow> a_seq x)"
    by (auto simp: covered_def base_verdict_def f reached_of_def Let_def split: option.splits)
  have pos: "seq e > 0" if e: "e \<in> set (take k es)" for e
  proof -
    obtain i where i: "i < k" "e = take k es ! i" using e k by (auto simp: in_set_conv_nth)
    have "chain_ok sha (take k es)" using s by (simp add: stopped_def)
    with i k chain_ok_nth [of sha "take k es" i] have "seq e = of_nat (i + 1)" by simp
    moreover have "unat (of_nat (i + 1) :: u64) = i + 1" using i k by (intro unat_of_nat_u64) simp
    ultimately have "0 < unat (seq e)" by simp
    then show ?thesis by (simp add: unat_gt_0 word_gt_0)
  qed
  have one: "checked_succ 0 = Some 1" by (simp add: checked_succ_def)
  have uf: "unanchored_from v = checked_succ (case a of None \<Rightarrow> 0 | Some x \<Rightarrow> a_seq x)"
    by (simp add: unanchored_from_def f one split: option.split)
  have head: "restored_seq_of (v_head v) = of_nat k" using k by (simp add: f min_def)
  have work: "v_first_work v = first_work_of (\<lambda>e. seq e > (case a of None \<Rightarrow> 0 | Some x \<Rightarrow> a_seq x)) (take k es)"
    unfolding f by (rule first_work_of_cong) (use pos in \<open>auto split: option.splits\<close>)
  have acc: "accepted_restore v = Some (ack, first) \<Longrightarrow>
      first = first_work_of (\<lambda>e. seq e > ar_seq ack) (take k es)" for ack first
    by (auto simp: accepted_restore_def f find_Some_iff rev_map rev_nth split: anchor_verdict.splits)
  show "cr_unanchored (finish v) =
     (let n = covered a (cr_anchor (finish v)) in if unat n < k then Some (n + 1, of_nat k) else None)"
  proof (cases "accepted_restore v")
    case None
    then show ?thesis using checked_succ_range [OF k(2), of "case a of None \<Rightarrow> 0 | Some x \<Rightarrow> a_seq x"]
      by (simp add: finish_def head uf none Let_def)
  next
    case (Some p)
    then show ?thesis using checked_succ_range [OF k(2), of "ar_seq (fst p)"]
      by (cases p) (simp add: finish_def head covered_def Let_def)
  qed
  show "cr_age_unanchored_since (finish v) =
     first_work_of (\<lambda>e. seq e > covered a (cr_anchor (finish v))) (take k es)"
  proof (cases "accepted_restore v")
    case None
    then show ?thesis by (simp add: finish_def none work Let_def)
  next
    case (Some p)
    then show ?thesis using acc [of "fst p" "snd p"]
      by (cases p) (simp add: finish_def covered_def Let_def)
  qed
qed

section \<open>What a hash fixes\<close>

text \<open>Two events of two chains whose different preimages have the same digest.\<close>

definition collision :: "(string \<Rightarrow> string) \<Rightarrow> event list \<Rightarrow> event list \<Rightarrow> bool" where
  "collision sha es fs \<longleftrightarrow>
     (\<exists>e \<in> set es. \<exists>f \<in> set fs. \<exists>x y. event_preimage e = Inr x \<and> event_preimage f = Inr y
        \<and> x \<noteq> y \<and> sha x = sha y)"

lemma equal_hash_equal_event:
  assumes ok: "chain_ok sha es" "chain_ok sha fs" and i: "i < length es" "i < length fs"
    and wf: "\<forall>e \<in> set es. event_wf e" "\<forall>f \<in> set fs. event_wf f"
    and project: "project_id (hd es) = project_id (hd fs)"
    and hash: "event_hash (es ! i) = event_hash (fs ! i)"
    and no: "\<not> collision sha es fs"
  shows "norm_event (es ! i) = norm_event (fs ! i) \<and> prev_hash (es ! i) = prev_hash (fs ! i)"
proof -
  let ?e = "es ! i" and ?f = "fs ! i"
  note e = chain_ok_nth [OF ok(1) i(1)] and f = chain_ok_nth [OF ok(2) i(2)]
  obtain x y where x: "event_preimage ?e = Inr x" "event_hash ?e = Hash (sha x)"
    and y: "event_preimage ?f = Inr y" "event_hash ?f = Hash (sha y)"
    using e f by (auto simp: compute_hash_preimage)
  have mem: "?e \<in> set es" "?f \<in> set fs" using i by simp_all
  have "sha x = sha y" using x(2) y(2) hash by simp
  with no mem x(1) y(1) have "x = y" unfolding collision_def by metis
  then have "header ?e = header ?f \<and> norm_json (payload ?e) = norm_json (payload ?f)"
    using wf mem x(1) y(1) project e f by (intro event_preimage_unique) auto
  then show ?thesis using hash norm_event_eqI header_fields by blast
qed

lemma equal_hash_equal_prefix:
  assumes ok: "chain_ok sha es" "chain_ok sha fs"
    and wf: "\<forall>e \<in> set es. event_wf e" "\<forall>f \<in> set fs. event_wf f"
    and project: "project_id (hd es) = project_id (hd fs)"
    and no: "\<not> collision sha es fs"
  shows "n < length es \<Longrightarrow> n < length fs \<Longrightarrow> event_hash (es ! n) = event_hash (fs ! n) \<Longrightarrow>
    map norm_event (take (Suc n) es) = map norm_event (take (Suc n) fs)"
proof (induction n)
  case 0
  with equal_hash_equal_event [OF ok 0(1,2) wf project _ no] show ?case
    by (simp add: take_Suc_conv_app_nth)
next
  case (Suc n)
  have eq: "norm_event (es ! Suc n) = norm_event (fs ! Suc n)" "prev_hash (es ! Suc n) = prev_hash (fs ! Suc n)"
    using equal_hash_equal_event [OF ok Suc.prems(1,2) wf project Suc.prems(3) no] by simp_all
  then have "event_hash (es ! n) = event_hash (fs ! n)"
    using chain_ok_nth [OF ok(1) Suc.prems(1)] chain_ok_nth [OF ok(2) Suc.prems(2)] by simp
  then have "map norm_event (take (Suc n) es) = map norm_event (take (Suc n) fs)"
    using Suc by simp
  with eq Suc.prems show ?case by (simp add: take_Suc_conv_app_nth)
qed

lemma matches_prefix:
  assumes "cr_anchor (verify_chain sha es (Some x)) = Matches" "length es < 2 ^ 64"
  obtains k where "good_prefix sha es k" "0 < unat (a_seq x)" "unat (a_seq x) \<le> k"
    "event_hash (es ! (unat (a_seq x) - 1)) = a_hash x"
proof -
  obtain k where k: "stopped sha (Some x) es k (walk sha (verifier_new (Some x)) es)" "good_prefix sha es k"
    using walk_good [OF assms(2)] by blast
  have "verdict_of (Some x) es k = Matches" using assms(1) finish_verdict [OF k(1)] by (simp add: verify_chain_def)
  then have "reaches x k \<and> hash_at es (a_seq x) = a_hash x"
    by (auto simp: verdict_of_def Let_def split: if_splits option.splits)
  with k(2) that show ?thesis by (simp add: reaches_def hash_at_def unat_gt_0)
qed

section \<open>The properties of the chain\<close>

text \<open>C18: an anchored hash fixes the history before it.  If two ledgers of one project both verify
  against the same anchor, then their events up to the anchored sequence are the same events, up
  to the spelling of integers in payloads, or two of their events exhibit a SHA-256 collision:
  nobody can rewrite anchored history, in envelope or payload, and still match the anchor.\<close>

theorem anchored_history_unique:
  assumes "\<forall>e \<in> set es. event_wf e" "\<forall>f \<in> set fs. event_wf f"
    and "length es < 2 ^ 64" "length fs < 2 ^ 64"
    and "project_id (hd es) = project_id (hd fs)"
    and "cr_anchor (verify_chain sha es (Some x)) = Matches"
    and "cr_anchor (verify_chain sha fs (Some x)) = Matches"
  shows "map norm_event (take (unat (a_seq x)) es) = map norm_event (take (unat (a_seq x)) fs)
    \<or> collision sha es fs"
proof (cases "collision sha es fs")
  case False
  let ?n = "unat (a_seq x)"
  obtain j where j: "good_prefix sha es j" "0 < ?n" "?n \<le> j" "event_hash (es ! (?n - 1)) = a_hash x"
    using matches_prefix [OF assms(6,3)] .
  obtain k where k: "good_prefix sha fs k" "?n \<le> k" "event_hash (fs ! (?n - 1)) = a_hash x"
    using matches_prefix [OF assms(7,4)] .
  let ?es = "take ?n es" and ?fs = "take ?n fs"
  have len: "?n \<le> length es" "?n \<le> length fs" using j k by (auto simp: good_prefix_def)
  have ok: "chain_ok sha ?es" "chain_ok sha ?fs"
    using j k chain_ok_take [of sha "take j es" ?n] chain_ok_take [of sha "take k fs" ?n]
    by (simp_all add: good_prefix_def min_def)
  have wf: "\<forall>e \<in> set ?es. event_wf e" "\<forall>f \<in> set ?fs. event_wf f"
    using assms(1,2) by (meson in_set_takeD)+
  have "hd ?es = hd es" "hd ?fs = hd fs" using j(2) by simp_all
  then have project: "project_id (hd ?es) = project_id (hd ?fs)" using assms(5) by simp
  have no: "\<not> collision sha ?es ?fs" using False unfolding collision_def by (meson in_set_takeD)
  have "map norm_event (take (Suc (?n - 1)) ?es) = map norm_event (take (Suc (?n - 1)) ?fs)"
    using j k len by (intro equal_hash_equal_prefix [OF ok wf project no]) auto
  with j(2) show ?thesis by simp
qed simp

text \<open>C19: the verifier accepts exactly the longest good prefix.  Below \<open>2^64\<close> events there is
  exactly one longest prefix of the stored events that is a chain (sequences from 1 without gaps,
  one project, every event linked to its predecessor's hash and hashed by the formula); the
  report's head is its last event, no break is reported exactly when it is everything stored, and
  otherwise the break names the first sequence after it.\<close>

theorem verify_chain_accepts:
  assumes "length es < 2 ^ 64"
  shows "\<exists>!k. good_prefix sha es k
    \<and> cr_head (verify_chain sha es a) = head_of (take k es)
    \<and> (cr_first_break (verify_chain sha es a) = None \<longleftrightarrow> k = length es)
    \<and> (\<forall>b. cr_first_break (verify_chain sha es a) = Some b \<longrightarrow> b_seq b = of_nat (k + 1))"
proof -
  obtain k where k: "stopped sha a es k (walk sha (verifier_new a) es)" "good_prefix sha es k"
    using walk_good [OF assms] .
  note f = stopped_fields [OF k(1)]
  have r: "cr_head (finish v) = v_head v" "cr_first_break (finish v) = v_first_break v" for v
    by (simp_all add: finish_def Let_def split: option.split prod.split)
  have "good_prefix sha es k
    \<and> cr_head (verify_chain sha es a) = head_of (take k es)
    \<and> (cr_first_break (verify_chain sha es a) = None \<longleftrightarrow> k = length es)
    \<and> (\<forall>b. cr_first_break (verify_chain sha es a) = Some b \<longrightarrow> b_seq b = of_nat (k + 1))"
    unfolding verify_chain_def r using k(2) f(2,4,5) by blast
  then show ?thesis by (intro ex1I [of _ k]) (auto intro: good_prefix_unique)
qed

text \<open>Sealing extends a verified chain.  An event sealed after a good chain, at the next
  sequence, with the last hash and in the same project, makes the longer list a good chain too,
  and the verifier accepts it without a break; and only such events do: every good chain's last
  event is what sealing its fields yields.\<close>

theorem seal_extends_chain:
  assumes "chain_ok sha es" "length es + 1 < 2 ^ 64" "es \<noteq> [] \<longrightarrow> p = project_id (hd es)"
    and "seal sha p (of_nat (length es + 1)) (map_option h_hash (head_of es)) d = Inr e"
  shows "chain_ok sha (es @ [e]) \<and> cr_first_break (verify_chain sha (es @ [e]) a) = None
    \<and> cr_head (verify_chain sha (es @ [e]) a) = Some \<lparr>h_seq = seq e, h_hash = event_hash e\<rparr>"
proof -
  have "link_ok sha es e"
    using assms(3,4) seal_hash [OF assms(4)] by (auto simp: seal_Inr link_ok_def)
  with assms(1) have ok: "chain_ok sha (es @ [e])" by (simp add: chain_ok_snoc)
  then have good: "good_prefix sha (es @ [e]) (length (es @ [e]))" by (simp add: good_prefix_def)
  have s: "stopped sha a (es @ [e]) (length (es @ [e])) (walk sha (verifier_new a) (es @ [e]))"
    using assms(2) by (intro verify_stopped [OF good]) simp
  have r: "cr_head (finish v) = v_head v" "cr_first_break (finish v) = v_first_break v" for v
    by (simp_all add: finish_def Let_def split: option.split prod.split)
  have "seq e = of_nat (length es + 1)" using \<open>link_ok sha es e\<close> by (simp add: link_ok_def)
  then show ?thesis using ok stopped_fields(2,4) [OF s]
    unfolding verify_chain_def r by (simp add: head_of_def)
qed

text \<open>What an acknowledged gap means.  When the report says the anchor's gap is acknowledged,
  the stored chain contains, at the reported sequence, an owner's acknowledgement event whose
  payload names exactly the supplied anchor, this project's tag for it and the head the chain had
  just before it; the anchor's own hash is not in the chain; and only the events after the
  acknowledgement count as unanchored.\<close>

theorem acknowledged_gap_sound:
  assumes "length es < 2 ^ 64" "cr_anchor (verify_chain sha es a) = Acknowledged s restored n"
  shows "\<exists>x k i p. a = Some x \<and> s = a_seq x \<and> good_prefix sha es k \<and> i < k
    \<and> n = seq (es ! i) \<and> actor (es ! i) = Owner \<and> type_name (es ! i) = anchor_restore_acknowledged
    \<and> restore_acknowledged_from_value (payload (es ! i)) = Some p
    \<and> acknowledged_anchor p = x \<and> ra_tag p = anchor_tag (project_id (es ! i)) (a_seq x)
    \<and> ra_restored_seq p = of_nat i \<and> ra_restored_head p = map_option h_hash (head_of (take i es))
    \<and> restored = head_of (take i es)
    \<and> \<not> (reaches x k \<and> hash_at es (a_seq x) = a_hash x)
    \<and> cr_unanchored (verify_chain sha es a) = (if unat n < k then Some (n + 1, of_nat k) else None)"
proof -
  obtain k where k: "stopped sha a es k (walk sha (verifier_new a) es)" "good_prefix sha es k"
    using walk_good [OF assms(1)] .
  have kl: "k \<le> length es" using k(2) by (simp add: good_prefix_def)
  have v: "verdict_of a es k = Acknowledged s restored n"
    using assms(2) finish_verdict [OF k(1)] by (simp add: verify_chain_def)
  then obtain x where a: "a = Some x" by (auto simp: verdict_of_def split: option.splits)
  from v obtain ack where ack: "latest_ack x (take k es) = Some ack" "s = a_seq x" "restored = ar_restored ack"
      "n = ar_seq ack" and no: "\<not> (reaches x k \<and> hash_at es (a_seq x) = a_hash x)"
    by (auto simp: verdict_of_def a Let_def split: if_splits option.splits)
  obtain j where "j < length (rev (acks_of [] (take k es)))" "rev (acks_of [] (take k es)) ! j = ack"
    and anchor: "ar_anchor ack = x"
    using ack(1) unfolding latest_ack_def find_Some_iff by blast
  then have "ack \<in> set (rev (acks_of [] (take k es)))" by (metis nth_mem)
  then obtain i where i: "i < k" "acknowledgement (es ! i) (head_of (take i es)) = Some ack"
    using acks_of_seq [of ack "[]" "take k es"] kl by (auto simp: min_def split: if_splits)
  then obtain p where p: "restore_acknowledged_from_value (payload (es ! i)) = Some p"
      "ra_tag p = anchor_tag (project_id (es ! i)) (ra_seq p)"
      "ra_restored_seq p = restored_seq_of (head_of (take i es))"
      "ra_restored_head p = map_option h_hash (head_of (take i es))"
      "ack = \<lparr>ar_seq = seq (es ! i), ar_anchor = acknowledged_anchor p, ar_restored = head_of (take i es)\<rparr>"
      "actor (es ! i) = Owner" "type_name (es ! i) = anchor_restore_acknowledged"
    by (auto simp: acknowledgement_def split: if_splits option.splits)
  have "ra_seq p = a_seq x" using anchor p(5) by (auto simp: acknowledged_anchor_def)
  moreover have "cr_unanchored (verify_chain sha es a) = (if unat n < k then Some (n + 1, of_nat k) else None)"
    using finish_unanchored(1) [OF k(1) assms(1)] assms(2) by (simp add: verify_chain_def covered_def)
  ultimately show ?thesis
    using a ack no i p anchor k(2) kl
    by (intro exI [of _ x] exI [of _ k] exI [of _ i] exI [of _ p]) (auto simp: min_def)
qed

text \<open>C20: what counts as unanchored.  The report's unanchored range is exactly the accepted
  sequences after the acknowledgement when the gap is acknowledged, after the anchored sequence
  otherwise, and from 1 without an anchor; and the reported age starts at the first accepted
  event in that range that is not one of the anchor command's own.\<close>

theorem unanchored_work_reported:
  assumes "length es < 2 ^ 64" "good_prefix sha es k"
  shows "let r = verify_chain sha es a; n = covered a (cr_anchor r)
    in cr_unanchored r = (if unat n < k then Some (n + 1, of_nat k) else None)
       \<and> cr_age_unanchored_since r = first_work_of (\<lambda>e. seq e > n) (take k es)"
  using finish_unanchored [OF verify_stopped [OF assms(2,1)] assms(1)]
  by (simp add: verify_chain_def Let_def)

section \<open>Witnesses\<close>

definition zero_hash :: hash where
  "zero_hash = Hash (replicate 32 (CHR 0x00))"

definition zero_sha :: "string \<Rightarrow> string" where
  "zero_sha s = replicate 32 (CHR 0x00)"

definition example_draft :: "string \<Rightarrow> json \<Rightarrow> event_draft" where
  "example_draft type body =
     \<lparr>d_stream = ''project'', d_stream_version = 1, d_type_name = type, d_type_version = 1, d_actor = Owner,
      d_caller = None, d_recorded_at = ''2024-01-01T00:00:00Z'', d_request_id = ''r'', d_git = None,
      d_policy_version = 1, d_payload = body\<rparr>"

definition example_event :: "nat \<Rightarrow> string \<Rightarrow> json \<Rightarrow> event" where
  "example_event n type body =
     (place ''p'' (of_nat n) (if n = 1 then None else Some zero_hash) (example_draft type body))\<lparr>event_hash := zero_hash\<rparr>"

lemma numbers_safe_dec: "k < 2 ^ 53 \<Longrightarrow> numbers_safe (JNumber (dec k))"
  using parse_i64_dec [of k] by (simp add: max_safe_integer_def)

lemma numbers_safe_jnum: "unat n < 2 ^ 53 \<Longrightarrow> numbers_safe (jnum n)"
  using numbers_safe_dec by (simp add: jnum_def dec_u64_def del: numbers_safe.simps)

lemma numbers_safe_jnum32 [simp]: "numbers_safe (jnum32 n)"
proof -
  have "unat n < 2 ^ 32" using unsigned_less [of n, where ?'a = nat] by simp
  then show ?thesis unfolding jnum32_def by (intro numbers_safe_dec) simp
qed

lemma example_envelope_safe:
  assumes "n < 2 ^ 53"
  shows "numbers_safe (envelope (example_event n type body))"
proof -
  have "unat (of_nat n :: u64) = n" using assms by (intro unat_of_nat_u64) simp
  then have "numbers_safe (jnum (of_nat n))" using assms by (intro numbers_safe_jnum) (simp only:)
  moreover have "numbers_safe (jnum 1)" by (rule numbers_safe_jnum) simp
  ultimately show ?thesis
    by (simp add: envelope_def numbers_safe_jobj envelope_members_def example_event_def place_def
        example_draft_def opt_member_def hash_or_null_def)
qed

lemma example_hash:
  assumes "n < 2 ^ 53" "numbers_safe body"
  shows "compute_hash zero_sha (example_event n type body) = Inr zero_hash"
proof -
  let ?e = "example_event n type body"
  obtain b where "canonical_json (envelope ?e) = Inr b"
    using example_envelope_safe [OF assms(1)] canonical_json_ok by metis
  moreover have "payload ?e = body" by (simp add: example_event_def example_draft_def)
  moreover obtain c where "canonical_json body = Inr c" using assms(2) canonical_json_ok by metis
  ultimately show ?thesis
    by (simp add: compute_hash_def canonical_envelope_def chain_hash_def zero_sha_def zero_hash_def)
qed

lemma example_event_wf: "json_wf body \<Longrightarrow> event_wf (example_event n type body)"
  by (simp add: event_wf_def example_event_def example_draft_def zero_hash_def hash_wf_def)

lemma example_fields [simp]:
  "seq (example_event n type body) = of_nat n" "project_id (example_event n type body) = ''p''"
  "event_hash (example_event n type body) = zero_hash" "payload (example_event n type body) = body"
  "type_name (example_event n type body) = type" "actor (example_event n type body) = Owner"
  "prev_hash (example_event n type body) = (if n = 1 then None else Some zero_hash)"
  "type_version (example_event n type body) = 1"
  by (simp_all add: example_event_def example_draft_def place_def)

lemma example_link:
  assumes "length es + 1 < 2 ^ 53" "numbers_safe body" "es \<noteq> [] \<longrightarrow> project_id (hd es) = ''p'' \<and> event_hash (last es) = zero_hash"
  shows "link_ok zero_sha es (example_event (length es + 1) type body)"
  using assms example_hash [of "length es + 1" body type] by (simp add: link_ok_def)

definition example_chain :: "string \<Rightarrow> event list" where
  "example_chain number = [example_event 1 ''work.done'' (JNumber number), example_event 2 ''work.done'' JNull]"

lemma chain_ok_single: "chain_ok sha [e] \<longleftrightarrow> link_ok sha [] e"
  using chain_ok_snoc [of sha "[]" e] by simp

lemma example_chain_ok:
  assumes "numbers_safe (JNumber number)"
  shows "chain_ok zero_sha (example_chain number)"
proof -
  let ?e = "example_event 1 ''work.done'' (JNumber number)"
  have "chain_ok zero_sha ([] @ [?e])"
    using example_link [of "[]" "JNumber number" "''work.done''"] assms unfolding chain_ok_snoc by simp
  moreover have "link_ok zero_sha [?e] (example_event (length [?e] + 1) ''work.done'' JNull)"
    by (rule example_link) simp_all
  then have "link_ok zero_sha [?e] (example_event 2 ''work.done'' JNull)" by (simp add: numeral_2_eq_2)
  moreover have "link_ok zero_sha [] ?e" using calculation chain_ok_single [of zero_sha ?e] by simp
  ultimately have "chain_ok zero_sha ([?e] @ [example_event 2 ''work.done'' JNull])"
    unfolding chain_ok_snoc by (simp add: chain_ok_single)
  then show ?thesis by (simp add: example_chain_def)
qed

lemma example_chain_good: "numbers_safe (JNumber number) \<Longrightarrow> good_prefix zero_sha (example_chain number) 2"
  using example_chain_ok by (simp add: good_prefix_def example_chain_def)

lemma example_chain_matches:
  assumes "numbers_safe (JNumber number)"
  shows "cr_anchor (verify_chain zero_sha (example_chain number) (Some \<lparr>a_seq = 1, a_hash = zero_hash\<rparr>)) = Matches"
proof -
  have "verdict_of (Some \<lparr>a_seq = 1, a_hash = zero_hash\<rparr>) (example_chain number) 2 = Matches"
    by (simp add: verdict_of_def reaches_def hash_at_def example_chain_def)
  then show ?thesis
    using finish_verdict [OF verify_stopped [OF example_chain_good [OF assms]]]
    by (simp add: verify_chain_def example_chain_def)
qed

lemma zero_numbers_safe: "numbers_safe (JNumber ''0'')" "numbers_safe (JNumber ''-0'')"
  by (simp_all add: parse_i64_def all_digits_def is_digit_def undec_def digit_val_def max_safe_integer_def)

theorem anchored_history_unique_witness:
  "map norm_event (take 1 (example_chain ''0'')) = map norm_event (take 1 (example_chain ''-0''))
   \<or> collision zero_sha (example_chain ''0'') (example_chain ''-0'')"
  using anchored_history_unique [of "example_chain ''0''" "example_chain ''-0''" zero_sha "\<lparr>a_seq = 1, a_hash = zero_hash\<rparr>"]
    example_chain_matches zero_numbers_safe
  by (simp add: example_chain_def example_event_wf)

theorem verify_chain_accepts_witness:
  "\<exists>!k. good_prefix zero_sha (example_chain ''0'') k
    \<and> cr_head (verify_chain zero_sha (example_chain ''0'') None) = head_of (take k (example_chain ''0''))
    \<and> (cr_first_break (verify_chain zero_sha (example_chain ''0'') None) = None \<longleftrightarrow> k = length (example_chain ''0''))
    \<and> (\<forall>b. cr_first_break (verify_chain zero_sha (example_chain ''0'') None) = Some b \<longrightarrow> b_seq b = of_nat (k + 1))"
  by (rule verify_chain_accepts) (simp add: example_chain_def)

theorem seal_extends_chain_witness:
  "cr_head (verify_chain zero_sha (example_chain ''0'' @ [example_event 3 ''work.done'' JNull]) None)
     = Some \<lparr>h_seq = 3, h_hash = zero_hash\<rparr>"
proof -
  have h: "compute_hash zero_sha (place ''p'' 3 (Some zero_hash) (example_draft ''work.done'' JNull)) = Inr zero_hash"
    using example_hash [of 3 JNull "''work.done''"] by (simp add: example_event_def)
  have "seal zero_sha ''p'' (of_nat (length (example_chain ''0'') + 1)) (map_option h_hash (head_of (example_chain ''0'')))
      (example_draft ''work.done'' JNull) = Inr (example_event 3 ''work.done'' JNull)"
    by (simp add: seal_Inr example_chain_def h) (simp add: example_event_def)
  with seal_extends_chain [of zero_sha "example_chain ''0''" "''p''" "example_draft ''work.done'' JNull"
      "example_event 3 ''work.done'' JNull" None] example_chain_ok [OF zero_numbers_safe(1)]
  show ?thesis by (simp add: example_chain_def)
qed

definition example_ack :: restore_acknowledged_payload where
  "example_ack = \<lparr>ra_remote = ''origin'', ra_tag = ''baley-anchor/p/5'', ra_seq = 5, ra_head = zero_hash,
     ra_restored_seq = 0, ra_restored_head = None, ra_checked_at = ''2024-01-01T00:00:00Z''\<rparr>"

lemma example_ack_safe: "numbers_safe (restore_acknowledged_to_value example_ack)"
proof -
  have "numbers_safe (jnum 5)" "numbers_safe (jnum 0)" by (rule numbers_safe_jnum, simp)+
  then show ?thesis
    by (simp add: restore_acknowledged_to_value_def numbers_safe_jobj example_ack_def hash_or_null_def)
qed

lemma example_ack_decodes:
  "restore_acknowledged_from_value (restore_acknowledged_to_value example_ack) = Some example_ack"
  by (rule restore_acknowledged.decode_encode)
    (simp add: restore_acknowledged_wf_def example_ack_def zero_hash_def hash_wf_def)

theorem acknowledged_gap_sound_witness:
  "\<exists>x k i p. Some \<lparr>a_seq = 5, a_hash = zero_hash\<rparr> = Some x \<and> (5::u64) = a_seq x
    \<and> good_prefix zero_sha [example_event 1 anchor_restore_acknowledged (restore_acknowledged_to_value example_ack)] k \<and> i < k
    \<and> restore_acknowledged_from_value (payload ([example_event 1 anchor_restore_acknowledged
          (restore_acknowledged_to_value example_ack)] ! i)) = Some p \<and> acknowledged_anchor p = x"
proof -
  let ?e = "example_event 1 anchor_restore_acknowledged (restore_acknowledged_to_value example_ack)"
  let ?x = "\<lparr>a_seq = 5, a_hash = zero_hash\<rparr>"
  have "link_ok zero_sha [] ?e"
    using example_link [of "[]" "restore_acknowledged_to_value example_ack" anchor_restore_acknowledged] example_ack_safe
    by simp
  then have good: "good_prefix zero_sha [?e] 1"
    using chain_ok_snoc [of zero_sha "[]" ?e] by (simp add: good_prefix_def)
  have tag: "anchor_tag ''p'' 5 = ''baley-anchor/p/5''"
    by code_simp
  have "acknowledgement ?e None = Some \<lparr>ar_seq = 1, ar_anchor = ?x, ar_restored = None\<rparr>"
    using example_ack_decodes tag
    by (simp add: acknowledgement_def anchor_restore_acknowledged_version_def)
      (simp add: example_ack_def restored_seq_of_def acknowledged_anchor_def)
  then have "verdict_of (Some ?x) [?e] 1 = Acknowledged 5 None 1"
    by (simp add: verdict_of_def reaches_def latest_ack_def head_of_def)
  then have "cr_anchor (verify_chain zero_sha [?e] (Some ?x)) = Acknowledged 5 None 1"
    using finish_verdict [OF verify_stopped [OF good]] by (simp add: verify_chain_def)
  from acknowledged_gap_sound [OF _ this] show ?thesis by auto
qed

theorem unanchored_work_reported_witness:
  "let r = verify_chain zero_sha (example_chain ''0'') None; n = covered None (cr_anchor r)
   in cr_unanchored r = (if unat n < 2 then Some (n + 1, of_nat 2) else None)
      \<and> cr_age_unanchored_since r = first_work_of (\<lambda>e. seq e > n) (take 2 (example_chain ''0''))"
  by (rule unanchored_work_reported [OF _ example_chain_good [OF zero_numbers_safe(1)]])
    (simp add: example_chain_def)

end
