(* ===== verification/Payload.thy ===== *)
theory Payload
  imports Chain
begin

text \<open>
  Payload references (\<open>baley-store/src/payload.rs\<close>), the store's retention events
  (\<open>baley-store/src/retention.rs\<close>) and the eligibility rule of the core
  (\<open>baley-core/src/retention.rs\<close>).  Reading and writing bodies is the adapter's and is not
  modelled here.  The codecs are interpreted; eligibility is characterised on every branch.
\<close>

section \<open>References\<close>

datatype retention_class = Record | Output | Material

fun class_str :: "retention_class \<Rightarrow> string" where
  "class_str Record = ''record''"
| "class_str Output = ''output''"
| "class_str Material = ''material''"

definition class_parse :: "string \<Rightarrow> retention_class option" where
  "class_parse t =
     (if t = ''record'' then Some Record
      else if t = ''output'' then Some Output
      else if t = ''material'' then Some Material
      else None)"

record payload_ref =
  pr_hash :: hash
  pr_bytes :: u64
  pr_class :: retention_class

definition ref_to_value :: "payload_ref \<Rightarrow> json" where
  "ref_to_value r =
     jobj [(''payload'', JString (to_hex (pr_hash r))), (''bytes'', jnum (pr_bytes r)),
           (''class'', JString (class_str (pr_class r)))]"

definition ref_from_value :: "json \<Rightarrow> payload_ref option" where
  "ref_from_value v = do {
     m \<leftarrow> as_object v;
     if length m \<noteq> 3 then None else do {
       h \<leftarrow> Option.bind (Option.bind (map_of m ''payload'') as_str) from_hex;
       n \<leftarrow> Option.bind (map_of m ''bytes'') as_u64;
       c \<leftarrow> Option.bind (Option.bind (map_of m ''class'') as_str) class_parse;
       Some \<lparr>pr_hash = h, pr_bytes = n, pr_class = c\<rparr> } }"

datatype payload_status =
    Present u64
  | Reduced payload_ref "(u64 \<times> u64) list"
  | Purged string

section \<open>Retention events\<close>

definition payload_reduced :: string where "payload_reduced = ''payload.reduced''"
definition payload_purged :: string where "payload_purged = ''payload.purged''"
definition retention_stream :: string where "retention_stream = ''retention''"
definition excerpt_edge :: u64 where "excerpt_edge = 65536"

definition kept_ranges :: "u64 \<Rightarrow> ((u64 \<times> u64) \<times> (u64 \<times> u64)) option" where
  "kept_ranges bytes =
     (if bytes > excerpt_edge * 2 then Some ((0, excerpt_edge), (bytes - excerpt_edge, bytes)) else None)"

record reduced_event =
  re_seq :: u64
  re_original :: hash
  re_original_bytes :: u64
  re_excerpt :: payload_ref
  re_kept :: "(u64 \<times> u64) \<times> (u64 \<times> u64)"

definition range_to_value :: "u64 \<times> u64 \<Rightarrow> json" where
  "range_to_value r = JArray [jnum (fst r), jnum (snd r)]"

definition reduced_to_value :: "reduced_event \<Rightarrow> json" where
  "reduced_to_value e =
     jobj [(''reference'', jobj [(''seq'', jnum (re_seq e)), (''hash'', JString (to_hex (re_original e)))]),
           (''original_bytes'', jnum (re_original_bytes e)), (''excerpt'', ref_to_value (re_excerpt e)),
           (''kept'', JArray [range_to_value (fst (re_kept e)), range_to_value (snd (re_kept e))])]"

definition nth_opt :: "'a list \<Rightarrow> nat \<Rightarrow> 'a option" where
  "nth_opt xs i = (if i < length xs then Some (xs ! i) else None)"

definition range_from :: "json \<Rightarrow> nat \<Rightarrow> (u64 \<times> u64) option" where
  "range_from v i = do {
     kept \<leftarrow> Option.bind (jget ''kept'' v) as_array;
     values \<leftarrow> Option.bind (nth_opt kept i) as_array;
     if length values \<noteq> 2 then None else do {
       a \<leftarrow> as_u64 (values ! 0);
       b \<leftarrow> as_u64 (values ! 1);
       Some (a, b) } }"

definition reduced_from_value :: "json \<Rightarrow> reduced_event option" where
  "reduced_from_value v = do {
     reference \<leftarrow> jget ''reference'' v;
     n \<leftarrow> Option.bind (jget ''seq'' reference) as_u64;
     original \<leftarrow> Option.bind (Option.bind (jget ''hash'' reference) as_str) from_hex;
     bytes \<leftarrow> Option.bind (jget ''original_bytes'' v) as_u64;
     excerpt \<leftarrow> Option.bind (jget ''excerpt'' v) ref_from_value;
     first \<leftarrow> range_from v 0;
     second \<leftarrow> range_from v 1;
     Some \<lparr>re_seq = n, re_original = original, re_original_bytes = bytes, re_excerpt = excerpt,
           re_kept = (first, second)\<rparr> }"

record purged_event =
  pe_requested :: "hash list"
  pe_released :: "(u64 \<times> hash) list"
  pe_removed :: "hash list"
  pe_shared :: "hash list"
  pe_reason :: string

definition hashes_to_value :: "hash list \<Rightarrow> json" where
  "hashes_to_value hs = JArray (map (\<lambda>h. JString (to_hex h)) hs)"

definition released_to_value :: "u64 \<times> hash \<Rightarrow> json" where
  "released_to_value p = JArray [jnum (fst p), JString (to_hex (snd p))]"

definition purged_to_value :: "purged_event \<Rightarrow> json" where
  "purged_to_value e =
     jobj [(''requested'', hashes_to_value (pe_requested e)),
           (''released'', JArray (map released_to_value (pe_released e))),
           (''removed'', hashes_to_value (pe_removed e)), (''shared'', hashes_to_value (pe_shared e)),
           (''reason'', JString (pe_reason e))]"

definition hashes_from :: "json \<Rightarrow> string \<Rightarrow> hash list option" where
  "hashes_from v name = do {
     items \<leftarrow> Option.bind (jget name v) as_array;
     those (map (\<lambda>item. Option.bind (as_str item) from_hex) items) }"

definition released_from :: "json \<Rightarrow> (u64 \<times> hash) option" where
  "released_from item = do {
     pair \<leftarrow> as_array item;
     if length pair \<noteq> 2 then None else do {
       n \<leftarrow> as_u64 (pair ! 0);
       h \<leftarrow> Option.bind (as_str (pair ! 1)) from_hex;
       Some (n, h) } }"

definition purged_from_value :: "json \<Rightarrow> purged_event option" where
  "purged_from_value v = do {
     requested \<leftarrow> hashes_from v ''requested'';
     items \<leftarrow> Option.bind (jget ''released'' v) as_array;
     released \<leftarrow> those (map released_from items);
     removed \<leftarrow> hashes_from v ''removed'';
     shared \<leftarrow> hashes_from v ''shared'';
     reason \<leftarrow> Option.bind (jget ''reason'' v) as_str;
     Some \<lparr>pe_requested = requested, pe_released = released, pe_removed = removed, pe_shared = shared,
           pe_reason = reason\<rparr> }"

section \<open>Eligibility\<close>

datatype closure =
    Unclosed
  | MilestoneClosed string
  | ReviewClosed string

datatype retention = Keep | Reduce | Purge

datatype retention_error =
    RetentionTime time_error
  | WrongClosure retention_class

definition material_seconds :: u64 where
  "material_seconds = 90 * 86400"

definition eligibility :: "payload_ref \<Rightarrow> closure \<Rightarrow> string \<Rightarrow> retention_error + retention" where
  "eligibility r c now =
     rbind (map_err RetentionTime (parse_instant now)) (\<lambda>now.
       if pr_class r = Record then Inr Keep
       else case c of
         Unclosed \<Rightarrow> Inr Keep
       | MilestoneClosed at \<Rightarrow>
           if pr_class r = Output
           then rbind (map_err RetentionTime (parse_instant at)) (\<lambda>at.
             Inr (if instant_less_eq at now \<and> kept_ranges (pr_bytes r) \<noteq> None then Reduce else Keep))
           else Inl (WrongClosure (pr_class r))
       | ReviewClosed at \<Rightarrow>
           if pr_class r = Material
           then rbind (map_err RetentionTime (parse_instant at)) (\<lambda>at.
             rbind (map_err RetentionTime (plus_seconds at material_seconds)) (\<lambda>deadline.
               Inr (if instant_less_eq deadline now then Purge else Keep)))
           else Inl (WrongClosure (pr_class r)))"

section \<open>The codecs\<close>

lemma class_parse_iff [simp]: "class_parse t = Some c \<longleftrightarrow> t = class_str c"
  by (cases c) (auto simp: class_parse_def)

lemma class_str_inject [simp]: "class_str a = class_str b \<longleftrightarrow> a = b"
  by (cases a; cases b) auto

definition ref_wf :: "payload_ref \<Rightarrow> bool" where
  "ref_wf r \<longleftrightarrow> hash_wf (pr_hash r)"

interpretation reference: codec ref_to_value ref_from_value ref_wf
  by unfold_locales
    (simp add: ref_from_value_def ref_to_value_def members_map_of members_length ref_wf_def bind_eq_Some_conv)

definition reduced_wf :: "reduced_event \<Rightarrow> bool" where
  "reduced_wf e \<longleftrightarrow> hash_wf (re_original e) \<and> ref_wf (re_excerpt e)"

lemma range_from_value [simp]:
  "jget ''kept'' v = Some (JArray [range_to_value a, range_to_value b]) \<Longrightarrow>
     range_from v 0 = Some a \<and> range_from v 1 = Some b"
  by (cases a; cases b) (simp add: range_from_def nth_opt_def range_to_value_def)

interpretation reduced: codec reduced_to_value reduced_from_value reduced_wf
proof unfold_locales
  fix e assume wf: "reduced_wf e"
  have k: "jget ''kept'' (reduced_to_value e) = Some (JArray [range_to_value (fst (re_kept e)), range_to_value (snd (re_kept e))])"
    by (simp add: reduced_to_value_def)
  from range_from_value [OF k] wf reference.decode_encode [of "re_excerpt e"]
  show "reduced_from_value (reduced_to_value e) = Some e"
    unfolding reduced_from_value_def
    by (auto simp: reduced_to_value_def reduced_wf_def)
qed

definition purged_wf :: "purged_event \<Rightarrow> bool" where
  "purged_wf e \<longleftrightarrow> list_all hash_wf (pe_requested e) \<and> list_all (hash_wf \<circ> snd) (pe_released e)
     \<and> list_all hash_wf (pe_removed e) \<and> list_all hash_wf (pe_shared e)"

lemma hashes_from_value:
  "jget k v = Some (hashes_to_value hs) \<Longrightarrow> list_all hash_wf hs \<Longrightarrow> hashes_from v k = Some hs"
  by (auto simp: hashes_from_def hashes_to_value_def list_all_iff comp_def intro!: those_map_some [where g = id, simplified])

interpretation purged: codec purged_to_value purged_from_value purged_wf
proof unfold_locales
  fix e assume wf: "purged_wf e"
  let ?v = "purged_to_value e"
  have "those (map released_from (map released_to_value (pe_released e))) = Some (pe_released e)"
    using wf unfolding map_map
    by (intro those_map_encode) (auto simp: released_from_def released_to_value_def purged_wf_def list_all_iff)
  moreover have "hashes_from ?v ''requested'' = Some (pe_requested e)" "hashes_from ?v ''removed'' = Some (pe_removed e)"
    "hashes_from ?v ''shared'' = Some (pe_shared e)"
    using wf by (auto simp: purged_to_value_def purged_wf_def intro!: hashes_from_value)
  ultimately show "purged_from_value ?v = Some e"
    unfolding purged_from_value_def by (simp add: purged_to_value_def)
qed

section \<open>The rules\<close>

lemma kept_ranges_Some:
  "kept_ranges n = Some (a, b) \<longleftrightarrow> 131072 < unat n \<and> a = (0, 65536) \<and> b = (n - 65536, n)"
  by (auto simp: kept_ranges_def excerpt_edge_def word_less_nat_alt)

text \<open>An excerpt keeps two disjoint edges.  Two ranges are kept exactly for bodies longer than
  131072 bytes; they are the first and the last 65536 bytes, in order, inside the body, without
  overlap, and together strictly shorter than it.\<close>

theorem kept_ranges_disjoint:
  "case kept_ranges n of
     None \<Rightarrow> unat n \<le> 131072
   | Some ((a, b), (c, d)) \<Rightarrow>
       a = 0 \<and> unat b = 65536 \<and> unat b < unat c \<and> d = n \<and> unat c + 65536 = unat n"
proof (cases "kept_ranges n")
  case None
  then show ?thesis by (auto simp: kept_ranges_def excerpt_edge_def word_less_nat_alt split: if_splits)
next
  case (Some p)
  then have n: "131072 < unat n" "p = ((0, 65536), (n - 65536, n))"
    by (cases p; simp add: kept_ranges_Some)+
  have "65536 \<le> n" using n(1) by (simp add: word_le_nat_alt)
  then have "unat (n - 65536) = unat n - 65536" by (simp add: unat_sub)
  with Some n show ?thesis by simp
qed

lemma material_seconds_value: "unat material_seconds = 7776000"
  by (simp add: material_seconds_def)

text \<open>C26: what retention permits, on every branch.  Material is purged exactly when 90 days have
  passed since its review closed, an output is reduced exactly when its milestone has closed and
  an excerpt saves space; a payload is kept exactly when it is a record, its reference is not closed,
  its material is not yet due or its output is open or too short to excerpt; the answer is an error
  exactly when the closing fact is the other class's, or its time does not parse or leaves the
  calendar.\<close>

theorem eligibility_cases:
  assumes "parse_instant now = Inr t"
  shows "(eligibility r c now = Inr Purge \<longleftrightarrow>
      pr_class r = Material \<and> (\<exists>at s. c = ReviewClosed at \<and> parse_instant at = Inr s
        \<and> seconds s + 90 * 86400 < civil_days 10000 1 1 * 86400
        \<and> instant_less_eq \<lparr>seconds = seconds s + 90 * 86400, nanos = nanos s\<rparr> t))
    \<and> (eligibility r c now = Inr Reduce \<longleftrightarrow>
      pr_class r = Output \<and> (\<exists>at s. c = MilestoneClosed at \<and> parse_instant at = Inr s
        \<and> instant_less_eq s t \<and> 131072 < unat (pr_bytes r)))
    \<and> (eligibility r c now = Inr Keep \<longleftrightarrow>
      pr_class r = Record \<or> c = Unclosed
      \<or> pr_class r = Material \<and> (\<exists>at s. c = ReviewClosed at \<and> parse_instant at = Inr s
        \<and> seconds s + 90 * 86400 < civil_days 10000 1 1 * 86400
        \<and> \<not> instant_less_eq \<lparr>seconds = seconds s + 90 * 86400, nanos = nanos s\<rparr> t)
      \<or> pr_class r = Output \<and> (\<exists>at s. c = MilestoneClosed at \<and> parse_instant at = Inr s
        \<and> (\<not> instant_less_eq s t \<or> unat (pr_bytes r) \<le> 131072)))
    \<and> (eligibility r c now = Inl (WrongClosure k) \<longleftrightarrow>
      k = pr_class r \<and> (pr_class r = Output \<and> (\<exists>at. c = ReviewClosed at)
        \<or> pr_class r = Material \<and> (\<exists>at. c = MilestoneClosed at)))
    \<and> ((\<exists>err. eligibility r c now = Inl (RetentionTime err)) \<longleftrightarrow>
      pr_class r = Material \<and> (\<exists>at. c = ReviewClosed at
        \<and> (case parse_instant at of Inl _ \<Rightarrow> True | Inr s \<Rightarrow> civil_days 10000 1 1 * 86400 \<le> seconds s + 90 * 86400))
      \<or> pr_class r = Output \<and> (\<exists>at. c = MilestoneClosed at \<and> \<not> is_ok (parse_instant at)))"
proof -
  have e: "civil_days 10000 1 1 = 3652365" by (simp add: civil_days_def Let_def)
  have k: "kept_ranges n = None \<longleftrightarrow> \<not> 131072 < unat n" for n
    by (auto simp: kept_ranges_def excerpt_edge_def word_less_nat_alt)
  have p: "plus_seconds s material_seconds =
      (if seconds s + 7776000 < 3652365 * 86400 then Inr \<lparr>seconds = seconds s + 7776000, nanos = nanos s\<rparr> else Inl TimeError)"
    if "parse_instant at = Inr s" for at s
    using plus_seconds_eq [OF parse_instant_valid [OF that], of material_seconds] by (simp only: material_seconds_value) simp
  show ?thesis
  proof (cases c)
    case Unclosed
    with assms show ?thesis by (cases "pr_class r") (simp_all add: eligibility_def)
  next
    case (MilestoneClosed at)
    with assms show ?thesis
      by (cases "pr_class r"; cases "parse_instant at") (auto simp: eligibility_def k not_less)
  next
    case (ReviewClosed at)
    with assms show ?thesis
      by (cases "pr_class r"; cases "parse_instant at") (auto simp: eligibility_def p e not_less)
  qed
qed

theorem eligibility_cases_witness:
  "eligibility \<lparr>pr_hash = zero_hash, pr_bytes = 1, pr_class = Output\<rparr> (MilestoneClosed ''2024-02-29T23:59:59Z'') ''2024-02-29T23:59:59Z''
     = Inr Keep"
proof -
  have t: "parse_instant ''2024-02-29T23:59:59Z'' = Inr \<lparr>seconds = 63871286399, nanos = 0\<rparr>"
    by (simp add: parse_instant_def slice_def digits_def is_digit_def digit_val_def parse_fraction_def
        month_days_def leap_year_def civil_days_def)
  from eligibility_cases [OF t, of "\<lparr>pr_hash = zero_hash, pr_bytes = 1, pr_class = Output\<rparr>" "MilestoneClosed ''2024-02-29T23:59:59Z''"]
  show ?thesis by (simp add: t)
qed

end
