(* ===== verification/Projection.thy ===== *)
theory Projection
  imports Chain
begin

text \<open>
  Views and projectors (\<open>baley-store/src/view.rs\<close>) and how the SQLite adapter folds events into
  documents (\<open>fold\<close>, \<open>write_staged\<close> and \<open>write_change\<close> of
  \<open>baley-store-sqlite/src/view.rs\<close>).  A view's table in one generation is a map from document
  keys to documents; SQL itself is not modelled.  A run of events is folded into staged documents
  held in memory, each written once at the end.  The central lemma is that this staging is
  invisible: one run over two batches of events leaves what two runs leave, so a rebuild by
  replay agrees with the projection made event by event.  The locale \<open>view_projector\<close> states what
  every projector promises the adapter; the store's own projectors and the domain's are
  interpreted in their theories.
\<close>

section \<open>Documents\<close>

datatype key_value = KText string | KInteger int

instantiation key_value :: linorder
begin

fun less_eq_key_value :: "key_value \<Rightarrow> key_value \<Rightarrow> bool" where
  "KText s \<le> KText t \<longleftrightarrow> s \<le> t"
| "KText _ \<le> KInteger _ \<longleftrightarrow> True"
| "KInteger _ \<le> KText _ \<longleftrightarrow> False"
| "KInteger i \<le> KInteger j \<longleftrightarrow> i \<le> j"

definition less_key_value :: "key_value \<Rightarrow> key_value \<Rightarrow> bool" where
  "less_key_value a b \<longleftrightarrow> a \<le> b \<and> \<not> b \<le> a"

instance
proof
  fix x y z :: key_value
  show "x < y \<longleftrightarrow> x \<le> y \<and> \<not> y \<le> x" by (rule less_key_value_def)
  show "x \<le> x" by (cases x) auto
  show "x \<le> y \<Longrightarrow> y \<le> z \<Longrightarrow> x \<le> z" by (cases x; cases y; cases z) auto
  show "x \<le> y \<Longrightarrow> y \<le> x \<Longrightarrow> x = y" by (cases x; cases y) auto
  show "x \<le> y \<or> y \<le> x" by (cases x; cases y) auto
qed

end

type_synonym doc_key = "key_value list"

datatype field_kind = FText | FInteger

datatype sort_order = Ascending | Descending

record index_spec =
  ix_name :: string
  ix_fields :: "(string \<times> field_kind \<times> sort_order) list"

record view_spec =
  vs_name :: string
  vs_version :: u32
  vs_key :: "(string \<times> field_kind) list"
  vs_indexes :: "index_spec list"
  vs_page_bound :: u32

record document =
  doc_seq :: u64
  doc_body :: json

type_synonym view_table = "doc_key \<Rightarrow> document option"

datatype change = Put doc_key json | Delete doc_key

fun change_key :: "change \<Rightarrow> doc_key" where
  "change_key (Put k b) = k"
| "change_key (Delete k) = k"

fun change_body :: "change \<Rightarrow> json option" where
  "change_body (Put k b) = Some b"
| "change_body (Delete k) = None"

type_synonym projector_error = string

record projector =
  p_spec :: view_spec
  p_handles :: "string list"
  p_keys :: "event \<Rightarrow> doc_key list"
  p_apply :: "event \<Rightarrow> (doc_key \<times> json) list \<Rightarrow> projector_error + change list"

section \<open>Writing a document\<close>

datatype view_error =
    Malformed string
  | SequencePastI64 u64
  | ProjectorFailed string u64 string

fun kind_fits :: "key_value \<Rightarrow> field_kind \<Rightarrow> bool" where
  "kind_fits (KText _) FText = True"
| "kind_fits (KInteger _) FInteger = True"
| "kind_fits _ _ = False"

definition fitted :: "key_value list \<Rightarrow> field_kind list \<Rightarrow> bool" where
  "fitted vs ks \<longleftrightarrow> length vs = length ks \<and> list_all (\<lambda>(v, k). kind_fits v k) (zip vs ks)"

fun holds_value :: "json option \<Rightarrow> key_value \<Rightarrow> bool" where
  "holds_value held (KText t) = (Option.bind held as_str = Some t)"
| "holds_value held (KInteger n) = (Option.bind held as_i64 = Some n)"

fun holds_kind :: "json option \<Rightarrow> field_kind \<Rightarrow> bool" where
  "holds_kind held FText = (Option.bind held as_str \<noteq> None)"
| "holds_kind held FInteger = (Option.bind held as_i64 \<noteq> None)"

definition key_held :: "view_spec \<Rightarrow> doc_key \<Rightarrow> json \<Rightarrow> bool" where
  "key_held spec k b \<longleftrightarrow> list_all (\<lambda>((name, _), v). holds_value (jget name b) v) (zip (vs_key spec) k)"

definition index_columns :: "view_spec \<Rightarrow> (string \<times> field_kind) list" where
  "index_columns spec = map (\<lambda>(name, kind, _). (name, kind)) (concat (map ix_fields (vs_indexes spec)))"

definition index_held :: "view_spec \<Rightarrow> json \<Rightarrow> bool" where
  "index_held spec b \<longleftrightarrow> list_all (\<lambda>(name, kind). holds_kind (jget name b) kind) (index_columns spec)"

definition check_change :: "view_spec \<Rightarrow> doc_key \<Rightarrow> json option \<Rightarrow> u64 \<Rightarrow> view_error + unit" where
  "check_change spec k body n =
     (if \<not> fitted k (map snd (vs_key spec)) then Inl (Malformed (vs_name spec))
      else case body of
        None \<Rightarrow> Inr ()
      | Some b \<Rightarrow>
          if \<not> key_held spec k b then Inl (Malformed (vs_name spec))
          else if \<not> index_held spec b then Inl (Malformed (vs_name spec))
          else if 2 ^ 63 \<le> unat n then Inl (SequencePastI64 n)
          else (case canonical_json b of Inl _ \<Rightarrow> Inl (Malformed (vs_name spec)) | Inr _ \<Rightarrow> Inr ()))"

definition write_change :: "view_spec \<Rightarrow> view_table \<Rightarrow> doc_key \<Rightarrow> json option \<Rightarrow> u64 \<Rightarrow> view_error + view_table" where
  "write_change spec table k body n =
     rbind (check_change spec k body n) (\<lambda>_.
       Inr (table(k := map_option (\<lambda>b. \<lparr>doc_seq = n, doc_body = b\<rparr>) body)))"

section \<open>Folding events\<close>

record staged =
  st_body :: "json option"
  st_seq :: u64

type_synonym staging = "(doc_key \<times> staged) list"

definition doc_read :: "view_table \<Rightarrow> staging \<Rightarrow> doc_key \<Rightarrow> json option" where
  "doc_read table staged k =
     (case map_of staged k of Some s \<Rightarrow> st_body s | None \<Rightarrow> map_option doc_body (table k))"

definition documents_at :: "view_table \<Rightarrow> staging \<Rightarrow> doc_key list \<Rightarrow> (doc_key \<times> json) list" where
  "documents_at table staged ks = List.map_filter (\<lambda>k. map_option (Pair k) (doc_read table staged k)) ks"

definition stage :: "u64 \<Rightarrow> staging \<Rightarrow> change \<Rightarrow> staging" where
  "stage n staged c = ains (change_key c) \<lparr>st_body = change_body c, st_seq = n\<rparr> staged"

text \<open>A key not staged is read from its table, which refuses one that does not fit its fields.\<close>

definition key_refused :: "view_spec \<Rightarrow> staging \<Rightarrow> doc_key \<Rightarrow> bool" where
  "key_refused spec staged k \<longleftrightarrow> map_of staged k = None \<and> \<not> fitted k (map snd (vs_key spec))"

definition fold_event :: "projector \<Rightarrow> view_table \<Rightarrow> event \<Rightarrow> staging \<Rightarrow> view_error + staging" where
  "fold_event p table e staged =
     (if type_name e \<notin> set (p_handles p) then Inr staged
      else if list_ex (key_refused (p_spec p) staged) (p_keys p e) then Inl (Malformed (vs_name (p_spec p)))
      else rbind (map_err (ProjectorFailed (vs_name (p_spec p)) (seq e))
                   (p_apply p e (documents_at table staged (p_keys p e)))) (\<lambda>cs.
        Inr (foldl (stage (seq e)) staged cs)))"

fun fold_events :: "projector \<Rightarrow> view_table \<Rightarrow> event list \<Rightarrow> staging \<Rightarrow> view_error + staging" where
  "fold_events p table [] staged = Inr staged"
| "fold_events p table (e # es) staged = rbind (fold_event p table e staged) (fold_events p table es)"

fun write_staged :: "view_spec \<Rightarrow> view_table \<Rightarrow> staging \<Rightarrow> view_error + view_table" where
  "write_staged spec table [] = Inr table"
| "write_staged spec table ((k, s) # staged) =
     rbind (write_change spec table k (st_body s) (st_seq s)) (\<lambda>t. write_staged spec t staged)"

definition project_events :: "projector \<Rightarrow> view_table \<Rightarrow> event list \<Rightarrow> view_error + view_table" where
  "project_events p table es = rbind (fold_events p table es []) (write_staged (p_spec p) table)"

section \<open>Staging is invisible\<close>

definition overlay :: "view_table \<Rightarrow> (doc_key \<rightharpoonup> staged) \<Rightarrow> view_table" where
  "overlay table m k =
     (case m k of Some s \<Rightarrow> map_option (\<lambda>b. \<lparr>doc_seq = st_seq s, doc_body = b\<rparr>) (st_body s) | None \<Rightarrow> table k)"

definition staged_error :: "view_spec \<Rightarrow> doc_key \<times> staged \<Rightarrow> view_error option" where
  "staged_error spec p =
     (case check_change spec (fst p) (st_body (snd p)) (st_seq (snd p)) of Inl e \<Rightarrow> Some e | Inr _ \<Rightarrow> None)"

lemma overlay_empty [simp]: "overlay table Map.empty = table"
  by (rule ext) (simp add: overlay_def)

lemma write_staged_eq:
  "distinct (map fst staged) \<Longrightarrow> write_staged spec table staged =
     (case List.map_filter (staged_error spec) staged of
        [] \<Rightarrow> Inr (overlay table (map_of staged))
      | e # _ \<Rightarrow> Inl e)"
proof (induction staged arbitrary: table)
  case Nil
  then show ?case by (simp add: List.map_filter_def)
next
  case (Cons p staged)
  obtain k s where p: "p = (k, s)" by fastforce
  show ?case
  proof (cases "check_change spec k (st_body s) (st_seq s)")
    case (Inl e)
    then show ?thesis by (simp add: p write_change_def staged_error_def List.map_filter_simps)
  next
    case (Inr u)
    let ?t = "table(k := map_option (\<lambda>b. \<lparr>doc_seq = st_seq s, doc_body = b\<rparr>) (st_body s))"
    have none: "map_of staged k = None" using Cons.prems by (simp add: p map_of_eq_None_iff)
    have "overlay ?t (map_of staged) = overlay table (map_of (p # staged))"
      using none by (auto simp: fun_eq_iff overlay_def p split: option.splits)
    with Inr Cons show ?thesis
      by (simp add: p write_change_def staged_error_def List.map_filter_simps fun_upd_def split: list.split)
  qed
qed

lemma read_overlay: "map_option doc_body (overlay table (map_of s) k) = doc_read table s k"
  by (auto simp: overlay_def doc_read_def option.map_comp comp_def option.map_ident split: option.splits)

lemma akeys_sorted_stage: "akeys_sorted s \<Longrightarrow> akeys_sorted (stage n s c)"
  by (simp add: stage_def akeys_sorted_ains)

lemma stage_all_sorted: "akeys_sorted s \<Longrightarrow> akeys_sorted (foldl (stage n) s cs)"
  by (induction cs arbitrary: s) (auto simp: akeys_sorted_stage)

lemma map_of_stage_all: "map_of (foldl (stage n) s cs) = map_of s ++ map_of (foldl (stage n) [] cs)"
proof (induction cs rule: rev_induct)
  case (snoc c cs)
  then show ?case by (simp add: stage_def fun_eq_iff map_add_def)
qed simp

lemma fold_events_sorted:
  "fold_events p table es s = Inr t \<Longrightarrow> akeys_sorted s \<Longrightarrow> akeys_sorted t"
  by (induction es arbitrary: s) (auto simp: fold_event_def result_simps stage_all_sorted split: if_splits)

lemma fold_event_handled:
  assumes "fold_event p table e s = Inr u" "type_name e \<in> set (p_handles p)"
  obtains cs where "p_apply p e (documents_at table s (p_keys p e)) = Inr cs" "u = foldl (stage (seq e)) s cs"
  using assms by (auto simp: fold_event_def result_simps split: if_splits)

text \<open>Folding over a table and an earlier staging is folding over the table they amount to.\<close>

lemma fold_events_overlay:
  assumes "\<And>k. doc_read table s k = doc_read table' s' k" "akeys_sorted s" "akeys_sorted s'"
    "map_of s = m ++ map_of s'" "\<And>k. m k \<noteq> None \<Longrightarrow> fitted k (map snd (vs_key (p_spec p)))"
  shows "(case fold_events p table es s of
       Inl e \<Rightarrow> fold_events p table' es s' = Inl e
     | Inr t \<Rightarrow> \<exists>t'. fold_events p table' es s' = Inr t' \<and> map_of t = m ++ map_of t'
         \<and> akeys_sorted t \<and> akeys_sorted t')"
  using assms
proof (induction es arbitrary: s s')
  case Nil
  then show ?case by simp
next
  case (Cons e es)
  have docs: "documents_at table s ks = documents_at table' s' ks" for ks
    by (simp add: documents_at_def Cons.prems(1))
  have refused: "key_refused (p_spec p) s = key_refused (p_spec p) s'"
  proof
    fix k
    from Cons.prems(4) have "map_of s k = (m ++ map_of s') k" by simp
    with Cons.prems(5) [of k] show "key_refused (p_spec p) s k = key_refused (p_spec p) s' k"
      by (cases "map_of s' k"; cases "m k") (simp_all add: key_refused_def map_add_def)
  qed
  show ?case
  proof (cases "type_name e \<in> set (p_handles p)")
    case False
    with Cons.IH [OF Cons.prems] show ?thesis by (simp add: fold_event_def split: sum.splits)
  next
    case True
    show ?thesis
    proof (cases "p_apply p e (documents_at table s (p_keys p e))")
      case (Inl err)
      with True show ?thesis by (simp add: fold_event_def docs refused)
    next
      case (Inr cs)
      let ?t = "foldl (stage (seq e)) s cs" and ?t' = "foldl (stage (seq e)) s' cs"
      have maps: "map_of ?t = m ++ map_of ?t'"
        using map_of_stage_all [of "seq e" s cs] map_of_stage_all [of "seq e" s' cs] Cons.prems(4) by simp
      have "doc_read table ?t k = doc_read table' ?t' k" for k
        using Cons.prems(1) [of k]
        by (simp add: doc_read_def map_of_stage_all [of "seq e" s] map_of_stage_all [of "seq e" s'] map_add_def
            split: option.splits)
      with Cons.IH [of ?t ?t'] Cons.prems maps True Inr show ?thesis
        by (simp add: fold_event_def docs refused stage_all_sorted split: sum.splits)
    qed
  qed
qed

lemma map_filter_errors_eq:
  assumes s: "akeys_sorted s" and t: "akeys_sorted t" and maps: "map_of s = m ++ map_of t"
    and good: "\<And>k v. m k = Some v \<Longrightarrow> staged_error spec (k, v) = None"
  shows "List.map_filter (staged_error spec) s = List.map_filter (staged_error spec) t"
proof -
  let ?bad = "\<lambda>p. staged_error spec p \<noteq> None"
  have sub: "akeys_sorted (filter P xs)" if "akeys_sorted xs" for P and xs :: staging
    using that by (induction xs) (auto simp: akeys_sorted_Cons)
  have mem: "p \<in> set xs \<longleftrightarrow> map_of xs (fst p) = Some (snd p)" if "akeys_sorted xs" for p and xs :: staging
    using map_of_eq_Some_iff [OF akeys_sorted_distinct [OF that], of "fst p" "snd p"] by simp
  have "set (filter ?bad s) = set (filter ?bad t)"
  proof (rule set_eqI)
    fix p
    show "p \<in> set (filter ?bad s) \<longleftrightarrow> p \<in> set (filter ?bad t)"
      using good [of "fst p" "snd p"] maps
      by (cases "map_of t (fst p)") (auto simp: mem [OF s] mem [OF t] map_add_def)
  qed
  then have "filter ?bad s = filter ?bad t" using s t by (intro akeys_sorted_set_unique sub)
  then show ?thesis by (simp add: map_filter_def)
qed

text \<open>One run over two batches is two runs.\<close>

lemma project_events_append:
  assumes "project_events p table es = Inr table'"
  shows "project_events p table (es @ fs) = project_events p table' fs"
proof -
  obtain s where s: "fold_events p table es [] = Inr s" and w: "write_staged (p_spec p) table s = Inr table'"
    using assms by (auto simp: project_events_def result_simps)
  have sorted: "akeys_sorted s" using fold_events_sorted [OF s] by simp
  then have dist: "distinct (map fst s)" by (rule akeys_sorted_distinct)
  have none: "List.map_filter (staged_error (p_spec p)) s = []" and table': "table' = overlay table (map_of s)"
    using w by (auto simp: write_staged_eq [OF dist] split: list.splits)
  have good: "staged_error (p_spec p) (k, v) = None" if "map_of s k = Some v" for k v
    using none map_of_SomeD [OF that] by (auto simp: map_filter_def filter_empty_conv)
  have app: "fold_events p table (es @ fs) [] = fold_events p table fs s"
  proof -
    have "fold_events p table (xs @ fs) u = rbind (fold_events p table xs u) (fold_events p table fs)" for xs u
    proof (induction xs arbitrary: u)
      case (Cons x xs)
      then show ?case by (cases "fold_event p table x u") auto
    qed simp
    with s show ?thesis by simp
  qed
  have rel: "doc_read table s k = doc_read table' [] k" for k
    by (simp add: table' read_overlay [symmetric])
  have fit: "fitted k (map snd (vs_key (p_spec p)))" if "map_of s k \<noteq> None" for k
    using that good [of k] by (auto simp: staged_error_def check_change_def split: if_splits)
  from fold_events_overlay [where p = p and es = fs, OF rel sorted _ _ fit]
  have rel2: "case fold_events p table fs s of
       Inl e \<Rightarrow> fold_events p table' fs [] = Inl e
     | Inr t \<Rightarrow> \<exists>t'. fold_events p table' fs [] = Inr t' \<and> map_of t = map_of s ++ map_of t'
         \<and> akeys_sorted t \<and> akeys_sorted t'" by simp
  show ?thesis
  proof (cases "fold_events p table fs s")
    case (Inl e)
    with rel2 show ?thesis by (simp add: project_events_def app)
  next
    case (Inr t)
    with rel2 obtain t' where t': "fold_events p table' fs [] = Inr t'" "map_of t = map_of s ++ map_of t'"
      "akeys_sorted t" "akeys_sorted t'" by auto
    have "List.map_filter (staged_error (p_spec p)) t = List.map_filter (staged_error (p_spec p)) t'"
      using map_filter_errors_eq [OF t'(3,4,2)] good by blast
    moreover have "overlay table (map_of t) = overlay table' (map_of t')"
      by (auto simp: fun_eq_iff overlay_def table' t'(2) map_add_def split: option.splits)
    ultimately show ?thesis
      by (simp add: project_events_def app Inr t'(1) write_staged_eq akeys_sorted_distinct t'(3,4) split: list.split)
  qed
qed


section \<open>What a projector promises\<close>

locale view_projector =
  fixes p :: projector
  assumes changes_keys: "p_apply p e docs = Inr cs \<Longrightarrow> c \<in> set cs \<Longrightarrow> change_key c \<in> set (p_keys p e)"
    and keys_fit: "k \<in> set (p_keys p e) \<Longrightarrow> fitted k (map snd (vs_key (p_spec p)))"
    and puts_held: "p_apply p e docs = Inr cs \<Longrightarrow> Put k b \<in> set cs \<Longrightarrow>
          (\<And>k b. (k, b) \<in> set docs \<Longrightarrow> key_held (p_spec p) k b \<and> index_held (p_spec p) b) \<Longrightarrow>
          key_held (p_spec p) k b \<and> index_held (p_spec p) b"
begin

definition table_held :: "view_table \<Rightarrow> bool" where
  "table_held table \<longleftrightarrow>
     (\<forall>k d. table k = Some d \<longrightarrow> key_held (p_spec p) k (doc_body d) \<and> index_held (p_spec p) (doc_body d))"

lemma staged_keys:
  "fold_events p table es s = Inr t \<Longrightarrow>
     fst ` set t \<subseteq> fst ` set s \<union> (\<Union>e \<in> set es. if type_name e \<in> set (p_handles p) then set (p_keys p e) else {})"
proof (induction es arbitrary: s)
  case (Cons e es)
  have st: "fst ` set (foldl (stage n) u cs) = fst ` set u \<union> change_key ` set cs" for n u cs
    by (induction cs arbitrary: u) (auto simp: stage_def set_keys_ains)
  from Cons.prems obtain u where u: "fold_event p table e s = Inr u" "fold_events p table es u = Inr t"
    by (auto simp: result_simps)
  show ?case
  proof (cases "type_name e \<in> set (p_handles p)")
    case False
    with Cons.IH [OF u(2)] u(1) show ?thesis by (simp add: fold_event_def)
  next
    case True
    with u(1) obtain cs where cs: "p_apply p e (documents_at table s (p_keys p e)) = Inr cs" "u = foldl (stage (seq e)) s cs"
      by (rule fold_event_handled)
    have "change_key ` set cs \<subseteq> set (p_keys p e)" using changes_keys [OF cs(1)] by blast
    with Cons.IH [OF u(2)] st [of "seq e" s cs] True cs(2) show ?thesis by auto
  qed
qed simp

text \<open>A document outside the keys of the handled events is left alone.\<close>

lemma untouched:
  assumes "project_events p table es = Inr table'"
    and "\<forall>e \<in> set es. type_name e \<in> set (p_handles p) \<longrightarrow> k \<notin> set (p_keys p e)"
  shows "table' k = table k"
proof -
  obtain s where s: "fold_events p table es [] = Inr s" "write_staged (p_spec p) table s = Inr table'"
    using assms(1) by (auto simp: project_events_def result_simps)
  then have "table' = overlay table (map_of s)"
    using akeys_sorted_distinct [OF fold_events_sorted [OF s(1)]] by (auto simp: write_staged_eq split: list.splits)
  moreover have "map_of s k = None" using staged_keys [OF s(1)] assms(2) by (force simp: map_of_eq_None_iff split: if_splits)
  ultimately show ?thesis by (simp add: overlay_def)
qed

text \<open>Every stored document holds its key and its index fields, and a write never fails on them.\<close>

lemma staged_held:
  assumes "fold_events p table es s = Inr t" "table_held table"
    and "\<And>k st b. map_of s k = Some st \<Longrightarrow> st_body st = Some b \<Longrightarrow> key_held (p_spec p) k b \<and> index_held (p_spec p) b"
    and "map_of t k = Some st" "st_body st = Some b"
  shows "key_held (p_spec p) k b \<and> index_held (p_spec p) b"
  using assms
proof (induction es arbitrary: s)
  case Nil
  then show ?case by simp
next
  case (Cons e es)
  from Cons.prems(1) obtain u where u: "fold_event p table e s = Inr u" "fold_events p table es u = Inr t"
    by (auto simp: result_simps)
  show ?case
  proof (rule Cons.IH [OF u(2) Cons.prems(2) _ Cons.prems(4,5)])
    fix k st b assume k: "map_of u k = Some st" "st_body st = Some b"
    show "key_held (p_spec p) k b \<and> index_held (p_spec p) b"
    proof (cases "type_name e \<in> set (p_handles p)")
      case False
      with u(1) Cons.prems(3) k show ?thesis by (simp add: fold_event_def)
    next
      case True
      with u(1) obtain cs where cs: "p_apply p e (documents_at table s (p_keys p e)) = Inr cs" "u = foldl (stage (seq e)) s cs"
        by (rule fold_event_handled)
      have docs: "key_held (p_spec p) k b \<and> index_held (p_spec p) b"
        if "(k, b) \<in> set (documents_at table s (p_keys p e))" for k b
      proof -
        have "doc_read table s k = Some b"
          using that by (auto simp: documents_at_def map_filter_def)
        then show ?thesis using Cons.prems(2,3)
          by (auto simp: doc_read_def table_held_def split: option.splits)
      qed
      have st: "map_of (foldl (stage n) w cs) k = Some st \<Longrightarrow> st_body st = Some b \<Longrightarrow>
          Put k b \<in> set cs \<or> map_of w k = Some st" for n w cs
      proof (induction cs arbitrary: w)
        case (Cons c cs)
        from Cons.IH [of "stage n w c"] Cons.prems have "Put k b \<in> set cs \<or> map_of (stage n w c) k = Some st" by simp
        then show ?case using Cons.prems(2) by (cases c) (auto simp: stage_def split: if_splits)
      qed simp
      from st [of "seq e" s cs] k cs(2) have "Put k b \<in> set cs \<or> map_of s k = Some st" by simp
      then show ?thesis using puts_held [OF cs(1) _ docs] Cons.prems(3) k(2) by blast
    qed
  qed
qed

lemma projection_keeps_held:
  assumes "project_events p table es = Inr table'" "table_held table"
  shows "table_held table'"
proof -
  obtain s where s: "fold_events p table es [] = Inr s" "write_staged (p_spec p) table s = Inr table'"
    using assms(1) by (auto simp: project_events_def result_simps)
  have "table' = overlay table (map_of s)"
    using s akeys_sorted_distinct [OF fold_events_sorted [OF s(1)]] by (auto simp: write_staged_eq split: list.splits)
  with staged_held [OF s(1) assms(2)] assms(2) show ?thesis
    by (auto simp: table_held_def overlay_def split: option.splits)
qed

end

lemma map_of_stage:
  "map_of (stage n s c) k = (if k = change_key c then Some \<lparr>st_body = change_body c, st_seq = n\<rparr> else map_of s k)"
  by (simp add: stage_def)

lemma stage_all_lookup:
  assumes "\<And>c. c \<in> set cs \<Longrightarrow> change_key c = k \<Longrightarrow> change_body c = b"
  shows "map_of (foldl (stage n) [] cs) k =
     (if \<exists>c \<in> set cs. change_key c = k then Some \<lparr>st_body = b, st_seq = n\<rparr> else None)"
  using assms
proof (induction cs rule: rev_induct)
  case (snoc c cs)
  have "map_of (foldl (stage n) [] cs) k =
     (if \<exists>c \<in> set cs. change_key c = k then Some \<lparr>st_body = b, st_seq = n\<rparr> else None)"
    using snoc.prems by (intro snoc.IH) auto
  with snoc.prems [of c] show ?case by (auto simp: map_of_stage)
qed simp

lemma project_one_fold:
  assumes "project_events p table [e] = Inr table'"
  shows "\<exists>st. fold_event p table e [] = Inr st \<and> table' = overlay table (map_of st)"
proof -
  obtain st where st: "fold_events p table [e] [] = Inr st" "write_staged (p_spec p) table st = Inr table'"
    using assms by (auto simp: project_events_def result_simps)
  have "table' = overlay table (map_of st)"
    using st akeys_sorted_distinct [OF fold_events_sorted [OF st(1)]] by (auto simp: write_staged_eq split: list.splits)
  with st(1) show ?thesis by (auto simp: result_simps)
qed

text \<open>One handled event: its changes, laid over the table.\<close>

lemma project_one:
  assumes "project_events p table [e] = Inr table'" "type_name e \<in> set (p_handles p)"
  obtains cs where "p_apply p e (documents_at table [] (p_keys p e)) = Inr cs"
    "table' = overlay table (map_of (foldl (stage (seq e)) [] cs))"
proof -
  obtain s where s: "fold_events p table [e] [] = Inr s" "write_staged (p_spec p) table s = Inr table'"
    using assms(1) by (auto simp: project_events_def result_simps)
  then obtain cs where cs: "p_apply p e (documents_at table [] (p_keys p e)) = Inr cs" "s = foldl (stage (seq e)) [] cs"
    using assms(2) by (auto simp: fold_event_def result_simps split: if_splits)
  have "table' = overlay table (map_of s)"
    using s akeys_sorted_distinct [OF fold_events_sorted [OF s(1)]] by (auto simp: write_staged_eq split: list.splits)
  with cs that show ?thesis by blast
qed

lemma documents_at_member:
  "(k, b) \<in> set (documents_at table [] ks) \<longleftrightarrow> k \<in> set ks \<and> (\<exists>d. table k = Some d \<and> doc_body d = b)"
  by (force simp: documents_at_def map_filter_def doc_read_def)

section \<open>What is read after a run\<close>

lemma documents_at_iff: "(k, b) \<in> set (documents_at table s ks) \<longleftrightarrow> k \<in> set ks \<and> doc_read table s k = Some b"
  by (force simp: documents_at_def map_filter_def)

lemma doc_read_staged:
  "doc_read table (foldl (stage n) s cs) k =
     (case map_of (foldl (stage n) [] cs) k of Some st \<Rightarrow> st_body st | None \<Rightarrow> doc_read table s k)"
  by (simp add: doc_read_def map_of_stage_all [of n s cs] map_add_def split: option.split)

lemma doc_read_staged_one:
  "doc_read table (stage n s c) k = (if k = change_key c then change_body c else doc_read table s k)"
  by (simp add: doc_read_def map_of_stage)

lemma doc_read_Nil: "doc_read table [] k = map_option doc_body (table k)"
  by (simp add: doc_read_def)

lemma projected_read:
  assumes "project_events p table es = Inr table'"
  shows "\<exists>s. fold_events p table es [] = Inr s \<and> (\<forall>k. map_option doc_body (table' k) = doc_read table s k)"
proof -
  obtain s where s: "fold_events p table es [] = Inr s" "write_staged (p_spec p) table s = Inr table'"
    using assms by (auto simp: project_events_def result_simps)
  have "table' = overlay table (map_of s)"
    using s akeys_sorted_distinct [OF fold_events_sorted [OF s(1)]] by (auto simp: write_staged_eq split: list.splits)
  with s(1) show ?thesis by (auto simp: read_overlay)
qed

text \<open>What each event keeps of the documents read, a run of them keeps.\<close>

lemma fold_events_keep:
  assumes "\<And>e s u m. fold_event p table e s = Inr u \<Longrightarrow> R (doc_read table s) m \<Longrightarrow> R (doc_read table u) (step m e)"
    "fold_events p table es s = Inr u" "R (doc_read table s) m"
  shows "R (doc_read table u) (foldl step m es)"
  using assms(2,3)
proof (induction es arbitrary: s m)
  case (Cons e es)
  then show ?case using assms(1) by (fastforce simp: result_simps)
qed simp

lemma projected_keeps:
  assumes "\<And>e s u m. fold_event p table e s = Inr u \<Longrightarrow> R (doc_read table s) m \<Longrightarrow> R (doc_read table u) (step m e)"
    "project_events p table es = Inr table'" "R (\<lambda>k. map_option doc_body (table k)) m"
  shows "R (\<lambda>k. map_option doc_body (table' k)) (foldl step m es)"
proof -
  obtain s where s: "fold_events p table es [] = Inr s" "\<And>k. map_option doc_body (table' k) = doc_read table s k"
    using projected_read [OF assms(2)] by blast
  have "doc_read table [] = (\<lambda>k. map_option doc_body (table k))" "doc_read table s = (\<lambda>k. map_option doc_body (table' k))"
    by (simp_all add: fun_eq_iff s(2) doc_read_Nil)
  with fold_events_keep [where R = R, OF assms(1) s(1)] assms(3) show ?thesis by simp
qed

end
