(* ===== verification/Claim.thy ===== *)
theory Claim
  imports Payload Projection
begin

text \<open>
  Claims (\<open>baley-store/src/claim.rs\<close>) and the command types they use
  (\<open>baley-store/src/command.rs\<close>): the lease rule at its 60 second boundary, the state of a claim,
  which holder blocks a command, the \<open>command.claimed\<close> and \<open>command.reconciled\<close> payloads, and the
  \<open>claim_scope\<close> projector that maps every scope token to its open holder.
\<close>

section \<open>Commands\<close>

type_synonym command_kind = string
type_synonym stream_name = string

record command =
  cmd_project :: project_id
  cmd_kind :: command_kind
  cmd_request_id :: request_id
  cmd_digest :: hash
  cmd_scope :: "string list"
  cmd_policy_version :: u64
  cmd_recorded_at :: string
  cmd_actor :: actor
  cmd_caller :: "caller option"

record new_event =
  ne_stream :: stream_name
  ne_type_name :: string
  ne_type_version :: u32
  ne_git :: "git_facts option"
  ne_payload :: json
  ne_attachments :: "payload_ref list"

record event_match =
  em_type_name :: string
  em_stream :: "stream_name option"
  em_fields :: "(string \<times> json) list"

datatype absence =
    AbsentEvent event_match
  | AbsentDocuments string string "key_value list"

record observed_document =
  od_view :: string
  od_key :: doc_key
  od_produced_seq :: "u64 option"

record git_observation =
  go_checkout :: string
  go_head_seen :: string
  go_head_now :: string
  go_index_seen :: string
  go_index_now :: string

record observed =
  ob_documents :: "observed_document list"
  ob_absences :: "absence list"
  ob_git :: "git_observation list"

definition no_observed :: observed where
  "no_observed = \<lparr>ob_documents = [], ob_absences = [], ob_git = []\<rparr>"

datatype outcome_kind = Done | Refused

record decision =
  dc_kind :: outcome_kind
  dc_answer :: json
  dc_sensitive :: bool
  dc_observed :: observed
  dc_git :: "git_facts option"

datatype answer =
    Inline json
  | Stored payload_ref
  | Tombstone payload_ref payload_status

record outcome =
  oc_kind :: outcome_kind
  oc_answer :: answer

datatype recorded =
    New outcome head
  | Replayed outcome

section \<open>Claims\<close>

definition lease_expiry_seconds :: u64 where "lease_expiry_seconds = 60"
definition claim_scope_view :: string where "claim_scope_view = ''claim_scope''"

record claim_owner =
  co_process :: string
  co_host_session :: string
  co_started_at :: string

record claim_id =
  ci_kind :: command_kind
  ci_request_id :: request_id

record claim =
  cl_id :: claim_id
  cl_seq :: u64
  cl_claimed_at :: string
  cl_intent :: json
  cl_scope :: "string list"
  cl_owner :: claim_owner
  cl_lease_renewed_at :: "string option"
  cl_awaiting_owner :: "u64 option"

datatype lease_state = LeaseActive | LeaseInterrupted

definition lease_state :: "string option \<Rightarrow> string \<Rightarrow> time_error + lease_state" where
  "lease_state renewed_at now =
     (case renewed_at of
        None \<Rightarrow> Inr LeaseInterrupted
      | Some r \<Rightarrow>
          rbind (parse_instant r) (\<lambda>renewed.
          rbind (parse_instant now) (\<lambda>now.
          rbind (plus_seconds renewed lease_expiry_seconds) (\<lambda>expiry.
            Inr (if instant_less_eq expiry now then LeaseInterrupted else LeaseActive)))))"

datatype claim_state = Active | Interrupted | AwaitingOwner

definition claim_state :: "claim \<Rightarrow> string \<Rightarrow> time_error + claim_state" where
  "claim_state c now =
     (if cl_awaiting_owner c \<noteq> None then Inr AwaitingOwner
      else rbind (lease_state (cl_lease_renewed_at c) now) (\<lambda>s.
        Inr (case s of LeaseActive \<Rightarrow> Active | LeaseInterrupted \<Rightarrow> Interrupted)))"

record block =
  bl_claim :: claim_id
  bl_state :: claim_state

text \<open>\<open>Iterator::min_by_key\<close>: the first of the elements with the least key.\<close>

fun min_by_key :: "('a \<Rightarrow> 'k::linorder) \<Rightarrow> 'a list \<Rightarrow> 'a option" where
  "min_by_key f [] = None"
| "min_by_key f (x # xs) =
     (case min_by_key f xs of
        None \<Rightarrow> Some x
      | Some y \<Rightarrow> if f x \<le> f y then Some x else Some y)"

definition blocking :: "string list \<Rightarrow> claim list \<Rightarrow> string \<Rightarrow> time_error + block option" where
  "blocking scope holders now =
     (case min_by_key cl_seq (filter (\<lambda>h. \<exists>t \<in> set (cl_scope h). t \<in> set scope) holders) of
        None \<Rightarrow> Inr None
      | Some h \<Rightarrow>
          rbind (claim_state h now) (\<lambda>s. Inr (Some \<lparr>bl_claim = cl_id h, bl_state = s\<rparr>)))"

datatype reconcile_authority = Automatic | OwnerAuthority

record claimed_payload =
  cp_kind :: command_kind
  cp_request_id :: request_id
  cp_digest :: hash
  cp_intent :: json
  cp_scope :: "string list"
  cp_owner :: claim_owner

definition owner_to_value :: "claim_owner \<Rightarrow> json" where
  "owner_to_value o' =
     jobj [(''process'', JString (co_process o')), (''host_session'', JString (co_host_session o')),
           (''started_at'', JString (co_started_at o'))]"

definition claimed_to_value :: "claimed_payload \<Rightarrow> json" where
  "claimed_to_value p =
     jobj [(''kind'', JString (cp_kind p)), (''request_id'', JString (cp_request_id p)),
           (''digest'', JString (to_hex (cp_digest p))), (''intent'', cp_intent p),
           (''scope'', jstrs (cp_scope p)), (''owner'', owner_to_value (cp_owner p))]"

abbreviation get_str :: "string \<Rightarrow> json \<Rightarrow> string option" where
  "get_str k v \<equiv> Option.bind (jget k v) as_str"

definition strs_from :: "json \<Rightarrow> string list option" where
  "strs_from v = do { items \<leftarrow> as_array v; those (map as_str items) }"

definition owner_from :: "json \<Rightarrow> claim_owner option" where
  "owner_from v = do {
     p \<leftarrow> get_str ''process'' v;
     h \<leftarrow> get_str ''host_session'' v;
     s \<leftarrow> get_str ''started_at'' v;
     Some \<lparr>co_process = p, co_host_session = h, co_started_at = s\<rparr> }"

definition claimed_from_value :: "json \<Rightarrow> claimed_payload option" where
  "claimed_from_value v = do {
     owner \<leftarrow> jget ''owner'' v;
     k \<leftarrow> get_str ''kind'' v;
     r \<leftarrow> get_str ''request_id'' v;
     d \<leftarrow> Option.bind (get_str ''digest'' v) from_hex;
     i \<leftarrow> jget ''intent'' v;
     s \<leftarrow> Option.bind (jget ''scope'' v) strs_from;
     o' \<leftarrow> owner_from owner;
     Some \<lparr>cp_kind = k, cp_request_id = r, cp_digest = d, cp_intent = i, cp_scope = s, cp_owner = o'\<rparr> }"

datatype reconciled_resolution = ResolvedClaim | HeldForOwner

fun resolution_str :: "reconciled_resolution \<Rightarrow> string" where
  "resolution_str ResolvedClaim = ''resolved''"
| "resolution_str HeldForOwner = ''awaiting_owner''"

definition resolution_parse :: "string \<Rightarrow> reconciled_resolution option" where
  "resolution_parse t =
     (if t = ''resolved'' then Some ResolvedClaim
      else if t = ''awaiting_owner'' then Some HeldForOwner
      else None)"

record reconciled_payload =
  rp_claim :: claim_id
  rp_claim_seq :: u64
  rp_finding :: json
  rp_resolution :: reconciled_resolution

definition reconciled_to_value :: "reconciled_payload \<Rightarrow> json" where
  "reconciled_to_value p =
     jobj [(''kind'', JString (ci_kind (rp_claim p))), (''request_id'', JString (ci_request_id (rp_claim p))),
           (''claim_seq'', jnum (rp_claim_seq p)), (''finding'', rp_finding p),
           (''resolution'', JString (resolution_str (rp_resolution p)))]"

definition reconciled_from_value :: "json \<Rightarrow> reconciled_payload option" where
  "reconciled_from_value v = do {
     k \<leftarrow> get_str ''kind'' v;
     r \<leftarrow> get_str ''request_id'' v;
     n \<leftarrow> Option.bind (jget ''claim_seq'' v) as_u64;
     f \<leftarrow> jget ''finding'' v;
     s \<leftarrow> Option.bind (get_str ''resolution'' v) resolution_parse;
     Some \<lparr>rp_claim = \<lparr>ci_kind = k, ci_request_id = r\<rparr>, rp_claim_seq = n, rp_finding = f, rp_resolution = s\<rparr> }"

datatype resolution = Resolved decision | ResolutionAwaitingOwner

record reconciliation =
  rc_finding :: json
  rc_resolution :: resolution
  rc_observed :: observed

section \<open>The claim scope view\<close>

definition claim_scope_spec :: view_spec where
  "claim_scope_spec =
     \<lparr>vs_name = claim_scope_view, vs_version = 1, vs_key = [(''scope'', FText)], vs_indexes = [], vs_page_bound = 1\<rparr>"

definition claim_scope_keys :: "event \<Rightarrow> doc_key list" where
  "claim_scope_keys e =
     (case Option.bind (jget ''scope'' (payload e)) as_array of
        None \<Rightarrow> []
      | Some items \<Rightarrow> map (\<lambda>t. [KText t]) (List.map_filter as_str items))"

definition held_by :: "string \<Rightarrow> string \<Rightarrow> json \<Rightarrow> bool" where
  "held_by kind request body \<longleftrightarrow>
     (case jget ''claim'' body of
        None \<Rightarrow> False
      | Some c \<Rightarrow> get_str ''kind'' c = Some kind \<and> get_str ''request_id'' c = Some request)"

definition scope_body :: "string \<Rightarrow> u64 \<Rightarrow> string \<Rightarrow> string \<Rightarrow> json" where
  "scope_body token n kind request =
     jobj [(''scope'', JString token),
           (''claim'', jobj [(''seq'', jnum n), (''kind'', JString kind), (''request_id'', JString request)])]"

fun claim_scope_changes :: "event \<Rightarrow> string \<Rightarrow> string \<Rightarrow> (doc_key \<times> json) list \<Rightarrow> json list \<Rightarrow> projector_error + change list" where
  "claim_scope_changes e kind request docs [] = Inr []"
| "claim_scope_changes e kind request docs (t # ts) =
     (case as_str t of
        None \<Rightarrow> Inl ''a scope token is not text''
      | Some token \<Rightarrow>
          rbind (claim_scope_changes e kind request docs ts) (\<lambda>cs. Inr
            ((if type_name e = command_claimed
              then [Put [KText token] (scope_body token (seq e) kind request)]
              else if (\<exists>d \<in> set docs. fst d = [KText token] \<and> held_by kind request (snd d))
              then [Delete [KText token]]
              else []) @ cs)))"

definition claim_scope_apply :: "event \<Rightarrow> (doc_key \<times> json) list \<Rightarrow> projector_error + change list" where
  "claim_scope_apply e docs =
     rbind (ok_or ''a command event without scope'' (Option.bind (jget ''scope'' (payload e)) as_array)) (\<lambda>tokens.
     rbind (ok_or ''a command event without kind'' (get_str ''kind'' (payload e))) (\<lambda>kind.
     rbind (ok_or ''a command event without request id'' (get_str ''request_id'' (payload e))) (\<lambda>request.
       claim_scope_changes e kind request docs tokens)))"

definition claim_scope_projector :: projector where
  "claim_scope_projector =
     \<lparr>p_spec = claim_scope_spec, p_handles = [command_claimed, command_completed],
      p_keys = claim_scope_keys, p_apply = claim_scope_apply\<rparr>"

section \<open>The codecs\<close>

lemma strs_from_jstrs [simp]: "strs_from (jstrs ss) = Some ss"
  by (simp add: strs_from_def jstrs_def)

lemma owner_from_value [simp]: "owner_from (owner_to_value o') = Some o'"
  by (simp add: owner_from_def owner_to_value_def)

definition claimed_wf :: "claimed_payload \<Rightarrow> bool" where
  "claimed_wf p \<longleftrightarrow> hash_wf (cp_digest p)"

interpretation claimed: codec claimed_to_value claimed_from_value claimed_wf
  by unfold_locales (simp add: claimed_to_value_def claimed_from_value_def claimed_wf_def)

lemma resolution_parse_iff [simp]: "resolution_parse t = Some r \<longleftrightarrow> t = resolution_str r"
  by (cases r) (auto simp: resolution_parse_def)

interpretation reconciled: codec reconciled_to_value reconciled_from_value "\<lambda>p. True"
proof unfold_locales
  fix p :: reconciled_payload
  have "resolution_parse (resolution_str (rp_resolution p)) = Some (rp_resolution p)" by simp
  then show "reconciled_from_value (reconciled_to_value p) = Some p"
    by (simp add: reconciled_to_value_def reconciled_from_value_def del: resolution_parse_iff)
qed

section \<open>The claim scope projector keeps its promises\<close>

lemma claim_scope_changes_elim:
  assumes "claim_scope_changes e kind request docs ts = Inr cs" "c \<in> set cs"
  shows "\<exists>t. JString t \<in> set ts \<and> (c = Put [KText t] (scope_body t (seq e) kind request)
     \<or> c = Delete [KText t])"
  using assms
proof (induction ts arbitrary: cs)
  case (Cons v ts)
  then obtain token cs' where v: "v = JString token" and rest: "claim_scope_changes e kind request docs ts = Inr cs'"
    and cs: "cs = (if type_name e = command_claimed
              then [Put [KText token] (scope_body token (seq e) kind request)]
              else if (\<exists>d \<in> set docs. fst d = [KText token] \<and> held_by kind request (snd d))
              then [Delete [KText token]] else []) @ cs'"
    by (auto simp: result_simps split: option.splits)
  with Cons.prems(2) have "c \<in> set cs' \<or> c = Put [KText token] (scope_body token (seq e) kind request) \<or> c = Delete [KText token]"
    by (auto split: if_splits)
  with Cons.IH [OF rest] v show ?case by auto
qed simp

lemma set_text_keys: "JString t \<in> set xs \<Longrightarrow> [KText t] \<in> set (map (\<lambda>t. [KText t]) (List.map_filter as_str xs))"
  by (force simp: map_filter_def)

lemma scope_body_held: "key_held claim_scope_spec [KText t] (scope_body t n k r) \<and> index_held claim_scope_spec (scope_body t n k r)"
  by (simp add: key_held_def index_held_def index_columns_def claim_scope_spec_def scope_body_def)

interpretation claim_scope: view_projector claim_scope_projector
proof unfold_locales
  fix e docs cs c
  assume "p_apply claim_scope_projector e docs = Inr cs" "c \<in> set cs"
  then show "change_key c \<in> set (p_keys claim_scope_projector e)"
    by (auto simp: claim_scope_projector_def claim_scope_apply_def claim_scope_keys_def result_simps
        simp del: set_map dest!: claim_scope_changes_elim intro: set_text_keys)
next
  fix k e
  assume "k \<in> set (p_keys claim_scope_projector e)"
  then show "fitted k (map snd (vs_key (p_spec claim_scope_projector)))"
    by (auto simp: claim_scope_projector_def claim_scope_keys_def claim_scope_spec_def fitted_def split: option.splits)
next
  fix e docs cs k b
  assume "p_apply claim_scope_projector e docs = Inr cs" "Put k b \<in> set cs"
  then show "key_held (p_spec claim_scope_projector) k b \<and> index_held (p_spec claim_scope_projector) b"
    using scope_body_held
    by (auto simp: claim_scope_projector_def claim_scope_apply_def result_simps dest!: claim_scope_changes_elim)
qed

section \<open>Who holds a token\<close>

definition scope_holder :: "view_table \<Rightarrow> string \<Rightarrow> (u64 \<times> string \<times> string) option" where
  "scope_holder table token = do {
     d \<leftarrow> table [KText token];
     c \<leftarrow> jget ''claim'' (doc_body d);
     n \<leftarrow> Option.bind (jget ''seq'' c) as_u64;
     k \<leftarrow> get_str ''kind'' c;
     r \<leftarrow> get_str ''request_id'' c;
     Some (n, k, r) }"

lemma claim_scope_changes_map:
  "claim_scope_changes e kind request docs ts = Inr cs \<Longrightarrow>
     \<exists>tokens. ts = map JString tokens \<and> cs = concat (map (\<lambda>token.
        if type_name e = command_claimed then [Put [KText token] (scope_body token (seq e) kind request)]
        else if (\<exists>d \<in> set docs. fst d = [KText token] \<and> held_by kind request (snd d))
        then [Delete [KText token]] else []) tokens)"
proof (induction ts arbitrary: cs)
  case (Cons t ts)
  then obtain token cs' where t: "t = JString token" and rest: "claim_scope_changes e kind request docs ts = Inr cs'"
    and cs: "cs = (if type_name e = command_claimed
              then [Put [KText token] (scope_body token (seq e) kind request)]
              else if (\<exists>d \<in> set docs. fst d = [KText token] \<and> held_by kind request (snd d))
              then [Delete [KText token]] else []) @ cs'"
    by (auto simp: result_simps split: option.splits)
  from Cons.IH [OF rest] obtain tokens where "ts = map JString tokens" "cs' = concat (map (\<lambda>token.
        if type_name e = command_claimed then [Put [KText token] (scope_body token (seq e) kind request)]
        else if (\<exists>d \<in> set docs. fst d = [KText token] \<and> held_by kind request (snd d))
        then [Delete [KText token]] else []) tokens)" by blast
  with t cs show ?case by (intro exI [of _ "token # tokens"]) simp
qed simp

lemma held_by_holder:
  "table [KText t] = Some d \<Longrightarrow> held_by kind request (doc_body d) \<Longrightarrow>
     scope_holder table t = None \<or> (\<exists>n. scope_holder table t = Some (n, kind, request))"
  by (auto simp: held_by_def scope_holder_def bind_eq_None_conv split: option.splits)

lemma holder_held_by:
  "scope_holder table t = Some (n, kind, request) \<Longrightarrow>
     \<exists>d. table [KText t] = Some d \<and> held_by kind request (doc_body d)"
  by (auto simp: held_by_def scope_holder_def bind_eq_Some_conv)

lemma claim_scope_fold:
  assumes "fold_event claim_scope_projector table e [] = Inr st"
    and "type_name e = command_claimed \<or> type_name e = command_completed"
  shows "\<exists>tokens kind request. Option.bind (jget ''scope'' (payload e)) strs_from = Some tokens
    \<and> get_str ''kind'' (payload e) = Some kind \<and> get_str ''request_id'' (payload e) = Some request
    \<and> (\<forall>t. scope_holder (overlay table (map_of st)) t =
        (if type_name e = command_claimed
         then (if t \<in> set tokens then Some (seq e, kind, request) else scope_holder table t)
         else (if t \<in> set tokens \<and> (\<exists>n. scope_holder table t = Some (n, kind, request)) then None
               else scope_holder table t)))"
proof -
  have "type_name e \<in> set (p_handles claim_scope_projector)" using assms(2) by (auto simp: claim_scope_projector_def)
  from fold_event_handled [OF assms(1) this] obtain cs where
    cs: "claim_scope_apply e (documents_at table [] (claim_scope_keys e)) = Inr cs"
    and st: "st = foldl (stage (seq e)) [] cs"
    by (auto simp: claim_scope_projector_def)
  define table' where "table' = overlay table (map_of st)"
  then have table': "table' = overlay table (map_of (foldl (stage (seq e)) [] cs))" by (simp add: st)
  let ?docs = "documents_at table [] (claim_scope_keys e)"
  from cs obtain ts kind request where ts: "Option.bind (jget ''scope'' (payload e)) as_array = Some ts"
    and kr: "get_str ''kind'' (payload e) = Some kind" "get_str ''request_id'' (payload e) = Some request"
    and ch: "claim_scope_changes e kind request ?docs ts = Inr cs"
    by (auto simp: claim_scope_apply_def result_simps)
  from claim_scope_changes_map [OF ch] obtain tokens where tokens: "ts = map JString tokens"
    and cs_eq: "cs = concat (map (\<lambda>token.
        if type_name e = command_claimed then [Put [KText token] (scope_body token (seq e) kind request)]
        else if (\<exists>d \<in> set ?docs. fst d = [KText token] \<and> held_by kind request (snd d))
        then [Delete [KText token]] else []) tokens)" by blast
  have strs: "Option.bind (jget ''scope'' (payload e)) strs_from = Some tokens"
    using ts tokens by (auto simp: bind_eq_Some_conv strs_from_def)
  have keys: "[KText t] \<in> set (claim_scope_keys e) \<longleftrightarrow> t \<in> set tokens" for t
    by (force simp: claim_scope_keys_def ts tokens map_filter_def)
  have docs: "(\<exists>d \<in> set ?docs. fst d = [KText t] \<and> held_by kind request (snd d)) \<longleftrightarrow>
      t \<in> set tokens \<and> (\<exists>d. table [KText t] = Some d \<and> held_by kind request (doc_body d))" for t
    using keys [of t] documents_at_member [of "[KText t]"] by (metis fst_conv snd_conv prod.collapse)
  show ?thesis unfolding table'_def [symmetric]
  proof (intro exI conjI allI)
    fix t
    let ?k = "[KText t]"
    show "scope_holder table' t =
        (if type_name e = command_claimed
         then (if t \<in> set tokens then Some (seq e, kind, request) else scope_holder table t)
         else (if t \<in> set tokens \<and> (\<exists>n. scope_holder table t = Some (n, kind, request)) then None
               else scope_holder table t))"
    proof (cases "type_name e = command_claimed")
      case True
      then have "map_of (foldl (stage (seq e)) [] cs) ?k =
          (if t \<in> set tokens then Some \<lparr>st_body = Some (scope_body t (seq e) kind request), st_seq = seq e\<rparr> else None)"
        using True by (subst stage_all_lookup [where b = "Some (scope_body t (seq e) kind request)"]) (auto simp: cs_eq)
      with True show ?thesis by (simp add: scope_holder_def table' overlay_def scope_body_def)
    next
      case False
      let ?held = "t \<in> set tokens \<and> (\<exists>d. table ?k = Some d \<and> held_by kind request (doc_body d))"
      have "map_of (foldl (stage (seq e)) [] cs) ?k = (if ?held then Some \<lparr>st_body = None, st_seq = seq e\<rparr> else None)"
        using False docs by (subst stage_all_lookup [where b = None]) (auto simp: cs_eq split: if_splits)
      then have "table' ?k = (if ?held then None else table ?k)" by (auto simp: table' overlay_def)
      then have "table' ?k = None \<and> ?held \<or> table' ?k = table ?k \<and> \<not> ?held" by (simp split: if_splits)
      then have "scope_holder table' t = (if ?held then None else scope_holder table t)"
        unfolding scope_holder_def by (elim disjE conjE) (simp_all only: if_True if_False bind.simps simp_thms)
      with False held_by_holder [of table t _ kind request] holder_held_by [of table t _ kind request] show ?thesis
        by auto
    qed
  qed (fact strs kr)+
qed

text \<open>C25: the claim scope view tracks who holds what.  Recording \<open>command.claimed\<close> makes the claim
  the holder of each of its tokens; recording \<open>command.completed\<close> releases exactly those of its
  tokens that the completed request itself holds, never a token another claim has taken; no other
  token's holder changes.\<close>

theorem claim_scope_step:
  assumes "project_events claim_scope_projector table [e] = Inr table'"
    and "type_name e = command_claimed \<or> type_name e = command_completed"
  shows "\<exists>tokens kind request. Option.bind (jget ''scope'' (payload e)) strs_from = Some tokens
    \<and> get_str ''kind'' (payload e) = Some kind \<and> get_str ''request_id'' (payload e) = Some request
    \<and> (\<forall>t. scope_holder table' t =
        (if type_name e = command_claimed
         then (if t \<in> set tokens then Some (seq e, kind, request) else scope_holder table t)
         else (if t \<in> set tokens \<and> (\<exists>n. scope_holder table t = Some (n, kind, request)) then None
               else scope_holder table t)))"
proof -
  obtain st where "fold_event claim_scope_projector table e [] = Inr st" "table' = overlay table (map_of st)"
    using project_one_fold [OF assms(1)] by blast
  with claim_scope_fold [OF _ assms(2)] show ?thesis by simp
qed

section \<open>Leases and blocking\<close>

lemma lease_expiry_value: "unat lease_expiry_seconds = 60"
  by (simp add: lease_expiry_seconds_def)

lemma min_by_key_least:
  "min_by_key f xs = Some y \<Longrightarrow> y \<in> set xs \<and> (\<forall>x \<in> set xs. f y \<le> f x)"
proof (induction xs arbitrary: y)
  case (Cons x xs)
  show ?case
  proof (cases "min_by_key f xs")
    case None
    moreover from None have "xs = []" by (cases xs) (auto split: option.splits if_splits)
    ultimately show ?thesis using Cons.prems by simp
  next
    case (Some z)
    with Cons.IH [OF Some] Cons.prems show ?thesis by (auto split: if_splits)
  qed
qed simp

lemma min_by_key_None [simp]: "min_by_key f xs = None \<longleftrightarrow> xs = []"
  by (cases xs) (auto split: option.splits)

text \<open>A lease lives 60 seconds.  With readable times, a claim whose lease was renewed at one
  instant is interrupted from exactly 60 seconds later on and active before; a claim without a
  lease row is interrupted; and a claim held for the owner is reported so whatever its lease.\<close>

theorem claim_state_cases:
  assumes "cl_lease_renewed_at c = Some r" "parse_instant r = Inr a" "parse_instant now = Inr b"
    and "seconds a + 60 < civil_days 10000 1 1 * 86400"
  shows "claim_state c now = Inr
      (if cl_awaiting_owner c \<noteq> None then AwaitingOwner
       else if instant_less_eq \<lparr>seconds = seconds a + 60, nanos = nanos a\<rparr> b then Interrupted else Active)
    \<and> claim_state (c\<lparr>cl_lease_renewed_at := None\<rparr>) now = Inr
      (if cl_awaiting_owner c \<noteq> None then AwaitingOwner else Interrupted)"
proof -
  have "civil_days 10000 1 1 = 3652365" by (simp add: civil_days_def Let_def)
  then have "plus_seconds a lease_expiry_seconds = Inr \<lparr>seconds = seconds a + 60, nanos = nanos a\<rparr>"
    using assms(4) plus_seconds_eq [OF parse_instant_valid [OF assms(2)], of lease_expiry_seconds]
    by (simp only: lease_expiry_value) simp
  with assms show ?thesis by (auto simp: claim_state_def lease_state_def)
qed

definition shares :: "string list \<Rightarrow> claim \<Rightarrow> bool" where
  "shares scope h \<longleftrightarrow> set (cl_scope h) \<inter> set scope \<noteq> {}"

text \<open>What blocks a command.  Nothing blocks it exactly when no holder shares one of its
  tokens; otherwise the reported block is a holder that shares a token, with the lowest sequence
  of all that do and in its state at that time.\<close>

theorem blocking_lowest:
  "(blocking scope holders now = Inr None \<longleftrightarrow> (\<forall>h \<in> set holders. \<not> shares scope h))
   \<and> (blocking scope holders now = Inr (Some b) \<longrightarrow>
        (\<exists>h \<in> set holders. shares scope h \<and> bl_claim b = cl_id h \<and> claim_state h now = Inr (bl_state b)
           \<and> (\<forall>h' \<in> set holders. shares scope h' \<longrightarrow> cl_seq h \<le> cl_seq h')))"
proof -
  have s: "shares scope h \<longleftrightarrow> (\<exists>t \<in> set (cl_scope h). t \<in> set scope)" for h by (auto simp: shares_def)
  show ?thesis
    by (auto simp: blocking_def s [symmetric] result_simps filter_empty_conv split: option.splits
        dest!: min_by_key_least)
qed

section \<open>Witnesses\<close>

definition example_claimed :: claimed_payload where
  "example_claimed =
     \<lparr>cp_kind = anchor_push, cp_request_id = ''r'', cp_digest = zero_hash, cp_intent = JNull,
      cp_scope = [''anchor''], cp_owner = \<lparr>co_process = ''1'', co_host_session = ''cli'', co_started_at = ''t''\<rparr>\<rparr>"

definition claim_event :: event where
  "claim_event = example_event 1 command_claimed (claimed_to_value example_claimed)"

lemma claim_event_fields [simp]:
  "jget ''scope'' (payload claim_event) = Some (jstrs [''anchor''])"
  "jget ''kind'' (payload claim_event) = Some (JString anchor_push)"
  "jget ''request_id'' (payload claim_event) = Some (JString ''r'')"
  "type_name claim_event = command_claimed" "seq claim_event = 1"
  by (simp_all add: claim_event_def claimed_to_value_def example_claimed_def)

lemma scope_body_check:
  assumes "unat n < 2 ^ 53"
  shows "check_change claim_scope_spec [KText t] (Some (scope_body t n k r)) n = Inr ()"
proof -
  have "numbers_safe (scope_body t n k r)"
    using numbers_safe_jnum [OF assms] by (simp add: scope_body_def numbers_safe_jobj)
  then obtain b where "canonical_json (scope_body t n k r) = Inr b" using canonical_json_ok by metis
  moreover have "fitted [KText t] (map snd (vs_key claim_scope_spec))" by (simp add: fitted_def claim_scope_spec_def)
  moreover have "\<not> 2 ^ 63 \<le> unat n" using assms by simp
  ultimately show ?thesis using scope_body_held [of t n k r] by (simp add: check_change_def)
qed

lemma claim_event_projects:
  "project_events claim_scope_projector Map.empty [claim_event] =
     Inr (Map.empty([KText ''anchor''] \<mapsto> \<lparr>doc_seq = 1, doc_body = scope_body ''anchor'' 1 anchor_push ''r''\<rparr>))"
proof -
  have k: "claim_scope_keys claim_event = [[KText ''anchor'']]"
    by (simp add: claim_scope_keys_def jstrs_def map_filter_def)
  have a: "claim_scope_apply claim_event docs = Inr [Put [KText ''anchor''] (scope_body ''anchor'' 1 anchor_push ''r'')]" for docs
    by (simp add: claim_scope_apply_def jstrs_def)
  have c: "check_change claim_scope_spec [KText ''anchor''] (Some (scope_body ''anchor'' 1 anchor_push ''r'')) 1 = Inr ()"
    by (rule scope_body_check) simp
  have r: "\<not> key_refused claim_scope_spec [] [KText ''anchor'']"
    by (simp add: key_refused_def claim_scope_spec_def fitted_def)
  show ?thesis
    by (simp add: project_events_def fold_event_def claim_scope_projector_def k a stage_def write_change_def c r)
qed

theorem claim_scope_step_witness:
  "scope_holder (Map.empty([KText ''anchor''] \<mapsto> \<lparr>doc_seq = 1, doc_body = scope_body ''anchor'' 1 anchor_push ''r''\<rparr>)) ''anchor''
     = Some (1, anchor_push, ''r'')"
  using claim_scope_step [OF claim_event_projects] by (auto simp: strs_from_def jstrs_def)

definition example_claim :: claim where
  "example_claim =
     \<lparr>cl_id = \<lparr>ci_kind = anchor_push, ci_request_id = ''r''\<rparr>, cl_seq = 1, cl_claimed_at = ''2024-02-29T23:59:59Z'',
      cl_intent = JNull, cl_scope = [''anchor''],
      cl_owner = \<lparr>co_process = ''1'', co_host_session = ''cli'', co_started_at = ''t''\<rparr>,
      cl_lease_renewed_at = Some ''2024-02-29T23:59:59Z'', cl_awaiting_owner = None\<rparr>"

lemma example_time: "parse_instant ''2024-02-29T23:59:59Z'' = Inr \<lparr>seconds = 63871286399, nanos = 0\<rparr>"
  by (simp add: parse_instant_def slice_def digits_def is_digit_def digit_val_def parse_fraction_def
      month_days_def leap_year_def civil_days_def)

theorem claim_state_cases_witness:
  "claim_state example_claim ''2024-02-29T23:59:59Z'' = Inr Active"
  using claim_state_cases [OF _ example_time example_time, of example_claim]
  by (simp add: example_claim_def civil_days_def Let_def instant_less_eq_def)

theorem blocking_lowest_witness:
  "blocking [''anchor''] [example_claim] ''2024-02-29T23:59:59Z''
     = Inr (Some \<lparr>bl_claim = \<lparr>ci_kind = anchor_push, ci_request_id = ''r''\<rparr>, bl_state = Active\<rparr>)
   \<and> shares [''anchor''] example_claim"
proof -
  have s: "claim_state example_claim ''2024-02-29T23:59:59Z'' = Inr Active"
    using claim_state_cases [OF _ example_time example_time, of example_claim]
    by (simp add: example_claim_def civil_days_def Let_def instant_less_eq_def)
  have b: "blocking [''anchor''] [example_claim] ''2024-02-29T23:59:59Z''
     = Inr (Some \<lparr>bl_claim = \<lparr>ci_kind = anchor_push, ci_request_id = ''r''\<rparr>, bl_state = Active\<rparr>)"
    using s by (simp add: blocking_def) (simp add: example_claim_def)
  with blocking_lowest [of "[''anchor'']" "[example_claim]" "''2024-02-29T23:59:59Z''"] show ?thesis by auto
qed

end
