(* ===== verification/Request.thy ===== *)
theory Request
  imports Claim
begin

text \<open>
  The store's request records (\<open>baley-store/src/request.rs\<close>): request digests, the
  \<open>command.completed\<close> payload, the states a request document holds and the \<open>request\<close> projector.
  The projector is proved to implement an abstract machine on requests, claimed, held for the
  owner, completed, and every state in the view is traced to the events that made it.
\<close>

definition command_completed_version :: u32 where "command_completed_version = 2"
definition request_view :: string where "request_view = ''request''"
definition inline_answer_limit :: nat where "inline_answer_limit = 4096"

definition request_digest :: "(string \<Rightarrow> string) \<Rightarrow> json \<Rightarrow> canonical_error + hash" where
  "request_digest sha value = rbind (canonical_json value) (\<lambda>b. Inr (Hash (sha b)))"

definition command_stream :: "command_kind \<Rightarrow> stream_name" where
  "command_stream kind = ''command/'' @ kind"

definition store_owned :: "string \<Rightarrow> bool" where
  "store_owned type \<longleftrightarrow> take (length ''command.'') type = ''command.'' \<or> take (length ''payload.'') type = ''payload.''"

definition request_key :: "command \<Rightarrow> doc_key" where
  "request_key c = [KText (cmd_kind c), KText (cmd_request_id c)]"

fun outcome_str :: "outcome_kind \<Rightarrow> string" where
  "outcome_str Done = ''done''"
| "outcome_str Refused = ''refused''"

fun answer_to_value :: "answer \<Rightarrow> json" where
  "answer_to_value (Inline v) = jobj [(''inline'', v)]"
| "answer_to_value (Stored r) = jobj [(''stored'', ref_to_value r)]"
| "answer_to_value (Tombstone r s) = jobj [(''stored'', ref_to_value r)]"

definition completed_payload_for :: "command_kind \<Rightarrow> request_id \<Rightarrow> hash \<Rightarrow> string list \<Rightarrow> outcome \<Rightarrow> json" where
  "completed_payload_for kind request digest scope oc =
     jobj [(''kind'', JString kind), (''request_id'', JString request), (''digest'', JString (to_hex digest)),
           (''scope'', jstrs scope), (''outcome'', JString (outcome_str (oc_kind oc))),
           (''answer'', answer_to_value (oc_answer oc))]"

definition completed_payload :: "command \<Rightarrow> outcome \<Rightarrow> json" where
  "completed_payload c oc = completed_payload_for (cmd_kind c) (cmd_request_id c) (cmd_digest c) [] oc"

record claim_doc =
  cd_id :: claim_id
  cd_digest :: hash
  cd_seq :: u64
  cd_claimed_at :: string
  cd_scope :: "string list"
  cd_owner :: claim_owner
  cd_intent :: json

datatype request_state =
    Claimed claim_doc
  | AwaitingClaim claim_doc u64
  | Completed hash outcome

definition outcome_parse :: "string \<Rightarrow> outcome_kind option" where
  "outcome_parse t = (if t = ''done'' then Some Done else if t = ''refused'' then Some Refused else None)"

definition answer_from :: "(string \<times> json) list \<Rightarrow> answer option" where
  "answer_from m =
     (if length m \<noteq> 1 then None
      else case (map_of m ''inline'', map_of m ''stored'') of
        (Some v, None) \<Rightarrow> Some (Inline v)
      | (None, Some r) \<Rightarrow> map_option Stored (ref_from_value r)
      | _ \<Rightarrow> None)"

definition recorded_outcome :: "json \<Rightarrow> (hash \<times> outcome) option" where
  "recorded_outcome body = do {
     digest \<leftarrow> Option.bind (get_str ''digest'' body) from_hex;
     kind \<leftarrow> Option.bind (get_str ''outcome'' body) outcome_parse;
     m \<leftarrow> Option.bind (jget ''answer'' body) as_object;
     a \<leftarrow> answer_from m;
     Some (digest, \<lparr>oc_kind = kind, oc_answer = a\<rparr>) }"

definition claim_doc_from :: "json \<Rightarrow> claim_doc option" where
  "claim_doc_from body = do {
     claimed \<leftarrow> jget ''claim'' body;
     owner \<leftarrow> jget ''owner'' claimed;
     kind \<leftarrow> get_str ''kind'' body;
     request \<leftarrow> get_str ''request_id'' body;
     digest \<leftarrow> Option.bind (get_str ''digest'' body) from_hex;
     n \<leftarrow> Option.bind (jget ''seq'' claimed) as_u64;
     at \<leftarrow> get_str ''claimed_at'' claimed;
     scope \<leftarrow> Option.bind (jget ''scope'' claimed) strs_from;
     o' \<leftarrow> owner_from owner;
     intent \<leftarrow> jget ''intent'' claimed;
     Some \<lparr>cd_id = \<lparr>ci_kind = kind, ci_request_id = request\<rparr>, cd_digest = digest, cd_seq = n,
           cd_claimed_at = at, cd_scope = scope, cd_owner = o', cd_intent = intent\<rparr> }"

definition request_state :: "json \<Rightarrow> request_state option" where
  "request_state body = do {
     state \<leftarrow> get_str ''state'' body;
     if state = ''completed'' then do {
       _ \<leftarrow> Option.bind (jget ''scope'' body) strs_from;
       (digest, oc) \<leftarrow> recorded_outcome body;
       Some (Completed digest oc) }
     else if state = ''claimed'' \<or> state = ''awaiting_owner'' then do {
       doc \<leftarrow> claim_doc_from body;
       if state = ''claimed'' then Some (Claimed doc)
       else do {
         held \<leftarrow> jget ''held'' body;
         _ \<leftarrow> jget ''finding'' held;
         n \<leftarrow> Option.bind (jget ''seq'' held) as_u64;
         Some (AwaitingClaim doc n) } }
     else None }"

definition request_spec :: view_spec where
  "request_spec =
     \<lparr>vs_name = request_view, vs_version = 2, vs_key = [(''kind'', FText), (''request_id'', FText)],
      vs_indexes = [\<lparr>ix_name = ''by_state'', ix_fields = [(''state'', FText, Ascending)]\<rparr>], vs_page_bound = 100\<rparr>"

definition request_key_of :: "event \<Rightarrow> doc_key option" where
  "request_key_of e = do {
     k \<leftarrow> get_str ''kind'' (payload e);
     r \<leftarrow> get_str ''request_id'' (payload e);
     Some [KText k, KText r] }"

definition claimed_body :: "event \<Rightarrow> claimed_payload \<Rightarrow> json" where
  "claimed_body e p =
     jobj [(''kind'', JString (cp_kind p)), (''request_id'', JString (cp_request_id p)),
           (''digest'', JString (to_hex (cp_digest p))), (''state'', JString ''claimed''),
           (''claim'', jobj [(''seq'', jnum (seq e)), (''claimed_at'', JString (recorded_at e)),
              (''scope'', jstrs (cp_scope p)), (''owner'', owner_to_value (cp_owner p)), (''intent'', cp_intent p)])]"

definition reconciled_body :: "event \<Rightarrow> doc_key \<Rightarrow> (doc_key \<times> json) list \<Rightarrow> reconciled_payload \<Rightarrow> projector_error + json" where
  "reconciled_body e key docs p =
     rbind (ok_or ''command.reconciled without an open claim'' (map_option snd (find (\<lambda>d. fst d = key) docs))) (\<lambda>body.
       let matching = (case request_state body of
             Some (Claimed doc) \<Rightarrow> cd_seq doc = rp_claim_seq p
           | Some (AwaitingClaim doc _) \<Rightarrow> cd_seq doc = rp_claim_seq p
           | _ \<Rightarrow> False)
       in if \<not> matching then Inl ''command.reconciled without its claim''
          else Inr (jset ''held'' (jobj [(''seq'', jnum (seq e)), (''finding'', rp_finding p)])
                     (jset ''state'' (JString ''awaiting_owner'') body)))"

definition request_apply :: "event \<Rightarrow> (doc_key \<times> json) list \<Rightarrow> projector_error + change list" where
  "request_apply e docs =
     rbind (ok_or ''a command event without its kind and request id'' (request_key_of e)) (\<lambda>key.
       if type_name e = command_claimed then
         rbind (ok_or ''a malformed command.claimed payload'' (claimed_from_value (payload e))) (\<lambda>p.
           Inr [Put key (claimed_body e p)])
       else if type_name e = command_reconciled then
         rbind (ok_or ''a malformed command.reconciled payload'' (reconciled_from_value (payload e))) (\<lambda>p.
           if rp_resolution p = ResolvedClaim then Inr []
           else rbind (reconciled_body e key docs p) (\<lambda>body. Inr [Put key body]))
       else if type_name e = command_completed then
         Inr [Put key (jset ''state'' (JString ''completed'') (payload e))]
       else Inr [])"

definition request_projector :: projector where
  "request_projector =
     \<lparr>p_spec = request_spec, p_handles = [command_claimed, command_completed, command_reconciled],
      p_keys = (\<lambda>e. case request_key_of e of None \<Rightarrow> [] | Some k \<Rightarrow> [k]), p_apply = request_apply\<rparr>"

section \<open>Reading what was written\<close>

lemma jget_not_object: "jget k v = Some w \<Longrightarrow> \<exists>m. v = JObject m"
  by (cases v) auto

lemma jget_jset_object:
  assumes "jget k0 v = Some w"
  shows "jget k (jset k' x v) = (if k = k' then Some x else jget k v)"
  using jget_not_object [OF assms] by auto

lemma claim_doc_from_claimed:
  assumes "claimed_from_value (payload e) = Some p"
  shows "claim_doc_from (claimed_body e p) =
     Some \<lparr>cd_id = \<lparr>ci_kind = cp_kind p, ci_request_id = cp_request_id p\<rparr>, cd_digest = cp_digest p, cd_seq = seq e,
           cd_claimed_at = recorded_at e, cd_scope = cp_scope p, cd_owner = cp_owner p, cd_intent = cp_intent p\<rparr>"
proof -
  have "hash_wf (cp_digest p)" using assms by (auto simp: claimed_from_value_def bind_eq_Some_conv dest: from_hex_wf)
  then show ?thesis by (simp add: claim_doc_from_def claimed_body_def)
qed

lemma claimed_key:
  assumes "claimed_from_value (payload e) = Some p"
  shows "request_key_of e = Some [KText (cp_kind p), KText (cp_request_id p)]"
  using assms by (auto simp: claimed_from_value_def request_key_of_def bind_eq_Some_conv)

lemma reconciled_key:
  assumes "reconciled_from_value (payload e) = Some p"
  shows "request_key_of e = Some [KText (ci_kind (rp_claim p)), KText (ci_request_id (rp_claim p))]"
  using assms by (auto simp: reconciled_from_value_def request_key_of_def bind_eq_Some_conv)

lemma outcome_parse_iff [simp]: "outcome_parse t = Some k \<longleftrightarrow> t = outcome_str k"
  by (cases k) (auto simp: outcome_parse_def)

lemma outcome_parse_str [simp]: "outcome_parse (outcome_str k) = Some k"
  by (cases k) (auto simp: outcome_parse_def)

lemma answer_from_value:
  "answer_from (members [(''inline'', v)]) = Some (Inline v)"
  "ref_wf r \<Longrightarrow> answer_from (members [(''stored'', ref_to_value r)]) = Some (Stored r)"
  by (simp_all add: answer_from_def members_def reference.decode_encode)

text \<open>The answer a request document keeps: a tombstone is recorded as its reference.\<close>

fun kept_answer :: "answer \<Rightarrow> answer" where
  "kept_answer (Tombstone r s) = Stored r"
| "kept_answer a = a"

fun answer_wf :: "answer \<Rightarrow> bool" where
  "answer_wf (Inline v) = True"
| "answer_wf (Stored r) = ref_wf r"
| "answer_wf (Tombstone r s) = ref_wf r"

lemma completed_state:
  assumes "hash_wf digest" "answer_wf (oc_answer oc)"
  shows "request_state (jset ''state'' (JString ''completed'') (completed_payload_for kind request digest scope oc)) =
     Some (Completed digest \<lparr>oc_kind = oc_kind oc, oc_answer = kept_answer (oc_answer oc)\<rparr>)"
proof -
  let ?v = "completed_payload_for kind request digest scope oc"
  have "jget ''kind'' ?v = Some (JString kind)" by (simp add: completed_payload_for_def)
  note look = jget_jset_object [OF this]
  have ans: "Option.bind (as_object (answer_to_value (oc_answer oc))) answer_from = Some (kept_answer (oc_answer oc))"
    using assms(2) by (cases "oc_answer oc") (simp_all add: answer_from_value)
  have "recorded_outcome (jset ''state'' (JString ''completed'') ?v) =
      Some (digest, \<lparr>oc_kind = oc_kind oc, oc_answer = kept_answer (oc_answer oc)\<rparr>)"
  proof -
    obtain m where "as_object (answer_to_value (oc_answer oc)) = Some m" "answer_from m = Some (kept_answer (oc_answer oc))"
      using ans by (auto simp: bind_eq_Some_conv)
    then show ?thesis using assms(1)
      by (simp add: recorded_outcome_def look del: outcome_parse_iff as_object_Some_iff) (simp add: completed_payload_for_def)
  qed
  moreover have "jget ''scope'' ?v = Some (jstrs scope)" by (simp add: completed_payload_for_def)
  ultimately show ?thesis by (simp add: request_state_def look)
qed

section \<open>The projector keeps its promises\<close>

lemma request_apply_key:
  assumes "request_apply e docs = Inr cs" "c \<in> set cs"
  obtains key body where "request_key_of e = Some key" "c = Put key body"
  using assms by (auto simp: request_apply_def result_simps split: if_splits)

lemma key_of_member:
  "request_key_of e = Some key \<Longrightarrow> \<exists>k r. key = [KText k, KText r]
     \<and> get_str ''kind'' (payload e) = Some k \<and> get_str ''request_id'' (payload e) = Some r"
  by (auto simp: request_key_of_def bind_eq_Some_conv)

lemma request_held_iff:
  "key_held request_spec [KText k, KText r] b \<and> index_held request_spec b \<longleftrightarrow>
     get_str ''kind'' b = Some k \<and> get_str ''request_id'' b = Some r \<and> get_str ''state'' b \<noteq> None"
  by (auto simp: key_held_def index_held_def index_columns_def request_spec_def)

lemma reconciled_body_elim:
  assumes "reconciled_body e key docs p = Inr body"
  obtains b where "find (\<lambda>d. fst d = key) docs = Some (key, b)" "(key, b) \<in> set docs"
    "body = jset ''held'' (jobj [(''seq'', jnum (seq e)), (''finding'', rp_finding p)]) (jset ''state'' (JString ''awaiting_owner'') b)"
proof -
  from assms obtain q where q: "find (\<lambda>d. fst d = key) docs = Some q"
    "body = jset ''held'' (jobj [(''seq'', jnum (seq e)), (''finding'', rp_finding p)]) (jset ''state'' (JString ''awaiting_owner'') (snd q))"
    by (auto simp: reconciled_body_def result_simps Let_def split: if_splits)
  then have "fst q = key" "q \<in> set docs" by (auto simp: find_Some_iff)
  with q that [of "snd q"] show ?thesis by auto
qed

lemma request_put_held:
  assumes "request_apply e docs = Inr cs" "Put key body \<in> set cs"
    and docs: "\<And>k b. (k, b) \<in> set docs \<Longrightarrow> key_held request_spec k b \<and> index_held request_spec b"
  shows "key_held request_spec key body \<and> index_held request_spec body"
proof -
  obtain key' where key': "request_key_of e = Some key'" "key = key'"
    using request_apply_key [OF assms(1,2)] by auto
  then obtain k r where kr: "key = [KText k, KText r]" "get_str ''kind'' (payload e) = Some k"
    "get_str ''request_id'' (payload e) = Some r" using key_of_member by blast
  have body: "type_name e = command_claimed \<and> (\<exists>p. claimed_from_value (payload e) = Some p \<and> body = claimed_body e p)
    \<or> type_name e = command_reconciled \<and> (\<exists>p. reconciled_body e key docs p = Inr body)
    \<or> body = jset ''state'' (JString ''completed'') (payload e)"
    using assms(1,2) key' by (auto simp: request_apply_def result_simps split: if_splits)
  then consider (c) p where "claimed_from_value (payload e) = Some p" "body = claimed_body e p"
    | (r) p where "reconciled_body e key docs p = Inr body"
    | (d) "body = jset ''state'' (JString ''completed'') (payload e)" by blast
  then show ?thesis
  proof cases
    case c
    with kr claimed_key [OF c(1)] key' show ?thesis by (simp add: request_held_iff) (simp add: claimed_body_def)
  next
    case r
    from reconciled_body_elim [OF r] obtain b where r: "(key, b) \<in> set docs"
      "body = jset ''held'' (jobj [(''seq'', jnum (seq e)), (''finding'', rp_finding p)]) (jset ''state'' (JString ''awaiting_owner'') b)" .
    then have b: "get_str ''kind'' b = Some k" "get_str ''request_id'' b = Some r"
      using docs [of key b] kr(1) request_held_iff [of k r b] by auto
    then obtain w where w: "jget ''kind'' b = Some w" by (auto simp: bind_eq_Some_conv)
    show ?thesis
      unfolding kr(1) request_held_iff r(2)
      using b jget_jset_object [OF w] jget_not_object [OF w] by auto
  next
    case d
    obtain w where w: "jget ''kind'' (payload e) = Some w" using kr by (auto simp: bind_eq_Some_conv)
    show ?thesis
      unfolding kr(1) request_held_iff d using kr jget_jset_object [OF w] by auto
  qed
qed

interpretation request: view_projector request_projector
proof unfold_locales
  fix e docs cs c
  assume "p_apply request_projector e docs = Inr cs" "c \<in> set cs"
  then show "change_key c \<in> set (p_keys request_projector e)"
    by (auto simp: request_projector_def elim!: request_apply_key)
next
  fix k e
  assume "k \<in> set (p_keys request_projector e)"
  then have "request_key_of e = Some k" by (auto simp: request_projector_def split: option.splits)
  then show "fitted k (map snd (vs_key (p_spec request_projector)))"
    by (auto simp: request_projector_def request_spec_def fitted_def dest: key_of_member)
next
  fix e docs cs k b
  assume "p_apply request_projector e docs = Inr cs" "Put k b \<in> set cs"
    "\<And>k b. (k, b) \<in> set docs \<Longrightarrow> key_held (p_spec request_projector) k b \<and> index_held (p_spec request_projector) b"
  then show "key_held (p_spec request_projector) k b \<and> index_held (p_spec request_projector) b"
    using request_put_held [of e docs cs k b] by (simp add: request_projector_def)
qed

section \<open>The request machine\<close>

definition request_at :: "view_table \<Rightarrow> doc_key \<Rightarrow> request_state option" where
  "request_at table key = Option.bind (table key) (\<lambda>d. request_state (doc_body d))"

text \<open>The abstract effect of one command event on the state of its request.\<close>

definition request_step :: "event \<Rightarrow> request_state option \<Rightarrow> request_state option" where
  "request_step e s =
     (if type_name e = command_claimed then
        map_option (\<lambda>p. Claimed \<lparr>cd_id = \<lparr>ci_kind = cp_kind p, ci_request_id = cp_request_id p\<rparr>,
           cd_digest = cp_digest p, cd_seq = seq e, cd_claimed_at = recorded_at e, cd_scope = cp_scope p,
           cd_owner = cp_owner p, cd_intent = cp_intent p\<rparr>) (claimed_from_value (payload e))
      else if type_name e = command_reconciled then
        (case reconciled_from_value (payload e) of
           None \<Rightarrow> None
         | Some p \<Rightarrow> if rp_resolution p = ResolvedClaim then s
             else (case s of
                 Some (Claimed doc) \<Rightarrow> if cd_seq doc = rp_claim_seq p then Some (AwaitingClaim doc (seq e)) else None
               | Some (AwaitingClaim doc n) \<Rightarrow> if cd_seq doc = rp_claim_seq p then Some (AwaitingClaim doc (seq e)) else None
               | _ \<Rightarrow> None))
      else request_state (jset ''state'' (JString ''completed'') (payload e)))"

lemma reconciled_body_state:
  assumes "reconciled_body e key docs p = Inr body" "find (\<lambda>d. fst d = key) docs = Some (key, b)"
  shows "\<exists>doc. request_state body = Some (AwaitingClaim doc (seq e)) \<and> cd_seq doc = rp_claim_seq p
     \<and> (request_state b = Some (Claimed doc) \<or> (\<exists>n. request_state b = Some (AwaitingClaim doc n)))"
proof -
  from assms obtain doc where doc: "request_state b = Some (Claimed doc) \<or> (\<exists>n. request_state b = Some (AwaitingClaim doc n))"
    "cd_seq doc = rp_claim_seq p"
    and body: "body = jset ''held'' (jobj [(''seq'', jnum (seq e)), (''finding'', rp_finding p)])
                     (jset ''state'' (JString ''awaiting_owner'') b)"
    by (auto simp: reconciled_body_def Let_def split: option.splits request_state.splits if_splits)
  from doc(1) have cd: "claim_doc_from b = Some doc"
    by (auto simp: request_state_def bind_eq_Some_conv split: if_splits)
  then obtain w where w: "jget ''kind'' b = Some w" by (auto simp: claim_doc_from_def bind_eq_Some_conv)
  then have w': "jget ''kind'' (jset ''state'' (JString ''awaiting_owner'') b) = Some w"
    using jget_jset_object [OF w] by simp
  have "jget k body = (if k = ''held'' then Some (jobj [(''seq'', jnum (seq e)), (''finding'', rp_finding p)])
      else if k = ''state'' then Some (JString ''awaiting_owner'') else jget k b)" for k
    unfolding body using jget_jset_object [OF w'] jget_jset_object [OF w] by auto
  moreover from this have "claim_doc_from body = claim_doc_from b" by (simp add: claim_doc_from_def)
  ultimately show ?thesis using cd doc by (auto simp: request_state_def)
qed

lemma request_changes:
  assumes "project_events request_projector table [e] = Inr table'" "type_name e \<in> set (p_handles request_projector)"
  obtains key where "request_key_of e = Some key"
    "request_apply e (documents_at table [] [key]) = Inr [] \<and> table' = table
     \<or> (\<exists>body. request_apply e (documents_at table [] [key]) = Inr [Put key body]
          \<and> table' = table(key \<mapsto> \<lparr>doc_seq = seq e, doc_body = body\<rparr>))"
proof -
  from project_one [OF assms] obtain cs where
    cs: "request_apply e (documents_at table [] (p_keys request_projector e)) = Inr cs"
    and table': "table' = overlay table (map_of (foldl (stage (seq e)) [] cs))"
    by (auto simp: request_projector_def)
  then obtain key where key: "request_key_of e = Some key" by (auto simp: request_apply_def result_simps)
  then have keys: "p_keys request_projector e = [key]" by (simp add: request_projector_def)
  have "cs = [] \<or> (\<exists>body. cs = [Put key body])"
    using cs key by (auto simp: request_apply_def result_simps split: if_splits)
  then show ?thesis
  proof
    assume "cs = []"
    with cs key keys table' that show ?thesis by simp
  next
    assume "\<exists>body. cs = [Put key body]"
    then obtain body where c: "cs = [Put key body]" by blast
    then have "table' = table(key \<mapsto> \<lparr>doc_seq = seq e, doc_body = body\<rparr>)"
      by (auto simp: table' stage_def overlay_def fun_eq_iff)
    with cs c key keys that show ?thesis by auto
  qed
qed

lemma documents_at_one:
  "documents_at table s [key] = (case doc_read table s key of None \<Rightarrow> [] | Some b \<Rightarrow> [(key, b)])"
  by (simp add: documents_at_def List.map_filter_def split: option.split)

definition request_read :: "view_table \<Rightarrow> staging \<Rightarrow> doc_key \<Rightarrow> request_state option" where
  "request_read table s key = Option.bind (doc_read table s key) request_state"

lemma request_read_empty [simp]: "request_read table [] key = request_at table key"
  by (cases "table key") (simp_all add: request_read_def request_at_def doc_read_def)

lemma request_apply_state:
  assumes "request_apply e (documents_at table st [key]) = Inr [Put key body]" "request_key_of e = Some key"
  shows "request_state body = request_step e (request_read table st key)"
proof -
  consider (c) "type_name e = command_claimed" | (r) "type_name e = command_reconciled"
    | (d) "type_name e \<noteq> command_claimed" "type_name e \<noteq> command_reconciled" by blast
  then show ?thesis
  proof cases
    case c
    then obtain p where p: "claimed_from_value (payload e) = Some p" "body = claimed_body e p"
      using assms by (auto simp: request_apply_def result_simps)
    have "get_str ''state'' body = Some ''claimed''" by (simp add: p(2) claimed_body_def)
    with c p claim_doc_from_claimed [OF p(1)] show ?thesis by (simp add: request_state_def request_step_def)
  next
    case r
    have ne: "type_name e \<noteq> command_claimed" using r by (simp add: command_claimed_def command_reconciled_def)
    then obtain p where p: "reconciled_from_value (payload e) = Some p" "rp_resolution p \<noteq> ResolvedClaim"
      "reconciled_body e key (documents_at table st [key]) p = Inr body"
      using assms r by (auto simp: request_apply_def result_simps split: if_splits)
    from reconciled_body_elim [OF p(3)] obtain b where b: "(key, b) \<in> set (documents_at table st [key])"
      "find (\<lambda>d. fst d = key) (documents_at table st [key]) = Some (key, b)" .
    from b(1) have "doc_read table st key = Some b"
      by (simp add: documents_at_one split: option.splits)
    then have at: "request_read table st key = request_state b" by (simp add: request_read_def)
    from reconciled_body_state [OF p(3) b(2)] p(1,2) r ne at show ?thesis
      by (auto simp: request_step_def)
  next
    case d
    then have "body = jset ''state'' (JString ''completed'') (payload e)"
      using assms by (auto simp: request_apply_def result_simps split: if_splits)
    with d show ?thesis by (simp add: request_step_def)
  qed
qed

lemma request_apply_none:
  assumes "request_apply e (documents_at table st [key]) = Inr []" "type_name e \<in> set (p_handles request_projector)"
  shows "request_step e s = s"
  using assms by (auto simp: request_apply_def request_projector_def request_step_def result_simps command_claimed_def
      command_reconciled_def split: if_splits)

text \<open>C27: the request view implements the request machine.  Projecting one command event changes
  the state of exactly the request the event names, from its state before to the one the machine
  gives: a claim opens, a reconciliation that holds it marks that same open claim as held at the
  reconciliation's sequence, one that resolves it leaves it to the completion, and a completion
  records the digest and outcome of its payload.\<close>

theorem request_step_refines:
  assumes "project_events request_projector table [e] = Inr table'"
    and "type_name e \<in> {command_claimed, command_reconciled, command_completed}"
  shows "\<exists>key. request_key_of e = Some key \<and> request_at table' key = request_step e (request_at table key)
    \<and> (\<forall>k. k \<noteq> key \<longrightarrow> table' k = table k)"
proof -
  have h: "type_name e \<in> set (p_handles request_projector)" using assms(2) by (auto simp: request_projector_def)
  from request_changes [OF assms(1) h] obtain key where key: "request_key_of e = Some key"
    and c: "request_apply e (documents_at table [] [key]) = Inr [] \<and> table' = table
     \<or> (\<exists>body. request_apply e (documents_at table [] [key]) = Inr [Put key body]
          \<and> table' = table(key \<mapsto> \<lparr>doc_seq = seq e, doc_body = body\<rparr>))" .
  from c show ?thesis
  proof
    assume "request_apply e (documents_at table [] [key]) = Inr [] \<and> table' = table"
    with key request_apply_none [OF _ h] show ?thesis by auto
  next
    assume "\<exists>body. request_apply e (documents_at table [] [key]) = Inr [Put key body]
          \<and> table' = table(key \<mapsto> \<lparr>doc_seq = seq e, doc_body = body\<rparr>)"
    then obtain body where b: "request_apply e (documents_at table [] [key]) = Inr [Put key body]"
      "table' = table(key \<mapsto> \<lparr>doc_seq = seq e, doc_body = body\<rparr>)" by blast
    from request_apply_state [OF b(1) key] b(2) key show ?thesis by (auto simp: request_at_def)
  qed
qed

lemma request_unhandled:
  assumes "project_events request_projector table [e] = Inr table'"
    "type_name e \<notin> {command_claimed, command_reconciled, command_completed}"
  shows "table' = table"
  using assms by (simp add: project_events_def fold_event_def request_projector_def)

section \<open>Where an open claim comes from\<close>

text \<open>The claim document a \<open>command.claimed\<close> event opens.\<close>

definition claim_doc_of :: "event \<Rightarrow> claim_doc option" where
  "claim_doc_of e =
     (if type_name e = command_claimed
      then map_option (\<lambda>p. \<lparr>cd_id = \<lparr>ci_kind = cp_kind p, ci_request_id = cp_request_id p\<rparr>,
           cd_digest = cp_digest p, cd_seq = seq e, cd_claimed_at = recorded_at e, cd_scope = cp_scope p,
           cd_owner = cp_owner p, cd_intent = cp_intent p\<rparr>) (claimed_from_value (payload e))
      else None)"

definition state_traced :: "event list \<Rightarrow> request_state \<Rightarrow> bool" where
  "state_traced es s =
     (case s of
        Claimed doc \<Rightarrow> \<exists>e \<in> set es. claim_doc_of e = Some doc
      | AwaitingClaim doc n \<Rightarrow> (\<exists>e \<in> set es. claim_doc_of e = Some doc)
          \<and> (\<exists>e \<in> set es. type_name e = command_reconciled \<and> seq e = n)
      | Completed d oc \<Rightarrow> \<exists>e \<in> set es. type_name e = command_completed
          \<and> recorded_outcome (payload e) = Some (d, oc))"

lemma state_traced_append: "state_traced es s \<Longrightarrow> state_traced (es @ fs) s"
  by (auto simp: state_traced_def split: request_state.splits)

lemma completed_state_outcome:
  assumes "request_state (jset ''state'' (JString ''completed'') v) = Some s" "get_str ''kind'' v = Some k"
  shows "\<exists>d oc. s = Completed d oc \<and> recorded_outcome v = Some (d, oc)"
proof -
  obtain w where "jget ''kind'' v = Some w" using assms(2) by (auto simp: bind_eq_Some_conv)
  note look = jget_jset_object [OF this, of _ "''state''" "JString ''completed''"]
  have "recorded_outcome (jset ''state'' (JString ''completed'') v) = recorded_outcome v"
    by (simp add: recorded_outcome_def look)
  with assms(1) show ?thesis by (auto simp: request_state_def look bind_eq_Some_conv)
qed

lemma request_step_traced:
  assumes "request_step e s = Some s'" "type_name e \<in> {command_claimed, command_reconciled, command_completed}"
    "request_key_of e = Some key" "\<And>u. s = Some u \<Longrightarrow> state_traced es u"
  shows "state_traced (es @ [e]) s'"
proof -
  consider (c) "type_name e = command_claimed"
    | (r) "type_name e \<noteq> command_claimed" "type_name e = command_reconciled"
    | (d) "type_name e \<noteq> command_claimed" "type_name e \<noteq> command_reconciled" "type_name e = command_completed"
    using assms(2) by blast
  then show ?thesis
  proof cases
    case c
    with assms(1) show ?thesis by (auto simp: request_step_def state_traced_def claim_doc_of_def)
  next
    case r
    with assms(1,4) show ?thesis
      by (auto simp: request_step_def state_traced_def split: option.splits request_state.splits if_splits)
  next
    case d
    obtain k where k: "get_str ''kind'' (payload e) = Some k" using assms(3) key_of_member by blast
    have "request_state (jset ''state'' (JString ''completed'') (payload e)) = Some s'"
      using assms(1) d by (simp add: request_step_def)
    from completed_state_outcome [OF this k] d(3) show ?thesis by (auto simp: state_traced_def)
  qed
qed

lemma fold_event_request:
  assumes "type_name e \<in> set (p_handles request_projector)" "fold_event request_projector table e st = Inr u"
  obtains key cs where "request_key_of e = Some key"
    "request_apply e (documents_at table st [key]) = Inr cs" "u = foldl (stage (seq e)) st cs"
proof -
  obtain cs where cs: "request_apply e (documents_at table st (p_keys request_projector e)) = Inr cs"
    "u = foldl (stage (seq e)) st cs"
    using fold_event_handled [OF assms(2,1)] by (auto simp: request_projector_def)
  then obtain key where "request_key_of e = Some key" by (auto simp: request_apply_def result_simps)
  with cs that [of key cs] show ?thesis by (simp add: request_projector_def)
qed

lemma fold_events_traced:
  assumes "fold_events request_projector table es st = Inr st'"
    and "\<And>key u. request_read table st key = Some u \<Longrightarrow> state_traced ds u"
    and "request_read table st' key = Some s"
  shows "state_traced (ds @ es) s"
  using assms
proof (induction es arbitrary: st ds)
  case Nil
  then show ?case by simp
next
  case (Cons e es)
  from Cons.prems(1) obtain u where u: "fold_event request_projector table e st = Inr u"
    "fold_events request_projector table es u = Inr st'"
    by (auto simp: result_simps)
  have "state_traced ((ds @ [e]) @ es) s"
  proof (rule Cons.IH [OF u(2) _ Cons.prems(3)])
    fix k v assume v: "request_read table u k = Some v"
    show "state_traced (ds @ [e]) v"
    proof (cases "type_name e \<in> set (p_handles request_projector)")
      case False
      with u(1) v Cons.prems(2) [of k v] show ?thesis by (simp add: fold_event_def state_traced_append)
    next
      case True
      then obtain key cs where key: "request_key_of e = Some key"
        and cs: "request_apply e (documents_at table st [key]) = Inr cs" "u = foldl (stage (seq e)) st cs"
        using u(1) by (elim fold_event_request [OF True])
      show ?thesis
      proof (cases "cs = [] \<or> k \<noteq> key")
        case True
        have "cs = [] \<or> (\<exists>body. cs = [Put key body])"
          using cs(1) key by (auto simp: request_apply_def result_simps split: if_splits)
        with True cs(2) have "request_read table u k = request_read table st k"
          by (auto simp: request_read_def doc_read_def map_of_stage)
        with v Cons.prems(2) [of k v] show ?thesis by (simp add: state_traced_append)
      next
        case False
        then obtain body where c: "cs = [Put key body]" "k = key"
          using cs(1) key by (auto simp: request_apply_def result_simps split: if_splits)
        with v cs(2) have "request_state body = Some v" by (simp add: request_read_def doc_read_def map_of_stage)
        with request_apply_state [of e table st key body] cs(1) c(1) key
        have step: "request_step e (request_read table st key) = Some v" by simp
        have "type_name e \<in> {command_claimed, command_reconciled, command_completed}"
          using \<open>type_name e \<in> set (p_handles request_projector)\<close> by (auto simp: request_projector_def)
        from request_step_traced [OF step this key Cons.prems(2)] show ?thesis .
      qed
    qed
  qed
  then show ?case by simp
qed

text \<open>C28: every state the request view holds is traced to the log.  After projecting any events
  onto an empty view, an open claim is the document of a \<open>command.claimed\<close> event among them, at that
  event's sequence; a claim held for the owner is such a document together with the reconciliation
  event at the recorded sequence; and a completed request carries the digest and outcome of a
  \<open>command.completed\<close> event.\<close>

theorem request_view_traced:
  assumes "project_events request_projector Map.empty es = Inr table" "request_at table key = Some s"
  shows "state_traced es s"
proof -
  obtain st where st: "fold_events request_projector Map.empty es [] = Inr st"
    "write_staged request_spec Map.empty st = Inr table"
    using assms(1) by (auto simp: project_events_def result_simps request_projector_def)
  have "table = overlay Map.empty (map_of st)"
    using st akeys_sorted_distinct [OF fold_events_sorted [OF st(1)]] by (auto simp: write_staged_eq split: list.splits)
  then have "doc_read Map.empty st key = map_option doc_body (table key)" using read_overlay [of Map.empty st key] by simp
  then have "request_at table key = request_read Map.empty st key"
    by (cases "table key") (simp_all add: request_at_def request_read_def)
  with assms(2) fold_events_traced [OF st(1), of "[]" key s] show ?thesis by (simp add: request_at_def)
qed

section \<open>Witnesses\<close>

definition example_outcome :: outcome where
  "example_outcome = \<lparr>oc_kind = Done, oc_answer = Inline JNull\<rparr>"

definition completed_event :: event where
  "completed_event = example_event 2 command_completed (completed_payload_for anchor_push ''r'' zero_hash [''anchor''] example_outcome)"

lemma set_ains_subset: "set (ains k v m) \<subseteq> insert (k, v) (set m)"
  by (induction k v m rule: ains.induct) auto

lemma numbers_safe_ains: "numbers_safe v \<Longrightarrow> \<forall>p \<in> set m. numbers_safe (snd p) \<Longrightarrow> q \<in> set (ains k v m) \<Longrightarrow> numbers_safe (snd q)"
  using set_ains_subset [of k v m] by auto

lemma request_body_check:
  assumes "numbers_safe b" "get_str ''kind'' b = Some k" "get_str ''request_id'' b = Some r" "get_str ''state'' b \<noteq> None"
    "unat n < 2 ^ 63"
  shows "check_change request_spec [KText k, KText r] (Some b) n = Inr ()"
proof -
  obtain c where "canonical_json b = Inr c" using assms(1) canonical_json_ok by metis
  moreover have "fitted [KText k, KText r] (map snd (vs_key request_spec))" by (simp add: fitted_def request_spec_def)
  moreover have "key_held request_spec [KText k, KText r] b \<and> index_held request_spec b"
    using assms by (simp add: request_held_iff)
  ultimately show ?thesis using assms(5) by (simp add: check_change_def)
qed

definition example_completed_body :: json where
  "example_completed_body = jset ''state'' (JString ''completed'') (payload completed_event)"

lemma completed_event_fields:
  "request_key_of completed_event = Some [KText anchor_push, KText ''r'']"
  "type_name completed_event = command_completed" "seq completed_event = 2"
  "numbers_safe example_completed_body" "get_str ''kind'' example_completed_body = Some anchor_push"
  "get_str ''request_id'' example_completed_body = Some ''r''" "get_str ''state'' example_completed_body = Some ''completed''"
proof -
  have kind: "jget ''kind'' (payload completed_event) = Some (JString anchor_push)"
    by (simp add: completed_event_def completed_payload_for_def)
  have ns: "numbers_safe (payload completed_event)"
    by (simp add: completed_event_def completed_payload_for_def numbers_safe_jobj jstrs_def example_outcome_def)
  show "request_key_of completed_event = Some [KText anchor_push, KText ''r'']"
    by (simp add: request_key_of_def kind) (simp add: completed_event_def completed_payload_for_def)
  show "type_name completed_event = command_completed" "seq completed_event = 2" by (simp_all add: completed_event_def)
  show "get_str ''kind'' example_completed_body = Some anchor_push"
    "get_str ''request_id'' example_completed_body = Some ''r''" "get_str ''state'' example_completed_body = Some ''completed''"
    by (simp_all add: example_completed_body_def jget_jset_object [OF kind] kind)
      (simp add: completed_event_def completed_payload_for_def)
  show "numbers_safe example_completed_body"
    using ns jget_not_object [OF kind] numbers_safe_ains [of "JString ''completed''"]
    by (auto simp: example_completed_body_def)
qed

lemma completed_event_projects:
  "project_events request_projector Map.empty [completed_event] =
     Inr (Map.empty([KText anchor_push, KText ''r''] \<mapsto> \<lparr>doc_seq = 2, doc_body = example_completed_body\<rparr>))"
proof -
  have "request_apply completed_event docs = Inr [Put [KText anchor_push, KText ''r''] example_completed_body]" for docs
    by (simp add: request_apply_def completed_event_fields command_claimed_def command_reconciled_def command_completed_def
        example_completed_body_def)
  moreover have "check_change request_spec [KText anchor_push, KText ''r''] (Some example_completed_body) 2 = Inr ()"
    by (rule request_body_check) (simp_all add: completed_event_fields)
  ultimately show ?thesis
    by (simp add: project_events_def fold_event_def request_projector_def completed_event_fields stage_def write_change_def
        key_refused_def fitted_def request_spec_def)
qed

lemma example_completed_state:
  "request_state example_completed_body = Some (Completed zero_hash example_outcome)"
  using completed_state [of zero_hash example_outcome anchor_push "''r''" "[''anchor'']"]
  by (simp add: example_completed_body_def completed_event_def example_outcome_def zero_hash_def hash_wf_def)

theorem request_step_refines_witness:
  "request_at (Map.empty([KText anchor_push, KText ''r''] \<mapsto> \<lparr>doc_seq = 2, doc_body = example_completed_body\<rparr>))
      [KText anchor_push, KText ''r''] = request_step completed_event None"
  using request_step_refines [OF completed_event_projects]
  by (simp add: completed_event_fields request_at_def)

theorem request_view_traced_witness:
  "state_traced [completed_event] (Completed zero_hash example_outcome)"
  by (rule request_view_traced [OF completed_event_projects, of "[KText anchor_push, KText ''r'']"])
    (simp add: request_at_def example_completed_state)

end
