(* ===== verification/Question_Round.thy ===== *)
theory Question_Round
  imports Question_Set Request
begin

text \<open>
  A set's round and the judgement of an answer call (\<open>baley-core/src/questions/round.rs\<close>,
  \<open>answer.rs\<close>).  The round is worked out from the recorded facts; a call is judged against the
  round as it stood before it and settles its questions in that round.  The lemmas show that the
  round does not depend on the order of the records, that an accepted call settles only open
  questions, each once, and that a set accepted by the judge always makes progress.
\<close>

section \<open>Facts\<close>

datatype cause = Superseded | DraftReplaced

fun cause_str :: "cause \<Rightarrow> string" where
  "cause_str Superseded = ''superseded''"
| "cause_str DraftReplaced = ''draft-replaced''"

definition cause_parse :: "string \<Rightarrow> cause option" where
  "cause_parse t =
     (if t = ''superseded'' then Some Superseded
      else if t = ''draft-replaced'' then Some DraftReplaced
      else None)"

record given_answer =
  an_question :: string
  an_answer :: string
  an_accepted :: bool
  an_round :: u32
  an_owner :: string
  an_at :: string

record deferral =
  df_question :: string
  df_reason :: string
  df_round :: u32
  df_owner :: string
  df_at :: string

record abandonment =
  ab_cause :: cause
  ab_at :: string

record set_facts =
  sf_questions :: "question list"
  sf_answers :: "given_answer list"
  sf_deferrals :: "deferral list"
  sf_abandoned :: "abandonment option"

datatype set_state = SetOpen | SetClosed | SetAbandoned

fun set_state_str :: "set_state \<Rightarrow> string" where
  "set_state_str SetOpen = ''open''"
| "set_state_str SetClosed = ''closed''"
| "set_state_str SetAbandoned = ''abandoned''"

datatype pending = PendingOpen | PendingDeferred

record asked =
  ask_id :: string
  ask_question :: string
  ask_recommended :: string

record waiting =
  wt_id :: string
  wt_question :: string
  wt_on :: "(string \<times> pending) list"

record round =
  rd_number :: u32
  rd_state :: set_state
  rd_current :: "asked list"
  rd_waiting :: "waiting list"
  rd_answered :: "given_answer list"
  rd_deferred :: "deferral list"
  rd_abandoned :: "abandonment option"

section \<open>The round\<close>

definition answers_of :: "set_facts \<Rightarrow> string \<Rightarrow> given_answer option" where
  "answers_of f = map_of (rev (map (\<lambda>a. (an_question a, a)) (sf_answers f)))"

definition deferrals_of :: "set_facts \<Rightarrow> string \<Rightarrow> deferral option" where
  "deferrals_of f = map_of (rev (map (\<lambda>d. (df_question d, d)) (sf_deferrals f)))"

definition waits_on :: "set_facts \<Rightarrow> question \<Rightarrow> (string \<times> pending) list" where
  "waits_on f q =
     map (\<lambda>on. (on, if deferrals_of f on \<noteq> None then PendingDeferred else PendingOpen))
       (filter (\<lambda>on. answers_of f on = None) (q_depends_on q))"

definition place_question :: "set_facts \<Rightarrow> round \<Rightarrow> question \<Rightarrow> round" where
  "place_question f r q =
     (case answers_of f (q_id q) of
        Some a \<Rightarrow> r\<lparr>rd_answered := rd_answered r @ [a]\<rparr>
      | None \<Rightarrow>
          (case deferrals_of f (q_id q) of
             Some d \<Rightarrow> r\<lparr>rd_deferred := rd_deferred r @ [d]\<rparr>
           | None \<Rightarrow>
               (let on = waits_on f q
                in if on = []
                   then r\<lparr>rd_current := rd_current r @
                          [\<lparr>ask_id = q_id q, ask_question = q_question q, ask_recommended = q_recommended q\<rparr>]\<rparr>
                   else r\<lparr>rd_waiting := rd_waiting r @
                          [\<lparr>wt_id = q_id q, wt_question = q_question q, wt_on = on\<rparr>]\<rparr>)))"

definition highest_round :: "set_facts \<Rightarrow> u32" where
  "highest_round f = foldl max 0 (map an_round (sf_answers f) @ map df_round (sf_deferrals f))"

definition round_of :: "set_facts \<Rightarrow> round" where
  "round_of f =
     (let r = foldl (place_question f)
            \<lparr>rd_number = saturating_succ32 (highest_round f), rd_state = SetClosed, rd_current = [], rd_waiting = [],
             rd_answered = [], rd_deferred = [], rd_abandoned = sf_abandoned f\<rparr> (sf_questions f)
      in r\<lparr>rd_state := (if rd_abandoned r \<noteq> None then SetAbandoned
                        else if rd_current r = [] \<and> rd_waiting r = [] then SetClosed
                        else SetOpen)\<rparr>)"

section \<open>Answer calls\<close>

datatype act = Take | AnswerAct string | DeferAct string

record item =
  it_question :: string
  it_act :: act

datatype answer_refusal =
    SetIsAbandoned
  | NoSuchQuestion string
  | QuestionClosed string
  | NotInRound string
  | AnswerBlank string
  | DeferralReason string

fun answer_refusal_code :: "answer_refusal \<Rightarrow> string" where
  "answer_refusal_code SetIsAbandoned = ''question-set-abandoned''"
| "answer_refusal_code (NoSuchQuestion _) = ''no-such-question''"
| "answer_refusal_code (QuestionClosed _) = ''question-closed''"
| "answer_refusal_code (NotInRound _) = ''question-not-in-round''"
| "answer_refusal_code (AnswerBlank _) = ''answer-blank''"
| "answer_refusal_code (DeferralReason _) = ''deferral-reason''"

fun answer_refusal_question :: "answer_refusal \<Rightarrow> string option" where
  "answer_refusal_question SetIsAbandoned = None"
| "answer_refusal_question (NoSuchQuestion i) = Some i"
| "answer_refusal_question (QuestionClosed i) = Some i"
| "answer_refusal_question (NotInRound i) = Some i"
| "answer_refusal_question (AnswerBlank i) = Some i"
| "answer_refusal_question (DeferralReason i) = Some i"

datatype settlement =
    Answered string string bool
  | Deferred string string

fun settled_question :: "settlement \<Rightarrow> string" where
  "settled_question (Answered q _ _) = q"
| "settled_question (Deferred q _) = q"

record settled =
  sd_facts :: set_facts
  sd_round :: u32
  sd_settlements :: "settlement list"

definition settle :: "u32 \<Rightarrow> string \<Rightarrow> string \<Rightarrow> set_facts \<Rightarrow> settlement \<Rightarrow> set_facts" where
  "settle n owner at f s =
     (case s of
        Answered q a accepted \<Rightarrow>
          f\<lparr>sf_answers := sf_answers f @ [\<lparr>an_question = q, an_answer = a, an_accepted = accepted, an_round = n,
                                        an_owner = owner, an_at = at\<rparr>]\<rparr>
      | Deferred q reason \<Rightarrow>
          f\<lparr>sf_deferrals := sf_deferrals f @ [\<lparr>df_question = q, df_reason = reason, df_round = n,
                                            df_owner = owner, df_at = at\<rparr>]\<rparr>)"

definition facts_after :: "settled \<Rightarrow> string \<Rightarrow> string \<Rightarrow> set_facts" where
  "facts_after s owner at = foldl (settle (sd_round s) owner at) (sd_facts s) (sd_settlements s)"

definition round_after :: "settled \<Rightarrow> string \<Rightarrow> string \<Rightarrow> round" where
  "round_after s owner at = round_of (facts_after s owner at)"

text \<open>\<open>Some None\<close> when the member is absent, \<open>None\<close> when it is not a text within the bound.\<close>

definition optional_text :: "(string \<times> json) list \<Rightarrow> string \<Rightarrow> string option option" where
  "optional_text m name =
     (case map_of m name of
        None \<Rightarrow> Some None
      | Some (JString t) \<Rightarrow> if length t \<le> inline_text_limit then Some (Some t) else None
      | Some _ \<Rightarrow> None)"

definition item_of :: "json \<Rightarrow> item option" where
  "item_of entry = do {
     m \<leftarrow> as_object entry;
     q \<leftarrow> Option.bind (optional_text m ''question'') (\<lambda>x. x);
     a \<leftarrow> Option.bind (optional_text m ''act'') (\<lambda>x. x);
     (act, member) \<leftarrow>
       (if a = ''take'' then Some (Take, None)
        else if a = ''answer'' then
          map_option (\<lambda>t. (AnswerAct (case t of None \<Rightarrow> [] | Some t \<Rightarrow> t), Some ''answer'')) (optional_text m ''answer'')
        else if a = ''defer'' then
          map_option (\<lambda>t. (DeferAct (case t of None \<Rightarrow> [] | Some t \<Rightarrow> t), Some ''reason'')) (optional_text m ''reason'')
        else None);
     if \<exists>name \<in> fst ` set m. name \<noteq> ''question'' \<and> name \<noteq> ''act'' \<and> Some name \<noteq> member then None
     else Some \<lparr>it_question = q, it_act = act\<rparr> }"

fun judge_items :: "string list \<Rightarrow> nat \<Rightarrow> json list \<Rightarrow> nat option + item list" where
  "judge_items seen position [] = Inr []"
| "judge_items seen position (entry # entries) =
     rbind (ok_or (Some position) (item_of entry)) (\<lambda>i.
       if it_question i \<in> set seen then Inl (Some position)
       else rbind (judge_items (it_question i # seen) (position + 1) entries) (\<lambda>is. Inr (i # is)))"

definition judge_call :: "json \<Rightarrow> nat option + item list" where
  "judge_call value =
     (case as_array value of
        None \<Rightarrow> Inl None
      | Some entries \<Rightarrow> if entries = [] then Inl None else judge_items [] 0 entries)"

definition judge_item :: "set_facts \<Rightarrow> string set \<Rightarrow> string set \<Rightarrow> item \<Rightarrow> answer_refusal + settlement" where
  "judge_item f in_round closed i =
     (let n = it_question i in
      case find (\<lambda>q. q_id q = n) (sf_questions f) of
        None \<Rightarrow> Inl (NoSuchQuestion n)
      | Some q \<Rightarrow>
          if n \<in> closed then Inl (QuestionClosed n)
          else if (case it_act i of DeferAct _ \<Rightarrow> False | _ \<Rightarrow> n \<notin> in_round) then Inl (NotInRound n)
          else (case it_act i of
                  Take \<Rightarrow> Inr (Answered n (q_recommended q) True)
                | AnswerAct t \<Rightarrow> if blank t then Inl (AnswerBlank n) else Inr (Answered n t False)
                | DeferAct t \<Rightarrow> if blank t then Inl (DeferralReason n) else Inr (Deferred n t)))"

definition judge_answers :: "set_facts \<Rightarrow> item list \<Rightarrow> answer_refusal + settled" where
  "judge_answers f items =
     (if sf_abandoned f \<noteq> None then Inl SetIsAbandoned
      else let before = round_of f;
               in_round = set (map ask_id (rd_current before));
               closed = set (map an_question (sf_answers f) @ map df_question (sf_deferrals f))
           in rbind (collect_results (judge_item f in_round closed) items) (\<lambda>ss.
                Inr \<lparr>sd_facts = f, sd_round = rd_number before, sd_settlements = ss\<rparr>))"

section \<open>The round, spelled out\<close>

definition is_open :: "set_facts \<Rightarrow> question \<Rightarrow> bool" where
  "is_open f q \<longleftrightarrow> answers_of f (q_id q) = None \<and> deferrals_of f (q_id q) = None"

lemma place_all:
  "foldl (place_question f) r qs = r\<lparr>
     rd_current := rd_current r @ map (\<lambda>q. \<lparr>ask_id = q_id q, ask_question = q_question q, ask_recommended = q_recommended q\<rparr>)
        (filter (\<lambda>q. is_open f q \<and> waits_on f q = []) qs),
     rd_waiting := rd_waiting r @ map (\<lambda>q. \<lparr>wt_id = q_id q, wt_question = q_question q, wt_on = waits_on f q\<rparr>)
        (filter (\<lambda>q. is_open f q \<and> waits_on f q \<noteq> []) qs),
     rd_answered := rd_answered r @ List.map_filter (\<lambda>q. answers_of f (q_id q)) qs,
     rd_deferred := rd_deferred r @ List.map_filter (\<lambda>q. if answers_of f (q_id q) = None then deferrals_of f (q_id q) else None) qs\<rparr>"
  by (induction qs arbitrary: r)
    (auto simp: place_question_def is_open_def List.map_filter_simps Let_def split: option.splits)

lemma round_current:
  "rd_current (round_of f) = map (\<lambda>q. \<lparr>ask_id = q_id q, ask_question = q_question q, ask_recommended = q_recommended q\<rparr>)
     (filter (\<lambda>q. is_open f q \<and> waits_on f q = []) (sf_questions f))"
  by (simp add: round_of_def place_all Let_def)

lemma round_waiting:
  "rd_waiting (round_of f) = map (\<lambda>q. \<lparr>wt_id = q_id q, wt_question = q_question q, wt_on = waits_on f q\<rparr>)
     (filter (\<lambda>q. is_open f q \<and> waits_on f q \<noteq> []) (sf_questions f))"
  by (simp add: round_of_def place_all Let_def)

lemma round_number: "rd_number (round_of f) = saturating_succ32 (highest_round f)"
  by (simp add: round_of_def place_all Let_def)

lemma round_state:
  "rd_state (round_of f) =
     (if sf_abandoned f \<noteq> None then SetAbandoned
      else if \<exists>q \<in> set (sf_questions f). is_open f q then SetOpen else SetClosed)"
  by (auto simp: round_of_def place_all Let_def filter_empty_conv)

lemma answers_of_None: "answers_of f i = None \<longleftrightarrow> i \<notin> an_question ` set (sf_answers f)"
  by (force simp: answers_of_def map_of_eq_None_iff)

lemma deferrals_of_None: "deferrals_of f i = None \<longleftrightarrow> i \<notin> df_question ` set (sf_deferrals f)"
  by (force simp: deferrals_of_def map_of_eq_None_iff)

section \<open>Progress\<close>

lemma finite_depends: "finite (depends qs)"
proof -
  have "depends qs \<subseteq> (\<Union>q \<in> set qs. {q_id q} \<times> set (q_depends_on q))" by (auto simp: depends_def)
  then show ?thesis by (rule finite_subset) auto
qed

lemma first_open:
  assumes wp: "well_posed (sf_questions f)" and q: "q \<in> set (sf_questions f)" "is_open f q"
  obtains z where "z \<in> set (sf_questions f)" "is_open f z" "\<forall>p \<in> set (waits_on f z). snd p = PendingDeferred"
proof -
  let ?qs = "sf_questions f"
  let ?A = "q_id ` {q \<in> set ?qs. is_open f q}"
  have "wf ((depends ?qs)\<inverse>)" using wp finite_depends by (intro finite_acyclic_wf_converse) (auto simp: well_posed_def)
  moreover have "q_id q \<in> ?A" using q by blast
  ultimately obtain a where a: "a \<in> ?A" "\<And>y. (y, a) \<in> (depends ?qs)\<inverse> \<Longrightarrow> y \<notin> ?A" by (erule wfE_min)
  then obtain z where z: "z \<in> set ?qs" "is_open f z" "a = q_id z" by auto
  have "snd p = PendingDeferred" if p: "p \<in> set (waits_on f z)" for p
  proof -
    from p obtain d where d: "d \<in> set (q_depends_on z)" "answers_of f d = None"
      "p = (d, if deferrals_of f d \<noteq> None then PendingDeferred else PendingOpen)" by (auto simp: waits_on_def)
    have "d \<notin> ?A" by (rule a(2)) (use d z in \<open>auto simp: depends_def\<close>)
    moreover obtain w where w: "w \<in> set ?qs" "q_id w = d"
      using wp z(1) d(1) by (force simp: well_posed_def question_fine_def)
    ultimately have "\<not> is_open f w" by auto
    with d w(2) show ?thesis by (simp add: is_open_def)
  qed
  with z(1,2) that show ?thesis by blast
qed

text \<open>C31: a set that is open makes progress.  On a set the judge accepts, an open set has a question
  in its current round, or else a waiting question all of whose unanswered dependencies the owner
  has deferred; with nothing deferred there is always a question to ask.\<close>

theorem open_set_progress:
  assumes "well_posed (sf_questions f)" "rd_state (round_of f) = SetOpen"
  shows "(rd_current (round_of f) \<noteq> []
    \<or> (\<exists>w \<in> set (rd_waiting (round_of f)). wt_on w \<noteq> [] \<and> (\<forall>p \<in> set (wt_on w). snd p = PendingDeferred)))
    \<and> (sf_deferrals f = [] \<longrightarrow> rd_current (round_of f) \<noteq> [])"
proof (intro conjI impI)
  obtain q where q: "q \<in> set (sf_questions f)" "is_open f q" using assms(2) by (auto simp: round_state split: if_splits)
  from first_open [OF assms(1) q] obtain z where z: "z \<in> set (sf_questions f)" "is_open f z"
    "\<forall>p \<in> set (waits_on f z). snd p = PendingDeferred" .
  show "rd_current (round_of f) \<noteq> []
    \<or> (\<exists>w \<in> set (rd_waiting (round_of f)). wt_on w \<noteq> [] \<and> (\<forall>p \<in> set (wt_on w). snd p = PendingDeferred))"
  proof (cases "waits_on f z = []")
    case True
    with z(1,2) show ?thesis by (auto simp: round_current filter_empty_conv)
  next
    case False
    with z have "\<lparr>wt_id = q_id z, wt_question = q_question z, wt_on = waits_on f z\<rparr> \<in> set (rd_waiting (round_of f))"
      by (auto simp: round_waiting)
    with False z(3) show ?thesis by (intro disjI2 bexI) auto
  qed
  assume "sf_deferrals f = []"
  then show "rd_current (round_of f) \<noteq> []"
  proof -
    assume that: "sf_deferrals f = []"
    have "waits_on f z = []" using z(3) that by (cases "waits_on f z") (auto simp: waits_on_def deferrals_of_None)
    with z(1,2) show ?thesis by (auto simp: round_current filter_empty_conv)
  qed
qed

section \<open>A call settles open questions, each in one round\<close>

lemma settle_fields:
  "sf_questions (settle n owner at f s) = sf_questions f" "sf_abandoned (settle n owner at f s) = sf_abandoned f"
  "an_question ` set (sf_answers (settle n owner at f s)) \<union> df_question ` set (sf_deferrals (settle n owner at f s))
     = insert (settled_question s) (an_question ` set (sf_answers f) \<union> df_question ` set (sf_deferrals f))"
  by (cases s; auto simp: settle_def)+

definition settled_ids :: "set_facts \<Rightarrow> string set" where
  "settled_ids f = an_question ` set (sf_answers f) \<union> df_question ` set (sf_deferrals f)"

lemma is_open_iff: "is_open f q \<longleftrightarrow> q_id q \<notin> settled_ids f"
  by (auto simp: is_open_def answers_of_None deferrals_of_None settled_ids_def)

lemma settle_all:
  "sf_questions (foldl (settle n owner at) f ss) = sf_questions f"
  "sf_abandoned (foldl (settle n owner at) f ss) = sf_abandoned f"
  "settled_ids (foldl (settle n owner at) f ss) = settled_question ` set ss \<union> settled_ids f"
  by (induction ss arbitrary: f) (auto simp: settle_fields settled_ids_def)

lemma highest_settle:
  "highest_round (settle n owner at f s) = max n (highest_round f)"
proof -
  have m: "foldl max (max a b) xs = max a (foldl max b xs)" for a b and xs :: "u32 list"
    by (induction xs arbitrary: b) (auto simp: max.assoc)
  then show ?thesis by (cases s) (simp_all add: settle_def highest_round_def m max.commute)
qed

lemma highest_settle_all: "highest_round (foldl (settle n owner at) f ss) = (if ss = [] then highest_round f else max n (highest_round f))"
  by (induction ss arbitrary: f) (auto simp: highest_settle max_def)

lemma find_SomeD: "find P xs = Some x \<Longrightarrow> x \<in> set xs \<and> P x"
  by (induction xs) (auto split: if_splits)

lemma judge_item_settles:
  assumes "judge_item f in_round closed i = Inr s"
  shows "settled_question s = it_question i \<and> it_question i \<in> q_id ` set (sf_questions f) \<and> it_question i \<notin> closed
    \<and> ((\<forall>r. it_act i \<noteq> DeferAct r) \<longrightarrow> it_question i \<in> in_round)"
  using assms by (auto simp: judge_item_def Let_def dest!: find_SomeD split: option.splits if_splits act.splits intro!: image_eqI)

lemma judge_answers_parts:
  assumes "judge_answers f items = Inr s"
  shows "sf_abandoned f = None" "sd_facts s = f" "sd_round s = rd_number (round_of f)"
    "map settled_question (sd_settlements s) = map it_question items"
    "i \<in> set items \<Longrightarrow> it_question i \<in> q_id ` set (sf_questions f) \<and> it_question i \<notin> settled_ids f
      \<and> ((\<forall>r. it_act i \<noteq> DeferAct r) \<longrightarrow> it_question i \<in> ask_id ` set (rd_current (round_of f)))"
proof -
  obtain ss where s: "sf_abandoned f = None" "s = \<lparr>sd_facts = f, sd_round = rd_number (round_of f), sd_settlements = ss\<rparr>"
    and all: "list_all2 (\<lambda>i s. judge_item f (set (map ask_id (rd_current (round_of f))))
      (set (map an_question (sf_answers f) @ map df_question (sf_deferrals f))) i = Inr s) items ss"
    using assms by (auto simp: judge_answers_def Let_def result_simps collect_results_Inr_iff split: if_splits)
  show "sf_abandoned f = None" "sd_facts s = f" "sd_round s = rd_number (round_of f)" using s by simp_all
  have "list_all2 (\<lambda>i s. settled_question s = it_question i) items ss"
    using all by (rule list_all2_mono) (use judge_item_settles in blast)
  then show "map settled_question (sd_settlements s) = map it_question items"
    unfolding s(2) by (induction rule: list_all2_induct) simp_all
  show "it_question i \<in> q_id ` set (sf_questions f) \<and> it_question i \<notin> settled_ids f
      \<and> ((\<forall>r. it_act i \<noteq> DeferAct r) \<longrightarrow> it_question i \<in> ask_id ` set (rd_current (round_of f)))" if "i \<in> set items"
  proof -
    from that all obtain t where "judge_item f (set (map ask_id (rd_current (round_of f))))
      (set (map an_question (sf_answers f) @ map df_question (sf_deferrals f))) i = Inr t"
      by (auto simp: list_all2_conv_all_nth in_set_conv_nth)
    from judge_item_settles [OF this] show ?thesis by (simp add: settled_ids_def)
  qed
qed

text \<open>C33: one call is one round.  An accepted call settles exactly the questions its items name:
  each is a question of the set that was open before, and in the current round when it is
  answered.  Afterwards the open questions are the earlier ones without these, what was recorded
  before is unchanged, and the round number is the next one (until it saturates).\<close>

theorem judge_answers_sound:
  assumes "judge_answers f items = Inr s"
  shows "map settled_question (sd_settlements s) = map it_question items
    \<and> (\<forall>i \<in> set items. \<exists>q \<in> set (sf_questions f). q_id q = it_question i \<and> is_open f q
         \<and> ((\<forall>r. it_act i \<noteq> DeferAct r) \<longrightarrow> it_question i \<in> ask_id ` set (rd_current (round_of f))))
    \<and> (\<forall>q. is_open (facts_after s owner at) q \<longleftrightarrow> is_open f q \<and> q_id q \<notin> it_question ` set items)
    \<and> (\<exists>as ds. sf_answers (facts_after s owner at) = sf_answers f @ as
         \<and> sf_deferrals (facts_after s owner at) = sf_deferrals f @ ds)
    \<and> sf_questions (facts_after s owner at) = sf_questions f
    \<and> (items \<noteq> [] \<longrightarrow> rd_number (round_after s owner at) = saturating_succ32 (rd_number (round_of f)))"
proof -
  note P = judge_answers_parts [OF assms]
  have ids: "settled_question ` set (sd_settlements s) = it_question ` set items"
    using arg_cong [OF P(4), of set] by simp
  have app: "\<exists>as ds. sf_answers (foldl (settle n owner at) f ss) = sf_answers f @ as
         \<and> sf_deferrals (foldl (settle n owner at) f ss) = sf_deferrals f @ ds" for n ss
  proof (induction ss rule: rev_induct)
    case (snoc x ss)
    then show ?case by (cases x) (auto simp: settle_def)
  qed simp
  have open_after: "is_open (facts_after s owner at) q \<longleftrightarrow> is_open f q \<and> q_id q \<notin> it_question ` set items" for q
    by (auto simp: facts_after_def is_open_iff settle_all P(2) ids)
  have num: "rd_number (round_after s owner at) = saturating_succ32 (rd_number (round_of f))" if "items \<noteq> []"
  proof -
    have "sd_settlements s \<noteq> []" using P(4) that by (metis map_is_Nil_conv)
    then have "highest_round (facts_after s owner at) = max (rd_number (round_of f)) (highest_round f)"
      by (simp add: facts_after_def highest_settle_all P(2,3))
    also have "\<dots> = rd_number (round_of f)"
      using saturating_succ32_mono [of "highest_round f"] by (simp add: round_number max_def)
    finally show ?thesis by (simp add: round_after_def round_number)
  qed
  have q: "\<exists>q \<in> set (sf_questions f). q_id q = it_question i \<and> is_open f q
         \<and> ((\<forall>r. it_act i \<noteq> DeferAct r) \<longrightarrow> it_question i \<in> ask_id ` set (rd_current (round_of f)))" if "i \<in> set items" for i
    using P(5) [OF that] by (auto simp: is_open_iff)
  show ?thesis
    using P(4) q open_after app [of "sd_round s" "sd_settlements s"] num
    by (simp add: facts_after_def settle_all P(2))
qed

section \<open>The order of the records does not matter\<close>

lemma map_of_distinct_mset:
  assumes "distinct (map fst xs)" "set xs = set ys" "distinct (map fst ys)"
  shows "map_of xs = map_of ys"
  using assms by (intro map_of_eqI) (auto simp: map_of_eq_Some_iff)

lemma map_of_rev_keys:
  assumes "distinct (map k xs)" "distinct (map k ys)" "set xs = set ys"
  shows "map_of (rev (map (\<lambda>a. (k a, a)) xs)) = map_of (rev (map (\<lambda>a. (k a, a)) ys))"
proof (rule map_of_distinct_mset)
  show "distinct (map fst (rev (map (\<lambda>a. (k a, a)) xs)))" "distinct (map fst (rev (map (\<lambda>a. (k a, a)) ys)))"
    using assms(1,2) by (simp_all add: rev_map [symmetric] comp_def)
  show "set (rev (map (\<lambda>a. (k a, a)) xs)) = set (rev (map (\<lambda>a. (k a, a)) ys))" using assms(3) by simp
qed

lemma foldl_max_Max: "foldl max a xs = Max (insert a (set xs))" for xs :: "u32 list"
proof -
  have "(\<lambda>x s. max s x) = (max :: u32 \<Rightarrow> _)" by (intro ext) (rule max.commute)
  then have "foldl max a xs = fold max xs a" by (simp add: foldl_conv_fold)
  also have "\<dots> = Max (set (a # xs))" by (rule Max.set_eq_fold [symmetric])
  finally show ?thesis by simp
qed

text \<open>The round is a function of what is recorded, never of the order it is given in.  Facts that
  hold the same answers and the same deferrals, each question settled at most once, have the same
  round.\<close>

theorem round_order_independent:
  assumes "set as = set (sf_answers f)" "set ds = set (sf_deferrals f)"
    and "distinct (map an_question as)" "distinct (map an_question (sf_answers f))"
    and "distinct (map df_question ds)" "distinct (map df_question (sf_deferrals f))"
  shows "round_of (f\<lparr>sf_answers := as, sf_deferrals := ds\<rparr>) = round_of f"
proof -
  let ?g = "f\<lparr>sf_answers := as, sf_deferrals := ds\<rparr>"
  have a: "answers_of ?g = answers_of f"
    unfolding answers_of_def using map_of_rev_keys [OF assms(3,4,1)] by simp
  have d: "deferrals_of ?g = deferrals_of f"
    unfolding deferrals_of_def using map_of_rev_keys [OF assms(5,6,2)] by simp
  have h: "highest_round ?g = highest_round f"
    unfolding highest_round_def foldl_max_Max using assms(1,2) by simp
  have w: "waits_on ?g = waits_on f" by (intro ext) (simp only: waits_on_def a d)
  have "place_question ?g = place_question f" by (intro ext) (simp only: place_question_def a d w)
  then show ?thesis by (simp add: round_of_def h)
qed

section \<open>Every accepted set can be closed\<close>

text \<open>Taking the recommended answer of every question in the current round, again and again.\<close>

definition take_round :: "string \<Rightarrow> string \<Rightarrow> set_facts \<Rightarrow> set_facts option" where
  "take_round owner at f =
     (case judge_answers f (map (\<lambda>a. \<lparr>it_question = ask_id a, it_act = Take\<rparr>) (rd_current (round_of f))) of
        Inl _ \<Rightarrow> None
      | Inr s \<Rightarrow> Some (facts_after s owner at))"

fun take_rounds :: "string \<Rightarrow> string \<Rightarrow> nat \<Rightarrow> set_facts \<Rightarrow> set_facts option" where
  "take_rounds owner at 0 f = Some f"
| "take_rounds owner at (Suc n) f = Option.bind (take_round owner at f) (take_rounds owner at n)"

definition open_count :: "set_facts \<Rightarrow> nat" where
  "open_count f = length (filter (is_open f) (sf_questions f))"

lemma take_current_judged:
  assumes "sf_abandoned f = None"
  shows "\<exists>s. judge_answers f (map (\<lambda>a. \<lparr>it_question = ask_id a, it_act = Take\<rparr>) (rd_current (round_of f))) = Inr s
    \<and> (\<forall>t \<in> set (sd_settlements s). \<exists>q a. t = Answered q a True)"
proof -
  let ?items = "map (\<lambda>a. \<lparr>it_question = ask_id a, it_act = Take\<rparr>) (rd_current (round_of f))"
  let ?in = "set (map ask_id (rd_current (round_of f)))"
  let ?closed = "set (map an_question (sf_answers f) @ map df_question (sf_deferrals f))"
  have "\<exists>q a. judge_item f ?in ?closed i = Inr (Answered q a True)" if "i \<in> set ?items" for i
  proof -
    from that obtain q where q: "q \<in> set (sf_questions f)" "is_open f q" "waits_on f q = []"
      "i = \<lparr>it_question = q_id q, it_act = Take\<rparr>" "q_id q \<in> ?in"
      by (auto simp: round_current)
    have "\<exists>q'. find (\<lambda>x. q_id x = q_id q) (sf_questions f) = Some q'"
    proof (cases "find (\<lambda>x. q_id x = q_id q) (sf_questions f)")
      case None
      with q(1) show ?thesis by (auto simp: find_None_iff)
    qed simp
    with q show ?thesis by (auto simp: judge_item_def is_open_iff settled_ids_def)
  qed
  then have "\<forall>i \<in> set ?items. \<exists>t. (\<exists>q a. t = Answered q a True) \<and> judge_item f ?in ?closed i = Inr t" by blast
  from bchoice [OF this] obtain g where g: "\<forall>i \<in> set ?items. (\<exists>q a. g i = Answered q a True) \<and> judge_item f ?in ?closed i = Inr (g i)" ..
  have "collect_results (judge_item f ?in ?closed) ?items = Inr (map g ?items)"
  proof (rule collect_results_ok)
    fix i assume "i \<in> set ?items"
    from bspec [OF g this] show "judge_item f ?in ?closed i = Inr (g i)" by (rule conjunct2)
  qed
  with assms g show ?thesis by (simp add: judge_answers_def Let_def)
qed

lemma take_round_step:
  assumes wp: "well_posed (sf_questions f)" and none: "sf_deferrals f = []" "sf_abandoned f = None"
  shows "\<exists>g. take_round owner at f = Some g \<and> sf_questions g = sf_questions f \<and> sf_deferrals g = []
    \<and> sf_abandoned g = None \<and> (open_count f = 0 \<or> open_count g < open_count f)"
proof -
  let ?items = "map (\<lambda>a. \<lparr>it_question = ask_id a, it_act = Take\<rparr>) (rd_current (round_of f))"
  from take_current_judged [OF none(2)] obtain s where s: "judge_answers f ?items = Inr s"
    "\<forall>t \<in> set (sd_settlements s). \<exists>q a. t = Answered q a True" by blast
  let ?g = "facts_after s owner at"
  note P = judge_answers_parts [OF s(1)]
  have ids: "settled_question ` set (sd_settlements s) = ask_id ` set (rd_current (round_of f))"
    using arg_cong [OF P(4), of set] by (simp add: image_image)
  have defs: "sf_deferrals (foldl (settle n owner at) h ss) = sf_deferrals h"
    if "\<forall>t \<in> set ss. \<exists>q a. t = Answered q a True" for n h ss
    using that by (induction ss arbitrary: h) (auto simp: settle_def)
  have g: "sf_questions ?g = sf_questions f" "sf_deferrals ?g = []" "sf_abandoned ?g = None"
    using none by (simp_all add: facts_after_def settle_all P(2) defs [OF s(2)])
  have op: "is_open ?g q \<longleftrightarrow> is_open f q \<and> q_id q \<notin> ask_id ` set (rd_current (round_of f))" for q
    by (auto simp: facts_after_def is_open_iff settle_all P(2) ids)
  have "open_count ?g < open_count f" if "open_count f \<noteq> 0"
  proof -
    from that obtain q where "q \<in> set (sf_questions f)" "is_open f q"
      by (auto simp: open_count_def filter_empty_conv)
    from first_open [OF wp this] obtain z where z: "z \<in> set (sf_questions f)" "is_open f z"
      "\<forall>p \<in> set (waits_on f z). snd p = PendingDeferred" .
    have "waits_on f z = []" using z(3) none(1) by (cases "waits_on f z") (auto simp: waits_on_def deferrals_of_None)
    with z have "\<not> is_open ?g z" by (force simp: op round_current)
    then have "length (filter (is_open ?g) (filter (is_open f) (sf_questions f))) < length (filter (is_open f) (sf_questions f))"
      using z by (intro length_filter_less [of z]) auto
    moreover have "filter (is_open ?g) (filter (is_open f) (sf_questions f)) = filter (is_open ?g) (sf_questions f)"
      by (auto simp: filter_filter op intro: filter_cong)
    ultimately show ?thesis by (simp add: open_count_def g(1))
  qed
  with g s(1) show ?thesis by (auto simp: take_round_def)
qed

text \<open>C32: every accepted set can be closed.  Starting from a freshly opened set the judge accepted,
  taking the recommended answers of each current round in turn is never refused, and after at
  most as many rounds as there are questions the set is closed.\<close>

theorem accepted_set_closes:
  assumes "judge_set v = Some (Inr qs)"
  shows "\<exists>f. take_rounds owner at (length qs) \<lparr>sf_questions = qs, sf_answers = [], sf_deferrals = [], sf_abandoned = None\<rparr> = Some f
    \<and> rd_state (round_of f) = SetClosed"
proof -
  have run: "\<exists>g. take_rounds owner at n f = Some g \<and> rd_state (round_of g) = SetClosed"
    if "well_posed (sf_questions f)" "sf_deferrals f = []" "sf_abandoned f = None" "open_count f \<le> n" for n f
    using that
  proof (induction n arbitrary: f)
    case 0
    then show ?case by (auto simp: round_state open_count_def filter_empty_conv)
  next
    case (Suc n)
    from take_round_step [OF Suc.prems(1-3)] obtain g where g: "take_round owner at f = Some g" "sf_questions g = sf_questions f"
      "sf_deferrals g = []" "sf_abandoned g = None" "open_count f = 0 \<or> open_count g < open_count f" by blast
    have "open_count g \<le> n"
    proof (cases "open_count f = 0")
      case True
      have "open_count g \<le> open_count f" 
      proof -
        from g(1) obtain s where s: "judge_answers f (map (\<lambda>a. \<lparr>it_question = ask_id a, it_act = Take\<rparr>) (rd_current (round_of f))) = Inr s"
          "g = facts_after s owner at" by (auto simp: take_round_def split: sum.splits)
        have "is_open g q \<Longrightarrow> is_open f q" for q
          unfolding s(2) by (auto simp: facts_after_def is_open_iff settle_all judge_answers_parts(2) [OF s(1)])
        then have "filter (is_open g) (sf_questions f) = filter (is_open g) (filter (is_open f) (sf_questions f))"
          by (auto simp: filter_filter intro!: filter_cong)
        then show ?thesis unfolding open_count_def g(2) by (metis length_filter_le)
      qed
      with True show ?thesis by simp
    qed (use g(5) Suc.prems(4) in simp)
    from Suc.IH [OF _ g(3,4) this] g(2) Suc.prems(1) obtain h where
      "take_rounds owner at n g = Some h" "rd_state (round_of h) = SetClosed" by auto
    with g(1) show ?case by simp
  qed
  let ?f = "\<lparr>sf_questions = qs, sf_answers = [], sf_deferrals = [], sf_abandoned = None\<rparr>"
  have "well_posed qs" using assms judge_set_ok by blast
  moreover have "open_count ?f \<le> length qs" by (simp add: open_count_def)
  ultimately show ?thesis using run [of ?f "length qs"] by simp
qed

section \<open>Witnesses\<close>

definition example_questions :: "question list" where
  "example_questions =
     [\<lparr>q_id = ''a'', q_question = ''q'', q_recommended = ''r'', q_depends_on = []\<rparr>,
      \<lparr>q_id = ''b'', q_question = ''q'', q_recommended = ''r'', q_depends_on = [''a'']\<rparr>]"

definition example_facts :: set_facts where
  "example_facts = \<lparr>sf_questions = example_questions, sf_answers = [], sf_deferrals = [], sf_abandoned = None\<rparr>"

lemma example_accepted:
  "judge_set (JArray [question_value ''a'' [], question_value ''b'' [''a'']]) = Some (Inr example_questions)"
proof -
  have g: "grammar (question_value i ds) = Some \<lparr>q_id = i, q_question = ''q'', q_recommended = ''r'', q_depends_on = ds\<rparr>"
    if "length i \<le> 4096" "ds = [] \<or> (\<exists>d. ds = [d])" for i ds
    using that by (auto simp: grammar_def question_value_def set_members question_members_def bounded_text_def members_map_of
        inline_text_limit_def jstrs_def)
  have c: "on_cycles [[], [0]] = Some []"
    by (simp add: on_cycles_def tarjan_new_def open_node_def tarjan_loop.simps tarjan_step_def follow_edge_def lower_def
        return_node_def close_component_def numeral_2_eq_2 Let_def)
  let ?q = "\<lambda>i ds. \<lparr>q_id = i, q_question = ''q'', q_recommended = ''r'', q_depends_on = ds\<rparr>"
  have e: "question_edges [?q ''a'' [], ?q ''b'' [''a'']] = Some [[], [0]]"
    by (simp add: question_edges_def by_id_def)
  show ?thesis
    by (simp add: judge_set_def g blank_x e c) (simp add: example_questions_def)
qed

lemma example_well_posed: "well_posed (sf_questions example_facts)"
proof -
  have "well_posed example_questions" using judge_set_ok example_accepted by blast
  then show ?thesis by (simp add: example_facts_def)
qed

lemma example_open: "rd_state (round_of example_facts) = SetOpen"
  by (auto simp: round_state example_facts_def example_questions_def is_open_iff settled_ids_def)

theorem open_set_progress_witness: "rd_current (round_of example_facts) \<noteq> []"
  using open_set_progress [OF example_well_posed example_open] by (simp add: example_facts_def)

definition example_settled :: settled where
  "example_settled = \<lparr>sd_facts = example_facts, sd_round = 1, sd_settlements = [Answered ''a'' ''r'' True]\<rparr>"

lemma example_judged: "judge_answers example_facts [\<lparr>it_question = ''a'', it_act = Take\<rparr>] = Inr example_settled"
  by (simp add: judge_answers_def judge_item_def round_current round_number highest_round_def saturating_succ32_def
      example_facts_def example_questions_def is_open_iff settled_ids_def waits_on_def answers_of_None example_settled_def)

theorem judge_answers_sound_witness:
  "\<not> is_open (facts_after example_settled ''o'' ''t'') (example_questions ! 0)
    \<and> is_open (facts_after example_settled ''o'' ''t'') (example_questions ! 1)"
proof -
  have "\<forall>q. is_open (facts_after example_settled ''o'' ''t'') q \<longleftrightarrow> is_open example_facts q \<and> q_id q \<notin> {''a''}"
    using judge_answers_sound [OF example_judged, of "''o''" "''t''"] by (elim conjE) simp
  then show ?thesis by (simp add: is_open_iff settled_ids_def example_facts_def) (simp add: example_questions_def)
qed

definition example_answer :: "string \<Rightarrow> given_answer" where
  "example_answer i = \<lparr>an_question = i, an_answer = ''r'', an_accepted = True, an_round = 1, an_owner = ''o'', an_at = ''t''\<rparr>"

theorem round_order_independent_witness:
  "round_of (example_facts\<lparr>sf_answers := [example_answer ''b'', example_answer ''a''], sf_deferrals := []\<rparr>)
     = round_of (example_facts\<lparr>sf_answers := [example_answer ''a'', example_answer ''b'']\<rparr>)"
  using round_order_independent [of "[example_answer ''b'', example_answer ''a'']"
      "example_facts\<lparr>sf_answers := [example_answer ''a'', example_answer ''b'']\<rparr>" "[]"]
  by (auto simp: example_answer_def example_facts_def)

theorem accepted_set_closes_witness:
  "\<exists>f. take_rounds ''o'' ''t'' 2 example_facts = Some f \<and> rd_state (round_of f) = SetClosed"
  using accepted_set_closes [OF example_accepted, of "''o''" "''t''"]
  by (simp add: example_facts_def example_questions_def numeral_2_eq_2)

end
