(* ===== verification/Question_View.thy ===== *)
theory Question_View
  imports Question_Round
begin

text \<open>
  The question events and the \<open>questions\<close> view (\<open>baley-core/src/questions/event.rs\<close>, \<open>view.rs\<close>,
  and \<open>set_facts\<close> of \<open>round.rs\<close>).  The view keeps one document per set; reading it back gives the
  facts the round is worked out from.  The projector is proved to implement exactly the change of
  facts each event states, so that a recorded settlement is the one the call settled.
\<close>

section \<open>Events\<close>

definition questions_opened :: string where "questions_opened = ''questions.opened''"
definition question_answered :: string where "question_answered = ''question.answered''"
definition question_deferred :: string where "question_deferred = ''question.deferred''"
definition questions_abandoned :: string where "questions_abandoned = ''questions.abandoned''"
definition roadmap_stream :: string where "roadmap_stream = ''roadmap''"

datatype subject =
    Story u32 string
  | Plan u32 hash

fun set_stream :: "subject \<Rightarrow> string" where
  "set_stream (Story _ _) = roadmap_stream"
| "set_stream (Plan phase _) = ''phase/'' @ dec (unat phase)"

definition question_to_value :: "question \<Rightarrow> json" where
  "question_to_value q =
     jobj [(''id'', JString (q_id q)), (''question'', JString (q_question q)),
           (''recommended'', JString (q_recommended q)), (''depends_on'', jstrs (q_depends_on q))]"

fun opened_payload :: "string \<Rightarrow> subject \<Rightarrow> question list \<Rightarrow> string \<Rightarrow> json" where
  "opened_payload sid (Story story work_order) qs at =
     jobj [(''set'', JString sid), (''subject'', JString ''story''), (''story'', jnum32 story),
           (''work_order'', JString work_order), (''questions'', JArray (map question_to_value qs)), (''at'', JString at)]"
| "opened_payload sid (Plan phase plan_digest) qs at =
     jobj [(''set'', JString sid), (''subject'', JString ''plan''), (''phase'', jnum32 phase),
           (''plan_digest'', JString (to_hex plan_digest)), (''questions'', JArray (map question_to_value qs)),
           (''at'', JString at)]"

definition answered_payload :: "string \<Rightarrow> string \<Rightarrow> u32 \<Rightarrow> string \<Rightarrow> bool \<Rightarrow> string \<Rightarrow> string \<Rightarrow> json" where
  "answered_payload sid question round answer accepted owner at =
     jobj [(''set'', JString sid), (''question'', JString question), (''round'', jnum32 round),
           (''answer'', JString answer), (''accepted'', JBool accepted), (''owner'', JString owner), (''at'', JString at)]"

definition deferred_payload :: "string \<Rightarrow> string \<Rightarrow> u32 \<Rightarrow> string \<Rightarrow> string \<Rightarrow> string \<Rightarrow> json" where
  "deferred_payload sid question round reason owner at =
     jobj [(''set'', JString sid), (''question'', JString question), (''round'', jnum32 round),
           (''reason'', JString reason), (''owner'', JString owner), (''at'', JString at)]"

definition abandoned_payload :: "string \<Rightarrow> cause \<Rightarrow> string \<Rightarrow> json" where
  "abandoned_payload sid c at =
     jobj [(''set'', JString sid), (''cause'', JString (cause_str c)), (''at'', JString at)]"

fun settlement_type :: "settlement \<Rightarrow> string" where
  "settlement_type (Answered _ _ _) = question_answered"
| "settlement_type (Deferred _ _) = question_deferred"

fun settlement_payload :: "settlement \<Rightarrow> string \<Rightarrow> u32 \<Rightarrow> string \<Rightarrow> string \<Rightarrow> json" where
  "settlement_payload (Answered q a accepted) sid round owner at = answered_payload sid q round a accepted owner at"
| "settlement_payload (Deferred q reason) sid round owner at = deferred_payload sid q round reason owner at"

section \<open>Reading a document\<close>

definition unreadable :: "string \<Rightarrow> string" where
  "unreadable what = ''the set'' @ [CHR 0x27] @ ''s '' @ what @ '' cannot be read''"

definition member_str :: "(string \<times> json) list \<Rightarrow> string \<Rightarrow> string option" where
  "member_str m name = Option.bind (map_of m name) as_str"

definition round_member :: "(string \<times> json) list \<Rightarrow> u32 option" where
  "round_member m = Option.bind (map_of m ''round'') as_u32"

definition question_from :: "json \<Rightarrow> question option" where
  "question_from entry = do {
     m \<leftarrow> as_object entry;
     ds \<leftarrow> Option.bind (map_of m ''depends_on'') strs_from;
     i \<leftarrow> member_str m ''id'';
     q \<leftarrow> member_str m ''question'';
     r \<leftarrow> member_str m ''recommended'';
     Some \<lparr>q_id = i, q_question = q, q_recommended = r, q_depends_on = ds\<rparr> }"

definition given_answer_from :: "json \<Rightarrow> given_answer option" where
  "given_answer_from entry = do {
     m \<leftarrow> as_object entry;
     q \<leftarrow> member_str m ''question'';
     a \<leftarrow> member_str m ''answer'';
     accepted \<leftarrow> Option.bind (map_of m ''accepted'') as_bool;
     n \<leftarrow> round_member m;
     owner \<leftarrow> member_str m ''owner'';
     at \<leftarrow> member_str m ''at'';
     Some \<lparr>an_question = q, an_answer = a, an_accepted = accepted, an_round = n, an_owner = owner, an_at = at\<rparr> }"

definition deferral_from :: "json \<Rightarrow> deferral option" where
  "deferral_from entry = do {
     m \<leftarrow> as_object entry;
     q \<leftarrow> member_str m ''question'';
     r \<leftarrow> member_str m ''reason'';
     n \<leftarrow> round_member m;
     owner \<leftarrow> member_str m ''owner'';
     at \<leftarrow> member_str m ''at'';
     Some \<lparr>df_question = q, df_reason = r, df_round = n, df_owner = owner, df_at = at\<rparr> }"

definition facts_entries :: "(string \<times> json) list \<Rightarrow> string \<Rightarrow> (json \<Rightarrow> 'a option) \<Rightarrow> string + 'a list" where
  "facts_entries m name read =
     rbind (ok_or (unreadable name) (Option.bind (map_of m name) as_array)) (\<lambda>entries.
       collect_results (\<lambda>e. ok_or (unreadable name) (read e)) entries)"

definition abandonment_from :: "(string \<times> json) list \<Rightarrow> string + abandonment option" where
  "abandonment_from m =
     (case map_of m ''abandoned'' of
        Some JNull \<Rightarrow> Inr None
      | Some (JObject entry) \<Rightarrow>
          (case (cause_parse (case member_str entry ''cause'' of None \<Rightarrow> [] | Some t \<Rightarrow> t), member_str entry ''at'') of
             (Some c, Some at) \<Rightarrow> Inr (Some \<lparr>ab_cause = c, ab_at = at\<rparr>)
           | _ \<Rightarrow> Inl (unreadable ''abandonment''))
      | _ \<Rightarrow> Inl (unreadable ''abandonment''))"

definition set_facts_of :: "json \<Rightarrow> string + set_facts" where
  "set_facts_of document =
     rbind (ok_or (unreadable ''document'') (as_object document)) (\<lambda>m.
     rbind (facts_entries m ''questions'' question_from) (\<lambda>qs.
     rbind (facts_entries m ''answers'' given_answer_from) (\<lambda>as.
     rbind (facts_entries m ''deferrals'' deferral_from) (\<lambda>ds.
     rbind (abandonment_from m) (\<lambda>ab.
       Inr \<lparr>sf_questions = qs, sf_answers = as, sf_deferrals = ds, sf_abandoned = ab\<rparr>)))))"

section \<open>The projector\<close>

definition questions_view :: string where "questions_view = ''questions''"

definition questions_spec :: view_spec where
  "questions_spec =
     \<lparr>vs_name = questions_view, vs_version = 1, vs_key = [(''set'', FText)], vs_indexes = [], vs_page_bound = 100\<rparr>"

definition questions_key :: "string \<Rightarrow> doc_key" where
  "questions_key i = [KText i]"

definition questions_keys :: "event \<Rightarrow> doc_key list" where
  "questions_keys e = (case get_str ''set'' (payload e) of None \<Rightarrow> [] | Some s \<Rightarrow> [questions_key s])"

definition question_refuse :: "event \<Rightarrow> string \<Rightarrow> string" where
  "question_refuse e message = type_name e @ '' at seq '' @ dec_u64 (seq e) @ '': '' @ message"

definition payload_text :: "event \<Rightarrow> (string \<times> json) list \<Rightarrow> string \<Rightarrow> projector_error + string" where
  "payload_text e m name = ok_or (question_refuse e (name @ '' is not text'')) (Option.bind (map_of m name) as_str)"

definition payload_number :: "event \<Rightarrow> (string \<times> json) list \<Rightarrow> string \<Rightarrow> projector_error + u64" where
  "payload_number e m name = ok_or (question_refuse e (name @ '' is not a number'')) (Option.bind (map_of m name) as_u64)"

definition list_member :: "(string \<times> json) list \<Rightarrow> string \<Rightarrow> json list" where
  "list_member m name = (case Option.bind (map_of m name) as_array of None \<Rightarrow> [] | Some xs \<Rightarrow> xs)"

definition subject_body :: "event \<Rightarrow> (string \<times> json) list \<Rightarrow> projector_error + json" where
  "subject_body e m =
     rbind (payload_text e m ''subject'') (\<lambda>subject.
       if subject = ''story'' then
         rbind (payload_number e m ''story'') (\<lambda>story.
         rbind (payload_text e m ''work_order'') (\<lambda>work_order.
           Inr (jobj [(''kind'', JString ''story''), (''story'', jnum story), (''work_order'', JString work_order)])))
       else if subject = ''plan'' then
         rbind (payload_number e m ''phase'') (\<lambda>phase.
         rbind (payload_text e m ''plan_digest'') (\<lambda>digest.
           Inr (jobj [(''kind'', JString ''plan''), (''phase'', jnum phase), (''plan_digest'', JString digest)])))
       else Inl (question_refuse e (''subject '' @ subject @ '' is not story or plan'')))"

definition opened_body :: "event \<Rightarrow> (string \<times> json) list \<Rightarrow> string \<Rightarrow> projector_error + json" where
  "opened_body e m sid =
     rbind (subject_body e m) (\<lambda>subject.
       case map_of m ''questions'' of
         Some (JArray questions) \<Rightarrow>
           Inr (jobj [(''set'', JString sid), (''subject'', subject), (''stream'', JString (stream e)), (''seq'', jnum (seq e)),
                 (''recorded_at'', JString (recorded_at e)), (''questions'', JArray questions), (''answers'', JArray []),
                 (''deferrals'', JArray []), (''abandoned'', JNull)])
       | _ \<Rightarrow> Inl (question_refuse e ''questions is not a list''))"

definition abandoned_body :: "event \<Rightarrow> (string \<times> json) list \<Rightarrow> string \<Rightarrow> (string \<times> json) list \<Rightarrow> projector_error + json" where
  "abandoned_body e m sid document =
     (if map_of document ''abandoned'' \<noteq> Some JNull
      then Inl (question_refuse e (''set '' @ sid @ '' is already abandoned''))
      else rbind (payload_text e m ''cause'') (\<lambda>cause.
           rbind (payload_text e m ''at'') (\<lambda>at.
             Inr (JObject (ains ''abandoned''
               (jobj [(''cause'', JString cause), (''at'', JString at), (''seq'', jnum (seq e))]) document)))))"

definition settled_entry :: "event \<Rightarrow> (string \<times> json) list \<Rightarrow> string \<Rightarrow> projector_error + string \<times> json" where
  "settled_entry e m question =
     (if type_name e = question_answered then
        rbind (ok_or (question_refuse e ''accepted is not a bool'') (Option.bind (map_of m ''accepted'') as_bool)) (\<lambda>accepted.
        rbind (payload_text e m ''answer'') (\<lambda>answer.
        rbind (payload_number e m ''round'') (\<lambda>round.
        rbind (payload_text e m ''owner'') (\<lambda>owner.
        rbind (payload_text e m ''at'') (\<lambda>at.
          Inr (''answers'', jobj [(''question'', JString question), (''answer'', JString answer), (''accepted'', JBool accepted),
                 (''round'', jnum round), (''owner'', JString owner), (''at'', JString at), (''seq'', jnum (seq e))]))))))
      else
        rbind (payload_text e m ''reason'') (\<lambda>reason.
        rbind (payload_number e m ''round'') (\<lambda>round.
        rbind (payload_text e m ''owner'') (\<lambda>owner.
        rbind (payload_text e m ''at'') (\<lambda>at.
          Inr (''deferrals'', jobj [(''question'', JString question), (''reason'', JString reason), (''round'', jnum round),
                 (''owner'', JString owner), (''at'', JString at), (''seq'', jnum (seq e))]))))))"

definition names_question :: "string \<Rightarrow> string \<Rightarrow> json \<Rightarrow> bool" where
  "names_question member question entry \<longleftrightarrow> get_str member entry = Some question"

definition settled_body :: "event \<Rightarrow> (string \<times> json) list \<Rightarrow> string \<Rightarrow> (string \<times> json) list \<Rightarrow> projector_error + json" where
  "settled_body e m sid document =
     rbind (payload_text e m ''question'') (\<lambda>question.
       if \<not> list_ex (names_question ''id'' question) (list_member document ''questions'')
       then Inl (question_refuse e (''set '' @ sid @ '' has no question '' @ question))
       else if list_ex (\<lambda>name. list_ex (names_question ''question'' question) (list_member document name)) [''answers'', ''deferrals'']
       then Inl (question_refuse e (''question '' @ question @ '' is already settled''))
       else rbind (settled_entry e m question) (\<lambda>(name, entry).
         Inr (JObject (ains name (JArray (list_member document name @ [entry])) document))))"

definition questions_apply :: "event \<Rightarrow> (doc_key \<times> json) list \<Rightarrow> projector_error + change list" where
  "questions_apply e docs =
     rbind (ok_or (question_refuse e ''the payload is not an object'') (as_object (payload e))) (\<lambda>m.
     rbind (payload_text e m ''set'') (\<lambda>sid.
       let key = questions_key sid;
           held = Option.bind (map_option snd (find (\<lambda>d. fst d = key) docs)) as_object
       in if type_name e = questions_opened then
            (if held \<noteq> None then Inl (question_refuse e (''set '' @ sid @ '' is already held''))
             else rbind (opened_body e m sid) (\<lambda>body. Inr [Put key body]))
          else
            (case held of
               None \<Rightarrow> Inl (question_refuse e (''set '' @ sid @ '' is not held''))
             | Some document \<Rightarrow>
                 rbind (if type_name e = questions_abandoned then abandoned_body e m sid document
                        else settled_body e m sid document) (\<lambda>body. Inr [Put key body]))))"

definition questions_projector :: projector where
  "questions_projector =
     \<lparr>p_spec = questions_spec, p_handles = [questions_opened, question_answered, question_deferred, questions_abandoned],
      p_keys = questions_keys, p_apply = questions_apply\<rparr>"

section \<open>What an event changes\<close>

definition facts_in :: "json option \<Rightarrow> set_facts option" where
  "facts_in body = Option.bind body (\<lambda>b. case set_facts_of b of Inr f \<Rightarrow> Some f | Inl _ \<Rightarrow> None)"

definition facts_at :: "view_table \<Rightarrow> string \<Rightarrow> set_facts option" where
  "facts_at table sid = facts_in (map_option doc_body (table (questions_key sid)))"

definition question_step :: "event \<Rightarrow> set_facts option \<Rightarrow> set_facts option" where
  "question_step e s =
     (if type_name e = questions_opened then
        map_option (\<lambda>qs. \<lparr>sf_questions = qs, sf_answers = [], sf_deferrals = [], sf_abandoned = None\<rparr>)
          (Option.bind (Option.bind (jget ''questions'' (payload e)) as_array) (\<lambda>xs. those (map question_from xs)))
      else do {
        f \<leftarrow> s;
        if type_name e = questions_abandoned then do {
          c \<leftarrow> Option.bind (get_str ''cause'' (payload e)) cause_parse;
          at \<leftarrow> get_str ''at'' (payload e);
          Some (f\<lparr>sf_abandoned := Some \<lparr>ab_cause = c, ab_at = at\<rparr>\<rparr>) }
        else if type_name e = question_answered then do {
          a \<leftarrow> given_answer_from (payload e);
          Some (f\<lparr>sf_answers := sf_answers f @ [a]\<rparr>) }
        else do {
          d \<leftarrow> deferral_from (payload e);
          Some (f\<lparr>sf_deferrals := sf_deferrals f @ [d]\<rparr>) } })"

lemma question_types:
  "questions_opened \<noteq> question_answered" "questions_opened \<noteq> question_deferred" "questions_opened \<noteq> questions_abandoned"
  "question_answered \<noteq> question_deferred" "question_answered \<noteq> questions_abandoned" "question_deferred \<noteq> questions_abandoned"
  by (simp_all add: questions_opened_def question_answered_def question_deferred_def questions_abandoned_def)

lemma collect_those: "(case collect_results (\<lambda>e. ok_or x (r e)) xs of Inr ys \<Rightarrow> Some ys | Inl _ \<Rightarrow> None) = those (map r xs)"
proof (induction xs)
  case (Cons a xs)
  then show ?case
    by (cases "r a"; cases "collect_results (\<lambda>e. ok_or x (r e)) xs") (simp_all add: eq_commute [of "Some _" "those _"])
qed simp

definition entries_in :: "(string \<times> json) list \<Rightarrow> string \<Rightarrow> (json \<Rightarrow> 'a option) \<Rightarrow> 'a list option" where
  "entries_in m name r = Option.bind (Option.bind (map_of m name) as_array) (\<lambda>xs. those (map r xs))"

lemma facts_entries_in: "(case facts_entries m name r of Inr ys \<Rightarrow> Some ys | Inl _ \<Rightarrow> None) = entries_in m name r"
  using collect_those [of "unreadable name" r]
  by (cases "Option.bind (map_of m name) as_array") (simp_all add: facts_entries_def entries_in_def)

lemma case_rbind_option:
  "(case rbind r g of Inr f \<Rightarrow> Some f | Inl _ \<Rightarrow> None) =
     Option.bind (case r of Inr x \<Rightarrow> Some x | Inl _ \<Rightarrow> None) (\<lambda>x. case g x of Inr f \<Rightarrow> Some f | Inl _ \<Rightarrow> None)"
  by (cases r) auto

definition abandoned_in :: "(string \<times> json) list \<Rightarrow> abandonment option option" where
  "abandoned_in m = (case abandonment_from m of Inr ab \<Rightarrow> Some ab | Inl _ \<Rightarrow> None)"

lemma facts_in_object:
  "facts_in (Some (JObject m)) = do {
     qs \<leftarrow> entries_in m ''questions'' question_from;
     as \<leftarrow> entries_in m ''answers'' given_answer_from;
     ds \<leftarrow> entries_in m ''deferrals'' deferral_from;
     ab \<leftarrow> abandoned_in m;
     Some \<lparr>sf_questions = qs, sf_answers = as, sf_deferrals = ds, sf_abandoned = ab\<rparr> }"
  by (simp add: facts_in_def set_facts_of_def case_rbind_option facts_entries_in abandoned_in_def)

lemma facts_in_not_object: "as_object b = None \<Longrightarrow> facts_in (Some b) = None"
  by (simp add: facts_in_def set_facts_of_def)

lemma bind_swap: "Option.bind x (\<lambda>a. Option.bind y (\<lambda>b. f a b)) = Option.bind y (\<lambda>b. Option.bind x (\<lambda>a. f a b))"
  by (cases x; cases y) auto

lemma those_append: "those (xs @ ys) = Option.bind (those xs) (\<lambda>a. map_option ((@) a) (those ys))"
proof (induction xs)
  case Nil
  then show ?case by (cases "those ys") simp_all
next
  case (Cons x xs)
  then show ?case by (cases x; cases "those xs"; cases "those ys") simp_all
qed

lemma entries_append:
  assumes "Option.bind (map_of m name) as_array = Some xs"
  shows "entries_in (ains name (JArray (xs @ [x])) m) name r =
     Option.bind (entries_in m name r) (\<lambda>ys. map_option (\<lambda>y. ys @ [y]) (r x))"
  using assms by (cases "r x") (auto simp: entries_in_def those_append split: option.splits)

lemma entries_other: "name \<noteq> name' \<Longrightarrow> entries_in (ains name' v m) name r = entries_in m name r"
  by (simp add: entries_in_def)

lemma abandoned_other: "name \<noteq> ''abandoned'' \<Longrightarrow> abandoned_in (ains name v m) = abandoned_in m"
  by (simp add: abandoned_in_def abandonment_from_def)

lemma as_u32_jnum: "Option.bind (Some (jnum n)) as_u32 = as_u32 (jnum n)"
  by simp

lemma round_member_eq:
  assumes "Option.bind (map_of m ''round'') as_u64 = Some n"
  shows "round_member m = as_u32 (jnum n)"
proof -
  from assms obtain v where "map_of m ''round'' = Some v" "as_u64 v = Some n" by (auto simp: bind_eq_Some_conv)
  then show ?thesis by (simp add: round_member_def as_u32_def)
qed

text \<open>The entry the projector writes reads back as the payload it was made from.\<close>

lemma settled_entry_reads:
  assumes "settled_entry e m question = Inr (name, entry)" "payload e = JObject m" "member_str m ''question'' = Some question"
  shows "(if type_name e = question_answered
     then name = ''answers'' \<and> given_answer_from entry = given_answer_from (payload e)
     else name = ''deferrals'' \<and> deferral_from entry = deferral_from (payload e))
    \<and> get_str ''question'' entry = Some question"
proof (cases "type_name e = question_answered")
  case True
  with assms(1) obtain accepted answer n owner at where v:
    "Option.bind (map_of m ''accepted'') as_bool = Some accepted" "member_str m ''answer'' = Some answer"
    "Option.bind (map_of m ''round'') as_u64 = Some n" "member_str m ''owner'' = Some owner" "member_str m ''at'' = Some at"
    "name = ''answers''" "entry = jobj [(''question'', JString question), (''answer'', JString answer), (''accepted'', JBool accepted),
                 (''round'', jnum n), (''owner'', JString owner), (''at'', JString at), (''seq'', jnum (seq e))]"
    by (auto simp: settled_entry_def payload_text_def payload_number_def member_str_def result_simps)
  have "given_answer_from entry = Option.bind (as_u32 (jnum n)) (\<lambda>k. Some \<lparr>an_question = question, an_answer = answer,
      an_accepted = accepted, an_round = k, an_owner = owner, an_at = at\<rparr>)"
    by (simp add: v(7) given_answer_from_def member_str_def members_map_of round_member_def)
  moreover have "given_answer_from (JObject m) = Option.bind (as_u32 (jnum n)) (\<lambda>k. Some \<lparr>an_question = question, an_answer = answer,
      an_accepted = accepted, an_round = k, an_owner = owner, an_at = at\<rparr>)"
    by (simp only: given_answer_from_def v(1,2,4,5) assms(3) as_object.simps Option.bind.simps round_member_eq [OF v(3)])
  ultimately show ?thesis using True assms(2) v(6) by (simp add: v(7))
next
  case False
  with assms(1) obtain reason n owner at where v: "member_str m ''reason'' = Some reason"
    "Option.bind (map_of m ''round'') as_u64 = Some n" "member_str m ''owner'' = Some owner" "member_str m ''at'' = Some at"
    "name = ''deferrals''" "entry = jobj [(''question'', JString question), (''reason'', JString reason), (''round'', jnum n),
                 (''owner'', JString owner), (''at'', JString at), (''seq'', jnum (seq e))]"
    by (auto simp: settled_entry_def payload_text_def payload_number_def member_str_def result_simps)
  have "deferral_from entry = Option.bind (as_u32 (jnum n)) (\<lambda>k. Some \<lparr>df_question = question, df_reason = reason,
      df_round = k, df_owner = owner, df_at = at\<rparr>)"
    by (simp add: v(6) deferral_from_def member_str_def members_map_of round_member_def)
  moreover have "deferral_from (JObject m) = Option.bind (as_u32 (jnum n)) (\<lambda>k. Some \<lparr>df_question = question, df_reason = reason,
      df_round = k, df_owner = owner, df_at = at\<rparr>)"
    by (simp only: deferral_from_def v(1,3,4) assms(3) as_object.simps Option.bind.simps round_member_eq [OF v(2)])
  ultimately show ?thesis using False assms(2) v(5) by (simp add: v(6))
qed

lemma opened_body_facts:
  assumes "opened_body e m sid = Inr body" "payload e = JObject m" "type_name e = questions_opened"
  shows "facts_in (Some body) = question_step e s \<and> get_str ''set'' body = Some sid"
proof -
  from assms(1) obtain subject xs where v: "map_of m ''questions'' = Some (JArray xs)"
    "body = jobj [(''set'', JString sid), (''subject'', subject), (''stream'', JString (stream e)), (''seq'', jnum (seq e)),
                 (''recorded_at'', JString (recorded_at e)), (''questions'', JArray xs), (''answers'', JArray []),
                 (''deferrals'', JArray []), (''abandoned'', JNull)]"
  proof -
    obtain subject where "(case map_of m ''questions'' of Some (JArray questions) \<Rightarrow>
           Inr (jobj [(''set'', JString sid), (''subject'', subject), (''stream'', JString (stream e)), (''seq'', jnum (seq e)),
                 (''recorded_at'', JString (recorded_at e)), (''questions'', JArray questions), (''answers'', JArray []),
                 (''deferrals'', JArray []), (''abandoned'', JNull)])
       | _ \<Rightarrow> Inl (question_refuse e ''questions is not a list'')) = Inr body"
      using assms(1) unfolding opened_body_def rbind_Inr_iff by blast
    then show ?thesis by (cases "map_of m ''questions''"; cases "the (map_of m ''questions'')") (auto intro: that)
  qed
  have "facts_in (Some body) = Option.bind (those (map question_from xs)) (\<lambda>qs.
      Some \<lparr>sf_questions = qs, sf_answers = [], sf_deferrals = [], sf_abandoned = None\<rparr>)"
    unfolding v(2) jobj_def facts_in_object by (simp add: entries_in_def members_map_of abandoned_in_def abandonment_from_def)
  then show ?thesis using assms(2,3) v by (cases "those (map question_from xs)") (simp_all add: question_step_def)
qed

lemma abandoned_body_facts:
  assumes "abandoned_body e m sid doc = Inr body" "payload e = JObject m" "type_name e = questions_abandoned"
  shows "facts_in (Some body) = question_step e (facts_in (Some (JObject doc)))
    \<and> get_str k body = (if k = ''abandoned'' then None else get_str k (JObject doc))"
proof -
  from assms(1) obtain cause at where v: "map_of doc ''abandoned'' = Some JNull" "member_str m ''cause'' = Some cause"
    "member_str m ''at'' = Some at"
    "body = JObject (ains ''abandoned'' (jobj [(''cause'', JString cause), (''at'', JString at), (''seq'', jnum (seq e))]) doc)"
    by (auto simp: abandoned_body_def payload_text_def member_str_def result_simps split: if_splits)
  have old: "abandoned_in doc = Some None" using v(1) by (simp add: abandoned_in_def abandonment_from_def)
  have new: "abandoned_in (ains ''abandoned'' (jobj [(''cause'', JString cause), (''at'', JString at), (''seq'', jnum (seq e))]) doc)
      = map_option (\<lambda>c. Some \<lparr>ab_cause = c, ab_at = at\<rparr>) (cause_parse cause)"
    by (simp add: abandoned_in_def abandonment_from_def jobj_def member_str_def members_map_of split: option.split)
  have cs: "get_str ''cause'' (payload e) = Some cause" "get_str ''at'' (payload e) = Some at"
    using v(2,3) assms(2) by (simp_all add: member_str_def)
  have "facts_in (Some body) = question_step e (facts_in (Some (JObject doc)))"
    unfolding v(4) facts_in_object question_step_def cs
    using assms(3) question_types
    by (cases "cause_parse cause"; cases "entries_in doc ''questions'' question_from";
        cases "entries_in doc ''answers'' given_answer_from"; cases "entries_in doc ''deferrals'' deferral_from")
      (simp_all add: entries_other old new)
  then show ?thesis by (simp add: v(4))
qed

lemma names_question_from: "question_from x = Some q \<Longrightarrow> names_question ''id'' i x \<longleftrightarrow> q_id q = i"
  by (cases x) (auto simp: question_from_def member_str_def names_question_def bind_eq_Some_conv)

lemma names_given_answer: "given_answer_from x = Some a \<Longrightarrow> names_question ''question'' i x \<longleftrightarrow> an_question a = i"
  by (cases x) (auto simp: given_answer_from_def member_str_def names_question_def bind_eq_Some_conv)

lemma names_deferral: "deferral_from x = Some d \<Longrightarrow> names_question ''question'' i x \<longleftrightarrow> df_question d = i"
  by (cases x) (auto simp: deferral_from_def member_str_def names_question_def bind_eq_Some_conv)

lemma entries_names:
  assumes "entries_in m name r = Some ys" "\<And>x y. r x = Some y \<Longrightarrow> P x \<longleftrightarrow> key y = i"
  shows "list_ex P (list_member m name) \<longleftrightarrow> i \<in> key ` set ys"
proof -
  from assms(1) obtain xs where xs: "Option.bind (map_of m name) as_array = Some xs" "those (map r xs) = Some ys"
    unfolding entries_in_def by (rule bind_eq_Some_conv [THEN iffD1, THEN exE]) blast
  from xs(2) have "list_all2 (\<lambda>x y. r x = Some y) xs ys" by (simp add: those_map_Some_iff)
  then have "list_ex P xs \<longleftrightarrow> (\<exists>y \<in> set ys. key y = i)"
    by (induction rule: list_all2_induct) (auto simp: assms(2))
  with xs(1) show ?thesis by (auto simp: list_member_def)
qed

lemma settled_body_keeps:
  assumes "settled_body e m sid doc = Inr body" "payload e = JObject m" "k \<noteq> ''answers''" "k \<noteq> ''deferrals''"
  shows "get_str k body = get_str k (JObject doc)"
proof -
  from assms(1) obtain question name entry where v: "member_str m ''question'' = Some question"
    "settled_entry e m question = Inr (name, entry)"
    "body = JObject (ains name (JArray (list_member doc name @ [entry])) doc)"
    by (auto simp: settled_body_def payload_text_def member_str_def result_simps split: if_splits)
  from settled_entry_reads [OF v(2) assms(2) v(1)] assms(3,4) show ?thesis
    by (auto simp: v(3) split: if_splits)
qed

lemma settled_body_facts:
  assumes "settled_body e m sid doc = Inr body" "payload e = JObject m"
    "type_name e = question_answered \<or> type_name e = question_deferred"
  shows "facts_in (Some (JObject doc)) = Some f \<Longrightarrow> facts_in (Some body) = question_step e (Some f)"
    "facts_in (Some (JObject doc)) = Some f \<Longrightarrow>
         \<exists>q \<in> set (sf_questions f). get_str ''question'' (payload e) = Some (q_id q) \<and> is_open f q"
proof -
  from assms(1) obtain question name entry where v: "member_str m ''question'' = Some question"
    "list_ex (names_question ''id'' question) (list_member doc ''questions'')"
    "\<not> list_ex (names_question ''question'' question) (list_member doc ''answers'')"
    "\<not> list_ex (names_question ''question'' question) (list_member doc ''deferrals'')"
    "settled_entry e m question = Inr (name, entry)"
    "body = JObject (ains name (JArray (list_member doc name @ [entry])) doc)"
    by (auto simp: settled_body_def payload_text_def member_str_def result_simps split: if_splits)
  note R = settled_entry_reads [OF v(5) assms(2) v(1)]
  have read: "Option.bind (map_of doc n) as_array = Some (list_member doc n)" if "entries_in doc n r = Some ys" for n r ys
    using that by (cases "map_of doc n"; cases "Option.bind (map_of doc n) as_array") (auto simp: entries_in_def list_member_def)
  assume f: "facts_in (Some (JObject doc)) = Some f"
  from f obtain qs as ds ab where F: "entries_in doc ''questions'' question_from = Some qs"
    "entries_in doc ''answers'' given_answer_from = Some as" "entries_in doc ''deferrals'' deferral_from = Some ds"
    "abandoned_in doc = Some ab" "f = \<lparr>sf_questions = qs, sf_answers = as, sf_deferrals = ds, sf_abandoned = ab\<rparr>"
    unfolding facts_in_object by (auto simp: bind_eq_Some_conv)
  have q: "question \<in> q_id ` set qs" "question \<notin> an_question ` set as" "question \<notin> df_question ` set ds"
    using v(2-4)
      entries_names [where P = "names_question ''id'' question" and key = q_id, OF F(1) names_question_from]
      entries_names [where P = "names_question ''question'' question" and key = an_question, OF F(2) names_given_answer]
      entries_names [where P = "names_question ''question'' question" and key = df_question, OF F(3) names_deferral]
    by blast+
  have "get_str ''question'' (payload e) = Some question" using v(1) assms(2) by (simp add: member_str_def)
  with q show "\<exists>q \<in> set (sf_questions f). get_str ''question'' (payload e) = Some (q_id q) \<and> is_open f q"
    by (auto simp: F(5) is_open_iff settled_ids_def)
  show "facts_in (Some body) = question_step e (Some f)"
  proof (cases "type_name e = question_answered")
    case True
    with R have n: "name = ''answers''" "given_answer_from entry = given_answer_from (payload e)" by simp_all
    have "entries_in (ains ''answers'' (JArray (list_member doc ''answers'' @ [entry])) doc) ''answers'' given_answer_from
        = map_option (\<lambda>y. as @ [y]) (given_answer_from (payload e))"
      unfolding entries_append [OF read [OF F(2)]] F(2) n(2) by simp
    then show ?thesis
      unfolding v(6) n(1) facts_in_object question_step_def
      using True question_types
      by (cases "given_answer_from (payload e)") (simp_all add: entries_other abandoned_other F)
  next
    case False
    with R assms(3) have n: "name = ''deferrals''" "deferral_from entry = deferral_from (payload e)"
      "type_name e = question_deferred" by simp_all
    have "entries_in (ains ''deferrals'' (JArray (list_member doc ''deferrals'' @ [entry])) doc) ''deferrals'' deferral_from
        = map_option (\<lambda>y. ds @ [y]) (deferral_from (payload e))"
      unfolding entries_append [OF read [OF F(3)]] F(3) n(2) by simp
    then show ?thesis
      unfolding v(6) n(1) facts_in_object question_step_def
      using n(3) question_types
      by (cases "deferral_from (payload e)") (simp_all add: entries_other abandoned_other F)
  qed
qed

definition question_type :: "event \<Rightarrow> bool" where
  "question_type e \<longleftrightarrow> type_name e \<in> {questions_opened, question_answered, question_deferred, questions_abandoned}"

text \<open>One application: it writes the one document of the set it names.\<close>

lemma questions_apply_writes:
  assumes "questions_apply e docs = Inr cs"
  obtains sid m body where "payload e = JObject m" "get_str ''set'' (payload e) = Some sid" "cs = [Put (questions_key sid) body]"
    "type_name e = questions_opened \<and> opened_body e m sid = Inr body
       \<and> Option.bind (map_option snd (find (\<lambda>d. fst d = questions_key sid) docs)) as_object = None
     \<or> type_name e \<noteq> questions_opened \<and> (\<exists>doc. find (\<lambda>d. fst d = questions_key sid) docs = Some (questions_key sid, JObject doc)
         \<and> (type_name e = questions_abandoned \<and> abandoned_body e m sid doc = Inr body
            \<or> type_name e \<noteq> questions_abandoned \<and> settled_body e m sid doc = Inr body))"
proof -
  obtain m sid where m: "payload e = JObject m" and sid: "payload_text e m ''set'' = Inr sid"
    and rest: "(let key = questions_key sid;
           held = Option.bind (map_option snd (find (\<lambda>d. fst d = key) docs)) as_object
       in if type_name e = questions_opened then
            (if held \<noteq> None then Inl (question_refuse e (''set '' @ sid @ '' is already held''))
             else rbind (opened_body e m sid) (\<lambda>body. Inr [Put key body]))
          else
            (case held of
               None \<Rightarrow> Inl (question_refuse e (''set '' @ sid @ '' is not held''))
             | Some document \<Rightarrow>
                 rbind (if type_name e = questions_abandoned then abandoned_body e m sid document
                        else settled_body e m sid document) (\<lambda>body. Inr [Put key body]))) = Inr cs"
    using assms unfolding questions_apply_def by (auto simp: rbind_Inr_iff)
  have s: "get_str ''set'' (payload e) = Some sid" using sid m by (simp add: payload_text_def)
  let ?held = "Option.bind (map_option snd (find (\<lambda>d. fst d = questions_key sid) docs)) as_object"
  show ?thesis
  proof (cases "type_name e = questions_opened")
    case True
    with rest obtain body where "?held = None" "opened_body e m sid = Inr body" "cs = [Put (questions_key sid) body]"
      by (auto simp: Let_def result_simps split: if_splits)
    with that m s True show ?thesis by blast
  next
    case False
    with rest obtain doc where doc: "?held = Some doc"
      and r2: "rbind (if type_name e = questions_abandoned then abandoned_body e m sid doc
                        else settled_body e m sid doc) (\<lambda>body. Inr [Put (questions_key sid) body]) = Inr cs"
      by (auto simp: Let_def split: option.splits)
    then obtain d where d: "find (\<lambda>d. fst d = questions_key sid) docs = Some d" "snd d = JObject doc"
      by (auto simp: bind_eq_Some_conv)
    then have d': "find (\<lambda>d. fst d = questions_key sid) docs = Some (questions_key sid, JObject doc)"
      using find_SomeD [OF d(1)] by (cases d) simp
    from r2 obtain body where b: "(if type_name e = questions_abandoned then abandoned_body e m sid doc
                        else settled_body e m sid doc) = Inr body" "cs = [Put (questions_key sid) body]"
      by (auto simp: result_simps)
    have "type_name e = questions_abandoned \<and> abandoned_body e m sid doc = Inr body
            \<or> type_name e \<noteq> questions_abandoned \<and> settled_body e m sid doc = Inr body"
      using b(1) by (auto split: if_splits)
    with that m s b(2) d' False show ?thesis by blast
  qed
qed

lemma questions_held_iff: "key_held questions_spec (questions_key sid) b \<and> index_held questions_spec b \<longleftrightarrow> get_str ''set'' b = Some sid"
  by (auto simp: key_held_def index_held_def index_columns_def questions_spec_def questions_key_def)

text \<open>The written document, read back.\<close>

lemma questions_apply_facts:
  assumes "questions_apply e (documents_at table st [questions_key sid]) = Inr cs" "question_type e"
    and "get_str ''set'' (payload e) = Some sid"
    and "type_name e = questions_opened \<or> facts_in (doc_read table st (questions_key sid)) = Some f"
  obtains body where "cs = [Put (questions_key sid) body]" "facts_in (Some body) = question_step e (Some f)"
    "type_name e = question_answered \<or> type_name e = question_deferred \<Longrightarrow>
       \<exists>q \<in> set (sf_questions f). get_str ''question'' (payload e) = Some (q_id q) \<and> is_open f q"
proof -
  from questions_apply_writes [OF assms(1)] assms(3) obtain m body where m: "payload e = JObject m"
    and cs: "cs = [Put (questions_key sid) body]"
    and b: "type_name e = questions_opened \<and> opened_body e m sid = Inr body
     \<or> type_name e \<noteq> questions_opened \<and> (\<exists>doc. find (\<lambda>d. fst d = questions_key sid) (documents_at table st [questions_key sid]) = Some (questions_key sid, JObject doc)
         \<and> (type_name e = questions_abandoned \<and> abandoned_body e m sid doc = Inr body
            \<or> type_name e \<noteq> questions_abandoned \<and> settled_body e m sid doc = Inr body))"
    by (metis option.inject)
  show ?thesis
  proof (cases "type_name e = questions_opened")
    case True
    then have "opened_body e m sid = Inr body" using b question_types by auto
    from opened_body_facts [OF this m True, of "Some f"] True question_types show ?thesis by (intro that [OF cs]) auto
  next
    case False
    with b obtain doc where d: "find (\<lambda>d. fst d = questions_key sid) (documents_at table st [questions_key sid]) = Some (questions_key sid, JObject doc)"
      and c: "type_name e = questions_abandoned \<and> abandoned_body e m sid doc = Inr body
            \<or> (type_name e = question_answered \<or> type_name e = question_deferred) \<and> settled_body e m sid doc = Inr body"
      using assms(2) by (auto simp: question_type_def)
    have "doc_read table st (questions_key sid) = Some (JObject doc)"
      using d by (auto simp: documents_at_one split: option.splits)
    with assms(4) False have f: "facts_in (Some (JObject doc)) = Some f" by simp
    from c show ?thesis
    proof
      assume a: "type_name e = questions_abandoned \<and> abandoned_body e m sid doc = Inr body"
      from abandoned_body_facts [OF _ m, of sid doc body] a f question_types show ?thesis by (intro that [OF cs]) auto
    next
      assume a: "(type_name e = question_answered \<or> type_name e = question_deferred) \<and> settled_body e m sid doc = Inr body"
      then have s: "settled_body e m sid doc = Inr body" "type_name e = question_answered \<or> type_name e = question_deferred" by blast+
      from settled_body_facts [OF s(1) m s(2) f] show ?thesis by (intro that [OF cs])
    qed
  qed
qed

interpretation questions: view_projector questions_projector
proof unfold_locales
  fix e docs cs c
  assume "p_apply questions_projector e docs = Inr cs" "c \<in> set cs"
  then have a: "questions_apply e docs = Inr cs" by (simp add: questions_projector_def)
  then obtain m sid key body where "payload e = JObject m" "payload_text e m ''set'' = Inr sid" "cs = [Put (questions_key sid) body]"
    unfolding questions_apply_def by (auto simp: result_simps Let_def split: if_splits option.splits)
  with \<open>c \<in> set cs\<close> show "change_key c \<in> set (p_keys questions_projector e)"
    by (simp add: questions_projector_def questions_keys_def payload_text_def)
next
  fix k e
  assume "k \<in> set (p_keys questions_projector e)"
  then show "fitted k (map snd (vs_key (p_spec questions_projector)))"
    by (auto simp: questions_projector_def questions_keys_def questions_key_def questions_spec_def fitted_def split: option.splits)
next
  fix e docs cs k b
  assume a: "p_apply questions_projector e docs = Inr cs" "Put k b \<in> set cs"
    and docs: "\<And>k b. (k, b) \<in> set docs \<Longrightarrow> key_held (p_spec questions_projector) k b \<and> index_held (p_spec questions_projector) b"
  from a(1) have ap: "questions_apply e docs = Inr cs" by (simp add: questions_projector_def)
  show "key_held (p_spec questions_projector) k b \<and> index_held (p_spec questions_projector) b"
  proof -
    from questions_apply_writes [OF ap] obtain sid m body where w: "payload e = JObject m"
      "get_str ''set'' (payload e) = Some sid" "cs = [Put (questions_key sid) body]"
      "type_name e = questions_opened \<and> opened_body e m sid = Inr body
     \<or> type_name e \<noteq> questions_opened \<and> (\<exists>doc. find (\<lambda>d. fst d = questions_key sid) docs = Some (questions_key sid, JObject doc)
         \<and> (type_name e = questions_abandoned \<and> abandoned_body e m sid doc = Inr body
            \<or> type_name e \<noteq> questions_abandoned \<and> settled_body e m sid doc = Inr body))" by metis
    have kb: "k = questions_key sid" "b = body" using a(2) w(3) by simp_all
    have held: "get_str ''set'' (JObject doc) = Some sid"
      if "find (\<lambda>d. fst d = questions_key sid) docs = Some (questions_key sid, JObject doc)" for doc
      using find_SomeD [OF that] docs [of "questions_key sid" "JObject doc"] questions_held_iff [of sid "JObject doc"]
      by (simp add: questions_projector_def)
    have "get_str ''set'' body = Some sid"
      using w(4) opened_body_facts [OF _ w(1), of sid body] abandoned_body_facts [OF _ w(1), of sid _ body "''set''"]
        settled_body_keeps [OF _ w(1), of sid _ body "''set''"] held by auto
    then show ?thesis using questions_held_iff [of sid body] by (simp add: kb questions_projector_def)
  qed
qed

lemma fold_event_questions:
  assumes "fold_event questions_projector table e st = Inr u" "question_type e"
  obtains sid cs where "get_str ''set'' (payload e) = Some sid"
    "questions_apply e (documents_at table st [questions_key sid]) = Inr cs" "u = foldl (stage (seq e)) st cs"
proof -
  have h: "type_name e \<in> set (p_handles questions_projector)"
    using assms(2) by (auto simp: question_type_def questions_projector_def)
  obtain cs where cs: "questions_apply e (documents_at table st (questions_keys e)) = Inr cs" "u = foldl (stage (seq e)) st cs"
    using fold_event_handled [OF assms(1) h] by (auto simp: questions_projector_def)
  then obtain sid where sid: "get_str ''set'' (payload e) = Some sid"
    using questions_apply_writes [OF cs(1)] by metis
  then have "questions_keys e = [questions_key sid]" by (simp add: questions_keys_def)
  with cs sid that show ?thesis by simp
qed

lemma doc_read_stage: "doc_read table (stage n st (Put key body)) k = (if k = key then Some body else doc_read table st k)"
  by (simp add: doc_read_def map_of_stage)

lemma facts_at_read: "facts_at table sid = facts_in (doc_read table [] (questions_key sid))"
  by (cases "table (questions_key sid)") (simp_all add: facts_at_def doc_read_def)

lemma project_read:
  assumes "project_events p table es = Inr table'"
  obtains st where "fold_events p table es [] = Inr st" "\<And>k. map_option doc_body (table' k) = doc_read table st k"
    "\<And>k. map_of st k = None \<Longrightarrow> table' k = table k"
proof -
  obtain st where st: "fold_events p table es [] = Inr st" "write_staged (p_spec p) table st = Inr table'"
    using assms by (auto simp: project_events_def result_simps)
  have "table' = overlay table (map_of st)"
    using st akeys_sorted_distinct [OF fold_events_sorted [OF st(1)]] by (auto simp: write_staged_eq split: list.splits)
  with that [OF st(1)] show ?thesis by (simp add: read_overlay) (simp add: overlay_def)
qed

text \<open>C34: the questions view implements the record of a set.  Each question event changes exactly
  the document of the set it names.  An opening is projected only when the set is not held and
  gives its questions with nothing settled; on a readable set, an abandonment, an answer and a
  deferral each add exactly what their payload states, and a settlement is projected only for a
  question of the set that is still open, so no recorded fact is ever replaced.\<close>

theorem questions_view_step:
  assumes "project_events questions_projector table [e] = Inr table'" "question_type e"
  shows "\<exists>sid. get_str ''set'' (payload e) = Some sid \<and> (\<forall>k. k \<noteq> questions_key sid \<longrightarrow> table' k = table k)
    \<and> (type_name e = questions_opened \<longrightarrow> facts_at table sid = None \<and> facts_at table' sid = question_step e None)
    \<and> (\<forall>f. type_name e \<noteq> questions_opened \<and> facts_at table sid = Some f \<longrightarrow>
         facts_at table' sid = question_step e (Some f)
         \<and> (type_name e = question_answered \<or> type_name e = question_deferred \<longrightarrow>
              (\<exists>q \<in> set (sf_questions f). get_str ''question'' (payload e) = Some (q_id q) \<and> is_open f q)))"
proof -
  from project_read [OF assms(1)] obtain st where st: "fold_events questions_projector table [e] [] = Inr st"
    "\<And>k. map_option doc_body (table' k) = doc_read table st k" "\<And>k. map_of st k = None \<Longrightarrow> table' k = table k" by blast
  then have fe: "fold_event questions_projector table e [] = Inr st" by (auto simp: result_simps)
  from fold_event_questions [OF fe assms(2)] obtain sid cs where sid: "get_str ''set'' (payload e) = Some sid"
    and cs: "questions_apply e (documents_at table [] [questions_key sid]) = Inr cs" "st = foldl (stage (seq e)) [] cs" .
  from questions_apply_writes [OF cs(1)] sid obtain m body where w: "payload e = JObject m" "cs = [Put (questions_key sid) body]"
    and op: "type_name e = questions_opened \<longrightarrow> opened_body e m sid = Inr body
       \<and> Option.bind (map_option snd (find (\<lambda>d. fst d = questions_key sid) (documents_at table [] [questions_key sid]))) as_object = None"
    by (metis option.inject)
  have others: "table' k = table k" if "k \<noteq> questions_key sid" for k
    by (rule st(3)) (use that in \<open>simp add: cs(2) w(2) map_of_stage\<close>)
  have "doc_read table st (questions_key sid) = Some body" by (simp add: cs(2) w(2) doc_read_stage)
  then have after: "facts_at table' sid = facts_in (Some body)"
    unfolding facts_at_def st(2) by (rule arg_cong)
  have opened: "facts_at table sid = None \<and> facts_at table' sid = question_step e None" if o': "type_name e = questions_opened"
  proof
    show "facts_at table' sid = question_step e None"
      unfolding after using opened_body_facts [OF _ w(1) o'] op o' by blast
    have "Option.bind (doc_read table [] (questions_key sid)) as_object = None"
      using op o' by (auto simp: documents_at_one split: option.splits)
    then show "facts_at table sid = None"
      unfolding facts_at_read using facts_in_not_object
      by (cases "doc_read table [] (questions_key sid)") (auto simp: facts_in_def)
  qed
  have step: "facts_at table' sid = question_step e (Some f)
         \<and> (type_name e = question_answered \<or> type_name e = question_deferred \<longrightarrow>
              (\<exists>q \<in> set (sf_questions f). get_str ''question'' (payload e) = Some (q_id q) \<and> is_open f q))"
    if "facts_at table sid = Some f" for f
  proof -
    from that have "facts_in (doc_read table [] (questions_key sid)) = Some f" by (simp add: facts_at_read)
    from questions_apply_facts [OF cs(1) assms(2) sid disjI2 [OF this]] w(2) after show ?thesis by auto
  qed
  show ?thesis using sid others opened step by blast
qed

lemma settlement_step:
  assumes "type_name e = settlement_type t" "payload e = settlement_payload t sid n owner at"
  shows "question_step e (Some f) = Some (settle n owner at f t)" "question_type e"
    "get_str ''set'' (payload e) = Some sid"
  using assms question_types
  by (cases t; simp add: question_step_def settle_def answered_payload_def deferred_payload_def given_answer_from_def
      deferral_from_def member_str_def members_map_of round_member_def question_type_def)+

lemma fold_settlements:
  assumes "fold_events questions_projector table es st = Inr u"
    and "list_all2 (\<lambda>t e. type_name e = settlement_type t \<and> payload e = settlement_payload t sid n owner at) ts es"
    and "facts_in (doc_read table st (questions_key sid)) = Some f"
  shows "facts_in (doc_read table u (questions_key sid)) = Some (foldl (settle n owner at) f ts)"
  using assms(2,1,3)
proof (induction ts es arbitrary: st f rule: list_all2_induct)
  case (Cons t ts e es)
  from Cons.prems(1) obtain st' where st': "fold_event questions_projector table e st = Inr st'"
    "fold_events questions_projector table es st' = Inr u" by (auto simp: result_simps)
  note S = settlement_step [OF Cons.hyps(1) [THEN conjunct1] Cons.hyps(1) [THEN conjunct2]]
  from fold_event_questions [OF st'(1) S(2)] obtain sid' cs where sid': "get_str ''set'' (payload e) = Some sid'"
    and cs': "questions_apply e (documents_at table st [questions_key sid']) = Inr cs" "st' = foldl (stage (seq e)) st cs" .
  have "sid' = sid" using sid' S(3) by simp
  with cs' have cs: "questions_apply e (documents_at table st [questions_key sid]) = Inr cs" "st' = foldl (stage (seq e)) st cs"
    by simp_all
  from questions_apply_facts [OF cs(1) S(2,3) disjI2 [OF Cons.prems(2)]] obtain body where
    "cs = [Put (questions_key sid) body]" "facts_in (Some body) = question_step e (Some f)" by blast
  with cs(2) S(1) have "facts_in (doc_read table st' (questions_key sid)) = Some (settle n owner at f t)"
    by (simp add: doc_read_stage)
  from Cons.IH [OF st'(2) this] show ?case by simp
qed simp

text \<open>C35: what a call settles is what is read back.  When an accepted call's settlements are recorded
  as their events, in the call's order and in its round, the set's document afterwards reads as
  exactly the facts the judgement worked the next round out from.\<close>

theorem recorded_call_read_back:
  assumes "judge_answers f items = Inr s" "facts_at table sid = Some f"
    and "list_all2 (\<lambda>t e. type_name e = settlement_type t \<and> payload e = settlement_payload t sid (sd_round s) owner at)
           (sd_settlements s) es"
    and "project_events questions_projector table es = Inr table'"
  shows "facts_at table' sid = Some (facts_after s owner at)
    \<and> map_option round_of (facts_at table' sid) = Some (round_after s owner at)"
proof -
  from project_read [OF assms(4)] obtain st where st: "fold_events questions_projector table es [] = Inr st"
    "\<And>k. map_option doc_body (table' k) = doc_read table st k" "\<And>k. map_of st k = None \<Longrightarrow> table' k = table k" by blast
  have "facts_in (doc_read table st (questions_key sid)) = Some (foldl (settle (sd_round s) owner at) f (sd_settlements s))"
    by (rule fold_settlements [OF st(1) assms(3)]) (use assms(2) in \<open>simp add: facts_at_read\<close>)
  then have "facts_at table' sid = Some (facts_after s owner at)"
    by (simp add: facts_at_def st(2) facts_after_def judge_answers_parts(2) [OF assms(1)])
  then show ?thesis by (simp add: round_after_def)
qed

section \<open>Witnesses\<close>

definition opening_event :: event where
  "opening_event = example_event 1 questions_opened (opened_payload ''s'' (Story 1 ''w'') [] ''t'')"

lemma opening_event_projects:
  "\<exists>table. project_events questions_projector Map.empty [opening_event] = Inr table"
proof -
  have p: "payload opening_event = JObject (members [(''set'', JString ''s''), (''subject'', JString ''story''), (''story'', jnum32 1),
     (''work_order'', JString ''w''), (''questions'', JArray []), (''at'', JString ''t'')])"
    by (simp add: opening_event_def jobj_def)
  have t: "type_name opening_event = questions_opened" "seq opening_event = 1"
    "stream opening_event = stream (example_event 1 questions_opened JNull)"
    "recorded_at opening_event = recorded_at (example_event 1 questions_opened JNull)"
    by (simp_all add: opening_event_def example_event_def place_def example_draft_def)
  have story: "as_u64 (jnum32 1) = Some 1"
    using parse_u64_dec [of 1] by (simp add: jnum32_def)
  let ?body = "jobj [(''set'', JString ''s''),
      (''subject'', jobj [(''kind'', JString ''story''), (''story'', jnum 1), (''work_order'', JString ''w'')]),
      (''stream'', JString (stream opening_event)), (''seq'', jnum (seq opening_event)),
      (''recorded_at'', JString (recorded_at opening_event)), (''questions'', JArray []), (''answers'', JArray []),
      (''deferrals'', JArray []), (''abandoned'', JNull)]"
  have "questions_apply opening_event [] = Inr [Put (questions_key ''s'') ?body]"
    by (simp add: questions_apply_def p payload_text_def payload_number_def members_map_of opened_body_def subject_body_def t(1) story)
  moreover have "questions_keys opening_event = [questions_key ''s'']"
    by (simp add: questions_keys_def p members_map_of)
  moreover have "check_change questions_spec (questions_key ''s'') (Some ?body) 1 = Inr ()"
  proof -
    have one: "numbers_safe (jnum 1)" using numbers_safe_jnum [of 1] by simp
    have "numbers_safe ?body" using one by (simp add: numbers_safe_jobj t(2))
    then obtain b where "canonical_json ?body = Inr b" using canonical_json_ok by metis
    moreover have "fitted (questions_key ''s'') (map snd (vs_key questions_spec))"
      by (simp add: fitted_def questions_spec_def questions_key_def)
    moreover have "key_held questions_spec (questions_key ''s'') ?body \<and> index_held questions_spec ?body"
      by (simp add: questions_held_iff)
    ultimately show ?thesis by (simp add: check_change_def)
  qed
  ultimately show ?thesis
    by (simp add: project_events_def fold_event_def questions_projector_def t(1,2) documents_at_one doc_read_def
        stage_def write_change_def key_refused_def fitted_def questions_key_def questions_spec_def)
qed

theorem questions_view_step_witness:
  "\<exists>table sid. project_events questions_projector Map.empty [opening_event] = Inr table
     \<and> get_str ''set'' (payload opening_event) = Some sid \<and> facts_at table sid = question_step opening_event None"
proof -
  obtain table where t: "project_events questions_projector Map.empty [opening_event] = Inr table"
    using opening_event_projects by blast
  have ty: "type_name opening_event = questions_opened" "question_type opening_event"
    by (simp_all add: opening_event_def question_type_def)
  from questions_view_step [OF t ty(2)] t ty(1) show ?thesis by blast
qed

definition example_set_doc :: json where
  "example_set_doc = jobj [(''set'', JString ''s''), (''questions'', JArray (map question_to_value example_questions)),
     (''answers'', JArray []), (''deferrals'', JArray []), (''abandoned'', JNull)]"

definition example_table :: view_table where
  "example_table = Map.empty(questions_key ''s'' \<mapsto> \<lparr>doc_seq = 1, doc_body = example_set_doc\<rparr>)"

definition answering_event :: event where
  "answering_event = example_event 2 question_answered (answered_payload ''s'' ''a'' 1 ''r'' True ''o'' ''t'')"

lemma question_from_value: "question_from (question_to_value q) = Some q"
  by (simp add: question_from_def question_to_value_def member_str_def members_map_of)

lemma example_table_facts: "facts_at example_table ''s'' = Some example_facts"
proof -
  have "those (map question_from (map question_to_value qs)) = Some qs" for qs
    by (induction qs) (simp_all add: question_from_value)
  then have "facts_in (Some example_set_doc) = Some example_facts"
    unfolding example_set_doc_def jobj_def facts_in_object
    by (simp add: entries_in_def members_map_of abandoned_in_def abandonment_from_def example_facts_def del: map_map)
  then show ?thesis by (simp add: facts_at_def example_table_def)
qed

lemma answering_event_projects: "\<exists>table. project_events questions_projector example_table [answering_event] = Inr table"
proof -
  let ?m = "members [(''set'', JString ''s''), (''question'', JString ''a''), (''round'', jnum32 1),
           (''answer'', JString ''r''), (''accepted'', JBool True), (''owner'', JString ''o''), (''at'', JString ''t'')]"
  have p: "payload answering_event = JObject ?m"
    by (simp add: answering_event_def answered_payload_def jobj_def)
  have t: "type_name answering_event = question_answered" "seq answering_event = 2"
    by (simp_all add: answering_event_def)
  have n: "as_u64 (jnum32 1) = Some 1" using parse_u64_dec [of 1] by (simp add: jnum32_def)
  let ?entry = "jobj [(''question'', JString ''a''), (''answer'', JString ''r''), (''accepted'', JBool True),
                 (''round'', jnum 1), (''owner'', JString ''o''), (''at'', JString ''t''), (''seq'', jnum 2)]"
  obtain doc where doc: "example_set_doc = JObject doc" "doc = members [(''set'', JString ''s''),
     (''questions'', JArray (map question_to_value example_questions)),
     (''answers'', JArray []), (''deferrals'', JArray []), (''abandoned'', JNull)]"
    by (simp add: example_set_doc_def jobj_def)
  let ?body = "JObject (ains ''answers'' (JArray [?entry]) doc)"
  have lists: "list_member doc ''questions'' = map question_to_value example_questions"
    "list_member doc ''answers'' = []" "list_member doc ''deferrals'' = []"
    by (simp_all add: doc(2) list_member_def members_map_of)
  have "names_question ''id'' ''a'' (question_to_value (hd example_questions))"
    by (simp add: names_question_def question_to_value_def example_questions_def)
  then have named: "list_ex (names_question ''id'' ''a'') (list_member doc ''questions'')"
    by (simp add: lists example_questions_def)
  have entry: "settled_entry answering_event ?m ''a'' = Inr (''answers'', ?entry)"
    by (simp add: settled_entry_def payload_text_def payload_number_def members_map_of t n)
  have settled: "settled_body answering_event ?m ''s'' doc = Inr ?body"
    by (simp add: settled_body_def payload_text_def members_map_of named lists(2,3) entry)
  have read: "doc_read example_table [] (questions_key ''s'') = Some (JObject doc)"
    by (simp add: doc_read_def example_table_def doc(1))
  have "questions_apply answering_event (documents_at example_table [] [questions_key ''s'']) = Inr [Put (questions_key ''s'') ?body]"
    using question_types settled
    by (simp add: questions_apply_def p payload_text_def members_map_of documents_at_one read t(1))
  moreover have "questions_keys answering_event = [questions_key ''s'']"
    by (simp add: questions_keys_def p members_map_of)
  moreover have "check_change questions_spec (questions_key ''s'') (Some ?body) 2 = Inr ()"
  proof -
    have one: "numbers_safe (jnum 1)" "numbers_safe (jnum 2)" using numbers_safe_jnum [of 1] numbers_safe_jnum [of 2] by simp_all
    have e: "numbers_safe (JArray [?entry])" using one by (simp add: numbers_safe_jobj)
    have q: "numbers_safe (question_to_value q)" for q by (simp add: question_to_value_def numbers_safe_jobj jstrs_def)
    have "numbers_safe (JObject doc)"
      unfolding doc(1) [symmetric] example_set_doc_def by (simp add: numbers_safe_jobj q)
    then have "numbers_safe ?body" using numbers_safe_ains [OF e, of doc] by auto
    then obtain b where "canonical_json ?body = Inr b" using canonical_json_ok by metis
    moreover have "fitted (questions_key ''s'') (map snd (vs_key questions_spec))"
      by (simp add: fitted_def questions_spec_def questions_key_def)
    moreover have "key_held questions_spec (questions_key ''s'') ?body \<and> index_held questions_spec ?body"
      by (simp add: questions_held_iff doc(2) members_map_of)
    ultimately show ?thesis by (simp add: check_change_def)
  qed
  ultimately show ?thesis
    by (simp add: project_events_def fold_event_def questions_projector_def t stage_def write_change_def
        key_refused_def fitted_def questions_key_def questions_spec_def)
qed

theorem recorded_call_read_back_witness:
  "\<exists>table. project_events questions_projector example_table [answering_event] = Inr table
     \<and> facts_at table ''s'' = Some (facts_after example_settled ''o'' ''t'')"
proof -
  obtain table where t: "project_events questions_projector example_table [answering_event] = Inr table"
    using answering_event_projects by blast
  have "list_all2 (\<lambda>t e. type_name e = settlement_type t \<and> payload e = settlement_payload t ''s'' (sd_round example_settled) ''o'' ''t'')
           (sd_settlements example_settled) [answering_event]"
    by (simp add: example_settled_def answering_event_def)
  from recorded_call_read_back [OF example_judged example_table_facts this t] t show ?thesis by blast
qed

end
