(* ===== verification/Registry.thy ===== *)
theory Registry
  imports Question_View
begin

text \<open>
  The event type registry (\<open>baley-core/src/registry.rs\<close>) and the store's view of it
  (\<open>SqliteStore::reads\<close> and \<open>SqliteStore::projection_copy\<close> of
  \<open>baley-store-sqlite/src/store.rs\<close>).  A registry is the ordered map of its types; a type keeps
  its current version and the upcasters from the older ones.  The \<open>expect\<close> of \<open>read\<close> is the
  outer \<open>None\<close>.  The contract between the store and the core is the locale \<open>event_schema\<close>
  (the trait \<open>EventSchema\<close>), which every registry built by \<open>register\<close> meets.
\<close>

type_synonym upcast_error = string
type_synonym upcaster = "json \<Rightarrow> upcast_error + json"

record type_spec =
  ts_current :: u32
  ts_upcasters :: "(u32 \<times> upcaster) list"

type_synonym registry = "(string \<times> type_spec) list"

datatype registry_error =
    DuplicateType string
  | ZeroVersion string
  | MissingUpcaster string u32
  | StrayUpcaster string u32

datatype fence_reason =
    UnknownType string
  | UnknownVersion string u32 u32
  | UpcastFailed string u32 upcast_error

record fence =
  fence_project :: project_id
  fence_seq :: u64
  fence_reason :: fence_reason

record current =
  cur_type_name :: string
  cur_version :: u32
  cur_payload :: json

text \<open>The versions from \<open>a\<close> up to, not including, \<open>b\<close>.\<close>

definition versions :: "u32 \<Rightarrow> u32 \<Rightarrow> u32 list" where
  "versions a b = map of_nat [unat a..<unat b]"

definition collect_upcasters :: "(u32 \<times> upcaster) list \<Rightarrow> (u32 \<times> upcaster) list" where
  "collect_upcasters ups = foldl (\<lambda>m (from, up). ains from up m) [] ups"

definition register :: "string \<Rightarrow> u32 \<Rightarrow> (u32 \<times> upcaster) list \<Rightarrow> registry \<Rightarrow> registry_error + registry" where
  "register name current upcasters types =
     (if current = 0 then Inl (ZeroVersion name)
      else let ups = collect_upcasters upcasters in
      case find (\<lambda>from. map_of ups from = None) (versions 1 current) of
        Some from \<Rightarrow> Inl (MissingUpcaster name from)
      | None \<Rightarrow>
          (case find (\<lambda>from. from = 0 \<or> current \<le> from) (map fst ups) of
             Some from \<Rightarrow> Inl (StrayUpcaster name from)
           | None \<Rightarrow>
               (if map_of types name \<noteq> None then Inl (DuplicateType name)
                else Inr (ains name \<lparr>ts_current = current, ts_upcasters = ups\<rparr> types))))"

definition current_version :: "registry \<Rightarrow> string \<Rightarrow> u32 option" where
  "current_version types name = map_option ts_current (map_of types name)"

definition fence_of :: "event \<Rightarrow> fence_reason \<Rightarrow> fence" where
  "fence_of e reason = \<lparr>fence_project = project_id e, fence_seq = seq e, fence_reason = reason\<rparr>"

fun upcast :: "event \<Rightarrow> type_spec \<Rightarrow> u32 list \<Rightarrow> json \<Rightarrow> (fence + json) option" where
  "upcast e spec [] body = Some (Inr body)"
| "upcast e spec (from # froms) body =
     (case map_of (ts_upcasters spec) from of
        None \<Rightarrow> None
      | Some up \<Rightarrow>
          (case up body of
             Inl error \<Rightarrow> Some (Inl (fence_of e (UpcastFailed (type_name e) from error)))
           | Inr next \<Rightarrow> upcast e spec froms next))"

definition registry_read :: "registry \<Rightarrow> event \<Rightarrow> (fence + current) option" where
  "registry_read types e =
     (case map_of types (type_name e) of
        None \<Rightarrow> Some (Inl (fence_of e (UnknownType (type_name e))))
      | Some spec \<Rightarrow>
          if type_version e = 0 \<or> ts_current spec < type_version e
          then Some (Inl (fence_of e (UnknownVersion (type_name e) (type_version e) (ts_current spec))))
          else map_option (\<lambda>r. rbind r (\<lambda>body.
                 Inr \<lparr>cur_type_name = type_name e, cur_version = ts_current spec, cur_payload = body\<rparr>))
               (upcast e spec (versions (type_version e) (ts_current spec)) (payload e)))"

fun fence_events :: "registry \<Rightarrow> event list \<Rightarrow> (project_id \<times> fence) list \<Rightarrow> (project_id \<times> fence) list option" where
  "fence_events types [] fences = Some fences"
| "fence_events types (e # es) fences =
     (if (case map_of fences (project_id e) of None \<Rightarrow> False | Some f \<Rightarrow> fence_seq f \<le> seq e)
      then fence_events types es fences
      else (case registry_read types e of
              None \<Rightarrow> None
            | Some (Inl f) \<Rightarrow> fence_events types es (ains (project_id e) f fences)
            | Some (Inr _) \<Rightarrow> fence_events types es fences))"

definition fenced_projects :: "registry \<Rightarrow> event list \<Rightarrow> (project_id \<times> fence) list option" where
  "fenced_projects types es = fence_events types es []"

section \<open>What a refusal says\<close>

fun fence_reason_display :: "fence_reason \<Rightarrow> string" where
  "fence_reason_display (UnknownType type) = ''has the unknown type '' @ type"
| "fence_reason_display (UnknownVersion type version current) =
     ''is '' @ type @ '' version '' @ dec (unat version) @ ''; this binary reads up to '' @ dec (unat current)"
| "fence_reason_display (UpcastFailed type from error) =
     ''is '' @ type @ '' version '' @ dec (unat from) @ '' and could not be read: '' @ error"

definition fence_display :: "fence \<Rightarrow> string" where
  "fence_display f = ''project '' @ fence_project f @ '' is read-only for this binary: event ''
     @ dec (unat (fence_seq f)) @ '' '' @ fence_reason_display (fence_reason f)"

section \<open>The schema the store is given\<close>

definition registry_reads :: "registry \<Rightarrow> string \<Rightarrow> u32 \<Rightarrow> bool" where
  "registry_reads types name version =
     (case current_version types name of None \<Rightarrow> False | Some current \<Rightarrow> 1 \<le> version \<and> version \<le> current)"

definition registry_projection :: "registry \<Rightarrow> event \<Rightarrow> (string + u32 \<times> json) option" where
  "registry_projection types e =
     map_option (\<lambda>r. map_err fence_display (rbind r (\<lambda>c. Inr (cur_version c, cur_payload c)))) (registry_read types e)"

definition not_readable :: "string \<Rightarrow> u32 \<Rightarrow> string" where
  "not_readable name version = name @ '' version '' @ dec (unat version) @ '' is not readable by this binary''"

text \<open>The default method of the trait.\<close>

definition default_projection :: "(string \<Rightarrow> u32 \<Rightarrow> bool) \<Rightarrow> event \<Rightarrow> (string + u32 \<times> json) option" where
  "default_projection reads e =
     Some (if reads (type_name e) (type_version e) then Inr (type_version e, payload e)
           else Inl (not_readable (type_name e) (type_version e)))"

definition command_claimed_version :: u32 where "command_claimed_version = 1"
definition command_reconciled_version :: u32 where "command_reconciled_version = 1"
definition payload_reduced_version :: u32 where "payload_reduced_version = 1"
definition payload_purged_version :: u32 where "payload_purged_version = 1"

definition store_reads :: "(string \<Rightarrow> u32 \<Rightarrow> bool) \<Rightarrow> string \<Rightarrow> u32 \<Rightarrow> bool" where
  "store_reads reads name version \<longleftrightarrow>
     name = command_completed \<and> version = command_completed_version
   \<or> name = command_claimed \<and> version = command_claimed_version
   \<or> name = command_reconciled \<and> version = command_reconciled_version
   \<or> name = payload_reduced \<and> version = payload_reduced_version
   \<or> name = payload_purged \<and> version = payload_purged_version
   \<or> \<not> store_owned name \<and> reads name version"

definition projection_copy ::
  "(string \<Rightarrow> u32 \<Rightarrow> bool) \<Rightarrow> (event \<Rightarrow> (string + u32 \<times> json) option) \<Rightarrow> event \<Rightarrow> (string + event) option" where
  "projection_copy reads projection e =
     (if store_owned (type_name e)
      then Some (if store_reads reads (type_name e) (type_version e) then Inr e
                 else Inl (not_readable (type_name e) (type_version e)))
      else map_option (\<lambda>r. rbind r (\<lambda>(version, body). Inr (e\<lparr>type_version := version, payload := body\<rparr>)))
             (projection e))"

section \<open>The types the core registers\<close>

fun register_all :: "(string \<times> u32) list \<Rightarrow> registry \<Rightarrow> registry_error + registry" where
  "register_all [] types = Inr types"
| "register_all ((name, version) # rest) types = rbind (register name version [] types) (register_all rest)"

definition register_anchor_events :: "registry \<Rightarrow> registry_error + registry" where
  "register_anchor_events = register_all
     [(anchor_pushed, anchor_pushed_version),
      (anchor_restore_acknowledged, anchor_restore_acknowledged_version),
      (anchor_failed, anchor_failed_version)]"

definition project_initialized :: string where "project_initialized = ''project.initialized''"
definition project_initialized_version :: u32 where "project_initialized_version = 1"

definition register_project_events :: "registry \<Rightarrow> registry_error + registry" where
  "register_project_events = register_all [(project_initialized, project_initialized_version)]"

definition questions_opened_version :: u32 where "questions_opened_version = 1"
definition question_answered_version :: u32 where "question_answered_version = 1"
definition question_deferred_version :: u32 where "question_deferred_version = 1"
definition questions_abandoned_version :: u32 where "questions_abandoned_version = 1"

definition register_question_events :: "registry \<Rightarrow> registry_error + registry" where
  "register_question_events = register_all
     [(questions_opened, questions_opened_version), (question_answered, question_answered_version),
      (question_deferred, question_deferred_version), (questions_abandoned, questions_abandoned_version)]"

section \<open>What registering promises\<close>

lemma set_versions: "v \<in> set (versions a b) \<longleftrightarrow> a \<le> v \<and> v < b"
proof
  assume "v \<in> set (versions a b)"
  then obtain n where n: "v = of_nat n" "unat a \<le> n" "n < unat b" by (auto simp: versions_def)
  have "n < 2 ^ LENGTH(32)" using n(3) unsigned_less [of b] by (meson less_trans)
  then have "unat v = n" using n(1) by (simp add: unsigned_of_nat take_bit_nat_eq_self)
  with n(2,3) show "a \<le> v \<and> v < b" by (simp add: word_le_nat_alt word_less_nat_alt)
next
  assume "a \<le> v \<and> v < b"
  then have "v = of_nat (unat v)" "unat v \<in> {unat a..<unat b}" by (simp_all add: word_le_nat_alt word_less_nat_alt)
  then show "v \<in> set (versions a b)" unfolding versions_def by (metis image_eqI set_map set_upt)
qed

lemma versions_self [simp]: "versions a a = []"
  by (simp add: versions_def)

lemma versions_step: "a < b \<Longrightarrow> versions a b = a # versions (a + 1) b"
proof -
  assume lt: "a < b"
  then have "a \<noteq> - 1" by (metis not_less word_n1_ge)
  then have "unat (a + 1) = Suc (unat a)" by (simp add: unat_succ_word)
  with lt show ?thesis by (simp add: versions_def upt_rec word_less_nat_alt)
qed

lemma collect_upcasters_fold:
  "akeys_sorted m \<Longrightarrow> akeys_sorted (foldl (\<lambda>m (from, up). ains from up m) m ups)
     \<and> map_of (foldl (\<lambda>m (from, up). ains from up m) m ups) = map_of m ++ map_of (rev ups)"
proof (induction ups arbitrary: m)
  case Nil
  then show ?case by simp
next
  case (Cons p ups)
  obtain k v where p: "p = (k, v)" by fastforce
  from Cons.IH [OF akeys_sorted_ains [OF Cons.prems], of k v] show ?case
    by (auto simp: p map_add_assoc [symmetric] map_add_upd_left fun_eq_iff map_add_def split: option.split)
qed

lemma collect_upcasters_sorted: "akeys_sorted (collect_upcasters ups)"
  and map_of_collect_upcasters: "map_of (collect_upcasters ups) = map_of (rev ups)"
  using collect_upcasters_fold [of "[]" ups] by (simp_all add: collect_upcasters_def)

definition spec_ok :: "type_spec \<Rightarrow> bool" where
  "spec_ok s \<longleftrightarrow> 0 < ts_current s \<and> (\<forall>v. map_of (ts_upcasters s) v \<noteq> None \<longleftrightarrow> 1 \<le> v \<and> v < ts_current s)"

definition registry_ok :: "registry \<Rightarrow> bool" where
  "registry_ok r \<longleftrightarrow> akeys_sorted r \<and> (\<forall>name s. map_of r name = Some s \<longrightarrow> spec_ok s)"

lemma find_none_iff: "find P xs = None \<longleftrightarrow> (\<forall>x \<in> set xs. \<not> P x)"
  by (auto simp: find_None_iff)

lemma register_Inr_iff:
  "register name current ups r = Inr r' \<longleftrightarrow>
     0 < current \<and> fst ` set ups = {v. 1 \<le> v \<and> v < current} \<and> map_of r name = None
     \<and> r' = ains name \<lparr>ts_current = current, ts_upcasters = collect_upcasters ups\<rparr> r"
proof -
  have keys: "map_of (collect_upcasters ups) v = None \<longleftrightarrow> v \<notin> fst ` set ups" for v
    by (simp add: map_of_collect_upcasters map_of_eq_None_iff)
  have dom: "fst ` set (collect_upcasters ups) = fst ` set ups"
    using keys by (auto simp: map_of_eq_None_iff)
  have missing: "find (\<lambda>from. map_of (collect_upcasters ups) from = None) (versions 1 current) = None
      \<longleftrightarrow> {v. 1 \<le> v \<and> v < current} \<subseteq> fst ` set ups"
    unfolding find_none_iff keys set_versions Ball_def by auto
  have stray: "find (\<lambda>from. from = 0 \<or> current \<le> from) (map fst (collect_upcasters ups)) = None
      \<longleftrightarrow> fst ` set ups \<subseteq> {v. 1 \<le> v \<and> v < current}"
  proof -
    have "find (\<lambda>from. from = 0 \<or> current \<le> from) (map fst (collect_upcasters ups)) = None
        \<longleftrightarrow> (\<forall>v \<in> fst ` set ups. \<not> (v = 0 \<or> current \<le> v))"
      unfolding find_none_iff set_map dom ..
    also have "\<dots> \<longleftrightarrow> fst ` set ups \<subseteq> {v. 1 \<le> v \<and> v < current}"
    proof -
      have "\<not> (v = 0 \<or> current \<le> v) \<longleftrightarrow> 1 \<le> v \<and> v < current" for v :: u32
        by (simp add: not_le word_le_nat_alt word_less_nat_alt unat_eq_0 [symmetric]) linarith
      then show ?thesis by auto
    qed
    finally show ?thesis .
  qed
  have pos: "current \<noteq> 0 \<longleftrightarrow> 0 < current" by (simp add: word_gt_0)
  show ?thesis
    unfolding register_def Let_def
    using missing stray pos by (auto split: option.split)
qed

text \<open>A registration is accepted exactly when the version is positive, there is an upcaster for
  each older version and for no other, and the type is new; then the type, and no other, is added.\<close>

theorem register_accepts:
  "register name current ups r = Inr r' \<longleftrightarrow>
     0 < current \<and> fst ` set ups = {v. 1 \<le> v \<and> v < current} \<and> map_of r name = None
     \<and> r' = ains name \<lparr>ts_current = current, ts_upcasters = collect_upcasters ups\<rparr> r"
  by (rule register_Inr_iff)

text \<open>The registries a program can build: from the empty one, by accepted registrations.\<close>

inductive built :: "registry \<Rightarrow> bool" where
  built_new: "built []"
| built_register: "built r \<Longrightarrow> register name current ups r = Inr r' \<Longrightarrow> built r'"

lemma spec_okD: "spec_ok s \<Longrightarrow> 1 \<le> v \<Longrightarrow> v < ts_current s \<Longrightarrow> \<exists>up. map_of (ts_upcasters s) v = Some up"
  by (auto simp: spec_ok_def)

lemma built_ok: "built r \<Longrightarrow> registry_ok r"
proof (induction rule: built.induct)
  case built_new
  then show ?case by (simp add: registry_ok_def)
next
  case (built_register r name current ups r')
  have new: "0 < current" "fst ` set ups = {v. 1 \<le> v \<and> v < current}"
      "r' = ains name \<lparr>ts_current = current, ts_upcasters = collect_upcasters ups\<rparr> r"
    using built_register.hyps(2) unfolding register_Inr_iff by - (elim conjE, assumption)+
  have "map_of (collect_upcasters ups) v \<noteq> None \<longleftrightarrow> 1 \<le> v \<and> v < current" for v
    using new(2) unfolding map_of_collect_upcasters map_of_eq_None_iff by auto
  then have "spec_ok \<lparr>ts_current = current, ts_upcasters = collect_upcasters ups\<rparr>"
    using new(1) by (simp add: spec_ok_def)
  with built_register.IH show ?case by (auto simp: registry_ok_def new(3) akeys_sorted_ains split: if_splits)
qed

lemma built_spec: "built r \<Longrightarrow> map_of r name = Some s \<Longrightarrow> spec_ok s"
  using built_ok unfolding registry_ok_def by metis

lemma built_register_all: "built r \<Longrightarrow> register_all types r = Inr r' \<Longrightarrow> built r'"
proof (induction types arbitrary: r)
  case Nil
  then show ?case by simp
next
  case (Cons t types)
  obtain name version where t: "t = (name, version)" by fastforce
  from Cons.prems(2) obtain r1 where "register name version [] r = Inr r1" "register_all types r1 = Inr r'"
    by (auto simp: t result_simps)
  with Cons.IH Cons.prems(1) show ?case by (blast intro: built_register)
qed

text \<open>The upcasters one after the other, as a function of the version.\<close>

lemma upcast_answers:
  "spec_ok s \<Longrightarrow> 1 \<le> v \<Longrightarrow> (\<exists>res. upcast e s (versions v (ts_current s)) body = Some res)"
proof -
  have "(\<forall>v \<in> set vs. \<exists>up. map_of (ts_upcasters s) v = Some up) \<Longrightarrow> \<exists>res. upcast e s vs body = Some res" for vs
  proof (induction vs arbitrary: body)
    case Nil
    then show ?case by simp
  next
    case (Cons v vs)
    then obtain up where "map_of (ts_upcasters s) v = Some up" by auto
    with Cons show ?case by (cases "up body") auto
  qed
  moreover assume "spec_ok s" "1 \<le> v"
  then have "\<forall>x \<in> set (versions v (ts_current s)). \<exists>up. map_of (ts_upcasters s) x = Some up"
    using spec_okD [of s] order_trans [of 1 v] by (auto simp: set_versions)
  ultimately show ?thesis by blast
qed

lemma upcast_refusal:
  "upcast e s vs body = Some (Inl f) \<Longrightarrow> \<exists>from error. from \<in> set vs \<and> f = fence_of e (UpcastFailed (type_name e) from error)"
  by (induction vs arbitrary: body) (fastforce split: option.splits sum.splits)+

lemma pos_version: "(v :: u32) \<noteq> 0 \<Longrightarrow> 1 \<le> v"
  by (simp add: word_le_nat_alt unat_eq_0 [symmetric])

lemma upcast_frame: "upcast (e\<lparr>type_version := v, payload := p\<rparr>) s vs body = upcast e s vs body"
  by (induction vs arbitrary: body) (auto simp: fence_of_def split: option.split sum.split)

lemma registry_read_res:
  assumes "built r"
  shows "\<exists>res. registry_read r e = Some res \<and>
     (case res of
        Inr c \<Rightarrow> registry_reads r (type_name e) (type_version e) \<and> cur_type_name c = type_name e
                 \<and> current_version r (type_name e) = Some (cur_version c)
      | Inl f \<Rightarrow> fence_project f = project_id e \<and> fence_seq f = seq e \<and>
          (case fence_reason f of
             UnknownType type \<Rightarrow> type = type_name e \<and> current_version r type = None
           | UnknownVersion type version current \<Rightarrow> type = type_name e \<and> version = type_version e
               \<and> current_version r type = Some current \<and> (version = 0 \<or> current < version)
           | UpcastFailed type from error \<Rightarrow> type = type_name e \<and> registry_reads r type (type_version e)
               \<and> type_version e \<le> from \<and> (\<exists>current. current_version r type = Some current \<and> from < current)))"
proof (cases "map_of r (type_name e)")
  case None
  then show ?thesis by (simp add: registry_read_def fence_of_def current_version_def)
next
  case (Some s)
  show ?thesis
  proof (cases "type_version e = 0 \<or> ts_current s < type_version e")
    case True
    with Some show ?thesis by (simp add: registry_read_def fence_of_def current_version_def)
  next
    case False
    then have v: "1 \<le> type_version e" "type_version e \<le> ts_current s"
      using pos_version by (auto simp: not_less)
    obtain res where res: "upcast e s (versions (type_version e) (ts_current s)) (payload e) = Some res"
      using upcast_answers [OF built_spec [OF assms Some] v(1)] by blast
    show ?thesis
    proof (cases res)
      case (Inr body)
      with Some False v res show ?thesis
        by (simp add: registry_read_def current_version_def registry_reads_def)
    next
      case (Inl f)
      with res obtain from' error where f: "from' \<in> set (versions (type_version e) (ts_current s))"
        "f = fence_of e (UpcastFailed (type_name e) from' error)" using upcast_refusal by blast
      with Inl Some False v res show ?thesis
        by (simp add: registry_read_def current_version_def registry_reads_def fence_of_def set_versions)
    qed
  qed
qed

text \<open>
  Reading, stated without the loop.  \<open>upcasts s v body w mid\<close>: the upcasters of the versions from \<open>v\<close> on,
  each applied to what the one before wrote, make \<open>mid\<close> of \<open>body\<close> at version \<open>w\<close>.  \<open>reads_to r e res\<close>:
  the event reads as the current shape at the end of that chain, or is fenced for an unknown type,
  a version out of range, or by the upcaster the chain stops at, with its error.
\<close>

inductive upcasts :: "type_spec \<Rightarrow> u32 \<Rightarrow> json \<Rightarrow> u32 \<Rightarrow> json \<Rightarrow> bool" for s v body where
  upcasts_recorded: "upcasts s v body v body"
| upcasts_next: "upcasts s v body w mid \<Longrightarrow> w < ts_current s \<Longrightarrow> map_of (ts_upcasters s) w = Some up \<Longrightarrow> up mid = Inr after
    \<Longrightarrow> upcasts s v body (w + 1) after"

inductive reads_to :: "registry \<Rightarrow> event \<Rightarrow> fence + current \<Rightarrow> bool" for r e where
  reads_unknown: "map_of r (type_name e) = None \<Longrightarrow> reads_to r e (Inl (fence_of e (UnknownType (type_name e))))"
| reads_version: "map_of r (type_name e) = Some s \<Longrightarrow> type_version e = 0 \<or> ts_current s < type_version e
    \<Longrightarrow> reads_to r e (Inl (fence_of e (UnknownVersion (type_name e) (type_version e) (ts_current s))))"
| reads_refused: "map_of r (type_name e) = Some s \<Longrightarrow> 1 \<le> type_version e \<Longrightarrow> type_version e \<le> w \<Longrightarrow> w < ts_current s
    \<Longrightarrow> upcasts s (type_version e) (payload e) w mid \<Longrightarrow> map_of (ts_upcasters s) w = Some up \<Longrightarrow> up mid = Inl error
    \<Longrightarrow> reads_to r e (Inl (fence_of e (UpcastFailed (type_name e) w error)))"
| reads_current: "map_of r (type_name e) = Some s \<Longrightarrow> 1 \<le> type_version e \<Longrightarrow> type_version e \<le> ts_current s
    \<Longrightarrow> upcasts s (type_version e) (payload e) (ts_current s) after
    \<Longrightarrow> reads_to r e (Inr \<lparr>cur_type_name = type_name e, cur_version = ts_current s, cur_payload = after\<rparr>)"

inductive_cases reads_to_currentE: "reads_to r e (Inr c)"

lemma upcast_chain:
  assumes "upcasts s v body w mid" "w \<le> ts_current s" "upcast e s (versions w (ts_current s)) mid = Some res"
  shows "case res of
      Inr after \<Rightarrow> upcasts s v body (ts_current s) after
    | Inl f \<Rightarrow> \<exists>x mid up error. w \<le> x \<and> x < ts_current s \<and> upcasts s v body x mid \<and> map_of (ts_upcasters s) x = Some up
        \<and> up mid = Inl error \<and> f = fence_of e (UpcastFailed (type_name e) x error)"
  using assms
proof (induction "unat (ts_current s) - unat w" arbitrary: w mid rule: less_induct)
  case less
  show ?case
  proof (cases "w = ts_current s")
    case True
    with less.prems show ?thesis by (auto split: sum.split)
  next
    case False
    with less.prems(2) have lt: "w < ts_current s" by simp
    then have "w \<noteq> - 1" by (metis not_less word_n1_ge)
    then have succ: "unat (w + 1) = unat w + 1" by (rule unat_succ_word)
    have small: "unat w < unat (ts_current s)" using lt by (simp add: word_less_nat_alt)
    from less.prems(3) obtain up where up: "map_of (ts_upcasters s) w = Some up"
      by (cases "map_of (ts_upcasters s) w") (auto simp: versions_step [OF lt])
    show ?thesis
    proof (cases "up mid")
      case (Inl error)
      with less.prems(3) up have "res = Inl (fence_of e (UpcastFailed (type_name e) w error))" by (simp add: versions_step [OF lt])
      moreover have "w \<le> w" by simp
      ultimately show ?thesis using less.prems(1) up lt Inl by (simp only: sum.case) blast
    next
      case (Inr after)
      have le: "w + 1 \<le> ts_current s" "w \<le> w + 1" using small succ by (simp_all add: word_le_nat_alt)
      have "case res of
          Inr after \<Rightarrow> upcasts s v body (ts_current s) after
        | Inl f \<Rightarrow> \<exists>x mid up error. w + 1 \<le> x \<and> x < ts_current s \<and> upcasts s v body x mid \<and> map_of (ts_upcasters s) x = Some up
            \<and> up mid = Inl error \<and> f = fence_of e (UpcastFailed (type_name e) x error)"
        using less.prems(3) Inr up small succ le(1)
        by (intro less.hyps [of "w + 1" after]) (auto simp: versions_step [OF lt] intro: upcasts_next [OF less.prems(1) lt])
      then show ?thesis by (cases res) (use le(2) in \<open>auto intro: order_trans\<close>)
    qed
  qed
qed

lemma registry_read_to:
  assumes "built r"
  shows "\<exists>res. registry_read r e = Some res \<and> reads_to r e res"
proof (cases "map_of r (type_name e)")
  case None
  then show ?thesis by (simp add: registry_read_def reads_unknown)
next
  case (Some s)
  show ?thesis
  proof (cases "type_version e = 0 \<or> ts_current s < type_version e")
    case True
    with Some show ?thesis by (simp add: registry_read_def reads_version)
  next
    case False
    then have v: "1 \<le> type_version e" "type_version e \<le> ts_current s" using pos_version by (auto simp: not_less)
    obtain res where res: "upcast e s (versions (type_version e) (ts_current s)) (payload e) = Some res"
      using upcast_answers [OF built_spec [OF assms Some] v(1)] by blast
    show ?thesis
    proof (cases res)
      case (Inr after)
      with upcast_chain [OF upcasts_recorded v(2) res] Some False v res show ?thesis
        by (simp add: registry_read_def reads_current)
    next
      case (Inl f)
      with upcast_chain [OF upcasts_recorded v(2) res] Some v have "reads_to r e (Inl f)" by (auto intro: reads_refused)
      with Inl Some False res show ?thesis by (simp add: registry_read_def)
    qed
  qed
qed

text \<open>On a registry built by accepted registrations reading never panics, and it answers what the
  chain of upcasters gives: the payload they write one after the other from the recorded one, at
  the type's current version, or the fence with the exact reason: an unknown type, a version the
  registry does not read, or the error of the upcaster that refused what the ones before it wrote.\<close>

theorem registry_read_total:
  assumes "built r"
  shows "\<exists>res. registry_read r e = Some res \<and> reads_to r e res"
  using assms by (rule registry_read_to)

text \<open>C36: An event at an older version reads as the event one version up whose payload its upcaster
  wrote, fences where that upcaster refuses, and at the current version reads as recorded.\<close>

theorem registry_read_upcasts:
  assumes "built r" "map_of r (type_name e) = Some s" "1 \<le> type_version e" "type_version e \<le> ts_current s"
  shows "registry_read r e =
     (if type_version e = ts_current s
      then Some (Inr \<lparr>cur_type_name = type_name e, cur_version = ts_current s, cur_payload = payload e\<rparr>)
      else (case map_of (ts_upcasters s) (type_version e) of
              None \<Rightarrow> None
            | Some up \<Rightarrow>
                (case up (payload e) of
                   Inl error \<Rightarrow> Some (Inl \<lparr>fence_project = project_id e, fence_seq = seq e,
                                  fence_reason = UpcastFailed (type_name e) (type_version e) error\<rparr>)
                 | Inr next \<Rightarrow> registry_read r (e\<lparr>type_version := type_version e + 1, payload := next\<rparr>))))
     \<and> (type_version e < ts_current s \<longrightarrow> map_of (ts_upcasters s) (type_version e) \<noteq> None)"
proof -
  let ?v = "type_version e" and ?c = "ts_current s"
  have nz: "?v \<noteq> 0" using assms(3) by auto
  have up: "\<exists>up. map_of (ts_upcasters s) ?v = Some up" if "?v < ?c"
    using spec_okD [OF built_spec [OF assms(1,2)] assms(3) that] .
  show ?thesis
  proof (cases "?v = ?c")
    case True
    with assms nz show ?thesis by (simp add: registry_read_def)
  next
    case False
    with assms(4) have lt: "?v < ?c" by simp
    obtain u where u: "map_of (ts_upcasters s) ?v = Some u" using up [OF lt] ..
    have small: "unat ?v < unat ?c" using lt by (simp add: word_less_nat_alt)
    have "?v \<noteq> - 1" using lt by (metis not_less word_n1_ge)
    then have succ: "unat (?v + 1) = unat ?v + 1" by (rule unat_succ_word)
    have le: "?v + 1 \<le> ?c" using small succ by (simp add: word_le_nat_alt)
    have nz1: "?v + 1 \<noteq> 0" using succ by (metis add_is_0 one_neq_zero unat_0)
    have "registry_read r e =
       (case u (payload e) of
          Inl error \<Rightarrow> Some (Inl \<lparr>fence_project = project_id e, fence_seq = seq e,
                         fence_reason = UpcastFailed (type_name e) ?v error\<rparr>)
        | Inr next \<Rightarrow> registry_read r (e\<lparr>type_version := ?v + 1, payload := next\<rparr>))"
      using nz nz1 leD [OF assms(4)] leD [OF le]
      by (simp add: registry_read_def assms(2) u versions_step [OF lt] upcast_frame fence_of_def split: sum.split)
    with False u show ?thesis by simp
  qed
qed

lemma registry_read_reads:
  assumes "built r" "registry_read r e = Some (Inr c)"
  shows "registry_reads r (type_name e) (type_version e)"
  using registry_read_res [OF assms(1), of e] assms(2) by auto

section \<open>The projects to fence\<close>

text \<open>The event a fence names.\<close>

definition fenced_by :: "registry \<Rightarrow> event \<Rightarrow> fence \<Rightarrow> bool" where
  "fenced_by r e f \<longleftrightarrow> registry_read r e = Some (Inl f)"

lemma built_fence:
  assumes "built r" "fenced_by r e f"
  shows "fence_project f = project_id e" "fence_seq f = seq e"
  using registry_read_res [OF assms(1), of e] assms(2) by (auto simp: fenced_by_def)

text \<open>The fences so far hold the lowest unreadable event of each project among those seen.\<close>

definition lowest_fences :: "registry \<Rightarrow> event set \<Rightarrow> (project_id \<times> fence) list \<Rightarrow> bool" where
  "lowest_fences r seen m \<longleftrightarrow>
     (\<forall>p f. map_of m p = Some f \<longrightarrow> (\<exists>e \<in> seen. project_id e = p \<and> fenced_by r e f))
   \<and> (\<forall>e f. e \<in> seen \<longrightarrow> fenced_by r e f \<longrightarrow> (\<exists>g. map_of m (project_id e) = Some g \<and> fence_seq g \<le> seq e))"

lemma lowest_skip:
  assumes "lowest_fences r seen m" "map_of m (project_id e) = Some g" "fence_seq g \<le> seq e"
  shows "lowest_fences r (insert e seen) m"
  using assms unfolding lowest_fences_def by (metis insert_iff)

lemma lowest_read:
  assumes "lowest_fences r seen m" "registry_read r e = Some (Inr c)"
  shows "lowest_fences r (insert e seen) m"
  using assms unfolding lowest_fences_def fenced_by_def by (metis insert_iff old.sum.distinct(1) option.inject)

lemma lowest_fence:
  assumes "built r" "lowest_fences r seen m" "fenced_by r e f"
    and fresh: "\<And>g. map_of m (project_id e) = Some g \<Longrightarrow> \<not> fence_seq g \<le> seq e"
  shows "lowest_fences r (insert e seen) (ains (project_id e) f m)"
  unfolding lowest_fences_def
proof (intro conjI allI impI)
  fix p g assume "map_of (ains (project_id e) f m) p = Some g"
  then show "\<exists>e' \<in> insert e seen. project_id e' = p \<and> fenced_by r e' g"
    using assms(2,3) unfolding lowest_fences_def by (auto split: if_splits)
next
  fix e' g assume e': "e' \<in> insert e seen" "fenced_by r e' g"
  show "\<exists>h. map_of (ains (project_id e) f m) (project_id e') = Some h \<and> fence_seq h \<le> seq e'"
  proof (cases "project_id e' = project_id e")
    case False
    with e' assms(2) show ?thesis unfolding lowest_fences_def by auto
  next
    case same: True
    have "seq e \<le> seq e'"
    proof (cases "e' = e")
      case False
      with e' assms(2) obtain h where "map_of m (project_id e) = Some h" "fence_seq h \<le> seq e'"
        unfolding lowest_fences_def same [symmetric] by blast
      with fresh show ?thesis by fastforce
    qed simp
    with same built_fence(2) [OF assms(1,3)] show ?thesis by simp
  qed
qed

lemma fence_events_lowest:
  assumes "built r"
  shows "lowest_fences r seen m \<Longrightarrow> \<exists>m'. fence_events r es m = Some m' \<and> lowest_fences r (seen \<union> set es) m'"
proof (induction es arbitrary: seen m)
  case Nil
  then show ?case by simp
next
  case (Cons e es)
  have insert: "seen \<union> set (e # es) = insert e seen \<union> set es" by simp
  show ?case
  proof (cases "\<exists>g. map_of m (project_id e) = Some g \<and> fence_seq g \<le> seq e")
    case True
    then obtain g where g: "map_of m (project_id e) = Some g" "fence_seq g \<le> seq e" by blast
    from Cons.IH [OF lowest_skip [OF Cons.prems g]] g show ?thesis unfolding insert by simp
  next
    case False
    then have step: "\<not> (case map_of m (project_id e) of None \<Rightarrow> False | Some f \<Rightarrow> fence_seq f \<le> seq e)"
      by (auto split: option.split)
    obtain res where res: "registry_read r e = Some res" using registry_read_res [OF assms, of e] by blast
    show ?thesis
    proof (cases res)
      case (Inr c)
      with res have read: "registry_read r e = Some (Inr c)" by simp
      from Cons.IH [OF lowest_read [OF Cons.prems read]] show ?thesis
        unfolding insert using step read by simp
    next
      case (Inl f)
      with res have read: "registry_read r e = Some (Inl f)" by simp
      have "lowest_fences r (insert e seen) (ains (project_id e) f m)"
        using lowest_fence [OF assms Cons.prems, of e f] read False by (auto simp: fenced_by_def)
      from Cons.IH [OF this] show ?thesis unfolding insert using step read by simp
    qed
  qed
qed

text \<open>C37: Where no two events of one project share a sequence, a project is fenced exactly when one of
  its events cannot be read, and by its unreadable event of the lowest sequence.\<close>

theorem fenced_projects_lowest:
  assumes "built r" and inj: "inj_on (\<lambda>e. (project_id e, seq e)) (set es)"
  shows "\<exists>m. fenced_projects r es = Some m \<and>
     (\<forall>p f. map_of m p = Some f \<longleftrightarrow>
        (\<exists>e \<in> set es. project_id e = p \<and> registry_read r e = Some (Inl f) \<and>
          (\<forall>e' \<in> set es. project_id e' = p \<and> (\<exists>g. registry_read r e' = Some (Inl g)) \<longrightarrow> seq e \<le> seq e')))"
proof -
  have "lowest_fences r {} []" by (simp add: lowest_fences_def)
  from fence_events_lowest [OF assms(1) this, of es] obtain m
    where m: "fenced_projects r es = Some m" and low: "lowest_fences r (set es) m"
    by (auto simp: fenced_projects_def)
  have held: "\<exists>e \<in> set es. project_id e = p \<and> fenced_by r e f" if "map_of m p = Some f" for p f
    using low that unfolding lowest_fences_def by blast
  have below: "\<exists>g. map_of m (project_id e) = Some g \<and> fence_seq g \<le> seq e" if "e \<in> set es" "fenced_by r e f" for e f
    using low that unfolding lowest_fences_def by blast
  have "map_of m p = Some f \<longleftrightarrow>
        (\<exists>e \<in> set es. project_id e = p \<and> fenced_by r e f \<and>
          (\<forall>e' \<in> set es. project_id e' = p \<and> (\<exists>g. fenced_by r e' g) \<longrightarrow> seq e \<le> seq e'))" for p f
  proof
    assume f: "map_of m p = Some f"
    then obtain e where e: "e \<in> set es" "project_id e = p" "fenced_by r e f" using held by blast
    have "seq e \<le> seq e'" if e': "e' \<in> set es" "project_id e' = p" "fenced_by r e' g" for e' g
      using below [OF e'(1,3)] f e'(2) built_fence(2) [OF assms(1) e(3)] by auto
    with e show "\<exists>e \<in> set es. project_id e = p \<and> fenced_by r e f \<and>
          (\<forall>e' \<in> set es. project_id e' = p \<and> (\<exists>g. fenced_by r e' g) \<longrightarrow> seq e \<le> seq e')" by blast
  next
    assume "\<exists>e \<in> set es. project_id e = p \<and> fenced_by r e f \<and>
          (\<forall>e' \<in> set es. project_id e' = p \<and> (\<exists>g. fenced_by r e' g) \<longrightarrow> seq e \<le> seq e')"
    then obtain e where e: "e \<in> set es" "project_id e = p" "fenced_by r e f"
      and least: "\<And>e' g. e' \<in> set es \<Longrightarrow> project_id e' = p \<Longrightarrow> fenced_by r e' g \<Longrightarrow> seq e \<le> seq e'" by blast
    obtain g where g: "map_of m p = Some g" "fence_seq g \<le> seq e" using below [OF e(1,3)] e(2) by blast
    obtain e' where e': "e' \<in> set es" "project_id e' = p" "fenced_by r e' g" using held [OF g(1)] by blast
    have "seq e' = seq e"
      using least [OF e'] g(2) built_fence(2) [OF assms(1) e'(3)] by simp
    with inj e e' have "e' = e" by (auto dest: inj_onD)
    with e(3) e'(3) g(1) show "map_of m p = Some f" by (simp add: fenced_by_def)
  qed
  with m show ?thesis by (simp add: fenced_by_def)
qed

section \<open>The contract of a schema\<close>

locale event_schema =
  fixes reads :: "string \<Rightarrow> u32 \<Rightarrow> bool"
    and projection :: "event \<Rightarrow> (string + u32 \<times> json) option"
  assumes answers: "\<exists>res. projection e = Some res"
    and refuses: "\<not> reads (type_name e) (type_version e) \<Longrightarrow> \<exists>why. projection e = Some (Inl why)"
begin

lemma copy_answers: "\<exists>res. projection_copy reads projection e = Some res"
  using answers [of e] by (auto simp: projection_copy_def)

lemma copy_refuses:
  assumes "\<not> store_reads reads (type_name e) (type_version e)"
  shows "\<exists>why. projection_copy reads projection e = Some (Inl why)"
proof (cases "store_owned (type_name e)")
  case True
  with assms show ?thesis by (simp add: projection_copy_def)
next
  case False
  with assms have "\<not> reads (type_name e) (type_version e)" by (simp add: store_reads_def)
  from refuses [OF this] False show ?thesis by (auto simp: projection_copy_def)
qed

lemma copy_keeps:
  "projection_copy reads projection e = Some (Inr e') \<Longrightarrow>
     \<exists>v body. e' = e\<lparr>type_version := v, payload := body\<rparr> \<and> (store_owned (type_name e) \<longrightarrow> e' = e)"
  by (auto simp: projection_copy_def result_simps split: if_splits) (metis event.surjective event.update_convs(6,13))

end

end
