(* ===== verification/Known_Types.thy ===== *)
theory Known_Types
  imports Registry
begin

text \<open>
  The event types this program registers before it opens a ledger: each area's registration
  function and the order \<open>options\<close> (\<open>baley/src/ledger/open.rs\<close>) calls them in.  Registering them is
  shown to succeed, so that none of the \<open>expect\<close> calls of \<open>options\<close> can panic, and the registry it
  gives interprets the contract of \<open>Registry\<close>.
\<close>

definition models_seeded :: string where "models_seeded = ''models.seeded''"
definition models_seeded_version :: u32 where "models_seeded_version = 1"
definition models_owner_changed :: string where "models_owner_changed = ''models.owner_changed''"
definition models_owner_changed_version :: u32 where "models_owner_changed_version = 1"
definition models_detected :: string where "models_detected = ''models.detected''"
definition models_detected_version :: u32 where "models_detected_version = 1"
definition models_detection_failed :: string where "models_detection_failed = ''models.detection_failed''"
definition models_detection_failed_version :: u32 where "models_detection_failed_version = 1"

definition register_model_events :: "registry \<Rightarrow> registry_error + registry" where
  "register_model_events = register_all
     [(models_seeded, models_seeded_version),
      (models_owner_changed, models_owner_changed_version),
      (models_detected, models_detected_version),
      (models_detection_failed, models_detection_failed_version)]"

definition policy_effective :: string where "policy_effective = ''policy.effective''"
definition policy_effective_version :: u32 where "policy_effective_version = 1"

definition register_policy_events :: "registry \<Rightarrow> registry_error + registry" where
  "register_policy_events = register_all
     [(policy_effective, policy_effective_version)]"

definition checkout_seen :: string where "checkout_seen = ''checkout.seen''"
definition checkout_seen_version :: u32 where "checkout_seen_version = 1"

definition register_checkout_events :: "registry \<Rightarrow> registry_error + registry" where
  "register_checkout_events = register_all
     [(checkout_seen, checkout_seen_version)]"

definition capture_recorded :: string where "capture_recorded = ''capture.recorded''"
definition capture_recorded_version :: u32 where "capture_recorded_version = 1"

definition register_capture_events :: "registry \<Rightarrow> registry_error + registry" where
  "register_capture_events = register_all
     [(capture_recorded, capture_recorded_version)]"

definition guard_answered :: string where "guard_answered = ''guard.answered''"
definition guard_answered_version :: u32 where "guard_answered_version = 1"
definition guard_policy_recorded :: string where "guard_policy_recorded = ''guard.policy_recorded''"
definition guard_policy_recorded_version :: u32 where "guard_policy_recorded_version = 1"

definition register_guard_events :: "registry \<Rightarrow> registry_error + registry" where
  "register_guard_events = register_all
     [(guard_answered, guard_answered_version),
      (guard_policy_recorded, guard_policy_recorded_version)]"

definition install_recorded :: string where "install_recorded = ''install.recorded''"
definition install_recorded_version :: u32 where "install_recorded_version = 1"

definition register_install_events :: "registry \<Rightarrow> registry_error + registry" where
  "register_install_events = register_all
     [(install_recorded, install_recorded_version)]"

definition update_checked :: string where "update_checked = ''update.checked''"
definition update_event_version :: u32 where "update_event_version = 1"
definition update_failed :: string where "update_failed = ''update.failed''"

definition register_update_events :: "registry \<Rightarrow> registry_error + registry" where
  "register_update_events = register_all
     [(update_checked, update_event_version),
      (update_failed, update_event_version)]"

definition providers_acknowledged :: string where "providers_acknowledged = ''providers.acknowledged''"
definition providers_acknowledged_version :: u32 where "providers_acknowledged_version = 1"

definition register_provider_events :: "registry \<Rightarrow> registry_error + registry" where
  "register_provider_events = register_all
     [(providers_acknowledged, providers_acknowledged_version)]"

definition scope_submitted :: string where "scope_submitted = ''scope.submitted''"
definition scope_submitted_version :: u32 where "scope_submitted_version = 2"
definition project_described :: string where "project_described = ''project.described''"
definition project_described_version :: u32 where "project_described_version = 1"
definition scope_approved :: string where "scope_approved = ''scope.approved''"
definition scope_approved_version :: u32 where "scope_approved_version = 1"
definition story_declared :: string where "story_declared = ''story.declared''"
definition story_declared_version :: u32 where "story_declared_version = 1"
definition phase_declared :: string where "phase_declared = ''phase.declared''"
definition phase_declared_version :: u32 where "phase_declared_version = 1"
definition phase_reordered :: string where "phase_reordered = ''phase.reordered''"
definition phase_reordered_version :: u32 where "phase_reordered_version = 1"
definition phase_withdrawn :: string where "phase_withdrawn = ''phase.withdrawn''"
definition phase_withdrawn_version :: u32 where "phase_withdrawn_version = 1"
definition story_corrected :: string where "story_corrected = ''story.corrected''"
definition story_corrected_version :: u32 where "story_corrected_version = 1"
definition story_reassigned :: string where "story_reassigned = ''story.reassigned''"
definition story_reassigned_version :: u32 where "story_reassigned_version = 1"
definition story_dropped :: string where "story_dropped = ''story.dropped''"
definition story_dropped_version :: u32 where "story_dropped_version = 1"
definition story_reprioritized :: string where "story_reprioritized = ''story.reprioritized''"
definition story_reprioritized_version :: u32 where "story_reprioritized_version = 1"

definition start_kind :: string where "start_kind = ''start''"
definition start_target :: string where "start_target = ''project''"

definition submitted_v1_to_v2 :: upcaster where
  "submitted_v1_to_v2 body =
     (case body of
        JObject m \<Rightarrow>
          if Option.bind (map_of m ''kind'') as_str \<noteq> Some start_kind
          then Inl ''only starts were recorded at version 1, and this submission is not one''
          else Inr (JObject (ains ''target'' (JString start_target) m))
      | _ \<Rightarrow> Inl ''the payload is not an object'')"

definition register_scope_events :: "registry \<Rightarrow> registry_error + registry" where
  "register_scope_events types =
     rbind (register scope_submitted scope_submitted_version [(1, submitted_v1_to_v2)] types) (register_all
     [(project_described, project_described_version),
      (scope_approved, scope_approved_version),
      (story_declared, story_declared_version),
      (phase_declared, phase_declared_version),
      (phase_reordered, phase_reordered_version),
      (phase_withdrawn, phase_withdrawn_version),
      (story_corrected, story_corrected_version),
      (story_reassigned, story_reassigned_version),
      (story_dropped, story_dropped_version),
      (story_reprioritized, story_reprioritized_version)])"

definition work_order_issued :: string where "work_order_issued = ''work_order.issued''"
definition work_order_issued_version :: u32 where "work_order_issued_version = 1"
definition work_order_failed :: string where "work_order_failed = ''work_order.failed''"
definition work_order_failed_version :: u32 where "work_order_failed_version = 1"

definition register_work_order_events :: "registry \<Rightarrow> registry_error + registry" where
  "register_work_order_events = register_all
     [(work_order_issued, work_order_issued_version),
      (work_order_failed, work_order_failed_version)]"

definition story_refined :: string where "story_refined = ''story.refined''"
definition story_refined_version :: u32 where "story_refined_version = 1"

definition register_truth_events :: "registry \<Rightarrow> registry_error + registry" where
  "register_truth_events = register_all
     [(story_refined, story_refined_version)]"

definition plan_approved :: string where "plan_approved = ''plan.approved''"
definition plan_approved_version :: u32 where "plan_approved_version = 1"
definition plan_replaced :: string where "plan_replaced = ''plan.replaced''"
definition plan_replaced_version :: u32 where "plan_replaced_version = 1"
definition plan_continuation :: string where "plan_continuation = ''plan.continuation''"
definition plan_continuation_version :: u32 where "plan_continuation_version = 1"
definition plan_continuation_followed :: string where "plan_continuation_followed = ''plan.continuation_followed''"
definition plan_continuation_followed_version :: u32 where "plan_continuation_followed_version = 1"

definition register_plan_events :: "registry \<Rightarrow> registry_error + registry" where
  "register_plan_events = register_all
     [(plan_approved, plan_approved_version),
      (plan_replaced, plan_replaced_version),
      (plan_continuation, plan_continuation_version),
      (plan_continuation_followed, plan_continuation_followed_version)]"

text \<open>The registrations of \<open>options\<close>, in order; an error is the panic of an \<open>expect\<close>.\<close>

definition known_registry :: "registry_error + registry" where
  "known_registry = foldl rbind (Inr [])
     [register_anchor_events, register_project_events, register_model_events, register_policy_events,
      register_checkout_events, register_capture_events, register_guard_events, register_install_events,
      register_update_events, register_provider_events, register_scope_events, register_work_order_events,
      register_question_events, register_truth_events, register_plan_events]"

section \<open>Registering them succeeds\<close>

lemmas known_names = anchor_pushed_def anchor_restore_acknowledged_def anchor_failed_def project_initialized_def
  questions_opened_def question_answered_def question_deferred_def questions_abandoned_def
  models_seeded_def models_owner_changed_def models_detected_def models_detection_failed_def 
policy_effective_def checkout_seen_def capture_recorded_def guard_answered_def 
guard_policy_recorded_def install_recorded_def update_checked_def update_failed_def 
providers_acknowledged_def scope_submitted_def project_described_def scope_approved_def 
story_declared_def phase_declared_def phase_reordered_def phase_withdrawn_def story_corrected_def 
story_reassigned_def story_dropped_def story_reprioritized_def work_order_issued_def 
work_order_failed_def story_refined_def plan_approved_def plan_replaced_def plan_continuation_def 
plan_continuation_followed_def

lemmas known_versions = anchor_pushed_version_def anchor_restore_acknowledged_version_def anchor_failed_version_def
  project_initialized_version_def questions_opened_version_def question_answered_version_def
  question_deferred_version_def questions_abandoned_version_def
  models_seeded_version_def models_owner_changed_version_def models_detected_version_def 
models_detection_failed_version_def policy_effective_version_def checkout_seen_version_def 
capture_recorded_version_def guard_answered_version_def guard_policy_recorded_version_def 
install_recorded_version_def update_event_version_def providers_acknowledged_version_def 
scope_submitted_version_def project_described_version_def scope_approved_version_def 
story_declared_version_def phase_declared_version_def phase_reordered_version_def 
phase_withdrawn_version_def story_corrected_version_def story_reassigned_version_def 
story_dropped_version_def story_reprioritized_version_def work_order_issued_version_def 
work_order_failed_version_def story_refined_version_def plan_approved_version_def 
plan_replaced_version_def plan_continuation_version_def plan_continuation_followed_version_def
lemma register_first:
  assumes "map_of r name = None"
  shows "register name 1 [] r = Inr (ains name \<lparr>ts_current = 1, ts_upcasters = []\<rparr> r)"
proof -
  have "fst ` set [] = {v :: u32. 1 \<le> v \<and> v < 1}" by auto
  then show ?thesis using assms by (simp add: register_Inr_iff collect_upcasters_def)
qed

lemma register_all_append: "register_all (ts @ us) r = rbind (register_all ts r) (register_all us)"
proof (induction ts arbitrary: r)
  case (Cons t ts)
  then show ?case by (cases t; cases "register (fst t) (snd t) [] r") auto
qed simp

lemma register_all_new:
  assumes "distinct (map fst ts)" "\<forall>t \<in> set ts. snd t = 1 \<and> map_of r (fst t) = None"
  shows "\<exists>r'. register_all ts r = Inr r' \<and> current_version r' = current_version r ++ map_of ts"
  using assms
proof (induction ts arbitrary: r)
  case Nil
  then show ?case by simp
next
  case (Cons t ts)
  obtain name where t: "t = (name, 1)" "map_of r name = None" using Cons.prems(2) by (cases t) auto
  let ?r = "ains name \<lparr>ts_current = 1, ts_upcasters = []\<rparr> r"
  have "\<exists>r'. register_all ts ?r = Inr r' \<and> current_version r' = current_version ?r ++ map_of ts"
    using Cons.prems by (intro Cons.IH) (auto simp: t)
  then obtain r' where r': "register_all ts ?r = Inr r'" "current_version r' = current_version ?r ++ map_of ts" by blast
  have "current_version ?r = (current_version r)(name \<mapsto> 1)"
    by (auto simp: current_version_def fun_eq_iff)
  moreover have "(current_version r)(name \<mapsto> 1) ++ map_of ts = current_version r ++ map_of (t # ts)"
    using Cons.prems(1) by (simp add: t map_add_upd_left dom_map_of_conv_image_fst)
  ultimately have "current_version r' = current_version r ++ map_of (t # ts)" using r'(2) by (simp only:)
  moreover have "register_all (t # ts) r = Inr r'" using r'(1) by (simp add: t register_first)
  ultimately show ?case by blast
qed

definition first_types :: "(string \<times> u32) list" where
  "first_types = [(anchor_pushed, 1), (anchor_restore_acknowledged, 1), (anchor_failed, 1), (project_initialized, 1),
     (models_seeded, 1), (models_owner_changed, 1), (models_detected, 1), (models_detection_failed, 1),
     (policy_effective, 1), (checkout_seen, 1), (capture_recorded, 1), (guard_answered, 1), (guard_policy_recorded, 1),
     (install_recorded, 1), (update_checked, 1), (update_failed, 1), (providers_acknowledged, 1)]"

definition later_types :: "(string \<times> u32) list" where
  "later_types = [(project_described, 1), (scope_approved, 1), (story_declared, 1), (phase_declared, 1),
     (phase_reordered, 1), (phase_withdrawn, 1), (story_corrected, 1), (story_reassigned, 1), (story_dropped, 1),
     (story_reprioritized, 1), (work_order_issued, 1), (work_order_failed, 1), (questions_opened, 1),
     (question_answered, 1), (question_deferred, 1), (questions_abandoned, 1), (story_refined, 1),
     (plan_approved, 1), (plan_replaced, 1), (plan_continuation, 1), (plan_continuation_followed, 1)]"

lemma types_distinct: "distinct (map fst first_types @ scope_submitted # map fst later_types)"
  by (simp add: first_types_def later_types_def known_names)

lemma types_not_owned: "\<forall>name \<in> set (map fst first_types @ scope_submitted # map fst later_types). \<not> store_owned name"
  by (simp add: first_types_def later_types_def known_names store_owned_def)

lemma rbind_assoc: "rbind (rbind r f) g = rbind r (\<lambda>x. rbind (f x) g)"
  by (cases r) auto

lemma register_all_curried:
  "register_all [] = Inr" "register_all ((name, version) # ts) = (\<lambda>r. rbind (register name version [] r) (register_all ts))"
  by (simp_all add: fun_eq_iff)

lemma rbind_Inr [simp]: "rbind r Inr = r"
  by (cases r) auto

lemma known_registry_eq:
  "known_registry = rbind (register_all first_types [])
     (\<lambda>r. rbind (register scope_submitted 2 [(1, submitted_v1_to_v2)] r) (register_all later_types))"
  by (simp add: known_registry_def first_types_def later_types_def register_anchor_events_def register_project_events_def
      register_model_events_def register_policy_events_def register_checkout_events_def register_capture_events_def
      register_guard_events_def register_install_events_def register_update_events_def register_provider_events_def
      register_scope_events_def register_work_order_events_def register_question_events_def register_truth_events_def
      register_plan_events_def known_versions rbind_assoc register_all_curried
      del: register_all.simps)

lemma scope_registers:
  assumes "map_of r scope_submitted = None"
  shows "\<exists>r'. register scope_submitted 2 [(1, submitted_v1_to_v2)] r = Inr r'
     \<and> current_version r' = (current_version r)(scope_submitted \<mapsto> 2)"
proof -
  have "v = 1" if "1 \<le> v" "v < 2" for v :: u32
  proof -
    have "unat v = unat (1 :: u32)" using that by (simp add: word_le_nat_alt word_less_nat_alt)
    then show ?thesis by (rule unsigned_word_eqI)
  qed
  then have "fst ` set [(1 :: u32, submitted_v1_to_v2)] = {v. 1 \<le> v \<and> v < 2}" by auto
  then show ?thesis
    unfolding register_Inr_iff using assms by (auto simp: current_version_def fun_eq_iff)
qed

lemma known_order:
  assumes "distinct (map fst xs)" "distinct (map fst zs)" "y \<notin> fst ` set xs" "y \<notin> fst ` set zs" "fst ` set xs \<inter> fst ` set zs = {}"
  shows "(map_of xs)(y \<mapsto> v) ++ map_of zs = map_of (xs @ (y, v) # zs)"
proof -
  have y: "(map_of xs)(y \<mapsto> v) ++ map_of zs = (map_of xs ++ map_of zs)(y \<mapsto> v)"
    using assms(4) by (simp add: map_add_upd_left dom_map_of_conv_image_fst)
  have "map_of xs ++ map_of zs = map_of zs ++ map_of xs"
    using assms(5) by (intro map_add_comm) (simp add: dom_map_of_conv_image_fst)
  moreover have "(map_of zs ++ map_of xs)(y \<mapsto> v) = (map_of zs)(y \<mapsto> v) ++ map_of xs"
    using assms(3) by (simp add: map_add_upd_left dom_map_of_conv_image_fst)
  ultimately show ?thesis unfolding y by simp
qed

lemma known_registry_ok:
  "\<exists>r. known_registry = Inr r \<and> built r
     \<and> current_version r = map_of (first_types @ (scope_submitted, 2) # later_types)
     \<and> (\<forall>name. current_version r name \<noteq> None \<longrightarrow> \<not> store_owned name)"
proof -
  have distinct: "distinct (map fst first_types)" "distinct (map fst later_types)"
      "scope_submitted \<notin> fst ` set first_types" "scope_submitted \<notin> fst ` set later_types"
      "fst ` set later_types \<inter> fst ` set first_types = {}"
    using types_distinct by auto
  have "\<forall>t \<in> set first_types. snd t = 1 \<and> map_of ([] :: registry) (fst t) = None" by (simp add: first_types_def)
  from register_all_new [OF distinct(1) this] obtain r1
    where r1: "register_all first_types [] = Inr r1" "current_version r1 = map_of first_types"
    by (auto simp: current_version_def fun_eq_iff map_add_def split: option.split)
  have none: "map_of r name = None \<longleftrightarrow> current_version r name = None" for r name by (simp add: current_version_def)
  have "map_of r1 scope_submitted = None"
    unfolding none r1 using distinct(3) by (simp add: map_of_eq_None_iff)
  from scope_registers [OF this] obtain r2 where r2: "register scope_submitted 2 [(1, submitted_v1_to_v2)] r1 = Inr r2"
      "current_version r2 = (map_of first_types)(scope_submitted \<mapsto> 2)" unfolding r1 by blast
  have "\<forall>t \<in> set later_types. snd t = 1" by (simp add: later_types_def)
  moreover have "map_of r2 (fst t) = None" if "t \<in> set later_types" for t
  proof -
    have t: "fst t \<in> fst ` set later_types" using that by (rule imageI)
    have "fst t \<noteq> scope_submitted" using t distinct(4) by metis
    moreover have "fst t \<notin> fst ` set first_types" using t distinct(5) by blast
    ultimately
    show ?thesis unfolding none r2 by (simp add: map_of_eq_None_iff)
  qed
  ultimately have "\<forall>t \<in> set later_types. snd t = 1 \<and> map_of r2 (fst t) = None" by blast
  from register_all_new [OF distinct(2) this] obtain r3
    where r3: "register_all later_types r2 = Inr r3" "current_version r3 = (map_of first_types)(scope_submitted \<mapsto> 2) ++ map_of later_types"
    unfolding r2 by blast
  have "built r3"
    using built_register_all [OF built_register [OF built_register_all [OF built_new r1(1)] r2(1)] r3(1)] .
  moreover have "known_registry = Inr r3" by (simp add: known_registry_eq r1 r2 r3)
  moreover have known: "current_version r3 = map_of (first_types @ (scope_submitted, 2) # later_types)"
    using types_distinct unfolding r3(2) by (intro known_order) simp_all
  moreover have "\<not> store_owned name" if "current_version r3 name \<noteq> None" for name
  proof -
    have "name \<in> fst ` set (first_types @ (scope_submitted, 2) # later_types)"
      using that unfolding known map_of_eq_None_iff by blast
    then show ?thesis using types_not_owned by auto
  qed
  ultimately show ?thesis by blast
qed

text \<open>Opening a ledger registers every type without a refusal, so no \<open>expect\<close> of \<open>options\<close> panics,
  and no registered type is one of the store's own.\<close>

theorem known_registry_builds:
  "\<exists>r. known_registry = Inr r \<and> built r
     \<and> current_version r = map_of (first_types @ (scope_submitted, 2) # later_types)
     \<and> dom (current_version r) \<subseteq> {name. \<not> store_owned name}"
  using known_registry_ok by (auto simp: dom_def)

section \<open>The store's schema\<close>

locale built_registry =
  fixes r :: registry
  assumes is_built: "built r"

sublocale built_registry \<subseteq> event_schema "registry_reads r" "registry_projection r"
proof
  show "\<exists>res. registry_projection r e = Some res" for e
    using registry_read_res [OF is_built, of e] by (auto simp: registry_projection_def)
  show "\<exists>why. registry_projection r e = Some (Inl why)" if no: "\<not> registry_reads r (type_name e) (type_version e)" for e
  proof -
    obtain res where res: "registry_read r e = Some res" using registry_read_res [OF is_built, of e] by blast
    obtain f where "res = Inl f"
    proof (cases res)
      case (Inr c)
      with registry_read_reads [OF is_built] res no show ?thesis by blast
    qed
    with res show ?thesis by (simp add: registry_projection_def)
  qed
qed

interpretation known: built_registry "projr known_registry"
proof
  show "built (projr known_registry)" using known_registry_ok by (metis sum.sel(2))
qed

interpretation defaulted: event_schema reads "default_projection reads" for reads
  by unfold_locales (auto simp: default_projection_def)

context built_registry
begin

lemma copy_total:
  "\<exists>res. projection_copy (registry_reads r) (registry_projection r) e = Some res \<and>
     (case res of
        Inl why \<Rightarrow>
          if store_owned (type_name e)
          then \<not> store_reads (registry_reads r) (type_name e) (type_version e) \<and> why = not_readable (type_name e) (type_version e)
          else \<exists>f. reads_to r e (Inl f) \<and> why = fence_display f
      | Inr e' \<Rightarrow> store_reads (registry_reads r) (type_name e) (type_version e)
          \<and> (if store_owned (type_name e) then e' = e
             else \<exists>s after. map_of r (type_name e) = Some s \<and> upcasts s (type_version e) (payload e) (ts_current s) after
                    \<and> e' = e\<lparr>type_version := ts_current s, payload := after\<rparr>))"
proof (cases "store_owned (type_name e)")
  case True
  then show ?thesis by (simp add: projection_copy_def)
next
  case False
  obtain res where res: "registry_read r e = Some res" "reads_to r e res" using registry_read_to [OF is_built] by blast
  show ?thesis
  proof (cases res)
    case (Inl f)
    with False res show ?thesis by (auto simp: projection_copy_def registry_projection_def)
  next
    case (Inr c)
    from res(2) [unfolded Inr] obtain s after where s: "map_of r (type_name e) = Some s"
      "upcasts s (type_version e) (payload e) (ts_current s) after" "cur_version c = ts_current s" "cur_payload c = after"
      by (cases rule: reads_to_currentE) auto
    have "store_reads (registry_reads r) (type_name e) (type_version e)"
      using registry_read_reads [OF is_built, of e c] res(1) Inr False by (simp add: store_reads_def)
    moreover have "projection_copy (registry_reads r) (registry_projection r) e = Some (Inr (e\<lparr>type_version := ts_current s, payload := after\<rparr>))"
      using False res(1) Inr s(3,4) by (simp add: projection_copy_def registry_projection_def)
    ultimately show ?thesis using False s(1,2) by auto
  qed
qed

end

text \<open>C38: What a projector is handed.  An event is copied only if the store reads it; a store-owned
  event is copied as recorded; any other is copied with its type's current version and the payload
  the type's upcasters write from the recorded one, step by step, and with nothing else changed.
  A refusal is reported as what it is: the version not readable, or the fence of the read.\<close>

theorem projection_copy_current:
  assumes "built r"
  shows "\<exists>res. projection_copy (registry_reads r) (registry_projection r) e = Some res \<and>
     (case res of
        Inl why \<Rightarrow>
          if store_owned (type_name e)
          then \<not> store_reads (registry_reads r) (type_name e) (type_version e) \<and> why = not_readable (type_name e) (type_version e)
          else \<exists>f. reads_to r e (Inl f) \<and> why = fence_display f
      | Inr e' \<Rightarrow> store_reads (registry_reads r) (type_name e) (type_version e)
          \<and> (if store_owned (type_name e) then e' = e
             else \<exists>s after. map_of r (type_name e) = Some s \<and> upcasts s (type_version e) (payload e) (ts_current s) after
                    \<and> e' = e\<lparr>type_version := ts_current s, payload := after\<rparr>))"
  using assms by (intro built_registry.copy_total built_registry.intro)

section \<open>Examples\<close>

definition example_registry :: registry where
  "example_registry = [(''t'', \<lparr>ts_current = 2, ts_upcasters = [(1, submitted_v1_to_v2)]\<rparr>)]"

lemma versions_1_2: "versions 1 2 = [1]"
proof -
  have "versions 1 2 = 1 # versions (1 + 1) 2" by (rule versions_step) simp
  then show ?thesis by simp
qed

lemma example_built: "built example_registry"
proof (rule built_register [OF built_new])
  show "register ''t'' 2 [(1, submitted_v1_to_v2)] [] = Inr example_registry"
    by (simp add: register_def versions_1_2 collect_upcasters_def example_registry_def word_le_nat_alt)
qed

definition old_event :: event where
  "old_event = example_event 1 ''t'' (JObject [(''kind'', JString ''start'')])"

lemma old_event_fields:
  "type_name old_event = ''t''" "type_version old_event = 1" "project_id old_event = ''p''" "seq old_event = 1"
  "payload old_event = JObject [(''kind'', JString ''start'')]"
  by (simp_all add: old_event_def example_event_def example_draft_def place_def)

lemma old_event_read:
  "registry_read example_registry old_event = Some (Inr \<lparr>cur_type_name = ''t'', cur_version = 2,
     cur_payload = JObject [(''kind'', JString ''start''), (''target'', JString ''project'')]\<rparr>)"
  by (simp add: example_registry_def registry_read_def old_event_fields versions_1_2
    submitted_v1_to_v2_def start_kind_def start_target_def word_less_nat_alt)

theorem registry_read_total_witness:
  "reads_to example_registry old_event (Inr \<lparr>cur_type_name = ''t'', cur_version = 2,
     cur_payload = JObject [(''kind'', JString ''start''), (''target'', JString ''project'')]\<rparr>)"
  using registry_read_total [OF example_built, of old_event] by (simp add: old_event_read)

theorem registry_read_upcasts_witness:
  "registry_read example_registry old_event =
     registry_read example_registry (old_event\<lparr>type_version := 2,
       payload := JObject [(''kind'', JString ''start''), (''target'', JString ''project'')]\<rparr>)"
  using registry_read_upcasts [OF example_built, of old_event]
  by (simp add: example_registry_def old_event_fields submitted_v1_to_v2_def start_kind_def start_target_def
      word_le_nat_alt)

theorem projection_copy_current_witness:
  "projection_copy (registry_reads example_registry) (registry_projection example_registry) old_event =
     Some (Inr (old_event\<lparr>type_version := 2,
       payload := JObject [(''kind'', JString ''start''), (''target'', JString ''project'')]\<rparr>))
   \<and> store_reads (registry_reads example_registry) ''t'' 1
   \<and> (\<exists>s. upcasts s 1 (JObject [(''kind'', JString ''start'')]) 2
        (JObject [(''kind'', JString ''start''), (''target'', JString ''project'')]))"
proof -
  let ?after = "JObject [(''kind'', JString ''start''), (''target'', JString ''project'')]"
  have owned: "\<not> store_owned ''t''" by (simp add: store_owned_def)
  have copy: "projection_copy (registry_reads example_registry) (registry_projection example_registry) old_event =
     Some (Inr (old_event\<lparr>type_version := 2, payload := ?after\<rparr>))"
    by (simp add: projection_copy_def owned old_event_fields registry_projection_def old_event_read)
  from projection_copy_current [OF example_built, of old_event] obtain s after where
    "store_reads (registry_reads example_registry) ''t'' 1" "upcasts s 1 (JObject [(''kind'', JString ''start'')]) (ts_current s) after"
    "old_event\<lparr>type_version := 2, payload := ?after\<rparr> = old_event\<lparr>type_version := ts_current s, payload := after\<rparr>"
    by (auto simp: copy owned old_event_fields)
  moreover from arg_cong [OF this(3), of type_version] arg_cong [OF this(3), of payload]
  have "ts_current s = 2" "after = ?after" by simp_all
  ultimately show ?thesis using copy by auto
qed

theorem fenced_projects_lowest_witness:
  "\<exists>m. fenced_projects [] [example_event 2 ''x'' JNull, example_event 1 ''y'' JNull] = Some m
     \<and> (\<exists>f. map_of m ''p'' = Some f \<and> fence_seq f = 1)"
proof -
  have inj: "inj_on (\<lambda>e. (project_id e, seq e)) (set [example_event 2 ''x'' JNull, example_event 1 ''y'' JNull])"
    by (auto simp: inj_on_def)
  have y: "registry_read [] (example_event 1 ''y'' JNull) =
      Some (Inl (fence_of (example_event 1 ''y'' JNull) (UnknownType ''y'')))" by (simp add: registry_read_def)
  from fenced_projects_lowest [OF built_new inj] obtain m
    where "fenced_projects [] [example_event 2 ''x'' JNull, example_event 1 ''y'' JNull] = Some m"
      "map_of m ''p'' = Some (fence_of (example_event 1 ''y'' JNull) (UnknownType ''y''))"
    using y by (auto simp: word_le_nat_alt)
  then show ?thesis by (auto simp: fence_of_def)
qed

end
