(* ===== verification/Store_Error.thy ===== *)
theory Store_Error
  imports Known_Types
begin

text \<open>
  What can go wrong at the ledger port (\<open>baley-store/src/error.rs\<close>) and the reports its errors carry
  (\<open>baley-store/src/ledger.rs\<close>): the store errors, the stale inputs, the refusals, and the
  comparison of the latest local anchor row with the anchor fetched from the remote.  Paths are
  text.
\<close>

record stored_anchor =
  sa_anchor :: anchor
  sa_tag :: string
  sa_pushed_at :: string

datatype stored_anchor_comparison =
    NotCompared
  | Matches
  | MissingLocal
  | LocalBehind
  | LocalAhead
  | Conflict

definition compare_stored_anchor ::
  "project_id \<Rightarrow> anchor option \<Rightarrow> stored_anchor option \<Rightarrow> stored_anchor_comparison" where
  "compare_stored_anchor project supplied stored =
     (case supplied of
        None \<Rightarrow> NotCompared
      | Some x \<Rightarrow>
          (case stored of
             None \<Rightarrow> MissingLocal
           | Some row \<Rightarrow>
               if a_seq (sa_anchor row) < a_seq x then LocalBehind
               else if a_seq x < a_seq (sa_anchor row) then LocalAhead
               else if a_hash (sa_anchor row) = a_hash x \<and> sa_tag row = anchor_tag project (a_seq x) then Matches
               else Conflict))"

datatype anchor_check =
    Remote anchor
  | RemoteAbsent
  | RemoteUnreachable
  | RemoteMalformed string
  | LocalOnly

datatype payload_fault = MissingBody hash | CorruptBody hash

record verify_report =
  vr_chain :: chain_report
  vr_payloads :: "payload_fault list"
  vr_bodies_checked :: u64
  vr_tombstones_checked :: u64
  vr_stored_anchor :: "stored_anchor option"
  vr_stored_anchor_comparison :: stored_anchor_comparison

record payload_reference =
  pf_project :: project_id
  pf_seq :: u64
  pf_hash :: hash

datatype git_fact = GitHead | GitIndex

datatype stale_input =
    StaleHead "head option" "head option"
  | StaleDocument string doc_key "u64 option" "u64 option"
  | StaleAbsence absence
  | StaleGit string git_fact string string
  | StaleClaim claim_id
  | StaleClaimActive claim_id
  | StaleStreamVersion stream_name u64 u64

datatype fault_target = HomeFolder | StoreFile

datatype home_problem =
    LinkProblem
  | NotAFolder
  | NotAFile
  | OwnerProblem u32 u32
  | ModeProblem u32 u32

record home_fault =
  hf_path :: string
  hf_target :: fault_target
  hf_problem :: home_problem

datatype refusal =
    UnsafeHome "home_fault list"
  | MissingAnchorCheck project_id
  | TargetExists string
  | ExportUnverified project_id verify_report
  | UnknownProject project_id
  | ProjectExists project_id
  | ProjectReadOnly project_id string
  | RequestDigestMismatch request_id
  | UnknownView string
  | UndeclaredIndex string string
  | MalformedKey string string
  | UnknownPayload hash
  | PayloadTombstoned hash
  | NotReducible payload_reference
  | NothingToPurge hash
  | InvalidCursor
  | InvalidEvent string
  | UnreadableType string u32
  | UnattachedPayload hash
  | UnknownClaim claim_id
  | NotClaimOwner claim_id
  | LeaseTime claim_id string string
  | AwaitingOwnerClaim claim_id
  | ScopeMismatch claim_id "string list" "string list"
  | NotOwner
  | SchemaChanged string

datatype store_error =
    Blocked block
  | Stale stale_input
  | Busy
  | ReadOnly u32
  | RefusedBy refusal
  | ProjectorError string u64 string
  | Unavailable string
  | CleanupFailed project_id u64 store_error
  | UnfinishedGeneration project_id u64
  | LiveGenerationProtected project_id u64
  | NeedsRebuild project_id

abbreviation invalid_event :: "string \<Rightarrow> store_error" where
  "invalid_event reason \<equiv> RefusedBy (InvalidEvent reason)"

text \<open>The comparison is \<open>Matches\<close> only for a row equal to the supplied anchor with that anchor's tag.\<close>

lemma compare_stored_anchor_matches:
  "compare_stored_anchor project supplied stored = Matches \<longleftrightarrow>
     (\<exists>x. supplied = Some x \<and> (\<exists>row. stored = Some row \<and> sa_anchor row = x \<and> sa_tag row = anchor_tag project (a_seq x)))"
  by (auto simp: compare_stored_anchor_def intro: anchor.equality split: option.split)

end
