(* ===== verification/View_Set.thy ===== *)
theory View_Set
  imports Store_Error
begin

text \<open>
  The declared views (\<open>ViewSet\<close> and \<open>ViewTable\<close> of \<open>baley-store-sqlite/src/view.rs\<close>): the checks a view
  spec passes before it becomes a table, the text the catalog keeps of it, its table's name, and
  the judgement of a project's live views against the declared ones.  A spec's rendering determines
  the spec, and a view and version determine the table.
\<close>

section \<open>One view\<close>

definition max_name :: nat where "max_name = 48"

definition is_lower :: "char \<Rightarrow> bool" where
  "is_lower c \<longleftrightarrow> 97 \<le> (of_char c :: nat) \<and> (of_char c :: nat) \<le> 122"

definition split_on :: "char \<Rightarrow> string \<Rightarrow> string list" where
  "split_on d s = foldr (\<lambda>c runs. if c = d then [] # runs else (c # hd runs) # tl runs) s [[]]"

definition safe_identifier :: "string \<Rightarrow> bool" where
  "safe_identifier name \<longleftrightarrow>
     length name \<le> max_name
     \<and> (case name of [] \<Rightarrow> False | c # _ \<Rightarrow> is_lower c)
     \<and> list_all (\<lambda>run. run \<noteq> [] \<and> list_all (\<lambda>c. is_lower c \<or> is_digit c) run) (split_on (CHR 0x5F) name)"

fun kind_name :: "field_kind \<Rightarrow> string" where
  "kind_name FText = ''text''"
| "kind_name FInteger = ''integer''"

fun direction :: "sort_order \<Rightarrow> string" where
  "direction Ascending = ''ASC''"
| "direction Descending = ''DESC''"

definition newline :: string where "newline = [CHR 0x0A]"

definition render_key_field :: "string \<times> field_kind \<Rightarrow> string" where
  "render_key_field f = '' '' @ fst f @ '' '' @ kind_name (snd f)"

definition render_index_field :: "string \<times> field_kind \<times> sort_order \<Rightarrow> string" where
  "render_index_field f = '' '' @ fst f @ '' '' @ kind_name (fst (snd f)) @ '' '' @ direction (snd (snd f))"

definition render_index :: "index_spec \<Rightarrow> string" where
  "render_index i = newline @ ''index '' @ ix_name i @ concat (map render_index_field (ix_fields i))"

definition render :: "view_spec \<Rightarrow> string" where
  "render s = ''view '' @ vs_name s @ '' version '' @ dec (unat (vs_version s)) @ newline @ ''key''
     @ concat (map render_key_field (vs_key s)) @ concat (map render_index (vs_indexes s))
     @ newline @ ''page_bound '' @ dec (unat (vs_page_bound s)) @ newline"

record view_schema =
  vt_spec :: view_spec
  vt_table :: string
  vt_rendered :: string
  vt_index_columns :: "(string \<times> field_kind) list"

definition physical_table :: "view_spec \<Rightarrow> string" where
  "physical_table s = ''v_'' @ vs_name s @ ''_'' @ dec (unat (vs_version s))"

text \<open>The debug form of a name, of which only its text matters here.\<close>

definition unsafe_name :: "string \<Rightarrow> string \<Rightarrow> string" where
  "unsafe_name what name = what @ '' '' @ [CHR 0x22] @ name @ [CHR 0x22]
     @ '' is not a lowercase identifier of at most '' @ dec max_name @ '' characters''"

fun check_key_fields :: "string list \<Rightarrow> (string \<times> field_kind) list \<Rightarrow> string + unit" where
  "check_key_fields seen [] = Inr ()"
| "check_key_fields seen ((name, kind) # fs) =
     (if \<not> safe_identifier name then Inl (unsafe_name ''the key field'' name)
      else if name \<in> set seen then Inl (''the key field '' @ name @ '' is declared twice'')
      else check_key_fields (name # seen) fs)"

fun check_index_fields ::
  "string \<Rightarrow> string list \<Rightarrow> (string \<times> field_kind) list \<Rightarrow> (string \<times> field_kind \<times> sort_order) list
     \<Rightarrow> string + (string \<times> field_kind) list" where
  "check_index_fields index seen columns [] = Inr columns"
| "check_index_fields index seen columns ((name, kind, order) # fs) =
     (if \<not> safe_identifier name then Inl (unsafe_name ''the index field'' name)
      else if name \<in> set seen then Inl (''the index '' @ index @ '' names '' @ name @ '' twice'')
      else (case map_of columns name of
              Some k \<Rightarrow>
                if k \<noteq> kind then Inl (''the index field '' @ name @ '' is declared with two kinds'')
                else check_index_fields index (name # seen) columns fs
            | None \<Rightarrow> check_index_fields index (name # seen) (columns @ [(name, kind)]) fs))"

fun check_indexes :: "string list \<Rightarrow> (string \<times> field_kind) list \<Rightarrow> index_spec list \<Rightarrow> string + (string \<times> field_kind) list" where
  "check_indexes seen columns [] = Inr columns"
| "check_indexes seen columns (i # is) =
     (if \<not> safe_identifier (ix_name i) then Inl (unsafe_name ''the index'' (ix_name i))
      else if ix_name i \<in> set seen then Inl (''the index '' @ ix_name i @ '' is declared twice'')
      else if ix_fields i = [] then Inl (''the index '' @ ix_name i @ '' has no fields'')
      else rbind (check_index_fields (ix_name i) [] columns (ix_fields i)) (\<lambda>cs.
             check_indexes (ix_name i # seen) cs is))"

definition view_schema_new :: "view_spec \<Rightarrow> string + view_schema" where
  "view_schema_new s =
     (if \<not> safe_identifier (vs_name s) then Inl (unsafe_name ''the view name'' (vs_name s))
      else if vs_page_bound s = 0 then Inl ''the page bound is zero''
      else rbind (check_key_fields [] (vs_key s)) (\<lambda>_.
           rbind (check_indexes [] [] (vs_indexes s)) (\<lambda>columns.
             Inr \<lparr>vt_spec = s, vt_table = physical_table s, vt_rendered = render s, vt_index_columns = columns\<rparr>)))"

section \<open>The set\<close>

record view_set =
  vset_tables :: "(string \<times> view_schema) list"
  vset_version :: u32

definition malformed :: "string \<Rightarrow> string \<Rightarrow> store_error" where
  "malformed view reason = RefusedBy (MalformedKey view reason)"

fun view_set_tables :: "view_spec list \<Rightarrow> (string \<times> view_schema) list \<Rightarrow> store_error + (string \<times> view_schema) list" where
  "view_set_tables [] views = Inr views"
| "view_set_tables (s # ss) views =
     rbind (map_err (malformed (vs_name s)) (view_schema_new s)) (\<lambda>t.
       if map_of views (vs_name s) \<noteq> None then Inl (malformed (vs_name s) ''the view is declared twice'')
       else view_set_tables ss (ains (vs_name s) t views))"

definition view_set_new :: "view_spec list \<Rightarrow> u32 \<Rightarrow> store_error + view_set" where
  "view_set_new specs version =
     rbind (view_set_tables specs []) (\<lambda>tables. Inr \<lparr>vset_tables = tables, vset_version = version\<rparr>)"

definition view_schema_of :: "view_set \<Rightarrow> string \<Rightarrow> store_error + view_schema" where
  "view_schema_of vs view = ok_or (RefusedBy (UnknownView view)) (map_of (vset_tables vs) view)"

section \<open>The judgement of live views\<close>

record stamp =
  stamp_projector :: int
  stamp_set :: int

record live_views =
  lv_generation :: "int option"
  lv_head :: u64
  lv_stamps :: "(string \<times> stamp) list"

datatype view_fence =
    FenceCurrent int
  | FenceUnstamped
  | FenceBehind
  | FenceNewer string

definition unstamped :: "live_views \<Rightarrow> view_fence" where
  "unstamped live = (if lv_head live = 0 then FenceUnstamped else FenceBehind)"

definition newer_view :: "view_schema \<Rightarrow> live_views \<Rightarrow> view_fence option" where
  "newer_view t live =
     (case map_of (lv_stamps live) (vs_name (vt_spec t)) of
        None \<Rightarrow> None
      | Some s \<Rightarrow>
          if uint (vs_version (vt_spec t)) < stamp_projector s
          then Some (FenceNewer (''its live '' @ vs_name (vt_spec t) @ '' view has projector version ''
                 @ dec (nat (stamp_projector s)) @ ''; this binary's is '' @ dec (unat (vs_version (vt_spec t)))))
          else None)"

definition judge_live_set :: "view_set \<Rightarrow> live_views \<Rightarrow> view_fence" where
  "judge_live_set vs live =
     (case lv_generation live of
        None \<Rightarrow> unstamped live
      | Some generation \<Rightarrow>
          let declared = uint (vset_version vs) in
          case find (\<lambda>s. declared < s) (map (stamp_set \<circ> snd) (lv_stamps live)) of
            Some s \<Rightarrow> FenceNewer (''its live view set version '' @ dec (nat s) @ '' is newer than this binary's ''
                        @ dec (nat declared))
          | None \<Rightarrow>
              (case List.map_filter (\<lambda>(_, t). newer_view t live) (vset_tables vs) of
                 newer # _ \<Rightarrow> newer
               | [] \<Rightarrow>
                   if list_ex (\<lambda>(view, s). stamp_set s \<noteq> declared) (lv_stamps live)
                      \<or> list_ex (\<lambda>(view, s). map_of (vset_tables vs) view = None) (lv_stamps live)
                      \<or> list_ex (\<lambda>(_, t). map_option stamp_projector (map_of (lv_stamps live) (vs_name (vt_spec t)))
                           \<noteq> Some (uint (vs_version (vt_spec t)))) (vset_tables vs)
                   then FenceBehind else FenceCurrent generation))"

definition judge_live_request :: "view_set \<Rightarrow> live_views \<Rightarrow> store_error + view_fence" where
  "judge_live_request vs live =
     (case lv_generation live of
        None \<Rightarrow> Inr (unstamped live)
      | Some generation \<Rightarrow>
          rbind (view_schema_of vs request_view) (\<lambda>t.
            case newer_view t live of
              Some newer \<Rightarrow> Inr newer
            | None \<Rightarrow>
                Inr (if map_option stamp_projector (map_of (lv_stamps live) (vs_name (vt_spec t)))
                        = Some (uint (vs_version (vt_spec t)))
                     then FenceCurrent generation else FenceBehind)))"

section \<open>What an accepted spec promises\<close>

lemma split_on_Cons: "split_on d (c # s) = (if c = d then [] # split_on d s else (c # hd (split_on d s)) # tl (split_on d s))"
  by (simp add: split_on_def)

lemma split_on_ne [simp]: "split_on d s \<noteq> []"
  by (cases s) (simp_all add: split_on_Cons, simp add: split_on_def)

lemma split_on_mem: "x \<in> set s \<Longrightarrow> x = d \<or> (\<exists>run \<in> set (split_on d s). x \<in> set run)"
proof (induction s)
  case (Cons c s)
  have "split_on d s = hd (split_on d s) # tl (split_on d s)" by simp
  then have ht: "run \<in> set (split_on d s) \<longleftrightarrow> run = hd (split_on d s) \<or> run \<in> set (tl (split_on d s))" for run
    by (metis set_ConsD list.set_intros)
  from Cons show ?case by (auto simp: split_on_Cons ht)
qed simp

lemma safe_identifier_chars:
  assumes "safe_identifier name" "c \<in> set name"
  shows "c = CHR 0x5F \<or> is_lower c \<or> is_digit c"
  using assms split_on_mem [OF assms(2), of "CHR 0x5F"] by (fastforce simp: safe_identifier_def list_all_iff)

lemma safe_identifier_plain: "safe_identifier name \<Longrightarrow> CHR 0x20 \<notin> set name \<and> CHR 0x0A \<notin> set name"
  using safe_identifier_chars [of name "CHR 0x20"] safe_identifier_chars [of name "CHR 0x0A"]
  by (auto simp: is_lower_def is_digit_def)

lemma check_key_fields_ok: "check_key_fields seen fs = Inr () \<Longrightarrow> \<forall>f \<in> set fs. safe_identifier (fst f)"
  by (induction seen fs rule: check_key_fields.induct) (auto split: if_splits)

lemma check_index_fields_ok: "check_index_fields i seen cs fs = Inr cs' \<Longrightarrow>
    (\<forall>f \<in> set fs. safe_identifier (fst f) \<and> map_of cs' (fst f) = Some (fst (snd f)))
    \<and> (\<forall>name kind. map_of cs name = Some kind \<longrightarrow> map_of cs' name = Some kind)
    \<and> (distinct (map fst cs) \<longrightarrow> distinct (map fst cs'))
    \<and> set cs' \<subseteq> set cs \<union> (\<lambda>f. (fst f, fst (snd f))) ` set fs"
proof (induction i seen cs fs arbitrary: cs' rule: check_index_fields.induct)
  case (1 i seen cs)
  then show ?case by simp
next
  case (2 i seen cs name kind order fs)
  from "2.prems" have safe: "safe_identifier name" "name \<notin> set seen" by (auto split: if_splits)
  show ?case
  proof (cases "map_of cs name")
    case None
    with "2.prems" safe have "check_index_fields i (name # seen) (cs @ [(name, kind)]) fs = Inr cs'" by simp
    from "2.IH"(1) [OF _ _ None this] safe have IH: "\<forall>f \<in> set fs. safe_identifier (fst f) \<and> map_of cs' (fst f) = Some (fst (snd f))"
      "\<forall>n k. map_of (cs @ [(name, kind)]) n = Some k \<longrightarrow> map_of cs' n = Some k"
      "distinct (map fst (cs @ [(name, kind)])) \<longrightarrow> distinct (map fst cs')"
      "set cs' \<subseteq> set (cs @ [(name, kind)]) \<union> (\<lambda>f. (fst f, fst (snd f))) ` set fs" by simp_all
    have "map_of (cs @ [(name, kind)]) name = Some kind" using None by (simp add: map_add_def)
    then have "map_of cs' name = Some kind" using IH(2) by blast
    moreover have "\<forall>n k. map_of cs n = Some k \<longrightarrow> map_of cs' n = Some k"
    proof (intro allI impI)
      fix n k assume "map_of cs n = Some k"
      then have "map_of (cs @ [(name, kind)]) n = Some k" using None by (cases "n = name") (simp_all add: map_add_def)
      with IH(2) show "map_of cs' n = Some k" by blast
    qed
    moreover have "distinct (map fst cs) \<longrightarrow> distinct (map fst cs')"
      using IH(3) None by (auto simp: map_of_eq_None_iff)
    ultimately show ?thesis using IH(1,4) safe by auto
  next
    case (Some k)
    with "2.prems" safe have k: "k = kind" "check_index_fields i (name # seen) cs fs = Inr cs'" by (auto split: if_splits)
    from "2.IH"(2) [OF _ _ Some _ k(2)] safe k(1) Some show ?thesis by auto
  qed
qed

lemma check_indexes_ok: "check_indexes seen cs is = Inr cs' \<Longrightarrow>
    (\<forall>i \<in> set is. safe_identifier (ix_name i) \<and> (\<forall>f \<in> set (ix_fields i). safe_identifier (fst f) \<and> map_of cs' (fst f) = Some (fst (snd f))))
    \<and> (\<forall>name kind. map_of cs name = Some kind \<longrightarrow> map_of cs' name = Some kind)
    \<and> (distinct (map fst cs) \<longrightarrow> distinct (map fst cs'))
    \<and> set cs' \<subseteq> set cs \<union> (\<lambda>f. (fst f, fst (snd f))) ` set (concat (map ix_fields is))"
proof (induction seen cs "is" arbitrary: cs' rule: check_indexes.induct)
  case (1 seen cs)
  then show ?case by simp
next
  case (2 seen cs i "is")
  from 2(2) have g: "safe_identifier (ix_name i)" "ix_name i \<notin> set seen" "ix_fields i \<noteq> []" by (auto split: if_splits)
  with 2(2) obtain c1 where c1: "check_index_fields (ix_name i) [] cs (ix_fields i) = Inr c1"
      "check_indexes (ix_name i # seen) c1 is = Inr cs'"
    by (auto simp: result_simps)
  note a = check_index_fields_ok [OF c1(1)]
  from 2(1) [OF _ _ _ c1(2)] g have b: "\<forall>i \<in> set is. safe_identifier (ix_name i) \<and> (\<forall>f \<in> set (ix_fields i). safe_identifier (fst f) \<and> map_of cs' (fst f) = Some (fst (snd f)))"
    "\<forall>n k. map_of c1 n = Some k \<longrightarrow> map_of cs' n = Some k" "distinct (map fst c1) \<longrightarrow> distinct (map fst cs')"
    "set cs' \<subseteq> set c1 \<union> (\<lambda>f. (fst f, fst (snd f))) ` set (concat (map ix_fields is))" by simp_all
  have "\<forall>f \<in> set (ix_fields i). safe_identifier (fst f) \<and> map_of cs' (fst f) = Some (fst (snd f))"
    using a b(2) by blast
  moreover have "set cs' \<subseteq> set cs \<union> (\<lambda>f. (fst f, fst (snd f))) ` set (concat (map ix_fields (i # is)))"
  proof -
    have "set c1 \<subseteq> set cs \<union> (\<lambda>f. (fst f, fst (snd f))) ` set (ix_fields i)" using a by blast
    then show ?thesis using b(4) unfolding list.map concat.simps set_append image_Un by blast
  qed
  moreover have "\<forall>n k. map_of cs n = Some k \<longrightarrow> map_of cs' n = Some k" using a b(2) by blast
  ultimately show ?case using a b(1,3) g(1) by simp
qed

definition spec_named :: "view_spec \<Rightarrow> bool" where
  "spec_named s \<longleftrightarrow> safe_identifier (vs_name s) \<and> (\<forall>f \<in> set (vs_key s). safe_identifier (fst f))
     \<and> (\<forall>i \<in> set (vs_indexes s). safe_identifier (ix_name i) \<and> (\<forall>f \<in> set (ix_fields i). safe_identifier (fst f)))"

lemma view_schema_newD:
  assumes "view_schema_new s = Inr t"
  shows "spec_named s" "vt_spec t = s" "vt_rendered t = render s" "vt_table t = physical_table s"
    "distinct (map fst (vt_index_columns t))" "set (vt_index_columns t) = set (index_columns s)"
proof -
  obtain columns where c: "safe_identifier (vs_name s)" "check_key_fields [] (vs_key s) = Inr ()"
      "check_indexes [] [] (vs_indexes s) = Inr columns"
      "t = \<lparr>vt_spec = s, vt_table = physical_table s, vt_rendered = render s, vt_index_columns = columns\<rparr>"
    using assms by (auto simp: view_schema_new_def result_simps split: if_splits)
  note k = check_key_fields_ok [OF c(2)] and i = check_indexes_ok [OF c(3)]
  show "spec_named s" using c(1) k i by (auto simp: spec_named_def)
  show "vt_spec t = s" "vt_rendered t = render s" "vt_table t = physical_table s" by (simp_all add: c(4))
  show "distinct (map fst (vt_index_columns t))" using i by (simp add: c(4))
  have "set columns \<subseteq> (\<lambda>f. (fst f, fst (snd f))) ` set (concat (map ix_fields (vs_indexes s)))" using i by simp
  moreover have "(\<lambda>f. (fst f, fst (snd f))) ` set (concat (map ix_fields (vs_indexes s))) \<subseteq> set columns"
    using i by (fastforce dest: map_of_SomeD)
  moreover have "(\<lambda>f. (fst f, fst (snd f))) ` set (concat (map ix_fields (vs_indexes s))) = set (index_columns s)"
    unfolding index_columns_def by (simp add: case_prod_unfold)
  ultimately show "set (vt_index_columns t) = set (index_columns s)" by (simp add: c(4))
qed

section \<open>A rendering determines its spec\<close>

lemma split_at:
  assumes "a @ c # x = b @ c # y" "c \<notin> set a" "c \<notin> set b"
  shows "a = b \<and> x = y"
  using assms
proof (induction a arbitrary: b)
  case Nil
  then show ?case by (cases b) auto
next
  case (Cons d a)
  then show ?case by (cases b) auto
qed

lemma lines_inject:
  "concat (map (\<lambda>l. l @ [c]) xs) = concat (map (\<lambda>l. l @ [c]) ys) \<Longrightarrow>
     \<forall>l \<in> set xs. c \<notin> set l \<Longrightarrow> \<forall>l \<in> set ys. c \<notin> set l \<Longrightarrow> xs = ys"
proof (induction xs arbitrary: ys)
  case Nil
  then show ?case by (cases ys) auto
next
  case (Cons l xs)
  then obtain m ys' where ys: "ys = m # ys'" by (cases ys) auto
  from Cons.prems(1) have "l @ c # concat (map (\<lambda>l. l @ [c]) xs) = m @ c # concat (map (\<lambda>l. l @ [c]) ys')"
    by (simp add: ys)
  from split_at [OF this] Cons.prems(2,3) have "l = m" "concat (map (\<lambda>l. l @ [c]) xs) = concat (map (\<lambda>l. l @ [c]) ys')"
    by (auto simp: ys)
  with Cons.IH [of ys'] Cons.prems(2,3) show ?case by (simp add: ys)
qed

lemma words_lines: "concat (map ((#) c) ws) @ [c] = c # concat (map (\<lambda>w. w @ [c]) ws)"
  by (induction ws) auto

lemma words_inject:
  assumes "concat (map ((#) c) xs) = concat (map ((#) c) ys)" "\<forall>w \<in> set xs. c \<notin> set w" "\<forall>w \<in> set ys. c \<notin> set w"
  shows "xs = ys"
  using assms words_lines [of c xs] words_lines [of c ys] by (intro lines_inject [of c]) auto

definition key_words :: "(string \<times> field_kind) list \<Rightarrow> string list" where
  "key_words fs = concat (map (\<lambda>f. [fst f, kind_name (snd f)]) fs)"

definition index_words :: "(string \<times> field_kind \<times> sort_order) list \<Rightarrow> string list" where
  "index_words fs = concat (map (\<lambda>f. [fst f, kind_name (fst (snd f)), direction (snd (snd f))]) fs)"

lemma kind_name_inject: "kind_name a = kind_name b \<longleftrightarrow> a = b"
  by (cases a; cases b) simp_all

lemma direction_inject: "direction a = direction b \<longleftrightarrow> a = b"
  by (cases a; cases b) simp_all

lemma key_words_inject: "key_words a = key_words b \<Longrightarrow> a = b"
proof (induction a arbitrary: b)
  case Nil
  then show ?case by (cases b) (auto simp: key_words_def)
next
  case (Cons f a)
  then show ?case by (cases b) (auto simp: key_words_def kind_name_inject prod_eq_iff)
qed

lemma index_words_inject: "index_words a = index_words b \<Longrightarrow> a = b"
proof (induction a arbitrary: b)
  case Nil
  then show ?case by (cases b) (auto simp: index_words_def)
next
  case (Cons f a)
  then show ?case by (cases b) (auto simp: index_words_def kind_name_inject direction_inject prod_eq_iff)
qed

definition key_line :: "view_spec \<Rightarrow> string" where
  "key_line s = ''key'' @ concat (map ((#) (CHR 0x20)) (key_words (vs_key s)))"

definition index_line :: "index_spec \<Rightarrow> string" where
  "index_line i = ''index'' @ concat (map ((#) (CHR 0x20)) (ix_name i # index_words (ix_fields i)))"

definition head_line :: "view_spec \<Rightarrow> string" where
  "head_line s = ''view '' @ vs_name s @ CHR 0x20 # ''version '' @ dec (unat (vs_version s))"

definition bound_line :: "view_spec \<Rightarrow> string" where
  "bound_line s = ''page_bound '' @ dec (unat (vs_page_bound s))"

definition render_lines :: "view_spec \<Rightarrow> string list" where
  "render_lines s = [head_line s, key_line s] @ map index_line (vs_indexes s) @ [bound_line s]"

lemma render_key_words: "concat (map render_key_field fs) = concat (map ((#) (CHR 0x20)) (key_words fs))"
  by (induction fs) (simp_all add: render_key_field_def key_words_def)

lemma render_index_words: "concat (map render_index_field fs) = concat (map ((#) (CHR 0x20)) (index_words fs))"
  by (induction fs) (simp_all add: render_index_field_def index_words_def)

lemma render_index_lines:
  "concat (map render_index is) @ newline = newline @ concat (map (\<lambda>l. l @ newline) (map index_line is))"
  by (induction "is") (simp_all add: render_index_def index_line_def render_index_words newline_def)

lemma render_eq: "render s = concat (map (\<lambda>l. l @ [CHR 0x0A]) (render_lines s))"
proof -
  have "render s = head_line s @ newline @ key_line s @ (concat (map render_index (vs_indexes s)) @ newline)
      @ bound_line s @ newline"
    by (simp add: render_def head_line_def key_line_def bound_line_def render_key_words)
  also have "\<dots> = concat (map (\<lambda>l. l @ newline) (render_lines s))"
    unfolding render_index_lines render_lines_def by simp
  finally show ?thesis unfolding newline_def .
qed

lemma kind_direction_plain:
  "CHR 0x20 \<notin> set (kind_name k)" "CHR 0x0A \<notin> set (kind_name k)" "CHR 0x20 \<notin> set (direction d)" "CHR 0x0A \<notin> set (direction d)"
  by (cases k; simp)+ (cases d; simp)+

lemma dec_plain: "CHR 0x20 \<notin> set (dec n)" "CHR 0x0A \<notin> set (dec n)"
  using dec_digit_mem [of "CHR 0x20" n] dec_digit_mem [of "CHR 0x0A" n] by (auto simp: is_digit_def)

lemma spec_named_words:
  assumes "spec_named s"
  shows "\<forall>w \<in> set (key_words (vs_key s)). CHR 0x20 \<notin> set w \<and> CHR 0x0A \<notin> set w"
    "\<forall>i \<in> set (vs_indexes s). \<forall>w \<in> set (ix_name i # index_words (ix_fields i)). CHR 0x20 \<notin> set w \<and> CHR 0x0A \<notin> set w"
proof -
  have plain: "\<And>f. f \<in> set (vs_key s) \<Longrightarrow> CHR 0x20 \<notin> set (fst f) \<and> CHR 0x0A \<notin> set (fst f)"
    "\<And>i. i \<in> set (vs_indexes s) \<Longrightarrow> CHR 0x20 \<notin> set (ix_name i) \<and> CHR 0x0A \<notin> set (ix_name i)"
    "\<And>i f. i \<in> set (vs_indexes s) \<Longrightarrow> f \<in> set (ix_fields i) \<Longrightarrow> CHR 0x20 \<notin> set (fst f) \<and> CHR 0x0A \<notin> set (fst f)"
    subgoal using assms safe_identifier_plain unfolding spec_named_def by metis
    subgoal using assms safe_identifier_plain unfolding spec_named_def by metis
    subgoal using assms safe_identifier_plain unfolding spec_named_def by metis
    done
  show "\<forall>w \<in> set (key_words (vs_key s)). CHR 0x20 \<notin> set w \<and> CHR 0x0A \<notin> set w"
  proof
    fix w assume "w \<in> set (key_words (vs_key s))"
    then obtain f where "f \<in> set (vs_key s)" "w = fst f \<or> w = kind_name (snd f)" unfolding key_words_def by auto
    then show "CHR 0x20 \<notin> set w \<and> CHR 0x0A \<notin> set w" using plain(1) kind_direction_plain(1,2) by metis
  qed
  show "\<forall>i \<in> set (vs_indexes s). \<forall>w \<in> set (ix_name i # index_words (ix_fields i)). CHR 0x20 \<notin> set w \<and> CHR 0x0A \<notin> set w"
  proof (intro ballI)
    fix i w assume i: "i \<in> set (vs_indexes s)" and "w \<in> set (ix_name i # index_words (ix_fields i))"
    then consider "w = ix_name i" | f where "f \<in> set (ix_fields i)"
        "w = fst f \<or> w = kind_name (fst (snd f)) \<or> w = direction (snd (snd f))" unfolding index_words_def by auto
    then show "CHR 0x20 \<notin> set w \<and> CHR 0x0A \<notin> set w"
      by cases (use i plain(2,3) kind_direction_plain in metis)+
  qed
qed

lemma render_lines_plain: "spec_named s \<Longrightarrow> \<forall>l \<in> set (render_lines s). CHR 0x0A \<notin> set l"
  using spec_named_words [of s] safe_identifier_plain [of "vs_name s"] dec_plain
  by (auto simp: render_lines_def head_line_def key_line_def bound_line_def index_line_def spec_named_def)

lemma index_line_inject:
  assumes "index_line i = index_line j"
    and "\<forall>w \<in> set (ix_name i # index_words (ix_fields i)). CHR 0x20 \<notin> set w"
    and "\<forall>w \<in> set (ix_name j # index_words (ix_fields j)). CHR 0x20 \<notin> set w"
  shows "i = j"
proof -
  have "ix_name i # index_words (ix_fields i) = ix_name j # index_words (ix_fields j)"
    using assms unfolding index_line_def by (intro words_inject [of "CHR 0x20"]) simp_all
  then show ?thesis using index_words_inject by (intro index_spec.equality) auto
qed

lemma unat_eqD: "unat v = unat w \<Longrightarrow> v = w"
  by (rule unsigned_word_eqI)

lemma render_inject_named:
  assumes "spec_named s" "spec_named t" "render s = render t"
  shows "s = t"
proof -
  have lines: "render_lines s = render_lines t"
    using assms(3) render_lines_plain [OF assms(1)] render_lines_plain [OF assms(2)] unfolding render_eq
    by (intro lines_inject [of "CHR 0x0A"])
  then have heads: "head_line s = head_line t" "key_line s = key_line t"
      "map index_line (vs_indexes s) = map index_line (vs_indexes t)" "bound_line s = bound_line t"
    by (auto simp: render_lines_def)
  have "CHR 0x20 \<notin> set (vs_name s)" "CHR 0x20 \<notin> set (vs_name t)"
    using assms(1,2) safe_identifier_plain by (auto simp: spec_named_def)
  moreover have "vs_name s @ CHR 0x20 # (''version '' @ dec (unat (vs_version s))) =
      vs_name t @ CHR 0x20 # (''version '' @ dec (unat (vs_version t)))"
    using heads(1) by (simp only: head_line_def same_append_eq)
  ultimately have "vs_name s = vs_name t \<and> ''version '' @ dec (unat (vs_version s)) = ''version '' @ dec (unat (vs_version t))"
    by (intro split_at) assumption+
  then have head: "vs_name s = vs_name t" "vs_version s = vs_version t"
    by (simp_all only: same_append_eq dec_inject unat_eqD)
  have "key_words (vs_key s) = key_words (vs_key t)"
    using heads(2) spec_named_words [OF assms(1)] spec_named_words [OF assms(2)]
    by (intro words_inject [of "CHR 0x20"]) (auto simp: key_line_def)
  then have key: "vs_key s = vs_key t" by (rule key_words_inject)
  have idx: "vs_indexes s = vs_indexes t"
  proof (rule list.inj_map_strong [OF _ heads(3)])
    fix i j assume "i \<in> set (vs_indexes s)" "j \<in> set (vs_indexes t)" "index_line i = index_line j"
    then show "i = j"
      using index_line_inject [of i j] spec_named_words(2) [OF assms(1)] spec_named_words(2) [OF assms(2)] by blast
  qed
  have "vs_page_bound s = vs_page_bound t"
    using heads(4) by (auto simp: bound_line_def dest: unat_eqD)
  with head key idx show ?thesis by (intro view_spec.equality) auto
qed

lemma physical_table_inject:
  "physical_table s = physical_table t \<longleftrightarrow> vs_name s = vs_name t \<and> vs_version s = vs_version t"
proof
  assume eq: "physical_table s = physical_table t"
  have plain: "CHR 0x5F \<notin> set (dec n)" for n
    using dec_digit_mem [of "CHR 0x5F" n] by (auto simp: is_digit_def)
  have "vs_name s @ CHR 0x5F # dec (unat (vs_version s)) = vs_name t @ CHR 0x5F # dec (unat (vs_version t))"
    using eq by (simp add: physical_table_def)
  then have "rev (dec (unat (vs_version s))) @ CHR 0x5F # rev (vs_name s) = rev (dec (unat (vs_version t))) @ CHR 0x5F # rev (vs_name t)"
    by (metis append.assoc append_Cons append_Nil rev.simps(2) rev_append)
  from split_at [OF this] plain have "rev (dec (unat (vs_version s))) = rev (dec (unat (vs_version t))) \<and> rev (vs_name s) = rev (vs_name t)"
    by simp
  then show "vs_name s = vs_name t \<and> vs_version s = vs_version t" using unat_eqD by auto
qed (simp add: physical_table_def)

text \<open>C39: A view spec changed without a new version is always noticed: two accepted specs have the same
  catalog text exactly when they are the same spec, and the same table exactly when they have the
  same name and version.\<close>

theorem catalog_text_exact:
  assumes "view_schema_new s = Inr a" "view_schema_new t = Inr b"
  shows "(vt_rendered a = vt_rendered b \<longleftrightarrow> s = t)
    \<and> (vt_table a = vt_table b \<longleftrightarrow> vs_name s = vs_name t \<and> vs_version s = vs_version t)"
  using render_inject_named [of s t] view_schema_newD [OF assms(1)] view_schema_newD [OF assms(2)]
  by (auto simp: physical_table_inject)

section \<open>When live views are current\<close>

definition view_set_ok :: "view_set \<Rightarrow> bool" where
  "view_set_ok vs \<longleftrightarrow> akeys_sorted (vset_tables vs)
     \<and> (\<forall>(name, t) \<in> set (vset_tables vs). vs_name (vt_spec t) = name \<and> view_schema_new (vt_spec t) = Inr t)"

lemma set_ains_new: "map_of m k = None \<Longrightarrow> set (ains k v m) = insert (k, v) (set m)"
  by (induction k v m rule: ains.induct) (auto split: if_splits)

lemma view_set_tables_ok:
  "view_set_tables specs views = Inr tables \<Longrightarrow> view_set_ok \<lparr>vset_tables = views, vset_version = v\<rparr>
     \<Longrightarrow> view_set_ok \<lparr>vset_tables = tables, vset_version = v\<rparr> \<and> fst ` set tables = fst ` set views \<union> vs_name ` set specs"
proof (induction specs views rule: view_set_tables.induct)
  case (1 views)
  then show ?case by simp
next
  case (2 s ss views)
  from "2.prems"(1) obtain t where t: "view_schema_new s = Inr t" "map_of views (vs_name s) = None"
      "view_set_tables ss (ains (vs_name s) t views) = Inr tables"
    by (auto simp: result_simps split: if_splits)
  have "view_set_ok \<lparr>vset_tables = ains (vs_name s) t views, vset_version = v\<rparr>"
    using "2.prems"(2) t view_schema_newD(2) [OF t(1)] by (auto simp: view_set_ok_def akeys_sorted_ains set_ains_new)
  from "2.IH" [OF _ t(3) this] t(2) show ?case by (simp add: set_keys_ains)
qed

lemma view_set_new_ok:
  assumes "view_set_new specs v = Inr vs"
  shows "view_set_ok vs" "vset_version vs = v" "fst ` set (vset_tables vs) = vs_name ` set specs"
proof -
  obtain tables where t: "view_set_tables specs [] = Inr tables" "vs = \<lparr>vset_tables = tables, vset_version = v\<rparr>"
    using assms by (auto simp: view_set_new_def result_simps)
  from view_set_tables_ok [OF t(1), of v] show "view_set_ok vs" "vset_version vs = v" "fst ` set (vset_tables vs) = vs_name ` set specs"
    by (auto simp: t(2) view_set_ok_def)
qed

lemma view_set_table:
  "view_set_ok vs \<Longrightarrow> map_of (vset_tables vs) name = Some t \<longleftrightarrow> (name, t) \<in> set (vset_tables vs)"
  by (simp add: view_set_ok_def akeys_sorted_distinct)

lemma view_set_name:
  "view_set_ok vs \<Longrightarrow> map_of (vset_tables vs) name = Some t \<Longrightarrow> vs_name (vt_spec t) = name \<and> view_schema_new (vt_spec t) = Inr t"
  unfolding view_set_ok_def by (fastforce dest: map_of_SomeD)

text \<open>The stamps this binary writes for a set.\<close>

definition declared_stamps :: "view_set \<Rightarrow> string \<Rightarrow> stamp option" where
  "declared_stamps vs view = map_option (\<lambda>t. \<lparr>stamp_projector = uint (vs_version (vt_spec t)), stamp_set = uint (vset_version vs)\<rparr>)
     (map_of (vset_tables vs) view)"

definition set_newer :: "view_set \<Rightarrow> live_views \<Rightarrow> bool" where
  "set_newer vs live \<longleftrightarrow> (\<exists>view s. map_of (lv_stamps live) view = Some s \<and>
     (uint (vset_version vs) < stamp_set s
      \<or> (\<exists>t. map_of (vset_tables vs) view = Some t \<and> uint (vs_version (vt_spec t)) < stamp_projector s)))"

lemma find_stamp_set:
  assumes "distinct (map fst stamps)"
  shows "find (\<lambda>s. d < s) (map (stamp_set \<circ> snd) stamps) = None \<longleftrightarrow>
    (\<forall>view s. map_of stamps view = Some s \<longrightarrow> \<not> d < stamp_set s)"
proof -
  have "find (\<lambda>s. d < s) (map (stamp_set \<circ> snd) stamps) = None \<longleftrightarrow> (\<forall>p \<in> set stamps. \<not> d < stamp_set (snd p))"
    by (auto simp: find_None_iff)
  then show ?thesis using assms by force
qed

lemma newer_view_Some:
  "newer_view t live \<noteq> None \<longleftrightarrow> (\<exists>s. map_of (lv_stamps live) (vs_name (vt_spec t)) = Some s \<and> uint (vs_version (vt_spec t)) < stamp_projector s)"
  "newer_view t live = Some f \<Longrightarrow> \<exists>why. f = FenceNewer why"
  by (auto simp: newer_view_def split: option.splits if_splits)

lemma newer_views_Nil:
  assumes "view_set_ok vs"
  shows "List.map_filter (\<lambda>(_, t). newer_view t live) (vset_tables vs) = [] \<longleftrightarrow>
    (\<forall>view s t. map_of (lv_stamps live) view = Some s \<longrightarrow> map_of (vset_tables vs) view = Some t
       \<longrightarrow> \<not> uint (vs_version (vt_spec t)) < stamp_projector s)"
proof -
  have "List.map_filter (\<lambda>(_, t). newer_view t live) (vset_tables vs) = [] \<longleftrightarrow>
      (\<forall>(name, t) \<in> set (vset_tables vs). newer_view t live = None)"
    by (auto simp: List.map_filter_def filter_empty_conv)
  also have "\<dots> \<longleftrightarrow> (\<forall>name t. map_of (vset_tables vs) name = Some t \<longrightarrow> newer_view t live = None)"
    using view_set_table [OF assms] by auto
  also have "\<dots> \<longleftrightarrow> (\<forall>name t. map_of (vset_tables vs) name = Some t \<longrightarrow>
      (\<forall>s. map_of (lv_stamps live) name = Some s \<longrightarrow> \<not> uint (vs_version (vt_spec t)) < stamp_projector s))"
  proof (intro all_cong1 imp_cong refl)
    fix name t assume "map_of (vset_tables vs) name = Some t"
    then have "vs_name (vt_spec t) = name" using view_set_name [OF assms] by blast
    then show "newer_view t live = None \<longleftrightarrow>
        (\<forall>s. map_of (lv_stamps live) name = Some s \<longrightarrow> \<not> uint (vs_version (vt_spec t)) < stamp_projector s)"
      by (simp add: newer_view_def split: option.split)
  qed
  also have "\<dots> \<longleftrightarrow> (\<forall>view s t. map_of (lv_stamps live) view = Some s \<longrightarrow> map_of (vset_tables vs) view = Some t
       \<longrightarrow> \<not> uint (vs_version (vt_spec t)) < stamp_projector s)" by blast
  finally show ?thesis .
qed

lemma stamps_behind:
  assumes "view_set_ok vs" "distinct (map fst (lv_stamps live))"
  shows "(list_ex (\<lambda>(view, s). stamp_set s \<noteq> uint (vset_version vs)) (lv_stamps live)
     \<or> list_ex (\<lambda>(view, s). map_of (vset_tables vs) view = None) (lv_stamps live)
     \<or> list_ex (\<lambda>(_, t). map_option stamp_projector (map_of (lv_stamps live) (vs_name (vt_spec t)))
          \<noteq> Some (uint (vs_version (vt_spec t)))) (vset_tables vs))
     \<longleftrightarrow> map_of (lv_stamps live) \<noteq> declared_stamps vs" (is "?L \<longleftrightarrow> ?R")
proof -
  let ?m = "map_of (lv_stamps live)" and ?t = "map_of (vset_tables vs)"
  have stamps: "list_ex (\<lambda>(view, s). P view s) (lv_stamps live) \<longleftrightarrow> (\<exists>view s. ?m view = Some s \<and> P view s)" for P
    using assms(2) by (auto simp: list_ex_iff)
  have tables: "list_ex (\<lambda>(_, t). P t) (vset_tables vs) \<longleftrightarrow> (\<exists>name t. ?t name = Some t \<and> P t)" for P
    using view_set_table [OF assms(1)] by (auto simp: list_ex_iff)
  have "\<not> ?L \<longleftrightarrow> (\<forall>view s. ?m view = Some s \<longrightarrow> stamp_set s = uint (vset_version vs) \<and> ?t view \<noteq> None)
      \<and> (\<forall>name t. ?t name = Some t \<longrightarrow> map_option stamp_projector (?m name) = Some (uint (vs_version (vt_spec t))))"
  proof -
    have third: "(\<exists>name t. ?t name = Some t \<and> map_option stamp_projector (?m (vs_name (vt_spec t))) \<noteq> Some (uint (vs_version (vt_spec t))))
       \<longleftrightarrow> (\<exists>name t. ?t name = Some t \<and> map_option stamp_projector (?m name) \<noteq> Some (uint (vs_version (vt_spec t))))"
      using view_set_name [OF assms(1)] by (intro ex_cong1 conj_cong refl) simp
    show ?thesis unfolding stamps tables third unfolding de_Morgan_disj not_ex de_Morgan_conj not_not by metis
  qed
  also have "\<dots> \<longleftrightarrow> (\<forall>view. ?m view = declared_stamps vs view)"
  proof (intro iffI allI conjI impI)
    fix view
    assume a: "(\<forall>view s. ?m view = Some s \<longrightarrow> stamp_set s = uint (vset_version vs) \<and> ?t view \<noteq> None)
      \<and> (\<forall>name t. ?t name = Some t \<longrightarrow> map_option stamp_projector (?m name) = Some (uint (vs_version (vt_spec t))))"
    show "?m view = declared_stamps vs view"
    proof (cases "?t view")
      case None
      then have "?m view = None" using a by (metis option.exhaust)
      with None show ?thesis by (simp add: declared_stamps_def)
    next
      case (Some t)
      with a have "map_option stamp_projector (?m view) = Some (uint (vs_version (vt_spec t)))" by blast
      then obtain s where "?m view = Some s" "stamp_projector s = uint (vs_version (vt_spec t))" by auto
      moreover from this a have "stamp_set s = uint (vset_version vs)" by blast
      ultimately show ?thesis using Some by (simp add: declared_stamps_def)
    qed
  next
    fix view s
    assume "\<forall>view. ?m view = declared_stamps vs view" "?m view = Some s"
    then have d: "declared_stamps vs view = Some s" by simp
    show "stamp_set s = uint (vset_version vs)" using d by (auto simp: declared_stamps_def)
    show "?t view \<noteq> None" using d by (auto simp: declared_stamps_def)
  next
    fix name t
    assume "\<forall>view. ?m view = declared_stamps vs view" "?t name = Some t"
    then show "map_option stamp_projector (?m name) = Some (uint (vs_version (vt_spec t)))"
      by (simp add: declared_stamps_def)
  qed
  finally show ?thesis by (auto simp: fun_eq_iff)
qed

lemma declared_not_newer: "map_of (lv_stamps live) = declared_stamps vs \<Longrightarrow> \<not> set_newer vs live"
  by (auto simp: set_newer_def declared_stamps_def)

lemma judge_live_set_eq:
  assumes "view_set_ok vs" "distinct (map fst (lv_stamps live))"
  shows "judge_live_set vs live = (case lv_generation live of
        None \<Rightarrow> unstamped live
      | Some g \<Rightarrow> if set_newer vs live then FenceNewer (case judge_live_set vs live of FenceNewer why \<Rightarrow> why | _ \<Rightarrow> [])
                  else if map_of (lv_stamps live) \<noteq> declared_stamps vs then FenceBehind else FenceCurrent g)"
proof (cases "lv_generation live")
  case None
  then show ?thesis by (simp add: judge_live_set_def)
next
  case (Some g)
  let ?find = "find (\<lambda>s. uint (vset_version vs) < s) (map (stamp_set \<circ> snd) (lv_stamps live))"
  let ?newer = "List.map_filter (\<lambda>(_, t). newer_view t live) (vset_tables vs)"
  have newer: "\<not> set_newer vs live \<longleftrightarrow> ?find = None \<and> ?newer = []"
    unfolding find_stamp_set [OF assms(2)] newer_views_Nil [OF assms(1)] set_newer_def by blast
  show ?thesis
  proof (cases "set_newer vs live")
    case False
    with newer have "?find = None" "?newer = []" by auto
    then show ?thesis using Some False stamps_behind [OF assms] by (simp add: judge_live_set_def Let_def)
  next
    case True
    with newer consider s where "?find = Some s" | f fs where "?find = None" "?newer = f # fs"
      by (cases ?find; cases ?newer) auto
    then show ?thesis
    proof cases
      case 1
      then show ?thesis using Some True by (simp add: judge_live_set_def Let_def)
    next
      case 2
      have "f \<in> set ?newer" unfolding 2(2) by simp
      then obtain t where "newer_view t live = Some f" by (auto simp: List.map_filter_def)
      then obtain why where "f = FenceNewer why" using newer_view_Some(2) by blast
      then show ?thesis using Some True 2 by (simp add: judge_live_set_def Let_def)
    qed
  qed
qed

text \<open>C40: A project's live views are read as they stand exactly when their stamps are the ones this binary
  writes; a stamp of a newer binary refuses, whatever else is behind; a project without stamps is
  only stamped when its chain is empty.\<close>

theorem judge_live_set_exact:
  assumes "view_set_new specs v = Inr vs" "distinct (map fst (lv_stamps live))"
  shows "(judge_live_set vs live = FenceCurrent g \<longleftrightarrow> lv_generation live = Some g \<and> map_of (lv_stamps live) = declared_stamps vs)
    \<and> ((\<exists>why. judge_live_set vs live = FenceNewer why) \<longleftrightarrow> lv_generation live \<noteq> None \<and> set_newer vs live)
    \<and> (judge_live_set vs live = FenceUnstamped \<longleftrightarrow> lv_generation live = None \<and> lv_head live = 0)"
  using judge_live_set_eq [OF view_set_new_ok(1) [OF assms(1)] assms(2)] declared_not_newer [of live vs]
  by (cases "lv_generation live"; cases "set_newer vs live") (auto simp: unstamped_def)

section \<open>Witnesses\<close>

definition store_view_set :: view_set where
  "store_view_set = \<lparr>vset_tables =
     [(claim_scope_view, \<lparr>vt_spec = claim_scope_spec, vt_table = ''v_claim_scope_1'', vt_rendered = render claim_scope_spec,
         vt_index_columns = []\<rparr>),
      (request_view, \<lparr>vt_spec = request_spec, vt_table = ''v_request_2'', vt_rendered = render request_spec,
         vt_index_columns = [(''state'', FText)]\<rparr>)], vset_version = 2\<rparr>"

lemmas spec_checks = safe_identifier_def max_name_def is_lower_def is_digit_def split_on_def claim_scope_spec_def request_spec_def
  claim_scope_view_def request_view_def physical_table_def

lemma dec_small: "dec (Suc 0) = ''1''" "dec 2 = ''2''"
  by code_simp+

lemma claim_scope_schema: "view_schema_new claim_scope_spec = Inr (snd (vset_tables store_view_set ! 0))"
  by (simp add: view_schema_new_def store_view_set_def spec_checks dec_small)

lemma request_schema: "view_schema_new request_spec = Inr (snd (vset_tables store_view_set ! 1))"
  by (simp add: view_schema_new_def store_view_set_def spec_checks dec_small)

lemma store_view_set_new: "view_set_new [claim_scope_spec, request_spec] 2 = Inr store_view_set"
  using claim_scope_schema request_schema
  by (simp add: view_set_new_def store_view_set_def claim_scope_view_def request_view_def claim_scope_spec_def request_spec_def
      less_list_code)

theorem catalog_text_exact_witness:
  "vt_rendered (snd (vset_tables store_view_set ! 0)) \<noteq> vt_rendered (snd (vset_tables store_view_set ! 1))"
  using catalog_text_exact [OF claim_scope_schema request_schema]
  by (simp add: claim_scope_spec_def request_spec_def claim_scope_view_def request_view_def)

definition example_live :: live_views where
  "example_live = \<lparr>lv_generation = Some 0, lv_head = 0, lv_stamps =
     [(claim_scope_view, \<lparr>stamp_projector = 1, stamp_set = 2\<rparr>), (request_view, \<lparr>stamp_projector = 2, stamp_set = 2\<rparr>)]\<rparr>"

theorem judge_live_set_exact_witness:
  "judge_live_set store_view_set example_live = FenceCurrent 0"
proof -
  have "distinct (map fst (lv_stamps example_live))"
    by (simp add: example_live_def claim_scope_view_def request_view_def)
  moreover have "map_of (lv_stamps example_live) = declared_stamps store_view_set"
    by (auto simp: fun_eq_iff declared_stamps_def example_live_def store_view_set_def claim_scope_spec_def request_spec_def
        claim_scope_view_def request_view_def)
  ultimately show ?thesis
    using judge_live_set_exact [OF store_view_set_new, of example_live 0] by (simp add: example_live_def)
qed

end
