(* ===== verification/Store.thy ===== *)
theory Store
  imports View_Set
begin

text \<open>
  The store's tables (\<open>baley-store-sqlite/src/schema.rs\<close>) and the statements the command path runs on
  them: a project's row with its head, events, payload references, anchors, leases and view
  generations; payload bodies; the write transaction with its epoch check; and the check that every
  event of a project can be read.  SQLite itself is outside the repository: a table is a list or a
  map, a transaction that fails leaves it as it was, and a row that breaks a constraint of the schema
  is an error whose text is not modelled.  Bodies are kept uncompressed.
\<close>

section \<open>Tables\<close>

datatype payload_state =
    PresentBody string
  | ReducedBody hash retention_class "(u64 \<times> u64) list"
  | PurgedBody string

record payload_row =
  py_bytes :: u64
  py_state :: payload_state

record reference_row =
  rr_seq :: u64
  rr_hash :: hash
  rr_class :: retention_class
  rr_released :: "u64 option"

record lease_row =
  ls_claim_seq :: u64
  ls_renewed_at :: string

record project_row =
  pj_head_seq :: u64
  pj_head_hash :: "hash option"
  pj_events :: "event list"
  pj_refs :: "reference_row list"
  pj_anchors :: "u64 \<Rightarrow> stored_anchor option"
  pj_leases :: "string \<times> string \<Rightarrow> lease_row option"
  pj_live :: "int option"
  pj_building :: "(int \<times> u64) option"
  pj_stamps :: "int \<Rightarrow> (string \<times> stamp) list"
  pj_views :: "int \<Rightarrow> string \<Rightarrow> view_table"

record database =
  db_epoch :: u32
  db_payloads :: "hash \<Rightarrow> payload_row option"
  db_projects :: "project_id \<Rightarrow> project_row option"

record index_query =
  iq_index :: string
  iq_equals :: "key_value list"
  iq_limit :: u32
  iq_after :: "string option"

record document_page =
  pg_items :: "(doc_key \<times> document) list"
  pg_next :: "string option"

text \<open>
  What a store is opened with: the projectors, the store's own first, the declared views, the
  core's schema, and the result of the startup check.  SHA-256 and the reads by index are
  parameters.
\<close>

record store_config =
  cf_sha :: "string \<Rightarrow> string"
  cf_projectors :: "projector list"
  cf_views :: view_set
  cf_reads :: "string \<Rightarrow> u32 \<Rightarrow> bool"
  cf_projection :: "event \<Rightarrow> string + u32 \<times> json"
  cf_find :: "view_table \<Rightarrow> staging \<Rightarrow> view_schema \<Rightarrow> index_query \<Rightarrow> store_error + document_page"
  cf_unhealthy :: "string option"

definition epoch :: u32 where "epoch = 1"

definition constraint_failed :: store_error where
  "constraint_failed = Unavailable ''a constraint failed''"

definition sql_int :: "u64 \<Rightarrow> store_error + unit" where
  "sql_int n = (if 2 ^ 63 \<le> unat n then Inl (Unavailable (dec (unat n) @ '' does not fit a SQLite integer'')) else Inr ())"

fun canonical_error_text :: "canonical_error \<Rightarrow> string" where
  "canonical_error_text (NotAnInteger path number) = number @ '' at '' @ path @ '' is not an integer''"
| "canonical_error_text (OutOfRange path number) =
     number @ '' at '' @ path @ '' is outside '' @ [CHR 0xC2, CHR 0xB1] @ ''(2^53 - 1)''"

fun seal_error_text :: "seal_error \<Rightarrow> string" where
  "seal_error_text ZeroSequence = ''sequences start at 1''"
| "seal_error_text (Link n present) =
     (if n = 1 then ''sequence 1 has no predecessor''
      else ''sequence '' @ dec (unat n) @ '' needs its predecessor's hash'')"
| "seal_error_text (SealCanonical error) = canonical_error_text error"

section \<open>Reading a project\<close>

definition project_of :: "database \<Rightarrow> project_id \<Rightarrow> store_error + project_row" where
  "project_of db project = ok_or (RefusedBy (UnknownProject project)) (db_projects db project)"

definition stored_head :: "database \<Rightarrow> project_id \<Rightarrow> store_error + head option" where
  "stored_head db project =
     rbind (project_of db project) (\<lambda>r.
       case pj_head_hash r of
         None \<Rightarrow>
           if pj_head_seq r = 0 then Inr None
           else Inl (Unavailable (''the project's head at '' @ dec (unat (pj_head_seq r)) @ '' does not agree with its head hash''))
       | Some h \<Rightarrow>
           if pj_head_seq r \<noteq> 0 then Inr (Some \<lparr>h_seq = pj_head_seq r, h_hash = h\<rparr>)
           else Inl (Unavailable (''the project's head at '' @ dec (unat (pj_head_seq r)) @ '' does not agree with its head hash'')))"

definition live_of :: "database \<Rightarrow> project_id \<Rightarrow> store_error + live_views" where
  "live_of db project =
     rbind (project_of db project) (\<lambda>r.
       Inr \<lparr>lv_generation = pj_live r, lv_head = pj_head_seq r,
            lv_stamps = (case pj_live r of None \<Rightarrow> [] | Some g \<Rightarrow> pj_stamps r g)\<rparr>)"

definition view_of :: "database \<Rightarrow> project_id \<Rightarrow> int \<Rightarrow> string \<Rightarrow> view_table" where
  "view_of db project generation view =
     (case db_projects db project of None \<Rightarrow> Map.empty | Some r \<Rightarrow> pj_views r generation view)"

definition get_document :: "view_set \<Rightarrow> database \<Rightarrow> project_id \<Rightarrow> int \<Rightarrow> string \<Rightarrow> doc_key \<Rightarrow> store_error + document option" where
  "get_document vs db project generation view key =
     rbind (view_schema_of vs view) (\<lambda>schema.
       let kinds = map snd (vs_key (vt_spec schema))
       in if fitted key kinds then Inr (view_of db project generation view key)
          else Inl (malformed view (''the key has '' @ dec (length key) @ '' values that do not fit its ''
                 @ dec (length kinds) @ '' declared fields'')))"

definition stored_events :: "database \<Rightarrow> project_id \<Rightarrow> event list" where
  "stored_events db project = (case db_projects db project of None \<Rightarrow> [] | Some r \<Rightarrow> pj_events r)"

definition stored_hash :: "database \<Rightarrow> project_id \<Rightarrow> u64 \<Rightarrow> store_error + hash option" where
  "stored_hash db project n =
     rbind (sql_int n) (\<lambda>_. Inr (map_option event_hash (find (\<lambda>e. seq e = n) (stored_events db project))))"

definition lease_of :: "database \<Rightarrow> project_id \<Rightarrow> claim_id \<Rightarrow> lease_row option" where
  "lease_of db project c =
     (case db_projects db project of None \<Rightarrow> None | Some r \<Rightarrow> pj_leases r (ci_kind c, ci_request_id c))"

section \<open>Writing a project\<close>

definition update_project :: "project_id \<Rightarrow> (project_row \<Rightarrow> project_row) \<Rightarrow> database \<Rightarrow> database" where
  "update_project project f db = db\<lparr>db_projects := (db_projects db)(project := map_option f (db_projects db project))\<rparr>"

definition set_lease :: "project_id \<Rightarrow> claim_id \<Rightarrow> lease_row option \<Rightarrow> database \<Rightarrow> database" where
  "set_lease project c row =
     update_project project (\<lambda>r. r\<lparr>pj_leases := (pj_leases r)((ci_kind c, ci_request_id c) := row)\<rparr>)"

definition caller_text :: "caller option \<Rightarrow> store_error + string option" where
  "caller_text c =
     (case c of
        None \<Rightarrow> Inr None
      | Some c \<Rightarrow>
          (case canonical_json (caller_to_value c) of
             Inl error \<Rightarrow> Inl (invalid_event (canonical_error_text error))
           | Inr bytes \<Rightarrow> Inr (Some bytes)))"

definition insert_event :: "event \<Rightarrow> database \<Rightarrow> store_error + database" where
  "insert_event e db =
     rbind (map_err (\<lambda>error. invalid_event (canonical_error_text error)) (canonical_json (payload e))) (\<lambda>_.
     rbind (caller_text (event_caller e)) (\<lambda>_.
     rbind (sql_int (seq e)) (\<lambda>_.
     rbind (sql_int (stream_version e)) (\<lambda>_.
     rbind (sql_int (policy_version e)) (\<lambda>_.
       if Option.is_none (db_projects db (project_id e))
          \<or> (\<exists>f \<in> set (stored_events db (project_id e)).
               seq f = seq e \<or> stream f = stream e \<and> stream_version f = stream_version e)
       then Inl constraint_failed
       else Inr (update_project (project_id e) (\<lambda>r. r\<lparr>pj_events := pj_events r @ [e]\<rparr>) db))))))"

definition put_reference :: "project_id \<Rightarrow> u64 \<Rightarrow> payload_ref \<Rightarrow> database \<Rightarrow> store_error + database" where
  "put_reference project n ref db =
     rbind (sql_int n) (\<lambda>_.
       case db_projects db project of
         None \<Rightarrow> Inl constraint_failed
       | Some r \<Rightarrow>
           if db_payloads db (pr_hash ref) = None \<or> (\<forall>e \<in> set (pj_events r). seq e \<noteq> n)
              \<or> (\<exists>row \<in> set (pj_refs r). rr_seq row = n \<and> rr_hash row = pr_hash ref)
           then Inl constraint_failed
           else Inr (update_project project (\<lambda>r. r\<lparr>pj_refs := pj_refs r @
                  [\<lparr>rr_seq = n, rr_hash = pr_hash ref, rr_class = pr_class ref, rr_released = None\<rparr>]\<rparr>) db))"

definition insert_anchor :: "project_id \<Rightarrow> stored_anchor \<Rightarrow> database \<Rightarrow> store_error + database" where
  "insert_anchor project row db =
     rbind (sql_int (a_seq (sa_anchor row))) (\<lambda>_.
       case db_projects db project of
         None \<Rightarrow> Inl constraint_failed
       | Some r \<Rightarrow>
           if pj_anchors r (a_seq (sa_anchor row)) \<noteq> None then Inl constraint_failed
           else Inr (update_project project (\<lambda>r. r\<lparr>pj_anchors := (pj_anchors r)(a_seq (sa_anchor row) \<mapsto> row)\<rparr>) db))"

definition put_payload ::
  "(string \<Rightarrow> string) \<Rightarrow> string \<Rightarrow> retention_class \<Rightarrow> database \<Rightarrow> store_error + payload_ref \<times> database" where
  "put_payload sha bytes class db =
     (let h = Hash (sha bytes); n = of_nat (length bytes); ref = \<lparr>pr_hash = h, pr_bytes = n, pr_class = class\<rparr>
      in if 2 ^ 64 \<le> length bytes then Inl (Unavailable ''a payload longer than 2^64 bytes'')
         else (case db_payloads db h of
                 Some row \<Rightarrow>
                   (case py_state row of
                      PresentBody _ \<Rightarrow> Inr (ref, db)
                    | _ \<Rightarrow> Inl (RefusedBy (PayloadTombstoned h)))
               | None \<Rightarrow>
                   rbind (sql_int n) (\<lambda>_.
                     Inr (ref, db\<lparr>db_payloads := (db_payloads db)(h \<mapsto> \<lparr>py_bytes = n, py_state = PresentBody bytes\<rparr>)\<rparr>))))"

definition stored_status :: "database \<Rightarrow> hash \<Rightarrow> store_error + payload_status" where
  "stored_status db h =
     (case db_payloads db h of
        None \<Rightarrow> Inl (RefusedBy (UnknownPayload h))
      | Some row \<Rightarrow>
          (case py_state row of
             PresentBody _ \<Rightarrow> Inr (Present (py_bytes row))
           | ReducedBody excerpt class kept \<Rightarrow>
               (case db_payloads db excerpt of
                  None \<Rightarrow> Inl (Unavailable (''payload '' @ to_hex h @ '': reduced without a stored excerpt''))
                | Some e \<Rightarrow> Inr (Reduced \<lparr>pr_hash = excerpt, pr_bytes = py_bytes e, pr_class = class\<rparr> kept))
           | PurgedBody reason \<Rightarrow> Inr (Purged reason)))"

definition reference_status :: "database \<Rightarrow> project_id \<Rightarrow> u64 \<Rightarrow> hash \<Rightarrow> store_error + payload_status" where
  "reference_status db project n h =
     rbind (sql_int n) (\<lambda>_.
       case find (\<lambda>row. rr_seq row = n \<and> rr_hash row = h)
              (case db_projects db project of None \<Rightarrow> [] | Some r \<Rightarrow> pj_refs r) of
         None \<Rightarrow> Inl (Unavailable (''payload '' @ to_hex h @ '': answer reference is missing''))
       | Some row \<Rightarrow>
           (case rr_released row of
              None \<Rightarrow> stored_status db h
            | Some released \<Rightarrow>
                (case find (\<lambda>e. seq e = released) (stored_events db project) of
                   None \<Rightarrow> Inl (Unavailable ''no release event'')
                 | Some e \<Rightarrow>
                     if type_name e = payload_purged
                     then rbind (ok_or (Unavailable ''a malformed purge event'') (purged_from_value (payload e)))
                            (\<lambda>p. Inr (Purged (pe_reason p)))
                     else if type_name e = payload_reduced
                     then rbind (ok_or (Unavailable ''a malformed reduction event'') (reduced_from_value (payload e)))
                            (\<lambda>p. Inr (Reduced (re_excerpt p) [fst (re_kept p), snd (re_kept p)]))
                     else Inl (Unavailable ''a reference released by another event''))))"

section \<open>Transactions\<close>

text \<open>
  The heads each project was last found readable through, kept in memory: a transaction that fails
  leaves the tables as they were, but not the marks.
\<close>

type_synonym marks = "project_id \<Rightarrow> head option"

definition transaction ::
  "store_config \<Rightarrow> (database \<Rightarrow> marks \<Rightarrow> (store_error + 'a \<times> database) \<times> marks) \<Rightarrow> database \<times> marks
     \<Rightarrow> (store_error + 'a) \<times> database \<times> marks" where
  "transaction cf f st =
     (let (db, marks) = st in
      case cf_unhealthy cf of
        Some report \<Rightarrow>
          (Inl (Unavailable (''writes are refused because the startup quick_check failed: '' @ report)), db, marks)
      | None \<Rightarrow>
          if epoch < db_epoch db then (Inl (ReadOnly (db_epoch db)), db, marks)
          else if db_epoch db < epoch
          then (Inl (Unavailable (''the store is at epoch '' @ dec (unat (db_epoch db)) @ ''; this binary writes only epoch ''
                 @ dec (unat epoch))), db, marks)
          else (case f db marks of
                  (Inl error, marks') \<Rightarrow> (Inl error, db, marks')
                | (Inr (value, db'), marks') \<Rightarrow> (Inr value, db', marks')))"

section \<open>Readable projects\<close>

definition check_readable ::
  "store_config \<Rightarrow> database \<Rightarrow> marks \<Rightarrow> project_id \<Rightarrow> head option \<Rightarrow> (store_error + unit) \<times> marks" where
  "check_readable cf db marks project head =
     (case head of
        None \<Rightarrow> (Inr (), marks)
      | Some h \<Rightarrow>
          (case (case marks project of
                   None \<Rightarrow> Inr 0
                 | Some m \<Rightarrow> rbind (stored_hash db project (h_seq m)) (\<lambda>found.
                     Inr (if found = Some (h_hash m) then h_seq m else 0))) of
             Inl error \<Rightarrow> (Inl error, marks)
           | Inr from \<Rightarrow>
               if from = h_seq h then (Inr (), marks)
               else (case rbind (sql_int from) (\<lambda>_.
                       case find (\<lambda>e. from < seq e \<and> \<not> store_reads (cf_reads cf) (type_name e) (type_version e))
                              (stored_events db project) of
                         Some e \<Rightarrow> Inl (RefusedBy (ProjectReadOnly project (not_readable (type_name e) (type_version e))))
                       | None \<Rightarrow> Inr ()) of
                       Inl error \<Rightarrow> (Inl error, marks)
                     | Inr _ \<Rightarrow> (Inr (), marks(project \<mapsto> h)))))"

text \<open>The copy of an event the projectors see, with the schema the store was opened with.\<close>

definition copy_event :: "store_config \<Rightarrow> event \<Rightarrow> string + event" where
  "copy_event cf e =
     (case projection_copy (cf_reads cf) (\<lambda>e. Some (cf_projection cf e)) e of Some r \<Rightarrow> r | None \<Rightarrow> Inl [])"

section \<open>Projects\<close>

definition new_project :: project_row where
  "new_project = \<lparr>pj_head_seq = 0, pj_head_hash = None, pj_events = [], pj_refs = [], pj_anchors = Map.empty,
     pj_leases = Map.empty, pj_live = None, pj_building = None, pj_stamps = (\<lambda>_. []), pj_views = (\<lambda>_ _. Map.empty)\<rparr>"

definition create_project :: "store_config \<Rightarrow> project_id \<Rightarrow> database \<times> marks \<Rightarrow> (store_error + unit) \<times> database \<times> marks" where
  "create_project cf project =
     transaction cf (\<lambda>db marks.
       (if \<not> Option.is_none (db_projects db project) then Inl (RefusedBy (ProjectExists project))
        else Inr ((), db\<lparr>db_projects := (db_projects db)(project \<mapsto> new_project)\<rparr>), marks))"

definition stamps_for :: "view_set \<Rightarrow> (string \<times> stamp) list" where
  "stamps_for vs = map (\<lambda>(name, t). (vs_name (vt_spec t),
     \<lparr>stamp_projector = uint (vs_version (vt_spec t)), stamp_set = uint (vset_version vs)\<rparr>)) (vset_tables vs)"

definition put_stamps :: "view_set \<Rightarrow> project_id \<Rightarrow> int \<Rightarrow> database \<Rightarrow> store_error + database" where
  "put_stamps vs project generation db =
     rbind (project_of db project) (\<lambda>r.
       if \<exists>(view, s) \<in> set (stamps_for vs). map_of (pj_stamps r generation) view \<noteq> None then Inl constraint_failed
       else Inr (update_project project
              (\<lambda>r. r\<lparr>pj_stamps := (pj_stamps r)(generation := pj_stamps r generation @ stamps_for vs)\<rparr>) db))"

definition stamp_empty :: "store_config \<Rightarrow> project_id \<Rightarrow> database \<times> marks \<Rightarrow> (store_error + unit) \<times> database \<times> marks" where
  "stamp_empty cf project =
     transaction cf (\<lambda>db marks.
       (rbind (live_of db project) (\<lambda>live.
          if lv_generation live = None \<and> lv_head live = 0
          then rbind (put_stamps (cf_views cf) project 0 (update_project project (\<lambda>r. r\<lparr>pj_live := Some 0\<rparr>) db))
                 (\<lambda>db. Inr ((), db))
          else Inr ((), db)), marks))"

end
