(* ===== verification/Work.thy ===== *)
theory Work
  imports Store
begin

text \<open>
  One command's decision inside the write transaction (\<open>Work\<close> of
  \<open>baley-store-sqlite/src/transact.rs\<close>, with \<open>fold\<close> and \<open>write_staged\<close> of \<open>view.rs\<close>).  A decision is the
  tree of the operations it asks for (the trait \<open>Transaction\<close>), each answered before the next:
  whatever a decision computes is in how it goes on from an answer.  Events and documents are held
  in memory until the command writes; an operation's error is noted and fails the command even when
  the decision goes on past it.
\<close>

section \<open>What is held\<close>

record work =
  wk_command :: command
  wk_db :: database
  wk_head :: "head option"
  wk_generation :: int
  wk_events :: "(event \<times> payload_ref list) list"
  wk_streams :: "(stream_name \<times> u64) list"
  wk_staged :: "(string \<times> staging) list"
  wk_put :: "hash list"
  wk_anchors :: "stored_anchor list"
  wk_failed :: "store_error option"

definition work_new :: "database \<Rightarrow> command \<Rightarrow> head option \<Rightarrow> int \<Rightarrow> work" where
  "work_new db c head generation =
     \<lparr>wk_command = c, wk_db = db, wk_head = head, wk_generation = generation, wk_events = [], wk_streams = [],
      wk_staged = [], wk_put = [], wk_anchors = [], wk_failed = None\<rparr>"

definition noted :: "(store_error + 'a) \<times> work \<Rightarrow> (store_error + 'a) \<times> work" where
  "noted r =
     (case fst r of
        Inl error \<Rightarrow>
          (Inl error, (snd r)\<lparr>wk_failed := Some (case wk_failed (snd r) of None \<Rightarrow> error | Some first \<Rightarrow> first)\<rparr>)
      | Inr value \<Rightarrow> r)"

definition check_payloads_attached :: "work \<Rightarrow> store_error + unit" where
  "check_payloads_attached w =
     (case find (\<lambda>h. \<not> list_ex (\<lambda>(_, attachments). list_ex (\<lambda>a. pr_hash a = h) attachments) (wk_events w)) (wk_put w) of
        None \<Rightarrow> Inr ()
      | Some h \<Rightarrow> Inl (RefusedBy (UnattachedPayload h)))"

abbreviation wk_project :: "work \<Rightarrow> project_id" where
  "wk_project w \<equiv> cmd_project (wk_command w)"

definition max_version :: "event list \<Rightarrow> stream_name \<Rightarrow> u64" where
  "max_version es name = foldr (\<lambda>e m. if stream e = name then max (stream_version e) m else m) es 0"

definition work_stream_version :: "work \<Rightarrow> stream_name \<Rightarrow> u64" where
  "work_stream_version w name =
     (case map_of (wk_streams w) name of
        Some version \<Rightarrow> version
      | None \<Rightarrow> max_version (stored_events (wk_db w) (wk_project w)) name)"

section \<open>Payload references\<close>

definition not_a_reference :: store_error where
  "not_a_reference = invalid_event ''an object with a payload reference's fields is not a reference''"

fun references_in :: "json \<Rightarrow> store_error + payload_ref list"
  and references_all :: "json list \<Rightarrow> store_error + payload_ref list"
  and references_members :: "(string \<times> json) list \<Rightarrow> store_error + payload_ref list" where
  "references_in (JArray items) = references_all items"
| "references_in (JObject m) =
     (case ref_from_value (JObject m) of
        Some ref \<Rightarrow> Inr [ref]
      | None \<Rightarrow>
          if list_all (\<lambda>name. map_of m name \<noteq> None) [''payload'', ''bytes'', ''class''] then Inl not_a_reference
          else references_members m)"
| "references_in _ = Inr []"
| "references_all [] = Inr []"
| "references_all (v # vs) = rbind (references_in v) (\<lambda>a. rbind (references_all vs) (\<lambda>b. Inr (a @ b)))"
| "references_members [] = Inr []"
| "references_members ((k, v) # m) = rbind (references_in v) (\<lambda>a. rbind (references_members m) (\<lambda>b. Inr (a @ b)))"

fun check_listed :: "database \<Rightarrow> payload_ref list \<Rightarrow> hash list \<Rightarrow> payload_ref list \<Rightarrow> store_error + unit" where
  "check_listed db carried earlier [] = Inr ()"
| "check_listed db carried earlier (a # attachments) =
     (if pr_hash a \<in> set earlier then Inl (invalid_event ''an attachment is listed twice'')
      else if a \<notin> set carried then Inl (invalid_event ''an attachment is not carried in the event's payload'')
      else (case db_payloads db (pr_hash a) of
              None \<Rightarrow> Inl (RefusedBy (UnknownPayload (pr_hash a)))
            | Some row \<Rightarrow>
                (case py_state row of
                   PresentBody _ \<Rightarrow>
                     if py_bytes row \<noteq> pr_bytes a then Inl (invalid_event ''an attachment's length is not its body's'')
                     else check_listed db carried (pr_hash a # earlier) attachments
                 | _ \<Rightarrow> Inl (RefusedBy (PayloadTombstoned (pr_hash a))))))"

definition check_attachments :: "database \<Rightarrow> new_event \<Rightarrow> store_error + unit" where
  "check_attachments db e =
     rbind (references_in (ne_payload e)) (\<lambda>carried.
     rbind (check_listed db carried [] (ne_attachments e)) (\<lambda>_.
       if \<exists>r \<in> set carried. r \<notin> set (ne_attachments e)
       then Inl (invalid_event ''the payload carries a reference that is not listed as an attachment'')
       else Inr ()))"

section \<open>Projecting\<close>

fun view_store_error :: "view_error \<Rightarrow> store_error" where
  "view_store_error (Malformed view) = malformed view ''the document does not fit the view''"
| "view_store_error (SequencePastI64 n) = Unavailable (''sequence '' @ dec (unat n) @ '' is past i64'')"
| "view_store_error (ProjectorFailed view n message) = ProjectorError view n message"

text \<open>
  One event folded through every projector that handles its type, in order.  When a projector fails
  the changes of the earlier ones stay staged, which only a decision that goes on past the error
  can see.
\<close>

fun fold_projectors ::
  "view_set \<Rightarrow> projector list \<Rightarrow> (string \<Rightarrow> view_table) \<Rightarrow> event \<Rightarrow> (string \<times> staging) list
    \<Rightarrow> (store_error + unit) \<times> (string \<times> staging) list" where
  "fold_projectors vs [] tables e staged = (Inr (), staged)"
| "fold_projectors vs (p # ps) tables e staged =
     (if type_name e \<notin> set (p_handles p) then fold_projectors vs ps tables e staged
      else let view = vs_name (p_spec p);
               st = (case map_of staged view of None \<Rightarrow> [] | Some st \<Rightarrow> st)
           in (case rbind (view_schema_of vs view) (\<lambda>_. map_err view_store_error (fold_event p (tables view) e st)) of
                 Inl error \<Rightarrow> (Inl error, staged)
               | Inr st' \<Rightarrow> fold_projectors vs ps tables e (ains view st' staged)))"

definition apply_projectors :: "store_config \<Rightarrow> event \<Rightarrow> work \<Rightarrow> (store_error + unit) \<times> work" where
  "apply_projectors cf e w =
     (case map_err (\<lambda>reason. invalid_event reason) (copy_event cf e) of
        Inl error \<Rightarrow> (Inl error, w)
      | Inr copy \<Rightarrow>
          (let (r, staged) = fold_projectors (cf_views cf) (cf_projectors cf)
                 (view_of (wk_db w) (wk_project w) (wk_generation w)) copy (wk_staged w)
           in (r, w\<lparr>wk_staged := staged\<rparr>)))"

section \<open>Appending\<close>

definition draft_of :: "command \<Rightarrow> u64 \<Rightarrow> new_event \<Rightarrow> event_draft" where
  "draft_of c version e =
     \<lparr>d_stream = ne_stream e, d_stream_version = version, d_type_name = ne_type_name e, d_type_version = ne_type_version e,
      d_actor = cmd_actor c, d_caller = cmd_caller c, d_recorded_at = cmd_recorded_at c, d_request_id = cmd_request_id c,
      d_git = ne_git e, d_policy_version = cmd_policy_version c, d_payload = ne_payload e\<rparr>"

definition next_seq :: "head option \<Rightarrow> u64" where
  "next_seq head = (case head of None \<Rightarrow> 1 | Some h \<Rightarrow> h_seq h + 1)"

definition sealed_event :: "store_config \<Rightarrow> new_event \<Rightarrow> work \<Rightarrow> store_error + event" where
  "sealed_event cf e w =
     (if \<not> store_reads (cf_reads cf) (ne_type_name e) (ne_type_version e)
      then Inl (RefusedBy (UnreadableType (ne_type_name e) (ne_type_version e)))
      else rbind (check_attachments (wk_db w) e) (\<lambda>_.
        map_err (\<lambda>error. invalid_event (seal_error_text error))
          (seal (cf_sha cf) (wk_project w) (next_seq (wk_head w)) (map_option h_hash (wk_head w))
             (draft_of (wk_command w) (work_stream_version w (ne_stream e) + 1) e))))"

definition push_event :: "store_config \<Rightarrow> new_event \<Rightarrow> work \<Rightarrow> (store_error + u64) \<times> work" where
  "push_event cf e w =
     (case sealed_event cf e w of
        Inl error \<Rightarrow> (Inl error, w)
      | Inr sealed \<Rightarrow>
          (case apply_projectors cf sealed w of
             (Inl error, w1) \<Rightarrow> (Inl error, w1)
           | (Inr _, w1) \<Rightarrow>
               (Inr (seq sealed),
                w1\<lparr>wk_streams := ains (ne_stream e) (stream_version sealed) (wk_streams w1),
                   wk_head := Some \<lparr>h_seq = seq sealed, h_hash = event_hash sealed\<rparr>,
                   wk_events := wk_events w1 @ [(sealed, ne_attachments e)]\<rparr>)))"

definition append_domain :: "store_config \<Rightarrow> new_event \<Rightarrow> work \<Rightarrow> (store_error + u64) \<times> work" where
  "append_domain cf e w =
     (if store_owned (ne_type_name e)
      then (Inl (invalid_event (ne_type_name e @ '' is recorded by the store, not by a decision'')), w)
      else push_event cf e w)"

section \<open>Reads inside the decision\<close>

definition staged_in :: "work \<Rightarrow> string \<Rightarrow> staging" where
  "staged_in w view = (case map_of (wk_staged w) view of None \<Rightarrow> [] | Some st \<Rightarrow> st)"

definition get_staged :: "store_config \<Rightarrow> work \<Rightarrow> string \<Rightarrow> doc_key \<Rightarrow> store_error + document option" where
  "get_staged cf w view key =
     rbind (view_schema_of (cf_views cf) view) (\<lambda>_.
       case map_of (staged_in w view) key of
         Some s \<Rightarrow> Inr (map_option (\<lambda>body. \<lparr>doc_seq = st_seq s, doc_body = body\<rparr>) (st_body s))
       | None \<Rightarrow> get_document (cf_views cf) (wk_db w) (wk_project w) (wk_generation w) view key)"

definition find_staged :: "store_config \<Rightarrow> work \<Rightarrow> string \<Rightarrow> index_query \<Rightarrow> store_error + document_page" where
  "find_staged cf w view query =
     rbind (view_schema_of (cf_views cf) view) (\<lambda>schema.
       cf_find cf (view_of (wk_db w) (wk_project w) (wk_generation w) view) (staged_in w view) schema query)"

definition fields_match :: "json \<Rightarrow> event_match \<Rightarrow> bool" where
  "fields_match body m \<longleftrightarrow> list_all (\<lambda>(name, value). jget name body = Some value) (em_fields m)"

definition event_matches :: "event_match \<Rightarrow> event \<Rightarrow> bool" where
  "event_matches m e \<longleftrightarrow> type_name e = em_type_name m
     \<and> (case em_stream m of None \<Rightarrow> True | Some name \<Rightarrow> name = stream e) \<and> fields_match (payload e) m"

definition stored_event_exists :: "database \<Rightarrow> project_id \<Rightarrow> event_match \<Rightarrow> bool" where
  "stored_event_exists db project m = list_ex (event_matches m) (stored_events db project)"

definition event_exists :: "work \<Rightarrow> event_match \<Rightarrow> bool" where
  "event_exists w m \<longleftrightarrow> list_ex (event_matches m \<circ> fst) (wk_events w) \<or> stored_event_exists (wk_db w) (wk_project w) m"

definition expect_version :: "work \<Rightarrow> stream_name \<Rightarrow> u64 \<Rightarrow> store_error + unit" where
  "expect_version w name version =
     (if work_stream_version w name \<noteq> version
      then Inl (Stale (StaleStreamVersion name version (work_stream_version w name)))
      else Inr ())"

definition put_in_work :: "store_config \<Rightarrow> string \<Rightarrow> retention_class \<Rightarrow> work \<Rightarrow> store_error + payload_ref \<times> work" where
  "put_in_work cf bytes class w =
     rbind (put_payload (cf_sha cf) bytes class (wk_db w)) (\<lambda>(ref, db).
       Inr (ref, w\<lparr>wk_db := db, wk_put := wk_put w @ [pr_hash ref]\<rparr>))"

definition anchor_evidenced :: "work \<Rightarrow> anchor_pushed_payload \<Rightarrow> bool" where
  "anchor_evidenced w expected = list_ex (\<lambda>(e, _). type_name e = anchor_pushed \<and> type_version e = anchor_pushed_version
     \<and> stream e = anchor_stream \<and> anchor_pushed_from_value (payload e) = Some expected) (wk_events w)"

definition stage_anchor :: "anchor \<Rightarrow> string \<Rightarrow> string \<Rightarrow> string \<Rightarrow> work \<Rightarrow> store_error + work" where
  "stage_anchor a tag remote observed_at w =
     (if tag \<noteq> anchor_tag (wk_project w) (a_seq a)
      then Inl (invalid_event (tag @ '' is not the anchor tag of sequence '' @ dec (unat (a_seq a)) @ '' in this project''))
      else if \<not> anchor_evidenced w \<lparr>ap_tag = tag, ap_seq = a_seq a, ap_head = a_hash a, ap_remote = remote, ap_observed_at = observed_at\<rparr>
      then Inl (invalid_event ''an anchor row needs a matching anchor.pushed event in the same command'')
      else rbind (sql_int (a_seq a)) (\<lambda>_.
        let row = \<lparr>sa_anchor = a, sa_tag = tag, sa_pushed_at = observed_at\<rparr>;
            stored = Option.bind (db_projects (wk_db w) (wk_project w)) (\<lambda>r. pj_anchors r (a_seq a));
            earlier = (case stored of Some s \<Rightarrow> Some s | None \<Rightarrow> find (\<lambda>s. a_seq (sa_anchor s) = a_seq a) (wk_anchors w))
        in (case earlier of
              None \<Rightarrow> Inr (w\<lparr>wk_anchors := wk_anchors w @ [row]\<rparr>)
            | Some s \<Rightarrow>
                if s = row then Inr w
                else Inl (invalid_event (''an anchor row for sequence '' @ dec (unat (a_seq a))
                       @ '' already records another hash, tag or time'')))))"

section \<open>Decisions\<close>

datatype 'a program =
    Finished "store_error + 'a"
  | Get string doc_key "store_error + document option \<Rightarrow> 'a program"
  | Find string index_query "store_error + document_page \<Rightarrow> 'a program"
  | EventExists event_match "store_error + bool \<Rightarrow> 'a program"
  | Expect stream_name u64 "store_error + unit \<Rightarrow> 'a program"
  | Append new_event "store_error + u64 \<Rightarrow> 'a program"
  | PutPayload string retention_class "store_error + payload_ref \<Rightarrow> 'a program"
  | HeadOf "head option \<Rightarrow> 'a program"
  | RecordAnchor anchor string string string "store_error + unit \<Rightarrow> 'a program"

text \<open>An operation's answer and the work after it: an error leaves the work as it was, but noted.\<close>

definition answered :: "work \<Rightarrow> store_error + 'a \<times> work \<Rightarrow> (store_error + 'a) \<times> work" where
  "answered w r = noted (case r of Inl error \<Rightarrow> (Inl error, w) | Inr (value, w') \<Rightarrow> (Inr value, w'))"

primrec run :: "store_config \<Rightarrow> 'a program \<Rightarrow> work \<Rightarrow> (store_error + 'a) \<times> work" where
  "run cf (Finished r) w = (r, w)"
| "run cf (Get view key k) w =
     (let (r, w') = noted (get_staged cf w view key, w) in run cf (k r) w')"
| "run cf (Find view query k) w =
     (let (r, w') = noted (find_staged cf w view query, w) in run cf (k r) w')"
| "run cf (EventExists m k) w = run cf (k (Inr (event_exists w m))) w"
| "run cf (Expect name version k) w =
     (let (r, w') = noted (expect_version w name version, w) in run cf (k r) w')"
| "run cf (Append e k) w =
     (let (r, w') = noted (append_domain cf e w) in run cf (k r) w')"
| "run cf (PutPayload bytes class k) w =
     (let (r, w') = answered w (put_in_work cf bytes class w) in run cf (k r) w')"
| "run cf (HeadOf k) w = run cf (k (wk_head w)) w"
| "run cf (RecordAnchor a tag remote at k) w =
     (let (r, w') = answered w (case stage_anchor a tag remote at w of
                                  Inl error \<Rightarrow> Inl error | Inr w' \<Rightarrow> Inr ((), w'))
      in run cf (k r) w')"

section \<open>Answers\<close>

definition work_outcome :: "store_config \<Rightarrow> decision \<Rightarrow> work \<Rightarrow> store_error + outcome \<times> work" where
  "work_outcome cf d w =
     rbind (map_err (\<lambda>error. invalid_event (canonical_error_text error)) (canonical_json (dc_answer d))) (\<lambda>bytes.
       if \<not> dc_sensitive d \<and> length bytes \<le> inline_answer_limit
       then Inr (\<lparr>oc_kind = dc_kind d, oc_answer = Inline (dc_answer d)\<rparr>, w)
       else rbind (put_payload (cf_sha cf) bytes Record (wk_db w)) (\<lambda>(ref, db).
         Inr (\<lparr>oc_kind = dc_kind d, oc_answer = Stored ref\<rparr>, w\<lparr>wk_db := db\<rparr>)))"

section \<open>The re-check of what was observed\<close>

text \<open>
  What the caller's slow work saw, compared with the store before this command's writes.
\<close>

definition recheck_git :: "git_observation \<Rightarrow> store_error + unit" where
  "recheck_git g =
     (if go_head_seen g \<noteq> go_head_now g
      then Inl (Stale (StaleGit (go_checkout g) GitHead (go_head_seen g) (go_head_now g)))
      else if go_index_seen g \<noteq> go_index_now g
      then Inl (Stale (StaleGit (go_checkout g) GitIndex (go_index_seen g) (go_index_now g)))
      else Inr ())"

definition recheck_document :: "store_config \<Rightarrow> database \<Rightarrow> project_id \<Rightarrow> int \<Rightarrow> observed_document \<Rightarrow> store_error + unit" where
  "recheck_document cf db project generation d =
     rbind (get_document (cf_views cf) db project generation (od_view d) (od_key d)) (\<lambda>found.
       let now = map_option doc_seq found
       in if now \<noteq> od_produced_seq d
          then Inl (Stale (StaleDocument (od_view d) (od_key d) (od_produced_seq d) now))
          else Inr ())"

definition absence_present :: "store_config \<Rightarrow> database \<Rightarrow> project_id \<Rightarrow> int \<Rightarrow> absence \<Rightarrow> store_error + bool" where
  "absence_present cf db project generation a =
     (case a of
        AbsentEvent m \<Rightarrow> Inr (stored_event_exists db project m)
      | AbsentDocuments view index equals \<Rightarrow>
          rbind (view_schema_of (cf_views cf) view) (\<lambda>schema.
          rbind (cf_find cf (view_of db project generation view) [] schema
                   \<lparr>iq_index = index, iq_equals = equals, iq_limit = 1, iq_after = None\<rparr>) (\<lambda>page.
            Inr (pg_items page \<noteq> []))))"

definition recheck_absence :: "store_config \<Rightarrow> database \<Rightarrow> project_id \<Rightarrow> int \<Rightarrow> absence \<Rightarrow> store_error + unit" where
  "recheck_absence cf db project generation a =
     rbind (absence_present cf db project generation a) (\<lambda>present.
       if present then Inl (Stale (StaleAbsence a)) else Inr ())"

definition recheck :: "store_config \<Rightarrow> database \<Rightarrow> project_id \<Rightarrow> int \<Rightarrow> observed \<Rightarrow> store_error + unit" where
  "recheck cf db project generation ob =
     rbind (collect_results recheck_git (ob_git ob)) (\<lambda>_.
     rbind (collect_results (recheck_document cf db project generation) (ob_documents ob)) (\<lambda>_.
     rbind (collect_results (recheck_absence cf db project generation) (ob_absences ob)) (\<lambda>_. Inr ())))"

section \<open>Recording a completion\<close>

text \<open>An operation of the store's own: its error ends the command.\<close>

fun must :: "(store_error + 'a) \<times> work \<Rightarrow> store_error + 'a \<times> work" where
  "must (Inl error, w) = Inl error"
| "must (Inr value, w) = Inr (value, w)"

definition answer_attachments :: "answer \<Rightarrow> payload_ref list" where
  "answer_attachments a = (case a of Inline v \<Rightarrow> [] | Stored ref \<Rightarrow> [ref] | Tombstone ref status \<Rightarrow> [ref])"

definition complete_for ::
  "store_config \<Rightarrow> command_kind \<Rightarrow> request_id \<Rightarrow> hash \<Rightarrow> string list \<Rightarrow> outcome \<Rightarrow> git_facts option \<Rightarrow> work \<Rightarrow> store_error + work" where
  "complete_for cf kind request digest scope oc facts w =
     rbind (must (push_event cf
       \<lparr>ne_stream = command_stream kind, ne_type_name = command_completed, ne_type_version = command_completed_version,
        ne_git = facts, ne_payload = completed_payload_for kind request digest scope oc,
        ne_attachments = answer_attachments (oc_answer oc)\<rparr> w)) (\<lambda>(_, w'). Inr w')"

definition recheck_observed :: "store_config \<Rightarrow> observed \<Rightarrow> work \<Rightarrow> store_error + unit" where
  "recheck_observed cf ob w = recheck cf (wk_db w) (wk_project w) (wk_generation w) ob"

definition work_finish :: "store_config \<Rightarrow> outcome \<Rightarrow> git_facts option \<Rightarrow> observed option \<Rightarrow> work \<Rightarrow> store_error + work" where
  "work_finish cf oc facts observed w =
     rbind (case observed of None \<Rightarrow> Inr () | Some ob \<Rightarrow> recheck_observed cf ob w) (\<lambda>_.
       complete_for cf (cmd_kind (wk_command w)) (cmd_request_id (wk_command w)) (cmd_digest (wk_command w)) [] oc facts w)"

section \<open>Writing\<close>

fun put_references :: "project_id \<Rightarrow> u64 \<Rightarrow> payload_ref list \<Rightarrow> database \<Rightarrow> store_error + database" where
  "put_references project n [] db = Inr db"
| "put_references project n (ref # refs) db = rbind (put_reference project n ref db) (put_references project n refs)"

fun write_events :: "project_id \<Rightarrow> (event \<times> payload_ref list) list \<Rightarrow> database \<Rightarrow> store_error + database" where
  "write_events project [] db = Inr db"
| "write_events project ((e, attachments) # es) db =
     rbind (insert_event e db) (\<lambda>db. rbind (put_references project (seq e) attachments db) (write_events project es))"

definition set_view :: "project_id \<Rightarrow> int \<Rightarrow> string \<Rightarrow> view_table \<Rightarrow> database \<Rightarrow> database" where
  "set_view project generation view table =
     update_project project (\<lambda>r. r\<lparr>pj_views := (pj_views r)(generation := (pj_views r generation)(view := table))\<rparr>)"

fun write_views :: "view_set \<Rightarrow> project_id \<Rightarrow> int \<Rightarrow> (string \<times> staging) list \<Rightarrow> database \<Rightarrow> store_error + database" where
  "write_views vs project generation [] db = Inr db"
| "write_views vs project generation ((view, st) # staged) db =
     rbind (view_schema_of vs view) (\<lambda>schema.
     rbind (map_err view_store_error (write_staged (vt_spec schema) (view_of db project generation view) st)) (\<lambda>table.
       write_views vs project generation staged (set_view project generation view table db)))"

fun write_anchors :: "project_id \<Rightarrow> stored_anchor list \<Rightarrow> database \<Rightarrow> store_error + database" where
  "write_anchors project [] db = Inr db"
| "write_anchors project (row # rows) db = rbind (insert_anchor project row db) (write_anchors project rows)"

definition set_head :: "project_id \<Rightarrow> head \<Rightarrow> database \<Rightarrow> store_error + database" where
  "set_head project h db =
     rbind (sql_int (h_seq h)) (\<lambda>_.
       Inr (update_project project (\<lambda>r. r\<lparr>pj_head_seq := h_seq h, pj_head_hash := Some (h_hash h)\<rparr>) db))"

definition work_write :: "store_config \<Rightarrow> work \<Rightarrow> store_error + head \<times> database" where
  "work_write cf w =
     (case wk_head w of
        None \<Rightarrow> Inl (Unavailable ''a command that recorded no event'')
      | Some h \<Rightarrow>
          rbind (write_events (wk_project w) (wk_events w) (wk_db w)) (\<lambda>db.
          rbind (write_views (cf_views cf) (wk_project w) (wk_generation w) (wk_staged w) db) (\<lambda>db.
          rbind (write_anchors (wk_project w) (wk_anchors w) db) (\<lambda>db.
          rbind (set_head (wk_project w) h db) (\<lambda>db. Inr (h, db))))))"

end
