(* ===== verification/Command_Path.thy ===== *)
theory Command_Path
  imports Work
begin

text \<open>
  The shared command path (\<open>transact.rs\<close>) and the entries that go through it: \<open>transact\<close>, and
  \<open>claim\<close>, \<open>complete\<close>, \<open>reconcile\<close> and \<open>renew_lease\<close> of \<open>claim.rs\<close>.  A turn holds the writer queue
  and one write transaction; when the live views are not current it ends without writing, and the
  path brings them forward and starts again, which is outside this theory.
\<close>

section \<open>Turns\<close>

datatype entry = Ordinary | ClaimEntry | CompleteEntry claim_owner | ReconcileEntry claim_id

definition excluded :: "entry \<Rightarrow> claim option \<Rightarrow> claim_id option" where
  "excluded entry own =
     (case entry of
        CompleteEntry _ \<Rightarrow> map_option cl_id own
      | ReconcileEntry c \<Rightarrow> Some c
      | _ \<Rightarrow> None)"

datatype not_current = ViewsUnstamped | ViewsBehind

datatype 'a turn = TurnReplayed 'a | TurnNew 'a head | TurnNotCurrent not_current

section \<open>Claims as they stand\<close>

definition claim_from_doc :: "database \<Rightarrow> project_id \<Rightarrow> claim_doc \<Rightarrow> u64 option \<Rightarrow> claim" where
  "claim_from_doc db project doc held =
     \<lparr>cl_id = cd_id doc, cl_seq = cd_seq doc, cl_claimed_at = cd_claimed_at doc, cl_intent = cd_intent doc,
      cl_scope = cd_scope doc, cl_owner = cd_owner doc,
      cl_lease_renewed_at =
        (case lease_of db project (cd_id doc) of
           None \<Rightarrow> None
         | Some row \<Rightarrow> if ls_claim_seq row = cd_seq doc then Some (ls_renewed_at row) else None),
      cl_awaiting_owner = held\<rparr>"

definition held_seq :: "json \<Rightarrow> u64 option" where
  "held_seq body = do { held \<leftarrow> jget ''held'' body; n \<leftarrow> jget ''seq'' held; as_u64 n }"

definition no_state :: store_error where
  "no_state = Unavailable ''a request document that holds no state''"

definition invalid_lease :: store_error where
  "invalid_lease = Unavailable ''an invalid lease time''"

section \<open>Claim scopes\<close>

definition invalid_holder :: store_error where
  "invalid_holder = Unavailable ''a claim_scope document names a claim that does not hold it''"

text \<open>The claim that holds a token, unless it is the excluded one.\<close>

definition token_holder ::
  "view_set \<Rightarrow> database \<Rightarrow> project_id \<Rightarrow> int \<Rightarrow> claim_id option \<Rightarrow> string \<Rightarrow> store_error + claim option" where
  "token_holder vs db project generation excl token =
     rbind (get_document vs db project generation claim_scope_view [KText token]) (\<lambda>found.
       case found of
         None \<Rightarrow> Inr None
       | Some token_doc \<Rightarrow>
           rbind (ok_or invalid_holder (jget ''claim'' (doc_body token_doc))) (\<lambda>named.
           rbind (ok_or invalid_holder (get_str ''kind'' named)) (\<lambda>kind.
           rbind (ok_or invalid_holder (get_str ''request_id'' named)) (\<lambda>request.
           rbind (ok_or invalid_holder (Option.bind (jget ''seq'' named) as_u64)) (\<lambda>n.
             if get_str ''scope'' (doc_body token_doc) \<noteq> Some token then Inl invalid_holder
             else
           rbind (get_document vs db project generation request_view [KText kind, KText request]) (\<lambda>found.
           rbind (ok_or invalid_holder found) (\<lambda>request_doc.
           rbind (ok_or invalid_holder (request_state (doc_body request_doc))) (\<lambda>state.
           rbind (case state of
                    Claimed doc \<Rightarrow> Inr doc
                  | AwaitingClaim doc _ \<Rightarrow> Inr doc
                  | Completed _ _ \<Rightarrow> Inl invalid_holder) (\<lambda>doc.
             if ci_kind (cd_id doc) \<noteq> kind \<or> ci_request_id (cd_id doc) \<noteq> request \<or> cd_seq doc \<noteq> n
                \<or> token \<notin> set (cd_scope doc)
             then Inl invalid_holder
             else Inr (if excl \<noteq> Some (cd_id doc)
                       then Some (claim_from_doc db project doc (held_seq (doc_body request_doc)))
                       else None))))))))))"

fun scope_holders ::
  "view_set \<Rightarrow> database \<Rightarrow> project_id \<Rightarrow> int \<Rightarrow> claim_id option \<Rightarrow> string list \<Rightarrow> store_error + claim list" where
  "scope_holders vs db project generation excl [] = Inr []"
| "scope_holders vs db project generation excl (token # tokens) =
     rbind (token_holder vs db project generation excl token) (\<lambda>holder.
     rbind (scope_holders vs db project generation excl tokens) (\<lambda>holders.
       Inr (case holder of None \<Rightarrow> holders | Some h \<Rightarrow> h # holders)))"

definition check_scope :: "view_set \<Rightarrow> database \<Rightarrow> command \<Rightarrow> int \<Rightarrow> claim_id option \<Rightarrow> store_error + unit" where
  "check_scope vs db c generation excl =
     (if cmd_scope c = [] then Inr ()
      else rbind (view_schema_of vs claim_scope_view) (\<lambda>_.
           rbind (view_schema_of vs request_view) (\<lambda>_.
           rbind (scope_holders vs db (cmd_project c) generation excl (cmd_scope c)) (\<lambda>holders.
           rbind (map_err (\<lambda>_. invalid_lease) (blocking (cmd_scope c) holders (cmd_recorded_at c))) (\<lambda>found.
             case found of None \<Rightarrow> Inr () | Some b \<Rightarrow> Inl (Blocked b))))))"

section \<open>The request lookup\<close>

definition request_document :: "view_set \<Rightarrow> database \<Rightarrow> command \<Rightarrow> int \<Rightarrow> store_error + document option" where
  "request_document vs db c generation =
     get_document vs db (cmd_project c) generation request_view (request_key c)"

fun state_digest :: "request_state \<Rightarrow> hash" where
  "state_digest (Completed digest oc) = digest"
| "state_digest (Claimed doc) = cd_digest doc"
| "state_digest (AwaitingClaim doc n) = cd_digest doc"

text \<open>A stored answer whose own reference was released replays as a tombstone.\<close>

definition replayed_outcome :: "database \<Rightarrow> project_id \<Rightarrow> u64 \<Rightarrow> outcome \<Rightarrow> store_error + outcome" where
  "replayed_outcome db project n oc =
     (case oc_answer oc of
        Stored ref \<Rightarrow>
          rbind (reference_status db project n (pr_hash ref)) (\<lambda>status.
            Inr (case status of
                   Present _ \<Rightarrow> oc
                 | _ \<Rightarrow> oc\<lparr>oc_answer := Tombstone ref status\<rparr>))
      | _ \<Rightarrow> Inr oc)"

definition blocked_by :: "database \<Rightarrow> command \<Rightarrow> document \<Rightarrow> claim_doc \<Rightarrow> store_error" where
  "blocked_by db c document doc =
     (case claim_state (claim_from_doc db (cmd_project c) doc (held_seq (doc_body document))) (cmd_recorded_at c) of
        Inl _ \<Rightarrow> invalid_lease
      | Inr state \<Rightarrow> Blocked \<lparr>bl_claim = cd_id doc, bl_state = state\<rparr>)"

text \<open>An open request under each entry: \<open>Inr None\<close> goes on to the decision.\<close>

definition open_request ::
  "(database \<Rightarrow> request_state \<Rightarrow> u64 \<Rightarrow> store_error + 'a) \<Rightarrow> database \<Rightarrow> command \<Rightarrow> entry \<Rightarrow> document \<Rightarrow> request_state \<Rightarrow> claim_doc
     \<Rightarrow> store_error + 'a option" where
  "open_request replay db c entry document state doc =
     (case entry of
        CompleteEntry owner \<Rightarrow>
          if get_str ''state'' (doc_body document) = Some ''awaiting_owner''
          then Inl (RefusedBy (AwaitingOwnerClaim (cd_id doc)))
          else if cd_owner doc \<noteq> owner then Inl (RefusedBy (NotClaimOwner (cd_id doc)))
          else if cd_scope doc \<noteq> cmd_scope c
          then Inl (RefusedBy (ScopeMismatch (cd_id doc) (cmd_scope c) (cd_scope doc)))
          else Inr None
      | ClaimEntry \<Rightarrow> rbind (replay db state (doc_seq document)) (\<lambda>v. Inr (Some v))
      | _ \<Rightarrow> Inl (blocked_by db c document doc))"

definition lookup_request ::
  "view_set \<Rightarrow> (database \<Rightarrow> request_state \<Rightarrow> u64 \<Rightarrow> store_error + 'a) \<Rightarrow> database \<Rightarrow> command \<Rightarrow> entry \<Rightarrow> int
     \<Rightarrow> store_error + 'a option" where
  "lookup_request vs replay db c entry generation =
     rbind (request_document vs db c generation) (\<lambda>found.
       case found of
         None \<Rightarrow>
           (case entry of
              CompleteEntry _ \<Rightarrow>
                Inl (RefusedBy (UnknownClaim \<lparr>ci_kind = cmd_kind c, ci_request_id = cmd_request_id c\<rparr>))
            | _ \<Rightarrow> Inr None)
       | Some document \<Rightarrow>
           rbind (ok_or no_state (request_state (doc_body document))) (\<lambda>state.
             if state_digest state \<noteq> cmd_digest c then Inl (RefusedBy (RequestDigestMismatch (cmd_request_id c)))
             else (case state of
                     Completed digest oc \<Rightarrow>
                       rbind (replayed_outcome db (cmd_project c) (doc_seq document) oc) (\<lambda>oc.
                       rbind (replay db (Completed digest oc) (doc_seq document)) (\<lambda>v. Inr (Some v)))
                   | Claimed doc \<Rightarrow> open_request replay db c entry document state doc
                   | AwaitingClaim doc _ \<Rightarrow> open_request replay db c entry document state doc)))"

definition own_claim :: "view_set \<Rightarrow> database \<Rightarrow> command \<Rightarrow> entry \<Rightarrow> int \<Rightarrow> store_error + claim option" where
  "own_claim vs db c entry generation =
     (case entry of
        CompleteEntry _ \<Rightarrow>
          rbind (request_document vs db c generation) (\<lambda>found.
          rbind (ok_or (Unavailable ''a claim request vanished'') found) (\<lambda>document.
          rbind (ok_or no_state (request_state (doc_body document))) (\<lambda>state.
            case state of
              Claimed doc \<Rightarrow> Inr (Some (claim_from_doc db (cmd_project c) doc None))
            | _ \<Rightarrow> Inl (Unavailable ''a claim request changed''))))
      | _ \<Rightarrow> Inr None)"

section \<open>One turn\<close>

definition read_only :: "project_id \<Rightarrow> string \<Rightarrow> store_error" where
  "read_only project reason = RefusedBy (ProjectReadOnly project reason)"

fun fence_generation :: "project_id \<Rightarrow> view_fence \<Rightarrow> store_error + not_current + int" where
  "fence_generation project (FenceCurrent generation) = Inr (Inr generation)"
| "fence_generation project (FenceNewer reason) = Inl (read_only project reason)"
| "fence_generation project FenceUnstamped = Inr (Inl ViewsUnstamped)"
| "fence_generation project FenceBehind = Inr (Inl ViewsBehind)"

type_synonym 'a decide = "work \<Rightarrow> claim option \<Rightarrow> store_error + 'a \<times> work"

text \<open>The decision and what it wrote, once the command may be decided.\<close>

definition decide_and_write ::
  "store_config \<Rightarrow> 'a decide \<Rightarrow> database \<Rightarrow> command \<Rightarrow> head option \<Rightarrow> int \<Rightarrow> claim option \<Rightarrow> store_error + 'a turn \<times> database" where
  "decide_and_write cf new db c head generation own =
     rbind (new (work_new db c head generation) own) (\<lambda>(result, w).
       case wk_failed w of
         Some error \<Rightarrow> Inl error
       | None \<Rightarrow>
           rbind (check_payloads_attached w) (\<lambda>_.
           rbind (work_write cf w) (\<lambda>(h, db'). Inr (TurnNew result h, db'))))"

text \<open>The rest of a turn after the request lookup: a new request.\<close>

definition new_turn ::
  "store_config \<Rightarrow> 'a decide \<Rightarrow> command \<Rightarrow> entry \<Rightarrow> head option \<Rightarrow> live_views \<Rightarrow> int \<Rightarrow> database \<Rightarrow> marks
     \<Rightarrow> (store_error + 'a turn \<times> database) \<times> marks" where
  "new_turn cf new c entry head live generation db marks =
     (case fence_generation (cmd_project c) (judge_live_set (cf_views cf) live) of
        Inl error \<Rightarrow> (Inl error, marks)
      | Inr (Inl behind) \<Rightarrow> (Inr (TurnNotCurrent behind, db), marks)
      | Inr (Inr _) \<Rightarrow>
          (case check_readable cf db marks (cmd_project c) head of
             (Inl error, marks') \<Rightarrow> (Inl error, marks')
           | (Inr _, marks') \<Rightarrow>
               (rbind (own_claim (cf_views cf) db c entry generation) (\<lambda>own.
                rbind (check_scope (cf_views cf) db c generation (excluded entry own)) (\<lambda>_.
                  decide_and_write cf new db c head generation own)), marks')))"

definition turn_body ::
  "store_config \<Rightarrow> (database \<Rightarrow> request_state \<Rightarrow> u64 \<Rightarrow> store_error + 'a) \<Rightarrow> 'a decide \<Rightarrow> command \<Rightarrow> entry \<Rightarrow> database \<Rightarrow> marks
     \<Rightarrow> (store_error + 'a turn \<times> database) \<times> marks" where
  "turn_body cf replay new c entry db marks =
     (case rbind (stored_head db (cmd_project c)) (\<lambda>head.
           rbind (live_of db (cmd_project c)) (\<lambda>live.
           rbind (judge_live_request (cf_views cf) live) (\<lambda>fence.
           rbind (fence_generation (cmd_project c) fence) (\<lambda>judged. Inr (head, live, judged))))) of
        Inl error \<Rightarrow> (Inl error, marks)
      | Inr (head, live, Inl behind) \<Rightarrow> (Inr (TurnNotCurrent behind, db), marks)
      | Inr (head, live, Inr generation) \<Rightarrow>
          (case lookup_request (cf_views cf) replay db c entry generation of
             Inl error \<Rightarrow> (Inl error, marks)
           | Inr (Some value) \<Rightarrow> (Inr (TurnReplayed value, db), marks)
           | Inr None \<Rightarrow> new_turn cf new c entry head live generation db marks))"

text \<open>The write transaction around it, and the mark a commit leaves.\<close>

definition command_turn ::
  "store_config \<Rightarrow> (database \<Rightarrow> request_state \<Rightarrow> u64 \<Rightarrow> store_error + 'a) \<Rightarrow> 'a decide \<Rightarrow> command \<Rightarrow> entry \<Rightarrow> database \<times> marks
     \<Rightarrow> (store_error + 'a turn) \<times> database \<times> marks" where
  "command_turn cf replay new c entry st =
     (case transaction cf (turn_body cf replay new c entry) st of
        (Inr (TurnNew v h), db, marks) \<Rightarrow> (Inr (TurnNew v h), db, marks(cmd_project c \<mapsto> h))
      | r \<Rightarrow> r)"

definition command_path_for ::
  "store_config \<Rightarrow> (database \<Rightarrow> request_state \<Rightarrow> u64 \<Rightarrow> store_error + 'a) \<Rightarrow> 'a decide \<Rightarrow> command \<Rightarrow> entry \<Rightarrow> database \<times> marks
     \<Rightarrow> (store_error + 'a turn) \<times> database \<times> marks" where
  "command_path_for cf replay new c entry st =
     (if \<not> is_ok (parse_instant (cmd_recorded_at c)) then (Inl (invalid_event ''recorded_at is not a UTC instant''), st)
      else command_turn cf replay new c entry st)"

section \<open>Ordinary commands\<close>

definition completed_only :: "string \<Rightarrow> database \<Rightarrow> request_state \<Rightarrow> u64 \<Rightarrow> store_error + outcome" where
  "completed_only why db state n = (case state of Completed _ oc \<Rightarrow> Inr oc | _ \<Rightarrow> Inl (Unavailable why))"

definition decided :: "store_config \<Rightarrow> decision program \<Rightarrow> work \<Rightarrow> store_error + (decision \<times> outcome) \<times> work" where
  "decided cf decide w =
     rbind (must (run cf decide w)) (\<lambda>(d, w').
     rbind (work_outcome cf d w') (\<lambda>(oc, w'). Inr ((d, oc), w')))"

definition transact_new :: "store_config \<Rightarrow> decision program \<Rightarrow> outcome decide" where
  "transact_new cf decide w own =
     rbind (decided cf decide w) (\<lambda>((d, oc), w').
     rbind (work_finish cf oc (dc_git d) (Some (dc_observed d)) w') (\<lambda>w'. Inr (oc, w')))"

definition transact ::
  "store_config \<Rightarrow> command \<Rightarrow> decision program \<Rightarrow> database \<times> marks \<Rightarrow> (store_error + outcome turn) \<times> database \<times> marks" where
  "transact cf c decide =
     command_path_for cf (completed_only ''a request that cannot replay'') (transact_new cf decide) c Ordinary"

section \<open>Claims\<close>

datatype claim_decision =
    RefuseClaim decision
  | TakeClaim json claim_owner "git_facts option" observed

datatype claimed_result =
    ClaimReplayed outcome
  | ClaimInProgress claim
  | ClaimRefused outcome head
  | ClaimTaken u64

definition claim_replay :: "project_id \<Rightarrow> database \<Rightarrow> request_state \<Rightarrow> u64 \<Rightarrow> store_error + claimed_result" where
  "claim_replay project db state n =
     Inr (case state of
            Completed _ oc \<Rightarrow> ClaimReplayed oc
          | Claimed doc \<Rightarrow> ClaimInProgress (claim_from_doc db project doc None)
          | AwaitingClaim doc held \<Rightarrow> ClaimInProgress (claim_from_doc db project doc (Some held)))"

definition write_lease :: "claim_id \<Rightarrow> u64 \<Rightarrow> string \<Rightarrow> work \<Rightarrow> store_error + work" where
  "write_lease c n at w =
     rbind (sql_int n) (\<lambda>_.
       Inr (w\<lparr>wk_db := set_lease (wk_project w) c (Some \<lparr>ls_claim_seq = n, ls_renewed_at = at\<rparr>) (wk_db w)\<rparr>))"

definition drop_lease :: "claim_id \<Rightarrow> work \<Rightarrow> work" where
  "drop_lease c w = w\<lparr>wk_db := set_lease (wk_project w) c None (wk_db w)\<rparr>"

definition claimed_event :: "command \<Rightarrow> json \<Rightarrow> claim_owner \<Rightarrow> git_facts option \<Rightarrow> new_event" where
  "claimed_event c intent owner facts =
     \<lparr>ne_stream = command_stream (cmd_kind c), ne_type_name = command_claimed, ne_type_version = command_claimed_version,
      ne_git = facts,
      ne_payload = claimed_to_value \<lparr>cp_kind = cmd_kind c, cp_request_id = cmd_request_id c, cp_digest = cmd_digest c,
                     cp_intent = intent, cp_scope = cmd_scope c, cp_owner = owner\<rparr>,
      ne_attachments = []\<rparr>"

definition command_id :: "command \<Rightarrow> claim_id" where
  "command_id c = \<lparr>ci_kind = cmd_kind c, ci_request_id = cmd_request_id c\<rparr>"

definition claim_new :: "store_config \<Rightarrow> command \<Rightarrow> claim_decision program \<Rightarrow> claimed_result decide" where
  "claim_new cf c decide w own =
     rbind (must (run cf decide w)) (\<lambda>(d, w').
       case d of
         RefuseClaim d \<Rightarrow>
           rbind (work_outcome cf d w') (\<lambda>(oc, w').
           rbind (work_finish cf oc (dc_git d) (Some (dc_observed d)) w') (\<lambda>w'.
           rbind (ok_or (Unavailable ''completion appended'') (wk_head w')) (\<lambda>h. Inr (ClaimRefused oc h, w'))))
       | TakeClaim intent owner facts ob \<Rightarrow>
           if \<not> is_ok (parse_instant (co_started_at owner))
           then Inl (invalid_event ''claim owner started_at is not a UTC instant'')
           else rbind (recheck_observed cf ob w') (\<lambda>_.
                rbind (must (push_event cf (claimed_event c intent owner facts) w')) (\<lambda>(n, w').
                rbind (write_lease (command_id c) n (cmd_recorded_at c) w') (\<lambda>w'.
                  Inr (ClaimTaken n, w')))))"

definition claim_command ::
  "store_config \<Rightarrow> command \<Rightarrow> claim_decision program \<Rightarrow> database \<times> marks \<Rightarrow> (store_error + claimed_result turn) \<times> database \<times> marks" where
  "claim_command cf c decide = command_path_for cf (claim_replay (cmd_project c)) (claim_new cf c decide) c ClaimEntry"

section \<open>Completing a claim\<close>

definition complete_new :: "store_config \<Rightarrow> command \<Rightarrow> decision program \<Rightarrow> outcome decide" where
  "complete_new cf c decide w own =
     (case own of
        None \<Rightarrow> Inl (Unavailable ''complete looked up its claim'')
      | Some cl \<Rightarrow>
          rbind (decided cf decide w) (\<lambda>((d, oc), w').
          rbind (recheck_observed cf (dc_observed d) w') (\<lambda>_.
          rbind (complete_for cf (ci_kind (cl_id cl)) (ci_request_id (cl_id cl)) (cmd_digest c) (cl_scope cl) oc (dc_git d) w') (\<lambda>w'.
            Inr (oc, drop_lease (cl_id cl) w')))))"

definition complete ::
  "store_config \<Rightarrow> command \<Rightarrow> claim_owner \<Rightarrow> decision program \<Rightarrow> database \<times> marks \<Rightarrow> (store_error + outcome turn) \<times> database \<times> marks" where
  "complete cf c owner decide =
     command_path_for cf (completed_only ''a claim that cannot replay'') (complete_new cf c decide) c (CompleteEntry owner)"

section \<open>Reconciling a claim\<close>

text \<open>The interrupted claim a reconciliation names, as the decision sees it.\<close>

definition interrupted_claim ::
  "store_config \<Rightarrow> command \<Rightarrow> claim_id \<Rightarrow> reconcile_authority \<Rightarrow> work \<Rightarrow> store_error + (claim_doc \<times> claim) \<times> work" where
  "interrupted_claim cf c cid authority w =
     rbind (must (noted (get_staged cf w request_view [KText (ci_kind cid), KText (ci_request_id cid)], w))) (\<lambda>(found, w').
     rbind (ok_or (RefusedBy (UnknownClaim cid)) found) (\<lambda>document.
     rbind (ok_or no_state (request_state (doc_body document))) (\<lambda>state.
     rbind (case state of
              Claimed doc \<Rightarrow> Inr (doc, None)
            | AwaitingClaim doc n \<Rightarrow> Inr (doc, Some n)
            | Completed _ _ \<Rightarrow> Inl (Stale (StaleClaim cid))) (\<lambda>(doc, held).
       if cd_id doc \<noteq> cid then Inl (Unavailable ''a request document names another claim'')
       else let open_claim = claim_from_doc (wk_db w') (cmd_project c) doc held
            in rbind (map_err (\<lambda>_. invalid_lease) (claim_state open_claim (cmd_recorded_at c))) (\<lambda>state.
                 if state = Active then Inl (Stale (StaleClaimActive cid))
                 else if state = AwaitingOwner \<and> authority = Automatic then Inl (RefusedBy (AwaitingOwnerClaim cid))
                 else Inr ((doc, open_claim), w'))))))"

definition resolution_of :: "resolution \<Rightarrow> reconciled_resolution" where
  "resolution_of r = (case r of Resolved d \<Rightarrow> ResolvedClaim | ResolutionAwaitingOwner \<Rightarrow> HeldForOwner)"

definition reconciled_event :: "claim_id \<Rightarrow> claim \<Rightarrow> reconciliation \<Rightarrow> new_event" where
  "reconciled_event cid open_claim result =
     \<lparr>ne_stream = command_stream (ci_kind cid), ne_type_name = command_reconciled, ne_type_version = command_reconciled_version,
      ne_git = None,
      ne_payload = reconciled_to_value \<lparr>rp_claim = cid, rp_claim_seq = cl_seq open_claim, rp_finding = rc_finding result,
                     rp_resolution = resolution_of (rc_resolution result)\<rparr>,
      ne_attachments = []\<rparr>"

definition reconciled_answer :: "claim_id \<Rightarrow> u64 \<Rightarrow> reconciled_resolution \<Rightarrow> json" where
  "reconciled_answer cid n resolution =
     jobj [(''claim'', jobj [(''kind'', JString (ci_kind cid)), (''request_id'', JString (ci_request_id cid))]),
           (''reconciled'', jnum n), (''resolution'', JString (resolution_str resolution))]"

definition resolve_claim ::
  "store_config \<Rightarrow> claim_id \<Rightarrow> claim_doc \<Rightarrow> decision \<Rightarrow> work \<Rightarrow> store_error + work" where
  "resolve_claim cf cid doc d w =
     rbind (work_outcome cf d w) (\<lambda>(oc, w').
     rbind (recheck_observed cf (dc_observed d) w') (\<lambda>_.
     rbind (complete_for cf (ci_kind cid) (ci_request_id cid) (cd_digest doc) (cd_scope doc) oc (dc_git d) w') (\<lambda>w'.
       Inr (drop_lease cid w'))))"

definition reconcile_new ::
  "store_config \<Rightarrow> command \<Rightarrow> claim_id \<Rightarrow> reconcile_authority \<Rightarrow> (claim \<Rightarrow> reconciliation program) \<Rightarrow> outcome decide" where
  "reconcile_new cf c cid authority decide w own =
     rbind (interrupted_claim cf c cid authority w) (\<lambda>((doc, open_claim), w').
     rbind (must (run cf (decide open_claim) w')) (\<lambda>(result, w').
     rbind (recheck_observed cf (rc_observed result) w') (\<lambda>_.
     rbind (must (push_event cf (reconciled_event cid open_claim result) w')) (\<lambda>(n, w').
     rbind (case rc_resolution result of
              ResolutionAwaitingOwner \<Rightarrow> Inr w'
            | Resolved d \<Rightarrow> resolve_claim cf cid doc d w') (\<lambda>w'.
       let oc = \<lparr>oc_kind = Done, oc_answer = Inline (reconciled_answer cid n (resolution_of (rc_resolution result)))\<rparr>
       in rbind (work_finish cf oc None None w') (\<lambda>w'. Inr (oc, w')))))))"

definition reconcile ::
  "store_config \<Rightarrow> command \<Rightarrow> claim_id \<Rightarrow> reconcile_authority \<Rightarrow> (claim \<Rightarrow> reconciliation program) \<Rightarrow> database \<times> marks
     \<Rightarrow> (store_error + outcome turn) \<times> database \<times> marks" where
  "reconcile cf c cid authority decide st =
     (if authority = OwnerAuthority \<and> cmd_actor c \<noteq> Owner then (Inl (RefusedBy NotOwner), st)
      else if cmd_caller c \<noteq> None then (Inl (invalid_event ''a reconciliation records no caller''), st)
      else command_path_for cf (completed_only ''a reconciliation that cannot replay'')
             (reconcile_new cf c cid authority decide) c (ReconcileEntry cid) st)"

section \<open>Renewing a lease\<close>

definition lease_time :: "claim_id \<Rightarrow> string \<Rightarrow> string \<Rightarrow> store_error + unit" where
  "lease_time cid at floor =
     (case parse_instant at of
        Inl _ \<Rightarrow> Inl (RefusedBy (LeaseTime cid at floor))
      | Inr instant \<Rightarrow>
          (case parse_instant floor of
             Inl _ \<Rightarrow> Inl (Unavailable ''an invalid lease floor'')
           | Inr f \<Rightarrow> if instant_less_eq f instant then Inr () else Inl (RefusedBy (LeaseTime cid at floor))))"

definition renew_body ::
  "store_config \<Rightarrow> project_id \<Rightarrow> claim_id \<Rightarrow> claim_owner \<Rightarrow> string \<Rightarrow> database \<Rightarrow> store_error + unit option \<times> database" where
  "renew_body cf project cid owner at db =
     rbind (live_of db project) (\<lambda>live.
     rbind (judge_live_request (cf_views cf) live) (\<lambda>fence.
     rbind (fence_generation project fence) (\<lambda>judged.
       case judged of
         Inl _ \<Rightarrow> Inr (None, db)
       | Inr generation \<Rightarrow>
           rbind (get_document (cf_views cf) db project generation request_view [KText (ci_kind cid), KText (ci_request_id cid)]) (\<lambda>found.
           rbind (ok_or (RefusedBy (UnknownClaim cid)) found) (\<lambda>document.
           rbind (ok_or no_state (request_state (doc_body document))) (\<lambda>state.
           rbind (case state of Claimed doc \<Rightarrow> Inr doc | _ \<Rightarrow> Inl (Stale (StaleClaim cid))) (\<lambda>doc.
             if cd_id doc \<noteq> cid then Inl (Unavailable ''a request document names another claim'')
             else if cd_owner doc \<noteq> owner then Inl (RefusedBy (NotClaimOwner cid))
             else rbind (lease_time cid at
                    (case cl_lease_renewed_at (claim_from_doc db project doc None) of
                       None \<Rightarrow> cd_claimed_at doc | Some t \<Rightarrow> t)) (\<lambda>_.
                  rbind (sql_int (cd_seq doc)) (\<lambda>_.
                    Inr (Some (), set_lease project cid (Some \<lparr>ls_claim_seq = cd_seq doc, ls_renewed_at = at\<rparr>) db))))))))))"

definition renew_lease ::
  "store_config \<Rightarrow> project_id \<Rightarrow> claim_id \<Rightarrow> claim_owner \<Rightarrow> string \<Rightarrow> database \<times> marks
     \<Rightarrow> (store_error + unit option) \<times> database \<times> marks" where
  "renew_lease cf project cid owner at =
     transaction cf (\<lambda>db marks. (renew_body cf project cid owner at db, marks))"

end
