(* ===== verification/Command_Laws.thy ===== *)
theory Command_Laws
  imports Command_Path
begin

text \<open>
  What every entry of the command path keeps.  Until it writes, a command takes work steps: it
  seals and projects an event after its head, stores a body, changes a lease of its project or
  stages an anchor row.  Work steps keep the work's events a chain after the stored ones, with
  counted streams, and its staged documents what the projectors make of its events; so what a
  commit leaves is a chain again, and every current view is again the replay of its log.  The
  locale \<open>command_entry\<close> states the one law an entry owes for this: unless an operation failed, its
  decision took work steps.
\<close>

section \<open>What a decision can do\<close>

definition pushed :: "new_event \<Rightarrow> event \<Rightarrow> work \<Rightarrow> work" where
  "pushed e s w = w\<lparr>wk_streams := ains (ne_stream e) (stream_version s) (wk_streams w),
     wk_head := Some \<lparr>h_seq = seq s, h_hash = event_hash s\<rparr>, wk_events := wk_events w @ [(s, ne_attachments e)]\<rparr>"

inductive work_step :: "store_config \<Rightarrow> work \<Rightarrow> work \<Rightarrow> bool" for cf where
  step_push: "sealed_event cf e w = Inr s \<Longrightarrow> apply_projectors cf s w = (Inr (), w1) \<Longrightarrow> work_step cf w (pushed e s w1)"
| step_payload: "put_payload (cf_sha cf) bytes class (wk_db w) = Inr (ref, db) \<Longrightarrow>
     work_step cf w (w\<lparr>wk_db := db, wk_put := hs\<rparr>)"
| step_lease: "work_step cf w (w\<lparr>wk_db := set_lease (wk_project w) cid row (wk_db w)\<rparr>)"
| step_anchor: "work_step cf w (w\<lparr>wk_anchors := rows\<rparr>)"

abbreviation work_steps :: "store_config \<Rightarrow> work \<Rightarrow> work \<Rightarrow> bool" where
  "work_steps cf \<equiv> (work_step cf)\<^sup>*\<^sup>*"

lemma push_event_ok:
  "push_event cf e w = (Inr n, w') \<longleftrightarrow>
     (\<exists>s w1. sealed_event cf e w = Inr s \<and> apply_projectors cf s w = (Inr (), w1) \<and> n = seq s \<and> w' = pushed e s w1)"
  by (auto simp: push_event_def pushed_def split: sum.splits prod.splits)

lemma push_event_step: "push_event cf e w = (Inr n, w') \<Longrightarrow> work_step cf w w'"
  by (auto simp: push_event_ok intro: step_push)

lemma apply_projectors_failed: "apply_projectors cf e w = (r, w') \<Longrightarrow> wk_failed w' = wk_failed w"
  by (auto simp: apply_projectors_def split: sum.splits prod.splits)

lemma push_event_failed: "push_event cf e w = (r, w') \<Longrightarrow> wk_failed w' = wk_failed w"
  by (auto simp: push_event_def split: sum.splits prod.splits dest: apply_projectors_failed)

lemma put_in_work_step: "put_in_work cf bytes cl w = Inr (ref, w') \<Longrightarrow> work_step cf w w' \<and> wk_failed w' = wk_failed w"
  by (auto simp: put_in_work_def result_simps intro: step_payload)

lemma stage_anchor_step: "stage_anchor a tag remote t w = Inr w' \<Longrightarrow> work_steps cf w w' \<and> wk_failed w' = wk_failed w"
  by (auto simp: stage_anchor_def result_simps Let_def intro: step_anchor split: if_splits option.splits)

text \<open>An operation that was noted without an error did not fail, and kept no error from before.\<close>

lemma noted_ok:
  assumes "noted r = (r', w')" "wk_failed w' = None"
  shows "\<exists>v. fst r = Inr v" "r' = fst r" "w' = snd r"
  using assms by (cases r; auto simp: noted_def split: sum.splits option.splits)+

lemma noted_failed: "noted r = (r', w') \<Longrightarrow> wk_failed (snd r) \<noteq> None \<Longrightarrow> wk_failed w' \<noteq> None"
  by (cases r) (auto simp: noted_def split: sum.splits option.splits)

text \<open>An operation that leaves an earlier error standing.\<close>

definition keeps_error :: "((store_error + 'a) \<times> work) \<Rightarrow> work \<Rightarrow> bool" where
  "keeps_error r w \<longleftrightarrow> (wk_failed w \<noteq> None \<longrightarrow> wk_failed (snd r) \<noteq> None)"

lemma keeps_error_simps [simp]:
  "keeps_error (r, w) w" "keeps_error (push_event cf e w) w" "keeps_error (append_domain cf e w) w"
  by (auto simp: keeps_error_def append_domain_def push_event_failed [OF prod.collapse [symmetric]])

lemma keeps_error_noted [simp]: "keeps_error r w \<Longrightarrow> keeps_error (noted r) w"
  by (metis keeps_error_def noted_failed prod.collapse)

lemma keeps_error_answered:
  "(\<And>v w'. r = Inr (v, w') \<Longrightarrow> wk_failed w' = wk_failed w) \<Longrightarrow> keeps_error (answered w r) w"
  unfolding answered_def by (rule keeps_error_noted) (auto simp: keeps_error_def split: sum.splits)

lemma run_failed: "wk_failed w \<noteq> None \<Longrightarrow> wk_failed (snd (run cf d w)) \<noteq> None"
proof (induction d arbitrary: w)
  case (Append e k)
  have "keeps_error (noted (append_domain cf e w)) w" by simp
  with Append show ?case by (auto simp: keeps_error_def split: prod.split)
next
  case (PutPayload bytes cl k)
  have "keeps_error (answered w (put_in_work cf bytes cl w)) w"
    by (rule keeps_error_answered) (auto dest: put_in_work_step)
  with PutPayload show ?case by (auto simp: keeps_error_def split: prod.split)
next
  case (RecordAnchor a tag remote t k)
  have "keeps_error (answered w (case stage_anchor a tag remote t w of Inl error \<Rightarrow> Inl error | Inr w' \<Rightarrow> Inr ((), w'))) w"
    by (rule keeps_error_answered) (auto dest: stage_anchor_step split: sum.splits)
  with RecordAnchor show ?case by (auto simp: keeps_error_def split: prod.split)
next
  case (Get view key k)
  have "keeps_error (noted (get_staged cf w view key, w)) w" by simp
  with Get show ?case by (auto simp: keeps_error_def split: prod.split)
next
  case (Find view query k)
  have "keeps_error (noted (find_staged cf w view query, w)) w" by simp
  with Find show ?case by (auto simp: keeps_error_def split: prod.split)
next
  case (Expect name version k)
  have "keeps_error (noted (expect_version w name version, w)) w" by simp
  with Expect show ?case by (auto simp: keeps_error_def split: prod.split)
qed auto

text \<open>A decision that no operation failed went through work steps only.\<close>

lemma answered_ok:
  assumes "answered w r = (r', w')" "wk_failed w' = None"
  shows "\<exists>v. r = Inr (v, w') \<and> r' = Inr v"
  using noted_ok [OF assms [unfolded answered_def]] by (auto split: sum.splits prod.splits)

lemma run_invariant:
  assumes "run cf d w = (r, w')" "wk_failed w' = None"
    and refl: "\<And>w. R w w" and trans: "\<And>a b c. R a b \<Longrightarrow> R b c \<Longrightarrow> R a c"
    and append: "\<And>e n w w'. \<not> store_owned (ne_type_name e) \<Longrightarrow> push_event cf e w = (Inr n, w') \<Longrightarrow> R w w'"
    and put: "\<And>b cl ref w w'. put_in_work cf b cl w = Inr (ref, w') \<Longrightarrow> R w w'"
    and anchor: "\<And>a tag remote t w w'. stage_anchor a tag remote t w = Inr w' \<Longrightarrow> R w w'"
  shows "R w w' \<and> wk_failed w = None"
  using assms(1,2)
proof (induction d arbitrary: w)
  case (Finished v)
  then show ?case by (simp add: refl)
next
  case (Get view key k)
  obtain r1 w1 where r1: "noted (get_staged cf w view key, w) = (r1, w1)" by fastforce
  have "R w1 w' \<and> wk_failed w1 = None"
    by (rule Get.IH [of "k r1"]) (use Get.prems r1 in simp_all)
  with noted_ok(3) [OF r1] show ?case by simp
next
  case (Find view query k)
  obtain r1 w1 where r1: "noted (find_staged cf w view query, w) = (r1, w1)" by fastforce
  have "R w1 w' \<and> wk_failed w1 = None"
    by (rule Find.IH [of "k r1"]) (use Find.prems r1 in simp_all)
  with noted_ok(3) [OF r1] show ?case by simp
next
  case (EventExists m k)
  show ?case by (rule EventExists.IH [of "k (Inr (event_exists w m))"]) (use EventExists.prems in simp_all)
next
  case (Expect name version k)
  obtain r1 w1 where r1: "noted (expect_version w name version, w) = (r1, w1)" by fastforce
  have "R w1 w' \<and> wk_failed w1 = None"
    by (rule Expect.IH [of "k r1"]) (use Expect.prems r1 in simp_all)
  with noted_ok(3) [OF r1] show ?case by simp
next
  case (Append e k)
  obtain r1 w1 where r1: "noted (append_domain cf e w) = (r1, w1)" by fastforce
  have 1: "R w1 w' \<and> wk_failed w1 = None"
    by (rule Append.IH [of "k r1"]) (use Append.prems r1 in simp_all)
  then obtain n where n: "append_domain cf e w = (Inr n, w1)"
    using noted_ok [OF r1] by (metis prod.collapse)
  then have push: "\<not> store_owned (ne_type_name e)" "push_event cf e w = (Inr n, w1)"
    by (simp_all add: append_domain_def split: if_splits)
  with 1 push_event_failed [OF push(2)] show ?case using trans [OF append [OF push]] by simp
next
  case (PutPayload bytes cl k)
  obtain r1 w1 where r1: "answered w (put_in_work cf bytes cl w) = (r1, w1)" by fastforce
  have 1: "R w1 w' \<and> wk_failed w1 = None"
    by (rule PutPayload.IH [of "k r1"]) (use PutPayload.prems r1 in simp_all)
  then obtain v where v: "put_in_work cf bytes cl w = Inr (v, w1)" using answered_ok [OF r1] by blast
  with 1 put_in_work_step [OF v] show ?case using trans [OF put [OF v]] by simp
next
  case (HeadOf k)
  show ?case by (rule HeadOf.IH [of "k (wk_head w)"]) (use HeadOf.prems in simp_all)
next
  case (RecordAnchor a tag remote t k)
  obtain r1 w1 where r1: "answered w (case stage_anchor a tag remote t w of Inl error \<Rightarrow> Inl error | Inr w' \<Rightarrow> Inr ((), w')) = (r1, w1)"
    by fastforce
  have 1: "R w1 w' \<and> wk_failed w1 = None"
    by (rule RecordAnchor.IH [of "k r1"]) (use RecordAnchor.prems r1 in simp_all)
  then have v: "stage_anchor a tag remote t w = Inr w1" using answered_ok [OF r1] by (auto split: sum.splits)
  with 1 stage_anchor_step [OF v] show ?case using trans [OF anchor [OF v]] by simp
qed

lemma run_steps:
  assumes "run cf d w = (r, w')" "wk_failed w' = None"
  shows "work_steps cf w w' \<and> wk_failed w = None"
proof (rule run_invariant [OF assms])
  show "work_steps cf w w" for w by simp
  show "work_steps cf a c" if "work_steps cf a b" "work_steps cf b c" for a b c using that by (rule rtranclp_trans)
qed (auto dest: push_event_step put_in_work_step stage_anchor_step)

section \<open>What the entries add\<close>

lemma must_Inr [simp]: "must r = Inr (v, w) \<longleftrightarrow> r = (Inr v, w)"
  by (cases r rule: must.cases) auto

lemma step_payload': "put_payload (cf_sha cf) bytes class (wk_db w) = Inr (ref, db) \<Longrightarrow> work_step cf w (w\<lparr>wk_db := db\<rparr>)"
  using step_payload [where hs = "wk_put w"] by fastforce

lemma work_outcome_step: "work_outcome cf d w = Inr (oc, w') \<Longrightarrow> work_steps cf w w' \<and> wk_failed w' = wk_failed w"
  by (auto simp: work_outcome_def result_simps intro: step_payload' split: if_splits)

lemma complete_for_step: "complete_for cf kind request digest scope oc facts w = Inr w' \<Longrightarrow> work_steps cf w w' \<and> wk_failed w' = wk_failed w"
  by (auto simp: complete_for_def result_simps dest: push_event_step push_event_failed)

lemma work_finish_step: "work_finish cf oc facts ob w = Inr w' \<Longrightarrow> work_steps cf w w' \<and> wk_failed w' = wk_failed w"
  by (auto simp: work_finish_def result_simps dest: complete_for_step)

lemma write_lease_step: "write_lease cid n at w = Inr w' \<Longrightarrow> work_step cf w w' \<and> wk_failed w' = wk_failed w"
  by (auto simp: write_lease_def result_simps intro: step_lease)

lemma drop_lease_step: "work_step cf w (drop_lease cid w)" "wk_failed (drop_lease cid w) = wk_failed w"
  by (auto simp: drop_lease_def intro: step_lease)

section \<open>What a decision leaves alone\<close>

text \<open>
  Until it writes, a command changes payload bodies it adds and leases of its own project, nothing
  else.
\<close>

definition leased :: "project_id \<Rightarrow> database \<Rightarrow> database \<Rightarrow> bool" where
  "leased p db db' \<longleftrightarrow> db_epoch db' = db_epoch db
     \<and> (\<forall>q. q \<noteq> p \<longrightarrow> db_projects db' q = db_projects db q)
     \<and> (\<exists>l. db_projects db' p = map_option (\<lambda>r. r\<lparr>pj_leases := l\<rparr>) (db_projects db p))
     \<and> db_payloads db \<subseteq>\<^sub>m db_payloads db'"

lemma leased_refl [simp]: "leased p db db"
proof -
  have "\<exists>l. db_projects db p = map_option (\<lambda>r. r\<lparr>pj_leases := l\<rparr>) (db_projects db p)"
    by (cases "db_projects db p") (auto intro: exI [of _ "pj_leases (the (db_projects db p))"])
  then show ?thesis by (simp add: leased_def)
qed

lemma leased_trans:
  assumes "leased p a b" "leased p b c"
  shows "leased p a c"
proof -
  obtain l l' where "db_projects b p = map_option (\<lambda>r. r\<lparr>pj_leases := l\<rparr>) (db_projects a p)"
    "db_projects c p = map_option (\<lambda>r. r\<lparr>pj_leases := l'\<rparr>) (db_projects b p)"
    using assms by (auto simp: leased_def)
  then have "db_projects c p = map_option (\<lambda>r. r\<lparr>pj_leases := l'\<rparr>) (db_projects a p)"
    by (simp add: option.map_comp comp_def)
  then show ?thesis using assms by (auto simp: leased_def intro: map_le_trans)
qed

lemma leased_put: "put_payload sha bytes class db = Inr (ref, db') \<Longrightarrow> leased p db db'"
proof -
  assume a: "put_payload sha bytes class db = Inr (ref, db')"
  have "leased p db (db\<lparr>db_payloads := (db_payloads db)(h \<mapsto> row)\<rparr>)" if "db_payloads db h = None" for h row
  proof -
    have "\<exists>l. db_projects db p = map_option (\<lambda>r. r\<lparr>pj_leases := l\<rparr>) (db_projects db p)"
      using leased_refl [of p db] by (simp only: leased_def)
    with that show ?thesis by (auto simp: leased_def map_le_def)
  qed
  with a show ?thesis by (auto simp: put_payload_def Let_def result_simps split: if_splits option.splits payload_state.splits)
qed

lemma leased_set_lease: "leased p db (set_lease p cid row db)"
  by (cases "db_projects db p") (auto simp: leased_def set_lease_def update_project_def)

lemma work_step_leased:
  "work_step cf w w' \<Longrightarrow> wk_command w' = wk_command w \<and> wk_generation w' = wk_generation w
     \<and> leased (wk_project w) (wk_db w) (wk_db w')"
  by (induction rule: work_step.induct)
    (auto simp: pushed_def apply_projectors_def leased_set_lease split: sum.splits prod.splits intro: leased_put)

lemma work_steps_leased:
  "work_steps cf w w' \<Longrightarrow> wk_command w' = wk_command w \<and> wk_generation w' = wk_generation w
     \<and> leased (wk_project w) (wk_db w) (wk_db w')"
proof (induction rule: rtranclp_induct)
  case (step y z)
  with work_step_leased [OF step.hyps(2)] show ?case by (auto intro: leased_trans)
qed simp

lemma leased_events: "leased p db db' \<Longrightarrow> stored_events db' p = stored_events db p"
  by (auto simp: leased_def stored_events_def split: option.splits)

lemma leased_view: "leased p db db' \<Longrightarrow> view_of db' p generation view = view_of db p generation view"
  by (auto simp: leased_def view_of_def split: option.splits)

section \<open>The chain a decision extends\<close>

text \<open>A stream's versions count its events, from 1.\<close>

definition version_ok :: "event list \<Rightarrow> event \<Rightarrow> bool" where
  "version_ok es e \<longleftrightarrow> stream_version e = of_nat (Suc (length (filter (\<lambda>f. stream f = stream e) es)))"

definition versions_ok :: "event list \<Rightarrow> bool" where
  "versions_ok es \<longleftrightarrow> (\<forall>i < length es. version_ok (take i es) (es ! i))"

lemma versions_ok_Nil [simp]: "versions_ok []"
  by (simp add: versions_ok_def)

lemma versions_ok_snoc: "versions_ok (es @ [e]) \<longleftrightarrow> versions_ok es \<and> version_ok es e"
  by (auto simp: versions_ok_def less_Suc_eq nth_append)

lemma foldr_max: "foldr (\<lambda>e m. if P e then max (f e) m else m) es (k :: u64)
    = max k (foldr (\<lambda>e m. if P e then max (f e) m else m) es 0)"
  by (induction es) (auto simp: max.left_commute max.commute)

lemma max_version_count:
  "versions_ok es \<Longrightarrow> length es < 2 ^ 64 \<Longrightarrow> max_version es name = of_nat (length (filter (\<lambda>e. stream e = name) es))"
proof (induction es rule: rev_induct)
  case (snoc e es)
  let ?n = "length (filter (\<lambda>e. stream e = name) es)"
  have IH: "max_version es name = of_nat ?n" using snoc by (simp add: versions_ok_snoc)
  have n: "Suc ?n < 2 ^ 64"
    using snoc.prems(2) by (auto intro: le_less_trans [OF length_filter_le])
  have app: "max_version (es @ [e]) name = max (if stream e = name then stream_version e else 0) (max_version es name)"
    unfolding max_version_def using foldr_max [of "\<lambda>e. stream e = name" stream_version es "stream_version e"]
    by simp
  show ?case
  proof (cases "stream e = name")
    case True
    then have v: "stream_version e = of_nat (Suc ?n)" using snoc.prems(1) by (simp add: versions_ok_snoc version_ok_def)
    have "(of_nat ?n :: u64) \<le> of_nat (Suc ?n)"
      using n by (simp only: word_le_nat_alt unat_of_nat_u64 Suc_lessD)
    with True v app IH show ?thesis by (simp add: max_absorb1)
  next
    case False
    with app IH show ?thesis by simp
  qed
qed (simp add: max_version_def)

definition history :: "work \<Rightarrow> event list" where
  "history w = stored_events (wk_db w) (wk_project w) @ map fst (wk_events w)"

definition ledger_chain :: "store_config \<Rightarrow> project_id \<Rightarrow> event list \<Rightarrow> bool" where
  "ledger_chain cf p es \<longleftrightarrow> chain_ok (cf_sha cf) es \<and> versions_ok es \<and> (\<forall>e \<in> set es. project_id e = p) \<and> length es < 2 ^ 64"

text \<open>The work's head and stream versions are those of the stored events and its own.\<close>

definition work_chain :: "store_config \<Rightarrow> work \<Rightarrow> bool" where
  "work_chain cf w \<longleftrightarrow> ledger_chain cf (wk_project w) (history w) \<and> wk_head w = head_of (history w)
     \<and> (\<forall>name. work_stream_version w name = of_nat (length (filter (\<lambda>e. stream e = name) (history w))))"

lemma work_chainD:
  "work_chain cf w \<Longrightarrow> ledger_chain cf (wk_project w) (history w)"
  "work_chain cf w \<Longrightarrow> wk_head w = head_of (history w)"
  unfolding work_chain_def by blast+

lemma head_of_snoc: "head_of (es @ [e]) = Some \<lparr>h_seq = of_nat (Suc (length es)), h_hash = event_hash e\<rparr>"
  by (simp add: head_of_def)

lemma next_seq_head_of: "next_seq (head_of es) = of_nat (Suc (length es))"
  by (simp add: next_seq_def head_of_def)

lemma sealed_event_fields:
  assumes "sealed_event cf e w = Inr s"
  shows "project_id s = wk_project w" "seq s = next_seq (wk_head w)" "stream s = ne_stream e"
    "stream_version s = work_stream_version w (ne_stream e) + 1" "type_name s = ne_type_name e"
    "payload s = ne_payload e" "type_version s = ne_type_version e"
    "seal (cf_sha cf) (wk_project w) (next_seq (wk_head w)) (map_option h_hash (wk_head w))
       (draft_of (wk_command w) (work_stream_version w (ne_stream e) + 1) e) = Inr s"
  using assms by (auto simp: sealed_event_def result_simps seal_Inr place_def draft_of_def split: if_splits)

lemma apply_projectors_frame:
  "apply_projectors cf s w = (r, w') \<Longrightarrow> \<exists>st. w' = w\<lparr>wk_staged := st\<rparr>"
  by (auto simp: apply_projectors_def split: sum.splits prod.splits intro: exI [of _ "wk_staged w"])

text \<open>A decision's own events are never of a type the store records itself.\<close>

definition appended :: "(event \<Rightarrow> bool) \<Rightarrow> work \<Rightarrow> work \<Rightarrow> bool" where
  "appended P w w' \<longleftrightarrow> (\<exists>es. wk_events w' = wk_events w @ es \<and> list_all (P \<circ> fst) es)"

lemma appended_refl [simp]: "wk_events w' = wk_events w \<Longrightarrow> appended P w w'"
  by (simp add: appended_def)

lemma appended_trans: "appended P a b \<Longrightarrow> appended P b c \<Longrightarrow> appended P a c"
  by (force simp: appended_def)

lemma appended_mono: "appended P a b \<Longrightarrow> (\<And>e. P e \<Longrightarrow> Q e) \<Longrightarrow> appended Q a b"
  by (auto simp: appended_def list_all_iff)

lemma push_appended:
  assumes "push_event cf e w = (Inr n, w')"
  shows "appended (\<lambda>s. type_name s = ne_type_name e \<and> payload s = ne_payload e) w w'"
proof -
  obtain s w1 where s: "sealed_event cf e w = Inr s" "apply_projectors cf s w = (Inr (), w1)" "w' = pushed e s w1"
    using assms by (auto simp: push_event_ok)
  obtain st where "w1 = w\<lparr>wk_staged := st\<rparr>" using apply_projectors_frame [OF s(2)] by blast
  then have "wk_events w' = wk_events w @ [(s, ne_attachments e)]" by (simp add: s(3) pushed_def)
  with sealed_event_fields [OF s(1)] show ?thesis by (simp add: appended_def)
qed

lemma run_appended:
  assumes "run cf d w = (r, w')" "wk_failed w' = None"
  shows "appended (\<lambda>s. \<not> store_owned (type_name s)) w w'"
proof (rule conjunct1 [OF run_invariant [OF assms]])
  show "appended (\<lambda>s. \<not> store_owned (type_name s)) a c"
    if "appended (\<lambda>s. \<not> store_owned (type_name s)) a b" "appended (\<lambda>s. \<not> store_owned (type_name s)) b c" for a b c
    using that by (rule appended_trans)
  show "appended (\<lambda>s. \<not> store_owned (type_name s)) w w'"
    if "\<not> store_owned (ne_type_name e)" "push_event cf e w = (Inr n, w')" for e n w w'
    using appended_mono [OF push_appended [OF that(2)]] that(1) by simp
qed (auto simp: put_in_work_def stage_anchor_def result_simps Let_def split: if_splits option.splits)

lemma push_chain:
  assumes "work_chain cf w" "sealed_event cf e w = Inr s" "apply_projectors cf s w = (Inr (), w1)"
  shows "history (pushed e s w1) = history w @ [s] \<and> work_chain cf (pushed e s w1)"
proof -
  let ?es = "history w"
  obtain st where w1: "w1 = w\<lparr>wk_staged := st\<rparr>" using apply_projectors_frame [OF assms(3)] by blast
  have h: "history (pushed e s w1) = ?es @ [s]" by (simp add: history_def pushed_def w1)
  have c: "chain_ok (cf_sha cf) ?es" "versions_ok ?es" "\<forall>e \<in> set ?es. project_id e = wk_project w" "length ?es < 2 ^ 64"
    and head: "wk_head w = head_of ?es"
    and streams: "work_stream_version w name = of_nat (length (filter (\<lambda>e. stream e = name) ?es))" for name
    using assms(1) by (auto simp: work_chain_def ledger_chain_def)
  note s = sealed_event_fields [OF assms(2)]
  have seal: "seal (cf_sha cf) (wk_project w) (of_nat (length ?es + 1)) (map_option h_hash (head_of ?es))
       (draft_of (wk_command w) (work_stream_version w (ne_stream e) + 1) e) = Inr s"
    using s(8) by (simp add: head next_seq_head_of)
  have "of_nat (length ?es + 1) \<noteq> (0 :: u64)" using seal unfolding seal_Inr by blast
  moreover have "(of_nat (2 ^ 64) :: u64) = 0" by simp
  ultimately have "length ?es + 1 \<noteq> 2 ^ 64" by metis
  then have len: "length ?es + 1 < 2 ^ 64" using c(4) by simp
  have link: "link_ok (cf_sha cf) ?es s"
    using seal_hash [OF s(8)] s(1) c(3) seal by (auto simp: seal_Inr link_ok_def)
  have version: "version_ok ?es s"
    by (simp add: version_ok_def s(3,4) streams)
  have "ledger_chain cf (wk_project w) (?es @ [s])"
    using c link version len s(1) by (simp add: ledger_chain_def chain_ok_snoc versions_ok_snoc)
  moreover have "work_stream_version (pushed e s w1) name = of_nat (length (filter (\<lambda>e. stream e = name) (?es @ [s])))" for name
    using streams [of name] s(3,4) streams [of "ne_stream e"]
    by (auto simp: work_stream_version_def pushed_def w1 split: option.splits)
  moreover have "seq s = of_nat (Suc (length ?es))" by (simp only: s(2) head next_seq_head_of)
  then have "wk_head (pushed e s w1) = head_of (?es @ [s])" by (simp add: head_of_snoc) (simp add: pushed_def)
  moreover have "wk_project (pushed e s w1) = wk_project w" by (simp add: pushed_def w1)
  ultimately show ?thesis unfolding work_chain_def h by simp
qed

lemma work_chain_start:
  assumes "ledger_chain cf (cmd_project c) (stored_events db (cmd_project c))"
  shows "work_chain cf (work_new db c (head_of (stored_events db (cmd_project c))) generation)"
  using assms by (simp add: work_chain_def history_def work_new_def work_stream_version_def ledger_chain_def max_version_count)

lemma work_step_chain: "work_step cf w w' \<Longrightarrow> work_chain cf w \<Longrightarrow> work_chain cf w'"
proof (induction rule: work_step.induct)
  case (step_push e w s w1)
  then show ?case using push_chain by blast
next
  case (step_payload bytes cl w ref db hs)
  then have "stored_events db p = stored_events (wk_db w) p" for p using leased_events leased_put by blast
  with step_payload.prems show ?case
    by (simp add: work_chain_def history_def work_stream_version_def cong: option.case_cong)
next
  case (step_lease w cid row)
  have "stored_events (set_lease (wk_project w) cid row (wk_db w)) (wk_project w) = stored_events (wk_db w) (wk_project w)"
    using leased_events leased_set_lease by blast
  with step_lease.prems show ?case
    by (simp add: work_chain_def history_def work_stream_version_def cong: option.case_cong)
next
  case (step_anchor w rows)
  then show ?case by (simp add: work_chain_def history_def work_stream_version_def cong: option.case_cong)
qed

lemma work_steps_chain: "work_steps cf w w' \<Longrightarrow> work_chain cf w \<Longrightarrow> work_chain cf w'"
  by (induction rule: rtranclp_induct) (auto intro: work_step_chain)

section \<open>The store's configuration\<close>

definition store_projectors :: "projector list \<Rightarrow> projector list" where
  "store_projectors domain = claim_scope_projector # request_projector # domain"

text \<open>What opening a store establishes of its projectors and views.\<close>

definition configured :: "store_config \<Rightarrow> bool" where
  "configured cf \<longleftrightarrow> (\<exists>domain version. cf_projectors cf = store_projectors domain
     \<and> view_set_new (map p_spec (store_projectors domain)) version = Inr (cf_views cf))"

abbreviation view_name :: "projector \<Rightarrow> string" where
  "view_name p \<equiv> vs_name (p_spec p)"

lemma view_set_tables_specs:
  "view_set_tables specs views = Inr tables \<Longrightarrow>
     distinct (map vs_name specs) \<and> (\<forall>s \<in> set specs. map_of views (vs_name s) = None)
     \<and> (\<forall>s \<in> set specs. \<exists>t. map_of tables (vs_name s) = Some t \<and> vt_spec t = s)
     \<and> (\<forall>k. k \<notin> vs_name ` set specs \<longrightarrow> map_of tables k = map_of views k)"
proof (induction specs views rule: view_set_tables.induct)
  case (2 s ss views)
  from "2.prems" obtain t where t: "view_schema_new s = Inr t" "map_of views (vs_name s) = None"
      "view_set_tables ss (ains (vs_name s) t views) = Inr tables"
    by (auto simp: result_simps split: if_splits)
  have IH: "distinct (map vs_name ss)" "\<forall>u \<in> set ss. map_of (ains (vs_name s) t views) (vs_name u) = None"
    "\<forall>u \<in> set ss. \<exists>t. map_of tables (vs_name u) = Some t \<and> vt_spec t = u"
    "\<forall>k. k \<notin> vs_name ` set ss \<longrightarrow> map_of tables k = map_of (ains (vs_name s) t views) k"
    using "2.IH" [OF _ t(3)] t(2) by simp_all
  have new: "vs_name s \<notin> vs_name ` set ss" using IH(2) by (auto split: if_splits)
  moreover have "map_of tables (vs_name s) = Some t" using IH(4) new by simp
  moreover have "vt_spec t = s" using view_schema_newD [OF t(1)] by simp
  ultimately show ?case using IH t(2) by (auto split: if_splits)
qed simp

lemma configuredD:
  assumes "configured cf"
  shows "distinct (map view_name (cf_projectors cf))"
    "p \<in> set (cf_projectors cf) \<Longrightarrow> \<exists>t. view_schema_of (cf_views cf) (view_name p) = Inr t \<and> vt_spec t = p_spec p"
    "claim_scope_projector \<in> set (cf_projectors cf)" "request_projector \<in> set (cf_projectors cf)"
proof -
  obtain domain version where c: "cf_projectors cf = store_projectors domain"
    "view_set_new (map p_spec (store_projectors domain)) version = Inr (cf_views cf)"
    using assms by (auto simp: configured_def)
  then have t: "view_set_tables (map p_spec (cf_projectors cf)) [] = Inr (vset_tables (cf_views cf))"
    by (auto simp: view_set_new_def result_simps dest: sym)
  from view_set_tables_specs [OF t] show "distinct (map view_name (cf_projectors cf))"
    "p \<in> set (cf_projectors cf) \<Longrightarrow> \<exists>t. view_schema_of (cf_views cf) (view_name p) = Inr t \<and> vt_spec t = p_spec p"
    by (auto simp: comp_def view_schema_of_def ok_or_def)
  show "claim_scope_projector \<in> set (cf_projectors cf)" "request_projector \<in> set (cf_projectors cf)"
    by (simp_all add: c(1) store_projectors_def)
qed

section \<open>Each view is folded on its own\<close>

abbreviation staging_of :: "(string \<times> staging) list \<Rightarrow> string \<Rightarrow> staging" where
  "staging_of staged view \<equiv> (case map_of staged view of None \<Rightarrow> [] | Some st \<Rightarrow> st)"

lemma fold_projectors_other:
  "fold_projectors vs ps tables e staged = (r, staged') \<Longrightarrow> view \<notin> view_name ` set ps \<Longrightarrow>
     map_of staged' view = map_of staged view"
  by (induction vs ps tables e staged rule: fold_projectors.induct) (auto simp: Let_def split: if_splits sum.splits)

lemma fold_projectors_each:
  assumes "fold_projectors vs ps tables e staged = (Inr (), staged')" "distinct (map view_name ps)" "p \<in> set ps"
  shows "fold_event p (tables (view_name p)) e (staging_of staged (view_name p)) = Inr (staging_of staged' (view_name p))"
  using assms
proof (induction vs ps tables e staged rule: fold_projectors.induct)
  case (2 vs q ps tables e staged)
  show ?case
  proof (cases "type_name e \<in> set (p_handles q)")
    case False
    with "2.prems"(1) have rest: "fold_projectors vs ps tables e staged = (Inr (), staged')" by simp
    show ?thesis
    proof (cases "p = q")
      case True
      with "2.prems"(2) have "view_name p \<notin> view_name ` set ps" by auto
      from fold_projectors_other [OF rest this] False True show ?thesis by (simp add: fold_event_def)
    next
      case neq: False
      show ?thesis using "2.IH"(1) [OF False rest] "2.prems"(2,3) neq by simp
    qed
  next
    case True
    let ?st = "staging_of staged (view_name q)"
    from True "2.prems"(1) obtain schema st' where st': "view_schema_of vs (view_name q) = Inr schema"
      "fold_event q (tables (view_name q)) e ?st = Inr st'"
      and rest: "fold_projectors vs ps tables e (ains (view_name q) st' staged) = (Inr (), staged')"
      by (auto simp: Let_def result_simps split: sum.splits)
    show ?thesis
    proof (cases "p = q")
      case pq: True
      with "2.prems"(2) have "view_name p \<notin> view_name ` set ps" by auto
      from fold_projectors_other [OF rest this] st' pq show ?thesis by simp
    next
      case neq: False
      then have "p \<in> set ps" using "2.prems"(3) by simp
      then have "view_name p \<in> view_name ` set ps" by simp
      then have "view_name p \<noteq> view_name q" using "2.prems"(2) by auto
      moreover have "fold_event p (tables (view_name p)) e (staging_of (ains (view_name q) st' staged) (view_name p))
          = Inr (staging_of staged' (view_name p))"
        using "2.IH"(2) [of "view_name q" ?st st'] True st' rest "2.prems"(2) \<open>p \<in> set ps\<close> by simp
      ultimately show ?thesis by simp
    qed
  qed
qed simp

lemma fold_projectors_keys:
  "fold_projectors vs ps tables e staged = (r, staged') \<Longrightarrow> akeys_sorted staged \<Longrightarrow>
     akeys_sorted staged' \<and> fst ` set staged' \<subseteq> fst ` set staged \<union> view_name ` set ps"
proof (induction vs ps tables e staged rule: fold_projectors.induct)
  case (2 vs q ps tables e staged)
  show ?case
  proof (cases "type_name e \<in> set (p_handles q)")
    case False
    from "2.IH"(1) [OF False] "2.prems" False show ?thesis by auto
  next
    case True
    let ?st = "staging_of staged (view_name q)"
    show ?thesis
    proof (cases "rbind (view_schema_of vs (view_name q)) (\<lambda>_. map_err view_store_error (fold_event q (tables (view_name q)) e ?st))")
      case (Inl err)
      with True "2.prems" show ?thesis by (auto simp: Let_def)
    next
      case (Inr st')
      with True "2.prems"(1) have "fold_projectors vs ps tables e (ains (view_name q) st' staged) = (r, staged')"
        by (simp add: Let_def)
      from "2.IH"(2) [OF _ refl refl Inr this] True "2.prems"(2) show ?thesis
        by (auto simp: akeys_sorted_ains set_keys_ains)
    qed
  qed
qed simp

section \<open>What the staged documents are\<close>

text \<open>The documents staged for every view are what its projector makes of the command's events.\<close>

definition work_views :: "store_config \<Rightarrow> work \<Rightarrow> bool" where
  "work_views cf w \<longleftrightarrow> akeys_sorted (wk_staged w) \<and> fst ` set (wk_staged w) \<subseteq> view_name ` set (cf_projectors cf)
     \<and> (\<exists>copies. collect_results (copy_event cf) (map fst (wk_events w)) = Inr copies
          \<and> (\<forall>p \<in> set (cf_projectors cf).
               fold_events p (view_of (wk_db w) (wk_project w) (wk_generation w) (view_name p)) copies []
                 = Inr (staging_of (wk_staged w) (view_name p))))"

lemma fold_events_append: "fold_events p table (es @ fs) s = rbind (fold_events p table es s) (fold_events p table fs)"
proof (induction es arbitrary: s)
  case (Cons e es)
  then show ?case by (cases "fold_event p table e s") auto
qed simp

lemma collect_results_snoc:
  "collect_results f xs = Inr ys \<Longrightarrow> f x = Inr y \<Longrightarrow> collect_results f (xs @ [x]) = Inr (ys @ [y])"
  by (simp add: collect_results_Inr_iff list_all2_appendI)

lemma push_views:
  assumes conf: "configured cf" and w: "work_views cf w" and a: "apply_projectors cf s w = (Inr (), w1)"
  shows "work_views cf (pushed e s w1)"
proof -
  obtain copy staged where copy: "copy_event cf s = Inr copy" and w1: "w1 = w\<lparr>wk_staged := staged\<rparr>"
    and fold: "fold_projectors (cf_views cf) (cf_projectors cf)
       (view_of (wk_db w) (wk_project w) (wk_generation w)) copy (wk_staged w) = (Inr (), staged)"
    using a by (auto simp: apply_projectors_def split: sum.splits prod.splits)
  obtain copies where cs: "collect_results (copy_event cf) (map fst (wk_events w)) = Inr copies"
    "\<forall>p \<in> set (cf_projectors cf). fold_events p (view_of (wk_db w) (wk_project w) (wk_generation w) (view_name p)) copies []
                 = Inr (staging_of (wk_staged w) (view_name p))"
    using w by (auto simp: work_views_def)
  have keys: "akeys_sorted staged" "fst ` set staged \<subseteq> view_name ` set (cf_projectors cf)"
    using fold_projectors_keys [OF fold] w by (auto simp: work_views_def)
  have each: "fold_events p (view_of (wk_db w) (wk_project w) (wk_generation w) (view_name p)) (copies @ [copy]) []
      = Inr (staging_of staged (view_name p))" if "p \<in> set (cf_projectors cf)" for p
    using cs(2) that fold_projectors_each [OF fold configuredD(1) [OF conf] that]
    by (simp add: fold_events_append)
  show ?thesis
    using keys each collect_results_snoc [OF cs(1) copy] unfolding work_views_def pushed_def w1
    by (intro conjI exI [of _ "copies @ [copy]"]) simp_all
qed

lemma work_views_start: "work_views cf (work_new db c head generation)"
  by (simp add: work_views_def work_new_def akeys_sorted_def)

lemma work_step_views: "work_step cf w w' \<Longrightarrow> configured cf \<Longrightarrow> work_views cf w \<Longrightarrow> work_views cf w'"
proof (induction rule: work_step.induct)
  case (step_push e w s w1)
  then show ?case using push_views by blast
next
  case (step_payload bytes cl w ref db hs)
  then have "view_of db p g v = view_of (wk_db w) p g v" for p g v using leased_view leased_put by blast
  with step_payload.prems show ?case by (simp add: work_views_def)
next
  case (step_lease w cid row)
  have "view_of (set_lease (wk_project w) cid row (wk_db w)) (wk_project w) g v = view_of (wk_db w) (wk_project w) g v" for g v
    using leased_view leased_set_lease by blast
  with step_lease.prems show ?case by (simp add: work_views_def)
next
  case (step_anchor w rows)
  then show ?case by (simp add: work_views_def)
qed

lemma work_steps_views: "work_steps cf w w' \<Longrightarrow> configured cf \<Longrightarrow> work_views cf w \<Longrightarrow> work_views cf w'"
  by (induction rule: rtranclp_induct) (auto intro: work_step_views)

section \<open>What a write leaves\<close>

text \<open>A write to one project's rows.\<close>

definition row_written :: "project_id \<Rightarrow> project_row \<Rightarrow> project_row \<Rightarrow> database \<Rightarrow> database \<Rightarrow> bool" where
  "row_written p r r' db db' \<longleftrightarrow> db_projects db p = Some r \<and> db' = db\<lparr>db_projects := (db_projects db)(p \<mapsto> r')\<rparr>"

lemma row_written_update: "db_projects db p = Some r \<Longrightarrow> row_written p r (f r) db (update_project p f db)"
  by (simp add: row_written_def update_project_def)

lemma row_written_refl: "db_projects db p = Some r \<Longrightarrow> row_written p r r db db"
  by (cases db) (auto simp: row_written_def)

lemma row_written_trans: "row_written p r r' db db' \<Longrightarrow> row_written p r' r'' db' db'' \<Longrightarrow> row_written p r r'' db db''"
  by (auto simp: row_written_def)

lemma row_written_row: "row_written p r r' db db' \<Longrightarrow> db_projects db' p = Some r'"
  by (simp add: row_written_def)

abbreviation ref_keys :: "reference_row list \<Rightarrow> (u64 \<times> hash) list" where
  "ref_keys rows \<equiv> map (\<lambda>row. (rr_seq row, rr_hash row)) rows"

text \<open>The reference rows an event's attachments leave.\<close>

definition reference_rows :: "event \<times> payload_ref list \<Rightarrow> reference_row list" where
  "reference_rows p = map (\<lambda>ref. \<lparr>rr_seq = seq (fst p), rr_hash = pr_hash ref, rr_class = pr_class ref, rr_released = None\<rparr>) (snd p)"

lemma put_references_row:
  assumes "put_references p n refs db = Inr db'" "db_projects db p = Some r"
  shows "row_written p r (r\<lparr>pj_refs := pj_refs r @ map (\<lambda>ref. \<lparr>rr_seq = n, rr_hash = pr_hash ref, rr_class = pr_class ref, rr_released = None\<rparr>) refs\<rparr>) db db'
    \<and> (distinct (ref_keys (pj_refs r)) \<longrightarrow> distinct (ref_keys (pj_refs r @ map (\<lambda>ref. \<lparr>rr_seq = n, rr_hash = pr_hash ref, rr_class = pr_class ref, rr_released = None\<rparr>) refs)))"
  using assms
proof (induction refs arbitrary: db r)
  case (Cons ref refs)
  let ?row = "\<lparr>rr_seq = n, rr_hash = pr_hash ref, rr_class = pr_class ref, rr_released = None\<rparr>"
  let ?r = "r\<lparr>pj_refs := pj_refs r @ [?row]\<rparr>"
  from Cons.prems have put: "put_reference p n ref db = Inr (update_project p (\<lambda>r. r\<lparr>pj_refs := pj_refs r @ [?row]\<rparr>) db)"
    and new: "(n, pr_hash ref) \<notin> set (ref_keys (pj_refs r))"
    and rest: "put_references p n refs (update_project p (\<lambda>r. r\<lparr>pj_refs := pj_refs r @ [?row]\<rparr>) db) = Inr db'"
    by (auto simp: put_reference_def result_simps split: if_splits)
  have w: "row_written p r ?r db (update_project p (\<lambda>r. r\<lparr>pj_refs := pj_refs r @ [?row]\<rparr>) db)"
    using row_written_update [OF Cons.prems(2)] .
  from Cons.IH [OF rest row_written_row [OF w]] new row_written_trans [OF w] show ?case by auto
qed (simp add: row_written_refl)

lemma write_events_row:
  assumes "write_events p evs db = Inr db'" "db_projects db p = Some r" "\<forall>(e, as) \<in> set evs. project_id e = p"
  shows "row_written p r (r\<lparr>pj_events := pj_events r @ map fst evs, pj_refs := pj_refs r @ concat (map reference_rows evs)\<rparr>) db db'
    \<and> (distinct (ref_keys (pj_refs r)) \<longrightarrow> distinct (ref_keys (pj_refs r @ concat (map reference_rows evs))))
    \<and> (\<forall>(e, as) \<in> set evs. unat (seq e) < 2 ^ 63)"
  using assms
proof (induction evs arbitrary: db r)
  case (Cons q evs)
  obtain e as where q: "q = (e, as)" by fastforce
  let ?r = "r\<lparr>pj_events := pj_events r @ [e]\<rparr>"
  let ?db = "update_project p (\<lambda>r. r\<lparr>pj_events := pj_events r @ [e]\<rparr>) db"
  from Cons.prems q obtain db2 where ins: "insert_event e db = Inr ?db" "unat (seq e) < 2 ^ 63"
    and refs: "put_references p (seq e) as ?db = Inr db2" and rest: "write_events p evs db2 = Inr db'"
    by (auto simp: insert_event_def sql_int_def result_simps Option.is_none_def split: if_splits)
  have w: "row_written p r ?r db ?db" using row_written_update [OF Cons.prems(2)] .
  note w2 = put_references_row [OF refs row_written_row [OF w]]
  from Cons.IH [OF rest row_written_row [OF conjunct1 [OF w2]]] Cons.prems(3) q w2 ins(2)
    row_written_trans [OF row_written_trans [OF w conjunct1 [OF w2]]]
  show ?case by (auto simp: reference_rows_def)
qed (simp add: row_written_refl)

lemma set_view_row:
  "db_projects db p = Some r \<Longrightarrow>
     row_written p r (r\<lparr>pj_views := (pj_views r)(g := (pj_views r g)(view := table))\<rparr>) db (set_view p g view table db)"
  unfolding set_view_def by (rule row_written_update)

lemma write_views_row:
  assumes "write_views vs p g staged db = Inr db'" "db_projects db p = Some r" "distinct (map fst staged)"
  shows "\<exists>tables. row_written p r (r\<lparr>pj_views := (pj_views r)(g := tables)\<rparr>) db db'
    \<and> (\<forall>view. view \<notin> fst ` set staged \<longrightarrow> tables view = pj_views r g view)
    \<and> (\<forall>(view, st) \<in> set staged. \<exists>schema. view_schema_of vs view = Inr schema
         \<and> write_staged (vt_spec schema) (pj_views r g view) st = Inr (tables view))"
  using assms
proof (induction staged arbitrary: db r)
  case Nil
  have "r = r\<lparr>pj_views := (pj_views r)(g := pj_views r g)\<rparr>" by simp
  with Nil show ?case using row_written_refl by (intro exI [of _ "pj_views r g"]) simp
next
  case (Cons q staged)
  obtain view st where q: "q = (view, st)" by fastforce
  from Cons.prems(1,2) q obtain schema table where s: "view_schema_of vs view = Inr schema"
    "write_staged (vt_spec schema) (pj_views r g view) st = Inr table"
    and rest: "write_views vs p g staged (set_view p g view table db) = Inr db'"
    by (auto simp: result_simps view_of_def)
  let ?r = "r\<lparr>pj_views := (pj_views r)(g := (pj_views r g)(view := table))\<rparr>"
  have w: "row_written p r ?r db (set_view p g view table db)" using set_view_row [OF Cons.prems(2)] .
  have d: "distinct (map fst staged)" "view \<notin> fst ` set staged" using Cons.prems(3) q by auto
  have eq: "?r\<lparr>pj_views := (pj_views ?r)(g := tables)\<rparr> = r\<lparr>pj_views := (pj_views r)(g := tables)\<rparr>"
    "pj_views ?r g = (pj_views r g)(view := table)" for tables by simp_all
  obtain tables where t:
    "row_written p ?r (r\<lparr>pj_views := (pj_views r)(g := tables)\<rparr>) (set_view p g view table db) db'"
    "\<forall>v. v \<notin> fst ` set staged \<longrightarrow> tables v = ((pj_views r g)(view := table)) v"
    "\<forall>(v, st) \<in> set staged. \<exists>schema. view_schema_of vs v = Inr schema
         \<and> write_staged (vt_spec schema) (((pj_views r g)(view := table)) v) st = Inr (tables v)"
    using Cons.IH [OF rest row_written_row [OF w] d(1), unfolded eq] by blast
  have this_view: "tables view = table" using t(2) d(2) by simp
  have others: "\<exists>schema. view_schema_of vs v = Inr schema \<and> write_staged (vt_spec schema) (pj_views r g v) st' = Inr (tables v)"
    if "(v, st') \<in> set staged" for v st'
  proof -
    have "v \<noteq> view" using d(2) that by force
    with t(3) that show ?thesis by fastforce
  qed
  show ?case
  proof (intro exI [of _ tables] conjI allI impI ballI)
    show "row_written p r (r\<lparr>pj_views := (pj_views r)(g := tables)\<rparr>) db db'" using row_written_trans [OF w t(1)] .
    show "tables v = pj_views r g v" if "v \<notin> fst ` set (q # staged)" for v using t(2) that q by simp
    show "case x of (v, st) \<Rightarrow> \<exists>schema. view_schema_of vs v = Inr schema
         \<and> write_staged (vt_spec schema) (pj_views r g v) st = Inr (tables v)" if "x \<in> set (q # staged)" for x
      using that q s this_view others by (cases x) auto
  qed
qed

lemma write_anchors_row:
  assumes "write_anchors p rows db = Inr db'" "db_projects db p = Some r"
  shows "\<exists>anchors. row_written p r (r\<lparr>pj_anchors := anchors\<rparr>) db db'"
  using assms
proof (induction rows arbitrary: db r)
  case Nil
  have "r = r\<lparr>pj_anchors := pj_anchors r\<rparr>" by simp
  with Nil show ?case using row_written_refl by (metis write_anchors.simps(1) sum.inject(2))
next
  case (Cons row rows)
  then obtain db1 where "insert_anchor p row db = Inr db1" and rest: "write_anchors p rows db1 = Inr db'"
    by (auto simp: result_simps)
  then have db1: "db1 = update_project p (\<lambda>r. r\<lparr>pj_anchors := (pj_anchors r)(a_seq (sa_anchor row) \<mapsto> row)\<rparr>) db"
    using Cons.prems(2) by (auto simp: insert_anchor_def result_simps split: if_splits)
  note w = row_written_update [OF Cons.prems(2), of "\<lambda>r. r\<lparr>pj_anchors := (pj_anchors r)(a_seq (sa_anchor row) \<mapsto> row)\<rparr>", folded db1]
  from Cons.IH [OF rest row_written_row [OF w]] row_written_trans [OF w] show ?case by auto
qed

section \<open>A command's write\<close>

definition written_row :: "work \<Rightarrow> head \<Rightarrow> (u64 \<Rightarrow> stored_anchor option) \<Rightarrow> (string \<Rightarrow> view_table) \<Rightarrow> project_row \<Rightarrow> project_row" where
  "written_row w h anchors tables r =
     r\<lparr>pj_head_seq := h_seq h, pj_head_hash := Some (h_hash h), pj_events := pj_events r @ map fst (wk_events w),
       pj_refs := pj_refs r @ concat (map reference_rows (wk_events w)), pj_anchors := anchors,
       pj_views := (pj_views r)(wk_generation w := tables)\<rparr>"

lemma work_write_row:
  assumes conf: "configured cf" and chain: "work_chain cf w" and views: "work_views cf w"
    and wrt: "work_write cf w = Inr (h, db')" and row: "db_projects (wk_db w) (wk_project w) = Some r"
  obtains anchors tables copies where
    "wk_head w = Some h" "row_written (wk_project w) r (written_row w h anchors tables r) (wk_db w) db'"
    "collect_results (copy_event cf) (map fst (wk_events w)) = Inr copies"
    "\<forall>q \<in> set (cf_projectors cf). project_events q (pj_views r (wk_generation w) (view_name q)) copies = Inr (tables (view_name q))"
    "distinct (ref_keys (pj_refs r)) \<longrightarrow> distinct (ref_keys (pj_refs r @ concat (map reference_rows (wk_events w))))"
    "unat (h_seq h) < 2 ^ 63" "\<forall>(e, as) \<in> set (wk_events w). unat (seq e) < 2 ^ 63"
proof -
  let ?p = "wk_project w" and ?g = "wk_generation w"
  from wrt obtain db1 db2 db3 where h: "wk_head w = Some h"
    and w1: "write_events ?p (wk_events w) (wk_db w) = Inr db1"
    and w2: "write_views (cf_views cf) ?p ?g (wk_staged w) db1 = Inr db2"
    and w3: "write_anchors ?p (wk_anchors w) db2 = Inr db3"
    and w4: "set_head ?p h db3 = Inr db'"
    by (auto simp: work_write_def result_simps split: option.splits)
  have mine: "\<forall>(e, as) \<in> set (wk_events w). project_id e = ?p"
  proof -
    have all: "\<forall>e \<in> set (history w). project_id e = ?p"
      using chain unfolding work_chain_def ledger_chain_def by (elim conjE)
    have "project_id e = ?p" if "(e, as) \<in> set (wk_events w)" for e as
    proof -
      have "e \<in> set (history w)" unfolding history_def set_append set_map using image_eqI [of e fst "(e, as)"] that by simp
      with all show ?thesis by (rule bspec)
    qed
    then show ?thesis by blast
  qed
  let ?r1 = "r\<lparr>pj_events := pj_events r @ map fst (wk_events w), pj_refs := pj_refs r @ concat (map reference_rows (wk_events w))\<rparr>"
  have e1: "row_written ?p r ?r1 (wk_db w) db1"
    "distinct (ref_keys (pj_refs r)) \<longrightarrow> distinct (ref_keys (pj_refs r @ concat (map reference_rows (wk_events w))))"
    "\<forall>(e, as) \<in> set (wk_events w). unat (seq e) < 2 ^ 63"
    by - (rule conjunct1 [OF write_events_row [OF w1 row mine]],
      rule conjunct1 [OF conjunct2 [OF write_events_row [OF w1 row mine]]],
      rule conjunct2 [OF conjunct2 [OF write_events_row [OF w1 row mine]]])
  have sorted: "akeys_sorted (wk_staged w)" and names: "fst ` set (wk_staged w) \<subseteq> view_name ` set (cf_projectors cf)"
    using views by (auto simp: work_views_def)
  obtain tables where t: "row_written ?p ?r1 (?r1\<lparr>pj_views := (pj_views ?r1)(?g := tables)\<rparr>) db1 db2"
    "\<forall>view. view \<notin> fst ` set (wk_staged w) \<longrightarrow> tables view = pj_views ?r1 ?g view"
    "\<forall>(view, st) \<in> set (wk_staged w). \<exists>schema. view_schema_of (cf_views cf) view = Inr schema
         \<and> write_staged (vt_spec schema) (pj_views ?r1 ?g view) st = Inr (tables view)"
    using write_views_row [OF w2 row_written_row [OF e1(1)] akeys_sorted_distinct [OF sorted]] by blast
  obtain anchors where a: "row_written ?p (?r1\<lparr>pj_views := (pj_views ?r1)(?g := tables)\<rparr>)
      (?r1\<lparr>pj_views := (pj_views ?r1)(?g := tables), pj_anchors := anchors\<rparr>) db2 db3"
    using write_anchors_row [OF w3 row_written_row [OF t(1)]] by blast
  have form: "written_row w h anchors tables r = ?r1\<lparr>pj_views := (pj_views ?r1)(?g := tables), pj_anchors := anchors,
      pj_head_seq := h_seq h, pj_head_hash := Some (h_hash h)\<rparr>"
    by (cases r) (simp add: written_row_def)
  have "row_written ?p (?r1\<lparr>pj_views := (pj_views ?r1)(?g := tables), pj_anchors := anchors\<rparr>)
      (written_row w h anchors tables r) db3 db'" and hs: "unat (h_seq h) < 2 ^ 63"
    using w4 row_written_update [OF row_written_row [OF a], of "\<lambda>r. r\<lparr>pj_head_seq := h_seq h, pj_head_hash := Some (h_hash h)\<rparr>"]
    unfolding form by (auto simp: set_head_def sql_int_def result_simps split: if_splits)
  with e1(1) t(1) a have written: "row_written ?p r (written_row w h anchors tables r) (wk_db w) db'"
    by (meson row_written_trans)
  obtain copies where cs: "collect_results (copy_event cf) (map fst (wk_events w)) = Inr copies"
    "\<forall>q \<in> set (cf_projectors cf). fold_events q (view_of (wk_db w) ?p ?g (view_name q)) copies []
                 = Inr (staging_of (wk_staged w) (view_name q))"
    using views by (auto simp: work_views_def)
  have old: "view_of (wk_db w) ?p ?g v = pj_views r ?g v" for v by (simp add: view_of_def row)
  have "project_events q (pj_views r ?g (view_name q)) copies = Inr (tables (view_name q))" if q: "q \<in> set (cf_projectors cf)" for q
  proof -
    have fold: "fold_events q (pj_views r ?g (view_name q)) copies [] = Inr (staging_of (wk_staged w) (view_name q))"
      using cs(2) q by (simp add: old)
    show ?thesis
    proof (cases "map_of (wk_staged w) (view_name q)")
      case None
      then have "tables (view_name q) = pj_views r ?g (view_name q)" using t(2) by (simp add: map_of_eq_None_iff)
      with fold None show ?thesis by (simp add: project_events_def)
    next
      case (Some st)
      obtain schema where s: "view_schema_of (cf_views cf) (view_name q) = Inr schema" "vt_spec schema = p_spec q"
        using configuredD(2) [OF conf q] by blast
      then have "write_staged (p_spec q) (pj_views r ?g (view_name q)) st = Inr (tables (view_name q))"
        using t(3) map_of_SomeD [OF Some] by fastforce
      with fold Some show ?thesis by (simp add: project_events_def)
    qed
  qed
  with that [OF h written cs(1)] e1(2,3) hs show ?thesis by blast
qed

section \<open>What a turn does to the tables\<close>

text \<open>A turn either leaves the tables alone or commits what its decision made of them.\<close>

lemma decide_and_write_ok:
  "decide_and_write cf new db c head g own = Inr (t, db') \<longleftrightarrow>
     (\<exists>v h w. t = TurnNew v h \<and> new (work_new db c head g) own = Inr (v, w) \<and> wk_failed w = None
        \<and> check_payloads_attached w = Inr () \<and> work_write cf w = Inr (h, db'))"
  by (auto simp: decide_and_write_def result_simps split: option.splits)

lemma fence_generation_current: "fence_generation p f = Inr (Inr g) \<longleftrightarrow> f = FenceCurrent g"
  by (cases f) auto

lemma command_path_cases:
  assumes "command_path_for cf replay new c entry (db, marks) = (res, db', marks')"
  shows "(db' = db \<and> (\<forall>v h. res \<noteq> Inr (TurnNew v h))) \<or>
    (\<exists>head live g g' own v h w. res = Inr (TurnNew v h) \<and> is_ok (parse_instant (cmd_recorded_at c))
       \<and> stored_head db (cmd_project c) = Inr head \<and> live_of db (cmd_project c) = Inr live
       \<and> judge_live_request (cf_views cf) live = Inr (FenceCurrent g)
       \<and> lookup_request (cf_views cf) replay db c entry g = Inr None
       \<and> judge_live_set (cf_views cf) live = FenceCurrent g'
       \<and> own_claim (cf_views cf) db c entry g = Inr own
       \<and> check_scope (cf_views cf) db c g (excluded entry own) = Inr ()
       \<and> new (work_new db c head g) own = Inr (v, w) \<and> wk_failed w = None
       \<and> check_payloads_attached w = Inr () \<and> work_write cf w = Inr (h, db'))"
proof (cases "is_ok (parse_instant (cmd_recorded_at c))")
  case False
  with assms show ?thesis by (auto simp: command_path_for_def)
next
  case True
  then have turn: "command_turn cf replay new c entry (db, marks) = (res, db', marks')"
    using assms by (simp add: command_path_for_def)
  show ?thesis
  proof (cases "\<exists>t db1 marks1. turn_body cf replay new c entry db marks = (Inr (t, db1), marks1)
      \<and> cf_unhealthy cf = None \<and> db_epoch db = epoch")
    case False
    with turn show ?thesis
      by (auto simp: command_turn_def transaction_def split: option.splits sum.splits prod.splits if_splits turn.splits)
  next
    case body: True
    then obtain t db1 marks1 where b: "turn_body cf replay new c entry db marks = (Inr (t, db1), marks1)"
      "cf_unhealthy cf = None" "db_epoch db = epoch" by blast
    then have r: "res = Inr t" "db' = db1"
      using turn by (auto simp: command_turn_def transaction_def split: turn.splits)
    from b(1) consider "db1 = db" "\<forall>v h. t \<noteq> TurnNew v h" |
      head live g where "stored_head db (cmd_project c) = Inr head" "live_of db (cmd_project c) = Inr live"
        "judge_live_request (cf_views cf) live = Inr (FenceCurrent g)"
        "lookup_request (cf_views cf) replay db c entry g = Inr None"
        "new_turn cf new c entry head live g db marks = (Inr (t, db1), marks1)"
      unfolding turn_body_def
      by (auto simp: result_simps fence_generation_current split: sum.splits prod.splits option.splits)
    then show ?thesis
    proof cases
      case 1
      with r show ?thesis by blast
    next
      case (2 head live g)
      from 2(5) consider "db1 = db" "\<forall>v h. t \<noteq> TurnNew v h" |
        g' own where "judge_live_set (cf_views cf) live = FenceCurrent g'"
          "own_claim (cf_views cf) db c entry g = Inr own"
          "check_scope (cf_views cf) db c g (excluded entry own) = Inr ()"
          "decide_and_write cf new db c head g own = Inr (t, db1)"
        unfolding new_turn_def
        by (auto simp: result_simps fence_generation_current split: sum.splits prod.splits)
      then show ?thesis
      proof cases
        case 1
        with r show ?thesis by blast
      next
        case inner: (2 g' own)
        from inner(4) obtain v h w where "t = TurnNew v h" "new (work_new db c head g) own = Inr (v, w)" "wk_failed w = None"
          "check_payloads_attached w = Inr ()" "work_write cf w = Inr (h, db1)"
          unfolding decide_and_write_ok by blast
        with 2 inner True r show ?thesis by blast
      qed
    qed
  qed
qed

section \<open>A store in order\<close>

text \<open>
  A project's ledger: a chain with counted streams, the head that the row names, and one reference
  row for each event and body.
\<close>

definition row_ok :: "store_config \<Rightarrow> project_id \<Rightarrow> project_row \<Rightarrow> bool" where
  "row_ok cf p r \<longleftrightarrow> ledger_chain cf p (pj_events r) \<and> length (pj_events r) < 2 ^ 63
     \<and> pj_head_seq r = of_nat (length (pj_events r)) \<and> pj_head_hash r = map_option h_hash (head_of (pj_events r))
     \<and> distinct (ref_keys (pj_refs r))"

text \<open>Tables that hold what the projectors make of a log read from its start.\<close>

definition replayed :: "store_config \<Rightarrow> event list \<Rightarrow> (string \<Rightarrow> view_table) \<Rightarrow> bool" where
  "replayed cf es tables \<longleftrightarrow> (\<exists>copies. collect_results (copy_event cf) es = Inr copies
     \<and> (\<forall>p \<in> set (cf_projectors cf). project_events p Map.empty copies = Inr (tables (view_name p))))"

definition live_row :: "project_row \<Rightarrow> live_views" where
  "live_row r = \<lparr>lv_generation = pj_live r, lv_head = pj_head_seq r,
     lv_stamps = (case pj_live r of None \<Rightarrow> [] | Some g \<Rightarrow> pj_stamps r g)\<rparr>"

definition views_ok :: "store_config \<Rightarrow> project_row \<Rightarrow> bool" where
  "views_ok cf r \<longleftrightarrow>
     (\<forall>g. judge_live_set (cf_views cf) (live_row r) = FenceCurrent g \<longrightarrow> replayed cf (pj_events r) (pj_views r g))
     \<and> (pj_live r = None \<longrightarrow> pj_views r = (\<lambda>_ _. Map.empty))"

definition store_ok :: "store_config \<Rightarrow> database \<Rightarrow> bool" where
  "store_ok cf db \<longleftrightarrow> (\<forall>p r. db_projects db p = Some r \<longrightarrow> row_ok cf p r \<and> views_ok cf r)"

lemma store_okD: "store_ok cf db \<Longrightarrow> db_projects db p = Some r \<Longrightarrow> row_ok cf p r \<and> views_ok cf r"
  unfolding store_ok_def by blast

lemma live_of_row: "live_of db p = Inr live \<longleftrightarrow> (\<exists>r. db_projects db p = Some r \<and> live = live_row r)"
  by (auto simp: live_of_def project_of_def live_row_def ok_or_def result_simps split: option.splits)

lemma stored_head_row:
  assumes "row_ok cf p r" "db_projects db p = Some r"
  shows "stored_head db p = Inr (head_of (stored_events db p))"
proof -
  let ?n = "length (pj_events r)"
  have r: "pj_head_seq r = of_nat ?n" "pj_head_hash r = map_option h_hash (head_of (pj_events r))" "?n < 2 ^ 63"
    using assms(1) by (auto simp: row_ok_def)
  have "of_nat ?n = (0 :: u64) \<longleftrightarrow> ?n = 0" using r(3) unat_of_nat_u64 [of ?n] by (auto simp: unat_eq_zero [symmetric])
  with r show ?thesis
    by (auto simp: stored_head_def project_of_def stored_events_def assms(2) ok_or_def head_of_def)
qed

text \<open>What the committed turn's row is, from the row before it.\<close>

definition turn_written :: "store_config \<Rightarrow> command \<Rightarrow> work \<Rightarrow> database \<Rightarrow> head \<Rightarrow> database \<Rightarrow> bool" where
  "turn_written cf c w db h db' \<longleftrightarrow> (\<exists>r l anchors tables copies. db_projects db (cmd_project c) = Some r
     \<and> db_projects db' (cmd_project c) = Some (written_row w h anchors tables (r\<lparr>pj_leases := l\<rparr>))
     \<and> (\<forall>q. q \<noteq> cmd_project c \<longrightarrow> db_projects db' q = db_projects db q)
     \<and> db_epoch db' = db_epoch db \<and> db_payloads db \<subseteq>\<^sub>m db_payloads db' \<and> db_payloads db' = db_payloads (wk_db w)
     \<and> wk_command w = c \<and> pj_live r = Some (wk_generation w)
     \<and> judge_live_request (cf_views cf) (live_row r) = Inr (FenceCurrent (wk_generation w))
     \<and> work_chain cf w \<and> history w = pj_events r @ map fst (wk_events w) \<and> wk_head w = Some h \<and> unat (h_seq h) < 2 ^ 63
     \<and> (distinct (ref_keys (pj_refs r)) \<longrightarrow> distinct (ref_keys (pj_refs r @ concat (map reference_rows (wk_events w)))))
     \<and> collect_results (copy_event cf) (map fst (wk_events w)) = Inr copies
     \<and> (\<forall>q \<in> set (cf_projectors cf). project_events q (pj_views r (wk_generation w) (view_name q)) copies = Inr (tables (view_name q))))"

lemma judge_request_generation: "judge_live_request vs live = Inr (FenceCurrent g) \<Longrightarrow> lv_generation live = Some g"
  by (auto simp: judge_live_request_def unstamped_def result_simps newer_view_def split: option.splits if_splits)

lemma judge_set_generation: "judge_live_set vs live = FenceCurrent g \<Longrightarrow> lv_generation live = Some g"
proof -
  assume a: "judge_live_set vs live = FenceCurrent g"
  have newer: "f \<noteq> FenceCurrent g" if "f \<in> set (List.map_filter (\<lambda>(_, t). newer_view t live) ts)" for f ts
    using that newer_view_Some(2) by (fastforce simp: map_filter_def)
  have no: "List.map_filter (\<lambda>(_, t). newer_view t live) ts \<noteq> FenceCurrent g # fs" for ts fs
    using newer by (metis list.set_intros(1))
  from a show ?thesis
    by (auto simp: judge_live_set_def unstamped_def Let_def no split: option.splits if_splits list.splits)
qed

lemma judge_set_head:
  assumes "lv_generation live = Some g"
  shows "judge_live_set vs (live\<lparr>lv_head := n\<rparr>) = judge_live_set vs live"
proof -
  have eq: "lv_stamps (live\<lparr>lv_head := n\<rparr>) = lv_stamps live" "lv_generation (live\<lparr>lv_head := n\<rparr>) = Some g"
    using assms by simp_all
  have newer: "newer_view t (live\<lparr>lv_head := n\<rparr>) = newer_view t live" for t
    unfolding newer_view_def eq ..
  show ?thesis unfolding judge_live_set_def eq assms newer by simp
qed

lemma turn_written_ok:
  assumes "store_ok cf db" "configured cf" "db_projects db (cmd_project c) = Some r" "pj_live r = Some g"
    and judged: "judge_live_request (cf_views cf) (live_row r) = Inr (FenceCurrent g)"
    and steps: "work_steps cf (work_new db c (head_of (stored_events db (cmd_project c))) g) w"
    and wrt: "work_write cf w = Inr (h, db')"
  shows "turn_written cf c w db h db'"
proof -
  let ?p = "cmd_project c" and ?w0 = "work_new db c (head_of (stored_events db (cmd_project c))) g"
  have ro: "row_ok cf ?p r" using assms(1,3) by (auto simp: store_ok_def)
  then have "ledger_chain cf ?p (stored_events db ?p)" by (simp add: row_ok_def stored_events_def assms(3))
  from work_steps_chain [OF steps work_chain_start [OF this]] have chain: "work_chain cf w" .
  have views: "work_views cf w" using work_steps_views [OF steps assms(2) work_views_start] .
  have frame: "wk_command w = c" "wk_generation w = g" "leased ?p db (wk_db w)"
    using work_steps_leased [OF steps] by (simp_all add: work_new_def)
  then obtain l where l: "db_projects (wk_db w) ?p = Some (r\<lparr>pj_leases := l\<rparr>)" "db_epoch (wk_db w) = db_epoch db"
    "\<forall>q. q \<noteq> ?p \<longrightarrow> db_projects (wk_db w) q = db_projects db q" "db_payloads db \<subseteq>\<^sub>m db_payloads (wk_db w)"
    using assms(3) by (auto simp: leased_def)
  then have row: "db_projects (wk_db w) (wk_project w) = Some (r\<lparr>pj_leases := l\<rparr>)" by (simp add: frame)
  obtain anchors tables copies where t: "wk_head w = Some h"
    "row_written (wk_project w) (r\<lparr>pj_leases := l\<rparr>) (written_row w h anchors tables (r\<lparr>pj_leases := l\<rparr>)) (wk_db w) db'"
    "collect_results (copy_event cf) (map fst (wk_events w)) = Inr copies"
    "\<forall>q \<in> set (cf_projectors cf). project_events q (pj_views (r\<lparr>pj_leases := l\<rparr>) (wk_generation w) (view_name q)) copies = Inr (tables (view_name q))"
    "distinct (ref_keys (pj_refs (r\<lparr>pj_leases := l\<rparr>))) \<longrightarrow> distinct (ref_keys (pj_refs (r\<lparr>pj_leases := l\<rparr>) @ concat (map reference_rows (wk_events w))))"
    "unat (h_seq h) < 2 ^ 63"
    by (rule work_write_row [OF assms(2) chain views wrt row])
  have "history w = pj_events r @ map fst (wk_events w)"
    by (simp add: history_def stored_events_def row)
  then show ?thesis
    unfolding turn_written_def using t l assms(3,4) judged chain frame
    by (intro exI [of _ r] exI [of _ l] exI [of _ anchors] exI [of _ tables] exI [of _ copies])
      (auto simp: row_written_def)
qed

lemma replayed_append:
  assumes "replayed cf es tables" "collect_results (copy_event cf) fs = Inr copies"
    and "\<forall>q \<in> set (cf_projectors cf). project_events q (tables (view_name q)) copies = Inr (tables' (view_name q))"
  shows "replayed cf (es @ fs) tables'"
proof -
  obtain cs where cs: "collect_results (copy_event cf) es = Inr cs"
    "\<forall>p \<in> set (cf_projectors cf). project_events p Map.empty cs = Inr (tables (view_name p))"
    using assms(1) by (auto simp: replayed_def)
  have "collect_results (copy_event cf) (es @ fs) = Inr (cs @ copies)"
    using cs(1) assms(2) by (simp add: collect_results_Inr_iff list_all2_appendI)
  moreover have "project_events p Map.empty (cs @ copies) = Inr (tables' (view_name p))" if "p \<in> set (cf_projectors cf)" for p
    using project_events_append [of p Map.empty cs "tables (view_name p)" copies] cs(2) assms(3) that by simp
  ultimately show ?thesis unfolding replayed_def by blast
qed

lemma turn_written_store_ok:
  assumes "store_ok cf db" "turn_written cf c w db h db'"
  shows "store_ok cf db'"
proof -
  let ?p = "cmd_project c"
  obtain r l anchors tables copies where t: "db_projects db ?p = Some r"
    "db_projects db' ?p = Some (written_row w h anchors tables (r\<lparr>pj_leases := l\<rparr>))"
    "\<forall>q. q \<noteq> ?p \<longrightarrow> db_projects db' q = db_projects db q" "wk_command w = c" "pj_live r = Some (wk_generation w)"
    "work_chain cf w" "history w = pj_events r @ map fst (wk_events w)" "wk_head w = Some h" "unat (h_seq h) < 2 ^ 63"
    "distinct (ref_keys (pj_refs r)) \<longrightarrow> distinct (ref_keys (pj_refs r @ concat (map reference_rows (wk_events w))))"
    "collect_results (copy_event cf) (map fst (wk_events w)) = Inr copies"
    "\<forall>q \<in> set (cf_projectors cf). project_events q (pj_views r (wk_generation w) (view_name q)) copies = Inr (tables (view_name q))"
    using assms(2) unfolding turn_written_def by (elim exE conjE)
  let ?r = "written_row w h anchors tables (r\<lparr>pj_leases := l\<rparr>)"
  have old: "row_ok cf ?p r" "views_ok cf r" using store_okD [OF assms(1) t(1)] by simp_all
  have es: "pj_events ?r = history w" by (simp add: written_row_def t(7))
  have chain: "ledger_chain cf ?p (pj_events ?r)" "head_of (pj_events ?r) = Some h"
    unfolding es using work_chainD [OF t(6)] by (simp_all only: t(4,8))
  have head: "pj_head_seq ?r = h_seq h" "pj_head_hash ?r = Some (h_hash h)" by (simp_all add: written_row_def)
  have ne: "h_seq h = of_nat (length (pj_events ?r))"
    using chain(2) unfolding head_of_def by (simp split: if_splits) (metis head.select_convs(1))
  have "length (pj_events ?r) < 2 ^ 64" using chain(1) by (simp add: ledger_chain_def)
  then have "length (pj_events ?r) < 2 ^ 63" using t(9) unfolding ne by (simp only: unat_of_nat_u64)
  moreover have "distinct (ref_keys (pj_refs ?r))" using old(1) t(10) by (simp add: row_ok_def written_row_def)
  ultimately have "row_ok cf ?p ?r"
    unfolding row_ok_def head chain(2) using chain(1) ne by simp
  moreover have "views_ok cf ?r"
  proof -
    have "replayed cf (pj_events ?r) (pj_views ?r g)" if "judge_live_set (cf_views cf) (live_row ?r) = FenceCurrent g" for g
    proof -
      have g: "g = wk_generation w" using judge_set_generation [OF that] t(5) by (simp add: live_row_def written_row_def)
      have "judge_live_set (cf_views cf) (live_row r) = judge_live_set (cf_views cf) (live_row ?r)"
        using judge_set_head [of "live_row r" "wk_generation w" "cf_views cf" "h_seq h"]
        by (simp add: live_row_def written_row_def t(5))
      with that g old(2) have "replayed cf (pj_events r) (pj_views r g)" by (simp add: views_ok_def)
      from replayed_append [OF this t(11)] t(12) g show ?thesis by (simp add: written_row_def)
    qed
    then show ?thesis by (simp add: views_ok_def written_row_def t(5))
  qed
  ultimately show ?thesis unfolding store_ok_def
    using t(2,3) assms(1) by (metis option.inject store_okD)
qed

section \<open>What every entry of the command path promises\<close>

locale command_entry =
  fixes cf :: store_config and new :: "'a decide"
  assumes new_steps: "new w own = Inr (v, w') \<Longrightarrow> wk_failed w' = None \<Longrightarrow> work_steps cf w w'"
begin

lemma turn_outcomes:
  assumes "configured cf" "store_ok cf db"
    and "command_path_for cf replay new c entry (db, marks) = (res, db', marks')"
  shows "(db' = db \<and> (\<forall>v h. res \<noteq> Inr (TurnNew v h))) \<or>
    (\<exists>v h w g own. res = Inr (TurnNew v h)
       \<and> new (work_new db c (head_of (stored_events db (cmd_project c))) g) own = Inr (v, w)
       \<and> wk_failed w = None \<and> check_payloads_attached w = Inr () \<and> check_scope (cf_views cf) db c g (excluded entry own) = Inr ()
       \<and> work_steps cf (work_new db c (head_of (stored_events db (cmd_project c))) g) w \<and> turn_written cf c w db h db')"
  using command_path_cases [OF assms(3)]
proof (elim disjE exE conjE)
  fix head live g g' own v h w
  assume r: "res = Inr (TurnNew v h)" and head: "stored_head db (cmd_project c) = Inr head"
    and live: "live_of db (cmd_project c) = Inr live" "judge_live_request (cf_views cf) live = Inr (FenceCurrent g)"
    and w: "new (work_new db c head g) own = Inr (v, w)" "wk_failed w = None" "check_payloads_attached w = Inr ()"
    and wrt: "work_write cf w = Inr (h, db')" and scope: "check_scope (cf_views cf) db c g (excluded entry own) = Inr ()"
  obtain row where row: "db_projects db (cmd_project c) = Some row" "live = live_row row" using live(1) by (auto simp: live_of_row)
  have g: "pj_live row = Some g" using judge_request_generation [OF live(2)] row(2) by (simp add: live_row_def)
  have h: "head = head_of (stored_events db (cmd_project c))"
    using head stored_head_row [OF conjunct1 [OF store_okD [OF assms(2) row(1)]] row(1)] by simp
  have "work_steps cf (work_new db c (head_of (stored_events db (cmd_project c))) g) w"
    using new_steps [OF w(1,2)] h by simp
  from r w h scope this turn_written_ok [OF assms(2,1) row(1) g _ this wrt] live(2) row(2) show ?thesis by blast
qed blast

text \<open>A turn keeps every ledger a chain and every current view a replay of its log.\<close>

lemma turn_keeps_store:
  assumes "configured cf" "store_ok cf db" "command_path_for cf replay new c entry (db, marks) = (res, db', marks')"
  shows "store_ok cf db'"
  using turn_outcomes [OF assms] turn_written_store_ok [OF assms(2)] assms(2) by blast

text \<open>A turn that does not commit leaves the tables as they were.\<close>

lemma uncommitted:
  assumes "command_path_for cf replay new c entry (db, marks) = (res, db', marks')" "\<And>v h. res \<noteq> Inr (TurnNew v h)"
  shows "db' = db"
  using command_path_cases [OF assms(1)] assms(2) by blast

end

end
