(* ===== verification/Command_Entries.thy ===== *)
theory Command_Entries
  imports Command_Laws
begin

text \<open>
  The entries of the command path keep its contract: \<open>transact\<close>, \<open>claim\<close>, \<open>complete\<close> and \<open>reconcile\<close>
  are interpretations of \<open>command_entry\<close>, and \<open>transact\<close> and \<open>reconcile\<close>, which end in the completion
  of their own request, of \<open>completing_entry\<close>: once such a command committed, its request is answered
  from its record and never decided again.
\<close>

section \<open>A completion is recorded\<close>

definition answer_kept :: "store_config \<Rightarrow> answer \<Rightarrow> bool" where
  "answer_kept cf a = (case a of Inline v \<Rightarrow> True | Stored ref \<Rightarrow> \<exists>b. pr_hash ref = Hash (cf_sha cf b) | Tombstone r s \<Rightarrow> False)"

lemma put_payload_hash: "put_payload sha bytes class db = Inr (ref, db') \<Longrightarrow> pr_hash ref = Hash (sha bytes)"
  by (auto simp: put_payload_def Let_def result_simps split: if_splits option.splits payload_state.splits)

lemma work_outcome_kept: "work_outcome cf d w = Inr (oc, w') \<Longrightarrow> answer_kept cf (oc_answer oc)"
  by (auto simp: work_outcome_def answer_kept_def result_simps dest!: put_payload_hash split: if_splits)

text \<open>The event of a completion, and what projecting it last leaves in the request view.\<close>

definition completion_event :: "command_kind \<Rightarrow> request_id \<Rightarrow> hash \<Rightarrow> string list \<Rightarrow> outcome \<Rightarrow> git_facts option \<Rightarrow> new_event" where
  "completion_event kind request digest scope oc facts =
     \<lparr>ne_stream = command_stream kind, ne_type_name = command_completed, ne_type_version = command_completed_version,
      ne_git = facts, ne_payload = completed_payload_for kind request digest scope oc,
      ne_attachments = answer_attachments (oc_answer oc)\<rparr>"

lemma complete_for_ok:
  "complete_for cf kind request digest scope oc facts w = Inr w' \<longleftrightarrow>
     (\<exists>s w1. sealed_event cf (completion_event kind request digest scope oc facts) w = Inr s
        \<and> apply_projectors cf s w = (Inr (), w1) \<and> w' = pushed (completion_event kind request digest scope oc facts) s w1)"
  by (auto simp: complete_for_def result_simps push_event_ok completion_event_def)

lemma store_owned_completed: "store_owned command_completed"
  by code_simp

lemma copy_store_owned: "store_owned (type_name e) \<Longrightarrow> copy_event cf e = Inr e' \<Longrightarrow> e' = e"
  by (auto simp: copy_event_def projection_copy_def split: if_splits option.splits)

lemma stored_attachment:
  assumes "check_attachments db e = Inr ()" "a \<in> set (ne_attachments e)"
  shows "\<exists>row bytes. db_payloads db (pr_hash a) = Some row \<and> py_state row = PresentBody bytes"
proof -
  have "check_listed db carried earlier as = Inr () \<Longrightarrow> a \<in> set as \<Longrightarrow> ?thesis" for carried earlier as
    by (induction db carried earlier as rule: check_listed.induct) (auto split: if_splits option.splits payload_state.splits)
  with assms show ?thesis by (auto simp: check_attachments_def result_simps)
qed

lemma completion_projected:
  assumes "project_events request_projector table (es @ [e]) = Inr table'"
    and e: "type_name e = command_completed" "payload e = completed_payload_for kind request digest scope oc"
    and wf: "hash_wf digest" "answer_wf (oc_answer oc)"
  shows "\<exists>body. table' [KText kind, KText request] = Some \<lparr>doc_seq = seq e, doc_body = body\<rparr>
    \<and> request_state body = Some (Completed digest \<lparr>oc_kind = oc_kind oc, oc_answer = kept_answer (oc_answer oc)\<rparr>)"
proof -
  let ?key = "[KText kind, KText request]" and ?body = "jset ''state'' (JString ''completed'') (payload e)"
  obtain st where st: "fold_events request_projector table (es @ [e]) [] = Inr st" "write_staged request_spec table st = Inr table'"
    using assms(1) by (auto simp: project_events_def result_simps request_projector_def)
  obtain u where u: "fold_event request_projector table e u = Inr st"
    using st(1) by (auto simp: fold_events_append result_simps)
  have key: "request_key_of e = Some ?key"
    by (simp add: request_key_of_def e(2) completed_payload_for_def)
  have "type_name e \<in> set (p_handles request_projector)" by (simp add: request_projector_def e(1))
  with u obtain cs where cs: "request_apply e (documents_at table u [?key]) = Inr cs" "st = foldl (stage (seq e)) u cs"
    by (elim fold_event_handled) (auto simp: request_projector_def key)
  have ne: "command_completed \<noteq> command_claimed" "command_completed \<noteq> command_reconciled"
    by (simp_all add: command_completed_def command_claimed_def command_reconciled_def)
  have "cs = [Put ?key ?body]" using cs(1) by (simp add: request_apply_def key e(1) ne ok_or_def)
  then have look: "map_of st ?key = Some \<lparr>st_body = Some ?body, st_seq = seq e\<rparr>" by (simp add: cs(2) map_of_stage)
  have "table' = overlay table (map_of st)"
    using st akeys_sorted_distinct [OF fold_events_sorted [OF st(1)]] by (auto simp: write_staged_eq split: list.splits)
  with look have "table' ?key = Some \<lparr>doc_seq = seq e, doc_body = ?body\<rparr>" by (simp add: overlay_def)
  with completed_state [OF wf, of kind request scope] show ?thesis by (auto simp: e(2))
qed

section \<open>The entries keep the contract\<close>

lemma decided_steps:
  assumes "decided cf decide w = Inr (x, w')" "wk_failed w' = None"
  shows "work_steps cf w w'"
proof -
  obtain d w1 where r: "run cf decide w = (Inr d, w1)" and oc: "work_outcome cf d w1 = Inr (snd x, w')"
    using assms(1) by (auto simp: decided_def result_simps)
  from work_outcome_step [OF oc] run_steps [OF r] assms(2) show ?thesis by (metis rtranclp_trans)
qed

lemma decided_kept: "decided cf decide w = Inr ((d, oc), w') \<Longrightarrow> answer_kept cf (oc_answer oc)"
  by (auto simp: decided_def result_simps dest: work_outcome_kept)

text \<open>A decision whose work ends in the completion of its own request.\<close>

definition completes :: "store_config \<Rightarrow> command \<Rightarrow> work \<Rightarrow> outcome \<Rightarrow> work \<Rightarrow> bool" where
  "completes cf c w oc w' \<longleftrightarrow> answer_kept cf (oc_answer oc) \<and> (\<exists>w0 facts. work_steps cf w w0
     \<and> complete_for cf (cmd_kind c) (cmd_request_id c) (cmd_digest c) [] oc facts w0 = Inr w')"

lemma completes_steps: "completes cf c w oc w' \<Longrightarrow> work_steps cf w w'"
  unfolding completes_def by (auto dest: complete_for_step)

lemma finished_completes:
  assumes "work_steps cf w w1" "work_finish cf oc facts ob w1 = Inr w'" "answer_kept cf (oc_answer oc)"
  shows "completes cf (wk_command w) w oc w'"
proof -
  have "wk_command w1 = wk_command w" using work_steps_leased [OF assms(1)] by simp
  with assms show ?thesis by (auto simp: completes_def work_finish_def result_simps)
qed

lemma transact_completes:
  assumes "transact_new cf decide w own = Inr (oc, w')" "wk_failed w' = None"
  shows "completes cf (wk_command w) w oc w'"
proof -
  obtain d w1 where d: "decided cf decide w = Inr ((d, oc), w1)"
    and f: "work_finish cf oc (dc_git d) (Some (dc_observed d)) w1 = Inr w'"
    using assms(1) by (auto simp: transact_new_def result_simps)
  from work_finish_step [OF f] assms(2) have "work_steps cf w w1" using decided_steps [OF d] by simp
  then show ?thesis using finished_completes [OF _ f decided_kept [OF d]] by simp
qed

lemma claim_steps:
  assumes "claim_new cf c decide w own = Inr (v, w')" "wk_failed w' = None"
  shows "work_steps cf w w'"
proof -
  obtain d w1 where r: "run cf decide w = (Inr d, w1)" using assms(1) by (auto simp: claim_new_def result_simps)
  show ?thesis
  proof (cases d)
    case (RefuseClaim dec)
    with assms(1) r obtain oc w2 where "work_outcome cf dec w1 = Inr (oc, w2)"
      "work_finish cf oc (dc_git dec) (Some (dc_observed dec)) w2 = Inr w'"
      by (auto simp: claim_new_def result_simps ok_or_def split: option.splits)
    from work_outcome_step [OF this(1)] work_finish_step [OF this(2)] run_steps [OF r] assms(2)
    show ?thesis by (metis rtranclp_trans)
  next
    case (TakeClaim intent owner facts ob)
    with assms(1) r obtain n w2 where "push_event cf (claimed_event c intent owner facts) w1 = (Inr n, w2)"
      "write_lease (command_id c) n (cmd_recorded_at c) w2 = Inr w'"
      by (auto simp: claim_new_def result_simps split: if_splits)
    from push_event_step [OF this(1)] push_event_failed [OF this(1)] write_lease_step [OF this(2)] run_steps [OF r] assms(2)
    show ?thesis by (metis rtranclp.rtrancl_into_rtrancl)
  qed
qed

lemma complete_steps:
  assumes "complete_new cf c decide w own = Inr (v, w')" "wk_failed w' = None"
  shows "work_steps cf w w'"
proof -
  obtain cl where own: "own = Some cl" using assms(1) by (auto simp: complete_new_def split: option.splits)
  obtain d oc w1 w2 where d: "decided cf decide w = Inr ((d, oc), w1)"
    and f: "complete_for cf (ci_kind (cl_id cl)) (ci_request_id (cl_id cl)) (cmd_digest c) (cl_scope cl) oc (dc_git d) w1 = Inr w2"
    and w': "w' = drop_lease (cl_id cl) w2"
    using assms(1) unfolding complete_new_def own by (auto simp: result_simps)
  from complete_for_step [OF f] drop_lease_step(1) [of cf w2 "cl_id cl"] drop_lease_step(2) [of "cl_id cl" w2] decided_steps [OF d] assms(2) w'
  show ?thesis by (metis rtranclp_trans rtranclp.rtrancl_into_rtrancl)
qed

lemma resolve_claim_step: "resolve_claim cf cid doc d w = Inr w' \<Longrightarrow> work_steps cf w w' \<and> wk_failed w' = wk_failed w"
  unfolding resolve_claim_def
  by (auto simp: result_simps drop_lease_step dest!: work_outcome_step complete_for_step)
    (meson drop_lease_step(1) rtranclp.rtrancl_into_rtrancl rtranclp_trans)

lemma interrupted_claim_same:
  assumes "interrupted_claim cf c cid authority w = Inr (x, w')" "wk_failed w' = None"
  shows "w' = w"
proof -
  obtain r where "noted (get_staged cf w request_view [KText (ci_kind cid), KText (ci_request_id cid)], w) = (Inr r, w')"
    using assms(1) by (auto simp: interrupted_claim_def result_simps Let_def split: if_splits request_state.splits)
  from noted_ok(3) [OF this assms(2)] show ?thesis by simp
qed

lemma reconcile_completes:
  assumes "reconcile_new cf c cid authority decide w own = Inr (oc, w')" "wk_failed w' = None"
  shows "completes cf (wk_command w) w oc w'"
proof -
  obtain doc cl w1 res w2 n w3 w4 where i: "interrupted_claim cf c cid authority w = Inr ((doc, cl), w1)"
    and r: "run cf (decide cl) w1 = (Inr res, w2)"
    and p: "push_event cf (reconciled_event cid cl res) w2 = (Inr n, w3)"
    and q: "(case rc_resolution res of ResolutionAwaitingOwner \<Rightarrow> Inr w3 | Resolved d \<Rightarrow> resolve_claim cf cid doc d w3) = Inr w4"
    and f: "work_finish cf oc None None w4 = Inr w'"
    and oc: "oc = \<lparr>oc_kind = Done, oc_answer = Inline (reconciled_answer cid n (resolution_of (rc_resolution res)))\<rparr>"
    using assms(1) unfolding reconcile_new_def by (auto simp: result_simps Let_def)
  have w4: "wk_failed w4 = None" using work_finish_step [OF f] assms(2) by simp
  have w3: "work_steps cf w3 w4" "wk_failed w3 = None"
    using q w4 by (auto dest: resolve_claim_step split: resolution.splits)
  have w2: "work_step cf w2 w3" "wk_failed w2 = None" using push_event_step [OF p] push_event_failed [OF p] w3(2) by simp_all
  have w1: "work_steps cf w1 w2" "wk_failed w1 = None" using run_steps [OF r w2(2)] by simp_all
  have "w1 = w" using interrupted_claim_same [OF i w1(2)] .
  with w1(1) w2(1) w3(1) have steps: "work_steps cf w w4" by (metis rtranclp_trans rtranclp.rtrancl_into_rtrancl)
  have "answer_kept cf (oc_answer oc)" by (simp add: oc answer_kept_def)
  with finished_completes [OF steps f] show ?thesis by simp
qed

section \<open>Entries that end in a completion of their own request\<close>

locale completing_entry = command_entry cf new for cf and new :: "outcome decide" +
  assumes new_completes: "new w own = Inr (oc, w') \<Longrightarrow> wk_failed w' = None \<Longrightarrow> completes cf (wk_command w) w oc w'"
begin

lemma completion_recorded:
  assumes conf: "configured cf" and ok: "store_ok cf db"
    and run: "command_path_for cf replay new c entry (db, marks) = (Inr (TurnNew oc h), db', marks')"
    and wf: "hash_wf (cmd_digest c)" "\<And>b. length (cf_sha cf b) = 32"
  obtains r g n body where "db_projects db' (cmd_project c) = Some r" "pj_live r = Some g"
    "pj_views r g request_view (request_key c) = Some \<lparr>doc_seq = n, doc_body = body\<rparr>"
    "request_state body = Some (Completed (cmd_digest c) oc)" "replayed_outcome db' (cmd_project c) n oc = Inr oc"
proof -
  let ?p = "cmd_project c"
  obtain w g own where new: "new (work_new db c (head_of (stored_events db ?p)) g) own = Inr (oc, w)" "wk_failed w = None"
    and tw: "turn_written cf c w db h db'"
    using turn_outcomes [OF conf ok run] by blast
  obtain w0 facts where steps: "work_steps cf (work_new db c (head_of (stored_events db ?p)) g) w0"
    and comp: "complete_for cf (cmd_kind c) (cmd_request_id c) (cmd_digest c) [] oc facts w0 = Inr w"
    and kept: "answer_kept cf (oc_answer oc)"
    using new_completes [OF new] by (auto simp: completes_def work_new_def)
  let ?e = "completion_event (cmd_kind c) (cmd_request_id c) (cmd_digest c) [] oc facts"
  obtain s w1 where s: "sealed_event cf ?e w0 = Inr s" "apply_projectors cf s w0 = (Inr (), w1)" "w = pushed ?e s w1"
    using comp unfolding complete_for_ok by blast
  obtain st where w1: "w1 = w0\<lparr>wk_staged := st\<rparr>" using apply_projectors_frame [OF s(2)] by blast
  have events: "wk_events w = wk_events w0 @ [(s, answer_attachments (oc_answer oc))]"
    and db: "wk_db w = wk_db w0"
    by (simp_all add: s(3) w1 pushed_def completion_event_def)
  note sf = sealed_event_fields [OF s(1)]
  obtain r l anchors tables copies where t: "db_projects db ?p = Some r"
    "db_projects db' ?p = Some (written_row w h anchors tables (r\<lparr>pj_leases := l\<rparr>))"
    "db_payloads db' = db_payloads (wk_db w)" "pj_live r = Some (wk_generation w)"
    "collect_results (copy_event cf) (map fst (wk_events w)) = Inr copies"
    "\<forall>q \<in> set (cf_projectors cf). project_events q (pj_views r (wk_generation w) (view_name q)) copies = Inr (tables (view_name q))"
    using tw unfolding turn_written_def by (elim exE conjE)
  let ?r = "written_row w h anchors tables (r\<lparr>pj_leases := l\<rparr>)"
  have tyn: "type_name s = command_completed" using sf(5) by (simp add: completion_event_def)
  obtain cs where cs: "copies = cs @ [s]"
  proof -
    from t(5) obtain cs x where "copies = cs @ [x]" "copy_event cf s = Inr x"
      by (auto simp: events collect_results_Inr_iff list_all2_append1 list_all2_Cons1)
    with copy_store_owned [of s cf x] store_owned_completed tyn that show ?thesis by simp
  qed
  have wfa: "answer_wf (oc_answer oc)" "kept_answer (oc_answer oc) = oc_answer oc"
    using kept wf(2) by (auto simp: answer_kept_def ref_wf_def hash_wf_def split: answer.splits)
  have "project_events request_projector (pj_views r (wk_generation w) request_view) (cs @ [s]) = Inr (tables request_view)"
    using t(6) configuredD(4) [OF conf] by (auto simp: cs request_projector_def request_spec_def)
  note proj = this
  have pl: "payload s = completed_payload_for (cmd_kind c) (cmd_request_id c) (cmd_digest c) [] oc"
    using sf(6) by (simp add: completion_event_def)
  from completion_projected [OF proj tyn pl wf(1) wfa(1)] obtain body where body: "tables request_view (request_key c) = Some \<lparr>doc_seq = seq s, doc_body = body\<rparr>"
    "request_state body = Some (Completed (cmd_digest c) oc)"
    by (auto simp: wfa(2) request_key_def)
  have "replayed_outcome db' ?p (seq s) oc = Inr oc"
  proof (cases "oc_answer oc")
    case (Stored ref)
    have "check_attachments (wk_db w0) ?e = Inr ()" using s(1) by (auto simp: sealed_event_def result_simps split: if_splits)
    from stored_attachment [OF this] Stored obtain row bytes where
      pay: "db_payloads db' (pr_hash ref) = Some row" "py_state row = PresentBody bytes"
      by (auto simp: completion_event_def answer_attachments_def t(3) db)
    let ?row = "\<lparr>rr_seq = seq s, rr_hash = pr_hash ref, rr_class = pr_class ref, rr_released = None\<rparr>"
    have ok': "store_ok cf db'" using turn_written_store_ok [OF ok tw] .
    have mem: "?row \<in> set (pj_refs ?r)"
      by (simp add: written_row_def events reference_rows_def Stored answer_attachments_def)
    have dist: "distinct (ref_keys (pj_refs ?r))" using store_okD [OF ok' t(2)] by (simp add: row_ok_def)
    have find: "find (\<lambda>row. rr_seq row = seq s \<and> rr_hash row = pr_hash ref) (pj_refs ?r) = Some ?row"
    proof (cases "find (\<lambda>row. rr_seq row = seq s \<and> rr_hash row = pr_hash ref) (pj_refs ?r)")
      case None
      then have "\<not> (rr_seq ?row = seq s \<and> rr_hash ?row = pr_hash ref)" using mem unfolding find_None_iff by blast
      then show ?thesis by simp
    next
      case (Some row')
      then have "row' \<in> set (pj_refs ?r)" "rr_seq row' = seq s \<and> rr_hash row' = pr_hash ref"
        by (auto dest: find_SomeD)
      with mem dist have "row' = ?row" by (auto simp: distinct_map inj_on_def)
      with Some show ?thesis by simp
    qed
    have "unat (seq s) < 2 ^ 63"
    proof -
      have "wk_head w = Some h" "unat (h_seq h) < 2 ^ 63" using tw unfolding turn_written_def by blast+
      then show ?thesis by (auto simp: s(3) pushed_def)
    qed
    then have "reference_status db' ?p (seq s) (pr_hash ref) = Inr (Present (py_bytes row))"
      by (simp add: reference_status_def sql_int_def t(2) find stored_status_def pay)
    then show ?thesis by (simp add: replayed_outcome_def Stored)
  qed (use kept in \<open>simp_all add: replayed_outcome_def answer_kept_def\<close>)
  with that [OF t(2), of "wk_generation w" "seq s" body] body t(4) show ?thesis by (simp add: written_row_def)
qed

end

section \<open>A recorded request is answered from its record\<close>

lemma turn_ran:
  "command_path_for cf replay new c entry (db, marks) = (Inr x, db', marks') \<Longrightarrow>
     cf_unhealthy cf = None \<and> db_epoch db = epoch"
  by (auto simp: command_path_for_def command_turn_def transaction_def
      split: if_splits option.splits sum.splits prod.splits turn.splits)

lemma judge_request_head:
  assumes "judge_live_request vs live = Inr (FenceCurrent g)"
  shows "judge_live_request vs (live\<lparr>lv_head := n\<rparr>) = Inr (FenceCurrent g)"
proof -
  have gen: "lv_generation live = Some g" using judge_request_generation [OF assms] .
  have eq: "lv_stamps (live\<lparr>lv_head := n\<rparr>) = lv_stamps live" "lv_generation (live\<lparr>lv_head := n\<rparr>) = Some g"
    using gen by simp_all
  have newer: "newer_view t (live\<lparr>lv_head := n\<rparr>) = newer_view t live" for t unfolding newer_view_def eq ..
  show ?thesis using assms unfolding judge_live_request_def eq gen newer by simp
qed

lemma request_document_read:
  assumes "configured cf" "db_projects db (cmd_project c) = Some r"
  shows "request_document (cf_views cf) db c g = Inr (pj_views r g request_view (request_key c))"
proof -
  obtain t where "view_schema_of (cf_views cf) request_view = Inr t" "vt_spec t = request_spec"
    using configuredD(2) [OF assms(1) configuredD(4) [OF assms(1)]] by (auto simp: request_projector_def request_spec_def)
  then show ?thesis
    by (simp add: request_document_def get_document_def Let_def fitted_def request_spec_def request_key_def view_of_def assms(2))
qed

lemma recorded_turn:
  assumes "configured cf" "store_ok cf db" "cf_unhealthy cf = None" "db_epoch db = epoch"
    and "is_ok (parse_instant (cmd_recorded_at c))" and row: "db_projects db (cmd_project c) = Some r"
    and judged: "judge_live_request (cf_views cf) (live_row r) = Inr (FenceCurrent g)"
    and doc: "pj_views r g request_view (request_key c) = Some \<lparr>doc_seq = n, doc_body = body\<rparr>"
      "request_state body = Some (Completed digest oc)" "replayed_outcome db (cmd_project c) n oc = Inr oc"
  shows "command_path_for cf replay new c entry (db, marks) =
    (if cmd_digest c = digest
     then (case replay db (Completed digest oc) n of Inl e \<Rightarrow> Inl e | Inr v \<Rightarrow> Inr (TurnReplayed v), db, marks)
     else (Inl (RefusedBy (RequestDigestMismatch (cmd_request_id c))), db, marks))"
proof -
  have head: "stored_head db (cmd_project c) = Inr (head_of (stored_events db (cmd_project c)))"
    using stored_head_row [OF conjunct1 [OF store_okD [OF assms(2) row]] row] .
  have live: "live_of db (cmd_project c) = Inr (live_row r)" using row by (simp add: live_of_row)
  have look: "lookup_request (cf_views cf) replay db c entry g =
    (if cmd_digest c = digest
     then (case replay db (Completed digest oc) n of Inl e \<Rightarrow> Inl e | Inr v \<Rightarrow> Inr (Some v))
     else Inl (RefusedBy (RequestDigestMismatch (cmd_request_id c))))"
    by (simp add: lookup_request_def request_document_read [OF assms(1) row] doc ok_or_def split: sum.split)
  show ?thesis
    using assms(3-5)
    by (simp add: command_path_for_def command_turn_def transaction_def turn_body_def head live judged look split: sum.split)
qed

section \<open>The entries\<close>

interpretation transacting: completing_entry cf "transact_new cf decide" for cf decide
  by unfold_locales (auto dest: transact_completes completes_steps)

interpretation claiming: command_entry cf "claim_new cf c decide" for cf c decide
  by unfold_locales (rule claim_steps)

interpretation completing: command_entry cf "complete_new cf c decide" for cf c decide
  by unfold_locales (rule complete_steps)

interpretation reconciling: completing_entry cf "reconcile_new cf c cid authority decide" for cf c cid authority decide
  by unfold_locales (auto dest: reconcile_completes completes_steps)

end
