(* ===== verification/Store_Reach.thy ===== *)
theory Store_Reach
  imports Command_Entries
begin

text \<open>
  Every store the code can leave: from an empty one, by creating projects, stamping their views and
  running commands, each with any decision and any outcome, refusals and rollbacks included.  The
  invariants of such stores are read off the contract of the command path's entries.
\<close>

section \<open>Every store this code can leave\<close>

inductive store_step :: "store_config \<Rightarrow> database \<times> marks \<Rightarrow> database \<times> marks \<Rightarrow> bool" for cf where
  step_create: "create_project cf project st = (r, st') \<Longrightarrow> store_step cf st st'"
| step_stamp: "stamp_empty cf project st = (r, st') \<Longrightarrow> store_step cf st st'"
| step_transact: "transact cf c decide st = (r, st') \<Longrightarrow> store_step cf st st'"
| step_claim: "claim_command cf c cdecide st = (cr, st') \<Longrightarrow> store_step cf st st'"
| step_complete: "complete cf c owner decide st = (r, st') \<Longrightarrow> store_step cf st st'"
| step_reconcile: "reconcile cf c cid authority rdecide st = (r, st') \<Longrightarrow> store_step cf st st'"
| step_renew: "renew_lease cf project cid owner t st = (rr, st') \<Longrightarrow> store_step cf st st'"

definition empty_store :: "database \<times> marks" where
  "empty_store = (\<lparr>db_epoch = epoch, db_payloads = Map.empty, db_projects = Map.empty\<rparr>, Map.empty)"

definition reachable :: "store_config \<Rightarrow> database \<times> marks \<Rightarrow> bool" where
  "reachable cf st \<longleftrightarrow> (store_step cf)\<^sup>*\<^sup>* empty_store st"

lemma transaction_cases:
  "transaction cf f (db, marks) = (r, db', marks') \<Longrightarrow>
     db' = db \<or> (\<exists>v. r = Inr v \<and> f db marks = (Inr (v, db'), marks'))"
  by (auto simp: transaction_def split: option.splits if_splits prod.splits sum.splits)

lemma leased_store_ok:
  assumes "leased p db db'" "store_ok cf db"
  shows "store_ok cf db'"
  unfolding store_ok_def
proof (intro allI impI)
  fix q r' assume r': "db_projects db' q = Some r'"
  obtain r l where r: "db_projects db q = Some r" "r' = r \<or> r' = r\<lparr>pj_leases := l\<rparr>"
    using assms(1) r' by (cases "q = p"; cases "db_projects db q") (auto simp: leased_def)
  have "row_ok cf q r \<and> views_ok cf r" using store_okD [OF assms(2) r(1)] .
  moreover have "live_row (r\<lparr>pj_leases := l\<rparr>) = live_row r" by (simp add: live_row_def split: option.split)
  ultimately show "row_ok cf q r' \<and> views_ok cf r'"
    using r(2) by (elim disjE) (simp_all add: row_ok_def views_ok_def)
qed

lemma renew_leased: "renew_body cf p cid owner t db = Inr (v, db') \<Longrightarrow> leased p db db'"
  unfolding renew_body_def
  by (auto elim!: rbindE simp: leased_set_lease split: sum.split_asm request_state.split_asm if_split_asm)

lemma replayed_nothing: "replayed cf [] (\<lambda>_. Map.empty)"
  by (simp add: replayed_def project_events_def)

lemma create_store_ok:
  assumes "store_ok cf db" "create_project cf p (db, marks) = (r, db', marks')"
  shows "store_ok cf db'"
  using transaction_cases [OF assms(2) [unfolded create_project_def]]
proof (elim disjE exE conjE)
  assume "db' = db" with assms(1) show ?thesis by simp
next
  fix v assume "(if \<not> Option.is_none (db_projects db p) then Inl (RefusedBy (ProjectExists p))
        else Inr ((), db\<lparr>db_projects := (db_projects db)(p \<mapsto> new_project)\<rparr>), marks) = (Inr (v, db'), marks')"
  then have db': "db' = db\<lparr>db_projects := (db_projects db)(p \<mapsto> new_project)\<rparr>" by (auto split: if_splits)
  have "row_ok cf p new_project" by (simp add: row_ok_def new_project_def ledger_chain_def head_of_def)
  moreover have "views_ok cf new_project"
    by (auto simp: views_ok_def new_project_def live_row_def dest!: judge_set_generation)
  ultimately show ?thesis using assms(1) by (auto simp: store_ok_def db')
qed

lemma stamp_store_ok:
  assumes "store_ok cf db" "stamp_empty cf p (db, marks) = (r, db', marks')"
  shows "store_ok cf db'"
  using transaction_cases [OF assms(2) [unfolded stamp_empty_def]]
proof (elim disjE exE conjE)
  assume "db' = db" with assms(1) show ?thesis by simp
next
  fix v assume "(rbind (live_of db p) (\<lambda>live.
          if lv_generation live = None \<and> lv_head live = 0
          then rbind (put_stamps (cf_views cf) p 0 (update_project p (\<lambda>r. r\<lparr>pj_live := Some 0\<rparr>) db)) (\<lambda>db. Inr ((), db))
          else Inr ((), db)), marks) = (Inr (v, db'), marks')"
  then obtain live where live: "live_of db p = Inr live"
    and cases: "db' = db \<or> lv_generation live = None \<and> lv_head live = 0
       \<and> put_stamps (cf_views cf) p 0 (update_project p (\<lambda>r. r\<lparr>pj_live := Some 0\<rparr>) db) = Inr db'"
    by (auto simp: result_simps split: if_splits)
  obtain row where row: "db_projects db p = Some row" "live = live_row row" using live by (auto simp: live_of_row)
  note ok = store_okD [OF assms(1) row(1)]
  show ?thesis
  proof (cases "db' = db")
    case True
    with assms(1) show ?thesis by simp
  next
    case False
    let ?row = "row\<lparr>pj_live := Some 0, pj_stamps := (pj_stamps row)(0 := pj_stamps row 0 @ stamps_for (cf_views cf))\<rparr>"
    from cases False have none: "pj_live row = None" "pj_head_seq row = 0"
      and put: "put_stamps (cf_views cf) p 0 (update_project p (\<lambda>r. r\<lparr>pj_live := Some 0\<rparr>) db) = Inr db'"
      by (auto simp: row(2) live_row_def)
    from put row(1) have db': "db' = update_project p (\<lambda>r. r\<lparr>pj_stamps := (pj_stamps r)(0 := pj_stamps r 0 @ stamps_for (cf_views cf))\<rparr>)
        (update_project p (\<lambda>r. r\<lparr>pj_live := Some 0\<rparr>) db)"
      by (auto simp: put_stamps_def project_of_def ok_or_def update_project_def split: if_splits)
    have rows: "db_projects db' q = (if q = p then Some ?row else db_projects db q)" for q
      by (simp add: db' update_project_def row(1))
    have "unat (of_nat (length (pj_events row)) :: u64) = length (pj_events row)"
      using ok by (intro unat_of_nat_u64) (simp add: row_ok_def)
    then have "pj_events row = []" using ok none(2) by (auto simp: row_ok_def unat_eq_zero)
    moreover have "pj_views row = (\<lambda>_ _. Map.empty)" using ok none(1) by (simp add: views_ok_def)
    ultimately have "views_ok cf ?row" using replayed_nothing [of cf] by (simp add: views_ok_def)
    moreover have "row_ok cf p ?row" using ok by (simp add: row_ok_def)
    ultimately show ?thesis using assms(1) by (auto simp: store_ok_def rows split: if_splits)
  qed
qed

lemma step_store_ok:
  assumes "store_step cf st st'" "configured cf" "store_ok cf (fst st)"
  shows "store_ok cf (fst st')"
proof -
  obtain db marks db' marks' where st: "st = (db, marks)" "st' = (db', marks')" by (metis prod.collapse)
  with assms(3) have ok: "store_ok cf db" by simp
  from assms(1)[unfolded st] have "store_ok cf db'"
  proof (cases rule: store_step.cases)
    case (step_create project r)
    then show ?thesis using create_store_ok [OF ok] by blast
  next
    case (step_stamp project r)
    then show ?thesis using stamp_store_ok [OF ok] by blast
  next
    case (step_transact c decide r)
    then show ?thesis using transacting.turn_keeps_store [OF assms(2) ok] unfolding transact_def by blast
  next
    case (step_claim c cdecide cr)
    then show ?thesis using claiming.turn_keeps_store [OF assms(2) ok] unfolding claim_command_def by blast
  next
    case (step_complete c owner decide r)
    then show ?thesis using completing.turn_keeps_store [OF assms(2) ok] unfolding complete_def by blast
  next
    case (step_reconcile c cid authority rdecide r)
    then show ?thesis using reconciling.turn_keeps_store [OF assms(2) ok] ok unfolding reconcile_def
      by (auto split: if_splits)
  next
    case (step_renew project cid owner t rr)
    from transaction_cases [OF step_renew [unfolded renew_lease_def]] ok leased_store_ok [OF renew_leased]
    show ?thesis by auto
  qed
  then show ?thesis by (simp add: st)
qed

lemma reachable_ok: "reachable cf st \<Longrightarrow> configured cf \<Longrightarrow> store_ok cf (fst st)"
  unfolding reachable_def
  by (induction rule: rtranclp_induct) (auto simp: empty_store_def store_ok_def [of cf "\<lparr>db_epoch = e, db_payloads = p, db_projects = Map.empty\<rparr>" for e p] intro: step_store_ok)

section \<open>All or nothing\<close>

definition committed :: "command \<Rightarrow> database \<Rightarrow> database \<Rightarrow> head \<Rightarrow> bool" where
  "committed c db db' h \<longleftrightarrow> (\<exists>r r' fs. db_projects db (cmd_project c) = Some r \<and> db_projects db' (cmd_project c) = Some r'
     \<and> pj_events r' = pj_events r @ fs \<and> head_of (pj_events r') = Some h
     \<and> pj_head_seq r' = h_seq h \<and> pj_head_hash r' = Some (h_hash h)
     \<and> (\<forall>q. q \<noteq> cmd_project c \<longrightarrow> db_projects db' q = db_projects db q) \<and> db_payloads db \<subseteq>\<^sub>m db_payloads db')"

definition all_or_nothing :: "command \<Rightarrow> database \<Rightarrow> (store_error + 'a turn) \<times> database \<times> marks \<Rightarrow> bool" where
  "all_or_nothing c db out = (case out of
     (Inr (TurnNew v h), db', marks') \<Rightarrow> committed c db db' h
   | (res, db', marks') \<Rightarrow> db' = db)"

lemma turn_written_committed: "turn_written cf c w db h db' \<Longrightarrow> committed c db db' h"
proof -
  assume a: "turn_written cf c w db h db'"
  then obtain r l anchors tables where t: "db_projects db (cmd_project c) = Some r"
    "db_projects db' (cmd_project c) = Some (written_row w h anchors tables (r\<lparr>pj_leases := l\<rparr>))"
    "\<forall>q. q \<noteq> cmd_project c \<longrightarrow> db_projects db' q = db_projects db q" "db_payloads db \<subseteq>\<^sub>m db_payloads db'"
    "work_chain cf w" "history w = pj_events r @ map fst (wk_events w)" "wk_head w = Some h"
    unfolding turn_written_def by (elim exE conjE)
  have "head_of (history w) = Some h" using work_chainD(2) [OF t(5)] t(7) by simp
  with t show ?thesis
    unfolding committed_def
    by (intro exI [of _ r] exI [of _ "written_row w h anchors tables (r\<lparr>pj_leases := l\<rparr>)"] exI [of _ "map fst (wk_events w)"])
      (simp add: written_row_def)
qed

context command_entry
begin

lemma all_or_nothing:
  assumes "configured cf" "store_ok cf db"
  shows "all_or_nothing c db (command_path_for cf replay new c entry (db, marks))"
proof -
  obtain res db' marks' where r: "command_path_for cf replay new c entry (db, marks) = (res, db', marks')" by (metis prod.collapse)
  from turn_outcomes [OF assms r] show ?thesis
    by (auto simp: r all_or_nothing_def turn_written_committed split: sum.split turn.split)
qed

end

section \<open>Errors a decision went on past\<close>

text \<open>Every operation a decision asks for, run in order, is answered without an error.\<close>

primrec all_answered :: "store_config \<Rightarrow> 'a program \<Rightarrow> work \<Rightarrow> bool" where
  "all_answered cf (Finished r) w = True"
| "all_answered cf (Get view key k) w =
     (let r = get_staged cf w view key in is_ok r \<and> all_answered cf (k r) w)"
| "all_answered cf (Find view query k) w =
     (let r = find_staged cf w view query in is_ok r \<and> all_answered cf (k r) w)"
| "all_answered cf (EventExists m k) w = all_answered cf (k (Inr (event_exists w m))) w"
| "all_answered cf (Expect name version k) w =
     (let r = expect_version w name version in is_ok r \<and> all_answered cf (k r) w)"
| "all_answered cf (Append e k) w =
     (let (r, w') = append_domain cf e w in is_ok r \<and> all_answered cf (k r) w')"
| "all_answered cf (PutPayload bytes class k) w =
     (case put_in_work cf bytes class w of Inl error \<Rightarrow> False | Inr (ref, w') \<Rightarrow> all_answered cf (k (Inr ref)) w')"
| "all_answered cf (HeadOf k) w = all_answered cf (k (wk_head w)) w"
| "all_answered cf (RecordAnchor a tag remote at k) w =
     (case stage_anchor a tag remote at w of Inl error \<Rightarrow> False | Inr w' \<Rightarrow> all_answered cf (k (Inr ())) w')"

lemma noted_ok': "noted r = (r', w') \<Longrightarrow> wk_failed w' = None \<Longrightarrow> is_ok (fst r) \<and> r' = fst r \<and> w' = snd r"
  using noted_ok [of r r' w'] by (auto simp: is_ok_iff)

lemma run_answered:
  assumes "run cf d w = (r, w')" "wk_failed w' = None"
  shows "all_answered cf d w"
  using assms
proof (induction d arbitrary: w)
  case (Finished v)
  then show ?case by simp
next
  case (Get view key k)
  obtain r1 w1 where r1: "noted (get_staged cf w view key, w) = (r1, w1)" by fastforce
  then have run: "run cf (k r1) w1 = (r, w')" using Get.prems(1) by simp
  from noted_ok' [OF r1] run_steps [OF run Get.prems(2)] Get.IH [OF _ run Get.prems(2)] show ?case by (auto simp: Let_def)
next
  case (Find view query k)
  obtain r1 w1 where r1: "noted (find_staged cf w view query, w) = (r1, w1)" by fastforce
  then have run: "run cf (k r1) w1 = (r, w')" using Find.prems(1) by simp
  from noted_ok' [OF r1] run_steps [OF run Find.prems(2)] Find.IH [OF _ run Find.prems(2)] show ?case by (auto simp: Let_def)
next
  case (EventExists m k)
  show ?case using EventExists.IH [OF _ _ EventExists.prems(2), of "k (Inr (event_exists w m))" w] EventExists.prems(1) by simp
next
  case (Expect name version k)
  obtain r1 w1 where r1: "noted (expect_version w name version, w) = (r1, w1)" by fastforce
  then have run: "run cf (k r1) w1 = (r, w')" using Expect.prems(1) by simp
  from noted_ok' [OF r1] run_steps [OF run Expect.prems(2)] Expect.IH [OF _ run Expect.prems(2)] show ?case by (auto simp: Let_def)
next
  case (Append e k)
  obtain r1 w1 where r1: "noted (append_domain cf e w) = (r1, w1)" by fastforce
  then have run: "run cf (k r1) w1 = (r, w')" using Append.prems(1) by simp
  from noted_ok' [OF r1] run_steps [OF run Append.prems(2)] Append.IH [OF _ run Append.prems(2)] show ?case
    by (auto split: prod.split)
next
  case (PutPayload bytes cl k)
  obtain r1 w1 where r1: "answered w (put_in_work cf bytes cl w) = (r1, w1)" by fastforce
  then have run: "run cf (k r1) w1 = (r, w')" using PutPayload.prems(1) by simp
  from answered_ok [OF r1] run_steps [OF run PutPayload.prems(2)] PutPayload.IH [OF _ run PutPayload.prems(2)] show ?case by auto
next
  case (HeadOf k)
  show ?case using HeadOf.IH [OF _ _ HeadOf.prems(2), of "k (wk_head w)" w] HeadOf.prems(1) by simp
next
  case (RecordAnchor a tag remote t k)
  obtain r1 w1 where r1: "answered w (case stage_anchor a tag remote t w of Inl error \<Rightarrow> Inl error | Inr w' \<Rightarrow> Inr ((), w')) = (r1, w1)"
    by fastforce
  then have run: "run cf (k r1) w1 = (r, w')" using RecordAnchor.prems(1) by simp
  from answered_ok [OF r1] run_steps [OF run RecordAnchor.prems(2)] RecordAnchor.IH [OF _ run RecordAnchor.prems(2)] show ?case
    by (auto split: sum.splits)
qed

lemma transact_answered:
  assumes "transact_new cf decide w own = Inr (oc, w')" "wk_failed w' = None"
  shows "all_answered cf decide w"
proof -
  obtain d w1 w2 where r: "run cf decide w = (Inr d, w1)" "work_outcome cf d w1 = Inr (oc, w2)"
    and f: "work_finish cf oc (dc_git d) (Some (dc_observed d)) w2 = Inr w'"
    using assms(1) by (auto simp: transact_new_def decided_def result_simps)
  have "wk_failed w1 = None" using work_finish_step [OF f] work_outcome_step [OF r(2)] assms(2) by simp
  with run_answered [OF r(1)] show ?thesis by simp
qed

end
