(* ===== verification/Claim_Exclusion.thy ===== *)
theory Claim_Exclusion
  imports Store_Reach
begin

text \<open>
  Open claims are exclusive.  The claim-scope view names, for each token, the claim that holds it,
  and the request view keeps the open claims; a recorded claim whose tokens nobody held keeps every
  open claim the named holder of all its tokens, and any other event does too.  The locale
  \<open>scoped_entry\<close> states what an entry owes for this: its command records no claim, or last one claim
  of the scope the path checked.
\<close>

section \<open>Open claims hold their tokens\<close>

definition open_claim :: "view_table \<Rightarrow> string \<Rightarrow> string \<Rightarrow> claim_doc option" where
  "open_claim requests kind request =
     (case request_at requests [KText kind, KText request] of
        Some (Claimed doc) \<Rightarrow> Some doc
      | Some (AwaitingClaim doc n) \<Rightarrow> Some doc
      | _ \<Rightarrow> None)"

definition scopes_ok :: "view_table \<Rightarrow> view_table \<Rightarrow> bool" where
  "scopes_ok scopes requests \<longleftrightarrow> (\<forall>kind request doc. open_claim requests kind request = Some doc \<longrightarrow>
     cd_id doc = \<lparr>ci_kind = kind, ci_request_id = request\<rparr>
     \<and> (\<forall>t \<in> set (cd_scope doc). scope_holder scopes t = Some (cd_seq doc, kind, request)))"

lemma scopes_okD:
  "scopes_ok scopes requests \<Longrightarrow> open_claim requests kind request = Some doc \<Longrightarrow>
     cd_id doc = \<lparr>ci_kind = kind, ci_request_id = request\<rparr>
     \<and> (\<forall>t \<in> set (cd_scope doc). scope_holder scopes t = Some (cd_seq doc, kind, request))"
  unfolding scopes_ok_def by blast

lemma scopes_ok_empty [simp]: "scopes_ok Map.empty Map.empty"
  by (simp add: scopes_ok_def open_claim_def request_at_def)

lemma unhandled_overlay:
  "fold_event p table e [] = Inr st \<Longrightarrow> type_name e \<notin> set (p_handles p) \<Longrightarrow> overlay table (map_of st) = table"
  by (simp add: fold_event_def)

text \<open>One command event changes the state of the request it names, as the request machine says.\<close>

lemma request_fold:
  assumes "fold_event request_projector table e [] = Inr st" "type_name e \<in> set (p_handles request_projector)"
  obtains kind request where "get_str ''kind'' (payload e) = Some kind" "get_str ''request_id'' (payload e) = Some request"
    "request_at (overlay table (map_of st)) [KText kind, KText request] = request_step e (request_at table [KText kind, KText request])"
    "\<And>k. k \<noteq> [KText kind, KText request] \<Longrightarrow> request_at (overlay table (map_of st)) k = request_at table k"
proof -
  from fold_event_request [OF assms(2,1)] obtain key cs where key: "request_key_of e = Some key"
    and cs: "request_apply e (documents_at table [] [key]) = Inr cs" "st = foldl (stage (seq e)) [] cs" .
  from key obtain kind request where kr: "get_str ''kind'' (payload e) = Some kind"
    "get_str ''request_id'' (payload e) = Some request" "key = [KText kind, KText request]"
    by (auto simp: request_key_of_def bind_eq_Some_conv)
  have "cs = [] \<or> (\<exists>body. cs = [Put key body])"
    using cs(1) key by (auto simp: request_apply_def result_simps split: if_splits)
  then have step: "request_at (overlay table (map_of st)) key = request_step e (request_at table key)
    \<and> (\<forall>k. k \<noteq> key \<longrightarrow> request_at (overlay table (map_of st)) k = request_at table k)"
  proof (elim disjE exE)
    assume "cs = []"
    with cs request_apply_none [of e table "[]" key] assms(2) show ?thesis by simp
  next
    fix body assume c: "cs = [Put key body]"
    have o: "overlay table (map_of st) = table(key \<mapsto> \<lparr>doc_seq = seq e, doc_body = body\<rparr>)"
      by (auto simp: cs(2) c stage_def overlay_def fun_eq_iff)
    from request_apply_state [OF cs(1) [unfolded c] key] show ?thesis by (simp add: o request_at_def [of "table(key \<mapsto> d)" for d])
        (simp add: request_at_def)
  qed
  with that kr show ?thesis by blast
qed

lemma open_claim_eq: "request_at r [KText k, KText q] = request_at r' [KText k, KText q] \<Longrightarrow> open_claim r k q = open_claim r' k q"
  by (simp add: open_claim_def)

lemma reconciled_keeps:
  "type_name e = command_reconciled \<Longrightarrow> request_step e s = Some s' \<Longrightarrow>
     (\<exists>doc n. s' = AwaitingClaim doc n \<and> (s = Some (Claimed doc) \<or> (\<exists>m. s = Some (AwaitingClaim doc m)))) \<or> s = Some s'"
  by (auto simp: request_step_def command_reconciled_def command_claimed_def split: option.splits if_splits request_state.splits)

lemma completed_not_open:
  "request_state (jset ''state'' (JString ''completed'') v) = Some s \<Longrightarrow> v = JObject m \<Longrightarrow> \<exists>d oc. s = Completed d oc"
  by (auto simp: request_state_def bind_eq_Some_conv split: if_splits)

lemma claimed_from_fields:
  "claimed_from_value v = Some p \<Longrightarrow> get_str ''kind'' v = Some (cp_kind p) \<and> get_str ''request_id'' v = Some (cp_request_id p)
     \<and> Option.bind (jget ''scope'' v) strs_from = Some (cp_scope p)"
  by (auto simp: claimed_from_value_def bind_eq_Some_conv)

lemma open_claimI: "request_at r [KText k, KText q] = s \<Longrightarrow>
     open_claim r k q = (case s of Some (Claimed doc) \<Rightarrow> Some doc | Some (AwaitingClaim doc n) \<Rightarrow> Some doc | _ \<Rightarrow> None)"
  by (simp add: open_claim_def)

text \<open>Recording a claim whose tokens nobody holds keeps every open claim the holder of its tokens.\<close>

lemma claimed_scopes_ok:
  assumes ok: "scopes_ok scopes requests" and e: "type_name e = command_claimed"
    and s: "fold_event claim_scope_projector scopes e [] = Inr st" and r: "fold_event request_projector requests e [] = Inr su"
    and free: "\<And>tokens t. Option.bind (jget ''scope'' (payload e)) strs_from = Some tokens \<Longrightarrow> t \<in> set tokens \<Longrightarrow>
         scope_holder scopes t = None"
  shows "scopes_ok (overlay scopes (map_of st)) (overlay requests (map_of su))"
proof -
  let ?S = "overlay scopes (map_of st)" and ?R = "overlay requests (map_of su)"
  obtain tokens kind request where tok: "Option.bind (jget ''scope'' (payload e)) strs_from = Some tokens"
    and kr: "get_str ''kind'' (payload e) = Some kind" "get_str ''request_id'' (payload e) = Some request"
    and holders: "\<And>t. scope_holder ?S t = (if t \<in> set tokens then Some (seq e, kind, request) else scope_holder scopes t)"
    using claim_scope_fold [OF s] e by auto
  obtain k q where kq: "get_str ''kind'' (payload e) = Some k" "get_str ''request_id'' (payload e) = Some q"
    "request_at ?R [KText k, KText q] = request_step e (request_at requests [KText k, KText q])"
    "\<And>key. key \<noteq> [KText k, KText q] \<Longrightarrow> request_at ?R key = request_at requests key"
    by (rule request_fold [OF r]) (simp_all add: request_projector_def e)
  then have same: "k = kind" "q = request" using kr by simp_all
  show ?thesis
    unfolding scopes_ok_def
  proof (intro allI impI)
    fix a b doc assume open': "open_claim ?R a b = Some doc"
    show "cd_id doc = \<lparr>ci_kind = a, ci_request_id = b\<rparr> \<and> (\<forall>t \<in> set (cd_scope doc). scope_holder ?S t = Some (cd_seq doc, a, b))"
    proof (cases "a = kind \<and> b = request")
      case True
      then obtain p where p: "claimed_from_value (payload e) = Some p" and doc: "cd_id doc = \<lparr>ci_kind = cp_kind p, ci_request_id = cp_request_id p\<rparr>"
        "cd_scope doc = cp_scope p" "cd_seq doc = seq e"
        using open' kq(3) by (auto simp: open_claim_def same request_step_def e split: option.splits)
      from claimed_from_fields [OF p] kr tok have "cp_kind p = kind" "cp_request_id p = request" "cp_scope p = tokens" by simp_all
      with doc True show ?thesis by (simp add: holders)
    next
      case False
      then have "open_claim requests a b = Some doc"
        using open' kq(4) [of "[KText a, KText b]"] by (simp add: same open_claim_def)
      note old = scopes_okD [OF ok this]
      then have "t \<notin> set tokens" if "t \<in> set (cd_scope doc)" for t using free [OF tok, of t] that by auto
      with old show ?thesis by (simp add: holders)
    qed
  qed
qed

text \<open>Recording any other event does too, and takes no free token.\<close>

lemma unclaimed_scopes_ok:
  assumes ok: "scopes_ok scopes requests" and e: "type_name e \<noteq> command_claimed"
    and s: "fold_event claim_scope_projector scopes e [] = Inr st" and r: "fold_event request_projector requests e [] = Inr su"
  shows "scopes_ok (overlay scopes (map_of st)) (overlay requests (map_of su))
    \<and> (\<forall>t. scope_holder scopes t = None \<longrightarrow> scope_holder (overlay scopes (map_of st)) t = None)"
proof -
  let ?S = "overlay scopes (map_of st)" and ?R = "overlay requests (map_of su)"
  consider (fin) "type_name e = command_completed" | (rec) "type_name e = command_reconciled"
    | (other) "type_name e \<notin> set (p_handles request_projector)"
    using e by (auto simp: request_projector_def)
  then show ?thesis
  proof cases
    case other
    then have "type_name e \<notin> set (p_handles claim_scope_projector)"
      by (auto simp: request_projector_def claim_scope_projector_def)
    with other ok show ?thesis by (simp add: unhandled_overlay [OF s] unhandled_overlay [OF r])
  next
    case rec
    then have "type_name e \<notin> set (p_handles claim_scope_projector)"
      by (simp add: claim_scope_projector_def command_reconciled_def command_claimed_def command_completed_def)
    then have S: "?S = scopes" by (rule unhandled_overlay [OF s])
    obtain k q where kq: "request_at ?R [KText k, KText q] = request_step e (request_at requests [KText k, KText q])"
      "\<And>key. key \<noteq> [KText k, KText q] \<Longrightarrow> request_at ?R key = request_at requests key"
      by (rule request_fold [OF r]) (simp_all add: request_projector_def rec)
    have "open_claim requests a b = Some doc" if o: "open_claim ?R a b = Some doc" for a b doc
    proof (cases "a = k \<and> b = q")
      case True
      with o kq(1) obtain s' where s': "request_step e (request_at requests [KText k, KText q]) = Some s'"
        and d: "s' = Claimed doc \<or> (\<exists>n. s' = AwaitingClaim doc n)"
        by (auto simp: open_claim_def split: option.splits request_state.splits)
      from reconciled_keeps [OF rec s'] d True show ?thesis by (auto simp: open_claim_def)
    next
      case False
      with o kq(2) [of "[KText a, KText b]"] show ?thesis by (simp add: open_claim_def)
    qed
    with ok show ?thesis unfolding S scopes_ok_def by blast
  next
    case fin
    obtain tokens kind request where kr: "get_str ''kind'' (payload e) = Some kind" "get_str ''request_id'' (payload e) = Some request"
      and holders: "\<And>t. scope_holder ?S t = (if t \<in> set tokens \<and> (\<exists>n. scope_holder scopes t = Some (n, kind, request)) then None
               else scope_holder scopes t)"
      using claim_scope_fold [OF s] fin e by auto
    obtain k q where kq: "get_str ''kind'' (payload e) = Some k" "get_str ''request_id'' (payload e) = Some q"
      "request_at ?R [KText k, KText q] = request_step e (request_at requests [KText k, KText q])"
      "\<And>key. key \<noteq> [KText k, KText q] \<Longrightarrow> request_at ?R key = request_at requests key"
      by (rule request_fold [OF r]) (simp_all add: request_projector_def fin)
    then have same: "k = kind" "q = request" using kr by simp_all
    obtain m where m: "payload e = JObject m" using kr(1) jget_not_object [of "''kind''" "payload e"] by (auto simp: bind_eq_Some_conv)
    have "request_step e s = request_state (jset ''state'' (JString ''completed'') (payload e))" for s
      using fin e by (simp add: request_step_def command_reconciled_def command_completed_def)
    then have closed: "open_claim ?R kind request = None"
      using kq(3) completed_not_open [OF _ m] by (auto simp: open_claim_def same split: option.splits request_state.splits)
    have "scopes_ok ?S ?R"
      unfolding scopes_ok_def
    proof (intro allI impI)
      fix a b doc assume open': "open_claim ?R a b = Some doc"
      then have ne: "\<not> (a = kind \<and> b = request)" using closed by auto
      then have "open_claim requests a b = Some doc"
        using open' kq(4) [of "[KText a, KText b]"] by (simp add: same open_claim_def)
      from scopes_okD [OF ok this] ne show "cd_id doc = \<lparr>ci_kind = a, ci_request_id = b\<rparr>
          \<and> (\<forall>t \<in> set (cd_scope doc). scope_holder ?S t = Some (cd_seq doc, a, b))"
        by (auto simp: holders)
    qed
    then show ?thesis by (simp add: holders)
  qed
qed


section \<open>A command's events\<close>

definition tidy :: "projector \<Rightarrow> staging \<Rightarrow> bool" where
  "tidy p st \<longleftrightarrow> akeys_sorted st \<and> (\<forall>k. map_of st k \<noteq> None \<longrightarrow> fitted k (map snd (vs_key (p_spec p))))"

lemma tidy_Nil [simp]: "tidy p []"
  by (simp add: tidy_def akeys_sorted_def)

context view_projector
begin

text \<open>Folding one event over staged documents is folding it over the table they amount to.\<close>

lemma fold_step:
  assumes "fold_event p table e st = Inr u" "tidy p st"
  obtains v where "fold_event p (overlay table (map_of st)) e [] = Inr v"
    "overlay table (map_of u) = overlay (overlay table (map_of st)) (map_of v)" "tidy p u"
proof -
  have "fold_events p table [e] st = Inr u" using assms(1) by simp
  moreover have "doc_read table st k = doc_read (overlay table (map_of st)) [] k" for k
    by (simp add: read_overlay [symmetric])
  ultimately obtain v where v: "fold_event p (overlay table (map_of st)) e [] = Inr v" "map_of u = map_of st ++ map_of v" "akeys_sorted u"
    using fold_events_overlay [where p = p and es = "[e]" and table = table and s = st and table' = "overlay table (map_of st)" and s' = "[]" and m = "map_of st"] assms(2)
    by (fastforce simp: tidy_def akeys_sorted_def result_simps)
  have "fitted k (map snd (vs_key (p_spec p)))" if "map_of v k \<noteq> None" for k
  proof -
    have "k \<in> fst ` set v" using that by (simp add: map_of_eq_None_iff)
    then show ?thesis using staged_keys [of "overlay table (map_of st)" "[e]" "[]" v] v(1) keys_fit by (auto split: if_splits)
  qed
  then have "tidy p u" using assms(2) v(2,3) by (auto simp: tidy_def)
  moreover have "overlay table (map_of u) = overlay (overlay table (map_of st)) (map_of v)"
    by (auto simp: v(2) overlay_def fun_eq_iff map_add_def split: option.split)
  ultimately show ?thesis using that v(1) by blast
qed

end

lemma unclaimed_events_ok:
  assumes "fold_events claim_scope_projector S es st = Inr st'" "fold_events request_projector R es su = Inr su'"
    and "scopes_ok (overlay S (map_of st)) (overlay R (map_of su))" "tidy claim_scope_projector st" "tidy request_projector su"
    and "list_all (\<lambda>e. type_name e \<noteq> command_claimed) es"
  shows "scopes_ok (overlay S (map_of st')) (overlay R (map_of su')) \<and> tidy claim_scope_projector st' \<and> tidy request_projector su'
    \<and> (\<forall>t. scope_holder (overlay S (map_of st)) t = None \<longrightarrow> scope_holder (overlay S (map_of st')) t = None)"
  using assms
proof (induction es arbitrary: st su)
  case (Cons e es)
  obtain su1 where r: "fold_event request_projector R e su = Inr su1" "fold_events request_projector R es su1 = Inr su'"
    using Cons.prems(2) by (auto simp: result_simps)
  obtain st1 where s: "fold_event claim_scope_projector S e st = Inr st1" "fold_events claim_scope_projector S es st1 = Inr st'"
    using Cons.prems(1) by (auto simp: result_simps)
  obtain v where v: "fold_event claim_scope_projector (overlay S (map_of st)) e [] = Inr v"
    "overlay S (map_of st1) = overlay (overlay S (map_of st)) (map_of v)" "tidy claim_scope_projector st1"
    using claim_scope.fold_step [OF s(1) Cons.prems(4)] .
  obtain u where u: "fold_event request_projector (overlay R (map_of su)) e [] = Inr u"
    "overlay R (map_of su1) = overlay (overlay R (map_of su)) (map_of u)" "tidy request_projector su1"
    using request.fold_step [OF r(1) Cons.prems(5)] .
  from unclaimed_scopes_ok [OF Cons.prems(3) _ v(1) u(1)] Cons.prems(6) v(2) u(2)
  have "scopes_ok (overlay S (map_of st1)) (overlay R (map_of su1))"
    "\<forall>t. scope_holder (overlay S (map_of st)) t = None \<longrightarrow> scope_holder (overlay S (map_of st1)) t = None" by simp_all
  with Cons.IH [OF s(2) r(2) _ v(3) u(3)] Cons.prems(6) show ?case by simp
qed simp

lemma last_claimed_ok:
  assumes "fold_events claim_scope_projector S (es @ [e]) [] = Inr st" "fold_events request_projector R (es @ [e]) [] = Inr su"
    and "scopes_ok S R" "list_all (\<lambda>e. type_name e \<noteq> command_claimed) es" "type_name e = command_claimed"
    and free: "\<And>tokens t. Option.bind (jget ''scope'' (payload e)) strs_from = Some tokens \<Longrightarrow> t \<in> set tokens \<Longrightarrow>
         scope_holder S t = None"
  shows "scopes_ok (overlay S (map_of st)) (overlay R (map_of su))"
proof -
  obtain st1 where s: "fold_events claim_scope_projector S es [] = Inr st1" "fold_event claim_scope_projector S e st1 = Inr st"
    using assms(1) by (auto simp: fold_events_append result_simps)
  obtain su1 where r: "fold_events request_projector R es [] = Inr su1" "fold_event request_projector R e su1 = Inr su"
    using assms(2) by (auto simp: fold_events_append result_simps)
  from unclaimed_events_ok [OF s(1) r(1)] assms(3,4) have mid: "scopes_ok (overlay S (map_of st1)) (overlay R (map_of su1))"
    "tidy claim_scope_projector st1" "tidy request_projector su1"
    "\<And>t. scope_holder S t = None \<Longrightarrow> scope_holder (overlay S (map_of st1)) t = None" by simp_all
  obtain v where v: "fold_event claim_scope_projector (overlay S (map_of st1)) e [] = Inr v"
    "overlay S (map_of st) = overlay (overlay S (map_of st1)) (map_of v)"
    using claim_scope.fold_step [OF s(2) mid(2)] .
  obtain u where u: "fold_event request_projector (overlay R (map_of su1)) e [] = Inr u"
    "overlay R (map_of su) = overlay (overlay R (map_of su1)) (map_of u)"
    using request.fold_step [OF r(2) mid(3)] .
  show ?thesis unfolding v(2) u(2)
    by (rule claimed_scopes_ok [OF mid(1) assms(5) v(1) u(1)]) (use free mid(4) in blast)
qed

section \<open>The tables a turn writes\<close>

lemma project_overlay:
  assumes "project_events p table es = Inr table'"
  obtains st where "fold_events p table es [] = Inr st" "table' = overlay table (map_of st)"
proof -
  obtain st where st: "fold_events p table es [] = Inr st" "write_staged (p_spec p) table st = Inr table'"
    using assms by (auto simp: project_events_def result_simps)
  have "table' = overlay table (map_of st)"
    using st akeys_sorted_distinct [OF fold_events_sorted [OF st(1)]] by (auto simp: write_staged_eq split: list.splits)
  with that st(1) show ?thesis .
qed

lemma copy_type_name: "copy_event cf e = Inr e' \<Longrightarrow> type_name e' = type_name e"
  by (auto simp: copy_event_def projection_copy_def result_simps split: if_splits option.splits)

definition claims_ok :: "store_config \<Rightarrow> project_row \<Rightarrow> bool" where
  "claims_ok cf r \<longleftrightarrow> (\<forall>g. judge_live_set (cf_views cf) (live_row r) = FenceCurrent g \<longrightarrow>
     scopes_ok (pj_views r g claim_scope_view) (pj_views r g request_view))"

definition unclaimed :: "event \<Rightarrow> bool" where
  "unclaimed e \<longleftrightarrow> type_name e \<noteq> command_claimed"

text \<open>A turn records either no claim, or one claim last whose tokens were free.\<close>

definition claims_free :: "command \<Rightarrow> project_row \<Rightarrow> work \<Rightarrow> bool" where
  "claims_free c r w \<longleftrightarrow> list_all (unclaimed \<circ> fst) (wk_events w)
     \<or> (\<exists>es s as. wk_events w = es @ [(s, as)] \<and> list_all (unclaimed \<circ> fst) es \<and> type_name s = command_claimed
          \<and> (\<forall>tokens t. Option.bind (jget ''scope'' (payload s)) strs_from = Some tokens \<longrightarrow> t \<in> set tokens \<longrightarrow>
               scope_holder (pj_views r (wk_generation w) claim_scope_view) t = None))"

lemma copies_unclaimed:
  "collect_results (copy_event cf) es = Inr copies \<Longrightarrow> list_all unclaimed es \<Longrightarrow> list_all (\<lambda>e. type_name e \<noteq> command_claimed) copies"
  unfolding collect_results_Inr_iff
  by (induction rule: list_all2_induct) (auto simp: unclaimed_def copy_type_name)

lemma claims_tables:
  assumes "claims_free c r w" "scopes_ok (pj_views r (wk_generation w) claim_scope_view) (pj_views r (wk_generation w) request_view)"
    and "collect_results (copy_event cf) (map fst (wk_events w)) = Inr copies"
    and s: "project_events claim_scope_projector (pj_views r (wk_generation w) claim_scope_view) copies = Inr S"
    and q: "project_events request_projector (pj_views r (wk_generation w) request_view) copies = Inr R"
  shows "scopes_ok S R"
proof -
  obtain st where st: "fold_events claim_scope_projector (pj_views r (wk_generation w) claim_scope_view) copies [] = Inr st"
    "S = overlay (pj_views r (wk_generation w) claim_scope_view) (map_of st)" by (rule project_overlay [OF s])
  obtain su where su: "fold_events request_projector (pj_views r (wk_generation w) request_view) copies [] = Inr su"
    "R = overlay (pj_views r (wk_generation w) request_view) (map_of su)" by (rule project_overlay [OF q])
  from assms(1) show ?thesis
    unfolding claims_free_def
  proof (elim disjE exE conjE)
    assume "list_all (unclaimed \<circ> fst) (wk_events w)"
    then have "list_all (\<lambda>e. type_name e \<noteq> command_claimed) copies"
      using copies_unclaimed [OF assms(3)] by (simp add: list.pred_map)
    with unclaimed_events_ok [OF st(1) su(1)] assms(2) show ?thesis by (simp add: st(2) su(2))
  next
    fix es e as
    assume w: "wk_events w = es @ [(e, as)]" "list_all (unclaimed \<circ> fst) es" "type_name e = command_claimed"
      "\<forall>tokens t. Option.bind (jget ''scope'' (payload e)) strs_from = Some tokens \<longrightarrow> t \<in> set tokens \<longrightarrow>
               scope_holder (pj_views r (wk_generation w) claim_scope_view) t = None"
    from assms(3) obtain cs x where c: "collect_results (copy_event cf) (map fst es) = Inr cs" "copies = cs @ [x]" "copy_event cf e = Inr x"
      by (auto simp: w collect_results_Inr_iff list_all2_append1 list_all2_Cons1)
    have "store_owned (type_name e)" unfolding w(3) by code_simp
    then have x: "x = e" using copy_store_owned c(3) by blast
    have "list_all (\<lambda>e. type_name e \<noteq> command_claimed) cs"
      using copies_unclaimed [OF c(1)] w(2) by (simp add: list.pred_map)
    from last_claimed_ok [OF st(1) [unfolded c(2) x] su(1) [unfolded c(2) x] assms(2) this w(3)] w(4)
    show ?thesis unfolding st(2) su(2) by blast
  qed
qed

lemma turn_written_claims:
  assumes "configured cf" "turn_written cf c w db h db'" "\<And>r. db_projects db (cmd_project c) = Some r \<Longrightarrow> claims_free c r w"
    and ok: "\<And>p r. db_projects db p = Some r \<Longrightarrow> claims_ok cf r" and r': "db_projects db' p = Some r'"
  shows "claims_ok cf r'"
proof (cases "p = cmd_project c")
  case False
  with assms(2) have "db_projects db' p = db_projects db p" unfolding turn_written_def by blast
  with ok r' show ?thesis by simp
next
  case True
  obtain r l anchors tables copies where t: "db_projects db p = Some r"
    "db_projects db' p = Some (written_row w h anchors tables (r\<lparr>pj_leases := l\<rparr>))" "pj_live r = Some (wk_generation w)"
    "collect_results (copy_event cf) (map fst (wk_events w)) = Inr copies"
    "\<forall>q \<in> set (cf_projectors cf). project_events q (pj_views r (wk_generation w) (view_name q)) copies = Inr (tables (view_name q))"
    using assms(2) unfolding turn_written_def True [symmetric] by (elim exE conjE)
  have r'_eq: "r' = written_row w h anchors tables (r\<lparr>pj_leases := l\<rparr>)" using r' t(2) by simp
  have names: "view_name claim_scope_projector = claim_scope_view" "view_name request_projector = request_view"
    by (simp_all add: claim_scope_projector_def request_projector_def claim_scope_spec_def request_spec_def)
  show ?thesis unfolding claims_ok_def
  proof (intro allI impI)
    fix g assume j: "judge_live_set (cf_views cf) (live_row r') = FenceCurrent g"
    have g: "g = wk_generation w" using judge_set_generation [OF j] t(3) by (simp add: r'_eq live_row_def written_row_def)
    have "judge_live_set (cf_views cf) (live_row r) = judge_live_set (cf_views cf) (live_row r')"
      using judge_set_head [of "live_row r" "wk_generation w" "cf_views cf" "h_seq h"]
      by (simp add: r'_eq live_row_def written_row_def t(3))
    with j g ok [OF t(1)] have old: "scopes_ok (pj_views r (wk_generation w) claim_scope_view) (pj_views r (wk_generation w) request_view)"
      by (simp add: claims_ok_def)
    have "scopes_ok (tables claim_scope_view) (tables request_view)"
      using claims_tables [OF assms(3) old t(4)] t(1,5) configuredD(3,4) [OF assms(1)] True names by metis
    then show "scopes_ok (pj_views r' g claim_scope_view) (pj_views r' g request_view)"
      by (simp add: r'_eq g written_row_def)
  qed
qed

section \<open>Entries that record no claim\<close>

lemma same_events: "wk_events w' = wk_events w \<Longrightarrow> appended P w w'" by simp

lemma work_outcome_events: "work_outcome cf d w = Inr (oc, w') \<Longrightarrow> wk_events w' = wk_events w"
  by (auto simp: work_outcome_def result_simps split: if_splits)

lemma unclaimed_names: "\<not> store_owned (type_name e) \<Longrightarrow> unclaimed e" "type_name e = command_completed \<Longrightarrow> unclaimed e"
  "type_name e = command_reconciled \<Longrightarrow> unclaimed e"
proof -
  have "store_owned command_claimed" by code_simp
  then show "\<not> store_owned (type_name e) \<Longrightarrow> unclaimed e" by (auto simp: unclaimed_def)
qed (simp_all add: unclaimed_def command_completed_def command_claimed_def command_reconciled_def)

lemma run_unclaimed: "run cf d w = (r, w') \<Longrightarrow> wk_failed w' = None \<Longrightarrow> appended unclaimed w w'"
  by (rule appended_mono [OF run_appended unclaimed_names(1)])

lemma complete_for_unclaimed: "complete_for cf kind request digest scope oc facts w = Inr w' \<Longrightarrow> appended unclaimed w w'"
  by (auto simp: complete_for_def result_simps unclaimed_names dest!: push_appended elim: appended_mono)

lemma work_finish_unclaimed: "work_finish cf oc facts ob w = Inr w' \<Longrightarrow> appended unclaimed w w'"
  by (auto simp: work_finish_def result_simps dest: complete_for_unclaimed)

lemma decided_unclaimed: "decided cf decide w = Inr (x, w') \<Longrightarrow> wk_failed w' = None \<Longrightarrow> appended unclaimed w w'"
proof -
  assume a: "decided cf decide w = Inr (x, w')" "wk_failed w' = None"
  obtain d w1 where r: "run cf decide w = (Inr d, w1)" "work_outcome cf d w1 = Inr (snd x, w')"
    using a(1) by (auto simp: decided_def result_simps)
  with run_unclaimed [OF r(1)] work_outcome_step [OF r(2)] work_outcome_events [OF r(2)] a(2) show ?thesis
    by (auto simp: appended_def)
qed

lemma finished_unclaimed:
  assumes "wk_failed w1 = None \<Longrightarrow> appended unclaimed w w1" "work_finish cf oc facts ob w1 = Inr w'" "wk_failed w' = None"
  shows "appended unclaimed w w'"
  using assms work_finish_step [OF assms(2)] work_finish_unclaimed [OF assms(2)] by (auto intro: appended_trans)

lemma transact_unclaimed:
  assumes "transact_new cf decide w own = Inr (oc, w')" "wk_failed w' = None"
  shows "appended unclaimed w w'"
proof -
  obtain d w1 where d: "decided cf decide w = Inr ((d, oc), w1)" "work_finish cf oc (dc_git d) (Some (dc_observed d)) w1 = Inr w'"
    using assms(1) by (auto simp: transact_new_def result_simps)
  show ?thesis by (rule finished_unclaimed [OF decided_unclaimed [OF d(1)] d(2) assms(2)])
qed

lemma complete_unclaimed:
  assumes "complete_new cf c decide w own = Inr (oc, w')" "wk_failed w' = None"
  shows "appended unclaimed w w'"
proof -
  obtain cl where own: "own = Some cl" using assms(1) by (auto simp: complete_new_def split: option.splits)
  obtain d w1 w2 where d: "decided cf decide w = Inr ((d, oc), w1)"
    and f: "complete_for cf (ci_kind (cl_id cl)) (ci_request_id (cl_id cl)) (cmd_digest c) (cl_scope cl) oc (dc_git d) w1 = Inr w2"
    and w': "w' = drop_lease (cl_id cl) w2"
    using assms(1) unfolding complete_new_def own by (auto simp: result_simps)
  have "wk_failed w1 = None" "wk_events w' = wk_events w2" using complete_for_step [OF f] assms(2) w' by (simp_all add: drop_lease_def)
  with decided_unclaimed [OF d] appended_trans [OF _ complete_for_unclaimed [OF f]] show ?thesis by (auto simp: appended_def)
qed

lemma resolve_unclaimed:
  assumes "resolve_claim cf cid doc d w = Inr w'"
  shows "appended unclaimed w w'"
proof -
  obtain oc w1 w2 where o: "work_outcome cf d w = Inr (oc, w1)"
    and f: "complete_for cf (ci_kind cid) (ci_request_id cid) (cd_digest doc) (cd_scope doc) oc (dc_git d) w1 = Inr w2"
    and w': "w' = drop_lease cid w2"
    using assms unfolding resolve_claim_def by (auto simp: result_simps)
  from complete_for_unclaimed [OF f] work_outcome_events [OF o] w' show ?thesis by (simp add: appended_def drop_lease_def)
qed

lemma reconcile_unclaimed:
  assumes "reconcile_new cf c cid authority decide w own = Inr (oc, w')" "wk_failed w' = None"
  shows "appended unclaimed w w'"
proof -
  obtain doc cl w1 res w2 n w3 w4 where i: "interrupted_claim cf c cid authority w = Inr ((doc, cl), w1)"
    and r: "run cf (decide cl) w1 = (Inr res, w2)"
    and p: "push_event cf (reconciled_event cid cl res) w2 = (Inr n, w3)"
    and q: "(case rc_resolution res of ResolutionAwaitingOwner \<Rightarrow> Inr w3 | Resolved d \<Rightarrow> resolve_claim cf cid doc d w3) = Inr w4"
    and f: "work_finish cf oc None None w4 = Inr w'"
    using assms(1) unfolding reconcile_new_def by (auto simp: result_simps Let_def)
  show ?thesis
  proof (rule finished_unclaimed [OF _ f assms(2)])
    assume w4: "wk_failed w4 = None"
    have w3: "appended unclaimed w3 w4" "wk_failed w3 = None"
      using q w4 by (auto dest: resolve_claim_step resolve_unclaimed split: resolution.splits)
    have w2: "appended unclaimed w2 w3" "wk_failed w2 = None"
      using appended_mono [OF push_appended [OF p], of unclaimed] push_event_failed [OF p] w3(2)
      by (simp_all add: reconciled_event_def unclaimed_names)
    have w1: "appended unclaimed w1 w2" "wk_failed w1 = None"
      using run_unclaimed [OF r w2(2)] run_steps [OF r w2(2)] by simp_all
    have "w1 = w" using interrupted_claim_same [OF i w1(2)] .
    with w1(1) w2(1) w3(1) show "appended unclaimed w w4" by (blast intro: appended_trans)
  qed
qed

section \<open>The claim entry\<close>

lemma claimed_scope: "Option.bind (jget ''scope'' (claimed_to_value p)) strs_from = Some (cp_scope p)"
  by (simp add: claimed_to_value_def jstrs_def strs_from_def del: map_map)

lemma claim_last:
  assumes "claim_new cf c decide (work_new db c' head g) own = Inr (v, w')" "wk_failed w' = None"
  shows "list_all (unclaimed \<circ> fst) (wk_events w')
     \<or> (\<exists>es s as. wk_events w' = es @ [(s, as)] \<and> list_all (unclaimed \<circ> fst) es \<and> type_name s = command_claimed
          \<and> Option.bind (jget ''scope'' (payload s)) strs_from = Some (cmd_scope c))"
proof -
  let ?w = "work_new db c' head g"
  obtain d w1 where r: "run cf decide ?w = (Inr d, w1)" using assms(1) by (auto simp: claim_new_def result_simps)
  have none: "wk_events ?w = []" by (simp add: work_new_def)
  show ?thesis
  proof (cases d)
    case (RefuseClaim dec)
    with assms(1) r obtain oc w2 where o: "work_outcome cf dec w1 = Inr (oc, w2)"
      "work_finish cf oc (dc_git dec) (Some (dc_observed dec)) w2 = Inr w'"
      by (auto simp: claim_new_def result_simps ok_or_def split: option.splits)
    have "appended unclaimed ?w w'"
      by (rule finished_unclaimed [OF _ o(2) assms(2)])
        (use run_unclaimed [OF r] work_outcome_step [OF o(1)] work_outcome_events [OF o(1)] in \<open>auto simp: appended_def\<close>)
    then show ?thesis by (simp add: appended_def none)
  next
    case (TakeClaim intent owner facts ob)
    with assms(1) r obtain n w2 where p: "push_event cf (claimed_event c intent owner facts) w1 = (Inr n, w2)"
      and l: "write_lease (command_id c) n (cmd_recorded_at c) w2 = Inr w'"
      by (auto simp: claim_new_def result_simps split: if_splits)
    have "wk_failed w1 = None" "wk_events w' = wk_events w2"
      using write_lease_step [OF l] push_event_failed [OF p] assms(2) l by (auto simp: write_lease_def result_simps)
    with run_unclaimed [OF r] have "appended unclaimed ?w w1" "wk_events w' = wk_events w2" by simp_all
    moreover obtain s as where "wk_events w2 = wk_events w1 @ [(s, as)]" "type_name s = command_claimed"
      "payload s = ne_payload (claimed_event c intent owner facts)"
    proof -
      obtain s x where s: "sealed_event cf (claimed_event c intent owner facts) w1 = Inr s"
        "apply_projectors cf s w1 = (Inr (), x)" "w2 = pushed (claimed_event c intent owner facts) s x"
        using p by (auto simp: push_event_ok)
      obtain st where "x = w1\<lparr>wk_staged := st\<rparr>" using apply_projectors_frame [OF s(2)] by blast
      then have "wk_events w2 = wk_events w1 @ [(s, ne_attachments (claimed_event c intent owner facts))]"
        by (simp add: s(3) pushed_def)
      moreover have "type_name s = command_claimed" using sealed_event_fields(5) [OF s(1)] by (simp add: claimed_event_def)
      ultimately show ?thesis using that sealed_event_fields(6) [OF s(1)] by blast
    qed
    ultimately show ?thesis by (auto simp: appended_def none claimed_event_def claimed_scope)
  qed
qed

text \<open>A token that a document names a holder of is held by an open claim of that scope.\<close>

lemma scope_holders_mem:
  "scope_holders vs db project g excl tokens = Inr holders \<Longrightarrow> t \<in> set tokens \<Longrightarrow>
     \<exists>r. token_holder vs db project g excl t = Inr r \<and> (\<forall>h. r = Some h \<longrightarrow> h \<in> set holders)"
proof (induction tokens arbitrary: holders)
  case (Cons u tokens)
  then show ?case by (cases "t = u") (auto simp: result_simps split: option.splits)
qed simp

lemma token_held:
  assumes "token_holder vs db project g None t = Inr r" "get_document vs db project g claim_scope_view [KText t] = Inr (Some d)"
  obtains h where "r = Some h" "t \<in> set (cl_scope h)"
proof -
  have "\<exists>h. r = Some h \<and> t \<in> set (cl_scope h)"
    using assms unfolding token_holder_def
    by (auto elim!: rbindE simp: claim_from_doc_def split: if_split_asm request_state.split_asm)
  with that show ?thesis by blast
qed

lemma scope_free:
  assumes "configured cf" "db_projects db (cmd_project c) = Some r" "check_scope (cf_views cf) db c g None = Inr ()" "t \<in> set (cmd_scope c)"
  shows "scope_holder (pj_views r g claim_scope_view) t = None"
proof (rule ccontr)
  assume "scope_holder (pj_views r g claim_scope_view) t \<noteq> None"
  then obtain d where d: "pj_views r g claim_scope_view [KText t] = Some d" by (auto simp: scope_holder_def bind_eq_Some_conv)
  obtain s where "view_schema_of (cf_views cf) claim_scope_view = Inr s" "vt_spec s = claim_scope_spec"
    using configuredD(2) [OF assms(1) configuredD(3) [OF assms(1)]] by (auto simp: claim_scope_projector_def claim_scope_spec_def)
  then have doc: "get_document (cf_views cf) db (cmd_project c) g claim_scope_view [KText t] = Inr (Some d)"
    using d assms(2) by (simp add: get_document_def Let_def fitted_def claim_scope_spec_def view_of_def)
  obtain holders where h: "scope_holders (cf_views cf) db (cmd_project c) g None (cmd_scope c) = Inr holders"
    "blocking (cmd_scope c) holders (cmd_recorded_at c) = Inr None"
    using assms(3,4) by (auto simp: check_scope_def result_simps split: if_splits option.splits)
  obtain x where x: "token_holder (cf_views cf) db (cmd_project c) g None t = Inr x" "\<forall>h. x = Some h \<longrightarrow> h \<in> set holders"
    using scope_holders_mem [OF h(1) assms(4)] by blast
  obtain cl where "x = Some cl" "t \<in> set (cl_scope cl)" by (rule token_held [OF x(1) doc])
  with x(2) h(2) assms(4) show False
    using min_by_key_None by (auto simp: blocking_def result_simps filter_empty_conv split: option.splits)
qed

section \<open>Every entry keeps open claims exclusive\<close>

text \<open>What the entry's command may record: no claim, or last one claim of the command's scope.\<close>

locale scoped_entry = command_entry cf new for cf and new :: "'a decide" +
  fixes c :: command and entry :: entry
  assumes new_claims: "new (work_new db c head g) own = Inr (v, w) \<Longrightarrow> wk_failed w = None \<Longrightarrow>
    list_all (unclaimed \<circ> fst) (wk_events w)
    \<or> entry = ClaimEntry \<and> (\<exists>es s as. wk_events w = es @ [(s, as)] \<and> list_all (unclaimed \<circ> fst) es
         \<and> type_name s = command_claimed \<and> Option.bind (jget ''scope'' (payload s)) strs_from = Some (cmd_scope c))"
begin

lemma keeps_claims:
  assumes "configured cf" "store_ok cf db" "\<And>p r. db_projects db p = Some r \<Longrightarrow> claims_ok cf r"
    and run: "command_path_for cf replay new c entry (db, marks) = (res, db', marks')"
    and "db_projects db' p = Some r'"
  shows "claims_ok cf r'"
  using turn_outcomes [OF assms(1,2) run]
proof (elim disjE exE conjE)
  assume "db' = db"
  with assms(3,5) show ?thesis by simp
next
  fix v h w g own
  assume n: "new (work_new db c (head_of (stored_events db (cmd_project c))) g) own = Inr (v, w)" "wk_failed w = None"
    and scope: "check_scope (cf_views cf) db c g (excluded entry own) = Inr ()"
    and steps: "work_steps cf (work_new db c (head_of (stored_events db (cmd_project c))) g) w"
    and tw: "turn_written cf c w db h db'"
  have g: "wk_generation w = g" using work_steps_leased [OF steps] by (simp add: work_new_def)
  have "claims_free c r w" if r: "db_projects db (cmd_project c) = Some r" for r
    using new_claims [OF n]
  proof (elim disjE conjE)
    assume "entry = ClaimEntry"
    then have "check_scope (cf_views cf) db c g None = Inr ()" using scope by (simp add: excluded_def)
    note free = scope_free [OF assms(1) r this]
    assume "\<exists>es s as. wk_events w = es @ [(s, as)] \<and> list_all (unclaimed \<circ> fst) es
         \<and> type_name s = command_claimed \<and> Option.bind (jget ''scope'' (payload s)) strs_from = Some (cmd_scope c)"
    with free show ?thesis unfolding claims_free_def g by fastforce
  qed (simp add: claims_free_def)
  from turn_written_claims [OF assms(1) tw this assms(3) assms(5)] show ?thesis .
qed

end

lemma appended_all: "appended unclaimed (work_new db c head g) w \<Longrightarrow> list_all (unclaimed \<circ> fst) (wk_events w)"
  by (auto simp: appended_def work_new_def)

interpretation scoped_transact: scoped_entry cf "transact_new cf decide" c Ordinary for cf decide c
  by unfold_locales (blast dest: transact_unclaimed appended_all)

interpretation scoped_claim: scoped_entry cf "claim_new cf c decide" c ClaimEntry for cf c decide
  by unfold_locales (use claim_last in blast)

interpretation scoped_complete: scoped_entry cf "complete_new cf c decide" c "CompleteEntry owner" for cf c decide owner
  by unfold_locales (blast dest: complete_unclaimed appended_all)

interpretation scoped_reconcile: scoped_entry cf "reconcile_new cf c cid authority decide" c "ReconcileEntry cid" for cf c cid authority decide
  by unfold_locales (blast dest: reconcile_unclaimed appended_all)

section \<open>Every reachable store keeps them exclusive\<close>

lemma create_rows: "create_project cf p (db, marks) = (r, db', marks') \<Longrightarrow> db_projects db' q = Some row \<Longrightarrow>
    db_projects db q = Some row \<or> row = new_project"
  unfolding create_project_def by (drule transaction_cases) (auto split: if_splits)

lemma stamp_rows:
  assumes "store_ok cf db" "stamp_empty cf p (db, marks) = (r, db', marks')" "db_projects db' q = Some row"
  shows "db_projects db q = Some row \<or> pj_views row = (\<lambda>_ _. Map.empty)"
  using transaction_cases [OF assms(2) [unfolded stamp_empty_def]]
proof (elim disjE exE conjE)
  assume "db' = db" with assms(3) show ?thesis by simp
next
  fix v assume "(rbind (live_of db p) (\<lambda>live.
          if lv_generation live = None \<and> lv_head live = 0
          then rbind (put_stamps (cf_views cf) p 0 (update_project p (\<lambda>r. r\<lparr>pj_live := Some 0\<rparr>) db)) (\<lambda>db. Inr ((), db))
          else Inr ((), db)), marks) = (Inr (v, db'), marks')"
  then obtain live where live: "live_of db p = Inr live"
    and cases: "db' = db \<or> lv_generation live = None
       \<and> put_stamps (cf_views cf) p 0 (update_project p (\<lambda>r. r\<lparr>pj_live := Some 0\<rparr>) db) = Inr db'"
    by (auto simp: result_simps split: if_splits)
  obtain r0 where r0: "db_projects db p = Some r0" "live = live_row r0" using live by (auto simp: live_of_row)
  have "pj_live r0 = None \<Longrightarrow> pj_views r0 = (\<lambda>_ _. Map.empty)" using store_okD [OF assms(1) r0(1)] by (simp add: views_ok_def)
  with cases r0 assms(3) show ?thesis
    by (auto simp: live_row_def put_stamps_def project_of_def ok_or_def update_project_def split: if_splits)
qed

lemma leased_rows:
  assumes "leased p db db'" "db_projects db' q = Some row"
  obtains r l where "db_projects db q = Some r" "row = r \<or> row = r\<lparr>pj_leases := l\<rparr>"
  using assms by (cases "q = p"; cases "db_projects db q") (auto simp: leased_def)

lemma claims_ok_empty: "pj_views r = (\<lambda>_ _. Map.empty) \<Longrightarrow> claims_ok cf r"
  by (simp add: claims_ok_def)

lemma claims_ok_leases: "claims_ok cf (r\<lparr>pj_leases := l\<rparr>) = claims_ok cf r"
proof -
  have "live_row (r\<lparr>pj_leases := l\<rparr>) = live_row r" by (simp add: live_row_def split: option.split)
  then show ?thesis by (simp add: claims_ok_def)
qed

lemma step_claims_ok:
  assumes "store_step cf st st'" "configured cf" "store_ok cf (fst st)"
    and ok: "\<And>p r. db_projects (fst st) p = Some r \<Longrightarrow> claims_ok cf r" and r': "db_projects (fst st') p = Some r'"
  shows "claims_ok cf r'"
proof -
  obtain db marks db' marks' where st: "st = (db, marks)" "st' = (db', marks')" by (metis prod.collapse)
  have s: "store_ok cf db" and o: "\<And>p r. db_projects db p = Some r \<Longrightarrow> claims_ok cf r" and r: "db_projects db' p = Some r'"
    using assms(3) ok r' by (simp_all add: st)
  from assms(1) [unfolded st] show ?thesis
  proof (cases rule: store_step.cases)
    case (step_create project r0)
    from create_rows [OF this r] o show ?thesis by (auto intro: claims_ok_empty simp: new_project_def)
  next
    case (step_stamp project r0)
    from stamp_rows [OF s this r] o claims_ok_empty show ?thesis by blast
  next
    case (step_transact c decide r0)
    show ?thesis by (rule scoped_transact.keeps_claims [OF assms(2) s _ step_transact [unfolded transact_def] r]) (rule o)
  next
    case (step_claim c cdecide cr)
    show ?thesis by (rule scoped_claim.keeps_claims [OF assms(2) s _ step_claim [unfolded claim_command_def] r]) (rule o)
  next
    case (step_complete c owner decide r0)
    show ?thesis by (rule scoped_complete.keeps_claims [OF assms(2) s _ step_complete [unfolded complete_def] r]) (rule o)
  next
    case (step_reconcile c cid authority rdecide r0)
    then consider "db' = db" | "command_path_for cf (completed_only ''a reconciliation that cannot replay'')
             (reconcile_new cf c cid authority rdecide) c (ReconcileEntry cid) (db, marks) = (r0, db', marks')"
      unfolding reconcile_def by (auto split: if_splits)
    then show ?thesis
    proof cases
      case 1
      with o r show ?thesis by simp
    next
      case 2
      show ?thesis by (rule scoped_reconcile.keeps_claims [OF assms(2) s _ 2 r]) (rule o)
    qed
  next
    case (step_renew project cid owner t rr)
    from transaction_cases [OF step_renew [unfolded renew_lease_def]] consider "db' = db" | "leased project db db'"
      by (auto dest: renew_leased)
    then show ?thesis
    proof cases
      case 1
      with o r show ?thesis by simp
    next
      case 2
      from leased_rows [OF this r] o show ?thesis by (metis claims_ok_leases)
    qed
  qed
qed

lemma reachable_claims_ok:
  assumes "reachable cf st" "configured cf" "db_projects (fst st) p = Some r"
  shows "claims_ok cf r"
proof -
  have "store_ok cf (fst st) \<and> (\<forall>p r. db_projects (fst st) p = Some r \<longrightarrow> claims_ok cf r)"
    using assms(1) unfolding reachable_def
  proof (induction rule: rtranclp_induct)
    case base
    then show ?case by (simp add: empty_store_def store_ok_def)
  next
    case (step y z)
    then show ?case using step_store_ok [OF step.hyps(2) assms(2)] step_claims_ok [OF step.hyps(2) assms(2)] by blast
  qed
  with assms(3) show ?thesis by blast
qed

lemma open_claims_exclusive:
  assumes "reachable cf (db, marks)" "configured cf" "db_projects db p = Some r"
    and "judge_live_set (cf_views cf) (live_row r) = FenceCurrent g"
    and "open_claim (pj_views r g request_view) kind request = Some a" "open_claim (pj_views r g request_view) kind' request' = Some b"
    and "t \<in> set (cd_scope a)" "t \<in> set (cd_scope b)"
  shows "kind' = kind \<and> request' = request"
proof -
  have "claims_ok cf r" using reachable_claims_ok [OF assms(1,2)] assms(3) by simp
  then have ok: "scopes_ok (pj_views r g claim_scope_view) (pj_views r g request_view)" using assms(4) by (simp add: claims_ok_def)
  show ?thesis using scopes_okD [OF ok assms(5)] scopes_okD [OF ok assms(6)] assms(7,8) by auto
qed

end
