(* ===== verification/Store_Example.thy ===== *)
theory Store_Example
  imports Claim_Exclusion
begin

text \<open>
  A concrete store for the witnesses: one project with its views stamped, a transaction and a claim
  run on it from the request lookup to the written rows, by evaluation of the command path.
\<close>

section \<open>An example store\<close>

definition example_cf :: store_config where
  "example_cf = \<lparr>cf_sha = zero_sha, cf_projectors = store_projectors [], cf_views = store_view_set,
     cf_reads = (\<lambda>_ _. False), cf_projection = (\<lambda>_. Inl ''none''),
     cf_find = (\<lambda>_ _ _ _. Inl constraint_failed), cf_unhealthy = None\<rparr>"

definition example_command :: command where
  "example_command = \<lparr>cmd_project = ''p'', cmd_kind = ''k'', cmd_request_id = ''r'', cmd_digest = zero_hash, cmd_scope = [],
     cmd_policy_version = 1, cmd_recorded_at = ''2024-01-01T00:00:00Z'', cmd_actor = Owner, cmd_caller = None\<rparr>"

definition example_decision :: "decision program" where
  "example_decision = Finished (Inr \<lparr>dc_kind = Done, dc_answer = JNull, dc_sensitive = False, dc_observed = no_observed, dc_git = None\<rparr>)"

definition example_row :: project_row where
  "example_row = new_project\<lparr>pj_live := Some 0, pj_stamps := (\<lambda>_. [])(0 := lv_stamps example_live)\<rparr>"

definition example_db :: database where
  "example_db = \<lparr>db_epoch = epoch, db_payloads = Map.empty, db_projects = [''p'' \<mapsto> example_row]\<rparr>"

lemma example_configured: "configured example_cf"
  using store_view_set_new
  by (auto simp: configured_def example_cf_def store_projectors_def claim_scope_projector_def request_projector_def)

lemma example_stamps: "stamps_for store_view_set = lv_stamps example_live"
  by (simp add: stamps_for_def store_view_set_def example_live_def claim_scope_spec_def request_spec_def)

lemma example_created:
  "stamp_empty example_cf ''p'' (snd (create_project example_cf ''p'' empty_store)) = (Inr (), example_db, Map.empty)"
  by (simp add: create_project_def stamp_empty_def transaction_def empty_store_def example_cf_def live_of_def project_of_def
      ok_or_def put_stamps_def update_project_def example_stamps example_db_def example_row_def new_project_def)

lemma example_reachable: "reachable example_cf (example_db, Map.empty)"
  unfolding reachable_def
proof (rule rtranclp.rtrancl_into_rtrancl [OF r_into_rtranclp])
  show "store_step example_cf empty_store (snd (create_project example_cf ''p'' empty_store))"
    by (rule step_create [of _ "''p''" _ "fst (create_project example_cf ''p'' empty_store)"]) simp
  show "store_step example_cf (snd (create_project example_cf ''p'' empty_store)) (example_db, Map.empty)"
    by (rule step_stamp [OF example_created])
qed

lemma example_live_row: "live_row example_row = example_live"
  by (simp add: live_row_def example_row_def new_project_def example_live_def)

lemmas view_names = claim_scope_view_def request_view_def claim_scope_spec_def request_spec_def

lemma example_current:
  "judge_live_set store_view_set example_live = FenceCurrent 0"
  "judge_live_request store_view_set example_live = Inr (FenceCurrent 0)"
  by (simp_all add: judge_live_set_def judge_live_request_def example_live_def store_view_set_def newer_view_def view_names
      view_schema_of_def ok_or_def List.map_filter_def)

section \<open>An example event\<close>

lemma zero_sha_hash:
  assumes "unat (seq e) < 2 ^ 53" "unat (stream_version e) < 2 ^ 53" "unat (policy_version e) < 2 ^ 53" "event_caller e = None"
    "git e = None" "numbers_safe (payload e)"
  shows "compute_hash zero_sha e = Inr zero_hash"
proof -
  have "numbers_safe (envelope e)"
    using assms by (simp add: envelope_def numbers_safe_jobj envelope_members_def opt_member_def hash_or_null_def numbers_safe_jnum
        split: option.split)
  then obtain b where "canonical_json (envelope e) = Inr b" using canonical_json_ok by metis
  moreover obtain c where "canonical_json (payload e) = Inr c" using assms(6) canonical_json_ok by metis
  ultimately show ?thesis
    by (simp add: compute_hash_def canonical_envelope_def chain_hash_def zero_sha_def zero_hash_def)
qed

definition example_payload :: json where
  "example_payload = completed_payload_for ''k'' ''r'' zero_hash [] example_outcome"

definition example_completed :: event where
  "example_completed = (place ''p'' 1 None (draft_of example_command 1
     (completion_event ''k'' ''r'' zero_hash [] example_outcome None)))\<lparr>event_hash := zero_hash\<rparr>"

lemma example_payload_safe: "numbers_safe example_payload"
  by (simp add: example_payload_def completed_payload_for_def numbers_safe_jobj jstrs_def example_outcome_def)

lemma example_references: "references_in example_payload = Inr []"
  by code_simp

definition example_body :: json where
  "example_body = jset ''state'' (JString ''completed'') example_payload"

definition example_work :: work where
  "example_work = \<lparr>wk_command = example_command, wk_db = example_db,
     wk_head = Some \<lparr>h_seq = 1, h_hash = zero_hash\<rparr>, wk_generation = 0, wk_events = [(example_completed, [])],
     wk_streams = [(command_stream ''k'', 1)],
     wk_staged = [(claim_scope_view, []), (request_view, [([KText ''k'', KText ''r''], \<lparr>st_body = Some example_body, st_seq = 1\<rparr>)])],
     wk_put = [], wk_anchors = [], wk_failed = None\<rparr>"

lemma example_completed_fields [simp]:
  "type_name example_completed = command_completed" "type_version example_completed = command_completed_version"
  "seq example_completed = 1" "payload example_completed = example_payload" "project_id example_completed = ''p''"
  "stream example_completed = command_stream ''k''" "stream_version example_completed = 1" "policy_version example_completed = 1"
  "event_hash example_completed = zero_hash" "event_caller example_completed = None" "git example_completed = None"
  by (simp_all add: example_completed_def completion_event_def draft_of_def place_def example_payload_def example_command_def)

lemma example_answer: "answer_attachments (oc_answer example_outcome) = []"
  by (simp add: answer_attachments_def example_outcome_def)

lemma example_sealed:
  "sealed_event example_cf (completion_event ''k'' ''r'' zero_hash [] example_outcome None) (work_new example_db example_command None 0)
     = Inr example_completed"
proof -
  let ?e = "completion_event ''k'' ''r'' zero_hash [] example_outcome None" and ?w = "work_new example_db example_command None 0"
  have h: "compute_hash zero_sha (place ''p'' 1 None (draft_of example_command 1 ?e)) = Inr zero_hash"
  proof -
    have "compute_hash zero_sha example_completed = Inr zero_hash"
      by (rule zero_sha_hash) (simp_all add: example_payload_safe)
    then show ?thesis by (simp add: example_completed_def)
  qed
  have v: "work_stream_version ?w (command_stream ''k'') = 0"
    by (simp add: work_stream_version_def work_new_def max_version_def stored_events_def example_db_def example_row_def
        new_project_def example_command_def)
  have "seal zero_sha ''p'' 1 None (draft_of example_command 1 ?e) = Inr example_completed"
    unfolding seal_Inr using h by (simp add: example_completed_def)
  moreover have "check_attachments example_db ?e = Inr ()"
    by (simp add: check_attachments_def completion_event_def example_payload_def [symmetric] example_references example_answer)
  ultimately show ?thesis using v
    by (simp add: sealed_event_def store_reads_def completion_event_def work_new_def next_seq_def example_cf_def example_command_def)
qed

lemma example_copy: "copy_event example_cf example_completed = Inr example_completed"
  by (simp add: copy_event_def projection_copy_def store_owned_completed store_reads_def)

lemma example_members:
  "jget ''kind'' example_payload = Some (JString ''k'')" "jget ''request_id'' example_payload = Some (JString ''r'')"
  "jget ''scope'' example_payload = Some (JArray [])"
  by (simp_all add: example_payload_def completed_payload_for_def jstrs_def)

lemma example_not_claim: "command_completed \<noteq> command_claimed" "command_completed \<noteq> command_reconciled"
  by (simp_all add: command_completed_def command_claimed_def command_reconciled_def)

lemma example_folded:
  "fold_projectors store_view_set (store_projectors []) tables example_completed [] =
     (Inr (), [(claim_scope_view, []), (request_view, [([KText ''k'', KText ''r''], \<lparr>st_body = Some example_body, st_seq = 1\<rparr>)])])"
proof -
  have scope: "fold_event claim_scope_projector table example_completed [] = Inr []" for table
    by (simp add: fold_event_def claim_scope_projector_def claim_scope_keys_def claim_scope_apply_def example_members ok_or_def
        List.map_filter_def)
  have request: "fold_event request_projector table example_completed [] =
      Inr [([KText ''k'', KText ''r''], \<lparr>st_body = Some example_body, st_seq = 1\<rparr>)]" for table
    by (simp add: fold_event_def request_projector_def request_key_of_def example_members request_apply_def ok_or_def
        example_not_claim key_refused_def fitted_def request_spec_def stage_def example_body_def)
  have names: "view_name claim_scope_projector = claim_scope_view" "view_name request_projector = request_view"
    by (simp_all add: claim_scope_projector_def request_projector_def view_names)
  have handles: "command_completed \<in> set (p_handles claim_scope_projector)" "command_completed \<in> set (p_handles request_projector)"
    by (simp_all add: claim_scope_projector_def request_projector_def)
  have schemas: "\<exists>t. view_schema_of store_view_set claim_scope_view = Inr t" "\<exists>t. view_schema_of store_view_set request_view = Inr t"
    by (simp_all add: view_schema_of_def store_view_set_def view_names ok_or_def)
  then obtain a b where "view_schema_of store_view_set claim_scope_view = Inr a" "view_schema_of store_view_set request_view = Inr b"
    by blast
  then show ?thesis
    by (simp add: store_projectors_def names handles scope request) (simp add: view_names less_list_code)
qed

lemma example_decided:
  "transact_new example_cf example_decision (work_new example_db example_command None 0) None = Inr (example_outcome, example_work)"
proof -
  let ?w = "work_new example_db example_command None 0"
  have "canonical_json JNull = Inr ''null''" by code_simp
  then have out: "decided example_cf example_decision ?w = Inr ((\<lparr>dc_kind = Done, dc_answer = JNull, dc_sensitive = False,
      dc_observed = no_observed, dc_git = None\<rparr>, example_outcome), ?w)"
    by (simp add: decided_def example_decision_def work_outcome_def inline_answer_limit_def example_outcome_def)
  have "apply_projectors example_cf example_completed ?w = (Inr (), ?w\<lparr>wk_staged :=
      [(claim_scope_view, []), (request_view, [([KText ''k'', KText ''r''], \<lparr>st_body = Some example_body, st_seq = 1\<rparr>)])]\<rparr>)"
    by (simp add: apply_projectors_def example_copy) (simp add: example_cf_def work_new_def example_folded)
  then have "complete_for example_cf ''k'' ''r'' zero_hash [] example_outcome None ?w = Inr example_work"
    unfolding complete_for_ok using example_sealed
    by (auto simp: pushed_def work_new_def example_work_def completion_event_def example_answer)
  then have "work_finish example_cf example_outcome None (Some no_observed) ?w = Inr example_work"
    by (simp add: work_finish_def recheck_observed_def recheck_def no_observed_def)
      (simp add: work_new_def example_command_def)
  with out show ?thesis by (simp add: transact_new_def)
qed

lemma example_written: "\<exists>db. work_write example_cf example_work = Inr (\<lparr>h_seq = 1, h_hash = zero_hash\<rparr>, db)"
proof -
  have state: "get_str ''kind'' example_body = Some ''k''" "get_str ''request_id'' example_body = Some ''r''"
    "get_str ''state'' example_body \<noteq> None"
    using jget_jset_object [OF example_members(1)]
    by (simp_all add: example_body_def example_members)
  have safe: "numbers_safe example_body"
  proof -
    obtain m where m: "example_payload = JObject m" using jget_not_object [OF example_members(1)] by blast
    then show ?thesis using example_payload_safe numbers_safe_ains [of "JString ''completed''" m] by (auto simp: example_body_def m)
  qed
  have check: "check_change request_spec [KText ''k'', KText ''r''] (Some example_body) 1 = Inr ()"
    by (rule request_body_check) (simp_all add: state safe)
  obtain b where b: "canonical_json example_payload = Inr b" using example_payload_safe canonical_json_ok by metis
  have proj: "wk_project example_work = ''p''" by (simp add: example_work_def example_command_def)
  show ?thesis
    unfolding work_write_def proj
    by (simp add: example_work_def insert_event_def caller_text_def b sql_int_def example_db_def stored_events_def Option.is_none_def
        example_row_def new_project_def update_project_def view_schema_of_def ok_or_def example_cf_def store_view_set_def
        write_change_def check set_head_def)
      (simp add: view_names)
qed


section \<open>An example turn\<close>

text \<open>A command of the example project that is decided over its empty ledger.\<close>

lemma example_turn:
  assumes c: "cmd_project c = ''p''" "is_ok (parse_instant (cmd_recorded_at c))" and entry: "\<And>owner. entry \<noteq> CompleteEntry owner"
    and decided: "new (work_new example_db c None 0) None = Inr (v, w)" "wk_failed w = None" "check_payloads_attached w = Inr ()"
    and wrt: "work_write example_cf w = Inr (h, db)"
    and scope: "check_scope store_view_set example_db c 0 (excluded entry None) = Inr ()"
  shows "command_path_for example_cf replay new c entry (example_db, Map.empty) = (Inr (TurnNew v h), db, [''p'' \<mapsto> h])"
proof -
  have row: "db_projects example_db (cmd_project c) = Some example_row"
    by (simp add: example_db_def c)
  have head: "stored_head example_db (cmd_project c) = Inr None"
    by (simp add: stored_head_def project_of_def row ok_or_def) (simp add: example_row_def new_project_def)
  have live: "live_of example_db (cmd_project c) = Inr example_live"
    using row by (auto simp: live_of_row example_live_row)
  have views: "cf_views example_cf = store_view_set" by (simp add: example_cf_def)
  have doc: "request_document store_view_set example_db c 0 = Inr None"
    using request_document_read [OF example_configured row, of 0] by (simp add: views) (simp add: example_row_def new_project_def)
  have look: "lookup_request store_view_set replay example_db c entry 0 = Inr None"
    using entry by (simp add: lookup_request_def doc split: entry.split)
  have own: "own_claim store_view_set example_db c entry 0 = Inr None"
    using entry by (simp add: own_claim_def split: entry.split)
  have wrt': "decide_and_write example_cf new example_db c None 0 None = Inr (TurnNew v h, db)"
    unfolding decide_and_write_ok using decided wrt by blast
  have turn: "new_turn example_cf new c entry None example_live 0 example_db Map.empty = (Inr (TurnNew v h, db), Map.empty)"
    by (simp add: new_turn_def views example_current check_readable_def own scope wrt')
  have "turn_body example_cf replay new c entry example_db Map.empty = (Inr (TurnNew v h, db), Map.empty)"
    by (simp add: turn_body_def head live views example_current look turn)
  then show ?thesis
    by (simp add: command_path_for_def c command_turn_def transaction_def) (simp add: example_cf_def example_db_def c)
qed

lemma example_transacts:
  "\<exists>db. transact example_cf example_command example_decision (example_db, Map.empty)
     = (Inr (TurnNew example_outcome \<lparr>h_seq = 1, h_hash = zero_hash\<rparr>), db, [''p'' \<mapsto> \<lparr>h_seq = 1, h_hash = zero_hash\<rparr>])"
proof -
  obtain db where db: "work_write example_cf example_work = Inr (\<lparr>h_seq = 1, h_hash = zero_hash\<rparr>, db)"
    using example_written by blast
  have "is_ok (parse_instant (cmd_recorded_at example_command))" by code_simp
  then have "command_path_for example_cf replay (transact_new example_cf example_decision) example_command Ordinary (example_db, Map.empty)
      = (Inr (TurnNew example_outcome \<lparr>h_seq = 1, h_hash = zero_hash\<rparr>), db, [''p'' \<mapsto> \<lparr>h_seq = 1, h_hash = zero_hash\<rparr>])" for replay
    by (intro example_turn [where w = example_work] example_decided db)
      (simp_all add: example_work_def check_payloads_attached_def check_scope_def, simp_all add: example_command_def)
  then show ?thesis unfolding transact_def by blast
qed

section \<open>An example claim\<close>

definition claim_example :: command where
  "claim_example = example_command\<lparr>cmd_request_id := ''q'', cmd_scope := [''t'']\<rparr>"

definition example_owner :: claim_owner where
  "example_owner = \<lparr>co_process = ''1'', co_host_session = ''s'', co_started_at = ''2024-01-01T00:00:00Z''\<rparr>"

definition taking :: "claim_decision program" where
  "taking = Finished (Inr (TakeClaim JNull example_owner None no_observed))"

definition taken_payload :: claimed_payload where
  "taken_payload = \<lparr>cp_kind = ''k'', cp_request_id = ''q'', cp_digest = zero_hash, cp_intent = JNull, cp_scope = [''t''],
     cp_owner = example_owner\<rparr>"

definition taken_event :: event where
  "taken_event = (place ''p'' 1 None (draft_of claim_example 1 (claimed_event claim_example JNull example_owner None)))\<lparr>event_hash := zero_hash\<rparr>"

lemma taken_fields [simp]:
  "type_name taken_event = command_claimed" "type_version taken_event = command_claimed_version"
  "seq taken_event = 1" "payload taken_event = claimed_to_value taken_payload" "project_id taken_event = ''p''"
  "stream taken_event = command_stream ''k''" "stream_version taken_event = 1" "policy_version taken_event = 1"
  "event_hash taken_event = zero_hash" "event_caller taken_event = None" "git taken_event = None"
  by (simp_all add: taken_event_def claimed_event_def draft_of_def place_def taken_payload_def claim_example_def example_command_def)

lemma taken_safe: "numbers_safe (claimed_to_value taken_payload)"
  by (simp add: claimed_to_value_def taken_payload_def numbers_safe_jobj jstrs_def owner_to_value_def example_owner_def)

lemma taken_references: "references_in (claimed_to_value taken_payload) = Inr []"
  by code_simp

lemma taken_sealed:
  "sealed_event example_cf (claimed_event claim_example JNull example_owner None) (work_new example_db claim_example None 0)
     = Inr taken_event"
proof -
  let ?e = "claimed_event claim_example JNull example_owner None" and ?w = "work_new example_db claim_example None 0"
  have payload: "ne_payload ?e = claimed_to_value taken_payload" "ne_attachments ?e = []"
    by (simp_all add: claimed_event_def taken_payload_def claim_example_def example_command_def)
  have h: "compute_hash zero_sha (place ''p'' 1 None (draft_of claim_example 1 ?e)) = Inr zero_hash"
  proof -
    have "compute_hash zero_sha taken_event = Inr zero_hash"
      by (rule zero_sha_hash) (simp_all add: taken_safe)
    then show ?thesis by (simp add: taken_event_def)
  qed
  have v: "work_stream_version ?w (command_stream ''k'') = 0"
    by (simp add: work_stream_version_def work_new_def max_version_def stored_events_def example_db_def example_row_def
        new_project_def claim_example_def example_command_def)
  have "seal zero_sha ''p'' 1 None (draft_of claim_example 1 ?e) = Inr taken_event"
    unfolding seal_Inr using h by (simp add: taken_event_def)
  moreover have "check_attachments example_db ?e = Inr ()"
    by (simp add: check_attachments_def payload taken_references)
  ultimately show ?thesis using v
    by (simp add: sealed_event_def store_reads_def claimed_event_def work_new_def next_seq_def example_cf_def claim_example_def
        example_command_def)
qed

lemma taken_copy: "copy_event example_cf taken_event = Inr taken_event"
proof -
  have "store_owned command_claimed" by code_simp
  then show ?thesis by (simp add: copy_event_def projection_copy_def store_reads_def)
qed

definition taken_staged :: "(string \<times> staging) list" where
  "taken_staged =
     [(claim_scope_view, [([KText ''t''], \<lparr>st_body = Some (scope_body ''t'' 1 ''k'' ''q''), st_seq = 1\<rparr>)]),
      (request_view, [([KText ''k'', KText ''q''], \<lparr>st_body = Some (claimed_body taken_event taken_payload), st_seq = 1\<rparr>)])]"

lemma taken_members:
  "jget ''kind'' (claimed_to_value taken_payload) = Some (JString ''k'')"
  "jget ''request_id'' (claimed_to_value taken_payload) = Some (JString ''q'')"
  "jget ''scope'' (claimed_to_value taken_payload) = Some (JArray [JString ''t''])"
  by (simp_all add: claimed_to_value_def taken_payload_def jstrs_def)

lemma taken_decoded: "claimed_from_value (claimed_to_value taken_payload) = Some taken_payload"
  by (rule claimed.decode_encode) (simp add: claimed_wf_def taken_payload_def zero_hash_def hash_wf_def)

lemma view_names':
  "view_name claim_scope_projector = claim_scope_view" "view_name request_projector = request_view"
  by (simp_all add: claim_scope_projector_def request_projector_def view_names)

lemma taken_folded: "fold_projectors store_view_set (store_projectors []) tables taken_event [] = (Inr (), taken_staged)"
proof -
  have scope: "fold_event claim_scope_projector table taken_event [] =
      Inr [([KText ''t''], \<lparr>st_body = Some (scope_body ''t'' 1 ''k'' ''q''), st_seq = 1\<rparr>)]" for table
    by (simp add: fold_event_def claim_scope_projector_def claim_scope_keys_def claim_scope_apply_def taken_members ok_or_def
        List.map_filter_def key_refused_def fitted_def claim_scope_spec_def stage_def)
  have request: "fold_event request_projector table taken_event [] =
      Inr [([KText ''k'', KText ''q''], \<lparr>st_body = Some (claimed_body taken_event taken_payload), st_seq = 1\<rparr>)]" for table
    by (simp add: fold_event_def request_projector_def request_key_of_def taken_members request_apply_def ok_or_def
        taken_decoded key_refused_def fitted_def request_spec_def stage_def)
  have handles: "command_claimed \<in> set (p_handles claim_scope_projector)" "command_claimed \<in> set (p_handles request_projector)"
    by (simp_all add: claim_scope_projector_def request_projector_def)
  have schemas: "\<exists>t. view_schema_of store_view_set claim_scope_view = Inr t" "\<exists>t. view_schema_of store_view_set request_view = Inr t"
    by (simp_all add: view_schema_of_def store_view_set_def view_names ok_or_def)
  then obtain a b where "view_schema_of store_view_set claim_scope_view = Inr a" "view_schema_of store_view_set request_view = Inr b"
    by blast
  then show ?thesis
    by (simp add: store_projectors_def view_names' handles scope request) (simp add: view_names less_list_code taken_staged_def)
qed

definition taken_work :: work where
  "taken_work = \<lparr>wk_command = claim_example,
     wk_db = set_lease ''p'' \<lparr>ci_kind = ''k'', ci_request_id = ''q''\<rparr>
       (Some \<lparr>ls_claim_seq = 1, ls_renewed_at = ''2024-01-01T00:00:00Z''\<rparr>) example_db,
     wk_head = Some \<lparr>h_seq = 1, h_hash = zero_hash\<rparr>, wk_generation = 0, wk_events = [(taken_event, [])],
     wk_streams = [(command_stream ''k'', 1)], wk_staged = taken_staged, wk_put = [], wk_anchors = [], wk_failed = None\<rparr>"

lemma taken_decided:
  "claim_new example_cf claim_example taking (work_new example_db claim_example None 0) None = Inr (ClaimTaken 1, taken_work)"
proof -
  let ?w = "work_new example_db claim_example None 0"
  have "apply_projectors example_cf taken_event ?w = (Inr (), ?w\<lparr>wk_staged := taken_staged\<rparr>)"
    by (simp add: apply_projectors_def taken_copy) (simp add: example_cf_def work_new_def taken_folded)
  then have "push_event example_cf (claimed_event claim_example JNull example_owner None) ?w
      = (Inr 1, pushed (claimed_event claim_example JNull example_owner None) taken_event (?w\<lparr>wk_staged := taken_staged\<rparr>))"
    unfolding push_event_ok using taken_sealed by (intro exI conjI) simp_all
  moreover have "is_ok (parse_instant (co_started_at example_owner))" by code_simp
  moreover have "recheck_observed example_cf no_observed ?w = Inr ()"
    by (simp add: recheck_observed_def recheck_def no_observed_def)
  ultimately show ?thesis
    by (simp add: claim_new_def taking_def write_lease_def sql_int_def)
      (simp add: pushed_def work_new_def taken_work_def claimed_event_def command_id_def claim_example_def example_command_def)
qed

lemma taken_body: "claimed_body taken_event taken_payload = jobj [(''kind'', JString ''k''), (''request_id'', JString ''q''),
    (''digest'', JString (to_hex zero_hash)), (''state'', JString ''claimed''),
    (''claim'', jobj [(''seq'', jnum 1), (''claimed_at'', JString (recorded_at taken_event)), (''scope'', jstrs [''t'']),
       (''owner'', owner_to_value example_owner), (''intent'', JNull)])]"
  by (simp add: claimed_body_def taken_payload_def)

lemma taken_body_check: "check_change request_spec [KText ''k'', KText ''q''] (Some (claimed_body taken_event taken_payload)) 1 = Inr ()"
  by (rule request_body_check)
    (simp_all add: taken_body numbers_safe_jobj numbers_safe_jnum jstrs_def owner_to_value_def example_owner_def)

lemma taken_scope_check: "check_change claim_scope_spec [KText ''t''] (Some (scope_body ''t'' 1 ''k'' ''q'')) 1 = Inr ()"
proof -
  have "numbers_safe (scope_body ''t'' 1 ''k'' ''q'')" by (simp add: scope_body_def numbers_safe_jobj numbers_safe_jnum)
  then obtain b where "canonical_json (scope_body ''t'' 1 ''k'' ''q'') = Inr b" using canonical_json_ok by metis
  moreover have "key_held claim_scope_spec [KText ''t''] (scope_body ''t'' 1 ''k'' ''q'')" "index_held claim_scope_spec (scope_body ''t'' 1 ''k'' ''q'')"
    by (simp_all add: key_held_def index_held_def index_columns_def claim_scope_spec_def scope_body_def)
  ultimately show ?thesis by (simp add: check_change_def fitted_def) (simp add: claim_scope_spec_def fitted_def)
qed

definition taken_row :: project_row where
  "taken_row = example_row\<lparr>pj_head_seq := 1, pj_head_hash := Some zero_hash, pj_events := [taken_event],
     pj_leases := (pj_leases example_row)((''k'', ''q'') \<mapsto> \<lparr>ls_claim_seq = 1, ls_renewed_at = ''2024-01-01T00:00:00Z''\<rparr>),
     pj_views := (\<lambda>_ _. Map.empty)(0 := (\<lambda>_. Map.empty)(
       claim_scope_view := [[KText ''t''] \<mapsto> \<lparr>doc_seq = 1, doc_body = scope_body ''t'' 1 ''k'' ''q''\<rparr>],
       request_view := [[KText ''k'', KText ''q''] \<mapsto> \<lparr>doc_seq = 1, doc_body = claimed_body taken_event taken_payload\<rparr>]))\<rparr>"

definition taken_db :: database where
  "taken_db = \<lparr>db_epoch = epoch, db_payloads = Map.empty, db_projects = [''p'' \<mapsto> taken_row]\<rparr>"

lemma taken_written: "work_write example_cf taken_work = Inr (\<lparr>h_seq = 1, h_hash = zero_hash\<rparr>, taken_db)"
proof -
  obtain b where b: "canonical_json (claimed_to_value taken_payload) = Inr b" using taken_safe canonical_json_ok by metis
  have proj: "wk_project taken_work = ''p''" by (simp add: taken_work_def claim_example_def example_command_def)
  show ?thesis
    unfolding work_write_def proj
    by (simp add: taken_work_def insert_event_def caller_text_def b sql_int_def example_db_def stored_events_def Option.is_none_def
        example_row_def new_project_def update_project_def set_lease_def view_schema_of_def ok_or_def example_cf_def store_view_set_def
        write_change_def set_head_def taken_staged_def taken_body_check taken_scope_check)
      (simp add: set_view_def update_project_def view_of_def taken_db_def taken_row_def view_names example_row_def new_project_def)
qed

lemma example_documents:
  "get_document store_view_set example_db ''p'' 0 claim_scope_view [KText t] = Inr None"
  by (simp add: get_document_def view_schema_of_def store_view_set_def ok_or_def Let_def fitted_def claim_scope_spec_def view_of_def
      example_db_def example_row_def new_project_def)

lemma taken_free: "check_scope store_view_set example_db claim_example 0 (excluded ClaimEntry own) = Inr ()"
proof -
  have "\<exists>t. view_schema_of store_view_set claim_scope_view = Inr t" "\<exists>t. view_schema_of store_view_set request_view = Inr t"
    by (simp_all add: view_schema_of_def store_view_set_def view_names ok_or_def)
  then show ?thesis
    by (auto simp: check_scope_def claim_example_def example_command_def token_holder_def example_documents blocking_def)
qed

lemma example_claims:
  "claim_command example_cf claim_example taking (example_db, Map.empty)
     = (Inr (TurnNew (ClaimTaken 1) \<lparr>h_seq = 1, h_hash = zero_hash\<rparr>), taken_db, [''p'' \<mapsto> \<lparr>h_seq = 1, h_hash = zero_hash\<rparr>])"
proof -
  have "is_ok (parse_instant ''2024-01-01T00:00:00Z'')" by code_simp
  then show ?thesis unfolding claim_command_def
    by (intro example_turn [where w = taken_work] taken_decided taken_written taken_free)
      (simp_all add: taken_work_def check_payloads_attached_def, simp_all add: claim_example_def example_command_def)
qed

lemma taken_reachable: "reachable example_cf (taken_db, [''p'' \<mapsto> \<lparr>h_seq = 1, h_hash = zero_hash\<rparr>])"
  using example_reachable step_claim [OF example_claims] unfolding reachable_def by (rule rtranclp.rtrancl_into_rtrancl)

lemma taken_current: "judge_live_set store_view_set (live_row taken_row) = FenceCurrent 0"
proof -
  have "live_row taken_row = (live_row example_row)\<lparr>lv_head := 1\<rparr>"
    by (simp add: live_row_def taken_row_def example_row_def)
  then show ?thesis
    using judge_set_head [of example_live 0 store_view_set 1] example_current(1)
    by (simp add: example_live_row) (simp add: example_live_def)
qed

definition taken_doc :: claim_doc where
  "taken_doc = \<lparr>cd_id = \<lparr>ci_kind = ''k'', ci_request_id = ''q''\<rparr>, cd_digest = zero_hash, cd_seq = 1,
     cd_claimed_at = ''2024-01-01T00:00:00Z'', cd_scope = [''t''], cd_owner = example_owner, cd_intent = JNull\<rparr>"

lemma taken_open: "open_claim (pj_views taken_row 0 request_view) ''k'' ''q'' = Some taken_doc"
proof -
  have "recorded_at taken_event = ''2024-01-01T00:00:00Z''"
    by (simp add: taken_event_def draft_of_def place_def claim_example_def example_command_def)
  moreover have "hash_wf zero_hash" by (simp add: hash_wf_def zero_hash_def)
  ultimately show ?thesis
    by (simp add: open_claim_def request_at_def taken_row_def request_state_def taken_body claim_doc_from_def taken_doc_def)
qed

end
