(* ===== verification/Request_Record.thy ===== *)
theory Request_Record
  imports Claim_Exclusion
begin

text \<open>
  A recorded request stays recorded.  The locale \<open>sparing_entry\<close> states what an entry owes the
  requests others completed: the events its command appends name its own request, the claim it
  completes, or the open claim it reconciles, never a request already completed.  It is interpreted on
  the code's four entries, and every later step of a store is shown to keep the document that answers
  a completed request, the reference its answer is stored under, and the views it is read from.
\<close>

section \<open>Events that spare a request\<close>

definition spares :: "doc_key \<Rightarrow> event \<Rightarrow> bool" where
  "spares key e \<longleftrightarrow> (type_name e \<in> {command_claimed, command_reconciled, command_completed} \<longrightarrow> request_key_of e \<noteq> Some key)"

lemma spares_other: "\<not> store_owned (type_name e) \<Longrightarrow> spares key e"
proof -
  have "store_owned command_claimed" "store_owned command_reconciled" "store_owned command_completed" by code_simp+
  then show "\<not> store_owned (type_name e) \<Longrightarrow> spares key e" by (auto simp: spares_def)
qed

lemma run_spares: "run cf d w = (r, w') \<Longrightarrow> wk_failed w' = None \<Longrightarrow> appended (spares key) w w'"
  by (rule appended_mono [OF run_appended spares_other])

lemma push_spares:
  assumes "push_event cf e w = (Inr n, w')" "get_str ''kind'' (ne_payload e) = Some kind" "get_str ''request_id'' (ne_payload e) = Some request"
    "[KText kind, KText request] \<noteq> key"
  shows "appended (spares key) w w'"
  by (rule appended_mono [OF push_appended [OF assms(1)]]) (use assms(2-4) in \<open>simp add: spares_def request_key_of_def\<close>)

lemma complete_for_spares:
  assumes "complete_for cf kind request digest scope oc facts w = Inr w'" "[KText kind, KText request] \<noteq> key"
  shows "appended (spares key) w w'"
proof -
  obtain n where "push_event cf (completion_event kind request digest scope oc facts) w = (Inr n, w')"
    using assms(1) by (auto simp: complete_for_ok push_event_ok)
  then show ?thesis
    by (rule push_spares [of _ _ _ _ _ kind request]) (use assms(2) in \<open>simp_all add: completion_event_def completed_payload_for_def\<close>)
qed

lemma decided_spares:
  assumes "decided cf decide w = Inr (x, w')" "wk_failed w' = None"
  shows "appended (spares key) w w'"
proof -
  obtain d w1 where r: "run cf decide w = (Inr d, w1)" "work_outcome cf d w1 = Inr (snd x, w')"
    using assms(1) by (auto simp: decided_def result_simps)
  with run_spares [OF r(1)] work_outcome_step [OF r(2)] work_outcome_events [OF r(2)] assms(2) show ?thesis
    by (auto simp: appended_def)
qed

lemma work_finish_spares:
  assumes "work_finish cf oc facts ob w = Inr w'" "request_key (wk_command w) \<noteq> key"
  shows "appended (spares key) w w'"
proof -
  obtain facts' where "complete_for cf (cmd_kind (wk_command w)) (cmd_request_id (wk_command w)) (cmd_digest (wk_command w)) [] oc facts' w = Inr w'"
    using assms(1) by (auto simp: work_finish_def result_simps)
  then show ?thesis using complete_for_spares assms(2) by (simp add: request_key_def)
qed

section \<open>What an entry owes completed requests\<close>

definition claim_key :: "claim_id \<Rightarrow> doc_key" where
  "claim_key cid = [KText (ci_kind cid), KText (ci_request_id cid)]"

definition completed_at :: "store_config \<Rightarrow> database \<Rightarrow> project_id \<Rightarrow> int \<Rightarrow> doc_key \<Rightarrow> bool" where
  "completed_at cf db p g key \<longleftrightarrow> (\<exists>doc digest oc. get_document (cf_views cf) db p g request_view key = Inr (Some doc)
     \<and> request_state (doc_body doc) = Some (Completed digest oc))"

locale sparing_entry = command_entry cf new for cf and new :: "'a decide" +
  fixes c :: command
  assumes new_spares: "new (work_new db c head g) own = Inr (v, w) \<Longrightarrow> wk_failed w = None \<Longrightarrow>
    completed_at cf db (cmd_project c) g key \<Longrightarrow> request_key c \<noteq> key \<Longrightarrow>
    (\<And>cl. own = Some cl \<Longrightarrow> claim_key (cl_id cl) \<noteq> key) \<Longrightarrow> list_all (spares key \<circ> fst) (wk_events w)"

lemma spared_all: "appended (spares key) (work_new db c head g) w \<Longrightarrow> list_all (spares key \<circ> fst) (wk_events w)"
  by (auto simp: appended_def work_new_def)

lemma work_new_fields [simp]: "wk_command (work_new db c head g) = c" "wk_events (work_new db c head g) = []"
  "wk_db (work_new db c head g) = db" "wk_project (work_new db c head g) = cmd_project c" "wk_generation (work_new db c head g) = g"
  by (simp_all add: work_new_def)

lemma finish_spared:
  assumes "wk_failed w1 = None \<Longrightarrow> appended (spares key) w w1 \<and> wk_command w1 = wk_command w" "work_finish cf oc facts ob w1 = Inr w'"
    "wk_failed w' = None" "request_key (wk_command w) \<noteq> key"
  shows "appended (spares key) w w'"
  using assms work_finish_step [OF assms(2)] work_finish_spares [OF assms(2)] by (auto intro: appended_trans)

lemma decided_command: "decided cf decide w = Inr (x, w') \<Longrightarrow> wk_failed w' = None \<Longrightarrow> wk_command w' = wk_command w"
  using work_steps_leased [OF decided_steps] by blast

lemma transact_spares:
  assumes "transact_new cf decide w own = Inr (oc, w')" "wk_failed w' = None" "request_key (wk_command w) \<noteq> key"
  shows "appended (spares key) w w'"
proof -
  obtain d w1 where d: "decided cf decide w = Inr ((d, oc), w1)" "work_finish cf oc (dc_git d) (Some (dc_observed d)) w1 = Inr w'"
    using assms(1) by (auto simp: transact_new_def result_simps)
  show ?thesis by (rule finish_spared [OF _ d(2) assms(2,3)]) (use decided_spares [OF d(1)] decided_command [OF d(1)] in blast)
qed

lemma complete_spares:
  assumes "complete_new cf c decide w own = Inr (oc, w')" "wk_failed w' = None" "\<And>cl. own = Some cl \<Longrightarrow> claim_key (cl_id cl) \<noteq> key"
  shows "appended (spares key) w w'"
proof -
  obtain cl where own: "own = Some cl" using assms(1) by (auto simp: complete_new_def split: option.splits)
  obtain d w1 w2 where d: "decided cf decide w = Inr ((d, oc), w1)"
    and f: "complete_for cf (ci_kind (cl_id cl)) (ci_request_id (cl_id cl)) (cmd_digest c) (cl_scope cl) oc (dc_git d) w1 = Inr w2"
    and w': "w' = drop_lease (cl_id cl) w2"
    using assms(1) unfolding complete_new_def own by (auto simp: result_simps)
  have "wk_failed w1 = None" "wk_events w' = wk_events w2" using complete_for_step [OF f] assms(2) w' by (simp_all add: drop_lease_def)
  moreover have "appended (spares key) w1 w2"
    by (rule complete_for_spares [OF f]) (use assms(3) [OF own] in \<open>simp add: claim_key_def\<close>)
  ultimately show ?thesis using decided_spares [OF d] appended_trans by (fastforce simp: appended_def)
qed

lemma resolve_spares:
  assumes "resolve_claim cf cid doc d w = Inr w'" "claim_key cid \<noteq> key"
  shows "appended (spares key) w w'"
proof -
  obtain oc w1 w2 where o: "work_outcome cf d w = Inr (oc, w1)"
    and f: "complete_for cf (ci_kind cid) (ci_request_id cid) (cd_digest doc) (cd_scope doc) oc (dc_git d) w1 = Inr w2"
    and w': "w' = drop_lease cid w2"
    using assms(1) unfolding resolve_claim_def by (auto simp: result_simps)
  from complete_for_spares [OF f] assms(2) work_outcome_events [OF o] w' show ?thesis
    by (simp add: appended_def drop_lease_def claim_key_def)
qed

text \<open>The claim a reconciliation names is open, so it is no completed request.\<close>

lemma interrupted_open:
  assumes "interrupted_claim cf c cid authority (work_new db c' head g) = Inr (x, w')" "completed_at cf db (cmd_project c') g key"
  shows "claim_key cid \<noteq> key"
proof
  assume key: "claim_key cid = key"
  from assms(2) obtain doc digest oc where doc: "get_document (cf_views cf) db (cmd_project c') g request_view key = Inr (Some doc)"
    "request_state (doc_body doc) = Some (Completed digest oc)" unfolding completed_at_def by blast
  have "get_staged cf (work_new db c' head g) request_view key = Inr (Some doc) \<or> (\<exists>e. get_staged cf (work_new db c' head g) request_view key = Inl e)"
    using doc(1) by (cases "view_schema_of (cf_views cf) request_view") (auto simp: get_staged_def staged_in_def work_new_def)
  with assms(1) doc(2) key show False
    by (auto simp: interrupted_claim_def claim_key_def noted_def result_simps split: option.splits sum.splits)
qed

lemma reconcile_spares:
  assumes "reconcile_new cf c cid authority decide (work_new db c' head g) own = Inr (oc, w')" "wk_failed w' = None"
    "completed_at cf db (cmd_project c') g key" "request_key c' \<noteq> key"
  shows "appended (spares key) (work_new db c' head g) w'"
proof -
  let ?w = "work_new db c' head g"
  obtain doc cl w1 res w2 n w3 w4 where i: "interrupted_claim cf c cid authority ?w = Inr ((doc, cl), w1)"
    and r: "run cf (decide cl) w1 = (Inr res, w2)"
    and p: "push_event cf (reconciled_event cid cl res) w2 = (Inr n, w3)"
    and q: "(case rc_resolution res of ResolutionAwaitingOwner \<Rightarrow> Inr w3 | Resolved d \<Rightarrow> resolve_claim cf cid doc d w3) = Inr w4"
    and f: "work_finish cf oc None None w4 = Inr w'"
    using assms(1) unfolding reconcile_new_def by (auto simp: result_simps Let_def)
  have ne: "claim_key cid \<noteq> key" by (rule interrupted_open [OF i assms(3)])
  show ?thesis
  proof (rule finish_spared [OF _ f assms(2)])
    assume w4: "wk_failed w4 = None"
    have w3: "appended (spares key) w3 w4" "wk_failed w3 = None" "work_steps cf w3 w4"
      using q w4 ne by (auto dest: resolve_claim_step resolve_spares split: resolution.splits)
    have w2: "appended (spares key) w2 w3" "wk_failed w2 = None" "work_step cf w2 w3"
    proof -
      show "appended (spares key) w2 w3"
        by (rule push_spares [OF p, of "ci_kind cid" "ci_request_id cid"])
          (use ne in \<open>simp_all add: reconciled_event_def reconciled_to_value_def claim_key_def\<close>)
      show "wk_failed w2 = None" "work_step cf w2 w3" using push_event_failed [OF p] push_event_step [OF p] w3(2) by simp_all
    qed
    have w1: "appended (spares key) w1 w2" "wk_failed w1 = None" "work_steps cf w1 w2"
      using run_spares [OF r w2(2)] run_steps [OF r w2(2)] by simp_all
    have same: "w1 = ?w" using interrupted_claim_same [OF i w1(2)] .
    have "work_steps cf ?w w4" using w1(3) w2(3) w3(3) same by (metis rtranclp_trans rtranclp.rtrancl_into_rtrancl)
    with work_steps_leased have "wk_command w4 = wk_command ?w" by blast
    with same w1(1) w2(1) w3(1) show "appended (spares key) ?w w4 \<and> wk_command w4 = wk_command ?w" by (blast intro: appended_trans)
  qed (use assms(4) in simp)
qed

lemma claim_spares:
  assumes "claim_new cf c decide w own = Inr (v, w')" "wk_failed w' = None" "wk_command w = c" "request_key c \<noteq> key"
  shows "appended (spares key) w w'"
proof -
  obtain d w1 where r: "run cf decide w = (Inr d, w1)" using assms(1) by (auto simp: claim_new_def result_simps)
  show ?thesis
  proof (cases d)
    case (RefuseClaim dec)
    with assms(1) r obtain oc w2 where o: "work_outcome cf dec w1 = Inr (oc, w2)"
      "work_finish cf oc (dc_git dec) (Some (dc_observed dec)) w2 = Inr w'"
      by (auto simp: claim_new_def result_simps ok_or_def split: option.splits)
    show ?thesis
    proof (rule finish_spared [OF _ o(2) assms(2)])
      assume w2: "wk_failed w2 = None"
      then have w1: "wk_failed w1 = None" "work_steps cf w1 w2" using work_outcome_step [OF o(1)] by simp_all
      then have "work_steps cf w w2" using run_steps [OF r] by (metis rtranclp_trans)
      with work_steps_leased run_spares [OF r w1(1)] work_outcome_events [OF o(1)]
      show "appended (spares key) w w2 \<and> wk_command w2 = wk_command w" by (auto simp: appended_def)
    qed (use assms(3,4) in simp)
  next
    case (TakeClaim intent owner facts ob)
    with assms(1) r obtain n w2 where p: "push_event cf (claimed_event c intent owner facts) w1 = (Inr n, w2)"
      and l: "write_lease (command_id c) n (cmd_recorded_at c) w2 = Inr w'"
      by (auto simp: claim_new_def result_simps split: if_splits)
    have "wk_failed w1 = None" "wk_events w' = wk_events w2"
      using write_lease_step [OF l] push_event_failed [OF p] assms(2) l by (auto simp: write_lease_def result_simps)
    moreover have "appended (spares key) w1 w2"
      by (rule push_spares [OF p, of "cmd_kind c" "cmd_request_id c"])
        (use assms(4) in \<open>simp_all add: claimed_event_def claimed_to_value_def request_key_def\<close>)
    ultimately show ?thesis using run_spares [OF r] appended_trans by (fastforce simp: appended_def)
  qed
qed

interpretation sparing_transact: sparing_entry cf "transact_new cf decide" c for cf decide c
  by unfold_locales (auto intro: spared_all dest: transact_spares)

interpretation sparing_claim: sparing_entry cf "claim_new cf c decide" c for cf c decide
  by unfold_locales (auto intro: spared_all dest: claim_spares)

interpretation sparing_complete: sparing_entry cf "complete_new cf c decide" c for cf c decide
  by unfold_locales (auto intro: spared_all dest: complete_spares)

interpretation sparing_reconcile: sparing_entry cf "reconcile_new cf c cid authority decide" c for cf c cid authority decide
  by unfold_locales (auto intro: spared_all dest: reconcile_spares)

section \<open>What answers a completed request\<close>

definition recorded :: "store_config \<Rightarrow> database \<Rightarrow> project_id \<Rightarrow> doc_key \<Rightarrow> hash \<Rightarrow> outcome \<Rightarrow> bool" where
  "recorded cf db p key digest oc \<longleftrightarrow> db_epoch db = epoch \<and> (\<exists>r g n body. db_projects db p = Some r
     \<and> judge_live_request (cf_views cf) (live_row r) = Inr (FenceCurrent g)
     \<and> pj_views r g request_view key = Some \<lparr>doc_seq = n, doc_body = body\<rparr>
     \<and> request_state body = Some (Completed digest oc) \<and> replayed_outcome db p n oc = Inr oc)"

lemma find_append_Some: "find P xs = Some x \<Longrightarrow> find P (xs @ ys) = Some x"
  by (induction xs) auto

text \<open>A row that keeps its live generation and stamps, the document and the references keeps the record.\<close>

lemma replayed_kept:
  assumes "replayed_outcome db p n oc = Inr oc" "db_projects db p = Some r" "db_projects db' p = Some r'"
    "pj_refs r' = pj_refs r @ rows" "db_payloads db \<subseteq>\<^sub>m db_payloads db'" "pj_events r' = pj_events r @ es"
  shows "replayed_outcome db' p n oc = Inr oc"
proof (cases "oc_answer oc")
  case (Stored ref)
  from assms(1) Stored obtain status where status: "reference_status db p n (pr_hash ref) = Inr status"
    "oc = (case status of Present _ \<Rightarrow> oc | _ \<Rightarrow> oc\<lparr>oc_answer := Tombstone ref status\<rparr>)"
    by (auto simp: replayed_outcome_def result_simps)
  obtain bytes where "status = Present bytes"
  proof (cases status)
    case (Reduced a b)
    with arg_cong [OF status(2), of oc_answer] Stored show ?thesis by simp
  next
    case (Purged a)
    with arg_cong [OF status(2), of oc_answer] Stored show ?thesis by simp
  qed (use that in blast)
  with status have st: "reference_status db p n (pr_hash ref) = Inr (Present bytes)" by simp
  from st assms(2) obtain row where row: "find (\<lambda>row. rr_seq row = n \<and> rr_hash row = pr_hash ref) (pj_refs r) = Some row"
    "rr_released row = None" "stored_status db (pr_hash ref) = Inr (Present bytes)"
    by (auto simp: reference_status_def result_simps split: option.splits if_splits)
  from row(3) obtain pay where pay: "db_payloads db (pr_hash ref) = Some pay" "py_bytes pay = bytes" "\<exists>b. py_state pay = PresentBody b"
    by (auto simp: stored_status_def split: option.splits payload_state.splits)
  then have "db_payloads db' (pr_hash ref) = Some pay" using assms(5) by (auto simp: map_le_def dom_def)
  with pay have "stored_status db' (pr_hash ref) = Inr (Present bytes)" by (auto simp: stored_status_def)
  moreover have "is_ok (sql_int n)" using st by (auto simp: reference_status_def result_simps is_ok_iff)
  ultimately have "reference_status db' p n (pr_hash ref) = Inr (Present bytes)"
    using find_append_Some [OF row(1)] row(2) by (auto simp: reference_status_def assms(3,4) is_ok_iff)
  with Stored show ?thesis by (simp add: replayed_outcome_def)
qed (use assms(1) in \<open>simp_all add: replayed_outcome_def\<close>)

lemma recorded_kept:
  assumes "recorded cf db p key digest oc" "db_projects db p = Some r" "db_projects db' p = Some r'" "db_epoch db' = db_epoch db"
    "pj_live r' = pj_live r" "pj_stamps r' = pj_stamps r" "\<And>g. pj_live r = Some g \<Longrightarrow> pj_views r' g request_view key = pj_views r g request_view key"
    "pj_refs r' = pj_refs r @ rows" "db_payloads db \<subseteq>\<^sub>m db_payloads db'" "pj_events r' = pj_events r @ es"
  shows "recorded cf db' p key digest oc"
proof -
  from assms(1,2) obtain g n body where r: "db_epoch db = epoch" "judge_live_request (cf_views cf) (live_row r) = Inr (FenceCurrent g)"
    "pj_views r g request_view key = Some \<lparr>doc_seq = n, doc_body = body\<rparr>"
    "request_state body = Some (Completed digest oc)" "replayed_outcome db p n oc = Inr oc"
    unfolding recorded_def by auto
  have g: "pj_live r = Some g" using judge_request_generation [OF r(2)] by (simp add: live_row_def)
  have "live_row r' = (live_row r)\<lparr>lv_head := pj_head_seq r'\<rparr>" using assms(5,6) by (cases "pj_live r") (simp_all add: live_row_def)
  with judge_request_head [OF r(2)] have "judge_live_request (cf_views cf) (live_row r') = Inr (FenceCurrent g)" by simp
  moreover have "replayed_outcome db' p n oc = Inr oc" by (rule replayed_kept [OF r(5) assms(2,3,8,9,10)])
  moreover have "pj_views r' g request_view key = Some \<lparr>doc_seq = n, doc_body = body\<rparr>" using assms(7) [OF g] r(3) by simp
  ultimately show ?thesis using r(1,4) assms(3,4) unfolding recorded_def by auto
qed

lemma recorded_same:
  "recorded cf db p key digest oc \<Longrightarrow> db_projects db' p = db_projects db p \<Longrightarrow> db_epoch db' = db_epoch db \<Longrightarrow>
     db_payloads db \<subseteq>\<^sub>m db_payloads db' \<Longrightarrow> recorded cf db' p key digest oc"
  unfolding recorded_def using replayed_kept [where rows = "[]" and es = "[]"] by fastforce

text \<open>Projecting events that spare a request leaves its document.\<close>

lemma spared_untouched:
  assumes "project_events request_projector table copies = Inr table'" "collect_results (copy_event cf) es = Inr copies"
    "list_all (spares key) es"
  shows "table' key = table key"
proof (rule request.untouched [OF assms(1)], intro ballI impI)
  fix x assume x: "x \<in> set copies" "type_name x \<in> set (p_handles request_projector)"
  from assms(2) have "list_all2 (\<lambda>e x. copy_event cf e = Inr x) es copies" by (simp add: collect_results_Inr_iff)
  then obtain e where e: "e \<in> set es" "copy_event cf e = Inr x"
    using x(1) by (induction rule: list_all2_induct) auto
  have name: "type_name x = type_name e" by (rule copy_type_name [OF e(2)])
  have "store_owned command_claimed" "store_owned command_reconciled" "store_owned command_completed" by code_simp+
  with x(2) name have "store_owned (type_name e)" by (auto simp: request_projector_def)
  with copy_store_owned e(2) have "x = e" by blast
  with assms(3) e(1) x(2) show "key \<notin> set (p_keys request_projector x)"
    by (auto simp: spares_def list_all_iff request_projector_def split: option.splits)
qed

lemma request_table_read: "configured cf \<Longrightarrow> db_projects db p = Some r \<Longrightarrow>
    get_document (cf_views cf) db p g request_view [KText kind, KText request] = Inr (pj_views r g request_view [KText kind, KText request])"
proof -
  assume a: "configured cf" "db_projects db p = Some r"
  obtain t where "view_schema_of (cf_views cf) request_view = Inr t" "vt_spec t = request_spec"
    using configuredD(2) [OF a(1) configuredD(4) [OF a(1)]] by (auto simp: request_projector_def request_spec_def)
  then show ?thesis by (simp add: get_document_def Let_def fitted_def request_spec_def view_of_def a(2))
qed

lemma recorded_completed:
  assumes "configured cf" "recorded cf db p [KText kind, KText request] digest oc" "db_projects db p = Some r" "pj_live r = Some g"
  shows "completed_at cf db p g [KText kind, KText request]"
proof -
  from assms(2,3) obtain g' n body where r: "judge_live_request (cf_views cf) (live_row r) = Inr (FenceCurrent g')"
    "pj_views r g' request_view [KText kind, KText request] = Some \<lparr>doc_seq = n, doc_body = body\<rparr>"
    "request_state body = Some (Completed digest oc)" unfolding recorded_def by auto
  have "g' = g" using judge_request_generation [OF r(1)] assms(4) by (simp add: live_row_def)
  with r(2,3) request_table_read [OF assms(1,3)] show ?thesis by (auto simp: completed_at_def)
qed

lemma completed_not_new:
  assumes "lookup_request (cf_views cf) replay db c entry g = Inr None" "completed_at cf db (cmd_project c) g key"
  shows "request_key c \<noteq> key"
proof
  assume key: "request_key c = key"
  from assms(2) obtain doc digest oc where "get_document (cf_views cf) db (cmd_project c) g request_view key = Inr (Some doc)"
    "request_state (doc_body doc) = Some (Completed digest oc)" unfolding completed_at_def by blast
  with assms(1) key show False
    by (simp add: lookup_request_def request_document_def ok_or_def result_simps split: if_split_asm)
qed

lemma own_claim_key:
  assumes "configured cf" "own_claim (cf_views cf) db c entry g = Inr (Some cl)" "db_projects db (cmd_project c) = Some r"
    "claims_ok cf r" "judge_live_set (cf_views cf) (live_row r) = FenceCurrent g"
  shows "claim_key (cl_id cl) = request_key c"
proof -
  from assms(2) obtain d state where d': "request_document (cf_views cf) db c g = Inr (Some d)" "request_state (doc_body d) = Some state"
    "(case state of Claimed doc \<Rightarrow> Inr (Some (claim_from_doc db (cmd_project c) doc None))
       | _ \<Rightarrow> Inl (Unavailable ''a claim request changed'')) = Inr (Some cl)"
    by (auto simp: own_claim_def result_simps split: entry.split_asm)
  from d'(3) obtain doc where "state = Claimed doc" "cl_id cl = cd_id doc" by (cases state) (auto simp: claim_from_doc_def)
  with d'(1,2) have d: "request_document (cf_views cf) db c g = Inr (Some d)" "request_state (doc_body d) = Some (Claimed doc)"
    "cl_id cl = cd_id doc" by simp_all
  have "pj_views r g request_view (request_key c) = Some d"
    using d(1) request_document_read [OF assms(1,3)] by simp
  then have "open_claim (pj_views r g request_view) (cmd_kind c) (cmd_request_id c) = Some doc"
    using d(2) by (simp add: open_claim_def request_at_def request_key_def)
  with assms(4,5) have "cd_id doc = \<lparr>ci_kind = cmd_kind c, ci_request_id = cmd_request_id c\<rparr>"
    by (auto simp: claims_ok_def dest: scopes_okD)
  with d(3) show ?thesis by (simp add: claim_key_def request_key_def)
qed

context command_entry
begin

lemma turn_decided:
  assumes "configured cf" "store_ok cf db" "command_path_for cf replay new c entry (db, marks) = (res, db', marks')"
  shows "db' = db \<or> (\<exists>v h w g own r. db_projects db (cmd_project c) = Some r \<and> pj_live r = Some g
       \<and> lookup_request (cf_views cf) replay db c entry g = Inr None \<and> own_claim (cf_views cf) db c entry g = Inr own
       \<and> judge_live_set (cf_views cf) (live_row r) = FenceCurrent g
       \<and> new (work_new db c (head_of (stored_events db (cmd_project c))) g) own = Inr (v, w) \<and> wk_failed w = None
       \<and> turn_written cf c w db h db')"
  using command_path_cases [OF assms(3)]
proof (elim disjE exE conjE)
  fix head live g g' own v h w
  assume head: "stored_head db (cmd_project c) = Inr head"
    and live: "live_of db (cmd_project c) = Inr live" "judge_live_request (cf_views cf) live = Inr (FenceCurrent g)"
    and look: "lookup_request (cf_views cf) replay db c entry g = Inr None" "own_claim (cf_views cf) db c entry g = Inr own"
      "judge_live_set (cf_views cf) live = FenceCurrent g'"
    and w: "new (work_new db c head g) own = Inr (v, w)" "wk_failed w = None" and wrt: "work_write cf w = Inr (h, db')"
  obtain row where row: "db_projects db (cmd_project c) = Some row" "live = live_row row" using live(1) by (auto simp: live_of_row)
  have g: "pj_live row = Some g" using judge_request_generation [OF live(2)] row(2) by (simp add: live_row_def)
  have g': "g' = g" using judge_set_generation [OF look(3)] g row(2) by (simp add: live_row_def)
  have h: "head = head_of (stored_events db (cmd_project c))"
    using head stored_head_row [OF conjunct1 [OF store_okD [OF assms(2) row(1)]] row(1)] by simp
  have "work_steps cf (work_new db c (head_of (stored_events db (cmd_project c))) g) w" using new_steps [OF w(1,2)] h by simp
  from turn_written_ok [OF assms(2,1) row(1) g _ this wrt] live(2) row(2) have "turn_written cf c w db h db'" by simp
  with row g look w h g' show ?thesis by blast
qed simp

end

context sparing_entry
begin

lemma keeps_recorded:
  assumes "configured cf" "store_ok cf db" "\<And>p r. db_projects db p = Some r \<Longrightarrow> claims_ok cf r"
    and rec: "recorded cf db p [KText kind, KText request] digest oc"
    and run: "command_path_for cf replay new c entry (db, marks) = (res, db', marks')"
  shows "recorded cf db' p [KText kind, KText request] digest oc"
  using turn_decided [OF assms(1,2) run]
proof (elim disjE exE conjE)
  assume "db' = db" then show ?thesis using rec by simp
next
  fix v h w g own r
  assume r: "db_projects db (cmd_project c) = Some r" "pj_live r = Some g"
    and look: "lookup_request (cf_views cf) replay db c entry g = Inr None" "own_claim (cf_views cf) db c entry g = Inr own"
      "judge_live_set (cf_views cf) (live_row r) = FenceCurrent g"
    and new: "new (work_new db c (head_of (stored_events db (cmd_project c))) g) own = Inr (v, w)" "wk_failed w = None"
    and tw: "turn_written cf c w db h db'"
  show ?thesis
  proof (cases "p = cmd_project c")
    case False
    with tw have "db_projects db' p = db_projects db p" "db_epoch db' = db_epoch db" "db_payloads db \<subseteq>\<^sub>m db_payloads db'"
      unfolding turn_written_def by blast+
    with recorded_same [OF rec] show ?thesis by blast
  next
    case True
    let ?key = "[KText kind, KText request]"
    have comp: "completed_at cf db (cmd_project c) g ?key" using recorded_completed [OF assms(1) rec, of r g] r True by simp
    have ne: "request_key c \<noteq> ?key" by (rule completed_not_new [OF look(1) comp])
    have own: "claim_key (cl_id cl) \<noteq> ?key" if "own = Some cl" for cl
      using own_claim_key [OF assms(1) look(2) [unfolded that] r(1) assms(3) [OF r(1)] look(3)] ne by simp
    have spared: "list_all (spares ?key) (map fst (wk_events w))"
      using new_spares [OF new comp ne own] by (simp add: list.pred_map)
    obtain r0 l anchors tables copies where t: "db_projects db (cmd_project c) = Some r0"
      "db_projects db' (cmd_project c) = Some (written_row w h anchors tables (r0\<lparr>pj_leases := l\<rparr>))"
      "db_epoch db' = db_epoch db" "db_payloads db \<subseteq>\<^sub>m db_payloads db'" "pj_live r0 = Some (wk_generation w)"
      "collect_results (copy_event cf) (map fst (wk_events w)) = Inr copies"
      "\<forall>q \<in> set (cf_projectors cf). project_events q (pj_views r0 (wk_generation w) (view_name q)) copies = Inr (tables (view_name q))"
      using tw unfolding turn_written_def by (elim exE conjE)
    have gen: "r0 = r" "wk_generation w = g" using t(1,5) r by simp_all
    have "project_events request_projector (pj_views r g request_view) copies = Inr (tables request_view)"
      using t(7) configuredD(4) [OF assms(1)] by (auto simp: gen request_projector_def request_spec_def)
    then have view: "tables request_view ?key = pj_views r g request_view ?key" by (rule spared_untouched [OF _ t(6) spared])
    show ?thesis
      by (rule recorded_kept [OF rec, where r = r and r' = "written_row w h anchors tables (r\<lparr>pj_leases := l\<rparr>)"
            and rows = "concat (map reference_rows (wk_events w))" and es = "map fst (wk_events w)"])
        (use t r view True in \<open>simp_all add: gen written_row_def\<close>)
  qed
qed

end

section \<open>Every later step keeps it\<close>

lemma stamp_recorded:
  assumes rec: "recorded cf db p key digest oc" and stamp: "stamp_empty cf q (db, marks) = (r0, db', marks')"
  shows "recorded cf db' p key digest oc"
  using transaction_cases [OF stamp [unfolded stamp_empty_def]]
proof (elim disjE exE conjE)
  assume "db' = db" then show ?thesis using rec by simp
next
  fix v assume "(rbind (live_of db q) (\<lambda>live.
          if lv_generation live = None \<and> lv_head live = 0
          then rbind (put_stamps (cf_views cf) q 0 (update_project q (\<lambda>r. r\<lparr>pj_live := Some 0\<rparr>) db)) (\<lambda>db. Inr ((), db))
          else Inr ((), db)), marks) = (Inr (v, db'), marks')"
  then obtain live where live: "live_of db q = Inr live"
    and cases: "db' = db \<or> lv_generation live = None
       \<and> put_stamps (cf_views cf) q 0 (update_project q (\<lambda>r. r\<lparr>pj_live := Some 0\<rparr>) db) = Inr db'"
    by (auto simp: result_simps split: if_splits)
  obtain row where row: "db_projects db q = Some row" "live = live_row row" using live by (auto simp: live_of_row)
  show ?thesis
  proof (cases "db' = db")
    case True
    with rec show ?thesis by simp
  next
    case False
    with cases have none: "pj_live row = None"
      and put: "put_stamps (cf_views cf) q 0 (update_project q (\<lambda>r. r\<lparr>pj_live := Some 0\<rparr>) db) = Inr db'"
      by (auto simp: row(2) live_row_def)
    from rec have "p \<noteq> q"
      using row(1) none by (auto simp: recorded_def live_row_def dest!: judge_request_generation)
    with put row(1) show ?thesis
      by (intro recorded_same [OF rec]) (auto simp: put_stamps_def project_of_def ok_or_def update_project_def split: if_splits)
  qed
qed

lemma leased_recorded:
  assumes rec: "recorded cf db p key digest oc" and leased: "leased q db db'"
  shows "recorded cf db' p key digest oc"
proof -
  from rec obtain r where r: "db_projects db p = Some r" unfolding recorded_def by blast
  obtain l where l: "db_projects db' p = Some r \<or> db_projects db' p = Some (r\<lparr>pj_leases := l\<rparr>)"
    using leased r by (cases "p = q") (auto simp: leased_def)
  have frame: "db_epoch db' = db_epoch db" "db_payloads db \<subseteq>\<^sub>m db_payloads db'" using leased by (simp_all add: leased_def)
  from l show ?thesis
  proof
    assume "db_projects db' p = Some r"
    with recorded_same [OF rec] r frame show ?thesis by simp
  next
    assume "db_projects db' p = Some (r\<lparr>pj_leases := l\<rparr>)"
    then show ?thesis
      by (rule recorded_kept [OF rec r, where rows = "[]" and es = "[]"]) (simp_all add: frame)
  qed
qed

lemma step_recorded:
  assumes "store_step cf (db, marks) (db', marks')" "configured cf" "store_ok cf db" "\<And>p r. db_projects db p = Some r \<Longrightarrow> claims_ok cf r"
    and rec: "recorded cf db p [KText kind, KText request] digest oc"
  shows "recorded cf db' p [KText kind, KText request] digest oc"
  using assms(1)
proof (cases rule: store_step.cases)
  case (step_create project r0)
  then show ?thesis unfolding create_project_def
  proof (elim transaction_cases [THEN disjE])
    show ?thesis if "db' = db" using rec that by simp
    show ?thesis if "\<exists>v. r0 = Inr v \<and> (if \<not> Option.is_none (db_projects db project) then Inl (RefusedBy (ProjectExists project))
        else Inr ((), db\<lparr>db_projects := (db_projects db)(project \<mapsto> new_project)\<rparr>), marks) = (Inr (v, db'), marks')"
      using that rec by (intro recorded_same [OF rec]) (auto simp: recorded_def split: if_splits)
  qed
next
  case (step_stamp project r0)
  then show ?thesis by (rule stamp_recorded [OF rec])
next
  case (step_transact c decide r0)
  show ?thesis by (rule sparing_transact.keeps_recorded [OF assms(2-4) rec step_transact [unfolded transact_def]])
next
  case (step_claim c cdecide cr)
  show ?thesis by (rule sparing_claim.keeps_recorded [OF assms(2-4) rec step_claim [unfolded claim_command_def]])
next
  case (step_complete c owner decide r0)
  show ?thesis by (rule sparing_complete.keeps_recorded [OF assms(2-4) rec step_complete [unfolded complete_def]])
next
  case (step_reconcile c cid authority rdecide r0)
  then consider "db' = db" | "command_path_for cf (completed_only ''a reconciliation that cannot replay'')
             (reconcile_new cf c cid authority rdecide) c (ReconcileEntry cid) (db, marks) = (r0, db', marks')"
    unfolding reconcile_def by (auto split: if_splits)
  then show ?thesis
  proof cases
    case 1
    with rec show ?thesis by simp
  next
    case 2
    show ?thesis by (rule sparing_reconcile.keeps_recorded [OF assms(2-4) rec 2])
  qed
next
  case (step_renew project cid owner t rr)
  from transaction_cases [OF step_renew [unfolded renew_lease_def]] consider "db' = db" | "leased project db db'"
    by (auto dest: renew_leased)
  then show ?thesis
  proof cases
    case 1
    with rec show ?thesis by simp
  next
    case 2
    show ?thesis by (rule leased_recorded [OF rec 2])
  qed
qed

text \<open>However many steps later, the request is answered from its record.\<close>

lemma later_recorded:
  assumes "(store_step cf)\<^sup>*\<^sup>* (db, marks) st" "configured cf" "reachable cf (db, marks)"
    and rec: "recorded cf db p [KText kind, KText request] digest oc"
  shows "recorded cf (fst st) p [KText kind, KText request] digest oc \<and> reachable cf st"
  using assms(1)
proof (induction rule: rtranclp_induct)
  case base
  then show ?case using rec assms(3) by simp
next
  case (step y z)
  obtain dy my dz mz where yz: "y = (dy, my)" "z = (dz, mz)" by (metis prod.collapse)
  have ry: "reachable cf y" and recy: "recorded cf dy p [KText kind, KText request] digest oc" using step.IH by (simp_all add: yz)
  have "store_ok cf dy" using reachable_ok [OF ry assms(2)] by (simp add: yz)
  moreover have "claims_ok cf r" if "db_projects dy q = Some r" for q r using reachable_claims_ok [OF ry assms(2)] that by (simp add: yz)
  ultimately have "recorded cf dz p [KText kind, KText request] digest oc"
    using step_recorded [OF step.hyps(2) [unfolded yz] assms(2) _ _ recy] by blast
  moreover have "reachable cf z" using ry step.hyps(2) unfolding reachable_def by simp
  ultimately show ?case by (simp add: yz)
qed

lemma recorded_answers:
  assumes "configured cf" "store_ok cf db" "cf_unhealthy cf = None" "is_ok (parse_instant (cmd_recorded_at c))"
    "recorded cf db (cmd_project c) (request_key c) digest oc"
  shows "command_path_for cf (completed_only why) new c entry (db, marks) =
    (if cmd_digest c = digest then Inr (TurnReplayed oc) else Inl (RefusedBy (RequestDigestMismatch (cmd_request_id c))), db, marks)"
proof -
  from assms(5) obtain r g n body where r: "db_epoch db = epoch" "db_projects db (cmd_project c) = Some r"
    "judge_live_request (cf_views cf) (live_row r) = Inr (FenceCurrent g)"
    "pj_views r g request_view (request_key c) = Some \<lparr>doc_seq = n, doc_body = body\<rparr>"
    "request_state body = Some (Completed digest oc)" "replayed_outcome db (cmd_project c) n oc = Inr oc"
    unfolding recorded_def by blast
  show ?thesis
    using recorded_turn [OF assms(1,2,3) r(1) assms(4) r(2-6), of "completed_only why" new entry marks]
    by (simp add: completed_only_def)
qed

text \<open>A command that commits with an outcome leaves its request recorded.\<close>

context completing_entry
begin

lemma completion_kept:
  assumes conf: "configured cf" and ok: "store_ok cf db"
    and run: "command_path_for cf replay new c entry (db, marks) = (Inr (TurnNew oc h), db', marks')"
    and wf: "hash_wf (cmd_digest c)" "\<And>b. length (cf_sha cf b) = 32"
  shows "recorded cf db' (cmd_project c) (request_key c) (cmd_digest c) oc \<and> cf_unhealthy cf = None"
proof -
  obtain r g n body where r: "db_projects db' (cmd_project c) = Some r" "pj_live r = Some g"
    "pj_views r g request_view (request_key c) = Some \<lparr>doc_seq = n, doc_body = body\<rparr>"
    "request_state body = Some (Completed (cmd_digest c) oc)" "replayed_outcome db' (cmd_project c) n oc = Inr oc"
    by (rule completion_recorded [OF assms(1,2) run wf])
  obtain w where tw: "turn_written cf c w db h db'" using turn_outcomes [OF assms(1,2) run] by blast
  have "db_epoch db' = db_epoch db" using tw unfolding turn_written_def by blast
  then have ran: "cf_unhealthy cf = None" "db_epoch db' = epoch" using turn_ran [OF run] by simp_all
  obtain r0 l anchors tables where r0: "db_projects db' (cmd_project c) = Some (written_row w h anchors tables (r0\<lparr>pj_leases := l\<rparr>))"
    "pj_live r0 = Some (wk_generation w)" "judge_live_request (cf_views cf) (live_row r0) = Inr (FenceCurrent (wk_generation w))"
    using tw unfolding turn_written_def by (elim exE conjE)
  have "live_row r = (live_row r0)\<lparr>lv_head := h_seq h\<rparr>" and g: "g = wk_generation w"
    using r0(1,2) r(1,2) by (auto simp: live_row_def written_row_def)
  then have "judge_live_request (cf_views cf) (live_row r) = Inr (FenceCurrent g)"
    using judge_request_head [OF r0(3)] by simp
  with r ran show ?thesis unfolding recorded_def by blast
qed

end

end
