(* ===== verification/Store_Properties.thy ===== *)
theory Store_Properties
  imports Store_Example Request_Record
begin

text \<open>
  What holds of every store the commands can leave, and of every command run on one.
\<close>

section \<open>Every store this code leaves\<close>

text \<open>C1: the ledger of every project of a reachable store verifies.  After any sequence of creates,
  stamps, transactions, claims, completions, reconciliations and lease renewals, with any decisions
  and any outcomes, the chain verifier finds no break in a project's stored events, whatever the
  anchor; the head it reports is the head the store reads back from the project's row; every event
  is of its project; and the versions of each stream count its events from 1.\<close>

theorem reachable_ledger_verifies:
  assumes "configured cf" "reachable cf (db, marks)" "db_projects db p = Some r"
  shows "cr_first_break (verify_chain (cf_sha cf) (pj_events r) a) = None
    \<and> stored_head db p = Inr (cr_head (verify_chain (cf_sha cf) (pj_events r) a))
    \<and> project_id ` set (pj_events r) \<subseteq> {p} \<and> versions_ok (pj_events r)"
proof -
  let ?es = "pj_events r"
  have ok: "row_ok cf p r" using store_okD [of cf db p r] reachable_ok [OF assms(2,1)] assms(3) by simp
  then have l: "chain_ok (cf_sha cf) ?es" "length ?es < 2 ^ 64" "project_id ` set ?es \<subseteq> {p}" "versions_ok ?es"
    by (auto simp: row_ok_def ledger_chain_def)
  have "good_prefix (cf_sha cf) ?es (length ?es)" using l(1) by (simp add: good_prefix_def)
  from stopped_fields(2,4) [OF verify_stopped [OF this l(2)]]
  have v: "v_head (walk (cf_sha cf) (verifier_new a) ?es) = head_of ?es"
    "v_first_break (walk (cf_sha cf) (verifier_new a) ?es) = None" by simp_all
  have "cr_head (finish v) = v_head v" "cr_first_break (finish v) = v_first_break v" for v
    by (simp_all add: finish_def Let_def split: option.split prod.split)
  moreover have "stored_head db p = Inr (head_of ?es)"
    using stored_head_row [OF ok assms(3)] by (simp add: stored_events_def assms(3))
  ultimately show ?thesis using v l(3,4) by (simp add: verify_chain_def)
qed

theorem reachable_ledger_verifies_witness:
  "stored_head taken_db ''p'' = Inr (cr_head (verify_chain zero_sha [taken_event] None))"
proof -
  have r: "db_projects taken_db ''p'' = Some taken_row" by (simp add: taken_db_def)
  have "pj_events taken_row = [taken_event]" "cf_sha example_cf = zero_sha" by (simp_all add: taken_row_def example_cf_def)
  with reachable_ledger_verifies [OF example_configured taken_reachable r, of None] show ?thesis by simp
qed

text \<open>C4: in a reachable store a view set that is judged current is the replay of the ledger.  Reading
  every stored event as the projectors see it succeeds, and folding those copies from an empty
  table through each configured projector, the store's own two and every domain one, succeeds and
  yields exactly the table that is stored for its view, however the commands before were split.\<close>

theorem reachable_views_replay:
  assumes "configured cf" "reachable cf (db, marks)" "db_projects db p = Some r"
    and "judge_live_set (cf_views cf) (live_row r) = FenceCurrent g"
  shows "\<exists>copies. collect_results (copy_event cf) (pj_events r) = Inr copies
    \<and> (\<forall>q \<in> set (cf_projectors cf). project_events q Map.empty copies = Inr (pj_views r g (vs_name (p_spec q))))"
  using store_okD [of cf db p r] reachable_ok [OF assms(2,1)] assms(3,4) by (simp add: views_ok_def replayed_def)

theorem reachable_views_replay_witness:
  "\<exists>copies. project_events request_projector Map.empty copies
     = Inr [[KText ''k'', KText ''q''] \<mapsto> \<lparr>doc_seq = 1, doc_body = claimed_body taken_event taken_payload\<rparr>]"
proof -
  have r: "db_projects taken_db ''p'' = Some taken_row" "cf_views example_cf = store_view_set"
    by (simp_all add: taken_db_def example_cf_def)
  have "judge_live_set (cf_views example_cf) (live_row taken_row) = FenceCurrent 0" using taken_current r(2) by simp
  from reachable_views_replay [OF example_configured taken_reachable r(1) this] configuredD(4) [OF example_configured]
  obtain copies where "project_events request_projector Map.empty copies = Inr (pj_views taken_row 0 request_view)"
    by (auto simp: request_projector_def request_spec_def)
  then show ?thesis by (auto simp: taken_row_def)
qed

section \<open>One command\<close>

text \<open>C3: a request is decided once.  When a transaction committed with an outcome, then in every store
  that any later commands leave, whatever projects are created and whatever transactions, claims,
  completions, reconciliations and renewals run in between, a transaction with the same project,
  kind and request id and a valid time is answered from the record and changes nothing: with the
  same digest it returns that outcome, with another digest it is refused, whatever its decision,
  scope, actor or time.\<close>

theorem request_answered_once:
  assumes "configured cf" "reachable cf (db, marks)" "hash_wf (cmd_digest c)" "\<forall>b. length (cf_sha cf b) = 32"
    and "transact cf c decide (db, marks) = (Inr (TurnNew oc h), db', marks')"
    and "(store_step cf)\<^sup>*\<^sup>* (db', marks') (later, marks'')"
    and "cmd_project c' = cmd_project c" "request_key c' = request_key c" "is_ok (parse_instant (cmd_recorded_at c'))"
  shows "transact cf c' decide' (later, marks'') =
    (if cmd_digest c' = cmd_digest c then Inr (TurnReplayed oc)
     else Inl (RefusedBy (RequestDigestMismatch (cmd_request_id c'))), later, marks'')"
proof -
  have ok: "store_ok cf db" using reachable_ok [OF assms(2,1)] by simp
  have rec: "recorded cf db' (cmd_project c) (request_key c) (cmd_digest c) oc" "cf_unhealthy cf = None"
    using transacting.completion_kept [OF assms(1) ok assms(5) [unfolded transact_def] assms(3)] assms(4) by simp_all
  have "reachable cf (db', marks')" using assms(2,5) unfolding reachable_def by (meson rtranclp.rtrancl_into_rtrancl step_transact)
  from later_recorded [OF assms(6,1) this rec(1) [unfolded request_key_def]]
  have later: "recorded cf later (cmd_project c) (request_key c) (cmd_digest c) oc" "reachable cf (later, marks'')"
    by (simp_all add: request_key_def)
  have "store_ok cf later" using reachable_ok [OF later(2) assms(1)] by simp
  from recorded_answers [OF assms(1) this rec(2) assms(9)] later(1) assms(7,8) show ?thesis
    unfolding transact_def by simp
qed

theorem request_answered_once_witness:
  "\<exists>db m r later marks. create_project example_cf ''other'' (db, m) = (r, later, marks)
    \<and> transact example_cf example_command (Finished (Inl constraint_failed)) (later, marks) = (Inr (TurnReplayed example_outcome), later, marks)"
proof -
  obtain db m where t: "transact example_cf example_command example_decision (example_db, Map.empty)
     = (Inr (TurnNew example_outcome \<lparr>h_seq = 1, h_hash = zero_hash\<rparr>), db, m)"
    using example_transacts by blast
  obtain r later marks where c: "create_project example_cf ''other'' (db, m) = (r, later, marks)" by (metis prod_cases3)
  have s: "(store_step example_cf)\<^sup>*\<^sup>* (db, m) (later, marks)" using c by (auto intro: store_step.intros)
  have d: "hash_wf (cmd_digest example_command)" "\<forall>b. length (cf_sha example_cf b) = 32"
    by (simp_all add: example_command_def hash_wf_def zero_hash_def example_cf_def zero_sha_def)
  have i: "is_ok (parse_instant (cmd_recorded_at example_command))" by code_simp
  from request_answered_once [OF example_configured example_reachable d t s refl refl i, of "Finished (Inl constraint_failed)"] c
  show ?thesis by simp blast
qed

text \<open>C5: a command commits whole or not at all.  In a reachable store, whenever one of the four
  entries returns anything but a new result, refusals, replays, stale views and errors at any point
  of the decision or of the write included, the tables are what they were.  When it returns a new
  result with a head, the project's ledger is the old one with the command's events after it, ends
  in that head, and its row names it; every other project is untouched and no stored body is lost
  or changed.\<close>

theorem commands_all_or_nothing:
  assumes "configured cf" "reachable cf (db, marks)"
  shows "all_or_nothing c db (transact cf c decide (db, marks))
    \<and> all_or_nothing c db (claim_command cf c taking' (db, marks))
    \<and> all_or_nothing c db (complete cf c owner decide (db, marks))
    \<and> all_or_nothing c db (reconcile cf c cid authority deciding (db, marks))"
proof -
  have ok: "store_ok cf db" using reachable_ok [OF assms(2,1)] by simp
  show ?thesis
    unfolding transact_def claim_command_def complete_def reconcile_def
    by (intro conjI) (auto intro: transacting.all_or_nothing claiming.all_or_nothing completing.all_or_nothing
        reconciling.all_or_nothing assms(1) ok simp: all_or_nothing_def [of _ _ "(Inl e, db, marks)" for e])
qed

theorem commands_all_or_nothing_witness:
  "committed claim_example example_db taken_db \<lparr>h_seq = 1, h_hash = zero_hash\<rparr>"
  using commands_all_or_nothing [OF example_configured example_reachable, of claim_example _ taking]
  by (simp add: example_claims all_or_nothing_def)

text \<open>C6: an operation that failed fails its command.  When a transaction commits, every operation
  its decision asked for, run in the order it asked, was answered without an error: a decision
  cannot go on past a refused append, a stale version or an unknown payload and still commit.\<close>

theorem failed_operation_fails_command:
  assumes "configured cf" "reachable cf (db, marks)"
    and "transact cf c decide (db, marks) = (Inr (TurnNew oc h), db', marks')"
  shows "\<exists>r g. db_projects db (cmd_project c) = Some r \<and> pj_live r = Some g
    \<and> all_answered cf decide (work_new db c (head_of (pj_events r)) g)"
proof -
  have ok: "store_ok cf db" using reachable_ok [OF assms(2,1)] by simp
  obtain w g own where w: "transact_new cf decide (work_new db c (head_of (stored_events db (cmd_project c))) g) own = Inr (oc, w)"
    "wk_failed w = None" "work_steps cf (work_new db c (head_of (stored_events db (cmd_project c))) g) w" "turn_written cf c w db h db'"
    using transacting.turn_outcomes [OF assms(1) ok assms(3) [unfolded transact_def]] by blast
  have g: "wk_generation w = g" using work_steps_leased [OF w(3)] by (simp add: work_new_def)
  obtain r where r: "db_projects db (cmd_project c) = Some r" "pj_live r = Some (wk_generation w)"
    using w(4) unfolding turn_written_def by (elim exE conjE)
  with transact_answered [OF w(1,2)] g show ?thesis by (auto simp: stored_events_def)
qed

theorem failed_operation_fails_command_witness:
  "\<exists>g. pj_live example_row = Some g \<and> all_answered example_cf example_decision (work_new example_db example_command None g)"
proof -
  obtain db m where t: "transact example_cf example_command example_decision (example_db, Map.empty)
     = (Inr (TurnNew example_outcome \<lparr>h_seq = 1, h_hash = zero_hash\<rparr>), db, m)"
    using example_transacts by blast
  have "db_projects example_db (cmd_project example_command) = Some example_row" "head_of (pj_events example_row) = None"
    by (simp_all add: example_db_def example_command_def example_row_def new_project_def head_of_def)
  with failed_operation_fails_command [OF example_configured example_reachable t] show ?thesis by auto
qed

section \<open>Claims\<close>

text \<open>C2: open claims are exclusive.  In a reachable store whose views are current, two claims that
  are open, taken or held for the owner, and whose scopes share a token belong to the same request:
  no sequence of claims, completions, reconciliations and other commands lets two requests hold a
  token at once.\<close>

theorem claims_exclude:
  assumes "configured cf" "reachable cf (db, marks)" "db_projects db p = Some r"
    and "judge_live_set (cf_views cf) (live_row r) = FenceCurrent g"
    and "open_claim (pj_views r g request_view) kind request = Some a"
    and "open_claim (pj_views r g request_view) kind' request' = Some b"
    and "t \<in> set (cd_scope a)" "t \<in> set (cd_scope b)"
  shows "kind' = kind \<and> request' = request"
  using open_claims_exclusive [OF assms(2,1,3-)] .

theorem claims_exclude_witness:
  "{(kind, request). \<exists>doc. open_claim (pj_views taken_row 0 request_view) kind request = Some doc \<and> ''t'' \<in> set (cd_scope doc)}
     = {(''k'', ''q'')}"
proof -
  have r: "db_projects taken_db ''p'' = Some taken_row" "cf_views example_cf = store_view_set"
    by (simp_all add: taken_db_def example_cf_def)
  have c: "judge_live_set (cf_views example_cf) (live_row taken_row) = FenceCurrent 0" using taken_current r(2) by simp
  have t: "''t'' \<in> set (cd_scope taken_doc)" by (simp add: taken_doc_def)
  from claims_exclude [OF example_configured taken_reachable r(1) c taken_open _ t] taken_open t show ?thesis by blast
qed

end
