(* ===== verification/Scope_Submission.thy ===== *)
theory Scope_Submission
  imports Known_Types Question_View
begin

text \<open>
  The judgement of a start submission (\<open>baley-core/src/scope/submission.rs\<close>): its shape, story
  assignment and dependency cycles, and the helpers a change's shape shares with it.  A Rust
  \<open>HashSet\<close> of the entries seen so far is a list.  The judgement's value is an option, \<open>None\<close>
  standing for a panic or an endless loop.  An accepted start is characterised: labels are
  distinct, a phase depends on positions of the roadmap and lists active stories, no story is
  listed by two phases, and no phase lies on a dependency cycle, itself included.
\<close>

section \<open>Statuses, texts and refusals\<close>

datatype story_status = StoryActive | StoryDeferred | StoryExcluded

fun story_status_str :: "story_status \<Rightarrow> string" where
  "story_status_str StoryActive = ''active''"
| "story_status_str StoryDeferred = ''deferred''"
| "story_status_str StoryExcluded = ''excluded''"

definition story_status_parse :: "string \<Rightarrow> story_status option" where
  "story_status_parse t =
     (if t = ''active'' then Some StoryActive
      else if t = ''deferred'' then Some StoryDeferred
      else if t = ''excluded'' then Some StoryExcluded
      else None)"

datatype submission_refusal =
    MalformedSubmission string string
  | StartDoubleAssigned string nat nat
  | StartDependencyCycle "nat list"

fun submission_refusal_code :: "submission_refusal \<Rightarrow> string" where
  "submission_refusal_code (MalformedSubmission _ _) = ''malformed-submission''"
| "submission_refusal_code (StartDoubleAssigned _ _ _) = ''story-double-assigned''"
| "submission_refusal_code (StartDependencyCycle _) = ''dependency-cycle''"

record description =
  ds_what :: string
  ds_core_value :: string
  ds_constraints :: "string list"

record start_story =
  ss_label :: string
  ss_sentence :: string
  ss_status :: story_status

record start_phase =
  sp_name :: string
  sp_goal :: string
  sp_detail :: string
  sp_depends_on :: "nat list"
  sp_stories :: "nat list"

record submission =
  sb_description :: description
  sb_stories :: "start_story list"
  sb_phases :: "start_phase list"
  sb_value :: json
  sb_digest :: hash
  sb_body :: string

type_synonym 'a judged = "submission_refusal + 'a"

definition root_members :: "string list" where
  "root_members = [''description'', ''stories'', ''roadmap'']"
definition description_member_names :: "string list" where
  "description_member_names = [''what'', ''core_value'', ''constraints'']"
definition story_members :: "string list" where
  "story_members = [''label'', ''sentence'', ''status'']"
definition phase_members :: "string list" where
  "phase_members = [''name'', ''goal'', ''detail'', ''depends_on'', ''stories'']"

definition unknown_member :: "(string \<times> json) list \<Rightarrow> string list \<Rightarrow> string option" where
  "unknown_member m allowed = min_by_key (\<lambda>name. name) (filter (\<lambda>name. name \<notin> set allowed) (map fst m))"

text \<open>A list entry's path, \<open>format!("{path}[{index}]")\<close>.\<close>

definition indexed :: "string \<Rightarrow> nat \<Rightarrow> string" where
  "indexed path n = path @ ''['' @ dec n @ '']''"

definition judged_object :: "json option \<Rightarrow> string \<Rightarrow> string \<Rightarrow> string list \<Rightarrow> (string \<times> json) list judged" where
  "judged_object v part field allowed =
     (case v of
        Some (JObject m) \<Rightarrow>
          (case unknown_member m allowed of
             Some unknown \<Rightarrow> Inl (MalformedSubmission part (field @ ''.'' @ unknown))
           | None \<Rightarrow> Inr m)
      | _ \<Rightarrow> Inl (MalformedSubmission part field))"

definition judged_text :: "json option \<Rightarrow> string \<Rightarrow> string \<Rightarrow> string judged" where
  "judged_text v part field =
     (case v of
        Some (JString t) \<Rightarrow> if blank t then Inl (MalformedSubmission part field) else Inr t
      | _ \<Rightarrow> Inl (MalformedSubmission part field))"

definition judged_list :: "json option \<Rightarrow> string \<Rightarrow> string \<Rightarrow> json list judged" where
  "judged_list v part field = (case v of Some (JArray xs) \<Rightarrow> Inr xs | _ \<Rightarrow> Inl (MalformedSubmission part field))"

section \<open>The description\<close>

definition described_path :: "string option \<Rightarrow> string \<Rightarrow> string \<Rightarrow> string \<times> string" where
  "described_path within name field =
     (case within of Some part \<Rightarrow> (part, part @ ''.'' @ field) | None \<Rightarrow> (name, field))"

definition described_text :: "string option \<Rightarrow> json option \<Rightarrow> string \<Rightarrow> string \<Rightarrow> string judged" where
  "described_text within entry name field =
     (let (part, path) = described_path within name field in judged_text entry part path)"

fun described_constraints :: "string option \<Rightarrow> nat \<Rightarrow> json list \<Rightarrow> string list judged" where
  "described_constraints within n [] = Inr []"
| "described_constraints within n (entry # entries) =
     rbind (described_text within (Some entry) ''constraints'' (indexed ''constraints'' n)) (\<lambda>t.
     rbind (described_constraints within (n + 1) entries) (\<lambda>ts. Inr (t # ts)))"

definition description_members :: "(string \<times> json) list \<Rightarrow> string option \<Rightarrow> description judged" where
  "description_members m within =
     rbind (described_text within (map_of m ''what'') ''what'' ''what'') (\<lambda>what.
     rbind (described_text within (map_of m ''core_value'') ''core_value'' ''core_value'') (\<lambda>core_value.
     rbind (let (part, path) = described_path within ''constraints'' ''constraints''
            in judged_list (map_of m ''constraints'') part path) (\<lambda>entries.
     rbind (described_constraints within 0 entries) (\<lambda>constraints.
       Inr \<lparr>ds_what = what, ds_core_value = core_value, ds_constraints = constraints\<rparr>))))"

definition judge_description :: "json option \<Rightarrow> description judged" where
  "judge_description v =
     rbind (judged_object v ''description'' ''description'' description_member_names) (\<lambda>m.
       description_members m (Some ''description''))"

section \<open>The stories and the roadmap\<close>

definition judged_status :: "json option \<Rightarrow> string \<Rightarrow> string \<Rightarrow> story_status judged" where
  "judged_status v part field =
     ok_or (MalformedSubmission part field) (Option.bind (Option.bind v as_str) story_status_parse)"

definition judge_story :: "string list \<Rightarrow> nat \<Rightarrow> json \<Rightarrow> start_story judged" where
  "judge_story labels n entry =
     (let path = indexed ''stories'' n in
     rbind (judged_object (Some entry) ''stories'' path story_members) (\<lambda>m.
     rbind (judged_text (map_of m ''label'') ''stories'' (path @ ''.label'')) (\<lambda>label.
     rbind (if label \<in> set labels then Inl (MalformedSubmission ''stories'' (path @ ''.label'')) else Inr ()) (\<lambda>_.
     rbind (judged_text (map_of m ''sentence'') ''stories'' (path @ ''.sentence'')) (\<lambda>sentence.
     rbind (judged_status (map_of m ''status'') ''stories'' (path @ ''.status'')) (\<lambda>status.
       Inr \<lparr>ss_label = label, ss_sentence = sentence, ss_status = status\<rparr>))))))"

fun judge_stories_from :: "string list \<Rightarrow> nat \<Rightarrow> json list \<Rightarrow> start_story list judged" where
  "judge_stories_from labels n [] = Inr []"
| "judge_stories_from labels n (entry # entries) =
     rbind (judge_story labels n entry) (\<lambda>s.
     rbind (judge_stories_from (ss_label s # labels) (n + 1) entries) (\<lambda>ss. Inr (s # ss)))"

definition judge_stories :: "json option \<Rightarrow> start_story list judged" where
  "judge_stories v =
     rbind (judged_list v ''stories'' ''stories'') (\<lambda>entries.
       if entries = [] then Inl (MalformedSubmission ''stories'' ''stories'')
       else judge_stories_from [] 0 entries)"

fun judged_positions :: "nat \<Rightarrow> string \<Rightarrow> nat list \<Rightarrow> nat \<Rightarrow> json list \<Rightarrow> nat list judged" where
  "judged_positions many path seen n [] = Inr []"
| "judged_positions many path seen n (entry # entries) =
     (case as_u64 entry of
        None \<Rightarrow> Inl (MalformedSubmission ''roadmap'' (indexed path n))
      | Some p \<Rightarrow>
          (let position = unat p in
           if 1 \<le> position \<and> position \<le> many \<and> position \<notin> set seen
           then rbind (judged_positions many path (position # seen) (n + 1) entries) (\<lambda>ps. Inr (position # ps))
           else Inl (MalformedSubmission ''roadmap'' (indexed path n))))"

text \<open>The stories by label: a label is the submission's only once.\<close>

definition by_label :: "start_story list \<Rightarrow> string \<Rightarrow> nat option" where
  "by_label stories = map_of (rev (zip (map ss_label stories) [0..<length stories]))"

fun judged_served :: "start_story list \<Rightarrow> string \<Rightarrow> nat list \<Rightarrow> nat \<Rightarrow> json list \<Rightarrow> nat list judged" where
  "judged_served stories path serving n [] = Inr []"
| "judged_served stories path serving n (entry # entries) =
     (case Option.bind (as_str entry) (by_label stories) of
        None \<Rightarrow> Inl (MalformedSubmission ''roadmap'' (indexed path n))
      | Some story \<Rightarrow>
          if ss_status (stories ! story) = StoryActive \<and> story \<notin> set serving
          then rbind (judged_served stories path (story # serving) (n + 1) entries) (\<lambda>ss. Inr (story # ss))
          else Inl (MalformedSubmission ''roadmap'' (indexed path n)))"

definition judge_phase :: "start_story list \<Rightarrow> nat \<Rightarrow> nat \<Rightarrow> json \<Rightarrow> start_phase judged" where
  "judge_phase stories many n entry =
     (let path = indexed ''roadmap'' n in
     rbind (judged_object (Some entry) ''roadmap'' path phase_members) (\<lambda>m.
     rbind (judged_text (map_of m ''name'') ''roadmap'' (path @ ''.name'')) (\<lambda>name.
     rbind (judged_text (map_of m ''goal'') ''roadmap'' (path @ ''.goal'')) (\<lambda>goal.
     rbind (judged_text (map_of m ''detail'') ''roadmap'' (path @ ''.detail'')) (\<lambda>detail.
     rbind (judged_list (map_of m ''depends_on'') ''roadmap'' (path @ ''.depends_on'')) (\<lambda>depends.
     rbind (judged_positions many (path @ ''.depends_on'') [] 0 depends) (\<lambda>depends_on.
     rbind (judged_list (map_of m ''stories'') ''roadmap'' (path @ ''.stories'')) (\<lambda>labels.
     rbind (judged_served stories (path @ ''.stories'') [] 0 labels) (\<lambda>served.
       Inr \<lparr>sp_name = name, sp_goal = goal, sp_detail = detail, sp_depends_on = depends_on, sp_stories = served\<rparr>)))))))))"

fun judge_phases_from :: "start_story list \<Rightarrow> nat \<Rightarrow> nat \<Rightarrow> json list \<Rightarrow> start_phase list judged" where
  "judge_phases_from stories many n [] = Inr []"
| "judge_phases_from stories many n (entry # entries) =
     rbind (judge_phase stories many n entry) (\<lambda>p.
     rbind (judge_phases_from stories many (n + 1) entries) (\<lambda>ps. Inr (p # ps)))"

definition judge_roadmap :: "json option \<Rightarrow> start_story list \<Rightarrow> start_phase list judged" where
  "judge_roadmap v stories =
     rbind (judged_list v ''roadmap'' ''roadmap'') (\<lambda>entries.
       if entries = [] then Inl (MalformedSubmission ''roadmap'' ''roadmap'')
       else judge_phases_from stories (length entries) 0 entries)"

text \<open>The 1-based positions of the phases that list each story.\<close>

definition listed_by :: "start_phase list \<Rightarrow> nat \<Rightarrow> nat list" where
  "listed_by phases story =
     concat (map (\<lambda>(n, p). map (\<lambda>_. n + 1) (filter (\<lambda>s. s = story) (sp_stories p))) (enumerate 0 phases))"

definition double_assigned :: "start_story list \<Rightarrow> start_phase list \<Rightarrow> unit judged" where
  "double_assigned stories phases =
     (case find (\<lambda>s. 1 < length (listed_by phases s)) [0..<length stories] of
        None \<Rightarrow> Inr ()
      | Some s \<Rightarrow> Inl (StartDoubleAssigned (ss_label (stories ! s)) (listed_by phases s ! 0) (listed_by phases s ! 1)))"

section \<open>The cycle search\<close>

text \<open>
  Tarjan's algorithm as \<open>Cycles\<close> models it, except that a component of one phase that depends on
  itself is on a cycle too.
\<close>

definition close_phase :: "edges \<Rightarrow> nat \<Rightarrow> tarjan \<Rightarrow> tarjan" where
  "close_phase E node t =
     (let (component, rest) = pop_until node (t_stack t)
      in t\<lparr>t_on_stack := foldl (\<lambda>os m. os[m := False]) (t_on_stack t) component, t_stack := rest,
           t_on_cycle := (if 1 < length component \<or> node \<in> set (E ! node) then t_on_cycle t @ component else t_on_cycle t)\<rparr>)"

definition return_phase :: "edges \<Rightarrow> nat \<Rightarrow> (nat \<times> nat) list \<Rightarrow> tarjan \<Rightarrow> tarjan" where
  "return_phase E node calls t =
     (let t1 = t\<lparr>t_calls := calls\<rparr>;
          t2 = (case calls of [] \<Rightarrow> t1 | (parent, _) # _ \<Rightarrow> lower parent (t_low t1 ! node) t1)
      in if Some (t_low t2 ! node) = t_index t2 ! node then close_phase E node t2 else t2)"

definition phase_search_step :: "edges \<Rightarrow> tarjan \<Rightarrow> tarjan" where
  "phase_search_step E t =
     (case t_calls t of
        [] \<Rightarrow> t
      | (node, e) # calls \<Rightarrow>
          if e < length (E ! node)
          then follow_edge E node (E ! node ! e) (t\<lparr>t_calls := (node, e + 1) # calls\<rparr>)
          else return_phase E node calls t)"

partial_function (option) phase_search_loop :: "edges \<Rightarrow> tarjan \<Rightarrow> tarjan option" where
  "phase_search_loop E t = (if t_calls t = [] then Some t else phase_search_loop E (phase_search_step E t))"

fun phase_search_roots :: "edges \<Rightarrow> nat list \<Rightarrow> tarjan \<Rightarrow> tarjan option" where
  "phase_search_roots E [] t = Some t"
| "phase_search_roots E (r # rs) t =
     (if t_index t ! r \<noteq> None then phase_search_roots E rs t
      else Option.bind (phase_search_loop E (open_node r t)) (phase_search_roots E rs))"

definition phase_edges :: "start_phase list \<Rightarrow> edges" where
  "phase_edges phases = map (\<lambda>p. map (\<lambda>position. position - 1) (sp_depends_on p)) phases"

definition phases_on_cycles :: "start_phase list \<Rightarrow> nat list option" where
  "phases_on_cycles phases =
     (let E = phase_edges phases in
      Option.bind (phase_search_roots E [0..<length E] (tarjan_new (length E))) (\<lambda>t.
        Some (sort (map (\<lambda>member. member + 1) (t_on_cycle t)))))"

definition judge_submission :: "(string \<Rightarrow> string) \<Rightarrow> json \<Rightarrow> submission judged option" where
  "judge_submission sha v =
     (case v of
        JObject root \<Rightarrow>
          (case unknown_member root root_members of
             Some unknown \<Rightarrow> Some (Inl (MalformedSubmission unknown unknown))
           | None \<Rightarrow>
               (case rbind (judge_description (map_of root ''description'')) (\<lambda>description.
                     rbind (judge_stories (map_of root ''stories'')) (\<lambda>stories.
                     rbind (judge_roadmap (map_of root ''roadmap'') stories) (\<lambda>phases.
                     rbind (double_assigned stories phases) (\<lambda>_.
                       Inr (description, stories, phases))))) of
                  Inl refusal \<Rightarrow> Some (Inl refusal)
                | Inr (description, stories, phases) \<Rightarrow>
                    Option.bind (phases_on_cycles phases) (\<lambda>on_cycle.
                      if on_cycle \<noteq> [] then Some (Inl (StartDependencyCycle on_cycle))
                      else (case (request_digest sha v, canonical_json v) of
                              (Inr digest, Inr body) \<Rightarrow>
                                Some (Inr \<lparr>sb_description = description, sb_stories = stories, sb_phases = phases,
                                  sb_value = v, sb_digest = digest, sb_body = body\<rparr>)
                            | _ \<Rightarrow> None))))
      | _ \<Rightarrow> Some (Inl (MalformedSubmission ''submission'' ''submission'')))"

text \<open>The search is the one of \<open>Cycles\<close>, but for what it collects.\<close>

definition looped :: "edges \<Rightarrow> tarjan \<Rightarrow> nat list \<Rightarrow> bool" where
  "looped E t cs \<longleftrightarrow>
     distinct cs \<and> set cs = {u. index_of t u \<noteq> None \<and> u \<notin> set (t_stack t) \<and> ((\<exists>w. w \<noteq> u \<and> mutual E u w) \<or> u \<in> set (E ! u))}"

lemma index_of_on_cycle [simp]: "index_of (t\<lparr>t_on_cycle := x\<rparr>) = index_of t"
  by (simp add: index_of_def fun_eq_iff)

lemma lower_on_cycle: "lower v n (t\<lparr>t_on_cycle := x\<rparr>) = (lower v n t)\<lparr>t_on_cycle := x\<rparr>"
  by (simp add: lower_def)

lemma follow_on_cycle:
  "follow_edge E v w (t\<lparr>t_on_cycle := x, t_calls := C\<rparr>) = (follow_edge E v w (t\<lparr>t_calls := C\<rparr>))\<lparr>t_on_cycle := x\<rparr>"
  by (cases t) (simp add: follow_edge_def open_node_def lower_def split: option.split)

lemma follow_looped:
  assumes "tarjan_inv E t" "looped E t x" "w < length E"
  shows "looped E (follow_edge E v w (t\<lparr>t_calls := C\<rparr>)) x"
proof (cases "t_index t ! w")
  case None
  note D = tarjan_invD [OF assms(1)]
  have w: "index_of t w = None" using None assms(3) D(1) by (simp add: index_of_def)
  have "t_index (t\<lparr>t_calls := C\<rparr>) = t_index t" by simp
  then have ix: "index_of (open_node w (t\<lparr>t_calls := C\<rparr>)) = (index_of t)(w \<mapsto> t_next t)"
    using index_of_open [of "t\<lparr>t_calls := C\<rparr>" E w] D(1) assms(3) by simp
  have "t_stack (open_node w (t\<lparr>t_calls := C\<rparr>)) = w # t_stack t" by (simp add: open_node_def)
  with assms(2) None w ix show ?thesis by (auto simp: looped_def follow_edge_def)
next
  case (Some i)
  have "index_of (lower v i (t\<lparr>t_calls := C\<rparr>)) = index_of t" "t_stack (lower v i (t\<lparr>t_calls := C\<rparr>)) = t_stack t"
    by (simp_all add: lower_fields)
  with Some assms(2) show ?thesis by (simp add: looped_def follow_edge_def)
qed

lemma stack_distinct: "tarjan_inv E t \<Longrightarrow> distinct (t_stack t)"
  using stackedD(1) [OF tarjan_invD(6), of E t]
  by (auto simp: sorted_wrt_iff_nth_less distinct_conv_nth) (metis less_irrefl linorder_neqE_nat)

lemma close_looped:
  assumes inv: "tarjan_inv E t" and after: "tarjan_inv E (close_component v u)" and loop: "looped E t x"
    and same: "t_stack u = t_stack t" "index_of u = index_of t" "t_on_cycle u = t_on_cycle t" and v: "v \<in> set (t_stack t)"
  shows "\<exists>y. close_phase E v (u\<lparr>t_on_cycle := x\<rparr>) = (close_component v u)\<lparr>t_on_cycle := y\<rparr> \<and> looped E (close_component v u) y"
proof -
  obtain c r where cr: "pop_until v (t_stack t) = (c @ [v], r)" "t_stack t = c @ v # r" "v \<notin> set c"
    using pop_until_split [OF v] by blast
  let ?u = "close_component v u" and ?I = "index_of t"
  have S: "t_stack ?u = r" "index_of ?u = ?I"
    "t_on_cycle ?u = (if 1 < length (c @ [v]) then t_on_cycle t @ c @ [v] else t_on_cycle t)"
    using same by (simp_all add: close_fields) (simp_all add: close_component_def cr(1))
  have dist: "distinct (c @ v # r)" using stack_distinct [OF inv] cr(2) by simp
  have some: "?I w \<noteq> None" if "w \<in> set (c @ v # r)" for w
    using stackedD(2) [OF tarjan_invD(6) [OF inv]] that unfolding cr(2) by blast
  have before: "set (t_on_cycle t) = {w. ?I w \<noteq> None \<and> w \<notin> set (c @ v # r) \<and> (\<exists>z. z \<noteq> w \<and> mutual E w z)}"
    using tarjan_invD(9) [OF inv] by (simp add: collected_def cr(2))
  have fin: "set (t_on_cycle ?u) = {w. ?I w \<noteq> None \<and> w \<notin> set r \<and> (\<exists>z. z \<noteq> w \<and> mutual E w z)}"
    using tarjan_invD(9) [OF after] by (simp add: collected_def S)
  have more: "(\<exists>z. z \<noteq> w \<and> mutual E w z) \<longleftrightarrow> c \<noteq> []" if w: "w \<in> set (c @ [v])" for w
  proof -
    have "w \<notin> set (t_on_cycle t)" using before w by auto
    moreover have "(\<exists>z. z \<noteq> w \<and> mutual E w z) \<longleftrightarrow> w \<in> set (t_on_cycle ?u)"
      using fin some [of w] dist w by auto
    ultimately show ?thesis using w S(3) by (cases c) auto
  qed
  let ?on = "c \<noteq> [] \<or> v \<in> set (E ! v)"
  let ?y = "if ?on then x @ c @ [v] else x"
  have eq: "close_phase E v (u\<lparr>t_on_cycle := x\<rparr>) = ?u\<lparr>t_on_cycle := ?y\<rparr>"
    by (cases u) (use same cr in \<open>simp add: close_phase_def close_component_def\<close>)
  have x: "distinct x" "set x = {w. ?I w \<noteq> None \<and> w \<notin> set (c @ v # r) \<and> ((\<exists>z. z \<noteq> w \<and> mutual E w z) \<or> w \<in> set (E ! w))}"
    using loop by (simp_all add: looped_def cr(2))
  have "distinct ?y" using x dist by auto
  moreover have "set ?y = {w. ?I w \<noteq> None \<and> w \<notin> set r \<and> ((\<exists>z. z \<noteq> w \<and> mutual E w z) \<or> w \<in> set (E ! w))}" (is "_ = ?R")
  proof (rule set_eqI)
    fix w
    show "w \<in> set ?y \<longleftrightarrow> w \<in> ?R"
    proof (cases "w \<in> set (c @ [v])")
      case True
      then have "?I w \<noteq> None" "w \<notin> set r" "w \<notin> set x" using some [of w] dist x(2) by auto
      then have "w \<in> ?R \<longleftrightarrow> c \<noteq> [] \<or> w \<in> set (E ! w)" using more [OF True] by simp
      moreover have "w \<in> set ?y \<longleftrightarrow> ?on" using True \<open>w \<notin> set x\<close> by auto
      ultimately show ?thesis using True by (cases "c = []") auto
    next
      case False
      then show ?thesis using x(2) by auto
    qed
  qed
  ultimately have "looped E ?u ?y" by (simp add: looped_def S)
  with eq show ?thesis by blast
qed


lemma step_looped:
  assumes inv: "tarjan_inv E t" and wf: "edges_wf E" and loop: "looped E t x"
  shows "\<exists>y. phase_search_step E (t\<lparr>t_on_cycle := x\<rparr>) = (tarjan_step E t)\<lparr>t_on_cycle := y\<rparr> \<and> looped E (tarjan_step E t) y"
proof (cases "t_calls t")
  case Nil
  then show ?thesis using loop by (auto simp: phase_search_step_def tarjan_step_def)
next
  case (Cons p C)
  obtain v e where p: "p = (v, e)" by fastforce
  note calls = Cons [unfolded p]
  note T = call_top [OF inv calls]
  show ?thesis
  proof (cases "e < length (E ! v)")
    case True
    have "looped E (follow_edge E v (E ! v ! e) (t\<lparr>t_calls := (v, e + 1) # C\<rparr>)) x"
      by (rule follow_looped [OF inv loop edge_lt [OF wf T(2) True]])
    then show ?thesis using True by (intro exI [of _ x]) (simp add: phase_search_step_def tarjan_step_def calls follow_on_cycle)
  next
    case False
    define u where "u = (case C of [] \<Rightarrow> t\<lparr>t_calls := C\<rparr> | (q, _) # _ \<Rightarrow> lower q (t_low t ! v) (t\<lparr>t_calls := C\<rparr>))"
    have u: "t_stack u = t_stack t" "index_of u = index_of t" "t_on_cycle u = t_on_cycle t" "t_index u = t_index t"
      by (auto simp: u_def lower_fields lower_def index_of_def fun_eq_iff split: list.splits)
    have step: "tarjan_step E t = (if Some (t_low u ! v) = t_index u ! v then close_component v u else u)"
      using False by (cases C) (simp_all add: tarjan_step_def calls return_node_def Let_def u_def split: prod.split)
    have "(case C of [] \<Rightarrow> t\<lparr>t_on_cycle := x, t_calls := C\<rparr> | (q, _) # _ \<Rightarrow> lower q (t_low t ! v) (t\<lparr>t_on_cycle := x, t_calls := C\<rparr>))
        = u\<lparr>t_on_cycle := x\<rparr>"
      by (cases t) (simp add: u_def lower_def split: list.split)
    then have step': "phase_search_step E (t\<lparr>t_on_cycle := x\<rparr>) =
        (if Some (t_low u ! v) = t_index u ! v then close_phase E v (u\<lparr>t_on_cycle := x\<rparr>) else u\<lparr>t_on_cycle := x\<rparr>)"
      using False by (cases C) (simp_all add: phase_search_step_def calls return_phase_def Let_def split: prod.split)
    show ?thesis
    proof (cases "Some (t_low u ! v) = t_index u ! v")
      case True
      with step have "tarjan_inv E (close_component v u)" using step_inv [OF inv wf] by simp
      from close_looped [OF inv this loop u(1-3) T(1)] True show ?thesis by (simp add: step step')
    next
      case False
      with loop u show ?thesis by (intro exI [of _ x]) (simp add: step step' looped_def)
    qed
  qed
qed

lemma loop_looped:
  assumes "tarjan_inv E t" "edges_wf E" "looped E t x" "tarjan_loop E t = Some t'"
  shows "\<exists>y. phase_search_loop E (t\<lparr>t_on_cycle := x\<rparr>) = Some (t'\<lparr>t_on_cycle := y\<rparr>) \<and> looped E t' y"
  using assms(1,3,4)
proof (induction "search_cost E t" arbitrary: t x rule: less_induct)
  case less
  show ?case
  proof (cases "t_calls t = []")
    case True
    with less.prems show ?thesis by (auto simp: tarjan_loop.simps phase_search_loop.simps)
  next
    case False
    from step_looped [OF less.prems(1) assms(2) less.prems(2)] obtain y where
      y: "phase_search_step E (t\<lparr>t_on_cycle := x\<rparr>) = (tarjan_step E t)\<lparr>t_on_cycle := y\<rparr>" "looped E (tarjan_step E t) y" by blast
    have "tarjan_loop E (tarjan_step E t) = Some t'" using less.prems(3) False by (subst (asm) tarjan_loop.simps) simp
    from less.hyps [OF step_falls(1) [OF less.prems(1) assms(2) False] step_inv [OF less.prems(1) assms(2)] y(2) this]
    show ?thesis using False y(1) by (subst phase_search_loop.simps) simp
  qed
qed

lemma roots_looped:
  assumes "tarjan_inv E t" "edges_wf E" "looped E t x" "t_calls t = []" "\<forall>r \<in> set rs. r < length E"
    "tarjan_roots E rs t = Some t'"
  shows "\<exists>y. phase_search_roots E rs (t\<lparr>t_on_cycle := x\<rparr>) = Some (t'\<lparr>t_on_cycle := y\<rparr>) \<and> looped E t' y"
  using assms(1,3-)
proof (induction rs arbitrary: t x)
  case Nil
  then show ?case by auto
next
  case (Cons r rs)
  show ?case
  proof (cases "t_index t ! r")
    case (Some i)
    with Cons.IH [OF Cons.prems(1-3)] Cons.prems show ?thesis by simp
  next
    case None
    have r: "r < length E" using Cons.prems(4) by simp
    have inv: "tarjan_inv E (open_node r t)" by (rule open_inv [OF Cons.prems(1) r None]) (simp add: Cons.prems(3))
    from loop_ends [OF inv assms(2)] obtain t1 where t1: "tarjan_loop E (open_node r t) = Some t1" "tarjan_inv E t1" "t_calls t1 = []"
      by blast
    have op: "open_node r (t\<lparr>t_on_cycle := x\<rparr>) = (open_node r t)\<lparr>t_on_cycle := x\<rparr>" by (cases t) (simp add: open_node_def)
    have "follow_edge E r r (t\<lparr>t_calls := t_calls t\<rparr>) = open_node r t" using None by (cases t) (simp add: follow_edge_def)
    then have "looped E (open_node r t) x" using follow_looped [OF Cons.prems(1,2) r, of r "t_calls t"] by simp
    from loop_looped [OF inv assms(2) this t1(1)] obtain y where
      y: "phase_search_loop E ((open_node r t)\<lparr>t_on_cycle := x\<rparr>) = Some (t1\<lparr>t_on_cycle := y\<rparr>)" "looped E t1 y" by blast
    have "tarjan_roots E rs t1 = Some t'" using Cons.prems(5) None t1(1) by simp
    from Cons.IH [OF t1(2) y(2) t1(3) _ this] Cons.prems(4) y(1) None show ?thesis by (simp add: op)
  qed
qed

abbreviation edge_rel :: "edges \<Rightarrow> (nat \<times> nat) set" where
  "edge_rel E \<equiv> {(u, v). u < length E \<and> v \<in> set (E ! u)}"

lemma on_loop_iff:
  "(u, u) \<in> (edge_rel E)\<^sup>+ \<longleftrightarrow> u < length E \<and> ((\<exists>w. w \<noteq> u \<and> mutual E u w) \<or> u \<in> set (E ! u))"
proof
  assume "(u, u) \<in> (edge_rel E)\<^sup>+"
  from tranclD [OF this] obtain w where w: "(u, w) \<in> edge_rel E" "(w, u) \<in> (edge_rel E)\<^sup>*" by blast
  then have "mutual E u w" by (auto simp: mutual_def)
  with w show "u < length E \<and> ((\<exists>w. w \<noteq> u \<and> mutual E u w) \<or> u \<in> set (E ! u))" by (cases "w = u") auto
next
  assume "u < length E \<and> ((\<exists>w. w \<noteq> u \<and> mutual E u w) \<or> u \<in> set (E ! u))"
  then show "(u, u) \<in> (edge_rel E)\<^sup>+"
  proof (elim conjE disjE exE)
    fix w assume "w \<noteq> u" "mutual E u w"
    then have "(u, w) \<in> (edge_rel E)\<^sup>+" "(w, u) \<in> (edge_rel E)\<^sup>+" by (auto simp: mutual_def rtrancl_eq_or_trancl)
    then show ?thesis by (rule trancl_trans)
  qed auto
qed

lemma phases_on_cycles_exact:
  assumes "edges_wf (phase_edges phases)"
  shows "\<exists>ps. phases_on_cycles phases = Some ps \<and> sorted ps \<and> distinct ps
    \<and> set ps = {u + 1 | u. (u, u) \<in> (edge_rel (phase_edges phases))\<^sup>+}"
proof -
  let ?E = "phase_edges phases"
  obtain t where t: "tarjan_roots ?E [0..<length ?E] (tarjan_new (length ?E)) = Some t" "tarjan_inv ?E t" "t_calls t = []"
      "\<forall>u < length ?E. index_of t u \<noteq> None"
    using roots_end [OF new_inv assms, of "[0..<length ?E]"] by (auto simp: tarjan_new_def)
  note D = tarjan_invD [OF t(2)]
  have new: "looped ?E (tarjan_new (length ?E)) []" by (simp add: looped_def tarjan_new_def index_of_def)
  have calls: "t_calls (tarjan_new (length ?E)) = []" by (simp add: tarjan_new_def)
  have same: "(tarjan_new (length ?E))\<lparr>t_on_cycle := []\<rparr> = tarjan_new (length ?E)" by (simp add: tarjan_new_def)
  obtain y where y: "phase_search_roots ?E [0..<length ?E] (tarjan_new (length ?E)) = Some (t\<lparr>t_on_cycle := y\<rparr>)" "looped ?E t y"
    using roots_looped [OF new_inv assms new calls _ t(1)] by (auto simp: same)
  have "t_stack t = []" using stackedD(6) [OF D(6)] by (cases "t_stack t") (auto simp: t(3))
  moreover have "index_of t u \<noteq> None \<longleftrightarrow> u < length ?E" for u using t(4) D(1) by (auto simp: index_of_def)
  ultimately have set: "set y = {u. (u, u) \<in> (edge_rel ?E)\<^sup>+}" and dist: "distinct y"
    using y(2) by (auto simp: looped_def on_loop_iff)
  have "phases_on_cycles phases = Some (sort (map (\<lambda>u. u + 1) y))" by (simp add: phases_on_cycles_def Let_def y(1))
  moreover have "distinct (sort (map (\<lambda>u. u + 1) y))" using dist by (simp add: distinct_map)
  moreover have "set (sort (map (\<lambda>u. u + 1) y)) = {u + 1 | u. (u, u) \<in> (edge_rel ?E)\<^sup>+}" using set by auto
  ultimately show ?thesis by auto
qed

section \<open>What an accepted start is\<close>

definition start_ok :: "start_story list \<Rightarrow> start_phase list \<Rightarrow> bool" where
  "start_ok stories phases \<longleftrightarrow>
     distinct (map ss_label stories)
     \<and> (\<forall>p \<in> set phases. distinct (sp_depends_on p) \<and> set (sp_depends_on p) \<subseteq> {1..length phases}
          \<and> distinct (sp_stories p) \<and> (\<forall>s \<in> set (sp_stories p). s < length stories \<and> ss_status (stories ! s) = StoryActive))
     \<and> (\<forall>i < length phases. \<forall>j < length phases. \<forall>s. s \<in> set (sp_stories (phases ! i)) \<longrightarrow> s \<in> set (sp_stories (phases ! j)) \<longrightarrow> i = j)
     \<and> acyclic (edge_rel (phase_edges phases))"

lemma judged_positions_Inr:
  "judged_positions many path seen n entries = Inr ps \<Longrightarrow>
     distinct ps \<and> set ps \<subseteq> {1..many} \<and> set ps \<inter> set seen = {} \<and> map (map_option unat \<circ> as_u64) entries = map Some ps"
proof (induction many path seen n entries arbitrary: ps rule: judged_positions.induct)
  case (2 many path seen n entry entries)
  from "2.prems" obtain p qs where p: "as_u64 entry = Some p" "1 \<le> unat p" "unat p \<le> many" "unat p \<notin> set seen"
    "judged_positions many path (unat p # seen) (n + 1) entries = Inr qs" "ps = unat p # qs"
    by (auto simp: Let_def result_simps split: option.splits if_splits)
  from "2.IH" [OF p(1) refl _ p(5)] p show ?case by auto
qed simp

lemma by_label_bound: "by_label stories t = Some s \<Longrightarrow> s < length stories \<and> ss_label (stories ! s) = t"
  by (auto simp: by_label_def dest!: map_of_SomeD simp: set_zip)

lemma judged_served_Inr:
  "judged_served stories path serving n entries = Inr ss \<Longrightarrow>
     distinct ss \<and> set ss \<inter> set serving = {} \<and> (\<forall>s \<in> set ss. s < length stories \<and> ss_status (stories ! s) = StoryActive)"
proof (induction stories path serving n entries arbitrary: ss rule: judged_served.induct)
  case (2 stories path serving n entry entries)
  from "2.prems" obtain s rest where s: "Option.bind (as_str entry) (by_label stories) = Some s"
    "ss_status (stories ! s) = StoryActive" "s \<notin> set serving"
    "judged_served stories path (s # serving) (n + 1) entries = Inr rest" "ss = s # rest"
    by (auto simp: result_simps split: option.splits if_splits)
  have "s < length stories" using s(1) by (auto simp: bind_eq_Some_conv dest: by_label_bound)
  with "2.IH" [OF s(1) _ s(4)] s show ?case by auto
qed simp

lemma judge_stories_from_Inr:
  "judge_stories_from labels n entries = Inr ss \<Longrightarrow> distinct (map ss_label ss) \<and> set (map ss_label ss) \<inter> set labels = {}"
proof (induction labels n entries arbitrary: ss rule: judge_stories_from.induct)
  case (2 labels n entry entries)
  from "2.prems" obtain s rest where s: "judge_story labels n entry = Inr s"
    "judge_stories_from (ss_label s # labels) (n + 1) entries = Inr rest" "ss = s # rest"
    by (auto simp: result_simps)
  have "ss_label s \<notin> set labels" using s(1) by (auto simp: judge_story_def Let_def result_simps split: if_splits)
  with "2.IH" [OF s(2)] s(3) show ?case by auto
qed simp

lemma judge_phases_from_Inr:
  "judge_phases_from stories many n entries = Inr ps \<Longrightarrow> length ps = length entries
     \<and> (\<forall>p \<in> set ps. distinct (sp_depends_on p) \<and> set (sp_depends_on p) \<subseteq> {1..many}
          \<and> distinct (sp_stories p) \<and> (\<forall>s \<in> set (sp_stories p). s < length stories \<and> ss_status (stories ! s) = StoryActive))"
proof (induction stories many n entries arbitrary: ps rule: judge_phases_from.induct)
  case (2 stories many n entry entries)
  from "2.prems" obtain p rest where p: "judge_phase stories many n entry = Inr p"
    "judge_phases_from stories many (n + 1) entries = Inr rest" "ps = p # rest"
    by (auto simp: result_simps)
  obtain path1 path2 e1 e2 where "judged_positions many path1 [] 0 e1 = Inr (sp_depends_on p)"
    "judged_served stories path2 [] 0 e2 = Inr (sp_stories p)"
    using p(1) by (auto simp: judge_phase_def Let_def result_simps)
  from judged_positions_Inr [OF this(1)] judged_served_Inr [OF this(2)] "2.IH" [OF p(2)] p(3) show ?case by auto
qed simp


lemma set_listed_by: "set (listed_by phases s) = {i + 1 | i. i < length phases \<and> s \<in> set (sp_stories (phases ! i))}"
  by (auto simp: listed_by_def enumerate_eq_zip set_zip image_iff)

lemma double_assigned_Inr:
  assumes "double_assigned stories phases = Inr u"
    and "\<forall>p \<in> set phases. \<forall>s \<in> set (sp_stories p). s < length stories"
    and "i < length phases" "j < length phases" "s \<in> set (sp_stories (phases ! i))" "s \<in> set (sp_stories (phases ! j))"
  shows "i = j"
proof -
  have "s < length stories" using assms(2,3,5) nth_mem by blast
  then have le: "length (listed_by phases s) \<le> 1"
    using assms(1) by (auto simp: double_assigned_def find_None_iff split: option.splits)
  have "i + 1 \<in> set (listed_by phases s)" "j + 1 \<in> set (listed_by phases s)" using assms(3-) by (auto simp: set_listed_by)
  with le show ?thesis by (cases "listed_by phases s") auto
qed

lemma phase_edges_wf:
  assumes "\<forall>p \<in> set phases. set (sp_depends_on p) \<subseteq> {1..length phases}"
  shows "edges_wf (phase_edges phases)"
  using assms by (force simp: edges_wf_def phase_edges_def)

lemma judge_submission_Inr:
  assumes "judge_submission sha v = Some (Inr sub)"
  obtains root entries where "v = JObject root" "judge_stories (map_of root ''stories'') = Inr (sb_stories sub)"
    "judge_roadmap (map_of root ''roadmap'') (sb_stories sub) = Inr (sb_phases sub)"
    "double_assigned (sb_stories sub) (sb_phases sub) = Inr ()" "phases_on_cycles (sb_phases sub) = Some []"
    "sb_value sub = v" "request_digest sha v = Inr (sb_digest sub)" "canonical_json v = Inr (sb_body sub)"
    "judge_description (map_of root ''description'') = Inr (sb_description sub)"
proof -
  from assms obtain root where root: "v = JObject root" by (cases v) (auto simp: judge_submission_def)
  from assms obtain d ss ps digest body where
    "judge_description (map_of root ''description'') = Inr d" "judge_stories (map_of root ''stories'') = Inr ss"
    "judge_roadmap (map_of root ''roadmap'') ss = Inr ps" "double_assigned ss ps = Inr ()" "phases_on_cycles ps = Some []"
    "request_digest sha (JObject root) = Inr digest" "canonical_json (JObject root) = Inr body"
    "sub = \<lparr>sb_description = d, sb_stories = ss, sb_phases = ps, sb_value = JObject root, sb_digest = digest, sb_body = body\<rparr>"
    by (auto simp: root judge_submission_def result_simps bind_eq_Some_conv split: option.splits sum.split_asm if_split_asm)
  with root show ?thesis by (intro that) auto
qed

text \<open>An accepted start has distinct labels, dependencies inside the roadmap, active stories no two
  phases list, and no cycle.\<close>

lemma accepted_start_ok:
  assumes "judge_submission sha v = Some (Inr sub)"
  shows "start_ok (sb_stories sub) (sb_phases sub) \<and> sb_stories sub \<noteq> [] \<and> sb_phases sub \<noteq> []"
proof -
  obtain root where A: "judge_stories (map_of root ''stories'') = Inr (sb_stories sub)"
    "judge_roadmap (map_of root ''roadmap'') (sb_stories sub) = Inr (sb_phases sub)"
    "double_assigned (sb_stories sub) (sb_phases sub) = Inr ()" "phases_on_cycles (sb_phases sub) = Some []"
    by (rule judge_submission_Inr [OF assms])
  from A(1) obtain e1 where e1: "e1 \<noteq> []" "judge_stories_from [] 0 e1 = Inr (sb_stories sub)"
    by (auto simp: judge_stories_def result_simps split: if_splits)
  from A(2) obtain e2 where e2: "e2 \<noteq> []" "judge_phases_from (sb_stories sub) (length e2) 0 e2 = Inr (sb_phases sub)"
    by (auto simp: judge_roadmap_def result_simps split: if_splits)
  note S = judge_stories_from_Inr [OF e1(2)]
  note P = judge_phases_from_Inr [OF e2(2)]
  have wf: "edges_wf (phase_edges (sb_phases sub))" by (rule phase_edges_wf) (use P in auto)
  from phases_on_cycles_exact [OF wf] A(4) have "acyclic (edge_rel (phase_edges (sb_phases sub)))"
    by (auto simp: acyclic_def)
  moreover have "i = j" if "i < length (sb_phases sub)" "j < length (sb_phases sub)"
    "s \<in> set (sp_stories (sb_phases sub ! i))" "s \<in> set (sp_stories (sb_phases sub ! j))" for i j s
    by (rule double_assigned_Inr [OF A(3) _ that]) (use P in blast)
  moreover have "sb_stories sub \<noteq> []" using e1 by (cases e1) (auto simp: result_simps)
  moreover have "sb_phases sub \<noteq> []" using e2 P by auto
  ultimately show ?thesis using S P by (auto simp: start_ok_def)
qed

end
