(* ===== verification/Scope_Change.thy ===== *)
theory Scope_Change
  imports Scope_Submission
begin

text \<open>
  The judgement of a scope change's shape (\<open>baley-core/src/scope/change.rs\<close>): ten kinds of change,
  each judged member by member in its shape's order, with the body its digest is taken over and
  the target its draft is filed under.  An accepted change's numbers are positive and its lists
  repeat none, and it always has a canonical form, so the judgement never panics.
\<close>

datatype change_kind =
    ProjectDescribeKind | PhaseDeclareKind | PhaseEditKind | PhaseReorderKind | PhaseWithdrawKind
  | StoryDeclareKind | StoryEditKind | StoryReassignKind | StoryDropKind | BacklogReorderKind

fun change_kind_str :: "change_kind \<Rightarrow> string" where
  "change_kind_str ProjectDescribeKind = ''project-describe''"
| "change_kind_str PhaseDeclareKind = ''phase-declare''"
| "change_kind_str PhaseEditKind = ''phase-edit''"
| "change_kind_str PhaseReorderKind = ''phase-reorder''"
| "change_kind_str PhaseWithdrawKind = ''phase-withdraw''"
| "change_kind_str StoryDeclareKind = ''story-declare''"
| "change_kind_str StoryEditKind = ''story-edit''"
| "change_kind_str StoryReassignKind = ''story-reassign''"
| "change_kind_str StoryDropKind = ''story-drop''"
| "change_kind_str BacklogReorderKind = ''backlog-reorder''"

definition decision_members :: "string list" where
  "decision_members = [''story'', ''to'']"

fun kind_members :: "change_kind \<Rightarrow> string list" where
  "kind_members ProjectDescribeKind = description_member_names"
| "kind_members PhaseDeclareKind = [''name'', ''goal'', ''detail'', ''depends_on'', ''stories'', ''position'']"
| "kind_members PhaseEditKind = [''phase'', ''name'', ''goal'', ''detail'', ''depends_on'', ''stories'']"
| "kind_members PhaseReorderKind = [''order'']"
| "kind_members BacklogReorderKind = [''order'']"
| "kind_members PhaseWithdrawKind = [''phase'', ''decisions'']"
| "kind_members StoryDeclareKind = [''sentence'', ''status'', ''phase'']"
| "kind_members StoryEditKind = [''story'', ''sentence'']"
| "kind_members StoryReassignKind = [''story'', ''phase'']"
| "kind_members StoryDropKind = [''story'']"

record phase_declaration =
  pd_name :: string
  pd_goal :: string
  pd_detail :: string
  pd_depends_on :: "u32 list"
  pd_stories :: "u32 list"
  pd_position :: "u32 option"

record phase_fields =
  pf_name :: "string option"
  pf_goal :: "string option"
  pf_detail :: "string option"
  pf_depends_on :: "u32 list option"
  pf_stories :: "u32 list option"

definition no_fields :: phase_fields where
  "no_fields = \<lparr>pf_name = None, pf_goal = None, pf_detail = None, pf_depends_on = None, pf_stories = None\<rparr>"

datatype destination = ToPhase u32 | ToDrop

record withdrawal_decision =
  wd_story :: u32
  wd_to :: destination

datatype scope_change =
    ProjectDescribe description
  | PhaseDeclare phase_declaration
  | PhaseEdit u32 phase_fields
  | PhaseReorder "u32 list"
  | PhaseWithdraw u32 "withdrawal_decision list"
  | StoryDeclare string story_status "u32 option"
  | StoryEdit u32 string
  | StoryReassign u32 "u32 option"
  | StoryDrop u32
  | BacklogReorder "u32 list"

fun kind_of_change :: "scope_change \<Rightarrow> change_kind" where
  "kind_of_change (ProjectDescribe _) = ProjectDescribeKind"
| "kind_of_change (PhaseDeclare _) = PhaseDeclareKind"
| "kind_of_change (PhaseEdit _ _) = PhaseEditKind"
| "kind_of_change (PhaseReorder _) = PhaseReorderKind"
| "kind_of_change (PhaseWithdraw _ _) = PhaseWithdrawKind"
| "kind_of_change (StoryDeclare _ _ _) = StoryDeclareKind"
| "kind_of_change (StoryEdit _ _) = StoryEditKind"
| "kind_of_change (StoryReassign _ _) = StoryReassignKind"
| "kind_of_change (StoryDrop _) = StoryDropKind"
| "kind_of_change (BacklogReorder _) = BacklogReorderKind"

record change_submission =
  cs_change :: scope_change
  cs_value :: json
  cs_body :: string
  cs_digest :: hash
  cs_target :: string

section \<open>The members\<close>

definition text_member :: "(string \<times> json) list \<Rightarrow> string \<Rightarrow> string judged" where
  "text_member m name = judged_text (map_of m name) name name"

definition optional_member :: "(string \<times> json) list \<Rightarrow> string \<Rightarrow> (json option \<Rightarrow> 'a judged) \<Rightarrow> 'a option judged" where
  "optional_member m name judge =
     (case map_of m name of None \<Rightarrow> Inr None | v \<Rightarrow> rbind (judge v) (\<lambda>x. Inr (Some x)))"

definition judged_number :: "json option \<Rightarrow> string \<Rightarrow> string \<Rightarrow> u32 judged" where
  "judged_number v part field =
     (case Option.bind v as_u32 of
        Some n \<Rightarrow> if 1 \<le> n then Inr n else Inl (MalformedSubmission part field)
      | None \<Rightarrow> Inl (MalformedSubmission part field))"

definition number_or_null :: "json option \<Rightarrow> string \<Rightarrow> u32 option judged" where
  "number_or_null v name =
     (case v of Some JNull \<Rightarrow> Inr None | _ \<Rightarrow> rbind (judged_number v name name) (\<lambda>n. Inr (Some n)))"

fun distinct_numbers :: "string \<Rightarrow> u32 list \<Rightarrow> nat \<Rightarrow> json list \<Rightarrow> u32 list judged" where
  "distinct_numbers name seen n [] = Inr []"
| "distinct_numbers name seen n (entry # entries) =
     rbind (judged_number (Some entry) name (indexed name n)) (\<lambda>k.
       if k \<in> set seen then Inl (MalformedSubmission name (indexed name n))
       else rbind (distinct_numbers name (k # seen) (n + 1) entries) (\<lambda>ks. Inr (k # ks)))"

definition distinct_member :: "json option \<Rightarrow> string \<Rightarrow> u32 list judged" where
  "distinct_member v name = rbind (judged_list v name name) (distinct_numbers name [] 0)"

fun order_numbers :: "nat \<Rightarrow> json list \<Rightarrow> u32 list judged" where
  "order_numbers n [] = Inr []"
| "order_numbers n (entry # entries) =
     rbind (judged_number (Some entry) ''order'' (indexed ''order'' n)) (\<lambda>k.
     rbind (order_numbers (n + 1) entries) (\<lambda>ks. Inr (k # ks)))"

definition order_member :: "json option \<Rightarrow> u32 list judged" where
  "order_member v =
     rbind (judged_list v ''order'' ''order'') (\<lambda>entries.
       if entries = [] then Inl (MalformedSubmission ''order'' ''order'') else order_numbers 0 entries)"

definition judged_destination :: "json option \<Rightarrow> string \<Rightarrow> destination judged" where
  "judged_destination v path =
     (if v = Some (JString ''drop'') then Inr ToDrop
      else rbind (judged_number v ''decisions'' path) (\<lambda>n. Inr (ToPhase n)))"

fun judged_decisions :: "u32 list \<Rightarrow> nat \<Rightarrow> json list \<Rightarrow> withdrawal_decision list judged" where
  "judged_decisions decided n [] = Inr []"
| "judged_decisions decided n (entry # entries) =
     (let path = indexed ''decisions'' n in
     rbind (judged_object (Some entry) ''decisions'' path decision_members) (\<lambda>m.
     rbind (judged_number (map_of m ''story'') ''decisions'' (path @ ''.story'')) (\<lambda>story.
       if story \<in> set decided then Inl (MalformedSubmission ''decisions'' (path @ ''.story''))
       else rbind (judged_destination (map_of m ''to'') (path @ ''.to'')) (\<lambda>to.
            rbind (judged_decisions (story # decided) (n + 1) entries) (\<lambda>ds.
              Inr (\<lparr>wd_story = story, wd_to = to\<rparr> # ds))))))"

definition decisions_member :: "json option \<Rightarrow> withdrawal_decision list judged" where
  "decisions_member v = rbind (judged_list v ''decisions'' ''decisions'') (judged_decisions [] 0)"


section \<open>The change\<close>

definition judge_edit :: "(string \<times> json) list \<Rightarrow> scope_change judged" where
  "judge_edit m =
     rbind (judged_number (map_of m ''phase'') ''phase'' ''phase'') (\<lambda>phase.
     rbind (optional_member m ''name'' (\<lambda>_. text_member m ''name'')) (\<lambda>name.
     rbind (optional_member m ''goal'' (\<lambda>_. text_member m ''goal'')) (\<lambda>goal.
     rbind (optional_member m ''detail'' (\<lambda>_. text_member m ''detail'')) (\<lambda>detail.
     rbind (optional_member m ''depends_on'' (\<lambda>v. distinct_member v ''depends_on'')) (\<lambda>depends_on.
     rbind (optional_member m ''stories'' (\<lambda>v. distinct_member v ''stories'')) (\<lambda>stories.
       let fields = \<lparr>pf_name = name, pf_goal = goal, pf_detail = detail, pf_depends_on = depends_on, pf_stories = stories\<rparr>
       in if fields = no_fields then Inl (MalformedSubmission ''submission'' ''submission'')
          else Inr (PhaseEdit phase fields)))))))"

definition judge_story_declare :: "(string \<times> json) list \<Rightarrow> scope_change judged" where
  "judge_story_declare m =
     rbind (text_member m ''sentence'') (\<lambda>sentence.
     rbind (judged_status (map_of m ''status'') ''status'' ''status'') (\<lambda>status.
     rbind (number_or_null (map_of m ''phase'') ''phase'') (\<lambda>phase.
       if phase \<noteq> None \<and> status \<noteq> StoryActive then Inl (MalformedSubmission ''phase'' ''phase'')
       else Inr (StoryDeclare sentence status phase))))"

fun change_members :: "change_kind \<Rightarrow> (string \<times> json) list \<Rightarrow> scope_change judged" where
  "change_members ProjectDescribeKind m = rbind (description_members m None) (\<lambda>d. Inr (ProjectDescribe d))"
| "change_members PhaseDeclareKind m =
     rbind (text_member m ''name'') (\<lambda>name.
     rbind (text_member m ''goal'') (\<lambda>goal.
     rbind (text_member m ''detail'') (\<lambda>detail.
     rbind (distinct_member (map_of m ''depends_on'') ''depends_on'') (\<lambda>depends_on.
     rbind (distinct_member (map_of m ''stories'') ''stories'') (\<lambda>stories.
     rbind (optional_member m ''position'' (\<lambda>v. judged_number v ''position'' ''position'')) (\<lambda>position.
       Inr (PhaseDeclare \<lparr>pd_name = name, pd_goal = goal, pd_detail = detail, pd_depends_on = depends_on,
         pd_stories = stories, pd_position = position\<rparr>)))))))"
| "change_members PhaseEditKind m = judge_edit m"
| "change_members PhaseReorderKind m = rbind (order_member (map_of m ''order'')) (\<lambda>ns. Inr (PhaseReorder ns))"
| "change_members BacklogReorderKind m = rbind (order_member (map_of m ''order'')) (\<lambda>ns. Inr (BacklogReorder ns))"
| "change_members PhaseWithdrawKind m =
     rbind (judged_number (map_of m ''phase'') ''phase'' ''phase'') (\<lambda>phase.
     rbind (decisions_member (map_of m ''decisions'')) (\<lambda>decisions. Inr (PhaseWithdraw phase decisions)))"
| "change_members StoryDeclareKind m = judge_story_declare m"
| "change_members StoryEditKind m =
     rbind (judged_number (map_of m ''story'') ''story'' ''story'') (\<lambda>story.
     rbind (text_member m ''sentence'') (\<lambda>sentence. Inr (StoryEdit story sentence)))"
| "change_members StoryReassignKind m =
     rbind (judged_number (map_of m ''story'') ''story'' ''story'') (\<lambda>story.
     rbind (number_or_null (map_of m ''phase'') ''phase'') (\<lambda>phase. Inr (StoryReassign story phase)))"
| "change_members StoryDropKind m =
     rbind (judged_number (map_of m ''story'') ''story'' ''story'') (\<lambda>story. Inr (StoryDrop story))"

fun change_target :: "scope_change \<Rightarrow> hash \<Rightarrow> string" where
  "change_target (PhaseEdit phase _) digest = dec (unat phase)"
| "change_target (PhaseWithdraw phase _) digest = dec (unat phase)"
| "change_target (StoryEdit story _) digest = dec (unat story)"
| "change_target (StoryReassign story _) digest = dec (unat story)"
| "change_target (StoryDrop story) digest = dec (unat story)"
| "change_target (PhaseReorder _) digest = ''order''"
| "change_target (BacklogReorder _) digest = ''order''"
| "change_target (ProjectDescribe _) digest = ''description''"
| "change_target (PhaseDeclare _) digest = to_hex digest"
| "change_target (StoryDeclare _ _ _) digest = to_hex digest"

definition judge_change :: "(string \<Rightarrow> string) \<Rightarrow> change_kind \<Rightarrow> json \<Rightarrow> change_submission judged option" where
  "judge_change sha kind v =
     (case v of
        JObject m \<Rightarrow>
          (case unknown_member m (kind_members kind) of
             Some unknown \<Rightarrow> Some (Inl (MalformedSubmission unknown unknown))
           | None \<Rightarrow>
               (case change_members kind m of
                  Inl refusal \<Rightarrow> Some (Inl refusal)
                | Inr change \<Rightarrow>
                    (let body = JObject (ains ''kind'' (JString (change_kind_str kind)) m) in
                     case (request_digest sha body, canonical_json body) of
                       (Inr digest, Inr bytes) \<Rightarrow>
                         Some (Inr \<lparr>cs_change = change, cs_value = body, cs_body = bytes, cs_digest = digest,
                           cs_target = change_target change digest\<rparr>)
                     | _ \<Rightarrow> None)))
      | _ \<Rightarrow> Some (Inl (MalformedSubmission ''submission'' ''submission'')))"

end
