(* ===== verification/Scope_Rules.thy ===== *)
theory Scope_Rules
  imports Scope_Change
begin

text \<open>
  The judgement of a change against accepted scope (\<open>baley-core/src/scope/rules.rs\<close>): the scope
  the \<open>roadmap\<close> document holds, each kind's rules in their fixed order, what has happened in each
  phase, and the search for the dependency cycles an edit would close.  A Rust \<open>BTreeMap\<close> from
  phases to dependencies is an ordered association list, the \<open>Vec\<close> used as a stack a list with
  its top first, and the search a partial function, so that it ends is a theorem: it returns
  exactly the phases on a cycle.
\<close>

record phase_progress =
  pg_undo :: "string option"
  pg_complete :: bool

definition no_progress :: phase_progress where
  "no_progress = \<lparr>pg_undo = None, pg_complete = False\<rparr>"

datatype held_status = HeldActive | HeldDeferred | HeldExcluded | HeldDropped

definition held_status_parse :: "string \<Rightarrow> held_status option" where
  "held_status_parse t =
     (if t = ''active'' then Some HeldActive
      else if t = ''deferred'' then Some HeldDeferred
      else if t = ''excluded'' then Some HeldExcluded
      else if t = ''dropped'' then Some HeldDropped
      else None)"

fun stated :: "held_status \<Rightarrow> story_status option" where
  "stated HeldActive = Some StoryActive"
| "stated HeldDeferred = Some StoryDeferred"
| "stated HeldExcluded = Some StoryExcluded"
| "stated HeldDropped = None"

fun held_status_str :: "held_status \<Rightarrow> string" where
  "held_status_str HeldActive = ''active''"
| "held_status_str HeldDeferred = ''deferred''"
| "held_status_str HeldExcluded = ''excluded''"
| "held_status_str HeldDropped = ''dropped''"

record held_phase =
  hp_number :: u32
  hp_name :: string
  hp_goal :: string
  hp_depends_on :: "u32 list"
  hp_stories :: "u32 list"
  hp_withdrawn :: bool

record held_story =
  hs_id :: u32
  hs_status :: held_status
  hs_phase :: "u32 option"

record accepted_scope =
  sc_phases :: "held_phase list"
  sc_order :: "u32 list"
  sc_stories :: "held_story list"
  sc_highest_phase :: u32
  sc_highest_story :: u32

definition empty_scope :: accepted_scope where
  "empty_scope = \<lparr>sc_phases = [], sc_order = [], sc_stories = [], sc_highest_phase = 0, sc_highest_story = 0\<rparr>"

section \<open>Reading the document\<close>

definition entries_of :: "(string \<times> json) list \<Rightarrow> string \<Rightarrow> json list option" where
  "entries_of m name = Option.bind (map_of m name) as_array"

definition whole :: "json option \<Rightarrow> u32 option" where
  "whole v = Option.bind v as_u32"

definition wholes :: "json option \<Rightarrow> u32 list option" where
  "wholes v = Option.bind (Option.bind v as_array) (\<lambda>xs. those (map as_u32 xs))"

definition withdrawn_from :: "string \<Rightarrow> bool option" where
  "withdrawn_from t = (if t = ''declared'' then Some False else if t = ''withdrawn'' then Some True else None)"

definition held_phase_from :: "json \<Rightarrow> held_phase option" where
  "held_phase_from v = do {
     m \<leftarrow> as_object v;
     number \<leftarrow> whole (map_of m ''number'');
     name \<leftarrow> Option.bind (map_of m ''name'') as_str;
     goal \<leftarrow> Option.bind (map_of m ''goal'') as_str;
     depends_on \<leftarrow> wholes (map_of m ''depends_on'');
     stories \<leftarrow> wholes (map_of m ''stories'');
     withdrawn \<leftarrow> Option.bind (Option.bind (map_of m ''status'') as_str) withdrawn_from;
     Some \<lparr>hp_number = number, hp_name = name, hp_goal = goal, hp_depends_on = depends_on, hp_stories = stories,
       hp_withdrawn = withdrawn\<rparr> }"

definition phase_or_none :: "json option \<Rightarrow> u32 option option" where
  "phase_or_none v = (case v of None \<Rightarrow> None | Some JNull \<Rightarrow> Some None | Some phase \<Rightarrow> map_option Some (as_u32 phase))"

definition held_story_from :: "json \<Rightarrow> held_story option" where
  "held_story_from v = do {
     m \<leftarrow> as_object v;
     i \<leftarrow> whole (map_of m ''id'');
     status \<leftarrow> Option.bind (Option.bind (map_of m ''status'') as_str) held_status_parse;
     phase \<leftarrow> phase_or_none (map_of m ''phase'');
     Some \<lparr>hs_id = i, hs_status = status, hs_phase = phase\<rparr> }"

definition read_scope :: "json option \<Rightarrow> accepted_scope option" where
  "read_scope document =
     (case document of
        None \<Rightarrow> Some empty_scope
      | Some v \<Rightarrow> do {
          m \<leftarrow> as_object v;
          ps \<leftarrow> entries_of m ''phases'';
          phases \<leftarrow> those (map held_phase_from ps);
          ss \<leftarrow> entries_of m ''stories'';
          stories \<leftarrow> those (map held_story_from ss);
          order \<leftarrow> wholes (map_of m ''order'');
          highest_phase \<leftarrow> whole (map_of m ''highest_phase'');
          highest_story \<leftarrow> whole (map_of m ''highest_story'');
          Some \<lparr>sc_phases = phases, sc_order = order, sc_stories = stories, sc_highest_phase = highest_phase,
            sc_highest_story = highest_story\<rparr> })"

definition phase_of :: "accepted_scope \<Rightarrow> u32 \<Rightarrow> held_phase option" where
  "phase_of s n = find (\<lambda>p. hp_number p = n) (sc_phases s)"

definition declared :: "accepted_scope \<Rightarrow> u32 \<Rightarrow> held_phase option" where
  "declared s n = (case phase_of s n of Some p \<Rightarrow> if hp_withdrawn p then None else Some p | None \<Rightarrow> None)"

definition declared_phases :: "accepted_scope \<Rightarrow> held_phase list" where
  "declared_phases s = filter (\<lambda>p. \<not> hp_withdrawn p) (sc_phases s)"

definition story_of :: "accepted_scope \<Rightarrow> u32 \<Rightarrow> held_story option" where
  "story_of s i = find (\<lambda>h. hs_id h = i) (sc_stories s)"

section \<open>Refusals\<close>

datatype scope_refusal =
    ProjectNotStarted
  | NoSuchPhase u32
  | NoSuchStory u32
  | ScopeMalformed string string
  | ScopeDoubleAssigned u32 u32
  | ScopeDependencyCycle "u32 list"
  | DependencyOrder u32 u32
  | OrderIncomplete "u32 list"
  | StoryUndecided u32
  | PhaseHasDependents "u32 list"
  | StoryNotServed u32 string
  | ExecutionPresent u32 string
  | PhaseComplete u32
  | StoryShipped u32 u32

fun scope_refusal_code :: "scope_refusal \<Rightarrow> string" where
  "scope_refusal_code ProjectNotStarted = ''project-not-started''"
| "scope_refusal_code (NoSuchPhase _) = ''no-such-phase''"
| "scope_refusal_code (NoSuchStory _) = ''no-such-story''"
| "scope_refusal_code (ScopeMalformed _ _) = ''malformed-submission''"
| "scope_refusal_code (ScopeDoubleAssigned _ _) = ''story-double-assigned''"
| "scope_refusal_code (ScopeDependencyCycle _) = ''dependency-cycle''"
| "scope_refusal_code (DependencyOrder _ _) = ''dependency-order''"
| "scope_refusal_code (OrderIncomplete _) = ''order-incomplete''"
| "scope_refusal_code (StoryUndecided _) = ''story-undecided''"
| "scope_refusal_code (PhaseHasDependents _) = ''phase-has-dependents''"
| "scope_refusal_code (StoryNotServed _ _) = ''story-not-served''"
| "scope_refusal_code (ExecutionPresent _ _) = ''execution-present''"
| "scope_refusal_code (PhaseComplete _) = ''phase-complete''"
| "scope_refusal_code (StoryShipped _ _) = ''story-shipped''"

type_synonym scope_judged = "scope_refusal + unit"

text \<open>Refuse the first of a list that fails.\<close>

definition refuse_first :: "('a \<Rightarrow> scope_refusal) \<Rightarrow> ('a \<Rightarrow> bool) \<Rightarrow> 'a list \<Rightarrow> scope_judged" where
  "refuse_first refusal bad xs = (case find bad xs of Some x \<Rightarrow> Inl (refusal x) | None \<Rightarrow> Inr ())"

section \<open>The order\<close>

fun position_where :: "('a \<Rightarrow> bool) \<Rightarrow> 'a list \<Rightarrow> nat option" where
  "position_where P [] = None"
| "position_where P (x # xs) = (if P x then Some 0 else map_option Suc (position_where P xs))"

definition place_in :: "u32 list \<Rightarrow> u32 \<Rightarrow> nat option" where
  "place_in order n = position_where (\<lambda>x. x = n) order"

definition after_place :: "u32 list \<Rightarrow> nat \<Rightarrow> u32 \<Rightarrow> bool" where
  "after_place order k d = (case place_in order d of Some j \<Rightarrow> k < j | None \<Rightarrow> False)"

definition placed_after :: "u32 list \<Rightarrow> u32 \<Rightarrow> u32 list \<Rightarrow> scope_judged" where
  "placed_after order phase depends_on =
     (case place_in order phase of
        None \<Rightarrow> Inr ()
      | Some k \<Rightarrow> refuse_first (DependencyOrder phase) (after_place order k) depends_on)"

section \<open>The cycle search\<close>

type_synonym edge_map = "(u32 \<times> u32 list) list"

definition edges_from :: "edge_map \<Rightarrow> u32 \<Rightarrow> u32 list" where
  "edges_from E n = (case map_of E n of None \<Rightarrow> [] | Some ds \<Rightarrow> ds)"

definition push_edge :: "u32 \<Rightarrow> edge_map \<Rightarrow> u32 \<Rightarrow> edge_map" where
  "push_edge phase R d = ains d (edges_from R d @ [phase]) R"

definition reverse_edges :: "edge_map \<Rightarrow> edge_map" where
  "reverse_edges E = foldl (\<lambda>R (phase, ds). foldl (push_edge phase) R ds) [] E"

definition scope_edges :: "accepted_scope \<Rightarrow> u32 \<Rightarrow> u32 list \<Rightarrow> edge_map" where
  "scope_edges s edited depends_on =
     ains edited depends_on (foldl (\<lambda>E p. ains (hp_number p) (hp_depends_on p) E) [] (declared_phases s))"

partial_function (option) reach_loop :: "edge_map \<Rightarrow> u32 list \<Rightarrow> u32 list \<Rightarrow> u32 list option" where
  "reach_loop E seen pending =
     (case pending of
        [] \<Rightarrow> Some seen
      | phase # rest \<Rightarrow>
          if phase \<in> set seen then reach_loop E seen rest
          else reach_loop E (phase # seen) (rev (edges_from E phase) @ rest))"

definition reach_from :: "u32 \<Rightarrow> edge_map \<Rightarrow> u32 list option" where
  "reach_from start E = reach_loop E [] (rev (edges_from E start))"

definition on_cycle_with :: "accepted_scope \<Rightarrow> u32 \<Rightarrow> u32 list \<Rightarrow> u32 list option" where
  "on_cycle_with s edited depends_on =
     (let E = scope_edges s edited depends_on in
      Option.bind (reach_from edited E) (\<lambda>reached.
      Option.bind (reach_from edited (reverse_edges E)) (\<lambda>reaching.
        Some (sort (filter (\<lambda>p. p \<in> set reaching) reached)))))"

section \<open>Progress\<close>

fun given_to :: "scope_change \<Rightarrow> (u32 \<Rightarrow> bool) \<Rightarrow> u32 option" where
  "given_to (PhaseWithdraw _ decisions) complete =
     find complete (List.map_filter (\<lambda>d. case wd_to d of ToPhase to \<Rightarrow> Some to | ToDrop \<Rightarrow> None) decisions)"
| "given_to (StoryReassign _ phase) complete = (case phase of Some to \<Rightarrow> if complete to then Some to else None | None \<Rightarrow> None)"
| "given_to (StoryDeclare _ _ phase) complete = (case phase of Some to \<Rightarrow> if complete to then Some to else None | None \<Rightarrow> None)"
| "given_to _ complete = None"

definition shipped :: "accepted_scope \<Rightarrow> (u32 \<Rightarrow> bool) \<Rightarrow> u32 \<Rightarrow> scope_judged" where
  "shipped s complete story =
     (case Option.bind (story_of s story) hs_phase of
        Some phase \<Rightarrow> if complete phase then Inl (StoryShipped story phase) else Inr ()
      | None \<Rightarrow> Inr ())"

fun progress_of_named :: "scope_change \<Rightarrow> accepted_scope \<Rightarrow> (u32 \<Rightarrow> phase_progress) \<Rightarrow> scope_judged" where
  "progress_of_named (PhaseWithdraw phase _) s of_phase =
     (if pg_complete (of_phase phase) then Inl (PhaseComplete phase)
      else case pg_undo (of_phase phase) of Some undo \<Rightarrow> Inl (ExecutionPresent phase undo) | None \<Rightarrow> Inr ())"
| "progress_of_named (PhaseEdit phase fs) s of_phase =
     (let changes_stories = (case pf_stories fs of
            None \<Rightarrow> False
          | Some stories \<Rightarrow> (case phase_of s phase of None \<Rightarrow> True | Some held \<Rightarrow> hp_stories held \<noteq> stories))
      in if changes_stories \<and> pg_complete (of_phase phase) then Inl (PhaseComplete phase) else Inr ())"
| "progress_of_named (StoryReassign story _) s of_phase = shipped s (pg_complete \<circ> of_phase) story"
| "progress_of_named (StoryDrop story) s of_phase = shipped s (pg_complete \<circ> of_phase) story"
| "progress_of_named _ s of_phase = Inr ()"

definition judge_progress :: "scope_change \<Rightarrow> accepted_scope \<Rightarrow> (u32 \<rightharpoonup> phase_progress) \<Rightarrow> scope_judged" where
  "judge_progress c s progress =
     (let of_phase = (\<lambda>p. case progress p of None \<Rightarrow> no_progress | Some g \<Rightarrow> g) in
      rbind (progress_of_named c s of_phase) (\<lambda>_.
        case given_to c (pg_complete \<circ> of_phase) of Some phase \<Rightarrow> Inl (PhaseComplete phase) | None \<Rightarrow> Inr ()))"

section \<open>The rules of each kind\<close>

definition served :: "accepted_scope \<Rightarrow> u32 \<Rightarrow> scope_judged" where
  "served s i =
     (case story_of s i of
        None \<Rightarrow> Inl (NoSuchStory i)
      | Some h \<Rightarrow>
          if hs_status h = HeldDropped \<or> hs_status h = HeldExcluded then Inl (StoryNotServed i (held_status_str (hs_status h)))
          else Inr ())"

definition is_declared :: "accepted_scope \<Rightarrow> u32 \<Rightarrow> bool" where
  "is_declared s n \<longleftrightarrow> declared s n \<noteq> None"

definition backlog_held :: "held_story \<Rightarrow> bool" where
  "backlog_held h \<longleftrightarrow> hs_status h = HeldActive \<or> hs_status h = HeldDeferred"

definition judge_backlog_order :: "u32 list \<Rightarrow> accepted_scope \<Rightarrow> scope_judged" where
  "judge_backlog_order order s =
     rbind (refuse_first NoSuchStory (\<lambda>i. story_of s i = None) order) (\<lambda>_.
       let ordered = remdups (map hs_id (filter backlog_held (sc_stories s)))
       in if set order \<noteq> set ordered \<or> length order \<noteq> length ordered then Inl (OrderIncomplete (sort ordered)) else Inr ())"

definition other_server :: "accepted_scope \<Rightarrow> u32 option \<Rightarrow> u32 \<Rightarrow> held_phase option" where
  "other_server s edited story =
     find (\<lambda>p. Some (hp_number p) \<noteq> edited \<and> story \<in> set (hp_stories p)) (declared_phases s)"

fun double_served :: "accepted_scope \<Rightarrow> u32 option \<Rightarrow> u32 list \<Rightarrow> scope_judged" where
  "double_served s edited [] = Inr ()"
| "double_served s edited (story # stories) =
     (case other_server s edited story of
        Some other \<Rightarrow> Inl (ScopeDoubleAssigned story (hp_number other))
      | None \<Rightarrow> double_served s edited stories)"

definition not_active :: "accepted_scope \<Rightarrow> u32 \<Rightarrow> bool" where
  "not_active s i = (case story_of s i of Some h \<Rightarrow> hs_status h \<noteq> HeldActive | None \<Rightarrow> False)"

definition judge_members :: "accepted_scope \<Rightarrow> u32 list \<Rightarrow> u32 list \<Rightarrow> u32 option \<Rightarrow> scope_judged" where
  "judge_members s depends_on stories edited =
     rbind (refuse_first NoSuchPhase (\<lambda>n. \<not> is_declared s n) depends_on) (\<lambda>_.
     rbind (refuse_first NoSuchStory (\<lambda>i. story_of s i = None) stories) (\<lambda>_.
     rbind (case position_where (not_active s) stories of
              Some k \<Rightarrow> Inl (ScopeMalformed ''stories'' (indexed ''stories'' k))
            | None \<Rightarrow> Inr ()) (\<lambda>_.
       double_served s edited stories)))"

definition insert_at :: "nat \<Rightarrow> 'a \<Rightarrow> 'a list \<Rightarrow> 'a list" where
  "insert_at k x xs = take k xs @ x # drop k xs"

text \<open>
  A position counts from 1: the code's \<open>at - 1\<close> on \<open>usize\<close> panics for the position 0, which is None here.
\<close>

definition judge_declaration :: "phase_declaration \<Rightarrow> accepted_scope \<Rightarrow> scope_judged option" where
  "judge_declaration d s =
     (case rbind (judge_members s (pd_depends_on d) (pd_stories d) None) (\<lambda>_.
             let last = length (sc_order s) + 1
             in case pd_position d of
                  None \<Rightarrow> Inr last
                | Some p \<Rightarrow> if unat p \<le> last then Inr (unat p) else Inl (ScopeMalformed ''position'' ''position'')) of
        Inl refusal \<Rightarrow> Some (Inl refusal)
      | Inr k \<Rightarrow>
          if sc_highest_phase s = - 1 then Some (Inr ())
          else let number = sc_highest_phase s + 1
               in if k = 0 then None
                  else Some (placed_after (insert_at (k - 1) number (sc_order s)) number (pd_depends_on d)))"

definition undecided :: "withdrawal_decision list \<Rightarrow> u32 \<Rightarrow> bool" where
  "undecided decisions story \<longleftrightarrow> \<not> list_ex (\<lambda>d. wd_story d = story) decisions"

fun lost_destination :: "accepted_scope \<Rightarrow> u32 \<Rightarrow> withdrawal_decision \<Rightarrow> u32 option" where
  "lost_destination s phase d =
     (case wd_to d of
        ToPhase to \<Rightarrow> if to = phase \<or> \<not> is_declared s to then Some to else None
      | ToDrop \<Rightarrow> None)"

definition judge_withdrawal :: "held_phase \<Rightarrow> withdrawal_decision list \<Rightarrow> accepted_scope \<Rightarrow> scope_judged" where
  "judge_withdrawal withdrawn decisions s =
     (let phase = hp_number withdrawn;
          dependents = remdups (map hp_number (filter (\<lambda>h. hp_number h \<noteq> phase \<and> phase \<in> set (hp_depends_on h)) (declared_phases s)))
      in if dependents \<noteq> [] then Inl (PhaseHasDependents (sort dependents))
         else rbind (refuse_first StoryUndecided (undecided decisions) (hp_stories withdrawn)) (\<lambda>_.
              rbind (refuse_first (\<lambda>d. NoSuchStory (wd_story d)) (\<lambda>d. wd_story d \<notin> set (hp_stories withdrawn)) decisions) (\<lambda>_.
                case List.map_filter (lost_destination s phase) decisions of
                  to # _ \<Rightarrow> Inl (NoSuchPhase to)
                | [] \<Rightarrow> Inr ())))"

fun order_respected :: "accepted_scope \<Rightarrow> u32 list \<Rightarrow> u32 list \<Rightarrow> scope_judged" where
  "order_respected s order [] = Inr ()"
| "order_respected s order (phase # phases) =
     rbind (case declared s phase of Some held \<Rightarrow> placed_after order phase (hp_depends_on held) | None \<Rightarrow> Inr ()) (\<lambda>_.
       order_respected s order phases)"

definition judge_reorder :: "u32 list \<Rightarrow> accepted_scope \<Rightarrow> scope_judged" where
  "judge_reorder order s =
     rbind (refuse_first NoSuchPhase (\<lambda>n. \<not> is_declared s n) order) (\<lambda>_.
       let numbers = remdups (map hp_number (declared_phases s))
       in if length (remdups order) \<noteq> length order \<or> length order \<noteq> length numbers
          then Inl (OrderIncomplete (sort numbers))
          else order_respected s order order)"

definition judge_phase_edit :: "scope_change \<Rightarrow> u32 \<Rightarrow> phase_fields \<Rightarrow> accepted_scope \<Rightarrow> (u32 \<rightharpoonup> phase_progress) \<Rightarrow> scope_judged option" where
  "judge_phase_edit c phase fs s progress =
     (if \<not> is_declared s phase then Some (Inl (NoSuchPhase phase))
      else case rbind (judge_progress c s progress) (\<lambda>_.
             judge_members s (case pf_depends_on fs of None \<Rightarrow> [] | Some ds \<Rightarrow> ds)
               (case pf_stories fs of None \<Rightarrow> [] | Some ss \<Rightarrow> ss) (Some phase)) of
        Inl refusal \<Rightarrow> Some (Inl refusal)
      | Inr _ \<Rightarrow>
          (case pf_depends_on fs of
             None \<Rightarrow> Some (Inr ())
           | Some ds \<Rightarrow>
               Option.bind (on_cycle_with s phase ds) (\<lambda>phases.
                 Some (if phases \<noteq> [] then Inl (ScopeDependencyCycle phases) else placed_after (sc_order s) phase ds))))"

fun judge_kind :: "scope_change \<Rightarrow> accepted_scope \<Rightarrow> (u32 \<rightharpoonup> phase_progress) \<Rightarrow> scope_judged option" where
  "judge_kind (PhaseDeclare d) s progress = judge_declaration d s"
| "judge_kind (PhaseEdit phase fs) s progress = judge_phase_edit (PhaseEdit phase fs) phase fs s progress"
| "judge_kind (PhaseReorder order) s progress = Some (judge_reorder order s)"
| "judge_kind (PhaseWithdraw phase decisions) s progress =
     Some (case declared s phase of
             None \<Rightarrow> Inl (NoSuchPhase phase)
           | Some held \<Rightarrow> rbind (judge_progress (PhaseWithdraw phase decisions) s progress) (\<lambda>_. judge_withdrawal held decisions s))"
| "judge_kind (StoryDeclare sentence status phase) s progress =
     Some (case phase of
             Some p \<Rightarrow> if \<not> is_declared s p then Inl (NoSuchPhase p) else judge_progress (StoryDeclare sentence status phase) s progress
           | None \<Rightarrow> judge_progress (StoryDeclare sentence status phase) s progress)"
| "judge_kind (StoryEdit story _) s progress = Some (served s story)"
| "judge_kind (StoryReassign story phase) s progress =
     Some (rbind (served s story) (\<lambda>_. rbind (judge_progress (StoryReassign story phase) s progress) (\<lambda>_.
       case phase of Some p \<Rightarrow> if \<not> is_declared s p then Inl (NoSuchPhase p) else Inr () | None \<Rightarrow> Inr ())))"
| "judge_kind (StoryDrop story) s progress =
     Some (rbind (served s story) (\<lambda>_. judge_progress (StoryDrop story) s progress))"
| "judge_kind (BacklogReorder order) s progress = Some (judge_backlog_order order s)"
| "judge_kind (ProjectDescribe _) s progress = Some (Inr ())"

definition judge_scope_change :: "scope_change \<Rightarrow> accepted_scope \<Rightarrow> bool \<Rightarrow> (u32 \<rightharpoonup> phase_progress) \<Rightarrow> scope_judged option" where
  "judge_scope_change c s started progress =
     (if \<not> started then Some (Inl ProjectNotStarted) else judge_kind c s progress)"

end
