(* ===== verification/Scope_Cycle.thy ===== *)
theory Scope_Cycle
  imports Scope_Rules
begin

text \<open>
  The cycle search of \<open>baley-core/src/scope/rules.rs\<close> finds what it claims: the worklist always
  ends, with exactly the phases a nonempty path of dependencies leads to, over the edges and over
  the edges reversed.
\<close>

definition edge_set :: "edge_map \<Rightarrow> (u32 \<times> u32) set" where
  "edge_set E = {(u, v). v \<in> set (edges_from E u)}"

definition edge_nodes :: "edge_map \<Rightarrow> u32 set" where
  "edge_nodes E = (\<Union>p \<in> set E. set (snd p))"

lemma edges_from_nodes: "set (edges_from E u) \<subseteq> edge_nodes E"
proof (cases "map_of E u")
  case (Some ds)
  then have "(u, ds) \<in> set E" by (rule map_of_SomeD)
  with Some show ?thesis by (force simp: edges_from_def edge_nodes_def)
qed (simp add: edges_from_def)

lemma edge_set_iff: "(u, v) \<in> edge_set E \<longleftrightarrow> (\<exists>ds. map_of E u = Some ds \<and> v \<in> set ds)"
  by (cases "map_of E u") (simp_all add: edge_set_def edges_from_def)

lemma reach_loop_ends:
  assumes "set pending \<subseteq> edge_nodes E" "distinct seen" "\<forall>u \<in> set seen. edge_set E `` {u} \<subseteq> set seen \<union> set pending"
  shows "\<exists>r. reach_loop E seen pending = Some r \<and> distinct r \<and> set seen \<union> set pending \<subseteq> set r
    \<and> edge_set E `` set r \<subseteq> set r \<and> set r \<subseteq> set seen \<union> (edge_set E)\<^sup>* `` set pending"
  using assms
proof (induction "card (edge_nodes E - set seen)" arbitrary: seen pending rule: less_induct)
  case less
  note outer = less.hyps
  show ?case using less.prems
  proof (induction pending)
    case Nil
    then show ?case by (subst reach_loop.simps) auto
  next
    case (Cons x xs)
    show ?case
    proof (cases "x \<in> set seen")
      case True
      with Cons.IH Cons.prems obtain r where "reach_loop E seen xs = Some r" "distinct r" "set seen \<union> set xs \<subseteq> set r"
        "edge_set E `` set r \<subseteq> set r" "set r \<subseteq> set seen \<union> (edge_set E)\<^sup>* `` set xs" by (auto simp: insert_absorb)
      with True show ?thesis by (subst reach_loop.simps) auto
    next
      case False
      let ?p = "rev (edges_from E x) @ xs"
      have fin: "finite (edge_nodes E)" by (simp add: edge_nodes_def)
      have "x \<in> edge_nodes E - set seen" using Cons.prems(1) False by simp
      then have "card (edge_nodes E - set (x # seen)) < card (edge_nodes E - set seen)"
        using fin by (intro psubset_card_mono) auto
      moreover have "set ?p \<subseteq> edge_nodes E" using Cons.prems(1) edges_from_nodes [of E x] by auto
      moreover have "distinct (x # seen)" using Cons.prems(2) False by simp
      moreover have "\<forall>u \<in> set (x # seen). edge_set E `` {u} \<subseteq> set (x # seen) \<union> set ?p"
        using Cons.prems(3) by (auto simp: edge_set_def)
      ultimately obtain r where r: "reach_loop E (x # seen) ?p = Some r" "distinct r" "set (x # seen) \<union> set ?p \<subseteq> set r"
        "edge_set E `` set r \<subseteq> set r" "set r \<subseteq> set (x # seen) \<union> (edge_set E)\<^sup>* `` set ?p"
        using outer by blast
      have "(edge_set E)\<^sup>* `` set ?p \<subseteq> (edge_set E)\<^sup>* `` set (x # xs)"
        by (auto simp: edge_set_def intro: converse_rtrancl_into_rtrancl)
      moreover have "x \<in> (edge_set E)\<^sup>* `` set (x # xs)" by auto
      ultimately have "set r \<subseteq> set seen \<union> (edge_set E)\<^sup>* `` set (x # xs)"
        using r(5) unfolding list.set(2) [of x seen] by blast
      then show ?thesis using r False by (subst reach_loop.simps) auto
    qed
  qed
qed

lemma reach_from_exact: "\<exists>r. reach_from n E = Some r \<and> distinct r \<and> set r = {y. (n, y) \<in> (edge_set E)\<^sup>+}"
proof -
  let ?p = "rev (edges_from E n)"
  from reach_loop_ends [of ?p E "[]"] edges_from_nodes [of E n] obtain r where
    r: "reach_loop E [] ?p = Some r" "distinct r" "set ?p \<subseteq> set r" "edge_set E `` set r \<subseteq> set r"
      "set r \<subseteq> (edge_set E)\<^sup>* `` set ?p" by auto
  have "set r = {y. (n, y) \<in> (edge_set E)\<^sup>+}"
  proof (rule set_eqI, rule iffI)
    fix y assume "y \<in> set r"
    with r(5) obtain x where "(n, x) \<in> edge_set E" "(x, y) \<in> (edge_set E)\<^sup>*" by (auto simp: edge_set_def)
    then show "y \<in> {y. (n, y) \<in> (edge_set E)\<^sup>+}" by simp
  next
    fix y assume "y \<in> {y. (n, y) \<in> (edge_set E)\<^sup>+}"
    then have "(n, y) \<in> (edge_set E)\<^sup>+" by simp
    then show "y \<in> set r"
      by (induction rule: trancl_induct) (use r(3,4) in \<open>auto simp: edge_set_def\<close>)
  qed
  with r show ?thesis by (auto simp: reach_from_def)
qed

lemma push_edges: "edge_set (foldl (push_edge phase) R ds) = edge_set R \<union> set ds \<times> {phase}"
proof (induction ds arbitrary: R)
  case (Cons d ds)
  have "edge_set (push_edge phase R d) = edge_set R \<union> {(d, phase)}"
    by (auto simp: edge_set_def edges_from_def push_edge_def split: option.splits if_splits)
  then show ?case using Cons.IH [of "push_edge phase R d"] by auto
qed simp

lemma reverse_edges_exact:
  assumes "akeys_sorted E"
  shows "edge_set (reverse_edges E) = (edge_set E)\<inverse>"
proof -
  have "edge_set (foldl (\<lambda>R (phase, ds). foldl (push_edge phase) R ds) R E) = edge_set R \<union> {(v, u). \<exists>ds. (u, ds) \<in> set E \<and> v \<in> set ds}"
    for R E
  proof (induction E arbitrary: R)
    case (Cons p E)
    obtain u ds where p: "p = (u, ds)" by fastforce
    show ?case using Cons.IH [of "foldl (push_edge u) R ds"] by (auto simp: p push_edges)
  qed simp
  from this [of "[]" E] have R: "edge_set (reverse_edges E) = {(v, u). \<exists>ds. (u, ds) \<in> set E \<and> v \<in> set ds}"
    by (simp add: reverse_edges_def edge_set_def edges_from_def)
  have "(u, ds) \<in> set E \<longleftrightarrow> map_of E u = Some ds" for u ds
    using akeys_sorted_distinct [OF assms] by simp
  then show ?thesis unfolding R by (auto simp: edge_set_iff)
qed

lemma akeys_sorted_fold:
  "akeys_sorted E \<Longrightarrow> akeys_sorted (foldl (\<lambda>E p. ains (k p) (v p) E) E ps)"
  by (induction ps arbitrary: E) (auto simp: akeys_sorted_ains)

lemma scope_edges_sorted: "akeys_sorted (scope_edges s n ds)"
  by (simp add: scope_edges_def akeys_sorted_ains akeys_sorted_fold)

text \<open>The phases an edited phase reaches that also reach it.\<close>

lemma on_cycle_with_reaches:
  "\<exists>ps. on_cycle_with s n ds = Some ps \<and> sorted ps \<and> distinct ps
    \<and> set ps = {m. (n, m) \<in> (edge_set (scope_edges s n ds))\<^sup>+ \<and> (m, n) \<in> (edge_set (scope_edges s n ds))\<^sup>+}"
proof -
  let ?E = "scope_edges s n ds"
  obtain r where r: "reach_from n ?E = Some r" "distinct r" "set r = {y. (n, y) \<in> (edge_set ?E)\<^sup>+}"
    using reach_from_exact by blast
  obtain q where q: "reach_from n (reverse_edges ?E) = Some q" "set q = {y. (n, y) \<in> (edge_set (reverse_edges ?E))\<^sup>+}"
    using reach_from_exact by blast
  have "set q = {y. (y, n) \<in> (edge_set ?E)\<^sup>+}"
    unfolding q(2) reverse_edges_exact [OF scope_edges_sorted] by (simp add: trancl_converse)
  with r q(1) show ?thesis by (auto simp: on_cycle_with_def Let_def)
qed

end
