(* ===== verification/Scope_Event.thy ===== *)
theory Scope_Event
  imports Scope_Rules
begin

text \<open>
  The records an approved start or change becomes (\<open>baley-core/src/scope/event.rs\<close>,
  \<open>change_events.rs\<close> and \<open>start_events\<close> of \<open>approval.rs\<close>): the payloads, the numbering past
  everything ever declared, and each kind's events in their order.  A call that would panic is
  \<open>None\<close>.
\<close>

section \<open>Payloads\<close>

definition project_stream :: string where "project_stream = ''project''"

definition jnums32 :: "u32 list \<Rightarrow> json" where
  "jnums32 ns = JArray (map jnum32 ns)"

definition described_payload :: "description \<Rightarrow> hash \<Rightarrow> json" where
  "described_payload d digest =
     jobj [(''what'', JString (ds_what d)), (''core_value'', JString (ds_core_value d)),
           (''constraints'', jstrs (ds_constraints d)), (''submission'', JString (to_hex digest))]"

definition approved_payload :: "hash \<Rightarrow> string \<Rightarrow> string \<Rightarrow> string \<Rightarrow> json" where
  "approved_payload digest kind owner at' =
     jobj [(''submission'', JString (to_hex digest)), (''kind'', JString kind), (''owner'', JString owner), (''at'', JString at')]"

definition submitted_payload :: "hash \<Rightarrow> string \<Rightarrow> string \<Rightarrow> payload_ref \<Rightarrow> json" where
  "submitted_payload digest kind target body =
     jobj [(''digest'', JString (to_hex digest)), (''kind'', JString kind), (''target'', JString target),
           (''body'', ref_to_value body)]"

definition story_declared_payload :: "u32 \<Rightarrow> string \<Rightarrow> story_status \<Rightarrow> u32 option \<Rightarrow> hash \<Rightarrow> json" where
  "story_declared_payload i sentence status phase digest =
     jobj [(''id'', jnum32 i), (''sentence'', JString sentence), (''status'', JString (story_status_str status)),
           (''phase'', jopt jnum32 phase), (''submission'', JString (to_hex digest))]"

definition phase_declared_payload :: "u32 \<Rightarrow> string \<Rightarrow> string \<Rightarrow> payload_ref \<Rightarrow> u32 list \<Rightarrow> u32 list \<Rightarrow> hash \<Rightarrow> json" where
  "phase_declared_payload number name goal detail depends_on stories digest =
     jobj [(''number'', jnum32 number), (''name'', JString name), (''goal'', JString goal), (''detail'', ref_to_value detail),
           (''depends_on'', jnums32 depends_on), (''stories'', jnums32 stories), (''submission'', JString (to_hex digest))]"

definition phase_reordered_payload :: "u32 list \<Rightarrow> hash \<Rightarrow> json" where
  "phase_reordered_payload order digest = jobj [(''order'', jnums32 order), (''submission'', JString (to_hex digest))]"

definition phase_withdrawn_payload :: "u32 \<Rightarrow> hash \<Rightarrow> json" where
  "phase_withdrawn_payload number digest = jobj [(''number'', jnum32 number), (''submission'', JString (to_hex digest))]"

definition story_corrected_payload :: "u32 \<Rightarrow> string \<Rightarrow> story_status \<Rightarrow> hash \<Rightarrow> json" where
  "story_corrected_payload i sentence status digest =
     jobj [(''id'', jnum32 i), (''sentence'', JString sentence), (''status'', JString (story_status_str status)),
           (''submission'', JString (to_hex digest))]"

definition story_reassigned_payload :: "u32 \<Rightarrow> story_status \<Rightarrow> u32 option \<Rightarrow> hash \<Rightarrow> json" where
  "story_reassigned_payload i status phase digest =
     jobj [(''id'', jnum32 i), (''status'', JString (story_status_str status)), (''phase'', jopt jnum32 phase),
           (''submission'', JString (to_hex digest))]"

definition story_dropped_payload :: "u32 \<Rightarrow> hash \<Rightarrow> json" where
  "story_dropped_payload i digest =
     jobj [(''id'', jnum32 i), (''status'', JString ''dropped''), (''submission'', JString (to_hex digest))]"

definition story_reprioritized_payload :: "u32 list \<Rightarrow> hash \<Rightarrow> json" where
  "story_reprioritized_payload order digest = jobj [(''order'', jnums32 order), (''submission'', JString (to_hex digest))]"

section \<open>The events of a change\<close>

definition scope_event :: "string \<Rightarrow> string \<Rightarrow> u32 \<Rightarrow> json \<Rightarrow> payload_ref list \<Rightarrow> new_event" where
  "scope_event to_stream name version body attachments =
     \<lparr>ne_stream = to_stream, ne_type_name = name, ne_type_version = version, ne_git = None, ne_payload = body,
      ne_attachments = attachments\<rparr>"

abbreviation on_roadmap :: "string \<Rightarrow> u32 \<Rightarrow> json \<Rightarrow> payload_ref list \<Rightarrow> new_event" where
  "on_roadmap \<equiv> scope_event roadmap_stream"

datatype numbers_exhausted = NumbersExhausted

definition next_numbers :: "u32 \<Rightarrow> nat \<Rightarrow> numbers_exhausted + u32 list" where
  "next_numbers highest n =
     collect_results (\<lambda>step. if step < 2 ^ 32 \<and> unat highest + step < 2 ^ 32 then Inr (highest + of_nat step) else Inl NumbersExhausted)
       [1..<n + 1]"

definition held_status_of :: "accepted_scope \<Rightarrow> u32 \<Rightarrow> story_status option" where
  "held_status_of s i = Option.bind (story_of s i) (stated \<circ> hs_status)"

definition phase_declared_event :: "u32 \<Rightarrow> string \<Rightarrow> string \<Rightarrow> payload_ref \<Rightarrow> u32 list \<Rightarrow> u32 list \<Rightarrow> hash \<Rightarrow> new_event" where
  "phase_declared_event number name goal detail depends_on stories digest =
     on_roadmap phase_declared phase_declared_version
       (phase_declared_payload number name goal detail depends_on stories digest) [detail]"

definition reordered_event :: "u32 list \<Rightarrow> hash \<Rightarrow> new_event" where
  "reordered_event order digest = on_roadmap phase_reordered phase_reordered_version (phase_reordered_payload order digest) []"

definition reassigned_event :: "u32 \<Rightarrow> story_status \<Rightarrow> u32 option \<Rightarrow> hash \<Rightarrow> new_event" where
  "reassigned_event i status phase digest =
     on_roadmap story_reassigned story_reassigned_version (story_reassigned_payload i status phase digest) []"

definition dropped_event :: "u32 \<Rightarrow> hash \<Rightarrow> new_event" where
  "dropped_event i digest = on_roadmap story_dropped story_dropped_version (story_dropped_payload i digest) []"

definition story_declared_event :: "u32 \<Rightarrow> string \<Rightarrow> story_status \<Rightarrow> u32 option \<Rightarrow> hash \<Rightarrow> new_event" where
  "story_declared_event i sentence status phase digest =
     on_roadmap story_declared story_declared_version (story_declared_payload i sentence status phase digest) []"

definition described_event :: "description \<Rightarrow> hash \<Rightarrow> new_event" where
  "described_event d digest = scope_event project_stream project_described project_described_version (described_payload d digest) []"

definition approved_event :: "hash \<Rightarrow> string \<Rightarrow> string \<Rightarrow> string \<Rightarrow> new_event" where
  "approved_event digest kind owner at' =
     scope_event project_stream scope_approved scope_approved_version (approved_payload digest kind owner at') []"

text \<open>A withdrawal's moves: each story of the phase, in its order, by its decision.\<close>

fun moved_event :: "withdrawal_decision list \<Rightarrow> hash \<Rightarrow> u32 \<Rightarrow> new_event option" where
  "moved_event decisions digest story =
     (case find (\<lambda>d. wd_story d = story) decisions of
        None \<Rightarrow> None
      | Some d \<Rightarrow>
          Some (case wd_to d of
                  ToPhase to \<Rightarrow> reassigned_event story StoryActive (Some to) digest
                | ToDrop \<Rightarrow> dropped_event story digest))"

definition or_held :: "'a option \<Rightarrow> 'a \<Rightarrow> 'a" where
  "or_held x held = (case x of None \<Rightarrow> held | Some y \<Rightarrow> y)"

text \<open>
  Where a declared phase goes in the order: \<open>position - 1\<close> on \<open>usize\<close>, a panic for the position 0.
\<close>

definition placed_at :: "phase_declaration \<Rightarrow> accepted_scope \<Rightarrow> nat option" where
  "placed_at d s =
     (case pd_position d of
        None \<Rightarrow> Some (length (sc_order s))
      | Some p \<Rightarrow> if p = 0 then None else Some (min (unat p - 1) (length (sc_order s))))"

fun kind_events :: "scope_change \<Rightarrow> accepted_scope \<Rightarrow> payload_ref option \<Rightarrow> hash \<Rightarrow> (numbers_exhausted + new_event list) option" where
  "kind_events (PhaseDeclare d) s detail digest =
     (case next_numbers (sc_highest_phase s) 1 of
        Inl e \<Rightarrow> Some (Inl e)
      | Inr ns \<Rightarrow>
          Option.bind detail (\<lambda>r.
          Option.bind (placed_at d s) (\<lambda>k.
            let number = ns ! 0
            in Some (Inr [phase_declared_event number (pd_name d) (pd_goal d) r (pd_depends_on d) (pd_stories d) digest,
                          reordered_event (insert_at k number (sc_order s)) digest]))))"
| "kind_events (PhaseEdit phase fs) s detail digest =
     Option.bind (phase_of s phase) (\<lambda>held.
     Option.bind detail (\<lambda>r.
       Some (Inr [phase_declared_event phase (or_held (pf_name fs) (hp_name held)) (or_held (pf_goal fs) (hp_goal held)) r
         (or_held (pf_depends_on fs) (hp_depends_on held)) (or_held (pf_stories fs) (hp_stories held)) digest])))"
| "kind_events (PhaseReorder order) s detail digest = Some (Inr [reordered_event order digest])"
| "kind_events (PhaseWithdraw phase decisions) s detail digest =
     (let stories = (case phase_of s phase of None \<Rightarrow> [] | Some held \<Rightarrow> hp_stories held) in
      Some (Inr (on_roadmap phase_withdrawn phase_withdrawn_version (phase_withdrawn_payload phase digest) []
        # List.map_filter (moved_event decisions digest) stories
        @ [reordered_event (filter (\<lambda>n. n \<noteq> phase) (sc_order s)) digest])))"
| "kind_events (StoryDeclare sentence status phase) s detail digest =
     (case next_numbers (sc_highest_story s) 1 of
        Inl e \<Rightarrow> Some (Inl e)
      | Inr ns \<Rightarrow> Some (Inr [story_declared_event (ns ! 0) sentence status phase digest]))"
| "kind_events (StoryEdit story sentence) s detail digest =
     Option.bind (held_status_of s story) (\<lambda>status.
       Some (Inr [on_roadmap story_corrected story_corrected_version (story_corrected_payload story sentence status digest) []]))"
| "kind_events (StoryReassign story phase) s detail digest =
     Option.bind (case phase of Some _ \<Rightarrow> Some StoryActive | None \<Rightarrow> held_status_of s story) (\<lambda>status.
       Some (Inr [reassigned_event story status phase digest]))"
| "kind_events (StoryDrop story) s detail digest = Some (Inr [dropped_event story digest])"
| "kind_events (BacklogReorder order) s detail digest =
     Some (Inr [on_roadmap story_reprioritized story_reprioritized_version (story_reprioritized_payload order digest) []])"
| "kind_events (ProjectDescribe d) s detail digest = Some (Inr [described_event d digest])"

definition change_events :: "change_submission \<Rightarrow> accepted_scope \<Rightarrow> payload_ref option \<Rightarrow> string \<Rightarrow> string
    \<Rightarrow> (numbers_exhausted + new_event list) option" where
  "change_events c s detail owner at' =
     Option.bind (kind_events (cs_change c) s detail (cs_digest c)) (\<lambda>r.
       Some (rbind r (\<lambda>es.
         Inr (es @ [approved_event (cs_digest c) (change_kind_str (kind_of_change (cs_change c))) owner at']))))"

section \<open>The events of a start\<close>

definition start_story_event :: "submission \<Rightarrow> u32 list \<Rightarrow> u32 list \<Rightarrow> nat \<Rightarrow> new_event" where
  "start_story_event sub ids numbers i =
     (let story = sb_stories sub ! i;
          phase = map_option (nth numbers) (position_where (\<lambda>p. i \<in> set (sp_stories p)) (sb_phases sub))
      in story_declared_event (ids ! i) (ss_sentence story) (ss_status story) phase (sb_digest sub))"

definition start_phase_event :: "submission \<Rightarrow> u32 list \<Rightarrow> u32 list \<Rightarrow> payload_ref list \<Rightarrow> nat \<Rightarrow> new_event" where
  "start_phase_event sub ids numbers details i =
     (let phase = sb_phases sub ! i
      in phase_declared_event (numbers ! i) (sp_name phase) (sp_goal phase) (details ! i)
           (map (\<lambda>position. numbers ! (position - 1)) (sp_depends_on phase)) (map (nth ids) (sp_stories phase)) (sb_digest sub))"

definition start_events :: "submission \<Rightarrow> u32 \<Rightarrow> u32 \<Rightarrow> payload_ref list \<Rightarrow> string \<Rightarrow> string
    \<Rightarrow> (numbers_exhausted + new_event list) option" where
  "start_events sub highest_phase highest_story details owner at' =
     (if length details \<noteq> length (sb_phases sub) then None
      else Some (
        rbind (next_numbers highest_story (length (sb_stories sub))) (\<lambda>ids.
        rbind (next_numbers highest_phase (length (sb_phases sub))) (\<lambda>numbers.
          Inr (described_event (sb_description sub) (sb_digest sub)
            # map (start_story_event sub ids numbers) [0..<length (sb_stories sub)]
            @ map (start_phase_event sub ids numbers details) [0..<length (sb_phases sub)]
            @ [reordered_event numbers (sb_digest sub), approved_event (sb_digest sub) start_kind owner at'])))))"

end
