(* ===== verification/Scope_Facts.thy ===== *)
theory Scope_Facts
  imports Roadmap
begin

text \<open>
  What the scope events state, and that the \<open>roadmap\<close> projector implements it.  A fact is what an
  event of a start or a change says of accepted scope, \<open>fact_step\<close> the abstract operation on the
  scope, and the simulation below is a functional refinement: projecting an event that states a
  fact onto a document holding a scope gives a document holding the scope the operation gives,
  and is refused exactly when the operation is.
\<close>

section \<open>Abstract operations\<close>

datatype scope_fact =
    FactDescribed
  | FactStory u32 story_status "u32 option"
  | FactPhase u32 string string "u32 list" "u32 list"
  | FactOrder "u32 list"
  | FactWithdrawn u32
  | FactCorrected u32 story_status
  | FactMoved u32 story_status "u32 option"
  | FactDropped u32
  | FactPriority "u32 list"
  | FactRefined u32

fun held_of :: "story_status \<Rightarrow> held_status" where
  "held_of StoryActive = HeldActive"
| "held_of StoryDeferred = HeldDeferred"
| "held_of StoryExcluded = HeldExcluded"

definition serve_in :: "u32 \<Rightarrow> held_phase \<Rightarrow> held_phase" where
  "serve_in i p = (if i \<in> set (hp_stories p) then p else p\<lparr>hp_stories := hp_stories p @ [i]\<rparr>)"

definition unserve_in :: "u32 \<Rightarrow> held_phase \<Rightarrow> held_phase" where
  "unserve_in i p = p\<lparr>hp_stories := removeAll i (hp_stories p)\<rparr>"

definition change_held_phase :: "u32 \<Rightarrow> (held_phase \<Rightarrow> held_phase) \<Rightarrow> accepted_scope \<Rightarrow> accepted_scope" where
  "change_held_phase n f s = s\<lparr>sc_phases := update_first (\<lambda>p. hp_number p = n) f (sc_phases s)\<rparr>"

definition change_held_story :: "u32 \<Rightarrow> (held_story \<Rightarrow> held_story) \<Rightarrow> accepted_scope \<Rightarrow> accepted_scope" where
  "change_held_story i f s = s\<lparr>sc_stories := update_first (\<lambda>h. hs_id h = i) f (sc_stories s)\<rparr>"

definition serve_by :: "u32 option \<Rightarrow> u32 \<Rightarrow> accepted_scope \<Rightarrow> accepted_scope" where
  "serve_by phase i s = (case phase of None \<Rightarrow> s | Some n \<Rightarrow> change_held_phase n (serve_in i) s)"

definition unserve_all :: "u32 \<Rightarrow> accepted_scope \<Rightarrow> accepted_scope" where
  "unserve_all i s = s\<lparr>sc_phases := map (unserve_in i) (sc_phases s)\<rparr>"

definition put_story :: "held_story \<Rightarrow> held_story list \<Rightarrow> held_story list" where
  "put_story h hs =
     (if list_ex (\<lambda>x. hs_id x = hs_id h) hs then update_first (\<lambda>x. hs_id x = hs_id h) (\<lambda>_. h) hs else hs @ [h])"

definition put_phase :: "held_phase \<Rightarrow> held_phase list \<Rightarrow> held_phase list" where
  "put_phase p ps =
     (let before = takeWhile (\<lambda>x. hp_number x < hp_number p) ps;
          rest = dropWhile (\<lambda>x. hp_number x < hp_number p) ps
      in case rest of
           q # later \<Rightarrow> if hp_number q = hp_number p then before @ p # later else before @ p # rest
         | [] \<Rightarrow> before @ [p])"

definition recommit_in :: "u32 \<Rightarrow> u32 list \<Rightarrow> held_story \<Rightarrow> held_story" where
  "recommit_in n listed h =
     (if hs_id h \<in> set listed then h\<lparr>hs_phase := Some n\<rparr>
      else if hs_phase h = Some n then h\<lparr>hs_phase := None\<rparr>
      else h)"

fun prioritized :: "u32 list \<Rightarrow> held_story list \<Rightarrow> held_story list option" where
  "prioritized [] hs = Some hs"
| "prioritized (i # is) hs =
     (case find (\<lambda>h. hs_id h = i) hs of
        None \<Rightarrow> None
      | Some h \<Rightarrow>
          map_option ((#) h) (prioritized is (takeWhile (\<lambda>h. hs_id h \<noteq> i) hs @ tl (dropWhile (\<lambda>h. hs_id h \<noteq> i) hs))))"

fun fact_step :: "scope_fact \<Rightarrow> accepted_scope \<Rightarrow> accepted_scope option" where
  "fact_step FactDescribed s = Some s"
| "fact_step (FactStory i status phase) s =
     Some (serve_by phase i (s\<lparr>sc_stories := put_story \<lparr>hs_id = i, hs_status = held_of status, hs_phase = phase\<rparr> (sc_stories s),
       sc_highest_story := max (sc_highest_story s) i\<rparr>))"
| "fact_step (FactPhase n name goal depends_on stories) s =
     Some (s\<lparr>sc_phases := put_phase \<lparr>hp_number = n, hp_name = name, hp_goal = goal, hp_depends_on = depends_on,
         hp_stories = stories, hp_withdrawn = False\<rparr> (sc_phases s),
       sc_highest_phase := max (sc_highest_phase s) n, sc_stories := map (recommit_in n stories) (sc_stories s)\<rparr>)"
| "fact_step (FactOrder order) s = Some (s\<lparr>sc_order := order\<rparr>)"
| "fact_step (FactWithdrawn n) s =
     (if phase_of s n = None then None else Some (change_held_phase n (\<lambda>p. p\<lparr>hp_withdrawn := True\<rparr>) s))"
| "fact_step (FactCorrected i status) s =
     (if story_of s i = None then None else Some (change_held_story i (\<lambda>h. h\<lparr>hs_status := held_of status\<rparr>) s))"
| "fact_step (FactMoved i status phase) s =
     (if story_of s i = None \<or> (\<exists>n. phase = Some n \<and> phase_of s n = None) then None
      else Some (serve_by phase i (change_held_story i (\<lambda>h. h\<lparr>hs_status := held_of status, hs_phase := phase\<rparr>) (unserve_all i s))))"
| "fact_step (FactDropped i) s =
     (if story_of s i = None then None
      else Some (change_held_story i (\<lambda>h. h\<lparr>hs_status := HeldDropped, hs_phase := None\<rparr>) (unserve_all i s)))"
| "fact_step (FactPriority order) s = map_option (\<lambda>hs. s\<lparr>sc_stories := hs\<rparr>) (prioritized order (sc_stories s))"
| "fact_step (FactRefined i) s = (if story_of s i = None then None else Some s)"

text \<open>The payloads that state each fact, with the name of their event type.\<close>

inductive states :: "string \<Rightarrow> json \<Rightarrow> scope_fact \<Rightarrow> bool" where
  states_described: "states project_described (described_payload d digest) FactDescribed"
| states_story: "states story_declared (story_declared_payload i sentence status phase digest) (FactStory i status phase)"
| states_phase: "states phase_declared (phase_declared_payload n name goal detail depends_on stories digest)
    (FactPhase n name goal depends_on stories)"
| states_order: "states phase_reordered (phase_reordered_payload order digest) (FactOrder order)"
| states_withdrawn: "states phase_withdrawn (phase_withdrawn_payload n digest) (FactWithdrawn n)"
| states_corrected: "states story_corrected (story_corrected_payload i sentence status digest) (FactCorrected i status)"
| states_moved: "states story_reassigned (story_reassigned_payload i status phase digest) (FactMoved i status phase)"
| states_dropped: "states story_dropped (story_dropped_payload i digest) (FactDropped i)"
| states_priority: "states story_reprioritized (story_reprioritized_payload order digest) (FactPriority order)"
| states_refined: "map_of m ''story'' = Some (jnum32 i) \<Longrightarrow> map_of m ''truths'' = Some (JArray truths) \<Longrightarrow>
    int (length truths) \<le> max_safe_integer \<Longrightarrow> states story_refined (JObject m) (FactRefined i)"

section \<open>A document that holds a scope\<close>

abbreviation phase_reads :: "json \<Rightarrow> held_phase \<Rightarrow> bool" where
  "phase_reads v p \<equiv> held_phase_from v = Some p"

abbreviation story_reads :: "json \<Rightarrow> held_story \<Rightarrow> bool" where
  "story_reads v h \<equiv> held_story_from v = Some h"

definition holds_scope :: "(string \<times> json) list \<Rightarrow> accepted_scope \<Rightarrow> bool" where
  "holds_scope d s \<longleftrightarrow>
     (\<exists>ps. map_of d ''phases'' = Some (JArray ps) \<and> list_all2 phase_reads ps (sc_phases s))
     \<and> (\<exists>ss. map_of d ''stories'' = Some (JArray ss) \<and> list_all2 story_reads ss (sc_stories s))
     \<and> wholes (map_of d ''order'') = Some (sc_order s)
     \<and> whole (map_of d ''highest_phase'') = Some (sc_highest_phase s)
     \<and> whole (map_of d ''highest_story'') = Some (sc_highest_story s)"

lemma as_array_Some: "as_array v = Some xs \<longleftrightarrow> v = JArray xs"
  by (cases v) auto

lemma entries_of_Some: "entries_of d name = Some xs \<longleftrightarrow> map_of d name = Some (JArray xs)"
  by (auto simp: entries_of_def bind_eq_Some_conv as_array_Some)

lemma read_scope_holds: "read_scope (Some (JObject d)) = Some s \<longleftrightarrow> holds_scope d s"
  by (cases s) (auto simp: read_scope_def holds_scope_def bind_eq_Some_conv entries_of_Some those_map_Some_iff)

lemma read_scope_object: "read_scope (Some v) = Some s \<Longrightarrow> \<exists>d. v = JObject d \<and> holds_scope d s"
  using read_scope_holds by (cases v) (auto simp: read_scope_def)

lemma holds_scopeE:
  assumes "holds_scope d s"
  obtains ps ss where "map_of d ''phases'' = Some (JArray ps)" "list_all2 phase_reads ps (sc_phases s)"
    "map_of d ''stories'' = Some (JArray ss)" "list_all2 story_reads ss (sc_stories s)"
    "wholes (map_of d ''order'') = Some (sc_order s)" "whole (map_of d ''highest_phase'') = Some (sc_highest_phase s)"
    "whole (map_of d ''highest_story'') = Some (sc_highest_story s)"
  using assms by (auto simp: holds_scope_def)

section \<open>Numbers of both widths\<close>

lemma unat_ucast_u64 [simp]: "unat (ucast (n :: u32) :: u64) = unat n"
proof -
  have "unat n < 2 ^ 32" using unsigned_less [of n, where ?'a = nat] by simp
  then have "unat n < 2 ^ 64" by simp
  then show ?thesis by (simp add: unsigned_ucast_eq take_bit_nat_eq_self)
qed

lemma jnum_ucast [simp]: "jnum (ucast n) = jnum32 n"
  by (simp add: jnum_def jnum32_def dec_u64_def)

lemma as_u64_jnum32 [simp]: "as_u64 (jnum32 n) = Some (ucast n)"
  using as_u64_jnum [of "ucast n"] by simp

lemma ucast_u64_inject [simp]: "(ucast (m :: u32) :: u64) = ucast n \<longleftrightarrow> m = n"
  by (metis unat_ucast_u64 word_unat_eq_iff)

lemma as_u32_Some: "as_u32 v = Some n \<longleftrightarrow> as_u64 v = Some (ucast n)"
proof
  assume "as_u32 v = Some n"
  then obtain k where k: "as_u64 v = Some k" "unat k < 2 ^ 32" "n = of_nat (unat k)"
    by (auto simp: as_u32_def split: option.splits if_splits)
  have "unat n = unat k" unfolding k(3) unat_of_nat using k(2) by simp
  then have "unat (ucast n :: u64) = unat k" by simp
  with k(1) show "as_u64 v = Some (ucast n)" by (metis word_unat_eq_iff)
next
  assume a: "as_u64 v = Some (ucast n)"
  have "unat n < 2 ^ 32" using unsigned_less [of n, where ?'a = nat] by simp
  with a show "as_u32 v = Some n" by (simp add: as_u32_def)
qed

lemma ucast_u64_less [simp]: "(ucast (m :: u32) :: u64) < ucast n \<longleftrightarrow> m < n"
  by (simp add: word_less_nat_alt)

lemma ucast_u64_max [simp]: "max (ucast (m :: u32) :: u64) (ucast n) = ucast (max m n)"
  by (simp add: max_def word_le_nat_alt)

section \<open>Entries\<close>

lemma phase_reads_object: "phase_reads v p \<Longrightarrow> \<exists>m. v = JObject m"
  by (cases v) (auto simp: held_phase_from_def)

lemma story_reads_object: "story_reads v h \<Longrightarrow> \<exists>m. v = JObject m"
  by (cases v) (auto simp: held_story_from_def)

lemma phase_reads_number: "phase_reads v p \<Longrightarrow> member_is ''number'' (ucast n) v \<longleftrightarrow> hp_number p = n"
  by (cases v) (auto simp: held_phase_from_def member_is_def bind_eq_Some_conv whole_def as_u32_Some)

lemma story_reads_id: "story_reads v h \<Longrightarrow> member_is ''id'' (ucast i) v \<longleftrightarrow> hs_id h = i"
  by (cases v) (auto simp: held_story_from_def member_is_def bind_eq_Some_conv whole_def as_u32_Some)

lemma story_reads_id_value: "story_reads v h \<Longrightarrow> Option.bind (jget ''id'' v) as_u64 = Some (ucast (hs_id h))"
  by (cases v) (auto simp: held_story_from_def bind_eq_Some_conv whole_def as_u32_Some)

lemma phase_or_none_Some:
  "phase_or_none v = Some p \<longleftrightarrow> (case p of None \<Rightarrow> v = Some JNull | Some n \<Rightarrow> \<exists>w. v = Some w \<and> as_u64 w = Some (ucast n))"
proof (cases v)
  case (Some w)
  then show ?thesis by (cases w) (auto simp: phase_or_none_def as_u32_Some split: option.splits)
qed (auto simp: phase_or_none_def split: option.splits)

lemma story_reads_phase: "story_reads v h \<Longrightarrow> member_is ''phase'' (ucast n) v \<longleftrightarrow> hs_phase h = Some n"
proof (cases v)
  case (JObject m)
  assume "story_reads v h"
  then have "phase_or_none (map_of m ''phase'') = Some (hs_phase h)"
    by (auto simp: JObject held_story_from_def bind_eq_Some_conv)
  then show ?thesis
    by (cases "hs_phase h") (auto simp: JObject member_is_def phase_or_none_Some)
qed (auto simp: held_story_from_def)

lemma below_reads: "phase_reads v p \<Longrightarrow> below (ucast n) v \<longleftrightarrow> hp_number p < n"
  by (cases v) (auto simp: held_phase_from_def below_def bind_eq_Some_conv whole_def as_u32_Some)

lemma wholes_Some: "wholes v = Some ns \<longleftrightarrow> (\<exists>xs. v = Some (JArray xs) \<and> list_all2 (\<lambda>x n. as_u64 x = Some (ucast n)) xs ns)"
  by (auto simp: wholes_def bind_eq_Some_conv as_array_Some those_map_Some_iff as_u32_Some)

lemma wholes_jnums32: "wholes (Some (jnums32 ns)) = Some ns"
  by (simp add: wholes_Some jnums32_def list_all2_map1 list_all2_same)

lemma wholes_jnum: "wholes (Some (JArray (map jnum (map ucast ns)))) = Some ns"
  using wholes_jnums32 [of ns] by (simp add: jnums32_def comp_def)

lemma list_all2_update_first:
  assumes "list_all2 R xs ys" "\<And>x y. R x y \<Longrightarrow> P x \<longleftrightarrow> Q y" "\<And>x y. R x y \<Longrightarrow> P x \<Longrightarrow> R (f x) (g y)"
  shows "list_all2 R (update_first P f xs) (update_first Q g ys)"
  using assms(1) by (induction rule: list_all2_induct) (auto simp: assms(2,3))

lemma list_all2_ex: "list_all2 R xs ys \<Longrightarrow> (\<And>x y. R x y \<Longrightarrow> P x \<longleftrightarrow> Q y) \<Longrightarrow> list_ex P xs \<longleftrightarrow> list_ex Q ys"
  by (induction rule: list_all2_induct) auto

lemma list_all2_map_both: "list_all2 R xs ys \<Longrightarrow> (\<And>x y. R x y \<Longrightarrow> R (f x) (g y)) \<Longrightarrow> list_all2 R (map f xs) (map g ys)"
  by (induction rule: list_all2_induct) auto

lemma list_all2_while:
  assumes "list_all2 R xs ys" "\<And>x y. R x y \<Longrightarrow> P x \<longleftrightarrow> Q y"
  shows "list_all2 R (takeWhile P xs) (takeWhile Q ys)" "list_all2 R (dropWhile P xs) (dropWhile Q ys)"
  using assms(1) by (induction rule: list_all2_induct) (auto simp: assms(2))

lemma list_all2_find:
  assumes "list_all2 R xs ys" "\<And>x y. R x y \<Longrightarrow> P x \<longleftrightarrow> Q y"
  shows "rel_option R (find P xs) (find Q ys)"
  using assms(1) by (induction rule: list_all2_induct) (auto simp: assms(2))

text \<open>What each way of rewriting an entry reads as.\<close>

lemma phase_reads_withdrawn: "phase_reads v p \<Longrightarrow> phase_reads (jset ''status'' (JString ''withdrawn'') v) (p\<lparr>hp_withdrawn := True\<rparr>)"
  by (cases v) (auto simp: held_phase_from_def bind_eq_Some_conv withdrawn_from_def)

lemma phase_reads_stories: "phase_reads (JObject m) p \<Longrightarrow>
    \<exists>xs. map_of m ''stories'' = Some (JArray xs) \<and> list_all2 (\<lambda>x n. as_u64 x = Some (ucast n)) xs (hp_stories p)"
  by (auto simp: held_phase_from_def bind_eq_Some_conv wholes_Some)

lemma phase_reads_with_stories:
  assumes "phase_reads (JObject m) p" "list_all2 (\<lambda>x n. as_u64 x = Some (ucast n)) ys ns"
  shows "phase_reads (JObject (ains ''stories'' (JArray ys) m)) (p\<lparr>hp_stories := ns\<rparr>)"
  using assms by (auto simp: held_phase_from_def bind_eq_Some_conv wholes_Some)

lemma phase_reads_serve: "phase_reads v p \<Longrightarrow> phase_reads (serve (ucast i) v) (serve_in i p)"
proof -
  assume r: "phase_reads v p"
  then obtain m where v: "v = JObject m" using phase_reads_object by blast
  note r = r [unfolded v]
  obtain xs where xs: "map_of m ''stories'' = Some (JArray xs)" "list_all2 (\<lambda>x n. as_u64 x = Some (ucast n)) xs (hp_stories p)"
    using phase_reads_stories [OF r] by blast
  have "list_ex (is_number (ucast i)) xs \<longleftrightarrow> list_ex (\<lambda>n. n = i) (hp_stories p)"
    by (rule list_all2_ex [OF xs(2)]) (simp add: is_number_def)
  then have "list_ex (is_number (ucast i)) xs \<longleftrightarrow> i \<in> set (hp_stories p)" by (auto simp: list_ex_iff)
  moreover have "phase_reads (JObject (ains ''stories'' (JArray (xs @ [jnum32 i])) m)) (p\<lparr>hp_stories := hp_stories p @ [i]\<rparr>)"
    by (rule phase_reads_with_stories [OF r]) (simp add: list_all2_appendI xs(2))
  ultimately show ?thesis using r xs(1) by (simp add: v serve_def serve_in_def)
qed

lemma phase_reads_unserve: "phase_reads v p \<Longrightarrow> phase_reads (unserve_phase (ucast i) v) (unserve_in i p)"
proof -
  assume r: "phase_reads v p"
  then obtain m where v: "v = JObject m" using phase_reads_object by blast
  note r = r [unfolded v]
  obtain xs where xs: "map_of m ''stories'' = Some (JArray xs)" "list_all2 (\<lambda>x n. as_u64 x = Some (ucast n)) xs (hp_stories p)"
    using phase_reads_stories [OF r] by blast
  have "list_all2 (\<lambda>x n. as_u64 x = Some (ucast n)) (filter (\<lambda>s. \<not> is_number (ucast i) s) xs) (filter (\<lambda>n. n \<noteq> i) (hp_stories p))"
    using xs(2) by (induction rule: list_all2_induct) (auto simp: is_number_def)
  then have "phase_reads (JObject (ains ''stories'' (JArray (filter (\<lambda>s. \<not> is_number (ucast i) s) xs)) m))
      (p\<lparr>hp_stories := filter (\<lambda>n. n \<noteq> i) (hp_stories p)\<rparr>)"
    by (rule phase_reads_with_stories [OF r])
  moreover have "removeAll i (hp_stories p) = filter (\<lambda>n. n \<noteq> i) (hp_stories p)"
    by (auto simp: removeAll_filter_not_eq intro: filter_cong)
  ultimately show ?thesis using xs(1) by (simp add: v unserve_phase_def unserve_in_def)
qed

lemma held_status_parse_str [simp]: "held_status_parse (story_status_str st) = Some (held_of st)"
  by (cases st) (simp_all add: held_status_parse_def)

lemma story_reads_status:
  "story_reads v h \<Longrightarrow> held_status_parse t = Some st \<Longrightarrow> story_reads (jset ''status'' (JString t) v) (h\<lparr>hs_status := st\<rparr>)"
  by (cases v) (auto simp: held_story_from_def bind_eq_Some_conv)

lemma story_reads_put_phase:
  "story_reads v h \<Longrightarrow> phase_or_none (Some w) = Some ph \<Longrightarrow> story_reads (jset ''phase'' w v) (h\<lparr>hs_phase := ph\<rparr>)"
  by (cases v) (auto simp: held_story_from_def bind_eq_Some_conv)

lemma story_reads_other:
  "story_reads v h \<Longrightarrow> k \<noteq> ''id'' \<Longrightarrow> k \<noteq> ''status'' \<Longrightarrow> k \<noteq> ''phase'' \<Longrightarrow> story_reads (jset k w v) h"
  by (cases v) (auto simp: held_story_from_def bind_eq_Some_conv)

lemma phase_or_none_opt [simp]: "phase_or_none (Some (jopt jnum32 ph)) = Some ph"
  by (cases ph) (simp_all add: jopt_def phase_or_none_Some)

section \<open>The document after an event\<close>

definition doc_fine :: "(string \<times> json) list \<Rightarrow> bool" where
  "doc_fine d \<longleftrightarrow> map_of d ''roadmap'' = Some (JString ''project'') \<and> numbers_safe (JObject d)"

definition roadmap_holds :: "(string \<times> json) list \<Rightarrow> accepted_scope \<Rightarrow> bool" where
  "roadmap_holds d s \<longleftrightarrow> holds_scope d s \<and> doc_fine d"

lemma doc_fine_ains: "doc_fine d \<Longrightarrow> numbers_safe v \<Longrightarrow> k \<noteq> ''roadmap'' \<Longrightarrow> doc_fine (ains k v d)"
  by (auto simp: doc_fine_def dest: numbers_safe_ains)

lemma numbers_safe_jset: "numbers_safe v \<Longrightarrow> numbers_safe w \<Longrightarrow> numbers_safe (jset k w v)"
  by (cases v) (auto dest: numbers_safe_ains)

lemma numbers_safe_map_of: "numbers_safe (JObject d) \<Longrightarrow> map_of d k = Some v \<Longrightarrow> numbers_safe v"
  by (auto dest!: map_of_SomeD)

lemma doc_fine_entries: "doc_fine d \<Longrightarrow> map_of d k = Some (JArray xs) \<Longrightarrow> x \<in> set xs \<Longrightarrow> numbers_safe x"
  using numbers_safe_map_of by (fastforce simp: doc_fine_def simp del: numbers_safe.simps(3))

lemma numbers_safe_jget: "numbers_safe v \<Longrightarrow> jget k v = Some w \<Longrightarrow> numbers_safe w"
  by (cases v) (auto dest!: map_of_SomeD)

lemma numbers_safe_serve: "numbers_safe v \<Longrightarrow> numbers_safe (serve (ucast (i :: u32)) v)"
  by (auto simp: serve_def simp del: jset.simps intro!: numbers_safe_jset dest: numbers_safe_jget split: option.splits json.splits)

lemma numbers_safe_unserve: "numbers_safe v \<Longrightarrow> numbers_safe (unserve_phase n v)"
  by (auto simp: unserve_phase_def simp del: jset.simps intro!: numbers_safe_jset dest: numbers_safe_jget split: option.splits json.splits)

lemma set_update_first: "x \<in> set (update_first P f xs) \<Longrightarrow> x \<in> set xs \<or> (\<exists>y \<in> set xs. P y \<and> x = f y)"
  by (induction xs) (auto split: if_splits)

lemma roadmap_holds_phases:
  assumes "roadmap_holds d s" "list_all2 phase_reads ps' (sc_phases s')" "\<forall>v \<in> set ps'. numbers_safe v"
    "sc_stories s' = sc_stories s" "sc_order s' = sc_order s" "sc_highest_phase s' = sc_highest_phase s"
    "sc_highest_story s' = sc_highest_story s"
  shows "roadmap_holds (put_entries ''phases'' ps' d) s'"
  using assms by (auto simp: roadmap_holds_def holds_scope_def put_entries_def intro!: doc_fine_ains)

lemma roadmap_holds_stories:
  assumes "roadmap_holds d s" "list_all2 story_reads ss' (sc_stories s')" "\<forall>v \<in> set ss'. numbers_safe v"
    "sc_phases s' = sc_phases s" "sc_order s' = sc_order s" "sc_highest_phase s' = sc_highest_phase s"
    "sc_highest_story s' = sc_highest_story s"
  shows "roadmap_holds (put_entries ''stories'' ss' d) s'"
  using assms by (auto simp: roadmap_holds_def holds_scope_def put_entries_def intro!: doc_fine_ains)

lemma roadmap_holds_other:
  assumes "roadmap_holds d s" "numbers_safe v" "k \<notin> {''phases'', ''stories'', ''order'', ''highest_phase'', ''highest_story'', ''roadmap''}"
  shows "roadmap_holds (ains k v d) s"
  using assms by (auto simp: roadmap_holds_def holds_scope_def intro!: doc_fine_ains)

lemma roadmap_holds_raise_phase:
  assumes "roadmap_holds d s"
  shows "roadmap_holds (raise_to ''highest_phase'' (ucast n) d) (s\<lparr>sc_highest_phase := max (sc_highest_phase s) n\<rparr>)"
  using assms by (auto simp: roadmap_holds_def holds_scope_def raise_to_def whole_def bind_eq_Some_conv as_u32_Some Let_def
    intro!: doc_fine_ains)

lemma roadmap_holds_raise_story:
  assumes "roadmap_holds d s"
  shows "roadmap_holds (raise_to ''highest_story'' (ucast n) d) (s\<lparr>sc_highest_story := max (sc_highest_story s) n\<rparr>)"
  using assms by (auto simp: roadmap_holds_def holds_scope_def raise_to_def whole_def bind_eq_Some_conv as_u32_Some Let_def
    intro!: doc_fine_ains)

lemma roadmap_holdsE:
  assumes "roadmap_holds d s"
  obtains ps ss where "map_of d ''phases'' = Some (JArray ps)" "list_all2 phase_reads ps (sc_phases s)" "\<forall>v \<in> set ps. numbers_safe v"
    "map_of d ''stories'' = Some (JArray ss)" "list_all2 story_reads ss (sc_stories s)" "\<forall>v \<in> set ss. numbers_safe v"
    "entries_of d ''phases'' = Some ps" "entries_of d ''stories'' = Some ss"
proof -
  from assms have h: "holds_scope d s" "doc_fine d" by (simp_all add: roadmap_holds_def)
  from h(1) obtain ps ss where p: "map_of d ''phases'' = Some (JArray ps)" "list_all2 phase_reads ps (sc_phases s)"
    "map_of d ''stories'' = Some (JArray ss)" "list_all2 story_reads ss (sc_stories s)" by (rule holds_scopeE)
  moreover have "\<forall>v \<in> set ps. numbers_safe v" "\<forall>v \<in> set ss. numbers_safe v"
    using doc_fine_entries [OF h(2)] p(1,3) by blast+
  ultimately show ?thesis by (intro that) (simp_all add: entries_of_def)
qed

lemma phase_of_None: "phase_of s n = None \<longleftrightarrow> \<not> list_ex (\<lambda>p. hp_number p = n) (sc_phases s)"
  by (auto simp: phase_of_def find_None_iff list_ex_iff)

lemma story_of_None: "story_of s i = None \<longleftrightarrow> \<not> list_ex (\<lambda>h. hs_id h = i) (sc_stories s)"
  by (auto simp: story_of_def find_None_iff list_ex_iff)

lemma change_phase_holds:
  assumes h: "roadmap_holds d s"
    and f: "\<And>v p. phase_reads v p \<Longrightarrow> phase_reads (f v) (g p)" "\<And>v. numbers_safe v \<Longrightarrow> numbers_safe (f v)"
  shows "if phase_of s n = None then change_phase (ucast n) f d = None
    else \<exists>d'. change_phase (ucast n) f d = Some d' \<and> roadmap_holds d' (change_held_phase n g s)"
proof -
  obtain ps where ps: "entries_of d ''phases'' = Some ps" "list_all2 phase_reads ps (sc_phases s)" "\<forall>v \<in> set ps. numbers_safe v"
    using h by (rule roadmap_holdsE)
  have "list_ex (member_is ''number'' (ucast n)) ps \<longleftrightarrow> list_ex (\<lambda>p. hp_number p = n) (sc_phases s)"
    by (rule list_all2_ex [OF ps(2) phase_reads_number])
  moreover have "roadmap_holds (put_entries ''phases'' (update_first (member_is ''number'' (ucast n)) f ps) d) (change_held_phase n g s)"
  proof (rule roadmap_holds_phases [OF h])
    show "list_all2 phase_reads (update_first (member_is ''number'' (ucast n)) f ps) (sc_phases (change_held_phase n g s))"
      unfolding change_held_phase_def
      by (simp add: list_all2_update_first [OF ps(2) phase_reads_number f(1)])
  qed (use ps(3) f(2) in \<open>auto simp: change_held_phase_def dest!: set_update_first\<close>)
  ultimately show ?thesis by (auto simp: change_entry_def ps(1) phase_of_None)
qed

lemma change_story_holds:
  assumes h: "roadmap_holds d s"
    and f: "\<And>v x. story_reads v x \<Longrightarrow> story_reads (f v) (g x)" "\<And>v. numbers_safe v \<Longrightarrow> numbers_safe (f v)"
  shows "if story_of s i = None then change_story (ucast i) f d = None
    else \<exists>d'. change_story (ucast i) f d = Some d' \<and> roadmap_holds d' (change_held_story i g s)"
proof -
  obtain ss where ss: "entries_of d ''stories'' = Some ss" "list_all2 story_reads ss (sc_stories s)" "\<forall>v \<in> set ss. numbers_safe v"
    using h by (rule roadmap_holdsE)
  have "list_ex (member_is ''id'' (ucast i)) ss \<longleftrightarrow> list_ex (\<lambda>h. hs_id h = i) (sc_stories s)"
    by (rule list_all2_ex [OF ss(2) story_reads_id])
  moreover have "roadmap_holds (put_entries ''stories'' (update_first (member_is ''id'' (ucast i)) f ss) d) (change_held_story i g s)"
  proof (rule roadmap_holds_stories [OF h])
    show "list_all2 story_reads (update_first (member_is ''id'' (ucast i)) f ss) (sc_stories (change_held_story i g s))"
      unfolding change_held_story_def
      by (simp add: list_all2_update_first [OF ss(2) story_reads_id f(1)])
  qed (use ss(3) f(2) in \<open>auto simp: change_held_story_def dest!: set_update_first\<close>)
  ultimately show ?thesis by (auto simp: change_entry_def ss(1) story_of_None)
qed

lemma unserve_holds:
  assumes h: "roadmap_holds d s"
  shows "roadmap_holds (unserve (ucast i) d) (unserve_all i s)"
proof -
  obtain ps where ps: "entries_of d ''phases'' = Some ps" "list_all2 phase_reads ps (sc_phases s)" "\<forall>v \<in> set ps. numbers_safe v"
    using h by (rule roadmap_holdsE)
  have "roadmap_holds (put_entries ''phases'' (map (unserve_phase (ucast i)) ps) d) (unserve_all i s)"
  proof (rule roadmap_holds_phases [OF h])
    show "list_all2 phase_reads (map (unserve_phase (ucast i)) ps) (sc_phases (unserve_all i s))"
      using list_all2_map_both [OF ps(2) phase_reads_unserve] by (simp add: unserve_all_def)
  qed (use ps(3) in \<open>auto simp: unserve_all_def numbers_safe_unserve\<close>)
  then show ?thesis by (simp add: unserve_def ps(1))
qed

end
