(* ===== verification/Roadmap_Steps.thy ===== *)
theory Roadmap_Steps
  imports Scope_Facts
begin

text \<open>
  The \<open>roadmap\<close> projector implements the abstract operations of \<open>Scope_Facts\<close>: one lemma for
  each kind of event, the simulation of one event, and of a run of events as the store folds and
  writes them.  A run is refused exactly when one of its facts does not apply.
\<close>

section \<open>The projector implements the operations\<close>

lemmas roadmap_names = project_described_def story_declared_def phase_declared_def phase_reordered_def phase_withdrawn_def
  story_corrected_def story_reassigned_def story_dropped_def story_reprioritized_def story_refined_def

definition fault_of :: "event \<Rightarrow> string" where
  "fault_of e = roadmap_refuse e ''a member is missing or of the wrong type''"

definition no_story_of :: "event \<Rightarrow> string" where
  "no_story_of e = roadmap_refuse e ''the story is not declared''"

lemma roadmap_body_cases:
  "type_name e = project_described \<Longrightarrow> roadmap_body e m d = described_body (fault_of e) m d"
  "type_name e = story_declared \<Longrightarrow> roadmap_body e m d = story_declared_body (fault_of e) m d"
  "type_name e = phase_declared \<Longrightarrow> roadmap_body e m d = phase_declared_body (fault_of e) m d"
  "type_name e = phase_reordered \<Longrightarrow> roadmap_body e m d =
     rbind (ok_or (fault_of e) (pay_wholes m ''order'')) (\<lambda>order. Inr (ains ''order'' (JArray (map jnum order)) d))"
  "type_name e = phase_withdrawn \<Longrightarrow> roadmap_body e m d =
     rbind (ok_or (fault_of e) (pay_whole m ''number'')) (\<lambda>number.
       ok_or (roadmap_refuse e ''the phase is not declared'') (change_phase number (jset ''status'' (JString ''withdrawn'')) d))"
  "type_name e = story_corrected \<Longrightarrow> roadmap_body e m d = story_corrected_body (fault_of e) (no_story_of e) m d"
  "type_name e = story_dropped \<Longrightarrow> roadmap_body e m d = story_dropped_body (fault_of e) (no_story_of e) m d"
  "type_name e = story_reprioritized \<Longrightarrow> roadmap_body e m d = reprioritized_body (fault_of e) (no_story_of e) m d"
  "type_name e = story_refined \<Longrightarrow> roadmap_body e m d = refined_body (fault_of e) (no_story_of e) m d"
  "type_name e = story_reassigned \<Longrightarrow> roadmap_body e m d = story_moved_body (fault_of e) (no_story_of e)
     (roadmap_refuse e ''the story'' @ [CHR 0x27] @ ''s new phase is not declared'') m d"
  by (simp_all add: roadmap_body_def roadmap_names fault_of_def no_story_of_def)

lemma those_jnums32: "those (map (as_u64 \<circ> jnum32) ns) = Some (map ucast ns)"
  by (induction ns) simp_all

lemma pay_wholes_jnums32: "map_of m k = Some (jnums32 ns) \<Longrightarrow> pay_wholes m k = Some (map ucast ns)"
  by (simp add: pay_wholes_def jnums32_def those_jnums32)

lemma pay_whole_jnum32: "map_of m k = Some (jnum32 n) \<Longrightarrow> pay_whole m k = Some (ucast n)"
  by (simp add: pay_whole_def)

lemma pay_text_str: "map_of m k = Some (JString t) \<Longrightarrow> pay_text m k = Some t"
  by (simp add: pay_text_def)

lemma jnum32_not_null [simp]: "jnum32 n \<noteq> JNull" "jnum k \<noteq> JNull"
  by (simp_all add: jnum32_def jnum_def)

lemma phase_or_null_opt: "map_of m ''phase'' = Some (jopt jnum32 ph) \<Longrightarrow> phase_or_null m = Some (jopt jnum32 ph)"
  by (cases ph) (simp_all add: phase_or_null_def jopt_def pay_whole_jnum32)

lemma as_u64_opt: "as_u64 (jopt jnum32 ph) = map_option ucast ph"
  by (cases ph) (simp_all add: jopt_def)

lemma numbers_safe_opt [simp]: "numbers_safe (jopt jnum32 ph)"
  by (cases ph) (simp_all add: jopt_def)

lemma numbers_safe_jnums32 [simp]: "numbers_safe (jnums32 ns)"
  by (simp add: jnums32_def)

lemma jnums32_ucast: "JArray (map jnum (map ucast ns)) = jnums32 ns"
  by (simp add: jnums32_def comp_def)

lemmas payload_reads = members_map_of pay_whole_jnum32 pay_wholes_jnums32 pay_text_str phase_or_null_opt as_u64_opt

definition simulated :: "event \<Rightarrow> (string \<times> json) list \<Rightarrow> (string \<times> json) list \<Rightarrow> accepted_scope option \<Rightarrow> bool" where
  "simulated e m d r \<longleftrightarrow>
     (case r of Some s' \<Rightarrow> \<exists>d'. roadmap_body e m d = Inr d' \<and> roadmap_holds d' s' | None \<Rightarrow> \<exists>err. roadmap_body e m d = Inl err)"

lemma update_first_none: "\<not> list_ex P xs \<Longrightarrow> update_first P f xs = xs"
  by (induction xs) auto

lemma serve_by_none: "phase_of s n = None \<Longrightarrow> serve_by (Some n) i s = s"
  by (simp add: serve_by_def change_held_phase_def phase_of_None update_first_none)

lemma serve_by_holds:
  assumes "roadmap_holds d s"
  shows "roadmap_holds (case map_option ucast phase of None \<Rightarrow> d
      | Some n \<Rightarrow> (case change_phase n (serve (ucast i)) d of None \<Rightarrow> d | Some d' \<Rightarrow> d')) (serve_by phase i s)"
proof (cases phase)
  case (Some n)
  from change_phase_holds [OF assms, of "serve (ucast i)" "serve_in i" n, OF phase_reads_serve numbers_safe_serve] show ?thesis
    by (cases "phase_of s n = None") (use assms Some in \<open>auto simp: serve_by_none, auto simp: serve_by_def\<close>)
qed (use assms in \<open>simp add: serve_by_def\<close>)

lemma story_reads_new:
  "story_reads (jobj [(''id'', jnum32 i), (''sentence'', t), (''status'', JString (story_status_str st)), (''phase'', jopt jnum32 ph),
      (''truths'', n)]) \<lparr>hs_id = i, hs_status = held_of st, hs_phase = ph\<rparr>"
  by (simp add: held_story_from_def members_map_of whole_def)

lemma phase_reads_new:
  "phase_reads (jobj [(''number'', jnum32 n), (''name'', JString name), (''goal'', JString goal), (''depends_on'', jnums32 ds),
      (''stories'', jnums32 ss), (''status'', JString ''declared'')])
    \<lparr>hp_number = n, hp_name = name, hp_goal = goal, hp_depends_on = ds, hp_stories = ss, hp_withdrawn = False\<rparr>"
  by (simp add: held_phase_from_def members_map_of whole_def wholes_jnums32 withdrawn_from_def)

lemma put_story_holds:
  assumes h: "roadmap_holds d s" and e: "story_reads entry x" "numbers_safe entry" and ss: "entries_of d ''stories'' = Some ss"
  shows "roadmap_holds (put_entries ''stories'' (if list_ex (member_is ''id'' (ucast (hs_id x))) ss
      then update_first (member_is ''id'' (ucast (hs_id x))) (\<lambda>_. entry) ss else ss @ [entry]) d)
    (s\<lparr>sc_stories := put_story x (sc_stories s)\<rparr>)"
proof -
  from h obtain ss' where "entries_of d ''stories'' = Some ss'" "list_all2 story_reads ss' (sc_stories s)" "\<forall>v \<in> set ss'. numbers_safe v"
    by (rule roadmap_holdsE)
  with ss have S: "list_all2 story_reads ss (sc_stories s)" "\<forall>v \<in> set ss. numbers_safe v" by simp_all
  have ex: "list_ex (member_is ''id'' (ucast (hs_id x))) ss \<longleftrightarrow> list_ex (\<lambda>h. hs_id h = hs_id x) (sc_stories s)"
    by (rule list_all2_ex [OF S(1) story_reads_id])
  have up: "list_all2 story_reads (update_first (member_is ''id'' (ucast (hs_id x))) (\<lambda>_. entry) ss)
      (update_first (\<lambda>h. hs_id h = hs_id x) (\<lambda>_. x) (sc_stories s))"
    by (rule list_all2_update_first [OF S(1) story_reads_id e(1)])
  show ?thesis
    by (rule roadmap_holds_stories [OF h])
      (use S e up in \<open>auto simp: ex put_story_def list_all2_appendI dest!: set_update_first\<close>)
qed

lemma put_phase_holds:
  assumes h: "roadmap_holds d s" and e: "phase_reads entry x" "numbers_safe entry" and ps: "entries_of d ''phases'' = Some ps"
  shows "roadmap_holds (put_entries ''phases'' (placed_phase (ucast (hp_number x)) entry ps) d) (s\<lparr>sc_phases := put_phase x (sc_phases s)\<rparr>)"
proof -
  from h obtain ps' where "entries_of d ''phases'' = Some ps'" "list_all2 phase_reads ps' (sc_phases s)" "\<forall>v \<in> set ps'. numbers_safe v"
    by (rule roadmap_holdsE)
  with ps have S: "list_all2 phase_reads ps (sc_phases s)" "\<forall>v \<in> set ps. numbers_safe v" by simp_all
  let ?b = "takeWhile (below (ucast (hp_number x))) ps" and ?r = "dropWhile (below (ucast (hp_number x))) ps"
  let ?b' = "takeWhile (\<lambda>p. hp_number p < hp_number x) (sc_phases s)" and ?r' = "dropWhile (\<lambda>p. hp_number p < hp_number x) (sc_phases s)"
  note W = list_all2_while [OF S(1), of "below (ucast (hp_number x))" "\<lambda>p. hp_number p < hp_number x", OF below_reads]
  have "list_all2 phase_reads (placed_phase (ucast (hp_number x)) entry ps) (put_phase x (sc_phases s))"
  proof (cases ?r)
    case Nil
    with W(2) have "?r' = []" by (simp only: list_all2_Nil)
    with W(1) Nil e(1) show ?thesis
      by (simp only: placed_phase_def put_phase_def Let_def list.case) (simp add: list_all2_appendI)
  next
    case (Cons v vs)
    with W(2) obtain q qs where q: "?r' = q # qs" "phase_reads v q" "list_all2 phase_reads vs qs" by (auto simp: list_all2_Cons1)
    with W(1) Cons e(1) phase_reads_number [OF q(2), of "hp_number x"] show ?thesis
      by (simp add: placed_phase_def put_phase_def Let_def list_all2_appendI)
  qed
  moreover have "\<forall>v \<in> set (placed_phase (ucast (hp_number x)) entry ps). numbers_safe v"
    using S(2) e(2) by (auto simp: placed_phase_def Let_def dest: set_takeWhileD set_dropWhileD split: list.splits)
      (metis list.set_intros(1,2) set_dropWhileD)+
  ultimately show ?thesis by (intro roadmap_holds_phases [OF h]) simp_all
qed

lemma recommit_holds:
  assumes h: "roadmap_holds d s" and ss: "entries_of d ''stories'' = Some ss"
  shows "roadmap_holds (put_entries ''stories'' (map (recommitted (ucast n) (map ucast listed)) ss) d)
    (s\<lparr>sc_stories := map (recommit_in n listed) (sc_stories s)\<rparr>)"
proof -
  from h obtain ss' where "entries_of d ''stories'' = Some ss'" "list_all2 story_reads ss' (sc_stories s)" "\<forall>v \<in> set ss'. numbers_safe v"
    by (rule roadmap_holdsE)
  with ss have S: "list_all2 story_reads ss (sc_stories s)" "\<forall>v \<in> set ss. numbers_safe v" by simp_all
  have "story_reads (recommitted (ucast n) (map ucast listed) v) (recommit_in n listed h)" if r: "story_reads v h" for v h
  proof -
    have "(ucast (hs_id h) :: u64) \<in> set (map ucast listed) \<longleftrightarrow> hs_id h \<in> set listed" by auto
    moreover have "story_reads (jset ''phase'' (jnum32 n) v) (h\<lparr>hs_phase := Some n\<rparr>)" "story_reads (jset ''phase'' JNull v) (h\<lparr>hs_phase := None\<rparr>)"
      by (rule story_reads_put_phase [OF r], simp add: phase_or_none_Some)+
    ultimately show ?thesis using r story_reads_phase [OF r, of n]
      by (simp add: recommitted_def recommit_in_def story_reads_id_value [OF r] del: set_map jset.simps)
  qed
  then have "list_all2 story_reads (map (recommitted (ucast n) (map ucast listed)) ss) (map (recommit_in n listed) (sc_stories s))"
    by (rule list_all2_map_both [OF S(1)])
  moreover have "numbers_safe (recommitted (ucast n) (map ucast listed) v)" if "numbers_safe v" for v
    using that by (auto simp: recommitted_def simp del: jset.simps intro!: numbers_safe_jset)
  ultimately show ?thesis using S(2) by (intro roadmap_holds_stories [OF h]) auto
qed

lemma list_all2_tl: "list_all2 R xs ys \<Longrightarrow> list_all2 R (tl xs) (tl ys)"
  by (cases xs; cases ys) auto

lemma set_while_tl: "set (takeWhile P xs @ tl (dropWhile P xs)) \<subseteq> set xs"
  by (induction xs) auto

lemma reprioritized_holds:
  assumes "list_all2 story_reads ss hs" "\<forall>v \<in> set ss. numbers_safe v"
  shows "case prioritized order hs of None \<Rightarrow> reprioritized (map ucast order) ss = None
    | Some hs' \<Rightarrow> \<exists>ss'. reprioritized (map ucast order) ss = Some ss' \<and> list_all2 story_reads ss' hs' \<and> (\<forall>v \<in> set ss'. numbers_safe v)"
  using assms
proof (induction order arbitrary: ss hs)
  case (Cons i order)
  have F: "rel_option story_reads (find (member_is ''id'' (ucast i)) ss) (find (\<lambda>h. hs_id h = i) hs)"
    by (rule list_all2_find [OF Cons.prems(1) story_reads_id])
  note W = list_all2_while [OF Cons.prems(1), of "\<lambda>v. \<not> member_is ''id'' (ucast i) v" "\<lambda>h. hs_id h \<noteq> i", OF arg_cong [of _ _ Not, OF story_reads_id]]
  show ?case
  proof (cases "find (\<lambda>h. hs_id h = i) hs")
    case None
    with F show ?thesis by simp
  next
    case (Some h)
    with F obtain v where v: "find (member_is ''id'' (ucast i)) ss = Some v" "story_reads v h" by (auto simp: option_rel_Some2)
    let ?ss = "takeWhile (\<lambda>v. \<not> member_is ''id'' (ucast i) v) ss @ tl (dropWhile (\<lambda>v. \<not> member_is ''id'' (ucast i) v) ss)"
    let ?hs = "takeWhile (\<lambda>h. hs_id h \<noteq> i) hs @ tl (dropWhile (\<lambda>h. hs_id h \<noteq> i) hs)"
    have "list_all2 story_reads (tl (dropWhile (\<lambda>v. \<not> member_is ''id'' (ucast i) v) ss)) (tl (dropWhile (\<lambda>h. hs_id h \<noteq> i) hs))"
      by (rule list_all2_tl [OF W(2)])
    with W(1) have L: "list_all2 story_reads ?ss ?hs" by (intro list_all2_appendI)
    have "set ?ss \<subseteq> set ss"
      by (rule set_while_tl)
    then have "\<forall>v \<in> set ?ss. numbers_safe v" using Cons.prems(2) by blast
    note IH = Cons.IH [OF L this]
    have v_safe: "numbers_safe v" using find_SomeD [OF v(1)] Cons.prems(2) by blast
    show ?thesis
    proof (cases "prioritized order ?hs")
      case None
      with IH show ?thesis by (simp add: Some v(1))
    next
      case hs': (Some hs')
      with IH obtain ss' where "reprioritized (map ucast order) ?ss = Some ss'" "list_all2 story_reads ss' hs'"
        "\<forall>v \<in> set ss'. numbers_safe v" by auto
      with hs' v v_safe Some show ?thesis by simp
    qed
  qed
qed simp

lemma simulatedI:
  "r = Some s' \<Longrightarrow> roadmap_body e m d = Inr d' \<Longrightarrow> roadmap_holds d' s' \<Longrightarrow> simulated e m d r"
  "r = None \<Longrightarrow> roadmap_body e m d = Inl err \<Longrightarrow> simulated e m d r"
  by (auto simp: simulated_def)

lemma simulated_described:
  assumes "type_name e = project_described" "JObject m = described_payload ds digest" "roadmap_holds d s"
  shows "simulated e m d (fact_step FactDescribed s)"
proof -
  from assms(2) have "pay_text m ''what'' = Some (ds_what ds)" "pay_text m ''core_value'' = Some (ds_core_value ds)"
    "pay_texts m ''constraints'' = Some (ds_constraints ds)" "pay_text m ''submission'' = Some (to_hex digest)"
    by (simp_all add: described_payload_def jobj_def payload_reads pay_texts_def jstrs_def)
  then have "roadmap_body e m d = Inr (ains ''description'' (jobj [(''what'', JString (ds_what ds)), (''core_value'', JString (ds_core_value ds)),
         (''constraints'', jstrs (ds_constraints ds)), (''submission'', JString (to_hex digest))]) d)"
    by (simp add: roadmap_body_cases(1) [OF assms(1)] described_body_def)
  then show ?thesis
    by (intro simulatedI(1) [OF _ _ roadmap_holds_other [OF assms(3)]]) (auto simp: numbers_safe_jobj jstrs_def)
qed

lemma simulated_story:
  assumes "type_name e = story_declared" "JObject m = story_declared_payload i sentence status phase digest" "roadmap_holds d s"
  shows "simulated e m d (fact_step (FactStory i status phase) s)"
proof -
  from assms(2) have P: "pay_whole m ''id'' = Some (ucast i)" "phase_or_null m = Some (jopt jnum32 phase)"
    "pay_text m ''sentence'' = Some sentence" "pay_text m ''status'' = Some (story_status_str status)"
    by (simp_all add: story_declared_payload_def jobj_def payload_reads)
  obtain ss where ss: "entries_of d ''stories'' = Some ss" using assms(3) by (rule roadmap_holdsE)
  let ?h = "\<lparr>hs_id = i, hs_status = held_of status, hs_phase = phase\<rparr>"
  let ?entry = "jobj [(''id'', jnum32 i), (''sentence'', JString sentence), (''status'', JString (story_status_str status)),
      (''phase'', jopt jnum32 phase), (''truths'', jnum 0)]"
  have "numbers_safe (jnum 0)" using numbers_safe_jnum32 [of 0] jnum_ucast [of 0] by simp
  then have "numbers_safe ?entry" by (auto simp: numbers_safe_jobj)
  note safe = this
  let ?ss = "if list_ex (member_is ''id'' (ucast i)) ss then update_first (member_is ''id'' (ucast i)) (\<lambda>_. ?entry) ss else ss @ [?entry]"
  let ?d = "raise_to ''highest_story'' (ucast i) (put_entries ''stories'' ?ss d)"
  have A: "roadmap_holds (put_entries ''stories'' ?ss d) (s\<lparr>sc_stories := put_story ?h (sc_stories s)\<rparr>)"
    using put_story_holds [OF assms(3) story_reads_new [of i "JString sentence" status phase "jnum 0"] safe ss]
    by (simp only: held_story.select_convs)
  note B = serve_by_holds [OF roadmap_holds_raise_story [OF A, of i], where phase = phase and i = i]
  have num: "jnum (ucast i) = jnum32 i" by simp
  have body: "roadmap_body e m d = Inr (case map_option ucast phase of None \<Rightarrow> ?d
      | Some n \<Rightarrow> (case change_phase n (serve (ucast i)) ?d of None \<Rightarrow> ?d | Some d' \<Rightarrow> d'))"
    by (simp only: roadmap_body_cases(2) [OF assms(1)] story_declared_body_def P ss Let_def as_u64_opt ok_or_simps rbind.simps num)
  show ?thesis by (rule simulatedI(1) [OF _ body B]) simp
qed

lemma simulated_phase:
  assumes "type_name e = phase_declared" "JObject m = phase_declared_payload n name goal detail depends_on stories digest"
    "roadmap_holds d s"
  shows "simulated e m d (fact_step (FactPhase n name goal depends_on stories) s)"
proof -
  from assms(2) have P: "pay_whole m ''number'' = Some (ucast n)" "pay_wholes m ''stories'' = Some (map ucast stories)"
    "pay_text m ''name'' = Some name" "pay_text m ''goal'' = Some goal" "pay_wholes m ''depends_on'' = Some (map ucast depends_on)"
    by (simp_all add: phase_declared_payload_def jobj_def payload_reads)
  obtain ps where ps: "entries_of d ''phases'' = Some ps" using assms(3) by (rule roadmap_holdsE)
  let ?p = "\<lparr>hp_number = n, hp_name = name, hp_goal = goal, hp_depends_on = depends_on, hp_stories = stories, hp_withdrawn = False\<rparr>"
  let ?entry = "jobj [(''number'', jnum32 n), (''name'', JString name), (''goal'', JString goal), (''depends_on'', jnums32 depends_on),
      (''stories'', jnums32 stories), (''status'', JString ''declared'')]"
  have "numbers_safe ?entry" by (auto simp: numbers_safe_jobj)
  note A = put_phase_holds [OF assms(3) phase_reads_new [of n name goal depends_on stories] this ps]
  note B = roadmap_holds_raise_phase [OF A, of n]
  let ?d = "raise_to ''highest_phase'' (ucast n) (put_entries ''phases'' (placed_phase (ucast n) ?entry ps) d)"
  obtain ss where ss: "entries_of ?d ''stories'' = Some ss" using B by (auto elim: roadmap_holdsE)
  note C = recommit_holds [OF B, of ss n stories]
  have "roadmap_body e m d = Inr (put_entries ''stories'' (map (recommitted (ucast n) (map ucast stories)) ss) ?d)"
    using ss by (simp add: roadmap_body_cases(3) [OF assms(1)] phase_declared_body_def P ps Let_def jnums32_ucast del: map_map)
  then show ?thesis by (rule simulatedI(1) [rotated]) (use C ss in simp_all)
qed

lemma simulated_order:
  assumes "type_name e = phase_reordered" "JObject m = phase_reordered_payload order digest" "roadmap_holds d s"
  shows "simulated e m d (fact_step (FactOrder order) s)"
proof -
  from assms(2) have "pay_wholes m ''order'' = Some (map ucast order)"
    by (simp add: phase_reordered_payload_def jobj_def payload_reads)
  then have "roadmap_body e m d = Inr (ains ''order'' (jnums32 order) d)"
    by (simp add: roadmap_body_cases(4) [OF assms(1)] jnums32_ucast del: map_map)
  moreover have "roadmap_holds (ains ''order'' (jnums32 order) d) (s\<lparr>sc_order := order\<rparr>)"
    using assms(3) by (auto simp: roadmap_holds_def holds_scope_def wholes_jnums32 intro!: doc_fine_ains)
  ultimately show ?thesis by (intro simulatedI(1)) simp_all
qed

lemma simulated_withdrawn:
  assumes "type_name e = phase_withdrawn" "JObject m = phase_withdrawn_payload n digest" "roadmap_holds d s"
  shows "simulated e m d (fact_step (FactWithdrawn n) s)"
proof -
  from assms(2) have P: "pay_whole m ''number'' = Some (ucast n)"
    by (simp add: phase_withdrawn_payload_def jobj_def payload_reads)
  from change_phase_holds [OF assms(3), of "jset ''status'' (JString ''withdrawn'')" "\<lambda>p. p\<lparr>hp_withdrawn := True\<rparr>" n,
      OF phase_reads_withdrawn numbers_safe_jset]
  show ?thesis
    by (cases "phase_of s n = None") (auto simp: simulated_def roadmap_body_cases(5) [OF assms(1)] P)
qed

lemma simulated_corrected:
  assumes "type_name e = story_corrected" "JObject m = story_corrected_payload i sentence status digest" "roadmap_holds d s"
  shows "simulated e m d (fact_step (FactCorrected i status) s)"
proof -
  from assms(2) have P: "pay_whole m ''id'' = Some (ucast i)" "pay_text m ''sentence'' = Some sentence"
    "pay_text m ''status'' = Some (story_status_str status)"
    by (simp_all add: story_corrected_payload_def jobj_def payload_reads)
  have f: "story_reads (jset ''status'' (JString (story_status_str status)) (jset ''sentence'' (JString sentence) v)) (h\<lparr>hs_status := held_of status\<rparr>)"
    if "story_reads v h" for v h
    by (rule story_reads_status [OF story_reads_other [OF that]]) simp_all
  from change_story_holds [OF assms(3), of "\<lambda>v. jset ''status'' (JString (story_status_str status)) (jset ''sentence'' (JString sentence) v)"
      "\<lambda>h. h\<lparr>hs_status := held_of status\<rparr>" i, OF f numbers_safe_jset [OF numbers_safe_jset]]
  show ?thesis
    by (cases "story_of s i = None") (auto simp: simulated_def roadmap_body_cases(6) [OF assms(1)] story_corrected_body_def P)
qed

lemma story_of_unserve [simp]: "story_of (unserve_all i s) k = story_of s k"
  by (simp add: story_of_def unserve_all_def)

lemma phase_of_unserve_None [simp]: "phase_of (unserve_all i s) n = None \<longleftrightarrow> phase_of s n = None"
  by (auto simp: phase_of_None unserve_all_def unserve_in_def list_ex_iff)

lemma phase_of_change_story [simp]: "phase_of (change_held_story i f s) n = phase_of s n"
  by (simp add: phase_of_def change_held_story_def)

lemma moved_holds:
  assumes "roadmap_holds d s" "held_status_parse t = Some st"
  shows "if story_of s i = None
    then change_story (ucast i) (\<lambda>v. jset ''phase'' (jopt jnum32 phase) (jset ''status'' (JString t) v)) (unserve (ucast i) d) = None
    else \<exists>d'. change_story (ucast i) (\<lambda>v. jset ''phase'' (jopt jnum32 phase) (jset ''status'' (JString t) v)) (unserve (ucast i) d) = Some d'
      \<and> roadmap_holds d' (change_held_story i (\<lambda>h. h\<lparr>hs_status := st, hs_phase := phase\<rparr>) (unserve_all i s))"
proof -
  have f: "story_reads (jset ''phase'' (jopt jnum32 phase) (jset ''status'' (JString t) v)) (h\<lparr>hs_status := st, hs_phase := phase\<rparr>)"
    if "story_reads v h" for v h
    by (rule story_reads_put_phase [OF story_reads_status [OF that assms(2)]]) simp
  have safe: "numbers_safe (jset ''phase'' (jopt jnum32 phase) (jset ''status'' (JString t) v))" if "numbers_safe v" for v
    by (intro numbers_safe_jset that) simp_all
  from change_story_holds [OF unserve_holds [OF assms(1), of i],
      of "\<lambda>v. jset ''phase'' (jopt jnum32 phase) (jset ''status'' (JString t) v)" "\<lambda>h. h\<lparr>hs_status := st, hs_phase := phase\<rparr>" i, OF f safe]
  show ?thesis by simp
qed

lemma simulated_moved:
  assumes "type_name e = story_reassigned" "JObject m = story_reassigned_payload i status phase digest" "roadmap_holds d s"
  shows "simulated e m d (fact_step (FactMoved i status phase) s)"
proof -
  from assms(2) have P: "pay_whole m ''id'' = Some (ucast i)" "phase_or_null m = Some (jopt jnum32 phase)"
    "pay_text m ''status'' = Some (story_status_str status)"
    by (simp_all add: story_reassigned_payload_def jobj_def payload_reads)
  note A = moved_holds [OF assms(3) held_status_parse_str, where i = i and phase = phase and st1 = status]
  note body = roadmap_body_cases(10) [OF assms(1)] story_moved_body_def P
  show ?thesis
  proof (cases "story_of s i = None")
    case True
    with A show ?thesis by (intro simulatedI(2)) (auto simp: body)
  next
    case False
    with A obtain d' where d': "change_story (ucast i) (\<lambda>v. jset ''phase'' (jopt jnum32 phase) (jset ''status'' (JString (story_status_str status)) v))
        (unserve (ucast i) d) = Some d'"
      "roadmap_holds d' (change_held_story i (\<lambda>h. h\<lparr>hs_status := held_of status, hs_phase := phase\<rparr>) (unserve_all i s))" by auto
    show ?thesis
    proof (cases phase)
      case None
      with d' False show ?thesis by (intro simulatedI(1) [OF _ _ d'(2)]) (simp_all add: body as_u64_opt serve_by_def)
    next
      case (Some n)
      from change_phase_holds [OF d'(2), of "serve (ucast i)" "serve_in i" n, OF phase_reads_serve numbers_safe_serve]
      show ?thesis using d'(1) False
        by (cases "phase_of s n = None") (auto simp: Some simulated_def body as_u64_opt serve_by_def)
    qed
  qed
qed

lemma simulated_dropped:
  assumes "type_name e = story_dropped" "JObject m = story_dropped_payload i digest" "roadmap_holds d s"
  shows "simulated e m d (fact_step (FactDropped i) s)"
proof -
  from assms(2) have P: "pay_whole m ''id'' = Some (ucast i)" "pay_text m ''status'' = Some ''dropped''"
    by (simp_all add: story_dropped_payload_def jobj_def payload_reads)
  have "held_status_parse ''dropped'' = Some HeldDropped" by (simp add: held_status_parse_def)
  from moved_holds [OF assms(3) this, where i = i and phase = None] show ?thesis
    by (cases "story_of s i = None") (auto simp: simulated_def roadmap_body_cases(7) [OF assms(1)] story_dropped_body_def P jopt_def)
qed

lemma simulated_priority:
  assumes "type_name e = story_reprioritized" "JObject m = story_reprioritized_payload order digest" "roadmap_holds d s"
  shows "simulated e m d (fact_step (FactPriority order) s)"
proof -
  from assms(2) have P: "pay_wholes m ''order'' = Some (map ucast order)"
    by (simp add: story_reprioritized_payload_def jobj_def payload_reads)
  obtain ss where ss: "entries_of d ''stories'' = Some ss" "list_all2 story_reads ss (sc_stories s)" "\<forall>v \<in> set ss. numbers_safe v"
    using assms(3) by (rule roadmap_holdsE)
  note body = roadmap_body_cases(8) [OF assms(1)] reprioritized_body_def P ss(1)
  note R = reprioritized_holds [OF ss(2,3), of order]
  show ?thesis
  proof (cases "prioritized order (sc_stories s)")
    case None
    with R show ?thesis by (intro simulatedI(2)) (simp_all add: body)
  next
    case (Some hs)
    with R obtain ss' where "reprioritized (map ucast order) ss = Some ss'" "list_all2 story_reads ss' hs" "\<forall>v \<in> set ss'. numbers_safe v"
      by auto
    then show ?thesis
      by (intro simulatedI(1) [OF _ _ roadmap_holds_stories [OF assms(3), of ss' "s\<lparr>sc_stories := hs\<rparr>"]]) (simp_all add: Some body)
  qed
qed

lemma simulated_refined:
  assumes "type_name e = story_refined" "map_of m ''story'' = Some (jnum32 i)" "map_of m ''truths'' = Some (JArray truths)"
    "int (length truths) \<le> max_safe_integer" "roadmap_holds d s"
  shows "simulated e m d (fact_step (FactRefined i) s)"
proof -
  have small: "length truths < 2 ^ 63" using assms(4) by (simp add: max_safe_integer_def)
  then have "unat (of_nat (length truths) :: u64) = length truths" by (simp add: unat_of_nat)
  then have safe: "numbers_safe (jnum (of_nat (length truths)))"
    using assms(4) small by (simp add: jnum_def dec_u64_def parse_i64_dec max_safe_integer_def)
  have f: "story_reads (jset ''truths'' (jnum (of_nat (length truths))) v) h" if "story_reads v h" for v h
    by (rule story_reads_other [OF that]) simp_all
  have same: "change_held_story i (\<lambda>h. h) s = s"
  proof -
    have "update_first P (\<lambda>h. h) xs = xs" for P and xs :: "held_story list" by (induction xs) auto
    then show ?thesis by (simp add: change_held_story_def)
  qed
  from change_story_holds [OF assms(5), of "jset ''truths'' (jnum (of_nat (length truths)))" "\<lambda>h. h" i, OF f numbers_safe_jset [OF _ safe]]
  show ?thesis
    by (cases "story_of s i = None")
      (auto simp: simulated_def roadmap_body_cases(9) [OF assms(1)] refined_body_def pay_whole_jnum32 [OF assms(2)] assms(3) same)
qed

theorem fact_simulated:
  assumes "states (type_name e) (JObject m) f" "roadmap_holds d s"
  shows "simulated e m d (fact_step f s)"
  using assms(1)
proof cases
  case (states_described ds digest)
  with simulated_described [OF _ _ assms(2)] show ?thesis by simp
next
  case (states_story i sentence status phase digest)
  with simulated_story [OF _ _ assms(2)] show ?thesis by simp
next
  case (states_phase n name goal detail depends_on stories digest)
  with simulated_phase [OF _ _ assms(2)] show ?thesis by simp
next
  case (states_order order digest)
  with simulated_order [OF _ _ assms(2)] show ?thesis by simp
next
  case (states_withdrawn n digest)
  with simulated_withdrawn [OF _ _ assms(2)] show ?thesis by simp
next
  case (states_corrected i sentence status digest)
  with simulated_corrected [OF _ _ assms(2)] show ?thesis by simp
next
  case (states_moved i status phase digest)
  with simulated_moved [OF _ _ assms(2)] show ?thesis by simp
next
  case (states_dropped i digest)
  with simulated_dropped [OF _ _ assms(2)] show ?thesis by simp
next
  case (states_priority order digest)
  with simulated_priority [OF _ _ assms(2)] show ?thesis by simp
next
  case (states_refined i truths)
  with simulated_refined [OF _ _ _ _ assms(2)] show ?thesis by simp
qed

section \<open>A run of events\<close>

fun fold_facts :: "scope_fact list \<Rightarrow> accepted_scope \<Rightarrow> accepted_scope option" where
  "fold_facts [] s = Some s"
| "fold_facts (f # fs) s = Option.bind (fact_step f s) (fold_facts fs)"

inductive told :: "event list \<Rightarrow> scope_fact list \<Rightarrow> bool" where
  told_nil: "told [] []"
| told_fact: "states (type_name e) (payload e) f \<Longrightarrow> told es fs \<Longrightarrow> told (e # es) (f # fs)"
| told_other: "type_name e \<notin> set (p_handles roadmap_projector) \<Longrightarrow> told es fs \<Longrightarrow> told (e # es) fs"

fun scope_held :: "json option \<Rightarrow> accepted_scope \<Rightarrow> bool" where
  "scope_held None s = (s = empty_scope)"
| "scope_held (Some (JObject d)) s = roadmap_holds d s"
| "scope_held _ s = False"

lemma scope_held_reads: "scope_held body s \<Longrightarrow> read_scope body = Some s"
  by (cases "(body, s)" rule: scope_held.cases) (auto simp: roadmap_holds_def read_scope_holds, simp add: read_scope_def)

lemma roadmap_holds_empty: "roadmap_holds empty_roadmap empty_scope"
proof -
  have z: "jnum 0 = jnum32 0" using jnum_ucast [of 0] by simp
  have "numbers_safe (jobj [(''roadmap'', JString ''project''), (''description'', JNull), (''phases'', JArray []), (''order'', JArray []),
       (''stories'', JArray []), (''highest_phase'', jnum 0), (''highest_story'', jnum 0)])"
    by (auto simp: numbers_safe_jobj z)
  then show ?thesis
    by (simp add: roadmap_holds_def holds_scope_def doc_fine_def empty_roadmap_def empty_scope_def members_map_of jobj_def
        wholes_def whole_def z del: numbers_safe.simps)
qed

lemma states_handled: "states name body f \<Longrightarrow> name \<in> set (p_handles roadmap_projector) \<and> (\<exists>m. body = JObject m)"
  by (induction rule: states.induct)
    (simp_all add: roadmap_projector_def described_payload_def story_declared_payload_def phase_declared_payload_def
      phase_reordered_payload_def phase_withdrawn_payload_def story_corrected_payload_def story_reassigned_payload_def
      story_dropped_payload_def story_reprioritized_payload_def jobj_def)

definition roadmap_staged :: "staging \<Rightarrow> u64 set \<Rightarrow> bool" where
  "roadmap_staged st ns \<longleftrightarrow> st = [] \<or> (\<exists>d n. st = [(roadmap_key, \<lparr>st_body = Some (JObject d), st_seq = n\<rparr>)] \<and> n \<in> ns)"

lemma fold_event_roadmap:
  assumes s: "states (type_name e) (payload e) f" and held: "scope_held (doc_read table st roadmap_key) s"
    and st: "roadmap_staged st ns"
  shows "case fact_step f s of
      Some s' \<Rightarrow> \<exists>d. roadmap_holds d s' \<and> fold_event roadmap_projector table e st =
        Inr [(roadmap_key, \<lparr>st_body = Some (JObject d), st_seq = seq e\<rparr>)]
    | None \<Rightarrow> \<exists>err. fold_event roadmap_projector table e st = Inl err"
proof -
  from states_handled [OF s] obtain m where m: "type_name e \<in> set (p_handles roadmap_projector)" "payload e = JObject m" by blast
  have keys: "\<not> key_refused roadmap_spec st roadmap_key"
    by (simp add: key_refused_def roadmap_key_def roadmap_spec_def fitted_def)
  have docs: "documents_at table st [roadmap_key] =
      (case doc_read table st roadmap_key of None \<Rightarrow> [] | Some b \<Rightarrow> [(roadmap_key, b)])"
    by (simp add: documents_at_one)
  obtain d where d: "roadmap_document e (documents_at table st [roadmap_key]) = Inr d" "roadmap_holds d s"
  proof (cases "doc_read table st roadmap_key")
    case None
    with held docs that [of empty_roadmap] roadmap_holds_empty show ?thesis by (simp add: roadmap_document_def)
  next
    case (Some b)
    with held obtain d where "b = JObject d" "roadmap_holds d s" by (cases b) auto
    with Some docs that [of d] show ?thesis by (simp add: roadmap_document_def)
  qed
  have step: "fold_event roadmap_projector table e st =
      rbind (map_err (ProjectorFailed roadmap_view (seq e)) (rbind (roadmap_body e m d) (\<lambda>b. Inr [Put roadmap_key (JObject b)])))
        (\<lambda>cs. Inr (foldl (stage (seq e)) st cs))"
    using m keys d(1)
    by (simp add: fold_event_def roadmap_projector_def roadmap_apply_def roadmap_spec_def)
  have one: "stage (seq e) st (Put roadmap_key b) = [(roadmap_key, \<lparr>st_body = Some b, st_seq = seq e\<rparr>)]" for b
    using st by (auto simp: roadmap_staged_def stage_def)
  from fact_simulated [OF s [unfolded m(2)] d(2)] show ?thesis
    by (cases "fact_step f s") (auto simp: simulated_def step one)
qed

lemma fold_event_other: "type_name e \<notin> set (p_handles p) \<Longrightarrow> fold_event p table e st = Inr st"
  by (simp add: fold_event_def)

lemma roadmap_staged_read:
  "roadmap_staged st ns \<Longrightarrow> st = [] \<or> (\<exists>d. doc_read table st roadmap_key = Some (JObject d))"
  by (auto simp: roadmap_staged_def doc_read_def)

lemma fold_events_roadmap:
  assumes "told es fs" "scope_held (doc_read table st roadmap_key) s" "roadmap_staged st ns" "seq ` set es \<subseteq> ns"
  shows "case fold_facts fs s of
      Some s' \<Rightarrow> \<exists>st'. fold_events roadmap_projector table es st = Inr st' \<and> roadmap_staged st' ns
        \<and> scope_held (doc_read table st' roadmap_key) s'
    | None \<Rightarrow> \<exists>err. fold_events roadmap_projector table es st = Inl err"
  using assms
proof (induction arbitrary: st s)
  case told_nil
  then show ?case by simp
next
  case (told_fact e f es fs)
  note F = fold_event_roadmap [OF told_fact.hyps(1) told_fact.prems(1,2)]
  show ?case
  proof (cases "fact_step f s")
    case None
    with F show ?thesis by auto
  next
    case (Some s')
    with F obtain d where d: "roadmap_holds d s'"
      "fold_event roadmap_projector table e st = Inr [(roadmap_key, \<lparr>st_body = Some (JObject d), st_seq = seq e\<rparr>)]" by auto
    have "scope_held (doc_read table [(roadmap_key, \<lparr>st_body = Some (JObject d), st_seq = seq e\<rparr>)] roadmap_key) s'"
      using d(1) by (simp add: doc_read_def)
    moreover have "roadmap_staged [(roadmap_key, \<lparr>st_body = Some (JObject d), st_seq = seq e\<rparr>)] ns"
      using told_fact.prems(3) by (auto simp: roadmap_staged_def)
    ultimately have "case fold_facts fs s' of
        Some s' \<Rightarrow> \<exists>st'. fold_events roadmap_projector table es [(roadmap_key, \<lparr>st_body = Some (JObject d), st_seq = seq e\<rparr>)] = Inr st'
          \<and> roadmap_staged st' ns \<and> scope_held (doc_read table st' roadmap_key) s'
      | None \<Rightarrow> \<exists>err. fold_events roadmap_projector table es [(roadmap_key, \<lparr>st_body = Some (JObject d), st_seq = seq e\<rparr>)] = Inl err"
      using told_fact.prems(3) by (intro told_fact.IH) simp_all
    moreover have "fold_events roadmap_projector table (e # es) st =
        fold_events roadmap_projector table es [(roadmap_key, \<lparr>st_body = Some (JObject d), st_seq = seq e\<rparr>)]"
      by (simp add: d(2))
    ultimately show ?thesis by (simp only: Some fold_facts.simps Option.bind.simps)
  qed
next
  case (told_other e es fs)
  have "fold_events roadmap_projector table (e # es) st = fold_events roadmap_projector table es st"
    using told_other.hyps(1) by (simp add: fold_event_other)
  then show ?case using told_other.IH [OF told_other.prems(1,2)] told_other.prems(3) by (simp only: set_simps image_insert insert_subset)
qed

lemma roadmap_change_fine:
  assumes "doc_fine d" "unat n < 2 ^ 63"
  shows "check_change roadmap_spec roadmap_key (Some (JObject d)) n = Inr ()"
proof -
  obtain b where "canonical_json (JObject d) = Inr b"
    using canonical_json_ok [of "JObject d"] assms(1) by (auto simp: doc_fine_def simp del: numbers_safe.simps)
  then show ?thesis using assms
    by (simp add: check_change_def doc_fine_def roadmap_key_def roadmap_spec_def fitted_def key_held_def index_held_def index_columns_def)
qed

text \<open>Projecting a run of scope events succeeds exactly when its facts apply, and the document then
  holds the scope they give; no other document changes.\<close>

lemma roadmap_projects:
  assumes "told es fs" "scope_held (map_option doc_body (table roadmap_key)) s" "\<forall>e \<in> set es. unat (seq e) < 2 ^ 63"
  shows "case fold_facts fs s of
      Some s' \<Rightarrow> \<exists>table'. project_events roadmap_projector table es = Inr table'
        \<and> scope_held (map_option doc_body (table' roadmap_key)) s' \<and> (\<forall>k. k \<noteq> roadmap_key \<longrightarrow> table' k = table k)
    | None \<Rightarrow> \<exists>err. project_events roadmap_projector table es = Inl err"
proof -
  have "scope_held (doc_read table [] roadmap_key) s" using assms(2) by (simp add: doc_read_def)
  note F = fold_events_roadmap [OF assms(1) this, of "seq ` set es"]
  show ?thesis
  proof (cases "fold_facts fs s")
    case None
    with F show ?thesis by (auto simp: roadmap_staged_def project_events_def)
  next
    case (Some s')
    with F obtain st where st: "fold_events roadmap_projector table es [] = Inr st" "roadmap_staged st (seq ` set es)"
      "scope_held (doc_read table st roadmap_key) s'" by (auto simp: roadmap_staged_def)
    show ?thesis
    proof (cases "st = []")
      case True
      with st assms(2) Some show ?thesis by (auto simp: project_events_def doc_read_def)
    next
      case False
      with st(2) obtain d n where d: "st = [(roadmap_key, \<lparr>st_body = Some (JObject d), st_seq = n\<rparr>)]" "n \<in> seq ` set es"
        by (auto simp: roadmap_staged_def)
      have "roadmap_holds d s'" using st(3) by (simp add: d doc_read_def)
      then have "check_change roadmap_spec roadmap_key (Some (JObject d)) n = Inr ()"
        using assms(3) d(2) by (intro roadmap_change_fine) (auto simp: roadmap_holds_def)
      then show ?thesis using Some st(1) \<open>roadmap_holds d s'\<close>
        by (simp add: project_events_def d(1) write_change_def roadmap_projector_def)
    qed
  qed
qed

end
