(* ===== verification/Scope_Invariant.thy ===== *)
theory Scope_Invariant
  imports Scope_Cycle Roadmap_Steps
begin

text \<open>
  What every accepted scope satisfies: phases in ascending order of their number, numbers and ids
  never past the highest declared, an order that holds each declared phase once, stories and
  phases that agree on who serves whom, dependencies among declared phases, and no dependency
  cycle.  \<open>scope_inv R\<close> is the same without the order, for a withdrawal under way: the stories in
  \<open>R\<close> may still be served by a withdrawn phase.
\<close>

definition declared_numbers :: "accepted_scope \<Rightarrow> u32 set" where
  "declared_numbers s = hp_number ` set (declared_phases s)"

definition depends_rel :: "accepted_scope \<Rightarrow> (u32 \<times> u32) set" where
  "depends_rel s = (\<Union>p \<in> set (declared_phases s). {hp_number p} \<times> set (hp_depends_on p))"

definition phases_ok :: "accepted_scope \<Rightarrow> bool" where
  "phases_ok s \<longleftrightarrow> sorted_wrt (<) (map hp_number (sc_phases s))
     \<and> (\<forall>p \<in> set (sc_phases s). hp_number p \<le> sc_highest_phase s \<and> distinct (hp_stories p))"

definition stories_ok :: "accepted_scope \<Rightarrow> bool" where
  "stories_ok s \<longleftrightarrow> distinct (map hs_id (sc_stories s)) \<and> (\<forall>h \<in> set (sc_stories s). hs_id h \<le> sc_highest_story s)"

definition served_ok :: "u32 set \<Rightarrow> accepted_scope \<Rightarrow> bool" where
  "served_ok R s \<longleftrightarrow>
     (\<forall>p \<in> set (sc_phases s). \<forall>i \<in> set (hp_stories p).
        \<exists>h \<in> set (sc_stories s). hs_id h = i \<and> hs_status h = HeldActive \<and> hs_phase h = Some (hp_number p))
     \<and> (\<forall>h \<in> set (sc_stories s). \<forall>n. hs_phase h = Some n \<longrightarrow>
          (\<exists>p \<in> set (sc_phases s). hp_number p = n \<and> hs_id h \<in> set (hp_stories p) \<and> (hp_withdrawn p \<longrightarrow> hs_id h \<in> R)))"

definition deps_ok :: "accepted_scope \<Rightarrow> bool" where
  "deps_ok s \<longleftrightarrow> snd ` depends_rel s \<subseteq> declared_numbers s \<and> acyclic (depends_rel s)"

definition order_ok :: "accepted_scope \<Rightarrow> bool" where
  "order_ok s \<longleftrightarrow> distinct (sc_order s) \<and> set (sc_order s) = declared_numbers s"

definition scope_inv :: "u32 set \<Rightarrow> accepted_scope \<Rightarrow> bool" where
  "scope_inv R s \<longleftrightarrow> phases_ok s \<and> stories_ok s \<and> served_ok R s \<and> deps_ok s"

definition scope_ok :: "accepted_scope \<Rightarrow> bool" where
  "scope_ok s \<longleftrightarrow> scope_inv {} s \<and> order_ok s"

lemma scope_okD:
  assumes "scope_ok s"
  shows "phases_ok s" "stories_ok s" "served_ok {} s" "deps_ok s" "order_ok s" "scope_inv {} s"
  using assms by (simp_all add: scope_ok_def scope_inv_def)

lemma empty_scope_ok: "scope_ok empty_scope"
  by (simp add: scope_ok_def scope_inv_def phases_ok_def stories_ok_def served_ok_def deps_ok_def order_ok_def
      depends_rel_def declared_numbers_def declared_phases_def empty_scope_def acyclic_def)

section \<open>Looking up\<close>

lemma phases_distinct: "phases_ok s \<Longrightarrow> distinct (map hp_number (sc_phases s))"
  by (simp add: phases_ok_def strict_sorted_iff)

lemma distinct_key: "distinct (map k xs) \<Longrightarrow> x \<in> set xs \<Longrightarrow> y \<in> set xs \<Longrightarrow> k x = k y \<Longrightarrow> x = y"
  by (metis distinct_map inj_onD)

lemma find_key: "distinct (map k xs) \<Longrightarrow> find (\<lambda>x. k x = n) xs = Some x \<longleftrightarrow> x \<in> set xs \<and> k x = n"
  by (induction xs) auto

lemma phase_of_Some: "phases_ok s \<Longrightarrow> phase_of s n = Some p \<longleftrightarrow> p \<in> set (sc_phases s) \<and> hp_number p = n"
  unfolding phase_of_def by (rule find_key [OF phases_distinct])

lemma story_of_Some: "stories_ok s \<Longrightarrow> story_of s i = Some h \<longleftrightarrow> h \<in> set (sc_stories s) \<and> hs_id h = i"
  unfolding story_of_def by (rule find_key) (simp add: stories_ok_def)

lemma story_of_ex: "story_of s i \<noteq> None \<longleftrightarrow> (\<exists>h \<in> set (sc_stories s). hs_id h = i)"
  by (auto simp: story_of_None list_ex_iff)

lemma declared_Some: "phases_ok s \<Longrightarrow> declared s n = Some p \<longleftrightarrow> p \<in> set (declared_phases s) \<and> hp_number p = n"
  using phase_of_Some [of s n p]
  by (auto simp: declared_def declared_phases_def split: option.splits)

lemma is_declared_iff: "phases_ok s \<Longrightarrow> is_declared s n \<longleftrightarrow> n \<in> declared_numbers s"
  by (auto simp: is_declared_def declared_numbers_def declared_Some)

lemma update_first_map: "distinct (map k xs) \<Longrightarrow> update_first (\<lambda>x. k x = n) f xs = map (\<lambda>x. if k x = n then f x else x) xs"
proof (induction xs)
  case (Cons x xs)
  then show ?case by (cases "k x = n") (auto intro!: map_idI [symmetric], metis image_eqI)
qed simp

lemma served_unique:
  assumes "served_ok R s" "stories_ok s" "phases_ok s" "p \<in> set (sc_phases s)" "q \<in> set (sc_phases s)"
    "i \<in> set (hp_stories p)" "i \<in> set (hp_stories q)"
  shows "p = q"
proof -
  from assms(1,4-7) obtain h k where "h \<in> set (sc_stories s)" "hs_id h = i" "hs_phase h = Some (hp_number p)"
    "k \<in> set (sc_stories s)" "hs_id k = i" "hs_phase k = Some (hp_number q)" unfolding served_ok_def by blast
  moreover from this have "h = k" using assms(2) by (intro distinct_key [of hs_id]) (auto simp: stories_ok_def)
  ultimately have "hp_number p = hp_number q" by simp
  with phases_distinct [OF assms(3)] assms(4,5) show ?thesis by (rule distinct_key)
qed

section \<open>Moving a story\<close>

definition moved :: "u32 \<Rightarrow> held_status \<Rightarrow> u32 option \<Rightarrow> accepted_scope \<Rightarrow> accepted_scope" where
  "moved i status phase s =
     s\<lparr>sc_phases := map (\<lambda>p. p\<lparr>hp_stories := removeAll i (hp_stories p) @ (if phase = Some (hp_number p) then [i] else [])\<rparr>) (sc_phases s),
       sc_stories := map (\<lambda>h. if hs_id h = i then h\<lparr>hs_status := status, hs_phase := phase\<rparr> else h) (sc_stories s)\<rparr>"

lemma moved_eq:
  assumes "phases_ok s" "stories_ok s"
  shows "serve_by phase i (change_held_story i (\<lambda>h. h\<lparr>hs_status := status, hs_phase := phase\<rparr>) (unserve_all i s)) = moved i status phase s"
proof -
  have d: "distinct (map hs_id (sc_stories s))" "distinct (map (hp_number \<circ> unserve_in i) (sc_phases s))"
    using assms phases_distinct by (simp_all add: stories_ok_def unserve_in_def comp_def)
  show ?thesis
    by (cases phase)
      (auto simp: serve_by_def change_held_story_def change_held_phase_def unserve_all_def moved_def
        update_first_map [OF d(1)] update_first_map [of hp_number "map (unserve_in i) (sc_phases s)", simplified map_map, OF d(2)]
        serve_in_def unserve_in_def)
qed

lemma moved_frame [simp]:
  "sc_order (moved i st ph s) = sc_order s" "sc_highest_phase (moved i st ph s) = sc_highest_phase s"
  "sc_highest_story (moved i st ph s) = sc_highest_story s"
  by (simp_all add: moved_def)

lemma declared_phases_moved: "declared_phases (moved i st ph s) =
    map (\<lambda>p. p\<lparr>hp_stories := removeAll i (hp_stories p) @ (if ph = Some (hp_number p) then [i] else [])\<rparr>) (declared_phases s)"
  by (simp add: declared_phases_def moved_def filter_map comp_def)

lemma moved_numbers [simp]: "declared_numbers (moved i st ph s) = declared_numbers s"
  by (simp add: declared_numbers_def declared_phases_moved image_image)

lemma moved_depends [simp]: "depends_rel (moved i st ph s) = depends_rel s"
  by (auto simp: depends_rel_def declared_phases_moved)

lemma scope_inv_moved:
  assumes inv: "scope_inv R s" and i: "story_of s i \<noteq> None"
    and ph: "\<And>n. ph = Some n \<Longrightarrow> st = HeldActive \<and> n \<in> declared_numbers s"
  shows "scope_inv (R - {i}) (moved i st ph s)"
proof -
  have I: "phases_ok s" "stories_ok s" "served_ok R s" "deps_ok s" using inv by (simp_all add: scope_inv_def)
  have "phases_ok (moved i st ph s)"
    using I(1) by (auto simp: phases_ok_def moved_def comp_def distinct_removeAll)
  moreover have ids: "map hs_id (sc_stories (moved i st ph s)) = map hs_id (sc_stories s)" by (simp add: moved_def)
  have "stories_ok (moved i st ph s)" using I(2) unfolding stories_ok_def ids by (auto simp: moved_def)
  moreover have "served_ok (R - {i}) (moved i st ph s)"
    unfolding served_ok_def
  proof (intro conjI ballI allI impI)
    fix p j assume "p \<in> set (sc_phases (moved i st ph s))" "j \<in> set (hp_stories p)"
    then obtain q where q: "q \<in> set (sc_phases s)" "hp_number p = hp_number q"
      "(j \<in> set (hp_stories q) \<and> j \<noteq> i) \<or> (ph = Some (hp_number q) \<and> j = i)" by (auto simp: moved_def split: if_splits)
    from q(3) show "\<exists>h \<in> set (sc_stories (moved i st ph s)). hs_id h = j \<and> hs_status h = HeldActive \<and> hs_phase h = Some (hp_number p)"
    proof
      assume j: "j \<in> set (hp_stories q) \<and> j \<noteq> i"
      with I(3) q(1) obtain h where "h \<in> set (sc_stories s)" "hs_id h = j" "hs_status h = HeldActive" "hs_phase h = Some (hp_number q)"
        by (fastforce simp: served_ok_def)
      with j q(2) show ?thesis by (intro bexI [of _ h]) (auto simp: moved_def image_iff)
    next
      assume j: "ph = Some (hp_number q) \<and> j = i"
      from i obtain h where "h \<in> set (sc_stories s)" "hs_id h = i" unfolding story_of_ex by blast
      with j q(2) ph show ?thesis by (intro bexI [of _ "h\<lparr>hs_status := st, hs_phase := ph\<rparr>"]) (auto simp: moved_def image_iff)
    qed
  next
    fix h n assume h: "h \<in> set (sc_stories (moved i st ph s))" "hs_phase h = Some n"
    then obtain k where k: "k \<in> set (sc_stories s)" "hs_id h = hs_id k" "hs_id k \<noteq> i \<Longrightarrow> hs_phase k = Some n" "hs_id k = i \<Longrightarrow> ph = Some n"
      by (auto simp: moved_def split: if_splits)
    show "\<exists>p \<in> set (sc_phases (moved i st ph s)). hp_number p = n \<and> hs_id h \<in> set (hp_stories p) \<and> (hp_withdrawn p \<longrightarrow> hs_id h \<in> R - {i})"
    proof (cases "hs_id k = i")
      case True
      with k ph obtain q where "q \<in> set (sc_phases s)" "hp_number q = n" "\<not> hp_withdrawn q"
        by (auto simp: declared_numbers_def declared_phases_def)
      with True k show ?thesis
        by (intro bexI [of _ "q\<lparr>hp_stories := removeAll i (hp_stories q) @ [i]\<rparr>"]) (auto simp: moved_def image_iff)
    next
      case False
      with I(3) k obtain q where "q \<in> set (sc_phases s)" "hp_number q = n" "hs_id k \<in> set (hp_stories q)" "hp_withdrawn q \<longrightarrow> hs_id k \<in> R"
        by (fastforce simp: served_ok_def)
      with False k show ?thesis
        by (intro bexI [of _ "q\<lparr>hp_stories := removeAll i (hp_stories q) @ (if ph = Some (hp_number q) then [i] else [])\<rparr>"])
          (auto simp: moved_def)
    qed
  qed
  ultimately show ?thesis using I(4) by (simp add: scope_inv_def deps_ok_def)
qed

section \<open>Declaring a story\<close>

lemma served_exists: "served_ok R s \<Longrightarrow> p \<in> set (sc_phases s) \<Longrightarrow> i \<in> set (hp_stories p) \<Longrightarrow>
    \<exists>h \<in> set (sc_stories s). hs_id h = i \<and> hs_status h = HeldActive \<and> hs_phase h = Some (hp_number p)"
  unfolding served_ok_def by blast

lemma served_by: "served_ok R s \<Longrightarrow> h \<in> set (sc_stories s) \<Longrightarrow> hs_phase h = Some n \<Longrightarrow>
    \<exists>p \<in> set (sc_phases s). hp_number p = n \<and> hs_id h \<in> set (hp_stories p) \<and> (hp_withdrawn p \<longrightarrow> hs_id h \<in> R)"
  unfolding served_ok_def by blast

definition with_story :: "held_story \<Rightarrow> accepted_scope \<Rightarrow> accepted_scope" where
  "with_story h s =
     s\<lparr>sc_phases := map (\<lambda>p. if hs_phase h = Some (hp_number p) then p\<lparr>hp_stories := hp_stories p @ [hs_id h]\<rparr> else p) (sc_phases s),
       sc_stories := sc_stories s @ [h], sc_highest_story := hs_id h\<rparr>"

lemma fresh_story:
  assumes "stories_ok s" "served_ok R s" "sc_highest_story s < i"
  shows "\<not> list_ex (\<lambda>h. hs_id h = i) (sc_stories s)" "p \<in> set (sc_phases s) \<Longrightarrow> i \<notin> set (hp_stories p)"
proof -
  show fresh: "\<not> list_ex (\<lambda>h. hs_id h = i) (sc_stories s)" using assms(1,3) by (fastforce simp: stories_ok_def list_ex_iff)
  then show "i \<notin> set (hp_stories p)" if "p \<in> set (sc_phases s)"
    using served_exists [OF assms(2) that, of i] by (auto simp: list_ex_iff)
qed

lemma with_story_eq:
  assumes "phases_ok s" "stories_ok s" "served_ok R s" "sc_highest_story s < hs_id h"
  shows "serve_by (hs_phase h) (hs_id h) (s\<lparr>sc_stories := put_story h (sc_stories s), sc_highest_story := max (sc_highest_story s) (hs_id h)\<rparr>)
     = with_story h s"
proof -
  note F = fresh_story [OF assms(2-4)]
  have m: "max (sc_highest_story s) (hs_id h) = hs_id h" by (rule max_absorb2 [OF less_imp_le [OF assms(4)]])
  show ?thesis
  proof (cases "hs_phase h")
    case None
    with F(1) m show ?thesis by (simp add: serve_by_def put_story_def with_story_def)
  next
    case (Some n)
    have "update_first (\<lambda>p. hp_number p = n) (serve_in (hs_id h)) (sc_phases s) =
        map (\<lambda>p. if Some n = Some (hp_number p) then p\<lparr>hp_stories := hp_stories p @ [hs_id h]\<rparr> else p) (sc_phases s)"
      unfolding update_first_map [OF phases_distinct [OF assms(1)]] using F(2) by (auto simp: serve_in_def)
    with Some F(1) m show ?thesis by (simp add: serve_by_def change_held_phase_def put_story_def with_story_def)
  qed
qed

lemma filter_map_same: "(\<And>x. P (f x) \<longleftrightarrow> P x) \<Longrightarrow> filter P (map f xs) = map f (filter P xs)"
  by (induction xs) auto

lemma declared_phases_with_story: "declared_phases (with_story h s) =
    map (\<lambda>p. if hs_phase h = Some (hp_number p) then p\<lparr>hp_stories := hp_stories p @ [hs_id h]\<rparr> else p) (declared_phases s)"
  by (simp add: declared_phases_def with_story_def filter_map_same)

lemma with_story_numbers [simp]: "declared_numbers (with_story h s) = declared_numbers s"
  by (simp add: declared_numbers_def declared_phases_with_story image_image if_distrib [of hp_number] cong: if_cong del: if_image_distrib)

lemma with_story_depends [simp]: "depends_rel (with_story h s) = depends_rel s"
  by (auto simp: depends_rel_def declared_phases_with_story split: if_splits)

lemma scope_inv_with_story:
  assumes inv: "scope_inv {} s" and fresh: "sc_highest_story s < hs_id h"
    and ph: "\<And>n. hs_phase h = Some n \<Longrightarrow> hs_status h = HeldActive \<and> n \<in> declared_numbers s"
  shows "scope_inv {} (with_story h s)"
proof -
  have I: "phases_ok s" "stories_ok s" "served_ok {} s" "deps_ok s" using inv by (simp_all add: scope_inv_def)
  note F = fresh_story [OF I(2,3) fresh]
  have numbers: "map hp_number (sc_phases (with_story h s)) = map hp_number (sc_phases s)" by (simp add: with_story_def)
  have "phases_ok (with_story h s)" using I(1) F(2) unfolding phases_ok_def numbers by (auto simp: with_story_def)
  moreover have "stories_ok (with_story h s)"
    using I(2) F(1) fresh by (force simp: stories_ok_def with_story_def list_ex_iff)
  moreover have "served_ok {} (with_story h s)"
    unfolding served_ok_def
  proof (intro conjI ballI allI impI)
    fix p j assume "p \<in> set (sc_phases (with_story h s))" "j \<in> set (hp_stories p)"
    then obtain q where q: "q \<in> set (sc_phases s)" "hp_number p = hp_number q"
      "j \<in> set (hp_stories q) \<or> (hs_phase h = Some (hp_number q) \<and> j = hs_id h)" by (auto simp: with_story_def split: if_splits)
    with served_exists [OF I(3) q(1), of j] ph
    show "\<exists>k \<in> set (sc_stories (with_story h s)). hs_id k = j \<and> hs_status k = HeldActive \<and> hs_phase k = Some (hp_number p)"
      by (auto simp: with_story_def)
  next
    fix k n assume k: "k \<in> set (sc_stories (with_story h s))" "hs_phase k = Some n"
    then consider "k \<in> set (sc_stories s)" | "k = h" by (auto simp: with_story_def)
    then show "\<exists>p \<in> set (sc_phases (with_story h s)). hp_number p = n \<and> hs_id k \<in> set (hp_stories p) \<and> (hp_withdrawn p \<longrightarrow> hs_id k \<in> {})"
    proof cases
      case 1
      from served_by [OF I(3) this k(2)] obtain q where q: "q \<in> set (sc_phases s)" "hp_number q = n"
        "hs_id k \<in> set (hp_stories q)" "\<not> hp_withdrawn q" by blast
      then show ?thesis
        by (intro bexI [of _ "if hs_phase h = Some (hp_number q) then q\<lparr>hp_stories := hp_stories q @ [hs_id h]\<rparr> else q"])
          (simp_all add: with_story_def)
    next
      case 2
      with ph k(2) obtain q where "q \<in> set (sc_phases s)" "hp_number q = n" "\<not> hp_withdrawn q"
        by (auto simp: declared_numbers_def declared_phases_def)
      with 2 k(2) show ?thesis
        by (intro bexI [of _ "q\<lparr>hp_stories := hp_stories q @ [hs_id h]\<rparr>"]) (auto simp: with_story_def image_iff)
    qed
  qed
  ultimately show ?thesis using I(4) by (simp add: scope_inv_def deps_ok_def)
qed

section \<open>Declaring a phase\<close>

lemma set_put_phase:
  assumes "sorted_wrt (<) (map hp_number ps)"
  shows "set (put_phase x ps) = insert x {p \<in> set ps. hp_number p \<noteq> hp_number x}" "sorted_wrt (<) (map hp_number (put_phase x ps))"
proof -
  have "set (put_phase x ps) = insert x {p \<in> set ps. hp_number p \<noteq> hp_number x} \<and> sorted_wrt (<) (map hp_number (put_phase x ps))"
    using assms
  proof (induction ps)
    case Nil
    then show ?case by (simp add: put_phase_def)
  next
    case (Cons p ps)
    then have later: "\<forall>q \<in> set ps. hp_number p < hp_number q" by simp
    consider "hp_number p < hp_number x" | "hp_number p = hp_number x" | "hp_number x < hp_number p" by fastforce
    then show ?case
    proof cases
      case 1
      then have "put_phase x (p # ps) = p # put_phase x ps" by (auto simp: put_phase_def Let_def simp del: dropWhile_eq_Nil_conv split: list.split)
      with Cons 1 later show ?thesis by auto
    next
      case 2
      then have "put_phase x (p # ps) = x # ps" by (simp add: put_phase_def)
      with Cons 2 later show ?thesis by auto
    next
      case 3
      then have "put_phase x (p # ps) = x # p # ps" by (auto simp: put_phase_def)
      with Cons 3 later show ?thesis by force
    qed
  qed
  then show "set (put_phase x ps) = insert x {p \<in> set ps. hp_number p \<noteq> hp_number x}" "sorted_wrt (<) (map hp_number (put_phase x ps))"
    by simp_all
qed

lemma withdrawn_serves_none:
  assumes "phases_ok s" "served_ok {} s" "p \<in> set (sc_phases s)" "hp_withdrawn p"
  shows "hp_stories p = []"
proof (rule ccontr)
  assume "hp_stories p \<noteq> []"
  then obtain i where "i \<in> set (hp_stories p)" by (cases "hp_stories p") auto
  from served_exists [OF assms(2,3) this] obtain h where h: "h \<in> set (sc_stories s)" "hs_phase h = Some (hp_number p)" by blast
  from served_by [OF assms(2) h] obtain q where "q \<in> set (sc_phases s)" "hp_number q = hp_number p" "\<not> hp_withdrawn q" by blast
  with distinct_key [OF phases_distinct [OF assms(1)], of q p] assms(3,4) show False by simp
qed

definition with_phase :: "held_phase \<Rightarrow> accepted_scope \<Rightarrow> accepted_scope" where
  "with_phase x s =
     s\<lparr>sc_phases := put_phase x (sc_phases s), sc_highest_phase := max (sc_highest_phase s) (hp_number x),
       sc_stories := map (recommit_in (hp_number x) (hp_stories x)) (sc_stories s)\<rparr>"

lemma with_phase_declared:
  assumes "phases_ok s" "\<not> hp_withdrawn x" "\<And>p. p \<in> set (sc_phases s) \<Longrightarrow> hp_number p = hp_number x \<Longrightarrow> \<not> hp_withdrawn p"
  shows "set (declared_phases (with_phase x s)) = insert x {p \<in> set (declared_phases s). hp_number p \<noteq> hp_number x}"
    "declared_numbers (with_phase x s) = insert (hp_number x) (declared_numbers s)"
    "depends_rel (with_phase x s) = (depends_rel s - {hp_number x} \<times> UNIV) \<union> {hp_number x} \<times> set (hp_depends_on x)"
proof -
  have "sorted_wrt (<) (map hp_number (sc_phases s))" using assms(1) by (simp add: phases_ok_def)
  from set_put_phase(1) [OF this, of x]
  show d: "set (declared_phases (with_phase x s)) = insert x {p \<in> set (declared_phases s). hp_number p \<noteq> hp_number x}"
    using assms(2) by (auto simp: declared_phases_def with_phase_def)
  show "declared_numbers (with_phase x s) = insert (hp_number x) (declared_numbers s)"
    unfolding declared_numbers_def d by auto
  show "depends_rel (with_phase x s) = (depends_rel s - {hp_number x} \<times> UNIV) \<union> {hp_number x} \<times> set (hp_depends_on x)"
    unfolding depends_rel_def d by auto
qed

lemma scope_inv_with_phase:
  assumes inv: "scope_inv {} s" and x: "\<not> hp_withdrawn x" "distinct (hp_stories x)"
    and held: "\<And>p. p \<in> set (sc_phases s) \<Longrightarrow> hp_number p = hp_number x \<Longrightarrow> \<not> hp_withdrawn p"
    and active: "\<And>i. i \<in> set (hp_stories x) \<Longrightarrow> \<exists>h \<in> set (sc_stories s). hs_id h = i \<and> hs_status h = HeldActive"
    and only: "\<And>p i. p \<in> set (declared_phases s) \<Longrightarrow> hp_number p \<noteq> hp_number x \<Longrightarrow> i \<in> set (hp_stories x) \<Longrightarrow> i \<notin> set (hp_stories p)"
    and deps: "deps_ok (with_phase x s)"
  shows "scope_inv {} (with_phase x s)"
proof -
  let ?n = "hp_number x"
  have I: "phases_ok s" "stories_ok s" "served_ok {} s" using inv by (simp_all add: scope_inv_def)
  have sorted: "sorted_wrt (<) (map hp_number (sc_phases s))" using I(1) by (simp add: phases_ok_def)
  have phases: "set (sc_phases (with_phase x s)) = insert x {p \<in> set (sc_phases s). hp_number p \<noteq> ?n}"
    by (simp add: with_phase_def set_put_phase(1) [OF sorted])
  have stories: "set (sc_stories (with_phase x s)) = recommit_in ?n (hp_stories x) ` set (sc_stories s)" by (simp add: with_phase_def)
  have rid [simp]: "hs_id (recommit_in ?n l h) = hs_id h" "hs_status (recommit_in ?n l h) = hs_status h" for l h
    by (simp_all add: recommit_in_def)
  have "phases_ok (with_phase x s)"
    unfolding phases_ok_def phases using I(1) x(2) set_put_phase(2) [OF sorted, of x]
    by (auto simp: with_phase_def phases_ok_def max_def)
  moreover have "stories_ok (with_phase x s)" using I(2) by (simp add: stories_ok_def with_phase_def comp_def)
  moreover have "served_ok {} (with_phase x s)"
    unfolding served_ok_def phases stories
  proof (intro conjI ballI allI impI)
    fix p j assume p: "p \<in> insert x {p \<in> set (sc_phases s). hp_number p \<noteq> ?n}" and j: "j \<in> set (hp_stories p)"
    show "\<exists>h \<in> recommit_in ?n (hp_stories x) ` set (sc_stories s). hs_id h = j \<and> hs_status h = HeldActive \<and> hs_phase h = Some (hp_number p)"
    proof (cases "p = x")
      case True
      with active [of j] j obtain h where "h \<in> set (sc_stories s)" "hs_id h = j" "hs_status h = HeldActive" by blast
      then show ?thesis using True j by (intro bexI [of _ "recommit_in ?n (hp_stories x) h"]) (auto simp: recommit_in_def)
    next
      case False
      with p have q: "p \<in> set (sc_phases s)" "hp_number p \<noteq> ?n" by auto
      have "\<not> hp_withdrawn p" using withdrawn_serves_none [OF I(1,3) q(1)] j by auto
      then have "j \<notin> set (hp_stories x)" using only [of p j] q j by (auto simp: declared_phases_def)
      moreover obtain h where "h \<in> set (sc_stories s)" "hs_id h = j" "hs_status h = HeldActive" "hs_phase h = Some (hp_number p)"
        using served_exists [OF I(3) q(1) j] by blast
      ultimately show ?thesis using q(2) by (intro bexI [of _ "recommit_in ?n (hp_stories x) h"]) (auto simp: recommit_in_def)
    qed
  next
    fix h m assume "h \<in> recommit_in ?n (hp_stories x) ` set (sc_stories s)" "hs_phase h = Some m"
    then obtain k where k: "k \<in> set (sc_stories s)" "hs_id h = hs_id k"
      "(hs_id k \<in> set (hp_stories x) \<and> m = ?n) \<or> (hs_id k \<notin> set (hp_stories x) \<and> hs_phase k = Some m \<and> m \<noteq> ?n)"
      by (auto simp: recommit_in_def split: if_splits)
    with served_by [OF I(3) k(1), of m] x(1)
    show "\<exists>p \<in> insert x {p \<in> set (sc_phases s). hp_number p \<noteq> ?n}. hp_number p = m \<and> hs_id h \<in> set (hp_stories p) \<and> (hp_withdrawn p \<longrightarrow> hs_id h \<in> {})"
      by auto
  qed
  ultimately show ?thesis using deps by (simp add: scope_inv_def)
qed

section \<open>Withdrawing a phase\<close>

definition with_withdrawn :: "u32 \<Rightarrow> accepted_scope \<Rightarrow> accepted_scope" where
  "with_withdrawn n s = s\<lparr>sc_phases := map (\<lambda>p. if hp_number p = n then p\<lparr>hp_withdrawn := True\<rparr> else p) (sc_phases s)\<rparr>"

lemma with_withdrawn_eq: "phases_ok s \<Longrightarrow> change_held_phase n (\<lambda>p. p\<lparr>hp_withdrawn := True\<rparr>) s = with_withdrawn n s"
  by (simp add: change_held_phase_def with_withdrawn_def update_first_map [OF phases_distinct])

lemma with_withdrawn_declared:
  "set (declared_phases (with_withdrawn n s)) = {p \<in> set (declared_phases s). hp_number p \<noteq> n}"
  "declared_numbers (with_withdrawn n s) = declared_numbers s - {n}"
  "depends_rel (with_withdrawn n s) = depends_rel s - {n} \<times> UNIV"
proof -
  show d: "set (declared_phases (with_withdrawn n s)) = {p \<in> set (declared_phases s). hp_number p \<noteq> n}"
    by (auto simp: declared_phases_def with_withdrawn_def split: if_splits)
  show "declared_numbers (with_withdrawn n s) = declared_numbers s - {n}" "depends_rel (with_withdrawn n s) = depends_rel s - {n} \<times> UNIV"
    unfolding declared_numbers_def depends_rel_def d by auto
qed

lemma scope_inv_withdrawn:
  assumes inv: "scope_inv {} s" and p: "p \<in> set (sc_phases s)" "hp_number p = n"
    and alone: "\<And>q. q \<in> set (declared_phases s) \<Longrightarrow> hp_number q \<noteq> n \<Longrightarrow> n \<notin> set (hp_depends_on q)"
  shows "scope_inv (set (hp_stories p)) (with_withdrawn n s)"
proof -
  have I: "phases_ok s" "stories_ok s" "served_ok {} s" "deps_ok s" using inv by (simp_all add: scope_inv_def)
  have numbers: "map hp_number (sc_phases (with_withdrawn n s)) = map hp_number (sc_phases s)" by (simp add: with_withdrawn_def)
  have "phases_ok (with_withdrawn n s)" using I(1) unfolding phases_ok_def numbers by (auto simp: with_withdrawn_def)
  moreover have "stories_ok (with_withdrawn n s)" using I(2) by (simp add: stories_ok_def with_withdrawn_def)
  moreover have "served_ok (set (hp_stories p)) (with_withdrawn n s)"
    unfolding served_ok_def
  proof (intro conjI ballI allI impI)
    fix q i assume "q \<in> set (sc_phases (with_withdrawn n s))" "i \<in> set (hp_stories q)"
    then obtain r where "r \<in> set (sc_phases s)" "hp_number q = hp_number r" "i \<in> set (hp_stories r)"
      by (auto simp: with_withdrawn_def split: if_splits)
    with served_exists [OF I(3)]
    show "\<exists>h \<in> set (sc_stories (with_withdrawn n s)). hs_id h = i \<and> hs_status h = HeldActive \<and> hs_phase h = Some (hp_number q)"
      by (simp add: with_withdrawn_def)
  next
    fix h m assume "h \<in> set (sc_stories (with_withdrawn n s))" "hs_phase h = Some m"
    then have "h \<in> set (sc_stories s)" "hs_phase h = Some m" by (simp_all add: with_withdrawn_def)
    from served_by [OF I(3) this] obtain q where q: "q \<in> set (sc_phases s)" "hp_number q = m" "hs_id h \<in> set (hp_stories q)"
      "\<not> hp_withdrawn q" by blast
    have "q = p" if "m = n" using distinct_key [OF phases_distinct [OF I(1)] q(1) p(1)] q(2) p(2) that by simp
    with q show "\<exists>q \<in> set (sc_phases (with_withdrawn n s)). hp_number q = m \<and> hs_id h \<in> set (hp_stories q)
        \<and> (hp_withdrawn q \<longrightarrow> hs_id h \<in> set (hp_stories p))"
      by (intro bexI [of _ "if hp_number q = n then q\<lparr>hp_withdrawn := True\<rparr> else q"]) (auto simp: with_withdrawn_def)
  qed
  moreover have "deps_ok (with_withdrawn n s)"
  proof -
    have dd: "d \<in> declared_numbers s \<and> d \<noteq> n" if "(m, d) \<in> depends_rel s" "m \<noteq> n" for m d
    proof
      show "d \<in> declared_numbers s" using I(4) that(1) by (force simp: deps_ok_def)
      show "d \<noteq> n" using that alone by (auto simp: depends_rel_def)
    qed
    have "snd ` (depends_rel s - {n} \<times> UNIV) \<subseteq> declared_numbers s - {n}"
    proof
      fix d assume "d \<in> snd ` (depends_rel s - {n} \<times> UNIV)"
      then obtain e where "e \<in> depends_rel s - {n} \<times> UNIV" "d = snd e" by blast
      with dd [of "fst e" d] show "d \<in> declared_numbers s - {n}" by (cases e) simp
    qed
    moreover have "acyclic (depends_rel s - {n} \<times> UNIV)" using I(4) by (auto simp: deps_ok_def intro: acyclic_subset)
    ultimately show ?thesis by (simp add: deps_ok_def with_withdrawn_declared)
  qed
  ultimately show ?thesis by (simp add: scope_inv_def)
qed

section \<open>Reordering the stories\<close>

lemma prioritized_perm: "prioritized order hs = Some hs' \<Longrightarrow> mset hs' = mset hs"
proof (induction order hs arbitrary: hs' rule: prioritized.induct)
  case (2 i order hs)
  from "2.prems" obtain h rest where h: "find (\<lambda>h. hs_id h = i) hs = Some h"
    "prioritized order (takeWhile (\<lambda>h. hs_id h \<noteq> i) hs @ tl (dropWhile (\<lambda>h. hs_id h \<noteq> i) hs)) = Some rest" "hs' = h # rest"
    by (auto split: option.splits)
  have "find P xs = Some x \<Longrightarrow> add_mset x (mset (takeWhile (\<lambda>y. \<not> P y) xs @ tl (dropWhile (\<lambda>y. \<not> P y) xs))) = mset xs" for P x and xs :: "held_story list"
    by (induction xs) (auto split: if_splits)
  from this [OF h(1)] "2.IH" [OF h(1,2)] h(3) show ?case by simp
qed simp

lemma ids_without:
  "distinct (map hs_id hs) \<Longrightarrow> map hs_id (takeWhile (\<lambda>h. hs_id h \<noteq> i) hs @ tl (dropWhile (\<lambda>h. hs_id h \<noteq> i) hs)) = removeAll i (map hs_id hs)"
  by (induction hs) (auto simp: removeAll_id)

lemma prioritized_Some:
  assumes "distinct (map hs_id hs)" "distinct order" "set order \<subseteq> hs_id ` set hs"
  shows "\<exists>hs'. prioritized order hs = Some hs'"
  using assms
proof (induction order hs rule: prioritized.induct)
  case (2 i order hs)
  obtain h where h: "find (\<lambda>h. hs_id h = i) hs = Some h" "h \<in> set hs" "hs_id h = i"
  proof -
    from "2.prems"(3) obtain h where "h \<in> set hs" "hs_id h = i" by auto
    with that [of h] find_key [OF "2.prems"(1), of i h] show ?thesis by simp
  qed
  let ?rest = "takeWhile (\<lambda>h. hs_id h \<noteq> i) hs @ tl (dropWhile (\<lambda>h. hs_id h \<noteq> i) hs)"
  note ids = ids_without [OF "2.prems"(1), of i]
  have "distinct (map hs_id ?rest)" unfolding ids by (rule distinct_removeAll [OF "2.prems"(1)])
  moreover have "set (map hs_id ?rest) = hs_id ` set hs - {i}" unfolding ids by simp
  ultimately have r: "distinct (map hs_id ?rest)" "hs_id ` set ?rest = hs_id ` set hs - {i}" by (simp_all only: set_map)
  have "\<exists>hs'. prioritized order ?rest = Some hs'"
    by (rule "2.IH" [OF h(1) r(1)]) (use "2.prems"(2,3) r(2) in auto)
  with h(1) show ?case by auto
qed simp

lemma scope_inv_prioritized:
  assumes "scope_inv R s" "prioritized order (sc_stories s) = Some hs"
  shows "scope_inv R (s\<lparr>sc_stories := hs\<rparr>)"
proof -
  have m: "mset hs = mset (sc_stories s)" by (rule prioritized_perm [OF assms(2)])
  then have "set hs = set (sc_stories s)" by (rule mset_eq_setD)
  moreover have "distinct (map hs_id hs) \<longleftrightarrow> distinct (map hs_id (sc_stories s))"
    using m by (metis mset_map distinct_count_atmost_1 mset_eq_imp_distinct_iff)
  ultimately show ?thesis using assms(1)
    by (simp add: scope_inv_def phases_ok_def stories_ok_def served_ok_def deps_ok_def depends_rel_def declared_numbers_def declared_phases_def)
qed

section \<open>The cycle search of an edit\<close>

definition edited_rel :: "accepted_scope \<Rightarrow> u32 \<Rightarrow> u32 list \<Rightarrow> (u32 \<times> u32) set" where
  "edited_rel s n ds = (depends_rel s - {n} \<times> UNIV) \<union> {n} \<times> set ds"

lemma map_of_fold_ains:
  "distinct (map k ps) \<Longrightarrow> map_of (foldl (\<lambda>E p. ains (k p) (v p) E) E ps) = map_of E ++ map_of (map (\<lambda>p. (k p, v p)) ps)"
proof (induction ps arbitrary: E)
  case (Cons p ps)
  have "k p \<notin> dom (map_of (map (\<lambda>p. (k p, v p)) ps))" using Cons.prems by (auto simp: dom_map_of_conv_image_fst)
  then show ?case using Cons by (auto simp: fun_eq_iff map_add_def split: option.splits)
qed simp

lemma scope_edges_rel:
  assumes "phases_ok s"
  shows "edge_set (scope_edges s n ds) = edited_rel s n ds"
proof -
  have d: "distinct (map hp_number (declared_phases s))"
    using phases_distinct [OF assms] by (simp add: declared_phases_def distinct_map_filter)
  let ?m = "map_of (map (\<lambda>p. (hp_number p, hp_depends_on p)) (declared_phases s))"
  have "map_of (scope_edges s n ds) = ?m(n \<mapsto> ds)"
    by (simp add: scope_edges_def map_of_fold_ains [OF d])
  moreover have "?m u = Some xs \<longleftrightarrow> (\<exists>p \<in> set (declared_phases s). hp_number p = u \<and> hp_depends_on p = xs)" for u xs
    using d by (auto simp: map_of_eq_Some_iff comp_def)
  ultimately have "(u, v) \<in> edge_set (scope_edges s n ds) \<longleftrightarrow>
      (if u = n then v \<in> set ds else \<exists>p \<in> set (declared_phases s). hp_number p = u \<and> v \<in> set (hp_depends_on p))" for u v
    by (simp add: edge_set_iff) blast
  then show ?thesis by (auto simp: edited_rel_def depends_rel_def split: if_splits)
qed

lemma edited_path:
  "(a, b) \<in> (edited_rel s n ds)\<^sup>+ \<Longrightarrow>
     (a, b) \<in> (depends_rel s)\<^sup>+ \<or> ((a, n) \<in> (edited_rel s n ds)\<^sup>* \<and> (n, b) \<in> (edited_rel s n ds)\<^sup>+)"
proof (induction rule: trancl_induct)
  case (base y)
  then show ?case by (auto simp: edited_rel_def)
next
  case (step y z)
  show ?case
  proof (cases "y = n")
    case True
    with step.hyps show ?thesis by (auto intro: trancl_into_rtrancl)
  next
    case False
    with step.hyps(2) have "(y, z) \<in> depends_rel s" by (auto simp: edited_rel_def)
    with step.IH step.hyps(2) show ?thesis by (auto intro: trancl_into_trancl)
  qed
qed

lemma on_cycle_with_cycles:
  assumes "phases_ok s" "deps_ok s"
  shows "\<exists>ps. on_cycle_with s n ds = Some ps \<and> sorted ps \<and> distinct ps \<and> set ps = {m. (m, m) \<in> (edited_rel s n ds)\<^sup>+}"
proof -
  let ?E = "edited_rel s n ds"
  have "{m. (n, m) \<in> ?E\<^sup>+ \<and> (m, n) \<in> ?E\<^sup>+} = {m. (m, m) \<in> ?E\<^sup>+}"
  proof (intro set_eqI iffI; clarsimp)
    fix m assume "(n, m) \<in> ?E\<^sup>+" "(m, n) \<in> ?E\<^sup>+"
    then show "(m, m) \<in> ?E\<^sup>+" by (meson trancl_trans)
  next
    fix m assume m: "(m, m) \<in> ?E\<^sup>+"
    have "(m, m) \<notin> (depends_rel s)\<^sup>+" using assms(2) by (simp add: deps_ok_def acyclic_def)
    with edited_path [OF m] have "(m, n) \<in> ?E\<^sup>*" "(n, m) \<in> ?E\<^sup>+" by auto
    then show "(n, m) \<in> ?E\<^sup>+ \<and> (m, n) \<in> ?E\<^sup>+" by (cases "m = n") (auto simp: rtrancl_eq_or_trancl)
  qed
  with on_cycle_with_reaches [of s n ds] show ?thesis by (simp add: scope_edges_rel [OF assms(1)])
qed

end
