(* ===== verification/Scope_Record.thy ===== *)
theory Scope_Record
  imports Scope_Invariant
begin

text \<open>
  What the events of a change state, kind by kind: the facts \<open>kind_facts\<close> gives are the ones its
  events record, in their order, so the projected roadmap is the fold of those facts.
\<close>

section \<open>The facts of a change\<close>

fun moved_fact :: "withdrawal_decision list \<Rightarrow> u32 \<Rightarrow> scope_fact option" where
  "moved_fact decisions story =
     (case find (\<lambda>d. wd_story d = story) decisions of
        None \<Rightarrow> None
      | Some d \<Rightarrow> Some (case wd_to d of ToPhase to \<Rightarrow> FactMoved story StoryActive (Some to) | ToDrop \<Rightarrow> FactDropped story))"

definition declared_place :: "phase_declaration \<Rightarrow> accepted_scope \<Rightarrow> nat" where
  "declared_place d s = (case pd_position d of None \<Rightarrow> length (sc_order s) | Some p \<Rightarrow> min (unat p - 1) (length (sc_order s)))"

fun kind_facts :: "scope_change \<Rightarrow> accepted_scope \<Rightarrow> scope_fact list" where
  "kind_facts (PhaseDeclare d) s =
     [FactPhase (sc_highest_phase s + 1) (pd_name d) (pd_goal d) (pd_depends_on d) (pd_stories d),
      FactOrder (insert_at (declared_place d s) (sc_highest_phase s + 1) (sc_order s))]"
| "kind_facts (PhaseEdit phase fs) s =
     (case phase_of s phase of
        None \<Rightarrow> []
      | Some held \<Rightarrow> [FactPhase phase (or_held (pf_name fs) (hp_name held)) (or_held (pf_goal fs) (hp_goal held))
          (or_held (pf_depends_on fs) (hp_depends_on held)) (or_held (pf_stories fs) (hp_stories held))])"
| "kind_facts (PhaseReorder order) s = [FactOrder order]"
| "kind_facts (PhaseWithdraw phase decisions) s =
     FactWithdrawn phase
     # List.map_filter (moved_fact decisions) (case phase_of s phase of None \<Rightarrow> [] | Some held \<Rightarrow> hp_stories held)
     @ [FactOrder (filter (\<lambda>n. n \<noteq> phase) (sc_order s))]"
| "kind_facts (StoryDeclare sentence status phase) s = [FactStory (sc_highest_story s + 1) status phase]"
| "kind_facts (StoryEdit story sentence) s = (case held_status_of s story of None \<Rightarrow> [] | Some status \<Rightarrow> [FactCorrected story status])"
| "kind_facts (StoryReassign story phase) s =
     (case (case phase of Some _ \<Rightarrow> Some StoryActive | None \<Rightarrow> held_status_of s story) of
        None \<Rightarrow> []
      | Some status \<Rightarrow> [FactMoved story status phase])"
| "kind_facts (StoryDrop story) s = [FactDropped story]"
| "kind_facts (BacklogReorder order) s = [FactPriority order]"
| "kind_facts (ProjectDescribe d) s = [FactDescribed]"

definition recorded_as :: "new_event \<Rightarrow> event \<Rightarrow> bool" where
  "recorded_as n e \<longleftrightarrow> type_name e = ne_type_name n \<and> payload e = ne_payload n"

lemma told_append: "told es fs \<Longrightarrow> told es' fs' \<Longrightarrow> told (es @ es') (fs @ fs')"
  by (induction rule: told.induct) (auto intro: told.intros)

lemma told_one: "recorded_as n e \<Longrightarrow> states (ne_type_name n) (ne_payload n) f \<Longrightarrow> told [e] [f]"
  by (auto simp: recorded_as_def intro!: told_fact told_nil)

lemma told_all: "list_all2 recorded_as ns es \<Longrightarrow> list_all2 (\<lambda>n f. states (ne_type_name n) (ne_payload n) f) ns fs \<Longrightarrow> told es fs"
proof (induction ns arbitrary: es fs)
  case Nil
  then show ?case by (simp add: told_nil)
next
  case (Cons n ns)
  then obtain e es' f fs' where "es = e # es'" "fs = f # fs'" "recorded_as n e" "list_all2 recorded_as ns es'"
    "states (ne_type_name n) (ne_payload n) f" "list_all2 (\<lambda>n f. states (ne_type_name n) (ne_payload n) f) ns fs'"
    by (auto simp: list_all2_Cons1)
  with Cons.IH [of es' fs'] told_one [of n e f] told_append [of "[e]" "[f]" es' fs'] show ?case by simp
qed

abbreviation event_states :: "new_event \<Rightarrow> scope_fact \<Rightarrow> bool" where
  "event_states n f \<equiv> states (ne_type_name n) (ne_payload n) f"

lemma event_states_intros [simp, intro]:
  "event_states (phase_declared_event n name goal detail ds ss digest) (FactPhase n name goal ds ss)"
  "event_states (reordered_event order digest) (FactOrder order)"
  "event_states (reassigned_event i status phase digest) (FactMoved i status phase)"
  "event_states (dropped_event i digest) (FactDropped i)"
  "event_states (story_declared_event i sentence status phase digest) (FactStory i status phase)"
  "event_states (described_event d digest) FactDescribed"
  "event_states (on_roadmap phase_withdrawn v (phase_withdrawn_payload n digest) []) (FactWithdrawn n)"
  "event_states (on_roadmap story_corrected v (story_corrected_payload i sentence status digest) []) (FactCorrected i status)"
  "event_states (on_roadmap story_reprioritized v (story_reprioritized_payload order digest) []) (FactPriority order)"
  by (auto simp: phase_declared_event_def reordered_event_def reassigned_event_def dropped_event_def story_declared_event_def
      described_event_def scope_event_def intro: states.intros)

lemma moved_events_state:
  "list_all2 event_states (List.map_filter (moved_event decisions digest) is) (List.map_filter (moved_fact decisions) is)"
  by (induction "is") (auto simp: List.map_filter_simps split: option.splits destination.splits)

lemma next_number: "next_numbers n 1 = (if n = - 1 then Inl NumbersExhausted else Inr [n + 1])"
proof -
  have lt: "unat n < 4294967296" using unsigned_less [of n, where ?'a = nat] by simp
  have "unat (- 1 :: u32) = 4294967295" by (simp add: unsigned_minus_1_eq_mask mask_eq_exp_minus_1)
  then have "n = - 1 \<longleftrightarrow> unat n = 4294967295" by (metis word_unat_eq_iff)
  with lt have "unat n + 1 < 2 ^ 32 \<longleftrightarrow> n \<noteq> - 1" by (auto simp: less_Suc_eq)
  then show ?thesis by (simp add: next_numbers_def)
qed

lemma next_number_Suc: "next_numbers n (Suc 0) = (if n = - 1 then Inl NumbersExhausted else Inr [n + 1])"
  using next_number by simp

lemma kind_events_state:
  assumes "kind_events c s detail digest = Some (Inr news)"
  shows "list_all2 event_states news (kind_facts c s)"
proof (cases c)
  case (PhaseDeclare d)
  with assms show ?thesis
    by (auto simp: next_number_Suc declared_place_def placed_at_def Let_def bind_eq_Some_conv split: if_splits option.splits)
next
  case (PhaseWithdraw phase decisions)
  with assms moved_events_state [of decisions digest] show ?thesis
    by (auto simp: Let_def intro!: list_all2_appendI)
qed (use assms in \<open>auto simp: bind_eq_Some_conv next_number_Suc split: if_splits option.splits\<close>)

lemma told_change:
  assumes "change_events c s detail owner at' = Some (Inr news)" "list_all2 recorded_as news es"
  shows "told es (kind_facts (cs_change c) s)"
proof -
  from assms(1) obtain ns where ns: "kind_events (cs_change c) s detail (cs_digest c) = Some (Inr ns)"
    "news = ns @ [approved_event (cs_digest c) (change_kind_str (kind_of_change (cs_change c))) owner at']"
    by (auto simp: change_events_def bind_eq_Some_conv result_simps)
  from assms(2) obtain es' e where es: "es = es' @ [e]" "list_all2 recorded_as ns es'"
    "recorded_as (approved_event (cs_digest c) (change_kind_str (kind_of_change (cs_change c))) owner at') e"
    by (auto simp: ns(2) list_all2_append1 list_all2_Cons1)
  have "type_name e \<notin> set (p_handles roadmap_projector)"
    using es(3) by (simp add: recorded_as_def approved_event_def scope_event_def scope_approved_def roadmap_projector_def roadmap_names)
  then have "told [e] []" by (intro told_other told_nil)
  from told_append [OF told_all [OF es(2) kind_events_state [OF ns(1)]] this] show ?thesis by (simp add: es(1))
qed

end
