(* ===== verification/Scope_Kinds.thy ===== *)
theory Scope_Kinds
  imports Scope_Record
begin

text \<open>
  Every kind of change keeps the invariant of accepted scope.  The judgement of each kind
  (\<open>baley-core/src/scope/rules.rs\<close>) is read for what it has checked, and the facts of its events
  are folded onto the scope: the result is sound, and a complete phase keeps its stories.
\<close>

section \<open>What an accepted change has been checked for\<close>

fun change_shape :: "scope_change \<Rightarrow> bool" where
  "change_shape (PhaseDeclare d) \<longleftrightarrow> distinct (pd_depends_on d) \<and> distinct (pd_stories d) \<and> (\<forall>p. pd_position d = Some p \<longrightarrow> 1 \<le> p)"
| "change_shape (PhaseEdit _ fs) \<longleftrightarrow> (\<forall>ss. pf_stories fs = Some ss \<longrightarrow> distinct ss)"
| "change_shape (PhaseWithdraw _ decisions) \<longleftrightarrow> distinct (map wd_story decisions)"
| "change_shape (StoryDeclare _ status phase) \<longleftrightarrow> (phase \<noteq> None \<longrightarrow> status = StoryActive)"
| "change_shape _ \<longleftrightarrow> True"

lemma distinct_numbers_distinct: "distinct_numbers name seen n entries = Inr ks \<Longrightarrow> distinct ks \<and> set ks \<inter> set seen = {}"
  by (induction name seen n entries arbitrary: ks rule: distinct_numbers.induct) (fastforce simp: result_simps split: if_splits)+

lemma distinct_member_distinct: "distinct_member v name = Inr ks \<Longrightarrow> distinct ks"
  using distinct_numbers_distinct by (fastforce simp: distinct_member_def result_simps)

lemma judged_decisions_distinct:
  "judged_decisions decided n entries = Inr ds \<Longrightarrow> distinct (map wd_story ds) \<and> wd_story ` set ds \<inter> set decided = {}"
  by (induction decided n entries arbitrary: ds rule: judged_decisions.induct) (fastforce simp: Let_def result_simps split: if_splits)+

lemma judged_number_pos: "judged_number v part field = Inr n \<Longrightarrow> 1 \<le> n"
  by (auto simp: judged_number_def split: option.splits if_splits)

lemma change_members_shape: "change_members kind m = Inr c \<Longrightarrow> change_shape c"
proof (cases kind)
  case PhaseDeclareKind
  moreover assume "change_members kind m = Inr c"
  ultimately show ?thesis
    by (auto simp: result_simps optional_member_def split: option.splits dest!: distinct_member_distinct judged_number_pos)
next
  case PhaseEditKind
  moreover assume "change_members kind m = Inr c"
  ultimately show ?thesis
    by (auto simp: result_simps judge_edit_def optional_member_def Let_def split: option.splits if_splits dest!: distinct_member_distinct)
next
  case PhaseWithdrawKind
  moreover assume "change_members kind m = Inr c"
  ultimately show ?thesis
    by (auto simp: result_simps decisions_member_def dest!: judged_decisions_distinct)
qed (auto simp: result_simps judge_story_declare_def split: if_splits)

lemma change_members_kind: "change_members kind m = Inr c \<Longrightarrow> kind_of_change c = kind"
  by (cases kind) (auto simp: result_simps judge_story_declare_def judge_edit_def Let_def split: if_splits)

lemma judge_change_shape:
  assumes "judge_change sha kind v = Some (Inr c)"
  shows "change_shape (cs_change c)" "kind_of_change (cs_change c) = kind"
proof -
  from assms obtain m where "change_members kind m = Inr (cs_change c)"
    by (auto simp: judge_change_def Let_def split: json.splits option.splits sum.splits)
  then show "change_shape (cs_change c)" "kind_of_change (cs_change c) = kind"
    by (rule change_members_shape, rule change_members_kind)
qed

section \<open>Reading a judgement\<close>

lemma refuse_first_Inr: "refuse_first refusal bad xs = Inr u \<longleftrightarrow> (\<forall>x \<in> set xs. \<not> bad x)"
  by (auto simp: refuse_first_def find_None_iff find_Some_iff split: option.splits)

lemma position_where_None: "position_where P xs = None \<longleftrightarrow> (\<forall>x \<in> set xs. \<not> P x)"
  by (induction xs) auto

lemma double_served_Inr: "double_served s edited stories = Inr u \<Longrightarrow> p \<in> set (declared_phases s) \<Longrightarrow> Some (hp_number p) \<noteq> edited \<Longrightarrow>
    i \<in> set stories \<Longrightarrow> i \<notin> set (hp_stories p)"
  by (induction s edited stories rule: double_served.induct) (auto simp: other_server_def find_None_iff split: option.splits)

lemma judge_members_Inr:
  assumes "judge_members s ds ss edited = Inr u" "phases_ok s" "stories_ok s"
  shows "set ds \<subseteq> declared_numbers s"
    "\<And>i. i \<in> set ss \<Longrightarrow> \<exists>h \<in> set (sc_stories s). hs_id h = i \<and> hs_status h = HeldActive"
    "\<And>p i. p \<in> set (declared_phases s) \<Longrightarrow> Some (hp_number p) \<noteq> edited \<Longrightarrow> i \<in> set ss \<Longrightarrow> i \<notin> set (hp_stories p)"
proof -
  from assms(1) have j: "\<forall>n \<in> set ds. is_declared s n" "\<forall>i \<in> set ss. story_of s i \<noteq> None"
    "\<forall>i \<in> set ss. \<not> not_active s i" "double_served s edited ss = Inr u"
    by (auto simp: judge_members_def result_simps refuse_first_Inr position_where_None split: option.splits)
  show "set ds \<subseteq> declared_numbers s" using j(1) is_declared_iff [OF assms(2)] by auto
  show "\<exists>h \<in> set (sc_stories s). hs_id h = i \<and> hs_status h = HeldActive" if "i \<in> set ss" for i
  proof -
    from j(2) that obtain h where h: "story_of s i = Some h" by auto
    moreover from j(3) that have "\<not> not_active s i" by blast
    ultimately show ?thesis using story_of_Some [OF assms(3), of i h] by (auto simp: not_active_def)
  qed
  show "i \<notin> set (hp_stories p)" if "p \<in> set (declared_phases s)" "Some (hp_number p) \<noteq> edited" "i \<in> set ss" for p i
    by (rule double_served_Inr [OF j(4) that])
qed

definition complete_in :: "(u32 \<rightharpoonup> phase_progress) \<Rightarrow> u32 set" where
  "complete_in progress = {n. \<exists>g. progress n = Some g \<and> pg_complete g}"

definition keeps_phases :: "u32 set \<Rightarrow> accepted_scope \<Rightarrow> accepted_scope \<Rightarrow> bool" where
  "keeps_phases K s s' \<longleftrightarrow>
     (\<forall>p \<in> set (sc_phases s). hp_number p \<in> K \<longrightarrow>
        (\<exists>q \<in> set (sc_phases s'). hp_number q = hp_number p \<and> hp_stories q = hp_stories p \<and> hp_withdrawn q = hp_withdrawn p))"

lemma keeps_same: "sc_phases s' = sc_phases s \<Longrightarrow> keeps_phases K s s'"
  by (auto simp: keeps_phases_def)

lemma keeps_trans: "keeps_phases K s s' \<Longrightarrow> keeps_phases K s' s'' \<Longrightarrow> keeps_phases K s s''"
  unfolding keeps_phases_def by metis

lemma judge_progress_Inr:
  assumes "judge_progress c s progress = Inr u"
  shows "case c of
      PhaseWithdraw phase decisions \<Rightarrow> phase \<notin> complete_in progress \<and> (\<forall>d \<in> set decisions. \<forall>to. wd_to d = ToPhase to \<longrightarrow> to \<notin> complete_in progress)
    | PhaseEdit phase fs \<Rightarrow> phase \<in> complete_in progress \<longrightarrow> (\<forall>ss. pf_stories fs = Some ss \<longrightarrow> (\<exists>p. phase_of s phase = Some p \<and> hp_stories p = ss))
    | StoryReassign i to \<Rightarrow> (\<forall>h n. story_of s i = Some h \<longrightarrow> hs_phase h = Some n \<longrightarrow> n \<notin> complete_in progress) \<and> (\<forall>n. to = Some n \<longrightarrow> n \<notin> complete_in progress)
    | StoryDrop i \<Rightarrow> (\<forall>h n. story_of s i = Some h \<longrightarrow> hs_phase h = Some n \<longrightarrow> n \<notin> complete_in progress)
    | StoryDeclare _ _ to \<Rightarrow> (\<forall>n. to = Some n \<longrightarrow> n \<notin> complete_in progress)
    | _ \<Rightarrow> True"
proof -
  let ?of = "\<lambda>p. case progress p of None \<Rightarrow> no_progress | Some g \<Rightarrow> g"
  have K: "pg_complete (?of n) \<longleftrightarrow> n \<in> complete_in progress" for n
    by (auto simp: complete_in_def no_progress_def split: option.splits)
  from assms have j: "progress_of_named c s ?of = Inr ()" "given_to c (pg_complete \<circ> ?of) = None"
    by (auto simp: judge_progress_def Let_def result_simps split: option.splits)
  show ?thesis
  proof (cases c)
    case (PhaseWithdraw phase decisions)
    with j show ?thesis
      by (force simp: K find_None_iff List.map_filter_def split: if_splits option.splits destination.splits)
  next
    case (PhaseEdit phase fs)
    with j show ?thesis by (auto simp: K Let_def split: if_splits option.splits)
  qed (use j in \<open>auto simp: K shipped_def split: if_splits option.splits\<close>)
qed

section \<open>Each kind keeps the invariant\<close>

definition keeps_ok :: "u32 set \<Rightarrow> scope_change \<Rightarrow> accepted_scope \<Rightarrow> bool" where
  "keeps_ok K c s \<longleftrightarrow> (\<exists>s'. fold_facts (kind_facts c s) s = Some s' \<and> scope_ok s' \<and> keeps_phases K s s')"

lemma edited_acyclic:
  assumes "deps_ok s" "\<And>ps. (n, n) \<notin> (edited_rel s n ds)\<^sup>+"
  shows "acyclic (edited_rel s n ds)"
proof -
  have "(m, m) \<notin> (edited_rel s n ds)\<^sup>+" for m
  proof
    assume m: "(m, m) \<in> (edited_rel s n ds)\<^sup>+"
    have "(m, m) \<notin> (depends_rel s)\<^sup>+" using assms(1) by (simp add: deps_ok_def acyclic_def)
    with edited_path [OF m] have "(m, n) \<in> (edited_rel s n ds)\<^sup>*" "(n, m) \<in> (edited_rel s n ds)\<^sup>+" by auto
    then have "(n, n) \<in> (edited_rel s n ds)\<^sup>+" by simp
    with assms(2) show False by simp
  qed
  then show ?thesis by (simp add: acyclic_def)
qed

lemma set_insert_at [simp]: "set (insert_at k x xs) = insert x (set xs)"
proof -
  have "set xs = set (take k xs) \<union> set (drop k xs)" by (metis append_take_drop_id set_append)
  then show ?thesis by (simp add: insert_at_def)
qed

lemma distinct_insert_at: "x \<notin> set xs \<Longrightarrow> distinct xs \<Longrightarrow> distinct (insert_at k x xs)"
proof -
  assume a: "x \<notin> set xs" "distinct xs"
  then have "distinct (take k xs @ drop k xs)" by simp
  then have "set (take k xs) \<inter> set (drop k xs) = {}" by (simp only: distinct_append)
  with a show ?thesis by (auto simp: insert_at_def dest: in_set_takeD in_set_dropD)
qed

lemma word_succ_less:
  fixes n :: u32
  assumes "n \<noteq> - 1"
  shows "n < n + 1"
proof -
  have "1 + n \<noteq> 0" using assms by (simp add: add_eq_0_iff)
  then have "unat (n + 1) = Suc (unat n)" by (metis add.commute unatSuc)
  then show ?thesis by (simp add: word_less_nat_alt)
qed

lemma highest_fresh:
  assumes "phases_ok s" "sc_highest_phase s \<noteq> - 1" "p \<in> set (sc_phases s)"
  shows "hp_number p \<noteq> sc_highest_phase s + 1"
proof -
  have "hp_number p \<le> sc_highest_phase s" using assms(1,3) by (simp add: phases_ok_def)
  moreover have "sc_highest_phase s < sc_highest_phase s + 1" using assms(2) by (rule word_succ_less)
  ultimately show ?thesis by auto
qed

lemma keeps_ok_declare:
  assumes ok: "scope_ok s" and shape: "change_shape (PhaseDeclare d)" and j: "judge_declaration d s = Some (Inr u)"
    and more: "sc_highest_phase s \<noteq> - 1"
  shows "keeps_ok K (PhaseDeclare d) s"
proof -
  note I = scope_okD [OF ok]
  let ?n = "sc_highest_phase s + 1"
  let ?x = "\<lparr>hp_number = ?n, hp_name = pd_name d, hp_goal = pd_goal d, hp_depends_on = pd_depends_on d,
    hp_stories = pd_stories d, hp_withdrawn = False\<rparr>"
  let ?order = "insert_at (declared_place d s) ?n (sc_order s)"
  from j have "judge_members s (pd_depends_on d) (pd_stories d) None = Inr ()"
    by (cases "judge_members s (pd_depends_on d) (pd_stories d) None") (auto simp: judge_declaration_def)
  note J = judge_members_Inr [OF this I(1,2)]
  have fresh: "hp_number p \<noteq> ?n" if "p \<in> set (sc_phases s)" for p using highest_fresh [OF I(1) more that] .
  then have "?n \<notin> hp_number ` set (sc_phases s)" by (metis imageE)
  then have new: "?n \<notin> declared_numbers s" by (auto simp: declared_numbers_def declared_phases_def)
  have rel: "depends_rel (with_phase ?x s) = edited_rel s ?n (pd_depends_on d)"
    using with_phase_declared(3) [of s ?x] I(1) fresh by (auto simp: edited_rel_def)
  have num: "declared_numbers (with_phase ?x s) = insert ?n (declared_numbers s)"
    using with_phase_declared(2) [of s ?x] I(1) fresh by auto
  have into: "b \<noteq> ?n" if "(a, b) \<in> edited_rel s ?n (pd_depends_on d)" for a b
    using that I(4) J(1) new by (force simp: edited_rel_def deps_ok_def)
  have "acyclic (edited_rel s ?n (pd_depends_on d))"
    by (rule edited_acyclic [OF I(4)]) (meson into tranclE)
  moreover have "snd ` edited_rel s ?n (pd_depends_on d) \<subseteq> insert ?n (declared_numbers s)"
    using I(4) J(1) by (auto simp: edited_rel_def deps_ok_def)
  ultimately have "deps_ok (with_phase ?x s)" by (simp add: deps_ok_def rel num)
  then have inv: "scope_inv {} (with_phase ?x s)"
    by (intro scope_inv_with_phase [OF I(6)]) (use shape fresh J in auto)
  let ?s = "(with_phase ?x s)\<lparr>sc_order := ?order\<rparr>"
  have "order_ok ?s"
    using I(5) num new distinct_insert_at [of ?n "sc_order s"]
    by (simp add: order_ok_def declared_numbers_def declared_phases_def)
  moreover have "scope_inv {} ?s" using inv
    by (simp add: scope_inv_def phases_ok_def stories_ok_def served_ok_def deps_ok_def depends_rel_def declared_numbers_def declared_phases_def)
  moreover have "keeps_phases K s ?s"
    using set_put_phase(1) [of "sc_phases s" ?x] I(1) fresh by (fastforce simp: keeps_phases_def with_phase_def phases_ok_def)
  ultimately show ?thesis unfolding keeps_ok_def scope_ok_def
    by (intro exI [of _ ?s]) (simp add: with_phase_def)
qed

lemma scope_inv_order: "scope_inv R (s\<lparr>sc_order := order\<rparr>) \<longleftrightarrow> scope_inv R s"
    "declared_numbers (s\<lparr>sc_order := order\<rparr>) = declared_numbers s"
  by (simp_all add: scope_inv_def phases_ok_def stories_ok_def served_ok_def deps_ok_def depends_rel_def declared_numbers_def declared_phases_def)

lemma keeps_ok_reorder:
  assumes ok: "scope_ok s" and j: "judge_reorder order s = Inr u"
  shows "keeps_ok K (PhaseReorder order) s"
proof -
  note I = scope_okD [OF ok]
  from j have d: "\<forall>n \<in> set order. is_declared s n" "length (remdups order) = length order"
    "length order = length (remdups (map hp_number (declared_phases s)))"
    by (auto simp: judge_reorder_def result_simps refuse_first_Inr Let_def split: if_splits)
  from d(2) have dist: "distinct order" by (metis length_remdups_card_conv card_distinct)
  have "set order \<subseteq> declared_numbers s" using d(1) is_declared_iff [OF I(1)] by auto
  moreover have "card (set order) = card (declared_numbers s)"
    using d(3) distinct_card [OF dist] by (simp add: length_remdups_card_conv declared_numbers_def)
  ultimately have "set order = declared_numbers s"
    by (intro card_subset_eq) (simp_all add: declared_numbers_def)
  with dist I(6) show ?thesis
    by (simp add: keeps_ok_def scope_ok_def order_ok_def scope_inv_order keeps_same)
qed

lemma keeps_ok_backlog:
  assumes ok: "scope_ok s" and j: "judge_backlog_order order s = Inr u"
  shows "keeps_ok K (BacklogReorder order) s"
proof -
  note I = scope_okD [OF ok]
  let ?ordered = "remdups (map hs_id (filter backlog_held (sc_stories s)))"
  from j have d: "\<forall>i \<in> set order. story_of s i \<noteq> None" "set order = set ?ordered" "length order = length ?ordered"
    by (auto simp: judge_backlog_order_def result_simps refuse_first_Inr Let_def split: if_splits)
  have dist: "distinct order" using d(2,3) by (metis card_distinct distinct_card distinct_remdups)
  have "i \<in> hs_id ` set (sc_stories s)" if "i \<in> set order" for i
    using d(1) that unfolding story_of_ex by (metis imageI)
  then have "set order \<subseteq> hs_id ` set (sc_stories s)" by blast
  with dist obtain hs where hs: "prioritized order (sc_stories s) = Some hs"
    using prioritized_Some [of "sc_stories s" order] I(2) by (auto simp: stories_ok_def)
  have "order_ok (s\<lparr>sc_stories := hs\<rparr>)" using I(5) by (simp add: order_ok_def declared_numbers_def declared_phases_def)
  with scope_inv_prioritized [OF I(6) hs] hs show ?thesis
    by (simp add: keeps_ok_def scope_ok_def keeps_same)
qed

lemma judge_phase_edit_Inr:
  assumes "judge_phase_edit c n fs s progress = Some (Inr u)"
  shows "is_declared s n" "judge_progress c s progress = Inr ()"
    "judge_members s (case pf_depends_on fs of None \<Rightarrow> [] | Some ds \<Rightarrow> ds) (case pf_stories fs of None \<Rightarrow> [] | Some ss \<Rightarrow> ss) (Some n) = Inr ()"
    "pf_depends_on fs = Some ds \<Longrightarrow> on_cycle_with s n ds = Some []"
  using assms by (auto simp: judge_phase_edit_def result_simps bind_eq_Some_conv split: if_splits option.splits sum.splits)

lemma edited_same:
  assumes "phases_ok s" "p \<in> set (declared_phases s)"
  shows "edited_rel s (hp_number p) (hp_depends_on p) = depends_rel s"
proof -
  have "q = p" if "q \<in> set (declared_phases s)" "hp_number q = hp_number p" for q
    using distinct_key [OF phases_distinct [OF assms(1)], of q p] that assms(2) by (simp add: declared_phases_def)
  with assms(2) show ?thesis by (auto simp: edited_rel_def depends_rel_def)
qed

lemma keeps_ok_edit:
  assumes ok: "scope_ok s" and shape: "change_shape (PhaseEdit n fs)" and j: "judge_kind (PhaseEdit n fs) s progress = Some (Inr u)"
  shows "keeps_ok (complete_in progress) (PhaseEdit n fs) s"
proof -
  note I = scope_okD [OF ok]
  note J = judge_phase_edit_Inr [OF j [unfolded judge_kind.simps]]
  note M = judge_members_Inr [OF J(3) I(1,2)]
  obtain p where p: "declared s n = Some p" using J(1) by (auto simp: is_declared_def)
  with declared_Some [OF I(1), of n p] have dp: "p \<in> set (declared_phases s)" and pn: "hp_number p = n" by simp_all
  then have ps: "p \<in> set (sc_phases s)" and up: "\<not> hp_withdrawn p" by (simp_all add: declared_phases_def)
  have po: "phase_of s n = Some p" using phase_of_Some [OF I(1), of n p] ps pn by simp
  have only: "q = p" if "q \<in> set (sc_phases s)" "hp_number q = n" for q
    using distinct_key [OF phases_distinct [OF I(1)] that(1) ps] that(2) pn by simp
  let ?ds = "or_held (pf_depends_on fs) (hp_depends_on p)" and ?ss = "or_held (pf_stories fs) (hp_stories p)"
  let ?x = "\<lparr>hp_number = n, hp_name = or_held (pf_name fs) (hp_name p), hp_goal = or_held (pf_goal fs) (hp_goal p),
    hp_depends_on = ?ds, hp_stories = ?ss, hp_withdrawn = False\<rparr>"
  have held: "\<not> hp_withdrawn q" if "q \<in> set (sc_phases s)" "hp_number q = hp_number ?x" for q
    using only [OF that(1)] that(2) up by simp
  have num: "declared_numbers (with_phase ?x s) = declared_numbers s"
    using with_phase_declared(2) [of s ?x, OF I(1) _ held] dp pn by (auto simp: declared_numbers_def)
  have rel: "depends_rel (with_phase ?x s) = edited_rel s n ?ds"
    using with_phase_declared(3) [of s ?x, OF I(1) _ held] by (simp add: edited_rel_def)
  have "acyclic (edited_rel s n ?ds) \<and> snd ` edited_rel s n ?ds \<subseteq> declared_numbers s"
  proof (cases "pf_depends_on fs")
    case None
    with edited_same [OF I(1) dp] pn I(4) show ?thesis by (simp add: or_held_def deps_ok_def)
  next
    case (Some ds)
    from on_cycle_with_cycles [OF I(1,4), of n ds] J(4) [OF Some] have "{m. (m, m) \<in> (edited_rel s n ds)\<^sup>+} = {}" by auto
    moreover have "snd ` edited_rel s n ds \<subseteq> declared_numbers s"
      using I(4) M(1) Some by (auto simp: edited_rel_def deps_ok_def)
    ultimately show ?thesis using Some by (auto simp: or_held_def acyclic_def)
  qed
  then have "deps_ok (with_phase ?x s)" by (simp add: deps_ok_def rel num)
  moreover have "distinct ?ss" using shape I(1) ps by (auto simp: or_held_def phases_ok_def split: option.splits)
  moreover have "\<exists>h \<in> set (sc_stories s). hs_id h = i \<and> hs_status h = HeldActive" if "i \<in> set ?ss" for i
    using that M(2) [of i] served_exists [OF I(3) ps, of i] by (auto simp: or_held_def split: option.splits)
  moreover have "i \<notin> set (hp_stories q)" if "q \<in> set (declared_phases s)" "hp_number q \<noteq> n" "i \<in> set ?ss" for q i
  proof (cases "pf_stories fs")
    case None
    have "q \<in> set (sc_phases s)" using that(1) by (simp add: declared_phases_def)
    with served_unique [OF I(3,2,1) ps, of q i] that pn None show ?thesis by (auto simp: or_held_def)
  qed (use M(3) [of q i] that in \<open>simp add: or_held_def\<close>)
  ultimately have inv: "scope_inv {} (with_phase ?x s)"
    by (intro scope_inv_with_phase [OF I(6)]) (use held in auto)
  have "order_ok (with_phase ?x s)" using I(5) num by (simp add: order_ok_def) (simp add: with_phase_def)
  moreover have "keeps_phases (complete_in progress) s (with_phase ?x s)"
    unfolding keeps_phases_def
  proof (intro ballI impI)
    fix q assume q: "q \<in> set (sc_phases s)" "hp_number q \<in> complete_in progress"
    have new: "set (sc_phases (with_phase ?x s)) = insert ?x {p \<in> set (sc_phases s). hp_number p \<noteq> n}"
      using set_put_phase(1) [of "sc_phases s" ?x] I(1) by (simp add: with_phase_def phases_ok_def)
    show "\<exists>r \<in> set (sc_phases (with_phase ?x s)). hp_number r = hp_number q \<and> hp_stories r = hp_stories q \<and> hp_withdrawn r = hp_withdrawn q"
    proof (cases "hp_number q = n")
      case True
      with only q(1) have "q = p" by simp
      moreover have "?ss = hp_stories p"
        using judge_progress_Inr [OF J(2)] q(2) True po by (auto simp: or_held_def split: option.splits)
      ultimately show ?thesis using new pn up by auto
    qed (use q new in auto)
  qed
  ultimately show ?thesis using inv po unfolding keeps_ok_def scope_ok_def
    by (intro exI [of _ "with_phase ?x s"]) (simp add: with_phase_def)
qed

section \<open>Stories\<close>

lemma order_ok_frame: "sc_order s' = sc_order s \<Longrightarrow> declared_numbers s' = declared_numbers s \<Longrightarrow> order_ok s' = order_ok s"
  by (simp add: order_ok_def)

lemma keeps_ok_story:
  assumes ok: "scope_ok s" and shape: "change_shape (StoryDeclare sentence status phase)"
    and j: "judge_kind (StoryDeclare sentence status phase) s progress = Some (Inr u)" and more: "sc_highest_story s \<noteq> - 1"
  shows "keeps_ok (complete_in progress) (StoryDeclare sentence status phase) s"
proof -
  note I = scope_okD [OF ok]
  let ?i = "sc_highest_story s + 1"
  let ?h = "\<lparr>hs_id = ?i, hs_status = held_of status, hs_phase = phase\<rparr>"
  have fresh: "sc_highest_story s < hs_id ?h" using word_succ_less [OF more] by simp
  from j have d: "judge_progress (StoryDeclare sentence status phase) s progress = Inr ()" "\<And>n. phase = Some n \<Longrightarrow> n \<in> declared_numbers s"
    using is_declared_iff [OF I(1)] by (auto split: option.splits if_splits)
  have "scope_inv {} (with_story ?h s)"
    by (rule scope_inv_with_story [OF I(6) fresh]) (use shape d(2) in auto)
  moreover have "order_ok (with_story ?h s)" using I(5) by (subst order_ok_frame [of _ s]) (simp_all, simp add: with_story_def)
  moreover have "keeps_phases (complete_in progress) s (with_story ?h s)"
    using judge_progress_Inr [OF d(1)] by (force simp: keeps_phases_def with_story_def)
  moreover have "fold_facts (kind_facts (StoryDeclare sentence status phase) s) s = Some (with_story ?h s)"
    using with_story_eq [OF I(1-3) fresh] by simp
  ultimately show ?thesis unfolding keeps_ok_def scope_ok_def by blast
qed

lemma keeps_ok_story_edit:
  assumes ok: "scope_ok s" and held: "held_status_of s story \<noteq> None"
  shows "keeps_ok K (StoryEdit story sentence) s"
proof -
  note I = scope_okD [OF ok]
  from held obtain h st where h: "story_of s story = Some h" "stated (hs_status h) = Some st" "held_status_of s story = Some st"
    by (auto simp: held_status_of_def bind_eq_Some_conv)
  then have st: "held_of st = hs_status h" by (cases "hs_status h") auto
  have "x\<lparr>hs_status := held_of st\<rparr> = x" if "x \<in> set (sc_stories s)" "hs_id x = story" for x
    using story_of_Some [OF I(2), of story x] that h(1) st by simp
  then have "map (\<lambda>x. if hs_id x = story then x\<lparr>hs_status := held_of st\<rparr> else x) (sc_stories s) = sc_stories s"
    by (intro map_idI) simp
  then have "change_held_story story (\<lambda>x. x\<lparr>hs_status := held_of st\<rparr>) s = s"
    using I(2) by (simp add: change_held_story_def stories_ok_def update_first_map)
  with h ok show ?thesis by (simp add: keeps_ok_def keeps_same)
qed

lemma dropped_eq: "phases_ok s \<Longrightarrow> stories_ok s \<Longrightarrow>
    change_held_story i (\<lambda>h. h\<lparr>hs_status := HeldDropped, hs_phase := None\<rparr>) (unserve_all i s) = moved i HeldDropped None s"
  using moved_eq [of s None i HeldDropped] by (simp add: serve_by_def)

lemma keeps_moved:
  assumes "served_ok R s" "stories_ok s"
    and "\<And>h n. story_of s i = Some h \<Longrightarrow> hs_phase h = Some n \<Longrightarrow> n \<notin> K" "\<And>n. to = Some n \<Longrightarrow> n \<notin> K"
  shows "keeps_phases K s (moved i status to s)"
  unfolding keeps_phases_def
proof (intro ballI impI)
  fix p assume p: "p \<in> set (sc_phases s)" "hp_number p \<in> K"
  have "i \<notin> set (hp_stories p)"
  proof
    assume "i \<in> set (hp_stories p)"
    from served_exists [OF assms(1) p(1) this] story_of_Some [OF assms(2)] assms(3) p(2) show False by blast
  qed
  with p assms(4) show "\<exists>q \<in> set (sc_phases (moved i status to s)). hp_number q = hp_number p \<and> hp_stories q = hp_stories p \<and> hp_withdrawn q = hp_withdrawn p"
    by (intro bexI [of _ p]) (force simp: moved_def removeAll_id)+
qed

lemma served_Inr: "served s i = Inr u \<Longrightarrow> story_of s i \<noteq> None"
  by (auto simp: served_def split: option.splits)

lemma keeps_ok_moved:
  assumes ok: "scope_ok s" and i: "story_of s i \<noteq> None"
    and to: "\<And>n. to = Some n \<Longrightarrow> status = HeldActive \<and> n \<in> declared_numbers s \<and> n \<notin> K"
    and from_: "\<And>h n. story_of s i = Some h \<Longrightarrow> hs_phase h = Some n \<Longrightarrow> n \<notin> K"
  shows "scope_ok (moved i status to s) \<and> keeps_phases K s (moved i status to s)"
proof -
  note I = scope_okD [OF ok]
  have "scope_inv ({} - {i}) (moved i status to s)" by (rule scope_inv_moved [OF I(6) i]) (use to in blast)
  moreover have "order_ok (moved i status to s)" using I(5) by (simp add: order_ok_def)
  ultimately show ?thesis using keeps_moved [OF I(3,2), of i K to status] to from_ by (simp add: scope_ok_def)
qed

lemma keeps_ok_reassign:
  assumes ok: "scope_ok s" and j: "judge_kind (StoryReassign i to) s progress = Some (Inr u)"
    and held: "kind_facts (StoryReassign i to) s \<noteq> []"
  shows "keeps_ok (complete_in progress) (StoryReassign i to) s"
proof -
  note I = scope_okD [OF ok]
  from j have d: "story_of s i \<noteq> None" "judge_progress (StoryReassign i to) s progress = Inr ()" "\<And>n. to = Some n \<Longrightarrow> n \<in> declared_numbers s"
    using is_declared_iff [OF I(1)] served_Inr [of s i] by (auto simp: result_simps split: option.splits if_splits)
  from held obtain st where st: "kind_facts (StoryReassign i to) s = [FactMoved i st to]" "to \<noteq> None \<Longrightarrow> st = StoryActive"
    by (auto split: option.splits)
  have "phase_of s n \<noteq> None" if "to = Some n" for n
    using d(3) [OF that] by (auto simp: declared_numbers_def declared_phases_def phase_of_None list_ex_iff)
  moreover have "scope_ok (moved i (held_of st) to s) \<and> keeps_phases (complete_in progress) s (moved i (held_of st) to s)"
    by (rule keeps_ok_moved [OF ok d(1)]) (use d(3) st(2) judge_progress_Inr [OF d(2)] in auto)
  ultimately show ?thesis using st(1) d(1) moved_eq [OF I(1,2)] by (auto simp: keeps_ok_def simp del: kind_facts.simps)
qed

lemma keeps_ok_drop:
  assumes ok: "scope_ok s" and j: "judge_kind (StoryDrop i) s progress = Some (Inr u)"
  shows "keeps_ok (complete_in progress) (StoryDrop i) s"
proof -
  note I = scope_okD [OF ok]
  from j have d: "story_of s i \<noteq> None" "judge_progress (StoryDrop i) s progress = Inr ()"
    using served_Inr [of s i] by (auto simp: result_simps)
  have "scope_ok (moved i HeldDropped None s) \<and> keeps_phases (complete_in progress) s (moved i HeldDropped None s)"
    by (rule keeps_ok_moved [OF ok d(1)]) (use judge_progress_Inr [OF d(2)] in auto)
  with d(1) dropped_eq [OF I(1,2)] show ?thesis by (auto simp: keeps_ok_def)
qed

section \<open>Withdrawing a phase\<close>

lemma story_of_moved: "j \<noteq> i \<Longrightarrow> story_of (moved i st to s) j = story_of s j"
proof -
  assume "j \<noteq> i"
  then have "find (\<lambda>h. hs_id h = j) (map (\<lambda>h. if hs_id h = i then h\<lparr>hs_status := st, hs_phase := to\<rparr> else h) hs) = find (\<lambda>h. hs_id h = j) hs" for hs
    by (induction hs) auto
  then show ?thesis by (simp add: story_of_def moved_def)
qed

lemma fold_facts_append: "fold_facts (fs @ gs) s = Option.bind (fold_facts fs s) (fold_facts gs)"
  by (induction fs arbitrary: s) (auto split: Option.bind_split)

lemma moves_keep:
  assumes "distinct is" "scope_inv (set is) s" "\<And>i. i \<in> set is \<Longrightarrow> story_of s i \<noteq> None"
    and found: "\<And>i. i \<in> set is \<Longrightarrow> \<exists>d. find (\<lambda>d. wd_story d = i) decisions = Some d
      \<and> (\<forall>n. wd_to d = ToPhase n \<longrightarrow> n \<in> declared_numbers s \<and> n \<notin> K)"
    and from_: "\<And>i h n. i \<in> set is \<Longrightarrow> story_of s i = Some h \<Longrightarrow> hs_phase h = Some n \<Longrightarrow> n \<notin> K"
  shows "\<exists>s'. fold_facts (List.map_filter (moved_fact decisions) is) s = Some s' \<and> scope_inv {} s'
    \<and> declared_numbers s' = declared_numbers s \<and> sc_order s' = sc_order s \<and> keeps_phases K s s'"
  using assms
proof (induction "is" arbitrary: s)
  case Nil
  then show ?case by (auto simp: List.map_filter_simps keeps_same)
next
  case (Cons i "is")
  have inv: "phases_ok s" "stories_ok s" "served_ok (set (i # is)) s" using Cons.prems(2) by (simp_all add: scope_inv_def)
  obtain d where d: "find (\<lambda>d. wd_story d = i) decisions = Some d"
    "\<And>n. wd_to d = ToPhase n \<Longrightarrow> n \<in> declared_numbers s \<and> n \<notin> K" using Cons.prems(4) [of i] by auto
  define st where "st = (case wd_to d of ToPhase _ \<Rightarrow> HeldActive | ToDrop \<Rightarrow> HeldDropped)"
  define to where "to = (case wd_to d of ToPhase n \<Rightarrow> Some n | ToDrop \<Rightarrow> None)"
  have to: "st = HeldActive \<and> n \<in> declared_numbers s" "n \<notin> K" if "to = Some n" for n
    using that d(2) by (auto simp: st_def to_def split: destination.splits)
  let ?s = "moved i st to s"
  have i: "story_of s i \<noteq> None" using Cons.prems(3) by simp
  have step: "fold_facts (List.map_filter (moved_fact decisions) (i # is)) s = fold_facts (List.map_filter (moved_fact decisions) is) ?s"
  proof (cases "wd_to d")
    case (ToPhase n)
    then have "phase_of s n \<noteq> None" using d(2) by (auto simp: declared_numbers_def declared_phases_def phase_of_None list_ex_iff)
    with ToPhase d(1) i moved_eq [OF inv(1,2), of "Some n" i HeldActive] show ?thesis by (auto simp: List.map_filter_simps st_def to_def)
  next
    case ToDrop
    with d(1) i dropped_eq [OF inv(1,2), of i] show ?thesis by (auto simp: List.map_filter_simps st_def to_def)
  qed
  have "scope_inv (set (i # is) - {i}) ?s" by (rule scope_inv_moved [OF Cons.prems(2) i to(1)])
  moreover have "set (i # is) - {i} = set is" using Cons.prems(1) by auto
  ultimately have inv': "scope_inv (set is) ?s" by simp
  have other: "story_of ?s j = story_of s j" if "j \<noteq> i" for j
    using that by (rule story_of_moved)
  have "\<exists>s'. fold_facts (List.map_filter (moved_fact decisions) is) ?s = Some s' \<and> scope_inv {} s'
      \<and> declared_numbers s' = declared_numbers ?s \<and> sc_order s' = sc_order ?s \<and> keeps_phases K ?s s'"
  proof (rule Cons.IH [OF _ inv'])
    show "distinct is" using Cons.prems(1) by simp
    fix j assume j: "j \<in> set is"
    with Cons.prems(1) have "j \<noteq> i" by auto
    note o = other [OF this]
    show "story_of ?s j \<noteq> None" using Cons.prems(3) [of j] j o by simp
    show "\<exists>d. find (\<lambda>d. wd_story d = j) decisions = Some d \<and> (\<forall>n. wd_to d = ToPhase n \<longrightarrow> n \<in> declared_numbers ?s \<and> n \<notin> K)"
      using Cons.prems(4) [of j] j by simp
    show "n \<notin> K" if "story_of ?s j = Some h" "hs_phase h = Some n" for h n
      using Cons.prems(5) [of j h n] j o that by simp
  qed
  moreover have "keeps_phases K s ?s"
    by (rule keeps_moved [OF inv(3,2)]) (use Cons.prems(5) to(2) in auto)
  ultimately show ?case unfolding step by (auto intro: keeps_trans)
qed

lemma find_wanted: "\<not> undecided ds i \<Longrightarrow> \<exists>d \<in> set ds. find (\<lambda>d. wd_story d = i) ds = Some d"
proof -
  assume "\<not> undecided ds i"
  then have "find (\<lambda>d. wd_story d = i) ds \<noteq> None" by (auto simp: undecided_def list_ex_iff find_None_iff)
  then obtain d where d: "find (\<lambda>d. wd_story d = i) ds = Some d" by auto
  then have "d \<in> set ds" by (auto dest: find_SomeD)
  with d show ?thesis by blast
qed

lemma judge_withdrawal_Inr:
  assumes "judge_withdrawal p ds s = Inr u" "phases_ok s"
  shows "\<And>q. q \<in> set (declared_phases s) \<Longrightarrow> hp_number q \<noteq> hp_number p \<Longrightarrow> hp_number p \<notin> set (hp_depends_on q)"
    "\<And>i. i \<in> set (hp_stories p) \<Longrightarrow> \<exists>d \<in> set ds. find (\<lambda>d. wd_story d = i) ds = Some d"
    "\<And>d n. d \<in> set ds \<Longrightarrow> wd_to d = ToPhase n \<Longrightarrow> n \<noteq> hp_number p \<and> n \<in> declared_numbers s"
proof -
  from assms(1) have j: "filter (\<lambda>h. hp_number h \<noteq> hp_number p \<and> hp_number p \<in> set (hp_depends_on h)) (declared_phases s) = []"
    "\<forall>i \<in> set (hp_stories p). \<not> undecided ds i" "List.map_filter (lost_destination s (hp_number p)) ds = []"
    by (auto simp: judge_withdrawal_def Let_def result_simps refuse_first_Inr split: if_splits list.splits)
  show "hp_number p \<notin> set (hp_depends_on q)" if "q \<in> set (declared_phases s)" "hp_number q \<noteq> hp_number p" for q
    using j(1) that by (auto simp: filter_empty_conv)
  show "\<exists>d \<in> set ds. find (\<lambda>d. wd_story d = i) ds = Some d" if "i \<in> set (hp_stories p)" for i
    using j(2) that find_wanted by blast
  show "n \<noteq> hp_number p \<and> n \<in> declared_numbers s" if "d \<in> set ds" "wd_to d = ToPhase n" for d n
  proof -
    have "lost_destination s (hp_number p) d = None"
      using j(3) that(1) by (auto simp: List.map_filter_def filter_empty_conv)
    with that(2) show ?thesis using is_declared_iff [OF assms(2)] by (auto split: if_splits)
  qed
qed

lemma keeps_ok_withdraw:
  assumes ok: "scope_ok s" and j: "judge_kind (PhaseWithdraw n ds) s progress = Some (Inr u)"
  shows "keeps_ok (complete_in progress) (PhaseWithdraw n ds) s"
proof -
  note I = scope_okD [OF ok]
  let ?K = "complete_in progress"
  from j obtain p where p: "declared s n = Some p" "judge_progress (PhaseWithdraw n ds) s progress = Inr ()" "judge_withdrawal p ds s = Inr ()"
    by (auto simp: result_simps split: option.splits)
  from p(1) declared_Some [OF I(1), of n p] have dp: "p \<in> set (declared_phases s)" and pn: "hp_number p = n" by simp_all
  then have ps: "p \<in> set (sc_phases s)" by (simp add: declared_phases_def)
  have po: "phase_of s n = Some p" using phase_of_Some [OF I(1), of n p] ps pn by simp
  note J = judge_withdrawal_Inr [OF p(3) I(1), unfolded pn]
  note P = judge_progress_Inr [OF p(2), simplified]
  let ?w = "with_withdrawn n s"
  have inv: "scope_inv (set (hp_stories p)) ?w" by (rule scope_inv_withdrawn [OF I(6) ps pn J(1)])
  have stories: "story_of ?w i = story_of s i" for i by (simp add: story_of_def with_withdrawn_def)
  have held: "\<exists>h. story_of s i = Some h \<and> hs_phase h = Some n" if "i \<in> set (hp_stories p)" for i
    using served_exists [OF I(3) ps that] story_of_Some [OF I(2)] pn by blast
  have dist: "distinct (hp_stories p)" using I(1) ps by (simp add: phases_ok_def)
  have "\<exists>s'. fold_facts (List.map_filter (moved_fact ds) (hp_stories p)) ?w = Some s' \<and> scope_inv {} s'
      \<and> declared_numbers s' = declared_numbers ?w \<and> sc_order s' = sc_order ?w \<and> keeps_phases ?K ?w s'"
  proof (rule moves_keep [OF dist inv])
    fix i assume i: "i \<in> set (hp_stories p)"
    show "story_of ?w i \<noteq> None" using held [OF i] by (auto simp: stories)
    show "\<exists>d. find (\<lambda>d. wd_story d = i) ds = Some d \<and> (\<forall>m. wd_to d = ToPhase m \<longrightarrow> m \<in> declared_numbers ?w \<and> m \<notin> ?K)"
      using J(2) [OF i] J(3) P by (auto simp: with_withdrawn_declared)
    show "m \<notin> ?K" if "story_of ?w i = Some h" "hs_phase h = Some m" for h m
      using held [OF i] that P by (auto simp: stories)
  qed
  then obtain s' where s': "fold_facts (List.map_filter (moved_fact ds) (hp_stories p)) ?w = Some s'" "scope_inv {} s'"
    "declared_numbers s' = declared_numbers s - {n}" "keeps_phases ?K ?w s'"
    by (auto simp: with_withdrawn_declared)
  let ?s = "s'\<lparr>sc_order := filter (\<lambda>m. m \<noteq> n) (sc_order s)\<rparr>"
  have "order_ok ?s" using I(5) s'(3) by (auto simp: order_ok_def scope_inv_order)
  moreover have "keeps_phases ?K s ?w" using P by (auto simp: keeps_phases_def with_withdrawn_def)
  then have "keeps_phases ?K s s'" using s'(4) by (rule keeps_trans)
  then have "keeps_phases ?K s ?s" by (simp add: keeps_phases_def)
  moreover have "fold_facts (kind_facts (PhaseWithdraw n ds) s) s = Some ?s"
    using s'(1) po with_withdrawn_eq [OF I(1), of n] by (simp add: fold_facts_append)
  ultimately show ?thesis using s'(2) unfolding keeps_ok_def scope_ok_def by (auto simp: scope_inv_order)
qed

end
