(* ===== verification/Scope_Reach.thy ===== *)
theory Scope_Reach
  imports Scope_Kinds
begin

text \<open>
  The roadmap tables that starts, changes and refinements reach.  An accepted start's events, folded
  from the empty scope, give a sound one; an accepted change keeps it sound; so every reachable
  document reads as a sound scope, and the events of an accepted change always project.
\<close>

section \<open>Every accepted change keeps the invariant\<close>

lemma accepted_change_ok:
  assumes ok: "scope_ok s" and shape: "change_shape c" and j: "judge_kind c s progress = Some (Inr u)"
    and recorded: "kind_events c s detail digest = Some (Inr news)"
  shows "keeps_ok (complete_in progress) c s"
proof (cases c)
  case (ProjectDescribe d)
  with ok show ?thesis by (simp add: keeps_ok_def keeps_same)
next
  case (PhaseDeclare d)
  with j recorded show ?thesis
    by (auto simp: next_number_Suc split: if_splits intro!: keeps_ok_declare [OF ok shape [unfolded PhaseDeclare], of u])
next
  case (PhaseEdit n fs)
  with keeps_ok_edit [OF ok] shape j show ?thesis by blast
next
  case (PhaseReorder order)
  with keeps_ok_reorder [OF ok] j show ?thesis by simp
next
  case (PhaseWithdraw n ds)
  with keeps_ok_withdraw [OF ok] j show ?thesis by blast
next
  case (StoryDeclare sentence status phase)
  moreover from this recorded have "sc_highest_story s \<noteq> - 1" by (auto simp: next_number_Suc split: if_splits)
  ultimately show ?thesis using keeps_ok_story [OF ok] shape j by blast
next
  case (StoryEdit i sentence)
  with recorded have "held_status_of s i \<noteq> None" by (cases "held_status_of s i") auto
  with keeps_ok_story_edit [OF ok] StoryEdit show ?thesis by simp
next
  case (StoryReassign i to)
  with recorded have "kind_facts (StoryReassign i to) s \<noteq> []" by (auto simp: bind_eq_Some_conv)
  with keeps_ok_reassign [OF ok] j StoryReassign show ?thesis by simp
next
  case (StoryDrop i)
  with keeps_ok_drop [OF ok] j show ?thesis by blast
next
  case (BacklogReorder order)
  with keeps_ok_backlog [OF ok] j show ?thesis by simp
qed

section \<open>The start\<close>

definition nth_number :: "nat \<Rightarrow> u32" where
  "nth_number i = of_nat (i + 1)"

lemma nth_number_unat: "i + 1 < 2 ^ 32 \<Longrightarrow> unat (nth_number i) = i + 1"
  by (simp only: nth_number_def unat_of_nat) simp

lemma nth_number_less: "i + 1 < 2 ^ 32 \<Longrightarrow> j + 1 < 2 ^ 32 \<Longrightarrow> nth_number i < nth_number j \<longleftrightarrow> i < j"
  by (simp only: word_less_nat_alt nth_number_unat) simp

lemma nth_number_eq: "i + 1 < 2 ^ 32 \<Longrightarrow> j + 1 < 2 ^ 32 \<Longrightarrow> nth_number i = nth_number j \<longleftrightarrow> i = j"
  by (metis nth_number_unat add_right_cancel)

lemma next_numbers_zero:
  assumes "next_numbers 0 n = Inr ns"
  shows "n < 2 ^ 32 \<and> ns = map nth_number [0..<n]"
proof -
  let ?f = "\<lambda>step. if step < 2 ^ 32 \<and> unat (0 :: u32) + step < 2 ^ 32 then Inr (0 + of_nat step) else Inl NumbersExhausted"
  have all: "list_all2 (\<lambda>x y. ?f x = Inr y) [1..<n + 1] ns"
    using assms by (simp only: next_numbers_def collect_results_Inr_iff)
  then have len: "length ns = n" by (auto dest: list_all2_lengthD simp del: upt_Suc)
  have one: "i + 1 < 2 ^ 32 \<and> ns ! i = nth_number i" if "i < n" for i
  proof -
    have "?f ([1..<n + 1] ! i) = Inr (ns ! i)" using list_all2_nthD [OF all, of i] that by simp
    moreover have "[1..<n + 1] ! i = i + 1" using that by (simp del: upt_Suc)
    ultimately show ?thesis by (simp only: nth_number_def) (simp split: if_splits)
  qed
  have "n < 2 ^ 32" using one [of "n - 1"] by (cases n) auto
  moreover have "ns = map nth_number [0..<n]" by (rule nth_equalityI) (use len one in auto)
  ultimately show ?thesis by simp
qed

definition start_story_of :: "submission \<Rightarrow> nat \<Rightarrow> held_story" where
  "start_story_of sub i = \<lparr>hs_id = nth_number i, hs_status = held_of (ss_status (sb_stories sub ! i)),
     hs_phase = map_option nth_number (position_where (\<lambda>p. i \<in> set (sp_stories p)) (sb_phases sub))\<rparr>"

definition start_phase_of :: "submission \<Rightarrow> nat \<Rightarrow> held_phase" where
  "start_phase_of sub i =
     (let phase = sb_phases sub ! i
      in \<lparr>hp_number = nth_number i, hp_name = sp_name phase, hp_goal = sp_goal phase,
          hp_depends_on = map (\<lambda>position. nth_number (position - 1)) (sp_depends_on phase),
          hp_stories = map nth_number (sp_stories phase), hp_withdrawn = False\<rparr>)"

definition start_scope :: "submission \<Rightarrow> nat \<Rightarrow> nat \<Rightarrow> accepted_scope" where
  "start_scope sub S P =
     \<lparr>sc_phases = map (start_phase_of sub) [0..<P], sc_order = [], sc_stories = map (start_story_of sub) [0..<S],
      sc_highest_phase = of_nat P, sc_highest_story = of_nat S\<rparr>"

definition story_fact :: "submission \<Rightarrow> nat \<Rightarrow> scope_fact" where
  "story_fact sub i = FactStory (nth_number i) (ss_status (sb_stories sub ! i))
     (map_option nth_number (position_where (\<lambda>p. i \<in> set (sp_stories p)) (sb_phases sub)))"

definition phase_fact :: "submission \<Rightarrow> nat \<Rightarrow> scope_fact" where
  "phase_fact sub i =
     (let phase = sb_phases sub ! i
      in FactPhase (nth_number i) (sp_name phase) (sp_goal phase) (map (\<lambda>position. nth_number (position - 1)) (sp_depends_on phase))
           (map nth_number (sp_stories phase)))"

definition start_facts :: "submission \<Rightarrow> scope_fact list" where
  "start_facts sub =
     FactDescribed # map (story_fact sub) [0..<length (sb_stories sub)] @ map (phase_fact sub) [0..<length (sb_phases sub)]
     @ [FactOrder (map nth_number [0..<length (sb_phases sub)])]"

lemma max_next: "k + 1 < 2 ^ 32 \<Longrightarrow> max (of_nat k :: u32) (nth_number k) = nth_number k"
proof -
  assume k: "k + 1 < 2 ^ 32"
  then have "unat (of_nat k :: u32) = k" by (simp add: unat_of_nat)
  then show ?thesis by (simp only: max_def word_le_nat_alt nth_number_unat [OF k]) simp
qed

lemma stories_fold:
  "k < 2 ^ 32 \<Longrightarrow> fold_facts (map (story_fact sub) [0..<k]) empty_scope = Some (start_scope sub k 0)"
proof (induction k)
  case 0
  then show ?case by (simp add: start_scope_def empty_scope_def)
next
  case (Suc k)
  then have k: "k + 1 < 2 ^ 32" by simp
  have none_yet: "\<not> list_ex (\<lambda>h. hs_id h = nth_number k) (map (start_story_of sub) [0..<k])"
  proof
    assume "list_ex (\<lambda>h. hs_id h = nth_number k) (map (start_story_of sub) [0..<k])"
    then obtain i where "i < k" "nth_number i = nth_number k" by (auto simp: list_ex_iff start_story_of_def)
    with nth_number_eq [of i k] k show False by simp
  qed
  have max: "max (of_nat k :: u32) (nth_number k) = of_nat (k + 1)" using max_next [OF k] by (simp add: nth_number_def)
  from none_yet have put: "put_story (start_story_of sub k) (map (start_story_of sub) [0..<k]) = map (start_story_of sub) [0..<k] @ [start_story_of sub k]"
    by (simp add: put_story_def start_story_of_def)
  have none: "serve_by ph i (start_scope sub (k + 1) 0) = start_scope sub (k + 1) 0" for ph i
    by (cases ph) (simp_all add: serve_by_def change_held_phase_def start_scope_def)
  have "fact_step (story_fact sub k) (start_scope sub k 0) = Some (start_scope sub (k + 1) 0)"
    using put none max by (simp add: story_fact_def start_scope_def start_story_of_def)
  with Suc show ?case by (simp add: fold_facts_append)
qed

lemma position_where_Some: "position_where P xs = Some k \<Longrightarrow> k < length xs \<and> P (xs ! k)"
  by (induction xs arbitrary: k) (auto split: if_splits)

lemma position_where_unique:
  assumes "k < length xs" "P (xs ! k)" "\<And>j. j < length xs \<Longrightarrow> P (xs ! j) \<Longrightarrow> j = k"
  shows "position_where P xs = Some k"
proof (cases "position_where P xs")
  case None
  with assms(1,2) show ?thesis by (auto simp: position_where_None)
next
  case (Some j)
  with position_where_Some [OF Some] assms(3) show ?thesis by simp
qed

lemma put_phase_last: "\<forall>q \<in> set ps. hp_number q < hp_number p \<Longrightarrow> put_phase p ps = ps @ [p]"
proof -
  assume "\<forall>q \<in> set ps. hp_number q < hp_number p"
  then have "takeWhile (\<lambda>q. hp_number q < hp_number p) ps = ps" "dropWhile (\<lambda>q. hp_number q < hp_number p) ps = []" by auto
  then show ?thesis by (simp only: put_phase_def Let_def list.case)
qed

lemma start_serves:
  assumes "start_ok (sb_stories sub) (sb_phases sub)" "k < length (sb_phases sub)"
  shows "i \<in> set (sp_stories (sb_phases sub ! k)) \<longleftrightarrow> position_where (\<lambda>p. i \<in> set (sp_stories p)) (sb_phases sub) = Some k"
proof
  assume "i \<in> set (sp_stories (sb_phases sub ! k))"
  with assms show "position_where (\<lambda>p. i \<in> set (sp_stories p)) (sb_phases sub) = Some k"
    by (intro position_where_unique) (auto simp: start_ok_def)
qed (use position_where_Some [of "\<lambda>p. i \<in> set (sp_stories p)"] in blast)

lemma start_stories:
  assumes "start_ok (sb_stories sub) (sb_phases sub)" "k < length (sb_phases sub)" "i \<in> set (sp_stories (sb_phases sub ! k))"
  shows "i < length (sb_stories sub)" "ss_status (sb_stories sub ! i) = StoryActive"
  using assms by (auto simp: start_ok_def)

lemma start_recommit:
  assumes ok: "start_ok (sb_stories sub) (sb_phases sub)" and k: "k < length (sb_phases sub)"
    and small: "length (sb_stories sub) < 2 ^ 32" "length (sb_phases sub) < 2 ^ 32"
    and i: "i < length (sb_stories sub)"
  shows "recommit_in (nth_number k) (map nth_number (sp_stories (sb_phases sub ! k))) (start_story_of sub i) = start_story_of sub i"
proof -
  have "nth_number i \<in> set (map nth_number (sp_stories (sb_phases sub ! k))) \<longleftrightarrow> i \<in> set (sp_stories (sb_phases sub ! k))"
  proof
    assume "nth_number i \<in> set (map nth_number (sp_stories (sb_phases sub ! k)))"
    then obtain j where j: "j \<in> set (sp_stories (sb_phases sub ! k))" "nth_number i = nth_number j" by (auto)
    with start_stories(1) [OF ok k j(1)] i small nth_number_eq [of i j] show "i \<in> set (sp_stories (sb_phases sub ! k))" by simp
  qed auto
  moreover have "nth_number j = nth_number k \<longleftrightarrow> j = k" if "position_where P (sb_phases sub) = Some j" for P j
    using position_where_Some [OF that] k small nth_number_eq [of j k] by simp
  ultimately show ?thesis using start_serves [OF ok k, of i]
    by (auto simp: recommit_in_def start_story_of_def)
qed

lemma phases_fold:
  assumes ok: "start_ok (sb_stories sub) (sb_phases sub)"
    and small: "length (sb_stories sub) < 2 ^ 32" "length (sb_phases sub) < 2 ^ 32"
  shows "k \<le> length (sb_phases sub) \<Longrightarrow>
    fold_facts (map (phase_fact sub) [0..<k]) (start_scope sub (length (sb_stories sub)) 0) = Some (start_scope sub (length (sb_stories sub)) k)"
proof (induction k)
  case (Suc k)
  let ?S = "length (sb_stories sub)"
  have k: "k < length (sb_phases sub)" "k + 1 < 2 ^ 32" using Suc.prems small(2) by simp_all
  have "nth_number i < nth_number k" if "i < k" for i
    using nth_number_less [of i k] that k(2) by simp
  then have "\<forall>q \<in> set (map (start_phase_of sub) [0..<k]). hp_number q < hp_number (start_phase_of sub k)"
    by (auto simp: start_phase_of_def Let_def)
  note put = put_phase_last [OF this]
  have max: "max (of_nat k :: u32) (nth_number k) = of_nat (k + 1)" using max_next [OF k(2)] by (simp add: nth_number_def)
  have "map (recommit_in (nth_number k) (map nth_number (sp_stories (sb_phases sub ! k)))) (map (start_story_of sub) [0..<?S]) =
      map (start_story_of sub) [0..<?S]"
    using start_recommit [OF ok k(1) small] by simp
  then have "fact_step (phase_fact sub k) (start_scope sub ?S k) = Some (start_scope sub ?S (k + 1))"
    using put max by (simp add: phase_fact_def start_scope_def start_phase_of_def Let_def)
  with Suc show ?case by (simp add: fold_facts_append)
qed simp

lemma start_folds:
  assumes "start_ok (sb_stories sub) (sb_phases sub)" "length (sb_stories sub) < 2 ^ 32" "length (sb_phases sub) < 2 ^ 32"
  shows "fold_facts (start_facts sub) empty_scope =
    Some ((start_scope sub (length (sb_stories sub)) (length (sb_phases sub)))\<lparr>sc_order := map nth_number [0..<length (sb_phases sub)]\<rparr>)"
  using stories_fold [OF assms(2), of sub] phases_fold [OF assms] by (simp add: start_facts_def fold_facts_append)

lemma start_scope_ok:
  assumes ok: "start_ok (sb_stories sub) (sb_phases sub)"
    and small: "length (sb_stories sub) < 2 ^ 32" "length (sb_phases sub) < 2 ^ 32"
  shows "scope_ok ((start_scope sub (length (sb_stories sub)) (length (sb_phases sub)))\<lparr>sc_order := map nth_number [0..<length (sb_phases sub)]\<rparr>)"
    (is "scope_ok ?s")
proof -
  let ?S = "length (sb_stories sub)" and ?P = "length (sb_phases sub)"
  note le = nth_number_less nth_number_eq
  have up: "nth_number i \<le> of_nat n" if "i < n" "n < 2 ^ 32" for i n
    using that by (simp only: word_le_nat_alt nth_number_def unat_of_nat) simp
  have inj: "inj_on nth_number {..<n}" if "n < 2 ^ 32" for n
    by (rule inj_onI) (use that nth_number_eq in auto)
  have phase: "distinct (sp_depends_on p)" "set (sp_depends_on p) \<subseteq> {1..?P}" "distinct (sp_stories p)" "set (sp_stories p) \<subseteq> {..<?S}"
    if "p \<in> set (sb_phases sub)" for p using ok that by (auto simp: start_ok_def)
  have numbers: "map hp_number (sc_phases ?s) = map nth_number [0..<?P]"
    by (simp add: start_scope_def start_phase_of_def Let_def)
  have ids: "map hs_id (sc_stories ?s) = map nth_number [0..<?S]" by (simp add: start_scope_def start_story_of_def)
  have "sorted_wrt (<) (map nth_number [0..<?P])"
    using small(2) by (auto simp: sorted_wrt_iff_nth_less nth_number_less)
  moreover have "distinct (map nth_number (sp_stories p))" if "p \<in> set (sb_phases sub)" for p
    using phase(3,4) [OF that] inj_on_subset [OF inj [OF small(1)]] by (simp add: distinct_map)
  ultimately have "phases_ok ?s"
    unfolding phases_ok_def numbers using up small(2)
    by (auto simp: start_scope_def start_phase_of_def Let_def)
  moreover have "stories_ok ?s"
    unfolding stories_ok_def ids using inj [OF small(1)] up small(1)
    by (auto simp: start_scope_def start_story_of_def distinct_map atLeast0LessThan)
  moreover have "served_ok {} ?s"
    unfolding served_ok_def
  proof (intro conjI ballI allI impI)
    fix p i assume "p \<in> set (sc_phases ?s)" "i \<in> set (hp_stories p)"
    then obtain k j where k: "k < ?P" "p = start_phase_of sub k" "j \<in> set (sp_stories (sb_phases sub ! k))" "i = nth_number j"
      by (auto simp: start_scope_def start_phase_of_def Let_def)
    with start_serves [OF ok k(1), of j] start_stories [OF ok k(1,3)]
    show "\<exists>h \<in> set (sc_stories ?s). hs_id h = i \<and> hs_status h = HeldActive \<and> hs_phase h = Some (hp_number p)"
      by (intro bexI [of _ "start_story_of sub j"]) (auto simp: start_scope_def start_story_of_def start_phase_of_def Let_def)
  next
    fix h n assume h: "h \<in> set (sc_stories ?s)" "hs_phase h = Some n"
    then obtain j where j: "h = start_story_of sub j" by (auto simp: start_scope_def)
    with h(2) obtain k where k: "position_where (\<lambda>p. j \<in> set (sp_stories p)) (sb_phases sub) = Some k" "n = nth_number k"
      by (auto simp: start_story_of_def)
    from position_where_Some [OF k(1)] k(2) j
    show "\<exists>p \<in> set (sc_phases ?s). hp_number p = n \<and> hs_id h \<in> set (hp_stories p) \<and> (hp_withdrawn p \<longrightarrow> hs_id h \<in> {})"
      by (intro bexI [of _ "start_phase_of sub k"]) (auto simp: start_scope_def start_story_of_def start_phase_of_def Let_def)
  qed
  moreover have all: "declared_phases ?s = map (start_phase_of sub) [0..<?P]"
    by (auto simp: declared_phases_def start_scope_def start_phase_of_def Let_def)
  have dn: "declared_numbers ?s = nth_number ` {..<?P}"
    by (simp add: declared_numbers_def all image_image start_phase_of_def Let_def atLeast0LessThan)
  have "deps_ok ?s"
  proof -
    let ?g = "\<lambda>n :: u32. unat n - 1"
    have edge: "b \<in> nth_number ` {..<?P} \<and> (?g a, ?g b) \<in> edge_rel (phase_edges (sb_phases sub))" if "(a, b) \<in> depends_rel ?s" for a b
    proof -
      from that obtain k d where k: "k < ?P" "a = nth_number k" "d \<in> set (sp_depends_on (sb_phases sub ! k))" "b = nth_number (d - 1)"
        by (auto simp: depends_rel_def all start_phase_of_def Let_def)
      with phase(2) [of "sb_phases sub ! k"] have d: "1 \<le> d" "d \<le> ?P" by auto
      have "?g a = k" "?g b = d - 1" using k d small(2) nth_number_unat [of k] nth_number_unat [of "d - 1"] by (simp_all)
      with k d show ?thesis by (auto simp: phase_edges_def)
    qed
    have path: "(?g a, ?g b) \<in> (edge_rel (phase_edges (sb_phases sub)))\<^sup>+" if "(a, b) \<in> (depends_rel ?s)\<^sup>+" for a b
      using that
    proof induction
      case (base y)
      with edge show ?case by blast
    next
      case (step y z)
      with edge [OF step.hyps(2)] show ?case by (meson trancl_into_trancl)
    qed
    have "acyclic (depends_rel ?s)"
      unfolding acyclic_def using ok path unfolding start_ok_def acyclic_def by blast
    moreover have "snd ` depends_rel ?s \<subseteq> declared_numbers ?s" using edge unfolding dn by force
    ultimately show ?thesis by (simp add: deps_ok_def)
  qed
  moreover have "order_ok ?s"
    unfolding order_ok_def dn using inj [OF small(2)] by (simp add: distinct_map atLeast0LessThan)
  ultimately show ?thesis by (simp add: scope_ok_def scope_inv_def)
qed

section \<open>The events of a start\<close>

lemma list_all2_snoc1: "list_all2 R (xs @ [x]) ys \<Longrightarrow> \<exists>us y. ys = us @ [y] \<and> list_all2 R xs us \<and> R x y"
  by (auto simp: list_all2_append1 list_all2_Cons1)

lemma told_start:
  assumes ok: "start_ok (sb_stories sub) (sb_phases sub)"
    and events: "start_events sub 0 0 details owner at' = Some (Inr news)" and es: "list_all2 recorded_as news es"
  shows "told es (start_facts sub)" "length (sb_stories sub) < 2 ^ 32" "length (sb_phases sub) < 2 ^ 32"
proof -
  let ?S = "length (sb_stories sub)" and ?P = "length (sb_phases sub)"
  from events obtain ids numbers where n: "next_numbers 0 ?S = Inr ids" "next_numbers 0 ?P = Inr numbers"
    and news: "news = described_event (sb_description sub) (sb_digest sub)
      # map (start_story_event sub ids numbers) [0..<?S] @ map (start_phase_event sub ids numbers details) [0..<?P]
      @ [reordered_event numbers (sb_digest sub), approved_event (sb_digest sub) start_kind owner at']"
    by (auto simp: start_events_def result_simps split: if_splits)
  note ids = next_numbers_zero [OF n(1)] and numbers = next_numbers_zero [OF n(2)]
  show "?S < 2 ^ 32" "?P < 2 ^ 32" using ids numbers by simp_all
  have story: "event_states (start_story_event sub ids numbers i) (story_fact sub i)" if "i < ?S" for i
  proof -
    have "map_option (nth numbers) (position_where P (sb_phases sub)) = map_option nth_number (position_where P (sb_phases sub))" for P
      using position_where_Some [of P "sb_phases sub"] numbers by (cases "position_where P (sb_phases sub)") auto
    then show ?thesis using that ids by (simp add: start_story_event_def story_fact_def Let_def)
  qed
  have phase: "event_states (start_phase_event sub ids numbers details i) (phase_fact sub i)" if i: "i < ?P" for i
  proof -
    have p: "set (sp_depends_on (sb_phases sub ! i)) \<subseteq> {1..?P}" using ok i by (auto simp: start_ok_def)
    have d: "numbers ! (d - 1) = nth_number (d - 1)" if "d \<in> set (sp_depends_on (sb_phases sub ! i))" for d
    proof -
      from that p have "1 \<le> d" "d \<le> ?P" by auto
      then have "d - 1 < ?P" by simp
      then show ?thesis using numbers by simp
    qed
    have s: "ids ! j = nth_number j" if "j \<in> set (sp_stories (sb_phases sub ! i))" for j
      using ids start_stories(1) [OF ok i that] by simp
    have "map (\<lambda>d. numbers ! (d - 1)) (sp_depends_on (sb_phases sub ! i)) = map (\<lambda>d. nth_number (d - 1)) (sp_depends_on (sb_phases sub ! i))"
      "map (nth ids) (sp_stories (sb_phases sub ! i)) = map nth_number (sp_stories (sb_phases sub ! i))"
      by (rule map_cong [OF refl d], assumption, rule map_cong [OF refl s])
    moreover have "numbers ! i = nth_number i" using numbers i by simp
    ultimately show ?thesis unfolding start_phase_event_def phase_fact_def Let_def by (simp only: event_states_intros)
  qed
  let ?n1 = "described_event (sb_description sub) (sb_digest sub) # map (start_story_event sub ids numbers) [0..<?S]
    @ map (start_phase_event sub ids numbers details) [0..<?P] @ [reordered_event numbers (sb_digest sub)]"
  have "news = ?n1 @ [approved_event (sb_digest sub) start_kind owner at']" using news by simp
  then obtain es1 e where e: "es = es1 @ [e]" "list_all2 recorded_as ?n1 es1" "recorded_as (approved_event (sb_digest sub) start_kind owner at') e"
    using list_all2_snoc1 [of recorded_as ?n1] es by (simp only:) blast
  have "list_all2 event_states ?n1 (start_facts sub)"
    unfolding start_facts_def using story phase numbers
    by (auto simp: list_all2_map1 list_all2_map2 list_all2_same intro!: list_all2_appendI)
  from told_all [OF e(2) this] have "told es1 (start_facts sub)" .
  moreover have "type_name e \<notin> set (p_handles roadmap_projector)"
    using e(3) by (simp add: recorded_as_def approved_event_def scope_event_def scope_approved_def roadmap_projector_def roadmap_names)
  then have "told [e] []" by (intro told_other told_nil)
  ultimately show "told es (start_facts sub)" using told_append e(1) by fastforce
qed

section \<open>The tables the commands reach\<close>

definition roadmap_json :: "view_table \<Rightarrow> json option" where
  "roadmap_json table = map_option doc_body (table roadmap_key)"

definition recorded_run :: "new_event list \<Rightarrow> event list \<Rightarrow> bool" where
  "recorded_run news es \<longleftrightarrow> list_all2 recorded_as news es \<and> (\<forall>e \<in> set es. unat (seq e) < 2 ^ 63)"

text \<open>The roadmap table with whether the start is approved: a start of an unstarted project, a change
  the rules accept, and a run of events that only refines stories, or none the roadmap handles.\<close>

inductive roadmap_reach :: "(string \<Rightarrow> string) \<Rightarrow> bool \<Rightarrow> view_table \<Rightarrow> bool" for sha where
  reach_empty: "roadmap_reach sha False Map.empty"
| reach_start: "roadmap_reach sha False table \<Longrightarrow> judge_submission sha v = Some (Inr sub) \<Longrightarrow> read_scope (roadmap_json table) = Some s \<Longrightarrow>
    start_events sub (sc_highest_phase s) (sc_highest_story s) details owner at' = Some (Inr news) \<Longrightarrow> recorded_run news es \<Longrightarrow>
    project_events roadmap_projector table es = Inr table' \<Longrightarrow> roadmap_reach sha True table'"
| reach_change: "roadmap_reach sha started table \<Longrightarrow> judge_change sha kind v = Some (Inr c) \<Longrightarrow> read_scope (roadmap_json table) = Some s \<Longrightarrow>
    judge_scope_change (cs_change c) s started progress = Some (Inr ()) \<Longrightarrow>
    change_events c s detail owner at' = Some (Inr news) \<Longrightarrow> recorded_run news es \<Longrightarrow>
    project_events roadmap_projector table es = Inr table' \<Longrightarrow> roadmap_reach sha started table'"
| reach_refined: "roadmap_reach sha started table \<Longrightarrow> told es (map FactRefined is) \<Longrightarrow> \<forall>e \<in> set es. unat (seq e) < 2 ^ 63 \<Longrightarrow>
    project_events roadmap_projector table es = Inr table' \<Longrightarrow> roadmap_reach sha started table'"

lemma refined_fold: "fold_facts (map FactRefined is) s = Some s' \<Longrightarrow> s' = s"
  by (induction "is") (auto split: if_splits)

lemma scope_held_same: "scope_held b s \<Longrightarrow> read_scope b = Some s' \<Longrightarrow> s' = s"
  using scope_held_reads [of b s] by simp

lemma projected:
  assumes "told es fs" "scope_held (roadmap_json table) s" "\<forall>e \<in> set es. unat (seq e) < 2 ^ 63" "project_events roadmap_projector table es = Inr table'"
  obtains s' where "fold_facts fs s = Some s'" "scope_held (roadmap_json table') s'"
  using roadmap_projects [where table = table, OF assms(1) assms(2) [unfolded roadmap_json_def] assms(3)] assms(4) that
  by (auto simp: roadmap_json_def split: option.splits)

lemma change_started: "judge_scope_change c s started progress = Some (Inr u) \<Longrightarrow> started \<and> judge_kind c s progress = Some (Inr u)"
  by (simp add: judge_scope_change_def split: if_splits)

lemma change_run:
  assumes "change_events c s detail owner at' = Some (Inr news)" "recorded_run news es"
  shows "told es (kind_facts (cs_change c) s)" "\<forall>e \<in> set es. unat (seq e) < 2 ^ 63"
    "\<exists>ns. kind_events (cs_change c) s detail (cs_digest c) = Some (Inr ns)"
  using assms told_change by (auto simp: recorded_run_def change_events_def bind_eq_Some_conv result_simps)

lemma reached_scope:
  "roadmap_reach sha started table \<Longrightarrow> \<exists>s. scope_held (roadmap_json table) s \<and> scope_ok s \<and> (\<not> started \<longrightarrow> s = empty_scope)"
proof (induction rule: roadmap_reach.induct)
  case reach_empty
  show ?case using empty_scope_ok by (simp add: roadmap_json_def)
next
  case (reach_start table v sub s details owner at' news es table')
  from reach_start.IH have held: "scope_held (roadmap_json table) empty_scope" by simp
  with reach_start.hyps have s: "s = empty_scope" using scope_held_same by blast
  note ok = accepted_start_ok [OF reach_start.hyps(2), THEN conjunct1]
  from reach_start.hyps(4,5) s have "start_events sub 0 0 details owner at' = Some (Inr news)" "list_all2 recorded_as news es"
    "\<forall>e \<in> set es. unat (seq e) < 2 ^ 63" by (simp_all add: empty_scope_def recorded_run_def)
  note T = told_start [OF ok this(1,2)] and bound = this(3)
  from projected [OF T(1) held bound reach_start.hyps(6)] start_folds [OF ok T(2,3)] start_scope_ok [OF ok T(2,3)] show ?case
    by (metis option.inject)
next
  case (reach_change started table kind v c s progress detail owner at' news es table')
  from reach_change.IH obtain s0 where s0: "scope_held (roadmap_json table) s0" "scope_ok s0" by blast
  with reach_change.hyps(3) have s: "s0 = s" using scope_held_same by blast
  note J = change_started [OF reach_change.hyps(4)]
  note R = change_run [OF reach_change.hyps(5,6)]
  from R(3) J accepted_change_ok [OF s0(2) judge_change_shape(1) [OF reach_change.hyps(2)]] have "keeps_ok (complete_in progress) (cs_change c) s0"
    unfolding s by blast
  then obtain s' where "fold_facts (kind_facts (cs_change c) s) s0 = Some s'" "scope_ok s'" by (auto simp: keeps_ok_def s)
  moreover obtain s'' where "fold_facts (kind_facts (cs_change c) s) s0 = Some s''" "scope_held (roadmap_json table') s''"
    by (rule projected [OF R(1) s0(1) R(2) reach_change.hyps(7)])
  ultimately show ?case using J by auto
next
  case (reach_refined started table es "is" table')
  from reach_refined.IH obtain s where s: "scope_held (roadmap_json table) s" "scope_ok s" "\<not> started \<longrightarrow> s = empty_scope" by blast
  obtain s' where "fold_facts (map FactRefined is) s = Some s'" "scope_held (roadmap_json table') s'"
    by (rule projected [OF reach_refined.hyps(2) s(1) reach_refined.hyps(3,4)])
  with refined_fold s show ?case by blast
qed

text \<open>An accepted change of a reachable table always projects, and the scope it leaves is sound.\<close>

lemma reached_change:
  assumes "roadmap_reach sha started table" "judge_change sha kind v = Some (Inr c)" "read_scope (roadmap_json table) = Some s"
    "judge_scope_change (cs_change c) s started progress = Some (Inr ())" "change_events c s detail owner at' = Some (Inr news)" "recorded_run news es"
  shows "\<exists>table' s'. project_events roadmap_projector table es = Inr table' \<and> fold_facts (kind_facts (cs_change c) s) s = Some s'
    \<and> read_scope (roadmap_json table') = Some s' \<and> scope_ok s' \<and> keeps_phases (complete_in progress) s s'"
proof -
  obtain s0 where s0: "scope_held (roadmap_json table) s0" "scope_ok s0" using reached_scope [OF assms(1)] by blast
  with assms(3) have s: "s0 = s" using scope_held_same by blast
  note R = change_run [OF assms(5,6)]
  from R(3) change_started [OF assms(4)] accepted_change_ok [OF s0(2) judge_change_shape(1) [OF assms(2)]]
  have "keeps_ok (complete_in progress) (cs_change c) s" unfolding s by blast
  then obtain s' where "fold_facts (kind_facts (cs_change c) s) s = Some s'" "scope_ok s'" "keeps_phases (complete_in progress) s s'"
    by (auto simp: keeps_ok_def)
  with roadmap_projects [where table = table, OF R(1) s0(1) [unfolded roadmap_json_def s] R(2)] scope_held_reads show ?thesis
    by (auto simp: roadmap_json_def)
qed

end
