(* ===== verification/Scope_Judgement.thy ===== *)
theory Scope_Judgement
  imports Scope_Reach
begin

text \<open>
  More of what the judgement of \<open>baley-core/src/scope/rules.rs\<close> ensures on a sound scope: it always
  answers, an accepted change is recorded without a panic, an accepted reorder is a topological
  order, and numbers and ids only grow.
\<close>

section \<open>No panic\<close>

lemma judge_declaration_total: "change_shape (PhaseDeclare d) \<Longrightarrow> \<exists>r. judge_declaration d s = Some r"
  by (cases "judge_members s (pd_depends_on d) (pd_stories d) None"; cases "pd_position d")
    (auto simp: judge_declaration_def Let_def unat_eq_zero)

lemma judge_kind_total:
  assumes ok: "scope_ok s" and shape: "change_shape c"
  shows "\<exists>r. judge_kind c s progress = Some r"
proof (cases c)
  case (PhaseDeclare d)
  with judge_declaration_total shape show ?thesis by simp
next
  case (PhaseEdit n fs)
  note I = scope_okD [OF ok]
  obtain f where f: "\<And>ds. on_cycle_with s n ds = Some (f ds)" using on_cycle_with_cycles [OF I(1,4), of n] by metis
  have "\<exists>r. judge_phase_edit c n fs s progress = Some r" for c
    by (simp add: judge_phase_edit_def f split: option.split sum.split)
  with PhaseEdit show ?thesis by simp
qed auto

lemma served_held: "served s i = Inr u \<Longrightarrow> held_status_of s i \<noteq> None"
  by (cases "story_of s i"; cases "hs_status (the (story_of s i))") (auto simp: served_def held_status_of_def split: if_splits)

lemma kind_events_total:
  assumes ok: "scope_ok s" and shape: "change_shape c" and j: "judge_kind c s progress = Some (Inr u)" and detail: "detail \<noteq> None"
  shows "\<exists>r. kind_events c s detail digest = Some r"
proof (cases c)
  case (PhaseEdit n fs)
  from judge_phase_edit_Inr(1) [OF j [unfolded PhaseEdit judge_kind.simps]] obtain p where "phase_of s n = Some p"
    by (auto simp: is_declared_def declared_def split: option.splits)
  with PhaseEdit detail show ?thesis by auto
next
  case (PhaseDeclare d)
  with shape have "placed_at d s \<noteq> None" by (auto simp: placed_at_def split: option.splits)
  with PhaseDeclare detail show ?thesis by (auto simp: next_number_Suc Let_def)
next
  case (StoryDeclare sentence status phase)
  then show ?thesis by (auto simp: next_number_Suc)
next
  case (StoryEdit i sentence)
  with served_held [of s i] j show ?thesis by auto
next
  case (StoryReassign i to)
  with served_held [of s i] j show ?thesis by (auto simp: result_simps split: option.splits)
qed (simp_all add: Let_def)

section \<open>The order of a reorder\<close>

lemma order_respected_Inr:
  "order_respected s order ns = Inr u \<Longrightarrow> n \<in> set ns \<Longrightarrow> declared s n = Some p \<Longrightarrow> placed_after order n (hp_depends_on p) = Inr ()"
  by (induction s order ns rule: order_respected.induct) (auto simp: result_simps split: option.splits)

lemma place_in_nth: "place_in order n = Some k \<Longrightarrow> k < length order \<and> order ! k = n"
  unfolding place_in_def by (drule position_where_Some) simp

lemma place_in_mem: "n \<in> set order \<Longrightarrow> \<exists>k. place_in order n = Some k"
  by (cases "place_in order n") (auto simp: place_in_def position_where_None)

lemma reorder_respects:
  assumes ok: "scope_ok s" and j: "judge_reorder order s = Inr u" and d: "(n, d) \<in> depends_rel s"
  shows "\<exists>i k. i < k \<and> k < length order \<and> order ! i = d \<and> order ! k = n"
proof -
  note I = scope_okD [OF ok]
  from keeps_ok_reorder [OF ok j, of UNIV] have set: "set order = declared_numbers s"
    by (auto simp: keeps_ok_def scope_ok_def order_ok_def scope_inv_order)
  from d obtain p where p: "p \<in> set (declared_phases s)" "hp_number p = n" "d \<in> set (hp_depends_on p)" by (auto simp: depends_rel_def)
  have "n \<in> set order" using p set by (auto simp: declared_numbers_def)
  moreover have "d \<in> set order" using I(4) d set by (force simp: deps_ok_def)
  ultimately obtain i k where ik: "place_in order d = Some i" "place_in order n = Some k" using place_in_mem by blast
  from j have "order_respected s order order = Inr ()" by (auto simp: judge_reorder_def result_simps Let_def split: if_splits)
  from order_respected_Inr [OF this \<open>n \<in> set order\<close>, of p] declared_Some [OF I(1), of n p] p
  have "placed_after order n (hp_depends_on p) = Inr ()" by simp
  with ik p(3) have "i \<le> k" by (auto simp: placed_after_def refuse_first_Inr after_place_def)
  moreover have "d \<noteq> n" using I(4) d by (auto simp: deps_ok_def acyclic_def)
  then have "i \<noteq> k" using ik place_in_nth by metis
  ultimately show ?thesis using ik [THEN place_in_nth] by (intro exI [of _ i] exI [of _ k]) simp
qed

section \<open>Numbers are never reused\<close>

definition scope_numbers :: "accepted_scope \<Rightarrow> u32 set" where
  "scope_numbers s = set (map hp_number (sc_phases s))"

definition scope_ids :: "accepted_scope \<Rightarrow> u32 set" where
  "scope_ids s = set (map hs_id (sc_stories s))"

fun fact_numbers :: "scope_fact \<Rightarrow> u32 set" where
  "fact_numbers (FactPhase n _ _ _ _) = {n}"
| "fact_numbers _ = {}"

fun fact_ids :: "scope_fact \<Rightarrow> u32 set" where
  "fact_ids (FactStory i _ _) = {i}"
| "fact_ids _ = {}"

lemma put_phase_numbers: "set (map hp_number (put_phase p ps)) = insert (hp_number p) (set (map hp_number ps))"
proof -
  let ?P = "\<lambda>x. hp_number x < hp_number p"
  have s: "set (map hp_number ps) = set (map hp_number (takeWhile ?P ps)) \<union> set (map hp_number (dropWhile ?P ps))"
    by (metis map_append set_append takeWhile_dropWhile_id)
  show ?thesis unfolding s by (cases "dropWhile ?P ps") (auto simp: put_phase_def Let_def simp del: dropWhile_eq_Nil_conv)
qed

lemma update_first_key: "(\<And>x. k (f x) = k x) \<Longrightarrow> map k (update_first P f xs) = map k xs"
  by (induction xs) auto

lemma serve_by_numbers: "map hp_number (sc_phases (serve_by ph i s)) = map hp_number (sc_phases s)" "sc_stories (serve_by ph i s) = sc_stories s"
  by (cases ph; simp add: serve_by_def change_held_phase_def update_first_key serve_in_def)+

lemma change_numbers:
  "(\<And>p. hp_number (f p) = hp_number p) \<Longrightarrow> map hp_number (sc_phases (change_held_phase n f s)) = map hp_number (sc_phases s)"
  "(\<And>h. hs_id (g h) = hs_id h) \<Longrightarrow> map hs_id (sc_stories (change_held_story i g s)) = map hs_id (sc_stories s)"
  "sc_phases (change_held_story i g s) = sc_phases s" "sc_stories (change_held_phase n f s) = sc_stories s"
  "map hp_number (sc_phases (unserve_all i s)) = map hp_number (sc_phases s)" "sc_stories (unserve_all i s) = sc_stories s"
  by (simp_all add: change_held_phase_def change_held_story_def update_first_key unserve_all_def unserve_in_def comp_def)

lemma put_story_ids: "set (map hs_id (put_story h hs)) = insert (hs_id h) (set (map hs_id hs))"
proof (cases "list_ex (\<lambda>x. hs_id x = hs_id h) hs")
  case True
  have "map hs_id (update_first (\<lambda>x. hs_id x = hs_id h) (\<lambda>_. h) hs) = map hs_id hs"
    by (induction hs) auto
  moreover have "hs_id h \<in> set (map hs_id hs)" using True unfolding list_ex_iff set_map by (metis imageI)
  ultimately show ?thesis using True by (simp add: put_story_def insert_absorb del: set_map)
qed (simp add: put_story_def)

lemma recommit_ids: "map hs_id (map (recommit_in n l) hs) = map hs_id hs"
  by (simp add: recommit_in_def)

lemma fact_step_numbers:
  assumes "fact_step f s = Some s'"
  shows "scope_numbers s' = scope_numbers s \<union> fact_numbers f" "scope_ids s' = scope_ids s \<union> fact_ids f"
proof -
  note [simp del] = set_map map_map
  show "scope_numbers s' = scope_numbers s \<union> fact_numbers f"
    using assms unfolding scope_numbers_def
    by (cases f) (auto simp: put_phase_numbers serve_by_numbers change_numbers split: if_splits)
  show "scope_ids s' = scope_ids s \<union> fact_ids f"
  proof (cases f)
    case (FactPriority order)
    with assms obtain hs where hs: "prioritized order (sc_stories s) = Some hs" "s' = s\<lparr>sc_stories := hs\<rparr>" by auto
    then have "set hs = set (sc_stories s)" using prioritized_perm [OF hs(1)] by (auto dest: mset_eq_setD)
    with FactPriority hs(2) show ?thesis by (simp add: scope_ids_def set_map)
  qed (use assms in \<open>auto simp: scope_ids_def put_story_ids serve_by_numbers change_numbers recommit_ids split: if_splits\<close>)
qed

lemma fold_facts_numbers:
  "fold_facts fs s = Some s' \<Longrightarrow> scope_numbers s' = scope_numbers s \<union> \<Union> (fact_numbers ` set fs) \<and> scope_ids s' = scope_ids s \<union> \<Union> (fact_ids ` set fs)"
  by (induction fs arbitrary: s) (auto simp: bind_eq_Some_conv fact_step_numbers)

lemma kind_facts_numbers:
  assumes "n \<in> \<Union> (fact_numbers ` set (kind_facts c s))"
  shows "n \<in> scope_numbers s \<or> (\<exists>d. c = PhaseDeclare d \<and> n = sc_highest_phase s + 1)"
proof (cases c)
  case (PhaseEdit m fs)
  have "m \<in> scope_numbers s" if "phase_of s m = Some p" for p
    using find_SomeD [OF that [unfolded phase_of_def]] by (auto simp: scope_numbers_def)
  with PhaseEdit assms show ?thesis by (cases "phase_of s m") auto
next
  case (PhaseWithdraw m ds)
  have "fact_numbers f = {}" if "moved_fact ds i = Some f" for i f
    using that by (auto split: option.splits destination.splits)
  with assms PhaseWithdraw show ?thesis by (auto simp: List.map_filter_def)
qed (use assms in \<open>auto split: option.splits\<close>)

lemma kind_facts_ids:
  assumes "i \<in> \<Union> (fact_ids ` set (kind_facts c s))"
  shows "\<exists>sentence status phase. c = StoryDeclare sentence status phase \<and> i = sc_highest_story s + 1"
proof (cases c)
  case (PhaseWithdraw m ds)
  have "fact_ids f = {}" if "moved_fact ds i = Some f" for i f
    using that by (auto split: option.splits destination.splits)
  with assms PhaseWithdraw show ?thesis by (auto simp: List.map_filter_def)
qed (use assms in \<open>auto split: option.splits\<close>)

lemma other_change_numbers:
  assumes "fold_facts (kind_facts c s) s = Some s'" "\<And>d. c \<noteq> PhaseDeclare d"
  shows "scope_numbers s' = scope_numbers s"
proof -
  have "n \<in> scope_numbers s" if "n \<in> \<Union> (fact_numbers ` set (kind_facts c s))" for n
    using kind_facts_numbers [OF that] assms(2) by metis
  then show ?thesis using fold_facts_numbers [OF assms(1)] by (metis sup.absorb1 subsetI)
qed

lemma other_change_ids:
  assumes "fold_facts (kind_facts c s) s = Some s'" "\<And>sentence status phase. c \<noteq> StoryDeclare sentence status phase"
  shows "scope_ids s' = scope_ids s"
proof -
  have "\<Union> (fact_ids ` set (kind_facts c s)) = {}" using kind_facts_ids [of _ c s] assms(2) by (metis equals0I)
  then show ?thesis using fold_facts_numbers [OF assms(1)] by simp
qed

lemma declaration_appends:
  assumes ok: "scope_ok s" and more: "sc_highest_phase s \<noteq> - 1" and fold: "fold_facts (kind_facts (PhaseDeclare d) s) s = Some s'"
  shows "\<exists>n. (\<forall>m \<in> scope_numbers s. m < n) \<and> sc_phases s' = sc_phases s @ [\<lparr>hp_number = n, hp_name = pd_name d,
    hp_goal = pd_goal d, hp_depends_on = pd_depends_on d, hp_stories = pd_stories d, hp_withdrawn = False\<rparr>]"
proof -
  have above: "\<forall>p \<in> set (sc_phases s). hp_number p < sc_highest_phase s + 1"
    using scope_okD(1) [OF ok] word_succ_less [OF more] by (auto simp: phases_ok_def dest: le_less_trans)
  with fold show ?thesis
    by (intro exI [of _ "sc_highest_phase s + 1"]) (auto simp: scope_numbers_def put_phase_last)
qed

lemma story_appends:
  assumes ok: "scope_ok s" and more: "sc_highest_story s \<noteq> - 1"
    and fold: "fold_facts (kind_facts (StoryDeclare sentence status phase) s) s = Some s'"
  shows "\<exists>i. (\<forall>j \<in> scope_ids s. j < i)
    \<and> sc_stories s' = sc_stories s @ [\<lparr>hs_id = i, hs_status = held_of status, hs_phase = phase\<rparr>]"
proof -
  have above: "\<forall>h \<in> set (sc_stories s). hs_id h < sc_highest_story s + 1"
    using scope_okD(2) [OF ok] word_succ_less [OF more] by (auto simp: stories_ok_def dest: le_less_trans)
  then have "\<not> list_ex (\<lambda>x. hs_id x = sc_highest_story s + 1) (sc_stories s)" by (auto simp: list_ex_iff)
  with above fold show ?thesis
    by (intro exI [of _ "sc_highest_story s + 1"]) (auto simp: scope_ids_def put_story_def serve_by_numbers)
qed

end
