(* ===== verification/Scope_Example.thy ===== *)
theory Scope_Example
  imports Scope_Judgement
begin

text \<open>
  A concrete start and change, judged, recorded and projected, on which the properties are applied.
\<close>

section \<open>A start\<close>

definition start_value :: json where
  "start_value = JObject
     [(''description'', JObject [(''constraints'', JArray []), (''core_value'', JString ''c''), (''what'', JString ''w'')]),
      (''roadmap'', JArray [JObject [(''depends_on'', JArray []), (''detail'', JString ''d''), (''goal'', JString ''g''),
         (''name'', JString ''n''), (''stories'', JArray [JString ''a''])],
         JObject [(''depends_on'', JArray [jnum32 1]), (''detail'', JString ''d''), (''goal'', JString ''g''),
         (''name'', JString ''m''), (''stories'', JArray [])]]),
      (''stories'', JArray [JObject [(''label'', JString ''a''), (''sentence'', JString ''s''), (''status'', JString ''active'')]])]"

definition start_sub :: "string \<Rightarrow> submission" where
  "start_sub body = \<lparr>sb_description = \<lparr>ds_what = ''w'', ds_core_value = ''c'', ds_constraints = []\<rparr>,
     sb_stories = [\<lparr>ss_label = ''a'', ss_sentence = ''s'', ss_status = StoryActive\<rparr>],
     sb_phases = [\<lparr>sp_name = ''n'', sp_goal = ''g'', sp_detail = ''d'', sp_depends_on = [], sp_stories = [0]\<rparr>,
       \<lparr>sp_name = ''m'', sp_goal = ''g'', sp_detail = ''d'', sp_depends_on = [1], sp_stories = []\<rparr>],
     sb_value = start_value, sb_digest = zero_hash, sb_body = body\<rparr>"

lemma start_description: "judge_description (jget ''description'' start_value) = Inr (sb_description (start_sub b))"
  by (simp add: start_value_def start_sub_def judge_description_def description_members_def described_text_def described_path_def
      description_member_names_def judged_list_def judged_object_def unknown_member_def judged_text_def blank_def white_space_def Let_def)

lemma start_stories_judged: "judge_stories (jget ''stories'' start_value) = Inr (sb_stories (start_sub b))"
  by (simp add: start_value_def start_sub_def judge_stories_def judge_story_def judged_status_def ok_or_def story_status_parse_def
      story_members_def judged_list_def judged_object_def unknown_member_def judged_text_def blank_def white_space_def Let_def)

lemma start_roadmap_judged: "judge_roadmap (jget ''roadmap'' start_value) (sb_stories (start_sub b)) = Inr (sb_phases (start_sub b))"
  by (simp add: start_value_def start_sub_def judge_roadmap_def judged_list_def judge_phase_def judged_object_def unknown_member_def
      phase_members_def judged_text_def blank_def white_space_def by_label_def Let_def)

lemma start_single: "double_assigned (sb_stories (start_sub b)) (sb_phases (start_sub b)) = Inr ()"
  unfolding start_sub_def by code_simp

lemma start_no_cycle: "phases_on_cycles (sb_phases (start_sub b)) = Some []"
proof -
  let ?P = "sb_phases (start_sub b)"
  have "edge_rel (phase_edges ?P) = {(1, 0)}" by (auto simp: start_sub_def phase_edges_def less_Suc_eq)
  moreover have "{(1 :: nat, 0 :: nat)}\<^sup>+ = {(1, 0)}" by (rule trancl_id) (simp add: trans_def)
  ultimately have none: "(edge_rel (phase_edges ?P))\<^sup>+ = {(1, 0)}" by simp
  have "edges_wf (phase_edges ?P)" by (rule phase_edges_wf) (simp add: start_sub_def)
  then obtain ps where "phases_on_cycles ?P = Some ps" "set ps = {u + 1 | u. (u, u) \<in> (edge_rel (phase_edges ?P))\<^sup>+}"
    using phases_on_cycles_exact by blast
  then show ?thesis unfolding none by simp
qed

lemma start_judged: "\<exists>b. judge_submission zero_sha start_value = Some (Inr (start_sub b))"
proof -
  have "numbers_safe start_value" by (simp add: start_value_def)
  then obtain b where b: "canonical_json start_value = Inr b" using canonical_json_ok by blast
  have known: "unknown_member (case start_value of JObject m \<Rightarrow> m) root_members = None"
    by (simp add: start_value_def unknown_member_def root_members_def)
  obtain m where m: "start_value = JObject m" by (simp add: start_value_def)
  have "judge_submission zero_sha start_value = Some (Inr (start_sub b))"
    using start_description [of b] start_stories_judged [of b] start_roadmap_judged [of b] start_single [of b] start_no_cycle [of b] known b
    by (simp add: judge_submission_def m request_digest_def)
      (simp add: start_sub_def zero_hash_def zero_sha_def m)
  then show ?thesis by blast
qed

text \<open>Events that record a run, at the sequences the store gives them.\<close>

definition run_events :: "new_event list \<Rightarrow> event list" where
  "run_events news = map (\<lambda>n. example_event 1 (ne_type_name n) (ne_payload n)) news"

lemma run_recorded: "recorded_run news (run_events news)"
  by (auto simp: recorded_run_def run_events_def recorded_as_def list_all2_map2 list_all2_same example_event_def place_def example_draft_def)

definition detail_ref :: payload_ref where
  "detail_ref = \<lparr>pr_hash = zero_hash, pr_bytes = 1, pr_class = Record\<rparr>"

definition started_scope :: accepted_scope where
  "started_scope = \<lparr>sc_phases = [\<lparr>hp_number = 1, hp_name = ''n'', hp_goal = ''g'', hp_depends_on = [], hp_stories = [1], hp_withdrawn = False\<rparr>,
       \<lparr>hp_number = 2, hp_name = ''m'', hp_goal = ''g'', hp_depends_on = [1], hp_stories = [], hp_withdrawn = False\<rparr>],
     sc_order = [1, 2], sc_stories = [\<lparr>hs_id = 1, hs_status = HeldActive, hs_phase = Some 1\<rparr>], sc_highest_phase = 2, sc_highest_story = 1\<rparr>"

lemma next_numbers_two: "next_numbers 0 2 = Inr [1, 2]" "next_numbers 0 (Suc (Suc 0)) = Inr [1, 2]"
proof -
  have "[1..<2 + 1] = [1, 2 :: nat]" by (simp add: upt_rec)
  then show "next_numbers 0 2 = Inr [1, 2]" by (simp add: next_numbers_def)
  then show "next_numbers 0 (Suc (Suc 0)) = Inr [1, 2]" by (simp add: numeral_2_eq_2)
qed

lemma start_reached: "\<exists>table. roadmap_reach zero_sha True table \<and> scope_held (roadmap_json table) started_scope
    \<and> read_scope (roadmap_json table) = Some started_scope"
proof -
  obtain b where b: "judge_submission zero_sha start_value = Some (Inr (start_sub b))" using start_judged by blast
  let ?sub = "start_sub b"
  note ok = accepted_start_ok [OF b, THEN conjunct1]
  obtain news where news: "start_events ?sub 0 0 [detail_ref, detail_ref] ''o'' ''t'' = Some (Inr news)"
    by (simp add: start_events_def start_sub_def next_number_Suc next_numbers_two)
  have es: "list_all2 recorded_as news (run_events news)" "\<forall>e \<in> set (run_events news). unat (seq e) < 2 ^ 63"
    using run_recorded by (auto simp: recorded_run_def)
  have len: "length (sb_stories ?sub) = 1" "length (sb_phases ?sub) = 2" by (simp_all add: start_sub_def)
  note T = told_start [OF ok news es(1)]
  have held: "scope_held (map_option doc_body (Map.empty roadmap_key)) empty_scope" by simp
  from roadmap_projects [where table = Map.empty, OF T(1) held es(2)] start_folds [OF ok T(2,3), unfolded len]
  obtain table where t: "project_events roadmap_projector Map.empty (run_events news) = Inr table"
    "scope_held (roadmap_json table) ((start_scope ?sub 1 2)\<lparr>sc_order := map nth_number [0..<2]\<rparr>)"
    by (auto simp: roadmap_json_def simp del: upt_rec upt_Suc)
  have "roadmap_reach zero_sha True table"
    by (rule reach_start [OF reach_empty b _ _ run_recorded t(1), of empty_scope "[detail_ref, detail_ref]" "''o''" "''t''"])
      (use news in \<open>simp_all add: roadmap_json_def read_scope_def empty_scope_def\<close>)
  moreover have "(start_scope ?sub 1 2)\<lparr>sc_order := map nth_number [0..<2]\<rparr> = started_scope"
    by (simp add: started_scope_def start_scope_def numeral_2_eq_2 start_phase_of_def start_story_of_def start_sub_def nth_number_def)
  ultimately show ?thesis using t(2) scope_held_reads [OF t(2)] by auto
qed

section \<open>A change\<close>

definition story_value :: json where
  "story_value = JObject [(''phase'', JNull), (''sentence'', JString ''s''), (''status'', JString ''active'')]"

definition all_complete :: "u32 \<rightharpoonup> phase_progress" where
  "all_complete n = Some \<lparr>pg_undo = None, pg_complete = True\<rparr>"

lemma story_judged: "\<exists>c. judge_change zero_sha StoryDeclareKind story_value = Some (Inr c) \<and> cs_change c = StoryDeclare ''s'' StoryActive None"
proof -
  let ?body = "JObject (ains ''kind'' (JString (change_kind_str StoryDeclareKind)) [(''phase'', JNull), (''sentence'', JString ''s''), (''status'', JString ''active'')])"
  have "numbers_safe ?body" by simp
  then obtain b where b: "canonical_json ?body = Inr b" using canonical_json_ok by blast
  have m: "change_members StoryDeclareKind [(''phase'', JNull), (''sentence'', JString ''s''), (''status'', JString ''active'')] =
      Inr (StoryDeclare ''s'' StoryActive None)"
    by (simp add: judge_story_declare_def text_member_def judged_text_def blank_def white_space_def judged_status_def ok_or_def
        story_status_parse_def number_or_null_def)
  have "unknown_member [(''phase'', JNull), (''sentence'', JString ''s''), (''status'', JString ''active'')] (kind_members StoryDeclareKind) = None"
    by (simp add: unknown_member_def)
  with b m show ?thesis unfolding story_value_def judge_change_def request_digest_def by (simp add: Let_def del: change_members.simps kind_members.simps)
qed

lemma story_change: "\<exists>table c news. roadmap_reach zero_sha True table \<and> read_scope (roadmap_json table) = Some started_scope
    \<and> judge_change zero_sha StoryDeclareKind story_value = Some (Inr c)
    \<and> judge_scope_change (cs_change c) started_scope True all_complete = Some (Inr ())
    \<and> change_events c started_scope None ''o'' ''t'' = Some (Inr news)"
proof -
  obtain table where "roadmap_reach zero_sha True table" "read_scope (roadmap_json table) = Some started_scope" using start_reached by blast
  moreover obtain c where c: "judge_change zero_sha StoryDeclareKind story_value = Some (Inr c)" "cs_change c = StoryDeclare ''s'' StoryActive None"
    using story_judged by blast
  moreover have "judge_scope_change (cs_change c) started_scope True all_complete = Some (Inr ())"
    by (simp add: c(2) judge_scope_change_def judge_progress_def)
  moreover have "\<exists>news. change_events c started_scope None ''o'' ''t'' = Some (Inr news)"
    by (simp add: c(2) change_events_def next_number_Suc started_scope_def)
  ultimately show ?thesis by blast
qed

end
