(* ===== verification/Scope_Properties.thy ===== *)
theory Scope_Properties
  imports Scope_Example
begin

text \<open>
  The properties of accepted scope: of every roadmap table that starts, changes and refinements
  reach, and of the judgement that guards it.
\<close>

text \<open>C7: accepted scope is always sound.  Whatever starts, accepted changes and refinements were
  projected, the \<open>roadmap\<close> document reads back as a scope whose phases have distinct ascending
  numbers no higher than the highest declared, whose order holds each declared phase once, whose
  stories and phases agree on who serves whom, with only active stories served and none by a
  withdrawn phase, and whose dependencies are among declared phases and have no cycle.\<close>

theorem accepted_scope_sound:
  assumes "roadmap_reach sha started table"
  shows "\<exists>s. read_scope (roadmap_json table) = Some s \<and> scope_ok s"
  using reached_scope [OF assms] scope_held_reads by blast

theorem accepted_scope_sound_witness:
  "\<exists>table s. read_scope (roadmap_json table) = Some s \<and> sc_order s = [1, 2] \<and> scope_ok s"
proof -
  obtain table where t: "roadmap_reach zero_sha True table" "read_scope (roadmap_json table) = Some started_scope" using start_reached by blast
  moreover have "sc_order started_scope = [1, 2]" by (simp add: started_scope_def)
  ultimately show ?thesis using accepted_scope_sound [OF t(1)] by auto
qed

text \<open>C8: an accepted change takes effect.  The events of a change the rules accept always project
  onto the table it was judged on: no projector refusal loses an approved change, and the document
  then reads as the scope the change's facts give, a sound one again.\<close>

theorem accepted_change_projects:
  assumes "roadmap_reach sha started table" "read_scope (roadmap_json table) = Some s"
    "judge_change sha kind v = Some (Inr c)" "judge_scope_change (cs_change c) s started progress = Some (Inr ())"
    "change_events c s detail owner at' = Some (Inr news)" "recorded_run news es"
  shows "\<exists>table' s'. project_events roadmap_projector table es = Inr table' \<and> read_scope (roadmap_json table') = Some s'
    \<and> fold_facts (kind_facts (cs_change c) s) s = Some s' \<and> scope_ok s'"
  using reached_change [OF assms(1,3,2,4-6)] by blast

theorem accepted_change_projects_witness:
  "\<exists>table table' es s'. project_events roadmap_projector table es = Inr table' \<and> read_scope (roadmap_json table') = Some s' \<and> scope_ok s'"
proof -
  obtain table c news where w: "roadmap_reach zero_sha True table" "read_scope (roadmap_json table) = Some started_scope"
    "judge_change zero_sha StoryDeclareKind story_value = Some (Inr c)"
    "judge_scope_change (cs_change c) started_scope True all_complete = Some (Inr ())"
    "change_events c started_scope None ''o'' ''t'' = Some (Inr news)" using story_change by blast
  from accepted_change_projects [OF w run_recorded] show ?thesis by blast
qed

text \<open>C9: a complete phase keeps its stories.  Whatever change the rules accept, a phase that is
  complete when it is judged still has the same stories afterwards and is withdrawn only if it was
  before: no story is given to it, taken from it or dropped.\<close>

theorem complete_phases_kept:
  assumes "roadmap_reach sha started table" "read_scope (roadmap_json table) = Some s"
    "judge_change sha kind v = Some (Inr c)" "judge_scope_change (cs_change c) s started progress = Some (Inr ())"
    "change_events c s detail owner at' = Some (Inr news)" "recorded_run news es"
    "project_events roadmap_projector table es = Inr table'" "read_scope (roadmap_json table') = Some s'"
    "p \<in> set (sc_phases s)" "progress (hp_number p) = Some g" "pg_complete g"
  shows "\<exists>q \<in> set (sc_phases s'). hp_number q = hp_number p \<and> hp_stories q = hp_stories p \<and> hp_withdrawn q = hp_withdrawn p"
proof -
  have "keeps_phases (complete_in progress) s s'" using reached_change [OF assms(1,3,2,4-6)] assms(7,8) by auto
  moreover have "hp_number p \<in> complete_in progress" using assms(10,11) by (auto simp: complete_in_def)
  ultimately show ?thesis using assms(9) by (simp add: keeps_phases_def)
qed

theorem complete_phases_kept_witness:
  "\<exists>s'. read_scope (roadmap_json s') \<noteq> None \<and> (\<exists>s. read_scope (roadmap_json s') = Some s \<and> (\<exists>q \<in> set (sc_phases s). hp_number q = 1 \<and> hp_stories q = [1]))"
proof -
  obtain table c news where w: "roadmap_reach zero_sha True table" "read_scope (roadmap_json table) = Some started_scope"
    "judge_change zero_sha StoryDeclareKind story_value = Some (Inr c)"
    "judge_scope_change (cs_change c) started_scope True all_complete = Some (Inr ())"
    "change_events c started_scope None ''o'' ''t'' = Some (Inr news)" using story_change by blast
  obtain table' s' where t: "project_events roadmap_projector table (run_events news) = Inr table'"
    "read_scope (roadmap_json table') = Some s'" using reached_change [OF w(1,3,2,4,5) run_recorded] by blast
  have p: "hd (sc_phases started_scope) \<in> set (sc_phases started_scope)" by (simp add: started_scope_def)
  from complete_phases_kept [OF w run_recorded t p, of "\<lparr>pg_undo = None, pg_complete = True\<rparr>"] t(2)
  show ?thesis by (auto simp: all_complete_def started_scope_def)
qed

text \<open>C12: the judgement of a scope change never panics.  On every reachable scope a change whose shape
  was accepted gets an answer (its cycle search ends and its position counts from 1), and when it is
  accepted, with a detail reference where the kind stores one, recording it does not panic either:
  every phase and story it looks up is held and the place of a declared phase is not before the first.\<close>

theorem scope_judgement_total:
  assumes "roadmap_reach sha started table" "read_scope (roadmap_json table) = Some s"
    "judge_change sha kind v = Some (Inr c)" "detail \<noteq> None"
  shows "\<exists>r. judge_scope_change (cs_change c) s started progress = Some r
    \<and> (r = Inr () \<longrightarrow> change_events c s detail owner at' \<noteq> None)"
proof -
  have ok: "scope_ok s" using reached_scope [OF assms(1)] scope_held_reads assms(2) by (metis option.inject)
  note shape = judge_change_shape(1) [OF assms(3)]
  obtain r where r: "judge_kind (cs_change c) s progress = Some r" using judge_kind_total [OF ok shape] by blast
  show ?thesis
  proof (cases "started \<and> r = Inr ()")
    case True
    with kind_events_total [OF ok shape _ assms(4), of progress "()" "cs_digest c"] r show ?thesis by (auto simp: judge_scope_change_def change_events_def)
  qed (use r in \<open>auto simp: judge_scope_change_def\<close>)
qed

theorem scope_judgement_total_witness:
  "\<exists>c. judge_change zero_sha StoryDeclareKind story_value = Some (Inr c) \<and> judge_scope_change (cs_change c) started_scope True all_complete = Some (Inr ())
    \<and> change_events c started_scope (Some detail_ref) ''o'' ''t'' \<noteq> None"
proof -
  obtain table c where w: "roadmap_reach zero_sha True table" "read_scope (roadmap_json table) = Some started_scope"
    "judge_change zero_sha StoryDeclareKind story_value = Some (Inr c)"
    "judge_scope_change (cs_change c) started_scope True all_complete = Some (Inr ())" using story_change by blast
  from scope_judgement_total [OF w(1-3), of "Some detail_ref" all_complete "''o''" "''t''"] w(3,4) show ?thesis by auto
qed

text \<open>C10: the cycle search of an edit is exact.  On accepted scope it ends and gives, ascending and
  without repeats, exactly the phases on a dependency cycle of the roadmap as edited, so an edit is
  refused for a cycle if and only if it would close one.\<close>

theorem edit_cycles_exact:
  assumes "roadmap_reach sha started table" "read_scope (roadmap_json table) = Some s"
  shows "\<exists>ps. on_cycle_with s n ds = Some ps \<and> sorted ps \<and> distinct ps \<and> set ps = {m. (m, m) \<in> (edited_rel s n ds)\<^sup>+}"
proof -
  have "scope_ok s" using reached_scope [OF assms(1)] scope_held_reads assms(2) by (metis option.inject)
  then show ?thesis by (intro on_cycle_with_cycles) (simp_all add: scope_okD)
qed

theorem edit_cycles_exact_witness:
  "\<exists>ps. on_cycle_with started_scope 1 [1] = Some ps \<and> sorted ps \<and> set ps = {m. (m, m) \<in> (edited_rel started_scope 1 [1])\<^sup>+}"
proof -
  obtain table where "roadmap_reach zero_sha True table" "read_scope (roadmap_json table) = Some started_scope" using start_reached by blast
  from edit_cycles_exact [OF this, of 1 "[1]"] show ?thesis by blast
qed

text \<open>C17: an accepted reorder is a topological order.  It places every phase of a dependency before the
  phase that depends on it.\<close>

theorem accepted_reorder_topological:
  assumes "roadmap_reach sha started table" "read_scope (roadmap_json table) = Some s"
    "judge_scope_change (PhaseReorder order) s started progress = Some (Inr ())"
    "p \<in> set (declared_phases s)" "d \<in> set (hp_depends_on p)"
  shows "\<exists>i k. i < k \<and> k < length order \<and> order ! i = d \<and> order ! k = hp_number p"
proof -
  have "scope_ok s" using reached_scope [OF assms(1)] scope_held_reads assms(2) by (metis option.inject)
  moreover have "judge_reorder order s = Inr ()" using change_started [OF assms(3)] by simp
  moreover have "(hp_number p, d) \<in> depends_rel s" using assms(4,5) by (auto simp: depends_rel_def)
  ultimately show ?thesis by (rule reorder_respects)
qed

theorem accepted_reorder_topological_witness:
  "\<exists>i k. i < k \<and> k < length [1, 2 :: u32] \<and> [1, 2 :: u32] ! i = 1 \<and> [1, 2 :: u32] ! k = 2 \<and> judge_reorder [1, 2] started_scope = Inr ()"
proof -
  obtain table where t: "roadmap_reach zero_sha True table" "read_scope (roadmap_json table) = Some started_scope" using start_reached by blast
  have j: "judge_reorder [1, 2] started_scope = Inr ()" by code_simp
  then have "judge_scope_change (PhaseReorder [1, 2]) started_scope True Map.empty = Some (Inr ())" by (simp add: judge_scope_change_def)
  from accepted_reorder_topological [OF t this, of "sc_phases started_scope ! 1" 1] j show ?thesis
    by (simp add: started_scope_def declared_phases_def)
qed

text \<open>C11: phase numbers and story ids are never reused.  An accepted declaration adds one phase after
  every phase the scope holds, withdrawn ones included, under a number above all of theirs and with
  the declaration's own contents, and it replaces none; a story's declaration does the same with its
  id among all stories, dropped ones included.  No other accepted change adds, removes or renames a
  number or an id.\<close>

theorem numbers_never_reused:
  assumes "roadmap_reach sha started table" "read_scope (roadmap_json table) = Some s"
    "judge_change sha kind v = Some (Inr c)" "judge_scope_change (cs_change c) s started progress = Some (Inr ())"
    "change_events c s detail owner at' = Some (Inr news)" "recorded_run news es"
    "project_events roadmap_projector table es = Inr table'" "read_scope (roadmap_json table') = Some s'"
  shows "(case cs_change c of
        PhaseDeclare d \<Rightarrow> \<exists>n. (\<forall>m \<in> scope_numbers s. m < n) \<and> sc_phases s' = sc_phases s @ [\<lparr>hp_number = n, hp_name = pd_name d,
          hp_goal = pd_goal d, hp_depends_on = pd_depends_on d, hp_stories = pd_stories d, hp_withdrawn = False\<rparr>]
      | _ \<Rightarrow> scope_numbers s' = scope_numbers s)
    \<and> (case cs_change c of
        StoryDeclare sentence status phase \<Rightarrow> \<exists>i. (\<forall>j \<in> scope_ids s. j < i)
          \<and> sc_stories s' = sc_stories s @ [\<lparr>hs_id = i, hs_status = held_of status, hs_phase = phase\<rparr>]
      | _ \<Rightarrow> scope_ids s' = scope_ids s)"
proof -
  have ok: "scope_ok s" using reached_scope [OF assms(1)] scope_held_reads assms(2) by (metis option.inject)
  have fold: "fold_facts (kind_facts (cs_change c) s) s = Some s'" using reached_change [OF assms(1,3,2,4-6)] assms(7,8) by auto
  obtain ns where ns: "kind_events (cs_change c) s detail (cs_digest c) = Some (Inr ns)"
    using change_run(3) [OF assms(5,6)] by blast
  show ?thesis
  proof (cases "cs_change c")
    case (PhaseDeclare d)
    with ns have "sc_highest_phase s \<noteq> - 1" by (auto simp: next_number_Suc split: if_splits)
    from declaration_appends [OF ok this fold [unfolded PhaseDeclare]] PhaseDeclare show ?thesis by (auto simp: other_change_ids [OF fold])
  next
    case (StoryDeclare sentence status phase)
    with ns have "sc_highest_story s \<noteq> - 1" by (auto simp: next_number_Suc split: if_splits)
    from story_appends [OF ok this fold [unfolded StoryDeclare]] StoryDeclare show ?thesis by (auto simp: other_change_numbers [OF fold])
  qed (auto simp: other_change_numbers [OF fold] other_change_ids [OF fold])
qed

theorem numbers_never_reused_witness:
  "\<exists>table s h. read_scope (roadmap_json table) = Some s \<and> sc_stories s = sc_stories started_scope @ [h] \<and> 1 < hs_id h
    \<and> scope_numbers s = {1, 2}"
proof -
  obtain table c news where w: "roadmap_reach zero_sha True table" "read_scope (roadmap_json table) = Some started_scope"
    "judge_change zero_sha StoryDeclareKind story_value = Some (Inr c)"
    "judge_scope_change (cs_change c) started_scope True all_complete = Some (Inr ())"
    "change_events c started_scope None ''o'' ''t'' = Some (Inr news)" using story_change by blast
  obtain table' s' where t: "project_events roadmap_projector table (run_events news) = Inr table'"
    "read_scope (roadmap_json table') = Some s'" using reached_change [OF w(1,3,2,4,5) run_recorded] by blast
  obtain sentence status phase where c: "cs_change c = StoryDeclare sentence status phase"
    using judge_change_shape(2) [OF w(3)] by (cases "cs_change c") auto
  have "1 \<in> scope_ids started_scope" "scope_numbers started_scope = {1, 2}" by (simp_all add: scope_ids_def scope_numbers_def started_scope_def)
  moreover obtain i where i: "\<forall>j \<in> scope_ids started_scope. j < i"
    "sc_stories s' = sc_stories started_scope @ [\<lparr>hs_id = i, hs_status = held_of status, hs_phase = phase\<rparr>]"
    "scope_numbers s' = scope_numbers started_scope"
    using numbers_never_reused [OF w run_recorded t] c by auto
  ultimately show ?thesis using t(2)
    by (intro exI [of _ table'] exI [of _ s'] exI [of _ "\<lparr>hs_id = i, hs_status = held_of status, hs_phase = phase\<rparr>"]) simp
qed

text \<open>C16: the \<open>roadmap\<close> projector implements the abstract operations.  Projecting a run of events onto a
  document that holds a scope succeeds exactly when the facts those events state apply to the scope,
  one after another, and the document then holds the scope they give; no other document changes.\<close>

theorem roadmap_refines:
  assumes "told es fs" "scope_held (roadmap_json table) s" "\<forall>e \<in> set es. unat (seq e) < 2 ^ 63"
  shows "case fold_facts fs s of
      Some s' \<Rightarrow> \<exists>table'. project_events roadmap_projector table es = Inr table' \<and> scope_held (roadmap_json table') s'
        \<and> (\<forall>k. k \<noteq> roadmap_key \<longrightarrow> table' k = table k)
    | None \<Rightarrow> \<exists>err. project_events roadmap_projector table es = Inl err"
  unfolding roadmap_json_def by (rule roadmap_projects [where table = table, OF assms(1) assms(2) [unfolded roadmap_json_def] assms(3)])

theorem roadmap_refines_witness:
  "\<exists>es table table' s'. project_events roadmap_projector table es = Inr table' \<and> scope_held (roadmap_json table') s' \<and> sc_order s' = [2, 1]"
proof -
  obtain table where t: "scope_held (roadmap_json table) started_scope" using start_reached by blast
  let ?es = "run_events [reordered_event [2, 1] zero_hash]"
  have "told ?es [FactOrder [2, 1]]"
    using run_recorded [of "[reordered_event [2, 1] zero_hash]"] by (auto simp: recorded_run_def list_all2_Cons1 intro!: told_one)
  moreover have "\<forall>e \<in> set ?es. unat (seq e) < 2 ^ 63" using run_recorded by (simp add: recorded_run_def)
  ultimately obtain table' where "project_events roadmap_projector table ?es = Inr table'"
    "scope_held (roadmap_json table') (started_scope\<lparr>sc_order := [2, 1]\<rparr>)" using roadmap_refines [OF _ t, of ?es "[FactOrder [2, 1]]"] by auto
  then show ?thesis by (intro exI [of _ ?es] exI [of _ table] exI [of _ table'] exI [of _ "started_scope\<lparr>sc_order := [2, 1]\<rparr>"]) simp
qed

end
