(* ===== verification/Draft_View.thy ===== *)
theory Draft_View
  imports Scope_Event Chain
begin

text \<open>
  The \<open>draft\<close> view (\<open>baley-core/src/scope/draft.rs\<close>) and the mark a purge leaves on the documents of
  a project's scope (\<open>mark_purged\<close> of \<open>scope/mod.rs\<close>).  A document is proved to be the latest
  submission of its digest, and to say it is purged exactly when the project released the body that
  submission named.
\<close>

declare doc_read_staged_one [simp] doc_read_Nil [simp]

section \<open>The mark of a purge\<close>

definition purge_releases :: "purged_event \<Rightarrow> u64 \<Rightarrow> string \<Rightarrow> bool" where
  "purge_releases purge n h \<longleftrightarrow> list_ex (\<lambda>(at', released). at' = n \<and> to_hex released = h) (pe_released purge)"

definition mark_document :: "purged_event \<Rightarrow> json \<Rightarrow> json option" where
  "mark_document purge document = do {
     fields \<leftarrow> as_object document;
     n \<leftarrow> Option.bind (map_of fields ''seq'') as_u64;
     h \<leftarrow> Option.bind (map_of fields ''hash'') as_str;
     if purge_releases purge n h
     then Some (JObject (ains ''reason'' (JString (pe_reason purge)) (ains ''state'' (JString ''purged'') fields)))
     else None }"

definition mark_purged :: "purged_event \<Rightarrow> (doc_key \<times> json) list \<Rightarrow> change list" where
  "mark_purged purge documents =
     List.map_filter (\<lambda>(key, document). map_option (Put key) (mark_document purge document)) documents"

section \<open>The projector\<close>

definition draft_view :: string where "draft_view = ''draft''"

definition draft_spec :: view_spec where
  "draft_spec =
     \<lparr>vs_name = draft_view, vs_version = 3, vs_key = [(''digest'', FText)],
      vs_indexes = [\<lparr>ix_name = ''newest'',
        ix_fields = [(''kind'', FText, Ascending), (''target'', FText, Ascending), (''seq'', FInteger, Descending)]\<rparr>],
      vs_page_bound = 100\<rparr>"

definition draft_key :: "hash \<Rightarrow> doc_key" where
  "draft_key digest = [KText (to_hex digest)]"

definition submitted_digest :: "json \<Rightarrow> hash option" where
  "submitted_digest v = Option.bind (Option.bind (jget ''digest'' v) as_str) from_hex"

definition draft_keys :: "event \<Rightarrow> doc_key list" where
  "draft_keys e =
     (if type_name e = payload_purged then
        (case purged_from_value (payload e) of
           None \<Rightarrow> []
         | Some purge \<Rightarrow> remdups_adj (sort (map (\<lambda>(_, h). draft_key h) (pe_released purge))))
      else (case submitted_digest (payload e) of None \<Rightarrow> [] | Some digest \<Rightarrow> [draft_key digest]))"

definition draft_refuse :: "event \<Rightarrow> string \<Rightarrow> string" where
  "draft_refuse e message = type_name e @ '' at seq '' @ dec_u64 (seq e) @ '': '' @ message"

definition filled_text :: "json \<Rightarrow> string \<Rightarrow> string option" where
  "filled_text v name =
     (case jget name v of Some (JString s) \<Rightarrow> (if s \<noteq> [] then Some s else None) | _ \<Rightarrow> None)"

definition draft_document :: "hash \<Rightarrow> string \<Rightarrow> string \<Rightarrow> event \<Rightarrow> payload_ref \<Rightarrow> json" where
  "draft_document digest kind target e body =
     jobj [(''digest'', JString (to_hex digest)), (''kind'', JString kind), (''target'', JString target), (''seq'', jnum (seq e)),
       (''recorded_at'', JString (recorded_at e)), (''hash'', JString (to_hex (pr_hash body)))]"

definition draft_apply :: "event \<Rightarrow> (doc_key \<times> json) list \<Rightarrow> projector_error + change list" where
  "draft_apply e documents =
     (if type_name e = payload_purged then
        (case purged_from_value (payload e) of
           None \<Rightarrow> Inl (draft_refuse e ''the purge payload cannot be read'')
         | Some purge \<Rightarrow> Inr (mark_purged purge documents))
      else
        rbind (ok_or (draft_refuse e ''digest is missing or not a digest'') (submitted_digest (payload e))) (\<lambda>digest.
        rbind (ok_or (draft_refuse e ''kind is missing, not text or empty'') (filled_text (payload e) ''kind'')) (\<lambda>kind.
        rbind (ok_or (draft_refuse e ''target is missing, not text or empty'') (filled_text (payload e) ''target'')) (\<lambda>target.
        rbind (ok_or (draft_refuse e ''body is missing or not a reference object'')
                 (Option.bind (jget ''body'' (payload e)) ref_from_value)) (\<lambda>body.
          Inr [Put (draft_key digest) (draft_document digest kind target e body)])))))"

definition draft_projector :: projector where
  "draft_projector =
     \<lparr>p_spec = draft_spec, p_handles = [scope_submitted, payload_purged], p_keys = draft_keys, p_apply = draft_apply\<rparr>"

section \<open>What a draft is\<close>

text \<open>The draft a digest has after a run of events: its latest submission, with the reason of the
  latest purge that released that submission's body.\<close>

record held_draft =
  hd_kind :: string
  hd_target :: string
  hd_seq :: u64
  hd_at :: string
  hd_hash :: hash
  hd_purged :: "string option"

definition submitted_draft :: "event \<Rightarrow> held_draft option" where
  "submitted_draft e = do {
     kind \<leftarrow> filled_text (payload e) ''kind'';
     target \<leftarrow> filled_text (payload e) ''target'';
     body \<leftarrow> Option.bind (jget ''body'' (payload e)) ref_from_value;
     Some \<lparr>hd_kind = kind, hd_target = target, hd_seq = seq e, hd_at = recorded_at e, hd_hash = pr_hash body, hd_purged = None\<rparr> }"

definition purge_draft :: "hash \<Rightarrow> purged_event \<Rightarrow> held_draft \<Rightarrow> held_draft" where
  "purge_draft digest purge d =
     (if digest \<in> snd ` set (pe_released purge) \<and> (hd_seq d, hd_hash d) \<in> set (pe_released purge)
      then d\<lparr>hd_purged := Some (pe_reason purge)\<rparr> else d)"

definition draft_step :: "hash \<Rightarrow> held_draft option \<Rightarrow> event \<Rightarrow> held_draft option" where
  "draft_step digest d e =
     (if type_name e = scope_submitted then (if submitted_digest (payload e) = Some digest then submitted_draft e else d)
      else if type_name e = payload_purged then
        (case purged_from_value (payload e) of None \<Rightarrow> d | Some purge \<Rightarrow> map_option (purge_draft digest purge) d)
      else d)"

definition draft_value :: "hash \<Rightarrow> held_draft \<Rightarrow> json" where
  "draft_value digest d =
     jobj ([(''digest'', JString (to_hex digest)), (''kind'', JString (hd_kind d)), (''target'', JString (hd_target d)),
        (''seq'', jnum (hd_seq d)), (''recorded_at'', JString (hd_at d)), (''hash'', JString (to_hex (hd_hash d)))]
       @ (case hd_purged d of None \<Rightarrow> [] | Some reason \<Rightarrow> [(''state'', JString ''purged''), (''reason'', JString reason)]))"

lemma draft_key_inject [simp]: "draft_key a = draft_key b \<longleftrightarrow> a = b"
  by (simp add: draft_key_def)

lemma purge_releases_hash: "purge_releases purge n (to_hex h) \<longleftrightarrow> (n, h) \<in> set (pe_released purge)"
  by (auto simp: purge_releases_def list_ex_iff)

lemma mark_draft_value:
  "mark_document purge (draft_value digest d) =
     (if (hd_seq d, hd_hash d) \<in> set (pe_released purge) then Some (draft_value digest (d\<lparr>hd_purged := Some (pe_reason purge)\<rparr>)) else None)"
proof -
  have "ains ''reason'' (JString (pe_reason purge)) (ains ''state'' (JString ''purged'') (members
      ([(''digest'', JString (to_hex digest)), (''kind'', JString (hd_kind d)), (''target'', JString (hd_target d)),
        (''seq'', jnum (hd_seq d)), (''recorded_at'', JString (hd_at d)), (''hash'', JString (to_hex (hd_hash d)))]
       @ (case hd_purged d of None \<Rightarrow> [] | Some reason \<Rightarrow> [(''state'', JString ''purged''), (''reason'', JString reason)])))) =
    members [(''digest'', JString (to_hex digest)), (''kind'', JString (hd_kind d)), (''target'', JString (hd_target d)),
        (''seq'', jnum (hd_seq d)), (''recorded_at'', JString (hd_at d)), (''hash'', JString (to_hex (hd_hash d))),
        (''state'', JString ''purged''), (''reason'', JString (pe_reason purge))]" (is "?l = ?r")
    by (rule sorted_maps_eq) (simp_all add: akeys_sorted_ains members_map_of split: option.split)
  moreover have "mark_document purge (draft_value digest d) =
     (if (hd_seq d, hd_hash d) \<in> set (pe_released purge) then Some (JObject ?l) else None)"
    by (simp add: mark_document_def draft_value_def members_map_of purge_releases_hash split: option.split)
  ultimately show ?thesis by (simp add: draft_value_def jobj_def)
qed

section \<open>The view holds the drafts\<close>

lemma mark_purged_iff: "Put k b \<in> set (mark_purged purge docs) \<longleftrightarrow> (\<exists>doc. (k, doc) \<in> set docs \<and> mark_document purge doc = Some b)"
  by (force simp: mark_purged_def map_filter_def)

lemma mark_purged_puts: "c \<in> set (mark_purged purge docs) \<Longrightarrow> \<exists>k b. c = Put k b"
  by (auto simp: mark_purged_def map_filter_def)

text \<open>What a purge's marks leave to be read at a key: the marked document where the key is one the
  event names and the document's body was released.\<close>

lemma read_marked:
  "doc_read table (foldl (stage n) s (mark_purged purge (documents_at table s ks))) k =
     (case doc_read table s k of
        None \<Rightarrow> None
      | Some doc \<Rightarrow> if k \<in> set ks then (case mark_document purge doc of None \<Rightarrow> Some doc | Some b \<Rightarrow> Some b) else Some doc)"
proof -
  let ?cs = "mark_purged purge (documents_at table s ks)"
  have puts: "(\<exists>c \<in> set ?cs. change_key c = k) \<longleftrightarrow>
      k \<in> set ks \<and> (\<exists>doc b. doc_read table s k = Some doc \<and> mark_document purge doc = Some b)"
    using mark_purged_iff [of k _ purge "documents_at table s ks"] mark_purged_puts [of _ purge "documents_at table s ks"]
    by (force simp: documents_at_iff)
  show ?thesis
  proof (cases "\<exists>c \<in> set ?cs. change_key c = k")
    case True
    with puts obtain doc b where d: "k \<in> set ks" "doc_read table s k = Some doc" "mark_document purge doc = Some b" by blast
    have "map_of (foldl (stage n) [] ?cs) k =
        (if \<exists>c \<in> set ?cs. change_key c = k then Some \<lparr>st_body = Some b, st_seq = n\<rparr> else None)"
    proof (rule stage_all_lookup)
      fix c assume "c \<in> set ?cs" "change_key c = k"
      with mark_purged_puts [of c] obtain b' where "c = Put k b'" by fastforce
      with \<open>c \<in> set ?cs\<close> d show "change_body c = Some b" by (simp add: mark_purged_iff documents_at_iff)
    qed
    with True d show ?thesis by (simp add: doc_read_staged)
  next
    case False
    then have "map_of (foldl (stage n) [] ?cs) k = None" using stage_all_lookup [of ?cs k None n] by auto
    with False puts show ?thesis by (auto simp: doc_read_staged split: option.split)
  qed
qed

lemma purged_not_submitted [simp]: "payload_purged \<noteq> scope_submitted" "scope_submitted \<noteq> payload_purged"
  by (simp_all add: payload_purged_def scope_submitted_def)

definition drafts_read :: "(doc_key \<Rightarrow> json option) \<Rightarrow> (hash \<Rightarrow> held_draft option) \<Rightarrow> bool" where
  "drafts_read read m \<longleftrightarrow> (\<forall>d. read (draft_key d) = map_option (draft_value d) (m d))"

lemma fold_event_drafts:
  assumes "fold_event draft_projector table e s = Inr u" "drafts_read (doc_read table s) m"
  shows "drafts_read (doc_read table u) (\<lambda>d. draft_step d (m d) e)"
proof (cases "type_name e \<in> set (p_handles draft_projector)")
  case False
  with assms show ?thesis by (simp add: fold_event_def draft_projector_def draft_step_def)
next
  case True
  obtain cs where cs: "draft_apply e (documents_at table s (draft_keys e)) = Inr cs" "u = foldl (stage (seq e)) s cs"
    by (rule fold_event_handled [OF assms(1) True]) (simp add: draft_projector_def)
  have held: "doc_read table s (draft_key d) = map_option (draft_value d) (m d)" for d
    using assms(2) by (simp add: drafts_read_def)
  show ?thesis
  proof (cases "type_name e = payload_purged")
    case False
    with True have submitted: "type_name e = scope_submitted" by (simp add: draft_projector_def)
    from cs(1) False obtain digest kind target body where s: "submitted_digest (payload e) = Some digest"
      "filled_text (payload e) ''kind'' = Some kind" "filled_text (payload e) ''target'' = Some target"
      "Option.bind (jget ''body'' (payload e)) ref_from_value = Some body"
      "cs = [Put (draft_key digest) (draft_document digest kind target e body)]"
      by (auto simp: draft_apply_def result_simps)
    show ?thesis
      by (simp add: drafts_read_def cs(2) doc_read_staged held s map_of_stage draft_step_def submitted submitted_draft_def
          draft_document_def draft_value_def)
  next
    case purged: True
    with cs(1) obtain purge where p: "purged_from_value (payload e) = Some purge"
      "cs = mark_purged purge (documents_at table s (draft_keys e))"
      by (auto simp: draft_apply_def split: option.splits)
    have keys: "draft_key d \<in> set (draft_keys e) \<longleftrightarrow> d \<in> snd ` set (pe_released purge)" for d
      by (force simp: draft_keys_def purged p(1))
    have "doc_read table u (draft_key d) = map_option (draft_value d) (draft_step d (m d) e)" for d
      unfolding cs(2) p(2) read_marked
      by (cases "m d") (simp_all add: held keys mark_draft_value draft_step_def purged p(1) purge_draft_def)
    then show ?thesis by (simp add: drafts_read_def)
  qed
qed

lemma drafts_projected:
  assumes "project_events draft_projector table es = Inr table'" "drafts_read (\<lambda>k. map_option doc_body (table k)) m"
  shows "drafts_read (\<lambda>k. map_option doc_body (table' k)) (foldl (\<lambda>m e d. draft_step d (m d) e) m es)"
  by (rule projected_keeps [where R = drafts_read, OF fold_event_drafts assms])

definition submits :: "hash \<Rightarrow> event \<Rightarrow> bool" where
  "submits digest e \<longleftrightarrow> type_name e = scope_submitted \<and> submitted_digest (payload e) = Some digest"

text \<open>The reason of a purge that released the body stored as \<open>digest\<close> by the event at sequence \<open>n\<close>.\<close>

definition purge_reason :: "u64 \<Rightarrow> hash \<Rightarrow> event \<Rightarrow> string option" where
  "purge_reason n digest e =
     (if type_name e = payload_purged then
        (case purged_from_value (payload e) of
           None \<Rightarrow> None
         | Some purge \<Rightarrow> if (n, digest) \<in> set (pe_released purge) then Some (pe_reason purge) else None)
      else None)"

definition last_reason :: "u64 \<Rightarrow> hash \<Rightarrow> event list \<Rightarrow> string option" where
  "last_reason n digest es =
     (let reasons = List.map_filter (purge_reason n digest) es in if reasons = [] then None else Some (last reasons))"

definition later_reason :: "u64 \<Rightarrow> hash \<Rightarrow> string option \<Rightarrow> event \<Rightarrow> string option" where
  "later_reason n digest r e = (case purge_reason n digest e of None \<Rightarrow> r | Some t \<Rightarrow> Some t)"

lemma later_reasons:
  "foldl (later_reason n digest) r es = (case last_reason n digest es of None \<Rightarrow> r | Some t \<Rightarrow> Some t)"
  by (induction es arbitrary: r)
    (simp_all add: last_reason_def later_reason_def List.map_filter_simps Let_def split: option.split)

lemma draft_not_resubmitted:
  assumes "\<not> submits digest e" "hd_hash d = digest"
  shows "draft_step digest (Some d) e = Some (d\<lparr>hd_purged := later_reason (hd_seq d) digest (hd_purged d) e\<rparr>)"
proof (cases "type_name e = payload_purged")
  case True
  then show ?thesis
    using assms(2) by (cases "purged_from_value (payload e)")
      (force simp: draft_step_def purge_draft_def later_reason_def purge_reason_def)+
next
  case False
  with assms(1) show ?thesis by (simp add: draft_step_def submits_def later_reason_def purge_reason_def)
qed

lemma draft_after:
  "\<forall>e \<in> set es. \<not> submits digest e \<Longrightarrow> hd_hash d = digest \<Longrightarrow>
     foldl (draft_step digest) (Some d) es = Some (d\<lparr>hd_purged := foldl (later_reason (hd_seq d) digest) (hd_purged d) es\<rparr>)"
proof (induction es arbitrary: d)
  case (Cons e es)
  with draft_not_resubmitted [of digest e d]
    Cons.IH [of "d\<lparr>hd_purged := later_reason (hd_seq d) digest (hd_purged d) e\<rparr>"] show ?case by simp
qed simp

lemma submitted_projects:
  assumes "fold_event draft_projector table e s = Inr u" "submits digest e"
  shows "\<exists>d body. submitted_draft e = Some d \<and> hd_seq d = seq e \<and> hd_purged d = None
    \<and> Option.bind (jget ''body'' (payload e)) ref_from_value = Some body \<and> hd_hash d = pr_hash body"
proof -
  have "type_name e \<in> set (p_handles draft_projector)" using assms(2) by (simp add: submits_def draft_projector_def)
  from fold_event_handled [OF assms(1) this] obtain cs where "draft_apply e (documents_at table s (p_keys draft_projector e)) = Inr cs"
    by (metis draft_projector_def projector.select_convs(4))
  with assms(2) show ?thesis
    by (fastforce simp: draft_apply_def submits_def result_simps submitted_draft_def bind_eq_Some_conv)
qed

lemma fold_events_member:
  "fold_events p table es s = Inr u \<Longrightarrow> e \<in> set es \<Longrightarrow> \<exists>v w. fold_event p table e v = Inr w"
  by (induction es arbitrary: s) (auto simp: result_simps)

text \<open>C14: what a project purged is never left readable.  In the draft view of any run of events, a digest
  whose latest submission files it under the hash of its body has the document of that submission:
  its kind, target, sequence, time and hash.  The document says it is purged exactly when the project
  later released the body that submission holds, with the reason of the latest such purge: an earlier
  submission's purge, and a purge of another reference, mark nothing.\<close>

theorem purged_draft_marked:
  assumes "project_events draft_projector Map.empty (before @ submission # after) = Inr table"
    and "submits digest submission" "\<forall>e \<in> set after. \<not> submits digest e"
    and "map_option pr_hash (Option.bind (jget ''body'' (payload submission)) ref_from_value) = Some digest"
  shows "\<exists>doc d. table (draft_key digest) = Some doc \<and> submitted_draft submission = Some d
    \<and> doc_body doc = draft_value digest (d\<lparr>hd_purged := last_reason (seq submission) digest after\<rparr>)
    \<and> (jget ''state'' (doc_body doc) = Some (JString ''purged'') \<longleftrightarrow> (\<exists>e \<in> set after. purge_reason (seq submission) digest e \<noteq> None))"
proof -
  obtain s where s: "fold_events draft_projector Map.empty (before @ submission # after) [] = Inr s"
    using projected_read [OF assms(1)] by blast
  then obtain v w where "fold_event draft_projector Map.empty submission v = Inr w"
    using fold_events_member [OF s, of submission] by auto
  from submitted_projects [OF this assms(2)] assms(4) obtain d where d: "submitted_draft submission = Some d" "hd_seq d = seq submission"
    "hd_purged d = None" "hd_hash d = digest" by auto
  have read: "map_option doc_body (table (draft_key digest)) =
      map_option (draft_value digest) (foldl (draft_step digest) None (before @ submission # after))"
    using drafts_projected [OF assms(1), of "\<lambda>d. None"] by (simp add: drafts_read_def fold_pointwise)
  have "draft_step digest x submission = Some d" for x using assms(2) d(1) by (simp add: draft_step_def submits_def)
  then have "foldl (draft_step digest) None (before @ submission # after) =
      Some (d\<lparr>hd_purged := last_reason (seq submission) digest after\<rparr>)"
    using draft_after [OF assms(3) d(4)] d(2,3) by (simp add: later_reasons split: option.split)
  with read obtain doc where doc: "table (draft_key digest) = Some doc"
    "doc_body doc = draft_value digest (d\<lparr>hd_purged := last_reason (seq submission) digest after\<rparr>)" by auto
  moreover have "last_reason (seq submission) digest after \<noteq> None \<longleftrightarrow> (\<exists>e \<in> set after. purge_reason (seq submission) digest e \<noteq> None)"
    by (auto simp: last_reason_def Let_def map_filter_def filter_empty_conv)
  ultimately show ?thesis using d(1) by (auto simp: draft_value_def split: option.splits)
qed

section \<open>A purged draft\<close>

definition purge_example :: purged_event where
  "purge_example = \<lparr>pe_requested = [zero_hash], pe_released = [(1, zero_hash)], pe_removed = [zero_hash], pe_shared = [],
     pe_reason = ''secret''\<rparr>"

definition submitted_example :: event where
  "submitted_example = example_event 1 scope_submitted
     (jobj [(''digest'', JString (to_hex zero_hash)), (''kind'', JString ''start''), (''target'', JString ''project''),
       (''body'', ref_to_value \<lparr>pr_hash = zero_hash, pr_bytes = 1, pr_class = Record\<rparr>)])"

definition purged_example :: event where
  "purged_example = example_event 2 payload_purged (purged_to_value purge_example)"

lemma zero_hash_wf: "hash_wf zero_hash"
  by (simp add: zero_hash_def hash_wf_def)

lemma purge_example_read: "purged_from_value (payload purged_example) = Some purge_example"
  unfolding purged_example_def example_fields
  by (rule purged.decode_encode) (simp add: purge_example_def purged_wf_def zero_hash_wf)

lemma submitted_example_read:
  "submitted_digest (payload submitted_example) = Some zero_hash" "filled_text (payload submitted_example) ''kind'' = Some ''start''"
  "filled_text (payload submitted_example) ''target'' = Some ''project''"
  "Option.bind (jget ''body'' (payload submitted_example)) ref_from_value = Some \<lparr>pr_hash = zero_hash, pr_bytes = 1, pr_class = Record\<rparr>"
  using reference.decode_encode [of "\<lparr>pr_hash = zero_hash, pr_bytes = 1, pr_class = Record\<rparr>"]
  by (simp_all add: submitted_example_def submitted_digest_def filled_text_def zero_hash_wf ref_wf_def)

definition draft_example :: held_draft where
  "draft_example = \<lparr>hd_kind = ''start'', hd_target = ''project'', hd_seq = 1, hd_at = ''2024-01-01T00:00:00Z'', hd_hash = zero_hash,
     hd_purged = None\<rparr>"

lemma submitted_example_fold:
  "fold_event draft_projector Map.empty submitted_example [] =
     Inr [(draft_key zero_hash, \<lparr>st_body = Some (draft_value zero_hash draft_example), st_seq = 1\<rparr>)]"
proof -
  have "type_name submitted_example = scope_submitted" "seq submitted_example = 1" "recorded_at submitted_example = ''2024-01-01T00:00:00Z''"
    by (simp_all add: submitted_example_def) (simp add: example_event_def place_def example_draft_def)
  then show ?thesis
    by (simp add: fold_event_def draft_projector_def draft_apply_def draft_keys_def submitted_example_read key_refused_def draft_key_def
        draft_spec_def fitted_def documents_at_def stage_def draft_document_def draft_value_def draft_example_def)
qed

lemma purged_example_fold:
  "fold_event draft_projector Map.empty purged_example
       [(draft_key zero_hash, \<lparr>st_body = Some (draft_value zero_hash draft_example), st_seq = 1\<rparr>)] =
     Inr [(draft_key zero_hash, \<lparr>st_body = Some (draft_value zero_hash (draft_example\<lparr>hd_purged := Some ''secret''\<rparr>)), st_seq = 2\<rparr>)]"
proof -
  have e: "type_name purged_example = payload_purged" "seq purged_example = 2" by (simp_all add: purged_example_def)
  have keys: "draft_keys purged_example = [draft_key zero_hash]"
    by (simp add: draft_keys_def e purge_example_read purge_example_def)
  have "mark_document purge_example (draft_value zero_hash draft_example) =
      Some (draft_value zero_hash (draft_example\<lparr>hd_purged := Some ''secret''\<rparr>))"
    by (simp add: mark_draft_value) (simp add: draft_example_def purge_example_def)
  then show ?thesis
    by (simp add: fold_event_def draft_projector_def draft_apply_def keys e purge_example_read key_refused_def draft_spec_def
        documents_at_def doc_read_def mark_purged_def stage_def)
qed

lemma example_drafts_projected: "\<exists>table. project_events draft_projector Map.empty [submitted_example, purged_example] = Inr table"
proof -
  let ?d = "draft_value zero_hash (draft_example\<lparr>hd_purged := Some ''secret''\<rparr>)"
  have whole: "as_i64 (jnum 1) = Some 1" using parse_i64_dec [of 1] by (simp add: jnum_def dec_u64_def)
  have "numbers_safe ?d" using numbers_safe_jnum [of 1]
    by (simp add: draft_value_def draft_example_def numbers_safe_jobj del: numbers_safe.simps) simp
  then obtain b where "canonical_json ?d = Inr b" using canonical_json_ok by blast
  then have "check_change draft_spec (draft_key zero_hash) (Some ?d) 2 = Inr ()"
    by (simp add: check_change_def draft_key_def draft_spec_def fitted_def key_held_def index_held_def index_columns_def)
      (simp add: draft_value_def draft_example_def whole)
  then show ?thesis
    using submitted_example_fold purged_example_fold
    by (simp add: project_events_def write_change_def) (simp add: draft_projector_def)
qed

theorem purged_draft_marked_witness:
  "\<exists>table doc. project_events draft_projector Map.empty [submitted_example, purged_example] = Inr table
    \<and> table (draft_key zero_hash) = Some doc \<and> jget ''state'' (doc_body doc) = Some (JString ''purged'')"
proof -
  obtain table where t: "project_events draft_projector Map.empty ([] @ submitted_example # [purged_example]) = Inr table"
    using example_drafts_projected by auto
  have sub: "submits zero_hash submitted_example" using submitted_example_read(1) by (simp add: submits_def submitted_example_def)
  have not: "\<forall>e \<in> set [purged_example]. \<not> submits zero_hash e" by (simp add: submits_def purged_example_def)
  have body: "map_option pr_hash (Option.bind (jget ''body'' (payload submitted_example)) ref_from_value) = Some zero_hash"
    by (simp add: submitted_example_read)
  have "purge_reason (seq submitted_example) zero_hash purged_example = Some ''secret''"
    using purge_example_read by (simp add: purge_reason_def) (simp add: purged_example_def submitted_example_def purge_example_def)
  with purged_draft_marked [OF t sub not body] t show ?thesis by auto
qed

end
