(* ===== verification/Phase_View.thy ===== *)
theory Phase_View
  imports Draft_View Roadmap
begin

text \<open>
  The \<open>phase\<close> and \<open>phase_detail\<close> views (\<open>baley-core/src/scope/phase.rs\<close>): one document per declared
  phase, and one per declaration that says whether this project purged its detail.  The phase a number
  has is proved to be its latest declaration, withdrawn exactly when it was withdrawn since, and a
  declaration's detail to be marked exactly when the project released it.
\<close>

section \<open>Phases\<close>

definition phase_view :: string where "phase_view = ''phase''"

definition phase_spec :: view_spec where
  "phase_spec =
     \<lparr>vs_name = phase_view, vs_version = 3, vs_key = [(''number'', FInteger)],
      vs_indexes = [\<lparr>ix_name = ''by_status'', ix_fields = [(''status'', FText, Ascending), (''number'', FInteger, Ascending)]\<rparr>],
      vs_page_bound = 100\<rparr>"

definition phase_key :: "u32 \<Rightarrow> doc_key" where
  "phase_key n = [KInteger (uint n)]"

definition declared_number :: "json \<Rightarrow> u32 option" where
  "declared_number v = Option.bind (jget ''number'' v) as_u32"

definition phase_keys :: "event \<Rightarrow> doc_key list" where
  "phase_keys e = (case declared_number (payload e) of None \<Rightarrow> [] | Some n \<Rightarrow> [phase_key n])"

definition phase_fault :: "event \<Rightarrow> string" where
  "phase_fault e = draft_refuse e ''a member is missing or of the wrong type''"

definition declared_document :: "event \<Rightarrow> (string \<times> json) list \<Rightarrow> u32 \<Rightarrow> json option" where
  "declared_document e m n = do {
     detail \<leftarrow> Option.bind (map_of m ''detail'') ref_from_value;
     name \<leftarrow> pay_text m ''name'';
     goal \<leftarrow> pay_text m ''goal'';
     depends_on \<leftarrow> pay_wholes m ''depends_on'';
     stories \<leftarrow> pay_wholes m ''stories'';
     submission \<leftarrow> pay_text m ''submission'';
     Some (jobj [(''number'', jnum32 n), (''name'', JString name), (''goal'', JString goal),
       (''detail'', JString (to_hex (pr_hash detail))), (''depends_on'', JArray (map jnum depends_on)),
       (''stories'', JArray (map jnum stories)), (''status'', JString ''declared''), (''submission'', JString submission),
       (''declared_at'', JString (recorded_at e)), (''declared_seq'', jnum (seq e))]) }"

definition phase_apply :: "event \<Rightarrow> (doc_key \<times> json) list \<Rightarrow> projector_error + change list" where
  "phase_apply e documents =
     (case payload e of
        JObject m \<Rightarrow>
          rbind (ok_or (phase_fault e) (declared_number (payload e))) (\<lambda>n.
            if type_name e = phase_withdrawn then
              (case documents of
                 (key, JObject document) # _ \<Rightarrow> Inr [Put key (JObject (ains ''status'' (JString ''withdrawn'') document))]
               | _ \<Rightarrow> Inl (draft_refuse e ''the withdrawn phase has no document''))
            else rbind (ok_or (phase_fault e) (declared_document e m n)) (\<lambda>document. Inr [Put (phase_key n) document]))
      | _ \<Rightarrow> Inl (draft_refuse e ''the payload is not an object''))"

definition phase_projector :: projector where
  "phase_projector =
     \<lparr>p_spec = phase_spec, p_handles = [phase_declared, phase_withdrawn], p_keys = phase_keys, p_apply = phase_apply\<rparr>"

section \<open>Details\<close>

definition phase_detail_view :: string where "phase_detail_view = ''phase_detail''"

definition phase_detail_spec :: view_spec where
  "phase_detail_spec =
     \<lparr>vs_name = phase_detail_view, vs_version = 1, vs_key = [(''seq'', FInteger)], vs_indexes = [], vs_page_bound = 100\<rparr>"

text \<open>The code's \<open>i64::try_from(seq).expect\<close> panics from \<open>2 ^ 63\<close> on, where this key is still one: a
  projector is only run on events whose payload is canonical, and \<open>purge_sequences_fit\<close> shows the
  sequences of a canonical purge to be below it.\<close>

definition phase_detail_key :: "u64 \<Rightarrow> doc_key" where
  "phase_detail_key n = [KInteger (uint n)]"

definition phase_detail_keys :: "event \<Rightarrow> doc_key list" where
  "phase_detail_keys e =
     (if type_name e \<noteq> payload_purged then []
      else (case purged_from_value (payload e) of
              None \<Rightarrow> []
            | Some purge \<Rightarrow> remdups_adj (map (\<lambda>(n, _). phase_detail_key n) (pe_released purge))))"

definition phase_detail_apply :: "event \<Rightarrow> (doc_key \<times> json) list \<Rightarrow> projector_error + change list" where
  "phase_detail_apply e documents =
     (if type_name e = payload_purged then
        (case purged_from_value (payload e) of
           None \<Rightarrow> Inl (draft_refuse e ''the purge payload cannot be read'')
         | Some purge \<Rightarrow> Inr (mark_purged purge documents))
      else
        (let fault = draft_refuse e ''the number or detail is missing or of the wrong type'' in
         rbind (ok_or fault (declared_number (payload e))) (\<lambda>n.
         rbind (ok_or fault (Option.bind (jget ''detail'' (payload e)) ref_from_value)) (\<lambda>detail.
           Inr [Put (phase_detail_key (seq e))
                 (jobj [(''seq'', jnum (seq e)), (''number'', jnum32 n), (''hash'', JString (to_hex (pr_hash detail)))])]))))"

definition phase_detail_projector :: projector where
  "phase_detail_projector =
     \<lparr>p_spec = phase_detail_spec, p_handles = [phase_declared, payload_purged], p_keys = phase_detail_keys,
      p_apply = phase_detail_apply\<rparr>"

lemma safe_whole: "numbers_safe v \<Longrightarrow> as_u64 v = Some n \<Longrightarrow> unat n < 2 ^ 63"
proof (cases v)
  case (JNumber t)
  assume safe: "numbers_safe v" and n: "as_u64 v = Some n"
  then obtain i where i: "parse_i64 t = Some i" "i \<le> max_safe_integer" using JNumber by (auto split: option.splits)
  have "i = int (unat n)" using parse_u64_i64 [of t n i] i(1) n JNumber by simp
  with i(2) have "int (unat n) \<le> 2 ^ 53 - 1" by (simp only: max_safe_integer_def)
  moreover have "(2 :: int) ^ 53 - 1 = 9007199254740991" by simp
  ultimately have "unat n < 9223372036854775808" by linarith
  then show ?thesis by simp
qed auto

lemma safe_member: "numbers_safe v \<Longrightarrow> jget name v = Some w \<Longrightarrow> numbers_safe w"
proof (cases v)
  case (JObject m)
  assume "numbers_safe v" "jget name v = Some w"
  with JObject have "(name, w) \<in> set m" "\<forall>p \<in> set m. numbers_safe (snd p)" by (auto dest: map_of_SomeD)
  then show ?thesis by force
qed auto

lemma purge_sequences_fit:
  assumes "numbers_safe v" "purged_from_value v = Some purge" "(n, h) \<in> set (pe_released purge)"
  shows "unat n < 2 ^ 63"
proof -
  from assms(2) obtain w items where w: "jget ''released'' v = Some w" "as_array w = Some items"
    "those (map released_from items) = Some (pe_released purge)"
    by (auto simp: purged_from_value_def bind_eq_Some_conv)
  have "list_all2 (\<lambda>x y. released_from x = Some y) items (pe_released purge)" using w(3) by (simp add: those_map_Some_iff)
  moreover obtain k where "k < length (pe_released purge)" "pe_released purge ! k = (n, h)"
    using assms(3) by (auto simp: in_set_conv_nth)
  ultimately have item: "items ! k \<in> set items" "released_from (items ! k) = Some (n, h)"
    by (auto simp: list_all2_conv_all_nth)
  have "numbers_safe (items ! k)" using safe_member [OF assms(1) w(1)] w(2) item(1) by (cases w) auto
  moreover from item(2) obtain xs where "items ! k = JArray xs" "length xs = 2" "as_u64 (xs ! 0) = Some n"
    by (cases "items ! k") (auto simp: released_from_def bind_eq_Some_conv split: if_splits)
  ultimately show ?thesis using safe_whole [of "xs ! 0" n] by simp
qed

section \<open>The phase a number has\<close>

definition withdrawn_document :: "json \<Rightarrow> json" where
  "withdrawn_document document = jset ''status'' (JString ''withdrawn'') document"

definition phase_step :: "u32 \<Rightarrow> json option \<Rightarrow> event \<Rightarrow> json option" where
  "phase_step n document e =
     (if type_name e \<in> {phase_declared, phase_withdrawn} \<and> declared_number (payload e) = Some n then
        (if type_name e = phase_withdrawn then map_option withdrawn_document document
         else (case payload e of JObject m \<Rightarrow> declared_document e m n | _ \<Rightarrow> None))
      else document)"

definition phases_read :: "(doc_key \<Rightarrow> json option) \<Rightarrow> (u32 \<Rightarrow> json option) \<Rightarrow> bool" where
  "phases_read read m \<longleftrightarrow> (\<forall>n. read (phase_key n) = m n)"

lemma phase_key_inject [simp]: "phase_key a = phase_key b \<longleftrightarrow> a = b"
  by (simp add: phase_key_def word_uint_eq_iff)

lemma phase_types [simp]: "phase_declared \<noteq> phase_withdrawn" "phase_withdrawn \<noteq> phase_declared" "phase_declared \<noteq> payload_purged"
  "payload_purged \<noteq> phase_declared"
  by (simp_all add: phase_declared_def phase_withdrawn_def payload_purged_def)

lemma fold_event_phases:
  assumes "fold_event phase_projector table e s = Inr u" "phases_read (doc_read table s) m"
  shows "phases_read (doc_read table u) (\<lambda>n. phase_step n (m n) e)"
proof (cases "type_name e \<in> set (p_handles phase_projector)")
  case False
  with assms show ?thesis by (simp add: fold_event_def phase_projector_def phase_step_def)
next
  case True
  then have type: "type_name e \<in> {phase_declared, phase_withdrawn}" by (simp add: phase_projector_def)
  obtain cs where cs: "phase_apply e (documents_at table s (phase_keys e)) = Inr cs" "u = foldl (stage (seq e)) s cs"
    by (rule fold_event_handled [OF assms(1) True]) (simp add: phase_projector_def)
  have held: "doc_read table s (phase_key n) = m n" for n using assms(2) by (simp add: phases_read_def)
  from cs(1) obtain p n where p: "payload e = JObject p" "declared_number (payload e) = Some n"
    by (auto simp: phase_apply_def result_simps split: json.splits)
  have docs: "documents_at table s (phase_keys e) = (case m n of None \<Rightarrow> [] | Some d \<Rightarrow> [(phase_key n, d)])"
    using held [of n] by (simp add: phase_keys_def p(2) documents_at_def List.map_filter_simps split: option.split)
  show ?thesis
  proof (cases "type_name e = phase_withdrawn")
    case True
    from cs(1) obtain d where "m n = Some (JObject d)" "cs = [Put (phase_key n) (JObject (ains ''status'' (JString ''withdrawn'') d))]"
      by (auto simp: phase_apply_def p(1) p(2) [unfolded p(1)] True docs [unfolded] split: list.splits option.splits json.splits)
    then show ?thesis using type True
      by (simp add: phases_read_def cs(2) held phase_step_def p(2) withdrawn_document_def)
  next
    case False
    with cs(1) obtain d where "declared_document e p n = Some d" "cs = [Put (phase_key n) d]"
      by (auto simp: phase_apply_def p(1) p(2) [unfolded p(1)] result_simps)
    then show ?thesis using type False
      by (simp add: phases_read_def cs(2) held phase_step_def p(1) p(2) [unfolded p(1)])
  qed
qed

theorem phase_view_exact:
  assumes "project_events phase_projector Map.empty es = Inr table"
  shows "map_option doc_body (table (phase_key n)) = foldl (phase_step n) None es"
proof -
  have start: "phases_read (\<lambda>k. map_option doc_body (Map.empty k)) (\<lambda>n. None)" by (simp add: phases_read_def)
  have "phases_read (\<lambda>k. map_option doc_body (table k)) (foldl (\<lambda>m e n. phase_step n (m n) e) (\<lambda>n. None) es)"
    by (rule projected_keeps [where R = phases_read, OF fold_event_phases assms start])
  then show ?thesis by (simp add: phases_read_def fold_pointwise)
qed

section \<open>The detail of a declaration\<close>

definition detail_document :: "event \<Rightarrow> json option" where
  "detail_document e = do {
     n \<leftarrow> declared_number (payload e);
     detail \<leftarrow> Option.bind (jget ''detail'' (payload e)) ref_from_value;
     Some (jobj [(''seq'', jnum (seq e)), (''number'', jnum32 n), (''hash'', JString (to_hex (pr_hash detail)))]) }"

definition detail_step :: "u64 \<Rightarrow> json option \<Rightarrow> event \<Rightarrow> json option" where
  "detail_step n document e =
     (if type_name e = phase_declared then (if seq e = n then detail_document e else document)
      else if type_name e = payload_purged then
        (case purged_from_value (payload e) of
           None \<Rightarrow> document
         | Some purge \<Rightarrow> map_option (\<lambda>d. if n \<in> fst ` set (pe_released purge)
             then (case mark_document purge d of None \<Rightarrow> d | Some b \<Rightarrow> b) else d) document)
      else document)"

definition details_read :: "(doc_key \<Rightarrow> json option) \<Rightarrow> (u64 \<Rightarrow> json option) \<Rightarrow> bool" where
  "details_read read m \<longleftrightarrow> (\<forall>n. read (phase_detail_key n) = m n)"

lemma phase_detail_key_inject [simp]: "phase_detail_key a = phase_detail_key b \<longleftrightarrow> a = b"
  by (simp add: phase_detail_key_def word_uint_eq_iff)

lemma fold_event_details:
  assumes "fold_event phase_detail_projector table e s = Inr u" "details_read (doc_read table s) m"
  shows "details_read (doc_read table u) (\<lambda>n. detail_step n (m n) e)"
proof (cases "type_name e \<in> set (p_handles phase_detail_projector)")
  case False
  with assms show ?thesis by (simp add: fold_event_def phase_detail_projector_def detail_step_def)
next
  case True
  obtain cs where cs: "phase_detail_apply e (documents_at table s (phase_detail_keys e)) = Inr cs" "u = foldl (stage (seq e)) s cs"
    by (rule fold_event_handled [OF assms(1) True]) (simp add: phase_detail_projector_def)
  have held: "doc_read table s (phase_detail_key n) = m n" for n using assms(2) by (simp add: details_read_def)
  show ?thesis
  proof (cases "type_name e = payload_purged")
    case False
    with True have declared: "type_name e = phase_declared" by (simp add: phase_detail_projector_def)
    from cs(1) False obtain d where "detail_document e = Some d" "cs = [Put (phase_detail_key (seq e)) d]"
      by (auto simp: phase_detail_apply_def detail_document_def result_simps bind_eq_Some_conv Let_def)
    then show ?thesis by (simp add: details_read_def cs(2) held detail_step_def declared)
  next
    case purged: True
    with cs(1) obtain purge where p: "purged_from_value (payload e) = Some purge"
      "cs = mark_purged purge (documents_at table s (phase_detail_keys e))"
      by (auto simp: phase_detail_apply_def split: option.splits)
    have keys: "phase_detail_key n \<in> set (phase_detail_keys e) \<longleftrightarrow> n \<in> fst ` set (pe_released purge)" for n
      by (force simp: phase_detail_keys_def purged p(1))
    show ?thesis
      unfolding details_read_def cs(2) p(2) read_marked
      by (auto simp: held keys detail_step_def purged p(1) split: option.split)
  qed
qed

theorem phase_detail_exact:
  assumes "project_events phase_detail_projector Map.empty es = Inr table"
  shows "map_option doc_body (table (phase_detail_key n)) = foldl (detail_step n) None es"
proof -
  have start: "details_read (\<lambda>k. map_option doc_body (Map.empty k)) (\<lambda>n. None)" by (simp add: details_read_def)
  have "details_read (\<lambda>k. map_option doc_body (table k)) (foldl (\<lambda>m e n. detail_step n (m n) e) (\<lambda>n. None) es)"
    by (rule projected_keeps [where R = details_read, OF fold_event_details assms start])
  then show ?thesis by (simp add: details_read_def fold_pointwise)
qed

end
