(* ===== verification/Scope_Approval.thy ===== *)
theory Scope_Approval
  imports Scope_Kinds
begin

text \<open>
  The judgement of an approval by digest, of a start or of a change, from
  \<open>baley-core/src/scope/approval.rs\<close>: which drafts are unknown, approved before or stale, and the walk
  that names the first part in which two drafts differ.  The code expects the walk to find one whenever
  the digests differ; the model returns \<open>None\<close> where it would panic, and the lemmas show that on accepted
  drafts it never does, because an accepted draft holds exactly the members the walk looks at.
\<close>

section \<open>What differs\<close>

text \<open>\<open>value[name]\<close>: null when the value has no such member.\<close>

definition at_member :: "json \<Rightarrow> string \<Rightarrow> json" where
  "at_member v name = (case jget name v of None \<Rightarrow> JNull | Some w \<Rightarrow> w)"

definition items :: "json \<Rightarrow> json list" where
  "items v = (case as_array v of None \<Rightarrow> [] | Some xs \<Rightarrow> xs)"

fun list_difference :: "(string \<Rightarrow> json \<Rightarrow> json \<Rightarrow> string option) \<Rightarrow> string \<Rightarrow> nat \<Rightarrow> json list \<Rightarrow> json list \<Rightarrow> string option" where
  "list_difference each path n [] [] = None"
| "list_difference each path n (x # xs) (y # ys) =
     (case each (indexed path n) x y of Some p \<Rightarrow> Some p | None \<Rightarrow> list_difference each path (n + 1) xs ys)"
| "list_difference each path n _ _ = Some (indexed path n)"

lemma list_difference_cong [fundef_cong]:
  assumes "xs = xs'" "ys = ys'" "path = path'" "n = n'"
    "\<And>p x y. x \<in> set xs' \<Longrightarrow> y \<in> set ys' \<Longrightarrow> each p x y = each' p x y"
  shows "list_difference each path n xs ys = list_difference each' path' n' xs' ys'"
  using assms(5) unfolding assms(1-4)
  by (induction each path' n' xs' ys' rule: list_difference.induct) (auto split: option.split)

fun leaf :: "string \<Rightarrow> json \<Rightarrow> json \<Rightarrow> string option" where
  "leaf path (JArray xs) b =
     (case b of JArray ys \<Rightarrow> list_difference leaf path 0 xs ys | _ \<Rightarrow> Some path)"
| "leaf path a b = (if a \<noteq> b then Some path else None)"

fun first_some :: "('a \<Rightarrow> 'b option) \<Rightarrow> 'a list \<Rightarrow> 'b option" where
  "first_some f [] = None"
| "first_some f (x # xs) = (case f x of Some y \<Rightarrow> Some y | None \<Rightarrow> first_some f xs)"

definition members_difference :: "string \<Rightarrow> json \<Rightarrow> json \<Rightarrow> string list \<Rightarrow> string option" where
  "members_difference path a b names = first_some (\<lambda>name. leaf (path @ ''.'' @ name) (at_member a name) (at_member b name)) names"

definition entries_difference :: "string \<Rightarrow> json \<Rightarrow> json \<Rightarrow> string list \<Rightarrow> string option" where
  "entries_difference path a b names = list_difference (\<lambda>path x y. members_difference path x y names) path 0 (items a) (items b)"

definition or_else :: "'a option \<Rightarrow> 'a option \<Rightarrow> 'a option" where
  "or_else x y = (case x of None \<Rightarrow> y | Some _ \<Rightarrow> x)"

definition first_difference :: "submission \<Rightarrow> submission \<Rightarrow> string option" where
  "first_difference a b =
     or_else (members_difference ''description'' (at_member (sb_value a) ''description'') (at_member (sb_value b) ''description'')
       description_member_names)
     (or_else (entries_difference ''stories'' (at_member (sb_value a) ''stories'') (at_member (sb_value b) ''stories'') story_members)
       (entries_difference ''roadmap'' (at_member (sb_value a) ''roadmap'') (at_member (sb_value b) ''roadmap'') phase_members))"

definition change_difference :: "change_submission \<Rightarrow> change_submission \<Rightarrow> string option" where
  "change_difference a b =
     first_some (\<lambda>name.
       if name = ''decisions'' then entries_difference name (at_member (cs_value a) name) (at_member (cs_value b) name) decision_members
       else leaf name (at_member (cs_value a) name) (at_member (cs_value b) name))
     (kind_members (kind_of_change (cs_change a)))"

section \<open>The judgement of an approval\<close>

datatype approval_refusal = ApprovalUnknownDraft | ProjectAlreadyStarted | ApprovalStaleDraft string

fun approval_refusal_code :: "approval_refusal \<Rightarrow> string" where
  "approval_refusal_code ApprovalUnknownDraft = ''unknown-draft''"
| "approval_refusal_code ProjectAlreadyStarted = ''project-already-started''"
| "approval_refusal_code (ApprovalStaleDraft _) = ''stale-draft''"

record approval_facts =
  af_target :: "submission option"
  af_recorded :: bool
  af_started :: bool
  af_newest :: "submission option"

definition judge_approval :: "approval_facts \<Rightarrow> (approval_refusal + unit) option" where
  "judge_approval f =
     (case (if af_recorded f then af_target f else None) of
        None \<Rightarrow> Some (Inl ApprovalUnknownDraft)
      | Some target \<Rightarrow>
          if af_started f then Some (Inl ProjectAlreadyStarted)
          else (case af_newest f of
                  None \<Rightarrow> Some (Inl ApprovalUnknownDraft)
                | Some newest \<Rightarrow>
                    if sb_digest newest = sb_digest target then Some (Inr ())
                    else map_option (\<lambda>path. Inl (ApprovalStaleDraft path)) (first_difference target newest)))"

datatype change_approval_refusal = ChangeUnknownDraft | DraftApproved string string | ChangeStaleDraft string

fun change_approval_refusal_code :: "change_approval_refusal \<Rightarrow> string" where
  "change_approval_refusal_code ChangeUnknownDraft = ''unknown-draft''"
| "change_approval_refusal_code (DraftApproved _ _) = ''draft-approved''"
| "change_approval_refusal_code (ChangeStaleDraft _) = ''stale-draft''"

fun change_approval_details :: "change_approval_refusal \<Rightarrow> json option" where
  "change_approval_details ChangeUnknownDraft = None"
| "change_approval_details (DraftApproved owner at') = Some (jobj [(''owner'', JString owner), (''at'', JString at')])"
| "change_approval_details (ChangeStaleDraft path) = Some (jobj [(''path'', JString path)])"

record prior_approval =
  pa_owner :: string
  pa_at :: string

record change_approval_facts =
  caf_target :: "change_submission option"
  caf_recorded :: bool
  caf_approved :: "prior_approval option"
  caf_newest :: "change_submission option"

definition judge_change_approval :: "change_approval_facts \<Rightarrow> (change_approval_refusal + unit) option" where
  "judge_change_approval f =
     (case (if caf_recorded f then caf_target f else None) of
        None \<Rightarrow> Some (Inl ChangeUnknownDraft)
      | Some target \<Rightarrow>
          (case caf_newest f of
             None \<Rightarrow> Some (Inl ChangeUnknownDraft)
           | Some newest \<Rightarrow>
               (case caf_approved f of
                  Some approved \<Rightarrow> Some (Inl (DraftApproved (pa_owner approved) (pa_at approved)))
                | None \<Rightarrow>
                    if cs_digest newest = cs_digest target then Some (Inr ())
                    else map_option (\<lambda>path. Inl (ChangeStaleDraft path)) (change_difference target newest))))"

section \<open>No difference is equality\<close>

lemma list_difference_None:
  "list_difference each path n xs ys = None \<longleftrightarrow>
     length xs = length ys \<and> (\<forall>i < length xs. each (indexed path (n + i)) (xs ! i) (ys ! i) = None)"
proof (induction each path n xs ys rule: list_difference.induct)
  case (2 each path n x xs y ys)
  then show ?case by (auto simp: All_less_Suc2 split: option.split)
qed auto

lemma leaf_None [simp]: "leaf path a b = None \<longleftrightarrow> a = b"
proof (induction path a b rule: leaf.induct)
  case (1 path xs b)
  show ?case
  proof (cases b)
    case (JArray ys)
    have each: "leaf p x y = None \<longleftrightarrow> x = y" if "x \<in> set xs" "y \<in> set ys" for p x y
      by (rule "1.IH" [OF JArray that])
    have "list_difference leaf path 0 xs ys = None \<longleftrightarrow> xs = ys"
      unfolding list_difference_None list_eq_iff_nth_eq
    proof (rule conj_cong [OF refl])
      assume len: "length xs = length ys"
      have "leaf (indexed path (0 + i)) (xs ! i) (ys ! i) = None \<longleftrightarrow> xs ! i = ys ! i" if "i < length xs" for i
        by (rule each) (use that len in simp_all)
      then show "(\<forall>i < length xs. leaf (indexed path (0 + i)) (xs ! i) (ys ! i) = None) \<longleftrightarrow> (\<forall>i < length xs. xs ! i = ys ! i)" by blast
    qed
    then show ?thesis by (simp add: JArray)
  qed auto
qed auto

lemma first_some_None: "first_some f xs = None \<longleftrightarrow> (\<forall>x \<in> set xs. f x = None)"
  by (induction xs) (auto split: option.split)

lemma members_difference_None:
  "members_difference path a b names = None \<longleftrightarrow> (\<forall>name \<in> set names. at_member a name = at_member b name)"
  by (simp add: members_difference_def first_some_None)

lemma entries_difference_None:
  "entries_difference path a b names = None \<longleftrightarrow>
     list_all2 (\<lambda>x y. \<forall>name \<in> set names. at_member x name = at_member y name) (items a) (items b)"
  by (auto simp: entries_difference_def list_difference_None members_difference_None list_all2_conv_all_nth)

text \<open>Two objects that hold exactly the named members are equal when those are.\<close>

definition exact_members :: "string list \<Rightarrow> json \<Rightarrow> bool" where
  "exact_members names v \<longleftrightarrow> json_wf v \<and> (\<exists>m. v = JObject m \<and> fst ` set m = set names)"

lemma exact_members_eq:
  assumes "exact_members names a" "exact_members names b" "\<forall>name \<in> set names. at_member a name = at_member b name"
  shows "a = b"
proof -
  from assms(1,2) obtain m n where mn: "a = JObject m" "b = JObject n" "akeys_sorted m" "akeys_sorted n" "fst ` set m = set names"
    "fst ` set n = set names" by (auto simp: exact_members_def)
  have "map_of m k = map_of n k" for k
  proof (cases "k \<in> set names")
    case True
    with mn(5,6) obtain x y where "map_of m k = Some x" "map_of n k = Some y" by (metis domIff dom_map_of_conv_image_fst option.exhaust)
    with assms(3) True mn show ?thesis by (auto simp: at_member_def)
  next
    case False
    with mn(5,6) show ?thesis by (metis map_of_eq_None_iff)
  qed
  then show ?thesis using sorted_maps_eq mn by blast
qed

lemma exact_entries_eq:
  assumes "list_all (exact_members names) xs" "list_all (exact_members names) ys"
    "list_all2 (\<lambda>x y. \<forall>name \<in> set names. at_member x name = at_member y name) xs ys"
  shows "xs = ys"
  using assms(3,1,2) by (induction rule: list_all2_induct) (auto dest: exact_members_eq)

section \<open>Accepted starts hold exactly their members\<close>

lemma unknown_member_None: "unknown_member m names = None \<longleftrightarrow> fst ` set m \<subseteq> set names"
  by (auto simp: unknown_member_def filter_empty_conv)

lemma map_of_in: "map_of m k = Some v \<Longrightarrow> k \<in> fst ` set m"
  by (metis domI dom_map_of_conv_image_fst)

lemma exact_membersI:
  assumes "json_wf (JObject m)" "unknown_member m names = None" "\<And>name. name \<in> set names \<Longrightarrow> map_of m name \<noteq> None"
  shows "exact_members names (JObject m)"
proof -
  have "name \<in> fst ` set m" if "name \<in> set names" for name using assms(3) [OF that] map_of_in by fast
  with assms(1,2) show ?thesis by (auto simp: exact_members_def unknown_member_None)
qed

lemma judged_object_Inr: "judged_object v part field names = Inr m \<Longrightarrow> v = Some (JObject m) \<and> unknown_member m names = None"
  by (auto simp: judged_object_def split: option.splits json.splits)

lemma judged_text_Inr: "judged_text v part field = Inr t \<Longrightarrow> v \<noteq> None"
  by (cases v) (auto simp: judged_text_def)

lemma judged_list_Inr: "judged_list v part field = Inr xs \<Longrightarrow> v = Some (JArray xs)"
  by (auto simp: judged_list_def split: option.splits json.splits)

lemma judged_status_Inr: "judged_status v part field = Inr st \<Longrightarrow> v \<noteq> None"
  by (cases v) (auto simp: judged_status_def)

lemma judge_description_exact:
  assumes "judge_description v = Inr d" "v = Some w" "json_wf w"
  shows "exact_members description_member_names w"
proof -
  from assms(1) obtain m where m: "v = Some (JObject m)" "unknown_member m description_member_names = None"
    "description_members m (Some ''description'') = Inr d"
    by (auto simp: judge_description_def result_simps dest!: judged_object_Inr)
  from m(3) have "map_of m ''what'' \<noteq> None" "map_of m ''core_value'' \<noteq> None" "map_of m ''constraints'' \<noteq> None"
    by (auto simp: description_members_def described_text_def described_path_def result_simps dest!: judged_text_Inr judged_list_Inr)
  with m assms(2,3) show ?thesis by (auto intro!: exact_membersI simp: description_member_names_def)
qed

lemma judge_story_exact: "judge_story labels n entry = Inr s \<Longrightarrow> json_wf entry \<Longrightarrow> exact_members story_members entry"
  by (auto simp: judge_story_def Let_def result_simps story_members_def split: if_splits
      dest!: judged_object_Inr judged_text_Inr judged_status_Inr intro!: exact_membersI)

lemma judge_stories_exact:
  "judge_stories_from labels n entries = Inr ss \<Longrightarrow> \<forall>e \<in> set entries. json_wf e \<Longrightarrow> list_all (exact_members story_members) entries"
  by (induction labels n entries arbitrary: ss rule: judge_stories_from.induct) (auto simp: result_simps dest: judge_story_exact)

lemma judge_phase_exact: "judge_phase stories many n entry = Inr p \<Longrightarrow> json_wf entry \<Longrightarrow> exact_members phase_members entry"
  by (auto simp: judge_phase_def Let_def result_simps phase_members_def
      dest!: judged_object_Inr judged_text_Inr judged_list_Inr intro!: exact_membersI)

lemma judge_phases_exact:
  "judge_phases_from stories many n entries = Inr ps \<Longrightarrow> \<forall>e \<in> set entries. json_wf e \<Longrightarrow> list_all (exact_members phase_members) entries"
  by (induction stories many n entries arbitrary: ps rule: judge_phases_from.induct) (auto simp: result_simps dest: judge_phase_exact)

lemma json_wf_member: "json_wf (JObject m) \<Longrightarrow> map_of m k = Some v \<Longrightarrow> json_wf v"
  by (auto dest!: map_of_SomeD)

lemma judge_submission_parts:
  assumes "judge_submission sha v = Some (Inr sub)" "json_wf v"
  obtains m ss ps where "v = JObject m" "exact_members root_members v"
    "exact_members description_member_names (at_member v ''description'')"
    "at_member v ''stories'' = JArray ss" "list_all (exact_members story_members) ss"
    "at_member v ''roadmap'' = JArray ps" "list_all (exact_members phase_members) ps"
    "sb_value sub = v" "request_digest sha v = Inr (sb_digest sub)"
proof -
  from assms(1) obtain m where m: "v = JObject m" "unknown_member m root_members = None"
    by (cases v) (auto simp: judge_submission_def split: option.splits)
  from assms(1) obtain d ss ps where j: "judge_description (map_of m ''description'') = Inr d"
    "judge_stories (map_of m ''stories'') = Inr ss" "judge_roadmap (map_of m ''roadmap'') ss = Inr ps"
    "sb_value sub = v" "request_digest sha v = Inr (sb_digest sub)"
    by (auto simp: m judge_submission_def result_simps bind_eq_Some_conv split: option.splits sum.split_asm if_split_asm)
  from j(2) obtain es where es: "map_of m ''stories'' = Some (JArray es)" "judge_stories_from [] 0 es = Inr ss"
    by (auto simp: judge_stories_def result_simps split: if_splits dest!: judged_list_Inr)
  from j(3) obtain fs where fs: "map_of m ''roadmap'' = Some (JArray fs)" "judge_phases_from ss (length fs) 0 fs = Inr ps"
    by (auto simp: judge_roadmap_def result_simps split: if_splits dest!: judged_list_Inr)
  obtain w where w: "map_of m ''description'' = Some w"
    using j(1) by (auto simp: judge_description_def result_simps dest!: judged_object_Inr)
  have wf: "json_wf (JArray es)" "json_wf (JArray fs)" "json_wf w"
    using json_wf_member [OF assms(2) [unfolded m(1)]] es(1) fs(1) w by blast+
  show ?thesis
  proof (rule that [OF m(1)])
    show "exact_members root_members v"
      unfolding m(1) by (rule exact_membersI) (use assms(2) m es(1) fs(1) w in \<open>auto simp: root_members_def\<close>)
    show "exact_members description_member_names (at_member v ''description'')"
      using judge_description_exact [OF j(1) w wf(3)] w by (simp add: m(1) at_member_def)
    show "list_all (exact_members story_members) es" using judge_stories_exact [OF es(2)] wf(1) by simp
    show "list_all (exact_members phase_members) fs" using judge_phases_exact [OF fs(2)] wf(2) by simp
  qed (use es(1) fs(1) j(4,5) in \<open>simp_all add: m(1) at_member_def\<close>)
qed

lemma or_else_None [simp]: "or_else x y = None \<longleftrightarrow> x = None \<and> y = None"
  by (auto simp: or_else_def split: option.split)

lemma start_difference:
  assumes "judge_submission sha v = Some (Inr a)" "json_wf v" "judge_submission sha w = Some (Inr b)" "json_wf w"
    "sb_digest a \<noteq> sb_digest b"
  shows "first_difference a b \<noteq> None"
proof
  assume none: "first_difference a b = None"
  obtain ss ps where A: "exact_members root_members v" "exact_members description_member_names (at_member v ''description'')"
    "at_member v ''stories'' = JArray ss" "list_all (exact_members story_members) ss"
    "at_member v ''roadmap'' = JArray ps" "list_all (exact_members phase_members) ps"
    "sb_value a = v" "request_digest sha v = Inr (sb_digest a)" by (rule judge_submission_parts [OF assms(1,2)])
  obtain ss' ps' where B: "exact_members root_members w" "exact_members description_member_names (at_member w ''description'')"
    "at_member w ''stories'' = JArray ss'" "list_all (exact_members story_members) ss'"
    "at_member w ''roadmap'' = JArray ps'" "list_all (exact_members phase_members) ps'"
    "sb_value b = w" "request_digest sha w = Inr (sb_digest b)" by (rule judge_submission_parts [OF assms(3,4)])
  from none have N: "\<forall>name \<in> set description_member_names. at_member (at_member v ''description'') name = at_member (at_member w ''description'') name"
    "list_all2 (\<lambda>x y. \<forall>name \<in> set story_members. at_member x name = at_member y name) ss ss'"
    "list_all2 (\<lambda>x y. \<forall>name \<in> set phase_members. at_member x name = at_member y name) ps ps'"
    by (simp_all add: first_difference_def A B members_difference_None entries_difference_None items_def)
  have "at_member v ''description'' = at_member w ''description''" by (rule exact_members_eq [OF A(2) B(2) N(1)])
  moreover have "ss = ss'" by (rule exact_entries_eq [OF A(4) B(4) N(2)])
  moreover have "ps = ps'" by (rule exact_entries_eq [OF A(6) B(6) N(3)])
  ultimately have "v = w" by (intro exact_members_eq [OF A(1) B(1)]) (simp add: root_members_def A(3,5) B(3,5))
  with A(8) B(8) assms(5) show False by simp
qed

section \<open>Accepted changes\<close>

text \<open>A member a change may leave out is never accepted as null, so an absent one and a null one
  differ.\<close>

fun left_out :: "change_kind \<Rightarrow> string list" where
  "left_out PhaseDeclareKind = [''position'']"
| "left_out PhaseEditKind = [''name'', ''goal'', ''detail'', ''depends_on'', ''stories'']"
| "left_out _ = []"

lemma judged_number_Inr: "judged_number v part field = Inr n \<Longrightarrow> v \<noteq> None \<and> v \<noteq> Some JNull"
  by (cases v) (auto simp: judged_number_def as_u32_def)

lemma number_or_null_Inr: "number_or_null v name = Inr n \<Longrightarrow> v \<noteq> None"
  by (cases v) (auto simp: number_or_null_def judged_number_def result_simps)

lemma distinct_member_Inr: "distinct_member v name = Inr ns \<Longrightarrow> v \<noteq> None \<and> v \<noteq> Some JNull"
  by (auto simp: distinct_member_def result_simps dest!: judged_list_Inr)

lemma text_member_Inr: "text_member m name = Inr t \<Longrightarrow> map_of m name \<noteq> None \<and> map_of m name \<noteq> Some JNull"
  by (cases "map_of m name") (auto simp: text_member_def judged_text_def)

lemma optional_member_Inr:
  "optional_member m name judge = Inr x \<Longrightarrow> (\<And>y. judge (Some JNull) = Inr y \<Longrightarrow> map_of m name \<noteq> Some JNull) \<Longrightarrow> map_of m name \<noteq> Some JNull"
  by (cases "map_of m name") (auto simp: optional_member_def result_simps)

lemma description_members_Inr: "description_members m within = Inr d \<Longrightarrow>
    map_of m ''what'' \<noteq> None \<and> map_of m ''core_value'' \<noteq> None \<and> map_of m ''constraints'' \<noteq> None"
  by (auto simp: description_members_def described_text_def result_simps split: prod.splits dest!: judged_text_Inr judged_list_Inr)

lemma optional_text_null: "optional_member m name (\<lambda>_. text_member m name) = Inr x \<Longrightarrow> map_of m name \<noteq> Some JNull"
  by (cases "map_of m name") (auto simp: optional_member_def result_simps dest: text_member_Inr)

lemma optional_distinct_null: "optional_member m name (\<lambda>v. distinct_member v name) = Inr x \<Longrightarrow> map_of m name \<noteq> Some JNull"
  by (cases "map_of m name") (auto simp: optional_member_def result_simps dest: distinct_member_Inr)

lemma optional_number_null: "optional_member m name (\<lambda>v. judged_number v a b) = Inr x \<Longrightarrow> map_of m name \<noteq> Some JNull"
  by (cases "map_of m name") (auto simp: optional_member_def result_simps dest: judged_number_Inr)

lemma change_members_present:
  assumes "change_members kind m = Inr c" "name \<in> set (kind_members kind)"
  shows "if name \<in> set (left_out kind) then map_of m name \<noteq> Some JNull else map_of m name \<noteq> None"
proof (cases kind)
  case ProjectDescribeKind
  with assms show ?thesis by (auto simp: result_simps description_member_names_def dest!: description_members_Inr)
next
  case PhaseDeclareKind
  with assms(1) obtain a b c ds ss p where j: "text_member m ''name'' = Inr a" "text_member m ''goal'' = Inr b"
    "text_member m ''detail'' = Inr c" "distinct_member (map_of m ''depends_on'') ''depends_on'' = Inr ds"
    "distinct_member (map_of m ''stories'') ''stories'' = Inr ss"
    "optional_member m ''position'' (\<lambda>v. judged_number v ''position'' ''position'') = Inr p"
    by (auto simp only: change_members.simps result_simps)
  have f: "map_of m ''name'' \<noteq> None" "map_of m ''goal'' \<noteq> None" "map_of m ''detail'' \<noteq> None" "map_of m ''depends_on'' \<noteq> None"
    "map_of m ''stories'' \<noteq> None" "map_of m ''position'' \<noteq> Some JNull"
    using j(1-3) [THEN text_member_Inr] j(4,5) [THEN distinct_member_Inr] optional_number_null [OF j(6)] by blast+
  from assms(2) PhaseDeclareKind have "name = ''name'' \<or> name = ''goal'' \<or> name = ''detail'' \<or> name = ''depends_on''
    \<or> name = ''stories'' \<or> name = ''position''" by simp
  with f PhaseDeclareKind show ?thesis by (elim disjE) simp_all
next
  case PhaseEditKind
  with assms(1) obtain n a b c ds ss where j: "judged_number (map_of m ''phase'') ''phase'' ''phase'' = Inr n"
    "optional_member m ''name'' (\<lambda>_. text_member m ''name'') = Inr a" "optional_member m ''goal'' (\<lambda>_. text_member m ''goal'') = Inr b"
    "optional_member m ''detail'' (\<lambda>_. text_member m ''detail'') = Inr c"
    "optional_member m ''depends_on'' (\<lambda>v. distinct_member v ''depends_on'') = Inr ds"
    "optional_member m ''stories'' (\<lambda>v. distinct_member v ''stories'') = Inr ss"
    by (auto simp only: change_members.simps judge_edit_def result_simps)
  have f: "map_of m ''phase'' \<noteq> None" "map_of m ''name'' \<noteq> Some JNull" "map_of m ''goal'' \<noteq> Some JNull" "map_of m ''detail'' \<noteq> Some JNull"
    "map_of m ''depends_on'' \<noteq> Some JNull" "map_of m ''stories'' \<noteq> Some JNull"
    using judged_number_Inr [OF j(1)] j(2-4) [THEN optional_text_null] j(5,6) [THEN optional_distinct_null] by blast+
  from assms(2) PhaseEditKind have "name = ''phase'' \<or> name = ''name'' \<or> name = ''goal'' \<or> name = ''detail'' \<or> name = ''depends_on''
    \<or> name = ''stories''" by simp
  with f PhaseEditKind show ?thesis by (elim disjE) simp_all
next
  case PhaseReorderKind
  with assms show ?thesis by (auto simp: result_simps order_member_def dest!: judged_list_Inr)
next
  case BacklogReorderKind
  with assms show ?thesis by (auto simp: result_simps order_member_def dest!: judged_list_Inr)
next
  case PhaseWithdrawKind
  with assms show ?thesis by (auto simp: result_simps decisions_member_def dest!: judged_list_Inr judged_number_Inr)
next
  case StoryDeclareKind
  with assms show ?thesis
    by (auto simp: result_simps judge_story_declare_def split: if_splits dest!: text_member_Inr judged_status_Inr number_or_null_Inr)
qed (use assms in \<open>auto simp: result_simps dest!: text_member_Inr number_or_null_Inr judged_number_Inr\<close>)

lemma judged_destination_Inr: "judged_destination v path = Inr to \<Longrightarrow> v \<noteq> None"
  by (auto simp: judged_destination_def result_simps split: if_splits dest!: judged_number_Inr)

lemma judged_decisions_exact:
  "judged_decisions decided n entries = Inr ds \<Longrightarrow> \<forall>e \<in> set entries. json_wf e \<Longrightarrow> list_all (exact_members decision_members) entries"
proof (induction entries arbitrary: decided n ds)
  case (Cons entry entries)
  from Cons.prems(1) obtain m story to ds' where m: "entry = JObject m" "unknown_member m decision_members = None"
    "judged_number (map_of m ''story'') ''decisions'' (indexed ''decisions'' n @ ''.story'') = Inr story"
    "judged_destination (map_of m ''to'') (indexed ''decisions'' n @ ''.to'') = Inr to"
    "judged_decisions (story # decided) (n + 1) entries = Inr ds'"
    by (auto simp: Let_def result_simps split: if_splits dest!: judged_object_Inr)
  have "exact_members decision_members entry"
    using Cons.prems(2) m(2) judged_number_Inr [OF m(3)] judged_destination_Inr [OF m(4)] unfolding m(1)
    by (intro exact_membersI) (auto simp: decision_members_def)
  with Cons.IH [OF m(5)] Cons.prems(2) show ?case by simp
qed simp

text \<open>Two accepted changes of one kind whose bodies differ differ in a member.\<close>

lemma judge_change_parts:
  assumes "judge_change sha kind v = Some (Inr c)" "json_wf v"
  obtains m where "v = JObject m" "akeys_sorted m" "unknown_member m (kind_members kind) = None" "change_members kind m = Inr (cs_change c)"
    "cs_value c = JObject (ains ''kind'' (JString (change_kind_str kind)) m)" "request_digest sha (cs_value c) = Inr (cs_digest c)"
  using assms by (auto simp: judge_change_def Let_def split: json.splits option.splits sum.splits)

lemma kind_no_member [simp]: "''kind'' \<notin> set (kind_members kind)"
  by (cases kind) (simp_all add: description_member_names_def)

lemma at_member_ains: "at_member (JObject (ains k v m)) name = (if name = k then v else at_member (JObject m) name)"
  by (simp add: at_member_def)

lemma present_members_eq:
  assumes "if name \<in> names then map_of m name \<noteq> Some JNull else map_of m name \<noteq> None"
    "if name \<in> names then map_of n name \<noteq> Some JNull else map_of n name \<noteq> None"
    "at_member (JObject m) name = at_member (JObject n) name"
  shows "map_of m name = map_of n name"
  using assms by (cases "map_of m name"; cases "map_of n name") (auto simp: at_member_def split: if_splits)

lemma decisions_parts:
  assumes "change_members PhaseWithdrawKind m = Inr c" "json_wf (JObject m)"
  obtains ds where "map_of m ''decisions'' = Some (JArray ds)" "list_all (exact_members decision_members) ds"
proof -
  from assms(1) obtain r where "decisions_member (map_of m ''decisions'') = Inr r" by (auto simp: result_simps)
  then obtain ds where ds: "map_of m ''decisions'' = Some (JArray ds)" "judged_decisions [] 0 ds = Inr r"
    by (auto simp: decisions_member_def result_simps dest!: judged_list_Inr)
  show ?thesis by (rule that [OF ds(1) judged_decisions_exact [OF ds(2)]]) (use json_wf_member [OF assms(2) ds(1)] in simp)
qed

lemma kind_decisions: "''decisions'' \<in> set (kind_members kind) \<longleftrightarrow> kind = PhaseWithdrawKind"
  by (cases kind) (simp_all add: description_member_names_def)

lemma change_no_difference:
  assumes "judge_change sha kind v = Some (Inr a)" "json_wf v" "judge_change sha kind w = Some (Inr b)" "json_wf w"
    "change_difference a b = None"
  shows "v = w"
proof -
  obtain m where A: "v = JObject m" "akeys_sorted m" "unknown_member m (kind_members kind) = None" "change_members kind m = Inr (cs_change a)"
    "cs_value a = JObject (ains ''kind'' (JString (change_kind_str kind)) m)" by (rule judge_change_parts [OF assms(1,2)])
  obtain n where B: "w = JObject n" "akeys_sorted n" "unknown_member n (kind_members kind) = None" "change_members kind n = Inr (cs_change b)"
    "cs_value b = JObject (ains ''kind'' (JString (change_kind_str kind)) n)" by (rule judge_change_parts [OF assms(3,4)])
  have same: "at_member (JObject m) name = at_member (JObject n) name" if "name \<in> set (kind_members kind)" for name
  proof (cases "name = ''decisions''")
    case True
    with that have withdraw: "kind = PhaseWithdrawKind" by (simp add: kind_decisions)
    obtain ds where ds: "map_of m ''decisions'' = Some (JArray ds)" "list_all (exact_members decision_members) ds"
      by (rule decisions_parts [OF A(4) [unfolded withdraw] assms(2) [unfolded A(1)]])
    obtain es where es: "map_of n ''decisions'' = Some (JArray es)" "list_all (exact_members decision_members) es"
      by (rule decisions_parts [OF B(4) [unfolded withdraw] assms(4) [unfolded B(1)]])
    have "list_all2 (\<lambda>x y. \<forall>name \<in> set decision_members. at_member x name = at_member y name) ds es"
      using assms(5) that True ds(1) es(1)
      by (auto simp: change_difference_def first_some_None A(5) B(5) change_members_kind [OF A(4)] at_member_ains entries_difference_None
          items_def at_member_def split: if_splits)
    with exact_entries_eq [OF ds(2) es(2)] ds(1) es(1) True show ?thesis by (simp add: at_member_def)
  next
    case False
    have "name \<noteq> ''kind''" using that kind_no_member by blast
    with False that assms(5) show ?thesis
      by (auto simp: change_difference_def first_some_None A(5) B(5) change_members_kind [OF A(4)] at_member_ains)
  qed
  have "map_of m k = map_of n k" for k
  proof (cases "k \<in> set (kind_members kind)")
    case True
    show ?thesis
      by (rule present_members_eq [OF change_members_present [OF A(4) True] change_members_present [OF B(4) True] same [OF True]])
  next
    case False
    with A(3) B(3) have "map_of m k = None" "map_of n k = None" by (auto simp: unknown_member_None map_of_eq_None_iff)
    then show ?thesis by simp
  qed
  then show ?thesis using sorted_maps_eq [OF A(2) B(2)] A(1) B(1) by blast
qed

section \<open>Where two drafts first differ\<close>

text \<open>The path of the first part in which two values differ, without the walk: \<open>differs_at p a b q\<close> when
  \<open>q\<close> is that path for values found at \<open>p\<close>, which is \<open>p\<close> itself unless both are lists.\<close>

inductive differs_at :: "string \<Rightarrow> json \<Rightarrow> json \<Rightarrow> string \<Rightarrow> bool" where
  differs_here: "a \<noteq> b \<Longrightarrow> as_array a = None \<or> as_array b = None \<Longrightarrow> differs_at p a b p"
| differs_entry: "i < length xs \<Longrightarrow> i < length ys \<Longrightarrow> take i xs = take i ys \<Longrightarrow> differs_at (indexed p i) (xs ! i) (ys ! i) q
    \<Longrightarrow> differs_at p (JArray xs) (JArray ys) q"
| differs_longer: "length xs \<noteq> length ys \<Longrightarrow> i = min (length xs) (length ys) \<Longrightarrow> take i xs = take i ys
    \<Longrightarrow> differs_at p (JArray xs) (JArray ys) (indexed p i)"

definition first_part :: "(string \<times> json \<times> json) list \<Rightarrow> string \<Rightarrow> bool" where
  "first_part parts q \<longleftrightarrow> (\<exists>k < length parts. (\<forall>(_, a, b) \<in> set (take k parts). a = b)
     \<and> (case parts ! k of (p, a, b) \<Rightarrow> differs_at p a b q))"

definition member_parts :: "string \<Rightarrow> json \<Rightarrow> json \<Rightarrow> string list \<Rightarrow> (string \<times> json \<times> json) list" where
  "member_parts path a b names = map (\<lambda>name. (path @ ''.'' @ name, at_member a name, at_member b name)) names"

definition same_members :: "string list \<Rightarrow> json \<Rightarrow> json \<Rightarrow> bool" where
  "same_members names a b \<longleftrightarrow> (\<forall>name \<in> set names. at_member a name = at_member b name)"

definition entries_differ :: "string \<Rightarrow> json list \<Rightarrow> json list \<Rightarrow> string list \<Rightarrow> string \<Rightarrow> bool" where
  "entries_differ path xs ys names q \<longleftrightarrow>
     (\<exists>i. list_all2 (same_members names) (take i xs) (take i ys)
        \<and> (i < length xs \<and> i < length ys \<and> first_part (member_parts (indexed path i) (xs ! i) (ys ! i) names) q
         \<or> i = min (length xs) (length ys) \<and> length xs \<noteq> length ys \<and> q = indexed path i))"

lemma ex_or_at: "(\<exists>i. P i \<and> (B i \<or> i = m \<and> D \<and> q = f i)) \<longleftrightarrow> (\<exists>i. P i \<and> B i) \<or> P m \<and> D \<and> q = f m"
  by blast

lemma ex_nat_split: "(\<exists>i. P i) \<longleftrightarrow> P 0 \<or> (\<exists>i. P (Suc i))"
  by (metis not0_implies_Suc)

lemma first_some_Some:
  "first_some f xs = Some q \<longleftrightarrow> (\<exists>k < length xs. (\<forall>x \<in> set (take k xs). f x = None) \<and> f (xs ! k) = Some q)"
proof (induction xs)
  case (Cons x xs)
  show ?case
    unfolding ex_nat_split [of "\<lambda>k. k < length (x # xs) \<and> (\<forall>y \<in> set (take k (x # xs)). f y = None) \<and> f ((x # xs) ! k) = Some q"]
    using Cons by (cases "f x") auto
qed simp

lemma list_difference_Some:
  "list_difference each path n xs ys = Some q \<longleftrightarrow>
     (\<exists>i. (\<forall>j < i. each (indexed path (n + j)) (xs ! j) (ys ! j) = None) \<and> i \<le> length xs \<and> i \<le> length ys
        \<and> (i < length xs \<and> i < length ys \<and> each (indexed path (n + i)) (xs ! i) (ys ! i) = Some q
         \<or> i = min (length xs) (length ys) \<and> length xs \<noteq> length ys \<and> q = indexed path (n + i)))"
proof (induction each path n xs ys rule: list_difference.induct)
  case (2 each path n x xs y ys)
  let ?r = "\<lambda>n xs ys i. (\<forall>j < i. each (indexed path (n + j)) (xs ! j) (ys ! j) = None) \<and> i \<le> length xs \<and> i \<le> length ys
        \<and> (i < length xs \<and> i < length ys \<and> each (indexed path (n + i)) (xs ! i) (ys ! i) = Some q
         \<or> i = min (length xs) (length ys) \<and> length xs \<noteq> length ys \<and> q = indexed path (n + i))"
  show ?case
    unfolding ex_nat_split [of "?r n (x # xs) (y # ys)"]
  proof (cases "each (indexed path n) x y")
    case None
    have "?r n (x # xs) (y # ys) (Suc i) \<longleftrightarrow> ?r (n + 1) xs ys i" for i
      using None by (simp add: All_less_Suc2)
    moreover have "\<not> ?r n (x # xs) (y # ys) 0" using None by simp
    moreover have "list_difference each path n (x # xs) (y # ys) = list_difference each path (n + 1) xs ys" using None by simp
    ultimately show "list_difference each path n (x # xs) (y # ys) = Some q \<longleftrightarrow>
        ?r n (x # xs) (y # ys) 0 \<or> (\<exists>i. ?r n (x # xs) (y # ys) (Suc i))" using 2 [OF None] by simp
  next
    case (Some p)
    then have "\<not> ?r n (x # xs) (y # ys) (Suc i)" for i by (simp add: All_less_Suc2)
    moreover have "?r n (x # xs) (y # ys) 0 \<longleftrightarrow> p = q" using Some by simp
    moreover have "list_difference each path n (x # xs) (y # ys) = Some p" using Some by simp
    ultimately show "list_difference each path n (x # xs) (y # ys) = Some q \<longleftrightarrow>
        ?r n (x # xs) (y # ys) 0 \<or> (\<exists>i. ?r n (x # xs) (y # ys) (Suc i))" by (simp only: option.inject) blast
  qed
qed auto

lemma differs_at_value:
  "differs_at p a b q \<Longrightarrow> a \<noteq> b"
proof (induction rule: differs_at.induct)
  case (differs_entry i xs ys p q)
  then show ?case by auto
qed auto

lemma take_eq_nth: "i \<le> length xs \<Longrightarrow> i \<le> length ys \<Longrightarrow> take i xs = take i ys \<longleftrightarrow> (\<forall>j < i. xs ! j = ys ! j)"
  by (auto simp: list_eq_iff_nth_eq)

inductive_simps differs_at_lists: "differs_at p (JArray xs) (JArray ys) q"

lemma leaf_Some: "leaf p a b = Some q \<longleftrightarrow> differs_at p a b q"
proof (induction p a b arbitrary: q rule: leaf.induct)
  case (1 path xs b)
  show ?case
  proof (cases b)
    case (JArray ys)
    have each: "leaf p x y = Some q \<longleftrightarrow> differs_at p x y q" if "x \<in> set xs" "y \<in> set ys" for p x y q
      by (rule "1.IH" [OF JArray that])
    have "leaf path (JArray xs) b = Some q \<longleftrightarrow> (\<exists>i. ((\<forall>j < i. xs ! j = ys ! j) \<and> i \<le> length xs \<and> i \<le> length ys)
        \<and> (i < length xs \<and> i < length ys \<and> differs_at (indexed path i) (xs ! i) (ys ! i) q
         \<or> i = min (length xs) (length ys) \<and> length xs \<noteq> length ys \<and> q = indexed path i))"
      by (simp add: JArray list_difference_Some each cong: conj_cong)
    also have "\<dots> \<longleftrightarrow> differs_at path (JArray xs) b q"
      unfolding JArray differs_at_lists ex_or_at [of "\<lambda>i. (\<forall>j < i. xs ! j = ys ! j) \<and> i \<le> length xs \<and> i \<le> length ys"]
      by (simp add: take_eq_nth cong: conj_cong) (meson less_imp_le)
    finally show ?thesis .
  next
    case JNull
    then show ?thesis by (auto elim: differs_at.cases intro: differs_here)
  next
    case (JBool x)
    then show ?thesis by (auto elim: differs_at.cases intro: differs_here)
  next
    case (JNumber x)
    then show ?thesis by (auto elim: differs_at.cases intro: differs_here)
  next
    case (JString x)
    then show ?thesis by (auto elim: differs_at.cases intro: differs_here)
  next
    case (JObject x)
    then show ?thesis by (auto elim: differs_at.cases intro: differs_here)
  qed
qed (auto elim: differs_at.cases intro: differs_here)

lemma first_part_walk: "first_some (\<lambda>(p, a, b). leaf p a b) parts = Some q \<longleftrightarrow> first_part parts q"
  unfolding first_some_Some first_part_def
  by (rule ex_cong1, rule conj_cong [OF refl], rule conj_cong) (auto simp: leaf_Some split: prod.splits)

lemma first_some_map: "first_some f (map g xs) = first_some (\<lambda>x. f (g x)) xs"
  by (induction xs) (simp_all split: option.split)

lemma members_difference_Some: "members_difference path a b names = Some q \<longleftrightarrow> first_part (member_parts path a b names) q"
  unfolding first_part_walk [symmetric] by (simp add: members_difference_def member_parts_def first_some_map)

lemma same_members_None: "members_difference path a b names = None \<longleftrightarrow> same_members names a b"
  by (simp add: members_difference_None same_members_def)

lemma entries_difference_Some:
  "entries_difference path a b names = Some q \<longleftrightarrow> entries_differ path (items a) (items b) names q"
proof -
  let ?xs = "items a" and ?ys = "items b"
  have pre: "list_all2 (same_members names) (take i ?xs) (take i ?ys) \<longleftrightarrow> (\<forall>j < i. same_members names (?xs ! j) (?ys ! j))"
    if "i \<le> length ?xs" "i \<le> length ?ys" for i
    using that by (auto simp: list_all2_conv_all_nth)
  have "entries_difference path a b names = Some q \<longleftrightarrow>
      (\<exists>i. ((\<forall>j < i. same_members names (?xs ! j) (?ys ! j)) \<and> i \<le> length ?xs \<and> i \<le> length ?ys)
        \<and> (i < length ?xs \<and> i < length ?ys \<and> first_part (member_parts (indexed path i) (?xs ! i) (?ys ! i) names) q
         \<or> i = min (length ?xs) (length ?ys) \<and> length ?xs \<noteq> length ?ys \<and> q = indexed path i))"
    by (simp add: entries_difference_def list_difference_Some same_members_None members_difference_Some)
  also have "\<dots> \<longleftrightarrow> entries_differ path ?xs ?ys names q"
    unfolding entries_differ_def
  proof (rule ex_cong1)
    fix i
    show "((\<forall>j < i. same_members names (?xs ! j) (?ys ! j)) \<and> i \<le> length ?xs \<and> i \<le> length ?ys)
        \<and> (i < length ?xs \<and> i < length ?ys \<and> first_part (member_parts (indexed path i) (?xs ! i) (?ys ! i) names) q
         \<or> i = min (length ?xs) (length ?ys) \<and> length ?xs \<noteq> length ?ys \<and> q = indexed path i)
      \<longleftrightarrow> list_all2 (same_members names) (take i ?xs) (take i ?ys)
        \<and> (i < length ?xs \<and> i < length ?ys \<and> first_part (member_parts (indexed path i) (?xs ! i) (?ys ! i) names) q
         \<or> i = min (length ?xs) (length ?ys) \<and> length ?xs \<noteq> length ?ys \<and> q = indexed path i)"
    proof (cases "i \<le> length ?xs \<and> i \<le> length ?ys")
      case True
      with pre [of i] show ?thesis by simp
    next
      case False
      then show ?thesis by (auto simp: min_def split: if_splits)
    qed
  qed
  finally show ?thesis .
qed

lemma or_else_Some: "or_else x y = Some q \<longleftrightarrow> x = Some q \<or> x = None \<and> y = Some q"
  by (cases x) (simp_all add: or_else_def)

text \<open>The first part in which two starts differ: the description's members in order, then the stories,
  then the roadmap's phases, entry by entry and member by member.\<close>

definition starts_differ :: "submission \<Rightarrow> submission \<Rightarrow> string \<Rightarrow> bool" where
  "starts_differ a b q \<longleftrightarrow>
     (let part = (\<lambda>name s. at_member (sb_value s) name);
          entries = (\<lambda>name s. items (part name s)) in
      first_part (member_parts ''description'' (part ''description'' a) (part ''description'' b) description_member_names) q
      \<or> same_members description_member_names (part ''description'' a) (part ''description'' b)
        \<and> (entries_differ ''stories'' (entries ''stories'' a) (entries ''stories'' b) story_members q
          \<or> list_all2 (same_members story_members) (entries ''stories'' a) (entries ''stories'' b)
            \<and> entries_differ ''roadmap'' (entries ''roadmap'' a) (entries ''roadmap'' b) phase_members q))"

lemma first_difference_Some: "first_difference a b = Some q \<longleftrightarrow> starts_differ a b q"
proof -
  have none: "entries_difference path a b names = None \<longleftrightarrow> list_all2 (same_members names) (items a) (items b)" for path a b names
    by (simp add: entries_difference_None same_members_def [abs_def])
  show ?thesis
    by (simp add: first_difference_def starts_differ_def Let_def or_else_Some members_difference_Some same_members_None
        entries_difference_Some none)
qed

text \<open>The first member, in the kind's order, in which two changes differ; the decisions of a withdrawal
  entry by entry.\<close>

definition change_part :: "change_submission \<Rightarrow> change_submission \<Rightarrow> string \<Rightarrow> string \<Rightarrow> bool" where
  "change_part a b name q \<longleftrightarrow>
     (if name = ''decisions'' then entries_differ name (items (at_member (cs_value a) name)) (items (at_member (cs_value b) name)) decision_members q
      else differs_at name (at_member (cs_value a) name) (at_member (cs_value b) name) q)"

definition changes_differ :: "change_submission \<Rightarrow> change_submission \<Rightarrow> string \<Rightarrow> bool" where
  "changes_differ a b q \<longleftrightarrow>
     (let names = kind_members (kind_of_change (cs_change a)) in
      \<exists>k < length names. (\<forall>name \<in> set (take k names). \<not> (\<exists>p. change_part a b name p)) \<and> change_part a b (names ! k) q)"

lemma change_difference_Some: "change_difference a b = Some q \<longleftrightarrow> changes_differ a b q"
proof -
  let ?f = "\<lambda>name. if name = ''decisions'' then entries_difference name (at_member (cs_value a) name) (at_member (cs_value b) name) decision_members
       else leaf name (at_member (cs_value a) name) (at_member (cs_value b) name)"
  have some: "?f name = Some p \<longleftrightarrow> change_part a b name p" for name p
    by (simp add: change_part_def entries_difference_Some leaf_Some)
  have none: "?f name = None \<longleftrightarrow> \<not> (\<exists>p. change_part a b name p)" for name
    using some [of name] by (cases "?f name") auto
  show ?thesis
    unfolding change_difference_def changes_differ_def Let_def first_some_Some some none ..
qed

section \<open>Every approval is answered\<close>

definition start_accepted :: "(string \<Rightarrow> string) \<Rightarrow> submission \<Rightarrow> bool" where
  "start_accepted sha s \<longleftrightarrow> (\<exists>v. json_wf v \<and> judge_submission sha v = Some (Inr s))"

definition change_accepted :: "(string \<Rightarrow> string) \<Rightarrow> change_kind \<Rightarrow> change_submission \<Rightarrow> bool" where
  "change_accepted sha kind c \<longleftrightarrow> (\<exists>v. json_wf v \<and> judge_change sha kind v = Some (Inr c))"

lemma start_stale:
  assumes "start_accepted sha a" "start_accepted sha b" "sb_digest a \<noteq> sb_digest b"
  shows "first_difference a b \<noteq> None"
  using assms start_difference unfolding start_accepted_def by blast

lemma change_stale:
  assumes "change_accepted sha kind a" "change_accepted sha kind b" "cs_digest a \<noteq> cs_digest b"
  shows "change_difference a b \<noteq> None"
proof
  assume none: "change_difference a b = None"
  from assms obtain v w where vw: "json_wf v" "judge_change sha kind v = Some (Inr a)" "json_wf w" "judge_change sha kind w = Some (Inr b)"
    unfolding change_accepted_def by blast
  with change_no_difference none have "v = w" by blast
  with vw assms(3) show False by simp
qed

definition approvable :: "approval_facts \<Rightarrow> bool" where
  "approvable f \<longleftrightarrow> af_recorded f \<and> \<not> af_started f
     \<and> (\<exists>target newest. af_target f = Some target \<and> af_newest f = Some newest \<and> sb_digest newest = sb_digest target)"

definition change_approvable :: "change_approval_facts \<Rightarrow> bool" where
  "change_approvable f \<longleftrightarrow> caf_recorded f \<and> caf_approved f = None
     \<and> (\<exists>target newest. caf_target f = Some target \<and> caf_newest f = Some newest \<and> cs_digest newest = cs_digest target)"

text \<open>C13: an approval is always answered, and its answer is exact.  Whatever accepted drafts the binary
  read, judging an approval of a start, and of a change, never reaches the code's expectation that
  differing digests differ in content.  A start is approved exactly when its draft is recorded, no start
  was approved before it and the newest draft has its digest; it is unknown, refused because the project
  is started, or stale exactly as stated, and a stale one names the path of the first part that
  differs.  A change is answered likewise, and refused with the owner and time of an approval already given.\<close>

theorem approvals_answered:
  assumes "\<forall>s \<in> set_option (af_target f) \<union> set_option (af_newest f). start_accepted sha s"
    "\<forall>c \<in> set_option (caf_target g) \<union> set_option (caf_newest g). change_accepted sha kind c"
  shows "(\<exists>r. judge_approval f = Some r \<and> (case r of
        Inr _ \<Rightarrow> approvable f
      | Inl ApprovalUnknownDraft \<Rightarrow> af_target f = None \<or> \<not> af_recorded f \<or> \<not> af_started f \<and> af_newest f = None
      | Inl ProjectAlreadyStarted \<Rightarrow> af_target f \<noteq> None \<and> af_recorded f \<and> af_started f
      | Inl (ApprovalStaleDraft path) \<Rightarrow> af_recorded f \<and> \<not> af_started f
          \<and> (\<exists>t n. af_target f = Some t \<and> af_newest f = Some n \<and> sb_digest n \<noteq> sb_digest t \<and> starts_differ t n path)))
    \<and> (\<exists>q. judge_change_approval g = Some q \<and> (case q of
        Inr _ \<Rightarrow> change_approvable g
      | Inl ChangeUnknownDraft \<Rightarrow> caf_target g = None \<or> \<not> caf_recorded g \<or> caf_newest g = None
      | Inl (DraftApproved owner at') \<Rightarrow> caf_target g \<noteq> None \<and> caf_recorded g \<and> caf_newest g \<noteq> None
          \<and> caf_approved g = Some \<lparr>pa_owner = owner, pa_at = at'\<rparr>
      | Inl (ChangeStaleDraft path) \<Rightarrow> caf_recorded g \<and> caf_approved g = None
          \<and> (\<exists>t n. caf_target g = Some t \<and> caf_newest g = Some n \<and> cs_digest n \<noteq> cs_digest t \<and> changes_differ t n path)))"
proof
  show "\<exists>r. judge_approval f = Some r \<and> (case r of
        Inr _ \<Rightarrow> approvable f
      | Inl ApprovalUnknownDraft \<Rightarrow> af_target f = None \<or> \<not> af_recorded f \<or> \<not> af_started f \<and> af_newest f = None
      | Inl ProjectAlreadyStarted \<Rightarrow> af_target f \<noteq> None \<and> af_recorded f \<and> af_started f
      | Inl (ApprovalStaleDraft path) \<Rightarrow> af_recorded f \<and> \<not> af_started f
          \<and> (\<exists>t n. af_target f = Some t \<and> af_newest f = Some n \<and> sb_digest n \<noteq> sb_digest t \<and> starts_differ t n path))"
    using assms(1) start_stale
    by (cases "af_target f"; cases "af_newest f")
      (fastforce simp: judge_approval_def approvable_def first_difference_Some)+
  show "\<exists>q. judge_change_approval g = Some q \<and> (case q of
        Inr _ \<Rightarrow> change_approvable g
      | Inl ChangeUnknownDraft \<Rightarrow> caf_target g = None \<or> \<not> caf_recorded g \<or> caf_newest g = None
      | Inl (DraftApproved owner at') \<Rightarrow> caf_target g \<noteq> None \<and> caf_recorded g \<and> caf_newest g \<noteq> None
          \<and> caf_approved g = Some \<lparr>pa_owner = owner, pa_at = at'\<rparr>
      | Inl (ChangeStaleDraft path) \<Rightarrow> caf_recorded g \<and> caf_approved g = None
          \<and> (\<exists>t n. caf_target g = Some t \<and> caf_newest g = Some n \<and> cs_digest n \<noteq> cs_digest t \<and> changes_differ t n path))"
    using assms(2) change_stale
    by (cases "caf_target g"; cases "caf_newest g"; cases "caf_approved g")
      (fastforce simp: judge_change_approval_def change_approvable_def change_difference_Some)+
qed

section \<open>Two drafts of a new story\<close>

definition sentence_value :: "string \<Rightarrow> json" where
  "sentence_value sentence = JObject [(''phase'', JNull), (''sentence'', JString sentence), (''status'', JString ''active'')]"

lemma sentence_judged:
  assumes "\<not> blank sentence"
  shows "\<exists>c b. change_accepted sha StoryDeclareKind c
    \<and> canonical_json (JObject (ains ''kind'' (JString ''story-declare'') [(''phase'', JNull), (''sentence'', JString sentence), (''status'', JString ''active'')])) = Inr b
    \<and> cs_digest c = Hash (sha b) "
proof -
  let ?m = "[(''phase'', JNull), (''sentence'', JString sentence), (''status'', JString ''active'')]"
  let ?body = "JObject (ains ''kind'' (JString (change_kind_str StoryDeclareKind)) ?m)"
  have "numbers_safe ?body" by simp
  then obtain b where b: "canonical_json ?body = Inr b" using canonical_json_ok by blast
  have m: "change_members StoryDeclareKind ?m = Inr (StoryDeclare sentence StoryActive None)"
    using assms by (simp add: judge_story_declare_def text_member_def judged_text_def judged_status_def ok_or_def
        story_status_parse_def number_or_null_def)
  have "unknown_member ?m (kind_members StoryDeclareKind) = None" by (simp add: unknown_member_def)
  with b m have "\<exists>c. judge_change sha StoryDeclareKind (sentence_value sentence) = Some (Inr c) \<and> cs_digest c = Hash (sha b)"
    unfolding sentence_value_def judge_change_def request_digest_def by (simp add: Let_def del: change_members.simps kind_members.simps)
  moreover have "json_wf (sentence_value sentence)" by (simp add: sentence_value_def akeys_sorted_def)
  ultimately show ?thesis using b unfolding change_accepted_def by auto
qed

theorem approvals_answered_witness:
  "\<exists>f g path t n. judge_approval f = Some (Inl ApprovalUnknownDraft) \<and> judge_change_approval g = Some (Inl (ChangeStaleDraft path))
    \<and> changes_differ t n path"
proof -
  let ?drafted = "\<lambda>s. JObject (ains ''kind'' (JString ''story-declare'') [(''phase'', JNull), (''sentence'', JString s), (''status'', JString ''active'')])"
  let ?bytes = "\<lambda>s. canonical_json (?drafted s)"
  have "numbers_safe (JObject (ains ''kind'' (JString ''story-declare'') [(''phase'', JNull), (''sentence'', JString ''x''), (''status'', JString ''active'')]))" by simp
  then obtain b where b: "?bytes ''x'' = Inr b" using canonical_json_ok by blast
  let ?sha = "\<lambda>s. if s = b then ''0'' else ''1''"
  have "\<not> blank ''x''" by (simp add: blank_def white_space_def)
  from sentence_judged [OF this, of ?sha] obtain c b1 where "change_accepted ?sha StoryDeclareKind c" "?bytes ''x'' = Inr b1"
    "cs_digest c = Hash (?sha b1)" by blast
  with b have c: "change_accepted ?sha StoryDeclareKind c" "cs_digest c = Hash ''0''" by simp_all
  have "\<not> blank ''y''" by (simp add: blank_def white_space_def)
  from sentence_judged [OF this, of ?sha] obtain d b' where d: "change_accepted ?sha StoryDeclareKind d" "?bytes ''y'' = Inr b'"
    "cs_digest d = Hash (?sha b')" by blast
  have "b' \<noteq> b"
  proof
    assume "b' = b"
    with d(2) have same: "?bytes ''y'' = Inr b" by simp
    have "norm_json (?drafted ''x'') = norm_json (?drafted ''y'')"
      by (rule canonical_json_unique [OF b _ same]) (simp_all add: akeys_sorted_def)
    then have "jget ''sentence'' (norm_json (?drafted ''x'')) = jget ''sentence'' (norm_json (?drafted ''y''))" by simp
    then show False by simp
  qed
  let ?f = "\<lparr>af_target = None, af_recorded = True, af_started = False, af_newest = None\<rparr>"
  let ?g = "\<lparr>caf_target = Some c, caf_recorded = True, caf_approved = None, caf_newest = Some d\<rparr>"
  have "cs_digest d \<noteq> cs_digest c" using c(2) d(3) \<open>b' \<noteq> b\<close> by simp
  then have "\<exists>path t n. judge_change_approval ?g = Some (Inl (ChangeStaleDraft path)) \<and> changes_differ t n path"
    using approvals_answered [of ?f ?sha ?g StoryDeclareKind] c(1) d(1)
    by (fastforce simp: change_approvable_def split: sum.splits change_approval_refusal.splits)
  moreover have "judge_approval ?f = Some (Inl ApprovalUnknownDraft)" by (simp add: judge_approval_def)
  ultimately show ?thesis by blast
qed

end
