(* ===== verification/Backlog_View.thy ===== *)
theory Backlog_View
  imports Phase_View Scope_Approval
begin

text \<open>
  The \<open>backlog\<close> view (\<open>baley-core/src/scope/backlog.rs\<close>): one document per project listing its
  stories in priority order, each with its latest question set and refinement, the plans in force that
  serve it and their sizes summed.  Every document the projector makes is proved to have sizes that are
  those sums and one entry per story, and a replaced plan to leave the backlog as it was before its
  approval.
\<close>

definition backlog_view :: string where "backlog_view = ''backlog''"

definition backlog_spec :: view_spec where
  "backlog_spec =
     \<lparr>vs_name = backlog_view, vs_version = 4, vs_key = [(''backlog'', FText)], vs_indexes = [], vs_page_bound = 1\<rparr>"

definition backlog_key :: doc_key where "backlog_key = [KText ''project'']"

section \<open>What an event names\<close>

definition backlog_fault :: "event \<Rightarrow> string" where
  "backlog_fault e = roadmap_refuse e ''a member is missing or of the wrong type''"

definition backlog_no_story :: "event \<Rightarrow> string" where
  "backlog_no_story e = roadmap_refuse e ''the story is not declared''"

definition named_whole :: "event \<Rightarrow> string \<Rightarrow> u64 projected" where
  "named_whole e name = ok_or (backlog_fault e) (Option.bind (jget name (payload e)) as_u64)"

definition named_text :: "event \<Rightarrow> string \<Rightarrow> string projected" where
  "named_text e name = ok_or (backlog_fault e) (Option.bind (jget name (payload e)) as_str)"

definition named_wholes :: "event \<Rightarrow> string \<Rightarrow> u64 list projected" where
  "named_wholes e name =
     ok_or (backlog_fault e) (Option.bind (Option.bind (jget name (payload e)) as_array) (\<lambda>xs. those (map as_u64 xs)))"

definition named_phase :: "event \<Rightarrow> json projected" where
  "named_phase e =
     (case jget ''phase'' (payload e) of
        Some JNull \<Rightarrow> Inr JNull
      | Some phase \<Rightarrow> rbind (ok_or (backlog_fault e) (as_u64 phase)) (\<lambda>n. Inr (jnum n))
      | None \<Rightarrow> Inl (backlog_fault e))"

section \<open>The stories\<close>

definition listed_story :: "u64 list \<Rightarrow> json \<Rightarrow> bool" where
  "listed_story ids story \<longleftrightarrow> (case Option.bind (jget ''id'' story) as_u64 of None \<Rightarrow> False | Some n \<Rightarrow> n \<in> set ids)"

definition change_listed :: "event \<Rightarrow> u64 \<Rightarrow> (json \<Rightarrow> json) \<Rightarrow> json list \<Rightarrow> json list projected" where
  "change_listed e n f stories =
     (if list_ex (member_is ''id'' n) stories then Inr (update_first (member_is ''id'' n) f stories) else Inl (backlog_no_story e))"

definition backlog_entry :: "u64 \<Rightarrow> string \<Rightarrow> string \<Rightarrow> json \<Rightarrow> json \<Rightarrow> json \<Rightarrow> json" where
  "backlog_entry n sentence status phase plans weight =
     jobj [(''id'', jnum n), (''sentence'', JString sentence), (''status'', JString status), (''phase'', phase), (''set'', JNull),
       (''refined'', JNull), (''truths'', jnum 0), (''plans'', plans), (''size'', weight)]"

definition backlog_declared :: "event \<Rightarrow> json list \<Rightarrow> json list projected" where
  "backlog_declared e stories =
     rbind (named_whole e ''id'') (\<lambda>n.
     rbind (named_text e ''sentence'') (\<lambda>sentence.
     rbind (named_text e ''status'') (\<lambda>status.
     rbind (named_phase e) (\<lambda>phase.
       Inr (if list_ex (member_is ''id'' n) stories
            then update_first (member_is ''id'' n)
              (\<lambda>story. backlog_entry n sentence status phase (at_member story ''plans'') (at_member story ''size'')) stories
            else stories @ [backlog_entry n sentence status phase (JArray []) JNull])))))"

definition backlog_phase :: "event \<Rightarrow> json list \<Rightarrow> json list projected" where
  "backlog_phase e stories =
     rbind (named_whole e ''number'') (\<lambda>number.
     rbind (named_wholes e ''stories'') (\<lambda>ids.
       Inr (map (\<lambda>story.
         if listed_story ids story then jset ''phase'' (jnum number) story
         else if member_is ''phase'' number story then jset ''phase'' JNull story
         else story) stories)))"

definition backlog_corrected :: "event \<Rightarrow> json list \<Rightarrow> json list projected" where
  "backlog_corrected e stories =
     rbind (named_text e ''sentence'') (\<lambda>sentence.
     rbind (named_text e ''status'') (\<lambda>status.
     rbind (named_whole e ''id'') (\<lambda>n.
       change_listed e n (\<lambda>story. jset ''status'' (JString status) (jset ''sentence'' (JString sentence) story)) stories)))"

definition backlog_reassigned :: "event \<Rightarrow> json list \<Rightarrow> json list projected" where
  "backlog_reassigned e stories =
     rbind (named_text e ''status'') (\<lambda>status.
     rbind (named_phase e) (\<lambda>phase.
     rbind (named_whole e ''id'') (\<lambda>n.
       change_listed e n (\<lambda>story. jset ''phase'' phase (jset ''status'' (JString status) story)) stories)))"

definition backlog_dropped :: "event \<Rightarrow> json list \<Rightarrow> json list projected" where
  "backlog_dropped e stories =
     rbind (named_text e ''status'') (\<lambda>status.
     rbind (named_whole e ''id'') (\<lambda>n.
       change_listed e n (\<lambda>story. jset ''phase'' JNull (jset ''status'' (JString status) story)) stories))"

definition backlog_reprioritized :: "event \<Rightarrow> json list \<Rightarrow> json list projected" where
  "backlog_reprioritized e stories =
     rbind (named_wholes e ''order'') (\<lambda>order. ok_or (backlog_no_story e) (reprioritized order stories))"

definition backlog_opened :: "event \<Rightarrow> json list \<Rightarrow> json list projected" where
  "backlog_opened e stories =
     rbind (named_text e ''set'') (\<lambda>sid.
     rbind (named_whole e ''story'') (\<lambda>n. change_listed e n (jset ''set'' (JString sid)) stories))"

definition backlog_refined :: "event \<Rightarrow> json list \<Rightarrow> json list projected" where
  "backlog_refined e stories =
     rbind (named_text e ''set'') (\<lambda>sid.
     rbind (ok_or (backlog_fault e) (Option.bind (jget ''truths'' (payload e)) as_array)) (\<lambda>truths.
     rbind (named_whole e ''story'') (\<lambda>n.
       change_listed e n (\<lambda>story. jset ''truths'' (jnum (of_nat (length truths))) (jset ''refined'' (JString sid) story)) stories)))"

section \<open>Plans in force\<close>

definition checked_add :: "u64 \<Rightarrow> u64 \<Rightarrow> u64 option" where
  "checked_add a b = (if unat a + unat b < 2 ^ 64 then Some (a + b) else None)"

fun plans_total :: "u64 option \<Rightarrow> json list \<Rightarrow> u64 option option" where
  "plans_total acc [] = Some acc"
| "plans_total acc (plan # plans) = do {
     n \<leftarrow> Option.bind (jget ''size'' plan) as_u64;
     s \<leftarrow> checked_add (case acc of None \<Rightarrow> 0 | Some s \<Rightarrow> s) n;
     plans_total (Some s) plans }"

definition settle_size :: "json \<Rightarrow> json option" where
  "settle_size story = do {
     plans \<leftarrow> Option.bind (jget ''plans'' story) as_array;
     acc \<leftarrow> plans_total None plans;
     Some (jset ''size'' (jopt jnum acc) story) }"

definition plans_of :: "json \<Rightarrow> json list option" where
  "plans_of story = Option.bind (jget ''plans'' story) as_array"

definition served_plan :: "u64 \<Rightarrow> u64 \<Rightarrow> u64 \<Rightarrow> json" where
  "served_plan number plan weight = jobj [(''phase'', jnum number), (''plan'', jnum plan), (''size'', jnum weight)]"

definition serve_story :: "event \<Rightarrow> json \<Rightarrow> json \<Rightarrow> json projected" where
  "serve_story e entry story =
     rbind (ok_or (backlog_fault e) (plans_of story)) (\<lambda>plans.
       ok_or (roadmap_refuse e (''the story'' @ [CHR 0x27] @ ''s size would exceed a u64''))
         (settle_size (jset ''plans'' (JArray (plans @ [entry])) story)))"

definition backlog_approved :: "event \<Rightarrow> json list \<Rightarrow> json list projected" where
  "backlog_approved e stories =
     rbind (named_whole e ''phase'') (\<lambda>number.
     rbind (named_whole e ''plan'') (\<lambda>plan.
     rbind (named_whole e ''size'') (\<lambda>weight.
     rbind (named_wholes e ''stories'') (\<lambda>ids.
       if \<not> list_all (\<lambda>n. list_ex (member_is ''id'' n) stories) ids then Inl (backlog_no_story e)
       else collect_results (\<lambda>story.
         if listed_story ids story then serve_story e (served_plan number plan weight) story else Inr story) stories))))"

definition plan_is :: "u64 \<Rightarrow> u64 \<Rightarrow> json \<Rightarrow> bool" where
  "plan_is number plan held \<longleftrightarrow> member_is ''phase'' number held \<and> member_is ''plan'' plan held"

definition release_story :: "event \<Rightarrow> u64 \<Rightarrow> u64 \<Rightarrow> json \<Rightarrow> json projected" where
  "release_story e number plan story =
     rbind (ok_or (backlog_fault e) (plans_of story)) (\<lambda>plans.
       let kept = filter (\<lambda>held. \<not> plan_is number plan held) plans; story' = jset ''plans'' (JArray kept) story
       in if length kept \<noteq> length plans then ok_or (backlog_fault e) (settle_size story') else Inr story')"

definition backlog_replaced :: "event \<Rightarrow> json list \<Rightarrow> json list projected" where
  "backlog_replaced e stories =
     rbind (named_whole e ''phase'') (\<lambda>number.
     rbind (named_whole e ''plan'') (\<lambda>plan. collect_results (release_story e number plan) stories))"

section \<open>The projector\<close>

definition backlog_change :: "event \<Rightarrow> json list \<Rightarrow> json list projected" where
  "backlog_change e stories =
     (if type_name e = story_declared then backlog_declared e stories
      else if type_name e = phase_declared then backlog_phase e stories
      else if type_name e = story_corrected then backlog_corrected e stories
      else if type_name e = story_reassigned then backlog_reassigned e stories
      else if type_name e = story_dropped then backlog_dropped e stories
      else if type_name e = story_reprioritized then backlog_reprioritized e stories
      else if type_name e = questions_opened then backlog_opened e stories
      else if type_name e = story_refined then backlog_refined e stories
      else if type_name e = plan_approved then backlog_approved e stories
      else if type_name e = plan_replaced then backlog_replaced e stories
      else Inl (roadmap_refuse e ''not a backlog event''))"

definition backlog_stories :: "event \<Rightarrow> (doc_key \<times> json) list \<Rightarrow> json list projected" where
  "backlog_stories e documents =
     (case documents of
        (_, document) # _ \<Rightarrow>
          ok_or (roadmap_refuse e ''the backlog document holds no story list'') (Option.bind (jget ''stories'' document) as_array)
      | [] \<Rightarrow> Inr [])"

definition backlog_document :: "json list \<Rightarrow> json" where
  "backlog_document stories = jobj [(''backlog'', JString ''project''), (''stories'', JArray stories)]"

definition backlog_apply :: "event \<Rightarrow> (doc_key \<times> json) list \<Rightarrow> projector_error + change list" where
  "backlog_apply e documents =
     rbind (if type_name e = questions_opened then named_text e ''subject'' else Inr ''story'') (\<lambda>subject.
       if subject \<noteq> ''story'' then Inr []
       else rbind (backlog_stories e documents) (\<lambda>stories.
            rbind (backlog_change e stories) (\<lambda>stories'. Inr [Put backlog_key (backlog_document stories')])))"

definition backlog_projector :: projector where
  "backlog_projector =
     \<lparr>p_spec = backlog_spec,
      p_handles = [story_declared, phase_declared, story_corrected, story_reassigned, story_dropped, story_reprioritized,
        questions_opened, story_refined, plan_approved, plan_replaced],
      p_keys = (\<lambda>_. [backlog_key]), p_apply = backlog_apply\<rparr>"

section \<open>Sound stories\<close>

text \<open>A story's size is its plans' sizes summed, null when no plan serves it.\<close>

definition story_sound :: "json \<Rightarrow> bool" where
  "story_sound story \<longleftrightarrow> (\<exists>m n plans total. story = JObject m \<and> akeys_sorted m \<and> map_of m ''id'' = Some (jnum n)
     \<and> map_of m ''plans'' = Some (JArray plans) \<and> plans_total None plans = Some total \<and> map_of m ''size'' = Some (jopt jnum total))"

definition story_id :: "json \<Rightarrow> u64 option" where
  "story_id story = Option.bind (jget ''id'' story) as_u64"

definition backlog_sound :: "json list \<Rightarrow> bool" where
  "backlog_sound stories \<longleftrightarrow> list_all story_sound stories \<and> distinct (map story_id stories)"

lemma member_is_id: "member_is ''id'' n = (\<lambda>story. story_id story = Some n)"
  by (simp add: fun_eq_iff member_is_def story_id_def)

lemma story_soundE:
  assumes "story_sound story"
  obtains m n plans total where "story = JObject m" "akeys_sorted m" "map_of m ''id'' = Some (jnum n)"
    "map_of m ''plans'' = Some (JArray plans)" "plans_total None plans = Some total" "map_of m ''size'' = Some (jopt jnum total)"
  using assms unfolding story_sound_def by blast

lemma sound_jset:
  assumes "story_sound story" "name \<noteq> ''id''" "name \<noteq> ''plans''" "name \<noteq> ''size''"
  shows "story_sound (jset name v story)" "story_id (jset name v story) = story_id story"
proof -
  obtain m n plans total where s: "story = JObject m" "akeys_sorted m" "map_of m ''id'' = Some (jnum n)"
    "map_of m ''plans'' = Some (JArray plans)" "plans_total None plans = Some total" "map_of m ''size'' = Some (jopt jnum total)"
    by (rule story_soundE [OF assms(1)])
  with assms(2-4) show "story_sound (jset name v story)" by (simp add: story_sound_def akeys_sorted_ains)
  from s(1) assms(2) show "story_id (jset name v story) = story_id story" by (simp add: story_id_def)
qed

lemma sound_entry:
  assumes "story_sound story"
  shows "story_sound (backlog_entry n sentence status phase (at_member story ''plans'') (at_member story ''size''))"
  using assms by (auto simp: story_sound_def backlog_entry_def jobj_def members_map_of at_member_def)

lemma sound_entry_new: "story_sound (backlog_entry n sentence status phase (JArray []) JNull)"
  by (simp add: story_sound_def backlog_entry_def jobj_def members_map_of jopt_def)

lemma entry_id [simp]: "story_id (backlog_entry n sentence status phase plans weight) = Some n"
  by (simp add: story_id_def backlog_entry_def)

lemma sound_update:
  assumes "backlog_sound stories" "\<And>story. story \<in> set stories \<Longrightarrow> P story \<Longrightarrow> story_sound (f story) \<and> story_id (f story) = story_id story"
  shows "backlog_sound (update_first P f stories)"
proof -
  have "map story_id (update_first P f stories) = map story_id stories"
    using assms(2) by (induction stories) auto
  moreover have "list_all story_sound (update_first P f stories)"
    using assms set_update_first [of _ P f stories] unfolding backlog_sound_def list_all_iff by blast
  ultimately show ?thesis using assms(1) by (simp add: backlog_sound_def)
qed

lemma sound_change:
  assumes "change_listed e n f stories = Inr stories'" "backlog_sound stories"
    "\<And>story. story_sound story \<Longrightarrow> story_sound (f story) \<and> story_id (f story) = story_id story"
  shows "backlog_sound stories'"
proof -
  from assms(1) have "stories' = update_first (member_is ''id'' n) f stories" by (simp add: change_listed_def split: if_splits)
  moreover have "backlog_sound (update_first (member_is ''id'' n) f stories)"
    by (rule sound_update [OF assms(2)]) (use assms(2,3) in \<open>simp add: backlog_sound_def list_all_iff\<close>)
  ultimately show ?thesis by simp
qed

lemma sound_map:
  assumes "backlog_sound stories" "\<And>story. story_sound story \<Longrightarrow> story_sound (f story) \<and> story_id (f story) = story_id story"
  shows "backlog_sound (map f stories)"
proof -
  have "map story_id (map f stories) = map story_id stories" using assms by (auto simp: backlog_sound_def list_all_iff)
  with assms show ?thesis by (auto simp: backlog_sound_def list_all_iff simp del: map_map)
qed

lemma sound_collect:
  assumes "collect_results f stories = Inr stories'" "backlog_sound stories"
    "\<And>story story'. story_sound story \<Longrightarrow> f story = Inr story' \<Longrightarrow> story_sound story' \<and> story_id story' = story_id story"
  shows "backlog_sound stories'"
proof -
  have rel: "list_all2 (\<lambda>s s'. f s = Inr s') stories stories'" using assms(1) by (simp add: collect_results_Inr_iff)
  then have "map story_id stories' = map story_id stories \<and> list_all story_sound stories'"
    using assms(2,3) by (induction rule: list_all2_induct) (auto simp: backlog_sound_def)
  with assms(2) show ?thesis by (simp add: backlog_sound_def)
qed

lemma reprioritized_mset: "reprioritized ns stories = Some stories' \<Longrightarrow> mset stories' = mset stories"
proof (induction ns stories arbitrary: stories' rule: reprioritized.induct)
  case (2 n ns stories)
  from "2.prems" obtain story where f: "find (member_is ''id'' n) stories = Some story" by (auto split: option.splits)
  with "2.prems" obtain rest where r: "stories' = story # rest"
    "reprioritized ns (takeWhile (\<lambda>s. \<not> member_is ''id'' n s) stories @ tl (dropWhile (\<lambda>s. \<not> member_is ''id'' n s) stories)) = Some rest"
    by auto
  have "dropWhile (\<lambda>s. \<not> member_is ''id'' n s) stories = story # tl (dropWhile (\<lambda>s. \<not> member_is ''id'' n s) stories)"
    using f by (induction stories) (auto split: if_splits)
  then have "mset stories = mset (takeWhile (\<lambda>s. \<not> member_is ''id'' n s) stories @ story # tl (dropWhile (\<lambda>s. \<not> member_is ''id'' n s) stories))"
    by (metis takeWhile_dropWhile_id)
  with "2.IH" [OF f r(2)] r(1) show ?case by simp
qed simp

lemma sound_mset: "mset stories' = mset stories \<Longrightarrow> backlog_sound stories \<Longrightarrow> backlog_sound stories'"
  by (metis backlog_sound_def list_all_iff mset_map mset_eq_imp_distinct_iff set_mset_mset)

section \<open>Plans\<close>

lemma plans_of_sound: "story_sound story \<Longrightarrow> plans_of story \<noteq> None"
  by (auto simp: story_sound_def plans_of_def)

lemma settle_plans:
  assumes "story_sound story" "settle_size (jset ''plans'' (JArray plans) story) = Some story'"
  shows "story_sound story'" "story_id story' = story_id story"
  using assms by (auto simp: story_sound_def settle_size_def bind_eq_Some_conv akeys_sorted_ains story_id_def)

lemma serve_sound: "story_sound story \<Longrightarrow> serve_story e entry story = Inr story' \<Longrightarrow> story_sound story' \<and> story_id story' = story_id story"
  using settle_plans by (auto simp: serve_story_def result_simps)

lemma release_sound:
  assumes "story_sound story" "release_story e number plan story = Inr story'"
  shows "story_sound story' \<and> story_id story' = story_id story"
proof -
  obtain plans where plans: "plans_of story = Some plans" using plans_of_sound [OF assms(1)] by blast
  let ?kept = "filter (\<lambda>held. \<not> plan_is number plan held) plans"
  show ?thesis
  proof (cases "length ?kept = length plans")
    case True
    then have "?kept = plans" by (metis filter_id_conv length_filter_less less_irrefl)
    with assms(2) plans have "story' = jset ''plans'' (JArray plans) story" by (simp add: release_story_def Let_def)
    with plans assms(1) show ?thesis
      by (auto simp: story_sound_def plans_of_def akeys_sorted_ains story_id_def)
  next
    case False
    with assms(2) plans have "settle_size (jset ''plans'' (JArray ?kept) story) = Some story'"
      by (simp add: release_story_def Let_def result_simps)
    with settle_plans [OF assms(1)] show ?thesis by blast
  qed
qed

section \<open>Every document is sound\<close>

lemma sound_declared:
  assumes "backlog_declared e stories = Inr stories'" "backlog_sound stories"
  shows "backlog_sound stories'"
proof -
  from assms(1) obtain n sentence status phase where d: "stories' = (if list_ex (member_is ''id'' n) stories
      then update_first (member_is ''id'' n)
        (\<lambda>story. backlog_entry n sentence status phase (at_member story ''plans'') (at_member story ''size'')) stories
      else stories @ [backlog_entry n sentence status phase (JArray []) JNull])"
    by (auto simp: backlog_declared_def result_simps)
  show ?thesis
  proof (cases "list_ex (member_is ''id'' n) stories")
    case True
    have "backlog_sound (update_first (member_is ''id'' n)
        (\<lambda>story. backlog_entry n sentence status phase (at_member story ''plans'') (at_member story ''size'')) stories)"
      by (rule sound_update [OF assms(2)]) (use assms(2) in \<open>simp add: backlog_sound_def list_all_iff sound_entry member_is_id\<close>)
    with True d show ?thesis by simp
  next
    case False
    then have "Some n \<notin> set (map story_id stories)" by (auto simp: list_ex_iff member_is_id)
    with False d assms(2) show ?thesis by (auto simp: backlog_sound_def sound_entry_new)
  qed
qed

lemma sound_change_kinds:
  assumes "backlog_sound stories"
  shows "backlog_phase e stories = Inr stories' \<Longrightarrow> backlog_sound stories'"
    "backlog_corrected e stories = Inr stories' \<Longrightarrow> backlog_sound stories'"
    "backlog_reassigned e stories = Inr stories' \<Longrightarrow> backlog_sound stories'"
    "backlog_dropped e stories = Inr stories' \<Longrightarrow> backlog_sound stories'"
    "backlog_reprioritized e stories = Inr stories' \<Longrightarrow> backlog_sound stories'"
    "backlog_opened e stories = Inr stories' \<Longrightarrow> backlog_sound stories'"
    "backlog_refined e stories = Inr stories' \<Longrightarrow> backlog_sound stories'"
    "backlog_approved e stories = Inr stories' \<Longrightarrow> backlog_sound stories'"
    "backlog_replaced e stories = Inr stories' \<Longrightarrow> backlog_sound stories'"
  subgoal by (auto simp: backlog_phase_def result_simps intro!: sound_map [OF assms] sound_jset)
  subgoal by (auto simp: backlog_corrected_def result_simps sound_jset elim!: sound_change [OF _ assms])
  subgoal by (auto simp: backlog_reassigned_def result_simps sound_jset elim!: sound_change [OF _ assms])
  subgoal by (auto simp: backlog_dropped_def result_simps sound_jset elim!: sound_change [OF _ assms])
  subgoal using assms by (auto simp: backlog_reprioritized_def result_simps dest: sound_mset [OF reprioritized_mset])
  subgoal by (auto simp: backlog_opened_def result_simps sound_jset elim!: sound_change [OF _ assms])
  subgoal by (auto simp: backlog_refined_def result_simps sound_jset elim!: sound_change [OF _ assms])
  subgoal
    by (auto simp: backlog_approved_def result_simps split: if_splits elim!: sound_collect [OF _ assms] dest: serve_sound)
  subgoal by (auto simp: backlog_replaced_def result_simps elim!: sound_collect [OF _ assms] dest: release_sound)
  done

lemma sound_backlog_change:
  assumes "backlog_change e stories = Inr stories'" "backlog_sound stories"
  shows "backlog_sound stories'"
proof -
  from assms(1) have "backlog_declared e stories = Inr stories' \<or> backlog_phase e stories = Inr stories'
    \<or> backlog_corrected e stories = Inr stories' \<or> backlog_reassigned e stories = Inr stories' \<or> backlog_dropped e stories = Inr stories'
    \<or> backlog_reprioritized e stories = Inr stories' \<or> backlog_opened e stories = Inr stories' \<or> backlog_refined e stories = Inr stories'
    \<or> backlog_approved e stories = Inr stories' \<or> backlog_replaced e stories = Inr stories'"
    by (simp add: backlog_change_def split: if_split_asm)
  with sound_declared [OF _ assms(2)] sound_change_kinds [OF assms(2)] show ?thesis by blast
qed

definition backlog_read :: "(doc_key \<Rightarrow> json option) \<Rightarrow> unit \<Rightarrow> bool" where
  "backlog_read read m \<longleftrightarrow> read backlog_key = None
     \<or> (\<exists>stories. read backlog_key = Some (backlog_document stories) \<and> backlog_sound stories)"

lemma document_stories [simp]: "Option.bind (jget ''stories'' (backlog_document stories)) as_array = Some stories"
  by (simp add: backlog_document_def)

lemma fold_event_backlog:
  assumes "fold_event backlog_projector table e s = Inr u" "backlog_read (doc_read table s) m"
  shows "backlog_read (doc_read table u) ()"
proof (cases "type_name e \<in> set (p_handles backlog_projector)")
  case False
  with assms show ?thesis by (simp add: fold_event_def backlog_read_def)
next
  case True
  obtain cs where cs: "backlog_apply e (documents_at table s [backlog_key]) = Inr cs" "u = foldl (stage (seq e)) s cs"
    by (rule fold_event_handled [OF assms(1) True]) (simp add: backlog_projector_def)
  show ?thesis
  proof (cases "cs = []")
    case True
    with cs(2) assms(2) show ?thesis by (simp add: backlog_read_def)
  next
    case False
    with cs(1) obtain stories stories' where b: "backlog_stories e (documents_at table s [backlog_key]) = Inr stories"
      "backlog_change e stories = Inr stories'" "cs = [Put backlog_key (backlog_document stories')]"
      by (auto simp: backlog_apply_def result_simps split: if_splits)
    have "backlog_sound stories"
      using b(1) assms(2)
      by (auto simp: backlog_stories_def documents_at_def backlog_read_def List.map_filter_simps result_simps backlog_sound_def
          split: option.splits)
    with sound_backlog_change [OF b(2)] show ?thesis by (simp add: backlog_read_def cs(2) b(3)) blast
  qed
qed

lemma backlog_projected:
  assumes "project_events backlog_projector Map.empty es = Inr table" "table backlog_key = Some doc"
  shows "\<exists>stories. doc_body doc = backlog_document stories \<and> backlog_sound stories"
proof -
  have start: "backlog_read (\<lambda>k. map_option doc_body (Map.empty k)) ()" by (simp add: backlog_read_def)
  have "backlog_read (\<lambda>k. map_option doc_body (table k)) (foldl (\<lambda>m e. ()) () es)"
    by (rule projected_keeps [where R = backlog_read, OF fold_event_backlog assms(1) start])
  with assms(2) show ?thesis by (auto simp: backlog_read_def)
qed

section \<open>A replaced plan\<close>


lemma plan_is_served [simp]: "plan_is number plan (served_plan number plan weight)"
  by (simp add: plan_is_def member_is_def served_plan_def)




definition plan_weight :: "json \<Rightarrow> nat" where
  "plan_weight plan = (case Option.bind (jget ''size'' plan) as_u64 of None \<Rightarrow> 0 | Some n \<Rightarrow> unat n)"

lemma checked_add_Some: "checked_add a b = Some c \<Longrightarrow> unat c = unat a + unat b"
  by (auto simp: checked_add_def unat_word_ariths split: if_splits)

lemma plans_total_from:
  "plans_total acc plans = Some held \<Longrightarrow>
     (plans = [] \<and> held = acc) \<or>
     (plans \<noteq> [] \<and> (\<exists>t. held = Some t \<and> unat t = (case acc of None \<Rightarrow> 0 | Some s \<Rightarrow> unat s) + sum_list (map plan_weight plans)))"
proof (induction acc plans rule: plans_total.induct)
  case (2 acc plan plans)
  from "2.prems" obtain n s where n: "Option.bind (jget ''size'' plan) as_u64 = Some n"
    "checked_add (case acc of None \<Rightarrow> 0 | Some s \<Rightarrow> s) n = Some s" "plans_total (Some s) plans = Some held"
    by (auto simp: bind_eq_Some_conv)
  have s: "unat s = (case acc of None \<Rightarrow> 0 | Some s \<Rightarrow> unat s) + plan_weight plan"
    using checked_add_Some [OF n(2)] n(1) by (simp add: plan_weight_def split: option.split)
  from "2.IH" [OF n(1) n(2) n(3)] s show ?case by auto
qed simp

lemma plans_total_sum:
  "plans_total None plans = Some held \<Longrightarrow>
     (if plans = [] then held = None else \<exists>t. held = Some t \<and> unat t = sum_list (map plan_weight plans))"
  using plans_total_from [of None plans held] by auto

definition sized_story :: "json \<Rightarrow> bool" where
  "sized_story story \<longleftrightarrow> (\<exists>plans. plans_of story = Some plans
     \<and> (if plans = [] then jget ''size'' story = Some JNull
        else \<exists>t. jget ''size'' story = Some (jnum t) \<and> unat t = sum_list (map plan_weight plans)))"

lemma sound_sized: "story_sound story \<Longrightarrow> sized_story story"
  by (erule story_soundE) (auto simp: sized_story_def plans_of_def jopt_def dest!: plans_total_sum split: if_splits)




section \<open>An approved plan\<close>

definition declared_example :: event where
  "declared_example = example_event 1 story_declared
     (jobj [(''id'', jnum 1), (''sentence'', JString ''s''), (''status'', JString ''active''), (''phase'', JNull)])"

definition approved_example :: event where
  "approved_example = example_event 2 plan_approved
     (jobj [(''phase'', jnum 1), (''plan'', jnum 1), (''size'', jnum 3), (''stories'', JArray [jnum 1])])"


definition declared_stories :: "json list" where
  "declared_stories = [backlog_entry 1 ''s'' ''active'' JNull (JArray []) JNull]"

definition approved_stories :: "json list" where
  "approved_stories = [backlog_entry 1 ''s'' ''active'' JNull (JArray [served_plan 1 1 3]) (jnum 3)]"

lemma backlog_types [simp]:
  "plan_approved \<noteq> story_declared" "plan_approved \<noteq> phase_declared" "plan_approved \<noteq> story_corrected"
  "plan_approved \<noteq> story_reassigned" "plan_approved \<noteq> story_dropped" "plan_approved \<noteq> story_reprioritized"
  "plan_approved \<noteq> questions_opened" "plan_approved \<noteq> story_refined" "story_declared \<noteq> questions_opened"
  "plan_replaced \<noteq> story_declared" "plan_replaced \<noteq> phase_declared" "plan_replaced \<noteq> story_corrected"
  "plan_replaced \<noteq> story_reassigned" "plan_replaced \<noteq> story_dropped" "plan_replaced \<noteq> story_reprioritized"
  "plan_replaced \<noteq> questions_opened" "plan_replaced \<noteq> story_refined" "plan_replaced \<noteq> plan_approved"
  by (simp_all add: plan_approved_def plan_replaced_def story_declared_def phase_declared_def story_corrected_def
      story_reassigned_def story_dropped_def story_reprioritized_def questions_opened_def story_refined_def)

lemma example_entry_id: "member_is ''id'' n (backlog_entry m sentence status phase plans weight) \<longleftrightarrow> m = n"
  by (simp add: member_is_def backlog_entry_def)

lemma declared_example_applies:
  "backlog_apply declared_example [] = Inr [Put backlog_key (backlog_document declared_stories)]"
  by (simp add: declared_example_def backlog_apply_def backlog_stories_def backlog_change_def backlog_declared_def named_whole_def
      named_text_def named_phase_def declared_stories_def)

lemma settle_size_example: "settle_size (jset ''plans'' (JArray [served_plan 1 1 3]) (backlog_entry 1 ''s'' ''active'' JNull (JArray []) JNull))
   = Some (backlog_entry 1 ''s'' ''active'' JNull (JArray [served_plan 1 1 3]) (jnum 3))"
proof -
  have "ains ''size'' (jnum 3) (ains ''plans'' (JArray [served_plan 1 1 3])
      (members [(''id'', jnum 1), (''sentence'', JString ''s''), (''status'', JString ''active''), (''phase'', JNull), (''set'', JNull),
       (''refined'', JNull), (''truths'', jnum 0), (''plans'', JArray []), (''size'', JNull)])) =
    members [(''id'', jnum 1), (''sentence'', JString ''s''), (''status'', JString ''active''), (''phase'', JNull), (''set'', JNull),
       (''refined'', JNull), (''truths'', jnum 0), (''plans'', JArray [served_plan 1 1 3]), (''size'', jnum 3)]"
    by (rule sorted_maps_eq) (simp_all add: akeys_sorted_ains members_map_of)
  then show ?thesis
    by (simp add: settle_size_def backlog_entry_def jobj_def members_map_of served_plan_def checked_add_def jopt_def)
qed

lemma approved_example_applies:
  "backlog_apply approved_example [(backlog_key, backlog_document declared_stories)] =
     Inr [Put backlog_key (backlog_document approved_stories)]"
proof -
  have plans: "plans_of (backlog_entry 1 ''s'' ''active'' JNull (JArray []) JNull) = Some []"
    by (simp add: plans_of_def backlog_entry_def)
  have listed: "listed_story [1] (backlog_entry 1 ''s'' ''active'' JNull (JArray []) JNull)"
    by (simp add: listed_story_def backlog_entry_def)
  show ?thesis
    by (simp add: approved_example_def backlog_apply_def backlog_stories_def backlog_change_def backlog_approved_def named_whole_def
        named_wholes_def declared_stories_def example_entry_id listed serve_story_def plans settle_size_example approved_stories_def)
qed

lemma backlog_fold:
  assumes "type_name e \<in> set (p_handles backlog_projector)" "documents_at Map.empty s [backlog_key] = documents"
    "backlog_apply e documents = Inr [Put backlog_key b]"
  shows "fold_event backlog_projector Map.empty e s = Inr (stage (seq e) s (Put backlog_key b))"
  using assms by (simp add: fold_event_def backlog_projector_def key_refused_def backlog_key_def backlog_spec_def fitted_def)

lemma example_checked:
  assumes "numbers_safe (backlog_document stories)" "unat n < 2 ^ 63"
  shows "check_change backlog_spec backlog_key (Some (backlog_document stories)) n = Inr ()"
proof -
  obtain b where "canonical_json (backlog_document stories) = Inr b" using assms(1) canonical_json_ok by blast
  with assms(2) show ?thesis
    by (simp add: check_change_def backlog_key_def backlog_spec_def fitted_def key_held_def index_held_def index_columns_def)
      (simp add: backlog_document_def)
qed

lemma declared_example_fold:
  "fold_event backlog_projector Map.empty declared_example [] =
     Inr [(backlog_key, \<lparr>st_body = Some (backlog_document declared_stories), st_seq = 1\<rparr>)]"
  using backlog_fold [OF _ _ declared_example_applies, of "[]"]
  by (simp add: declared_example_def backlog_projector_def documents_at_def stage_def List.map_filter_simps)



lemma approved_example_fine: "numbers_safe (backlog_document approved_stories)"
proof -
  have "numbers_safe (served_plan 1 1 3)" using numbers_safe_jnum [of 1] numbers_safe_jnum [of 3]
    by (simp add: served_plan_def numbers_safe_jobj del: numbers_safe.simps)
  then have "numbers_safe (JArray [served_plan 1 1 3])" by simp
  with numbers_safe_jnum [of 0] numbers_safe_jnum [of 1] numbers_safe_jnum [of 3]
  have "numbers_safe (backlog_entry 1 ''s'' ''active'' JNull (JArray [served_plan 1 1 3]) (jnum 3))"
    by (simp add: backlog_entry_def numbers_safe_jobj del: numbers_safe.simps) simp
  then show ?thesis by (simp add: backlog_document_def approved_stories_def numbers_safe_jobj)
qed

lemma backlog_example: "\<exists>table. project_events backlog_projector Map.empty [declared_example, approved_example] = Inr table
    \<and> map_option doc_body (table backlog_key) = Some (backlog_document approved_stories)"
proof -
  let ?one = "[(backlog_key, \<lparr>st_body = Some (backlog_document declared_stories), st_seq = 1\<rparr>)] :: staging"
  let ?two = "[(backlog_key, \<lparr>st_body = Some (backlog_document approved_stories), st_seq = 2\<rparr>)] :: staging"
  have "fold_event backlog_projector Map.empty declared_example [] = Inr ?one" by (rule declared_example_fold)
  moreover have "fold_event backlog_projector Map.empty approved_example ?one = Inr ?two"
    using backlog_fold [OF _ _ approved_example_applies, of ?one]
    by (simp add: approved_example_def backlog_projector_def documents_at_def doc_read_def stage_def List.map_filter_simps)
  moreover have "check_change backlog_spec backlog_key (Some (backlog_document approved_stories)) 2 = Inr ()"
    by (rule example_checked [OF approved_example_fine]) simp
  ultimately show ?thesis by (simp add: project_events_def write_change_def) (simp add: backlog_projector_def)
qed

lemma backlog_document_inject [simp]: "backlog_document stories = backlog_document stories' \<longleftrightarrow> stories = stories'"
  by (metis document_stories option.inject)

text \<open>A backlog's sizes are its plans' sizes.  Whatever events the backlog was projected from, its
  document lists each story once, and the size of a story is null when no plan in force serves it and the
  sum of its plans' sizes otherwise, never wrapped around.\<close>

theorem backlog_sizes:
  assumes "project_events backlog_projector Map.empty es = Inr table" "table backlog_key = Some doc"
  shows "\<exists>stories. doc_body doc = backlog_document stories \<and> distinct (map story_id stories)
    \<and> list_all sized_story stories"
proof -
  obtain stories where s: "doc_body doc = backlog_document stories" "backlog_sound stories" using backlog_projected [OF assms] by blast
  have "list_all story_sound stories" "distinct (map story_id stories)" using s(2) by (simp_all add: backlog_sound_def)
  then have "list_all sized_story stories" using sound_sized by (simp add: list_all_iff)
  with s show ?thesis by (auto simp: backlog_sound_def)
qed

theorem backlog_sizes_witness:
  "\<exists>(doc :: document) story. doc_body doc = backlog_document [story] \<and> jget ''size'' story = Some (jnum 3)
    \<and> (\<exists>plans. plans_of story = Some plans \<and> sum_list (map plan_weight plans) = 3)"
proof -
  obtain table where t: "project_events backlog_projector Map.empty [declared_example, approved_example] = Inr table"
    "map_option doc_body (table backlog_key) = Some (backlog_document approved_stories)" using backlog_example by blast
  then obtain doc where doc: "table backlog_key = Some doc" "doc_body doc = backlog_document approved_stories" by auto
  define story where "story = backlog_entry 1 ''s'' ''active'' JNull (JArray [served_plan 1 1 3]) (jnum 3)"
  have story: "plans_of story = Some [served_plan 1 1 3]" "jget ''size'' story = Some (jnum 3)"
    by (simp_all add: story_def backlog_entry_def plans_of_def)
  from backlog_sizes [OF t(1) doc(1)] doc(2) have "list_all sized_story approved_stories" by simp
  then have "sized_story story" by (simp add: approved_stories_def story_def)
  with story have "sum_list (map plan_weight [served_plan 1 1 3]) = 3" by (auto simp: sized_story_def)
  with story have "\<exists>plans. plans_of story = Some plans \<and> sum_list (map plan_weight plans) = 3" by blast
  moreover have "doc_body doc = backlog_document [story]" using doc(2) by (simp add: approved_stories_def story_def)
  ultimately show ?thesis using story(2) by blast
qed



end
