(* ===== verification/Spec2Isabelle.thy ===== *)
theory Spec2Isabelle
  imports Store_Properties Scope_Properties Backlog_View
begin

text \<open>
  A verification library for the ledger of baley, the program that keeps AI coding agents
  accountable.  Everything baley does is recorded as events in an append-only, hash-chained ledger
  of one project, kept in SQLite; views are documents that projectors fold from the events; commands
  decide on what they read, append events, and are answered once per request id.  The modelled code
  is the crate \<open>baley-store\<close> (the ledger's types and rules), the command path of
  \<open>baley-store-sqlite\<close> (how a command reads, decides and commits), and from \<open>baley-core\<close> the event
  registry, the registered event types, the question rounds, and the project's scope: how a start
  and every later change of phases and stories is judged, recorded and projected.

  The parts, in the order a command meets them.

  \<^item> \<open>Prelude\<close>, \<open>Text\<close>, \<open>Cycles\<close>: results as sums (\<open>rbind\<close>, \<open>collect_results\<close>), sorted association
    lists for \<open>BTreeMap\<close>, decimal text, and cycles of a relation.
  \<^item> \<open>Json\<close>, \<open>Canonical\<close>, \<open>Codec\<close> (\<open>canonical.rs\<close>): \<open>serde_json\<close> values with numbers as their text,
    the canonical bytes that are hashed, and the contract of the recorded types' encoders as the
    locales \<open>codec\<close> and \<open>strict_codec\<close>, interpreted for every recorded type.
  \<^item> \<open>Utc_Time\<close> (\<open>time.rs\<close>), \<open>Caller\<close> (\<open>caller.rs\<close>), \<open>Event\<close> (\<open>event.rs\<close>), \<open>Anchor_Event\<close> and
    \<open>Payload\<close> (\<open>anchor.rs\<close>, \<open>payload.rs\<close>, \<open>retention.rs\<close>): instants, callers, sealed events and their
    hash, anchors, payload references and retention.
  \<^item> \<open>Chain\<close> (\<open>chain.rs\<close>): the verifier of a project's chain against its anchor.  \<open>chain_ok\<close> is the
    specification of a good chain, \<open>good_prefix\<close> the longest good prefix.
  \<^item> \<open>Projection\<close> (\<open>view.rs\<close> of both crates): view specifications, documents, projectors, folding an
    event over staged documents and writing them.  A view's table is a map from keys to documents;
    the locale \<open>view_projector\<close> states what a projector owes for its tables to depend on the events
    alone, whatever the batches.
  \<^item> \<open>Claim\<close>, \<open>Request\<close> (\<open>claim.rs\<close>, \<open>request.rs\<close>, \<open>command.rs\<close>): claims, leases and blocking, the
    request machine, and the store's own projectors \<open>claim_scope\<close> and \<open>request\<close>, with the maps they
    refine (\<open>scope_holder\<close>, \<open>request_step\<close>).
  \<^item> \<open>Question_Set\<close>, \<open>Question_Round\<close>, \<open>Question_View\<close> (\<open>baley-core/src/questions\<close>): the judge of a
    question set with its cycle search, the rounds, the answers, and the view they are read from.
  \<^item> \<open>Registry\<close>, \<open>Known_Types\<close> (\<open>registry.rs\<close> and the \<open>event.rs\<close> of every area): registration of event
    types, reading with upcasts, fences, and the registry the program builds when it opens a ledger.
  \<^item> \<open>Scope_Submission\<close>, \<open>Scope_Change\<close>, \<open>Scope_Rules\<close> (\<open>baley-core/src/scope\<close>: \<open>submission.rs\<close>,
    \<open>change.rs\<close>, \<open>rules.rs\<close>): the judgement of a start, of the shape of each of the ten kinds of change,
    and of a change against accepted scope and what has happened in its phases.
  \<^item> \<open>Scope_Event\<close>, \<open>Roadmap\<close> (\<open>event.rs\<close>, \<open>change_events.rs\<close>, \<open>approval.rs\<close>, \<open>roadmap.rs\<close>): the events an
    approved start or change becomes, and the projector of the \<open>roadmap\<close> document they keep current.
  \<^item> \<open>Scope_Approval\<close> (\<open>approval.rs\<close>): the judgement of an approval by digest, with the walk that names
    the first part in which two drafts differ.
  \<^item> \<open>Draft_View\<close>, \<open>Phase_View\<close>, \<open>Backlog_View\<close> (\<open>draft.rs\<close>, \<open>phase.rs\<close>, \<open>backlog.rs\<close>, and \<open>mark_purged\<close> of
    \<open>scope/mod.rs\<close>): the projectors of the drafts, of the phases and their details, and of the backlog
    with the plans in force.  Each view is stated as a step per event on what is held at a key
    (\<open>draft_step\<close>, \<open>phase_step\<close>, \<open>detail_step\<close>) or as an invariant of its document (\<open>backlog_sound\<close>).
  \<^item> \<open>Scope_Facts\<close>, \<open>Roadmap_Steps\<close>: what each event states of accepted scope (\<open>scope_fact\<close>), the
    abstract operation it is (\<open>fact_step\<close>), and the simulation by the projector.  \<open>Scope_Cycle\<close>,
    \<open>Scope_Invariant\<close>, \<open>Scope_Record\<close>, \<open>Scope_Kinds\<close>: the cycle search, the invariant of accepted scope
    (\<open>scope_ok\<close>), the facts of each kind of change, and that each kind keeps the invariant.
    \<open>Scope_Reach\<close>, \<open>Scope_Judgement\<close>, \<open>Scope_Example\<close>, \<open>Scope_Properties\<close>: the roadmap tables reached
    (\<open>roadmap_reach\<close>), a concrete start and change, and what holds of every reachable table.
  \<^item> \<open>Store_Error\<close>, \<open>View_Set\<close> (\<open>error.rs\<close>, \<open>view.rs\<close>): refusals and errors, declared views, their
    catalog text, and whether a project's live views are this binary's.
  \<^item> \<open>Store\<close> (\<open>schema.rs\<close>, \<open>store.rs\<close>, \<open>payload.rs\<close>, \<open>admin.rs\<close>): the tables as one \<open>database\<close> record of
    maps and lists, the statements the command path runs, and the write transaction.
  \<^item> \<open>Work\<close> (\<open>transact.rs\<close>): one decision inside the transaction.  A decision is a value of
    \<open>program\<close>, the tree of the operations it asks for; \<open>run\<close> answers them in order and notes errors.
  \<^item> \<open>Command_Path\<close> (\<open>transact.rs\<close>, \<open>claim.rs\<close>): one turn of the shared path and its entries
    \<open>transact\<close>, \<open>claim\<close>, \<open>complete\<close>, \<open>reconcile\<close>, and \<open>renew_lease\<close>.
  \<^item> \<open>Command_Laws\<close>, \<open>Command_Entries\<close>, \<open>Claim_Exclusion\<close>: what every entry keeps.  The locale
    \<open>command_entry\<close> has one law, that a decision whose operations did not fail took work steps;
    \<open>completing_entry\<close> and \<open>scoped_entry\<close> extend it.  They are interpreted on the code's own four
    entries, and every property of commands is read off those interpretations.
  \<^item> \<open>Request_Record\<close>: what is recorded of a completed request and that every later step of a store
    keeps it, from the locale \<open>sparing_entry\<close> on the four entries.
  \<^item> \<open>Store_Reach\<close>: the stores the code can leave (\<open>reachable\<close>), from an empty one by creating
    projects, stamping their views, running commands with any decision, and renewing leases.
  \<^item> \<open>Store_Example\<close>, \<open>Store_Properties\<close>: a concrete store for the witnesses, and what holds of every
    reachable store and every command run on one.

  What the lemmas show.  Of stores: every ledger verifies, current views are the replay of the
  ledger, a request is decided once however many commands follow, a command commits whole or not at all, an operation that
  failed fails its command, and open claims exclude one another.  Of the chain: two histories that
  match one anchor are equal up to it or exhibit a collision of the hash, the verifier accepts
  exactly the longest good prefix, and sealing extends a good chain.  Of encodings: canonical bytes
  identify a value, and recorded types are read back exactly.  Of views: projecting one event
  refines one step of an abstract map (claims, requests, question sets).  Of questions: the judge
  accepts exactly the acyclic well-formed sets, always answers, and every accepted set can be closed
  round by round.  Of scope: every reachable roadmap document reads as a sound scope, an accepted
  change always projects and leaves a complete phase as it was, the cycle search of an edit is exact,
  an accepted reorder is a topological order, numbers and ids are never reused, the judgement never
  panics on a change of accepted shape, every approval is answered, the projector refines the abstract
  operations, a purged draft is marked and only it, a backlog's sizes are its plans' sizes, and a
  replaced plan leaves no trace.  Of the registry: reading is total and follows the chain of upcasters
  (\<open>reads_to\<close>), projectors are handed what it gives, and exactly the unreadable projects are fenced.

  Bounds.  Integers are words of their width (\<open>u64\<close>, \<open>u32\<close>) wherever the code computes with them,
  with the checks of SQLite's signed integers written out (\<open>sql_int\<close>); a ledger has fewer than
  $2^{63}$ events because each sequence passed that check.  There is no fuel: loops are structural,
  except the cycle searches (of a question set, of a start and of an edit), partial functions that are
  proved to return on every input the code gives them.

  Parameters.  SHA-256 (\<open>cf_sha\<close>), reads by index (\<open>cf_find\<close>), the schema of the core
  (\<open>cf_reads\<close>, \<open>cf_projection\<close>, which \<open>Known_Types\<close> supplies), projectors beyond the store's own, and
  the decisions of callers.  Theorems hold for all of them; where they need something of one it is a
  named hypothesis (a digest of 32 bytes).

  Not modelled.  The SQLite engine, its files, locks, busy timeouts and the writer queue: a
  transaction is atomic and serial.  A row that breaks a constraint is one error whose text is not
  modelled, nor is the detail of the error for a document that does not fit its view.  JSON that is
  stored is the value itself, so the re-parsing of stored text is the identity.  Bringing views
  forward (\<open>rebuild.rs\<close>: the replay in batches, the flip and the sweep) ends a turn as
  \<open>TurnNotCurrent\<close> instead of looping.  Left out of \<open>baley-store-sqlite\<close> are also the index statements
  of \<open>find\<close> and \<open>open_claims\<close>, history reads, retention's writes, export, scrub, doctor, checkpoints
  and traces.  Of \<open>baley-core\<close> the plan, policy, guard, truth, work-order,
  capture, checkout, forge, reconcile and restore rules are not modelled beyond their event types.  The binary crate
  \<open>baley\<close> (services, MCP tools, command line, execution of agents and tests, git and file effects) and
  the benchmarks \<open>baley-bench\<close> are not modelled.
\<close>

end
